(* ===== verification/Prelude.thy ===== *)
theory Prelude
  imports Main "HOL-Library.Word"
begin

text \<open>
  What the components share: the names of the machine types, the byte-order
  arithmetic every wire format of the repository is built from, generic facts on
  lists, and the interfaces (locales) that several components satisfy:
  \<^item> \<open>prefix_codec\<close>: an encoder and a decoder that consumes exactly one encoded
    item from the front of a buffer; \<open>prefix_stream\<close> adds the loop that walks a
    whole buffer.  The control session parameters, the TLV records and the DCOL
    packets are instances.
  \<^item> \<open>op_system\<close>: a component driven by a sequence of operations, each of which
    keeps an invariant; \<open>op_simulation\<close> adds a specification of every operation.
  \<^item> \<open>drop_oldest\<close>: a bounded receive queue; \<open>incremental\<close>: a consumer of a byte stream.
\<close>

unbundle bit_operations_syntax

type_synonym byte = "8 word"
type_synonym u16 = "16 word"
type_synonym u32 = "32 word"
type_synonym u64 = "64 word"

named_theorems frame_simps \<open>reading back the bytes written into a frame\<close>

section \<open>Lists\<close>

lemma list_update_nth_other [simp]: "i \<noteq> j \<Longrightarrow> xs[i := x] ! j = xs ! j"
  by (rule nth_list_update_neq)

lemma list_all_nth: "list_all P xs \<Longrightarrow> i < length xs \<Longrightarrow> P (xs ! i)"
  by (simp add: list_all_length)

lemma filter_split_first:
  assumes "x \<in> set xs" "P x"
  obtains ys y zs where "xs = ys @ y # zs" "P y" "\<forall>z\<in>set ys. \<not> P z"
  using assms split_list_first_prop [of xs P] by blast

lemma take_drop_length: "n \<le> length xs \<Longrightarrow> length (take k (drop n xs)) = min k (length xs - n)"
  by simp

text \<open>A list written over another, element by element from an offset: the copy loops of the code.\<close>

fun write_at :: "'a list \<Rightarrow> nat \<Rightarrow> 'a list \<Rightarrow> 'a list" where
  "write_at xs off [] = xs"
| "write_at xs off (b # bs) = write_at (xs[off := b]) (Suc off) bs"

lemma length_write_at [simp]: "length (write_at xs off bs) = length xs"
  by (induction xs off bs rule: write_at.induct) auto

lemma write_at_before [simp]: "i < off \<Longrightarrow> write_at xs off bs ! i = xs ! i"
  by (induction xs off bs rule: write_at.induct) auto

lemma write_at_after: "off + length bs \<le> i \<Longrightarrow> write_at xs off bs ! i = xs ! i"
  by (induction xs off bs rule: write_at.induct) auto

lemma write_at_inside:
  "i < length bs \<Longrightarrow> off + length bs \<le> length xs \<Longrightarrow> write_at xs off bs ! (off + i) = bs ! i"
proof (induction xs off bs arbitrary: i rule: write_at.induct)
  case (1 xs off)
  then show ?case by simp
next
  case (2 xs off b bs)
  show ?case
  proof (cases i)
    case 0
    with "2.prems" show ?thesis by simp
  next
    case (Suc j)
    with "2.prems" "2.IH" [of j] show ?thesis by simp
  qed
qed

lemma take_drop_write_at:
  assumes "off + length bs \<le> length xs"
  shows "take (length bs) (drop off (write_at xs off bs)) = bs"
  using assms by (intro nth_equalityI) (auto simp: write_at_inside)

section \<open>Words as numbers\<close>

lemma unat_bound: "unat (w :: 'a::len word) < 2 ^ LENGTH('a)"
  by (rule unsigned_less)

lemma unat_byte_bound [simp]: "unat (b :: byte) < 256"
  using unat_bound [of b] by simp

lemma unat_ucast_up:
  assumes "LENGTH('a) \<le> LENGTH('b)"
  shows "unat (ucast (w :: 'a::len word) :: 'b::len word) = unat w"
proof -
  have "unat w < 2 ^ LENGTH('b)"
    using unat_bound [of w] by (rule less_le_trans) (use assms in simp)
  then show ?thesis by (simp add: unsigned_ucast_eq take_bit_nat_eq_self)
qed

lemma ucast_down_up: "LENGTH('a) \<le> LENGTH('b) \<Longrightarrow> ucast (ucast (w :: 'a::len word) :: 'b::len word) = w"
  by (rule bit_word_eqI) (simp add: bit_simps)

lemma unat_of_nat_small: "n < 2 ^ LENGTH('a) \<Longrightarrow> unat (of_nat n :: 'a::len word) = n"
  by (simp add: unat_of_nat)

section \<open>Big-endian and little-endian halves of a 16-bit value\<close>

definition hi8 :: "u16 \<Rightarrow> byte" where
  "hi8 w = ucast (drop_bit 8 w)"

definition lo8 :: "u16 \<Rightarrow> byte" where
  "lo8 w = ucast w"

definition join16 :: "byte \<Rightarrow> byte \<Rightarrow> u16" where
  "join16 h l = push_bit 8 (ucast h) OR ucast l"

lemma bit_join16: "bit (join16 h l) n \<longleftrightarrow> (if n < 8 then bit l n else n < 16 \<and> bit h (n - 8))"
  unfolding join16_def
  by (auto simp: bit_simps dest: bit_imp_le_length)

lemma join16_halves [simp]: "join16 (hi8 w) (lo8 w) = w"
  by (rule bit_word_eqI) (auto simp: bit_join16 hi8_def lo8_def bit_simps)

lemma hi8_join16 [simp]: "hi8 (join16 h l) = h"
  by (rule bit_word_eqI) (auto simp: hi8_def bit_simps bit_join16)

lemma lo8_join16 [simp]: "lo8 (join16 h l) = l"
  by (rule bit_word_eqI) (auto simp: lo8_def bit_simps bit_join16)

lemma join16_eq_iff [simp]: "join16 a b = join16 c d \<longleftrightarrow> a = c \<and> b = d"
  by (metis hi8_join16 lo8_join16)

section \<open>Interfaces\<close>

text \<open>
  An encoder whose output a decoder can take off the front of any buffer.  What the
  clients of a wire format rely on: items are not confused with one another and a
  concatenation of items splits in one way only.
\<close>

locale prefix_codec =
  fixes enc :: "'a \<Rightarrow> byte list"
    and dec :: "byte list \<Rightarrow> ('a \<times> byte list) option"
    and ok :: "'a \<Rightarrow> bool"
  assumes dec_enc: "ok x \<Longrightarrow> dec (enc x @ rest) = Some (x, rest)"
    and enc_nonempty: "ok x \<Longrightarrow> enc x \<noteq> []"
begin

lemma enc_prefix_free:
  assumes "ok x" "ok y" "enc x @ r = enc y @ s"
  shows "x = y \<and> r = s"
proof -
  have "Some (x, r) = dec (enc x @ r)" by (rule dec_enc [OF assms(1), symmetric])
  also have "\<dots> = dec (enc y @ s)" by (rule arg_cong [OF assms(3)])
  also have "\<dots> = Some (y, s)" by (rule dec_enc [OF assms(2)])
  finally show ?thesis by simp
qed

lemma enc_stream_unique:
  assumes "list_all ok xs" "list_all ok ys" "concat (map enc xs) = concat (map enc ys)"
  shows "xs = ys"
  using assms
proof (induction xs arbitrary: ys)
  case Nil
  show ?case
  proof (cases ys)
    case (Cons y ys')
    with Nil.prems enc_nonempty [of y] show ?thesis by simp
  qed simp
next
  case (Cons x xs)
  obtain y ys' where ys: "ys = y # ys'"
    using Cons.prems enc_nonempty [of x] by (cases ys) simp_all
  have ok: "ok x" "list_all ok xs" "ok y" "list_all ok ys'"
    using Cons.prems(1,2) ys by simp_all
  have "enc x @ concat (map enc xs) = enc y @ concat (map enc ys')"
    using Cons.prems(3) ys by simp
  from enc_prefix_free [OF ok(1,3) this] Cons.IH [OF ok(2,4)] ys show ?case by simp
qed

end

text \<open>The loop over a whole buffer: it stops at the end of the input and otherwise decodes one item.\<close>

locale prefix_stream = prefix_codec +
  fixes many :: "byte list \<Rightarrow> 'a list option"
  assumes many_Nil: "many [] = Some []"
    and many_step: "bs \<noteq> [] \<Longrightarrow> dec bs = Some (x, r) \<Longrightarrow> many bs = map_option ((#) x) (many r)"
begin

lemma many_concat: "list_all ok xs \<Longrightarrow> many (concat (map enc xs)) = Some xs"
proof (induction xs)
  case Nil
  show ?case by (simp add: many_Nil)
next
  case (Cons x xs)
  then have "dec (enc x @ concat (map enc xs)) = Some (x, concat (map enc xs))"
    by (simp add: dec_enc)
  with Cons show ?case
    using many_step [of "enc x @ concat (map enc xs)"] enc_nonempty [of x] by simp
qed

end

text \<open>A component driven by operations: what one operation keeps, a sequence of them keeps.\<close>

locale op_system =
  fixes exec :: "'op \<Rightarrow> 's \<Rightarrow> 's"
    and inv :: "'s \<Rightarrow> bool"
  assumes inv_exec: "inv s \<Longrightarrow> inv (exec p s)"
begin

lemma inv_run: "inv s \<Longrightarrow> inv (fold exec ps s)"
  by (induction ps arbitrary: s) (auto intro: inv_exec)

end

text \<open>
  A receive queue of bounded depth that makes room by dropping its oldest element.  The push
  may be undefined (\<open>None\<close>) outside the contract.
\<close>

locale drop_oldest =
  fixes items :: "'s \<Rightarrow> 'a list"
    and depth :: "'s \<Rightarrow> nat"
    and ready :: "'s \<Rightarrow> bool"
    and push :: "'a \<Rightarrow> 's \<Rightarrow> 's option"
  assumes push_items: "ready s \<Longrightarrow> 0 < depth s \<Longrightarrow> length (items s) \<le> depth s \<Longrightarrow>
      \<exists>s'. push x s = Some s' \<and> ready s' \<and> depth s' = depth s \<and>
        items s' = drop (Suc (length (items s)) - depth s) (items s @ [x])"
begin

fun push_all :: "'a list \<Rightarrow> 's \<Rightarrow> 's option" where
  "push_all [] s = Some s"
| "push_all (x # xs) s = Option.bind (push x s) (push_all xs)"

text \<open>However many elements arrive, the queue ends up holding the most recent ones.\<close>

lemma push_all_items:
  assumes "ready s" "0 < depth s" "length (items s) \<le> depth s"
  shows "\<exists>s'. push_all xs s = Some s' \<and> depth s' = depth s \<and>
    items s' = drop (length (items s) + length xs - depth s) (items s @ xs)"
  using assms
proof (induction xs arbitrary: s)
  case Nil
  then show ?case by simp
next
  case (Cons x xs)
  from push_items [OF Cons.prems, of x] obtain s1 where s1:
    "push x s = Some s1" "ready s1" "depth s1 = depth s"
    "items s1 = drop (Suc (length (items s)) - depth s) (items s @ [x])"
    by blast
  have len: "length (items s1) \<le> depth s1" using s1 Cons.prems by auto
  from Cons.IH [OF s1(2) _ len] s1 Cons.prems obtain s2 where s2:
    "push_all xs s1 = Some s2" "depth s2 = depth s"
    "items s2 = drop (length (items s1) + length xs - depth s) (items s1 @ xs)"
    by auto
  show ?case
  proof (cases "length (items s) < depth s")
    case True
    then have "Suc (length (items s)) - depth s = 0" by simp
    with s2 s1 show ?thesis by simp
  next
    case False
    with Cons.prems(3) have full: "length (items s) = depth s" by simp
    with s1(4) have "items s1 = drop 1 (items s) @ [x]"
      using Cons.prems(2) by (simp add: Suc_diff_le)
    with s2 s1(1) full Cons.prems(2) show ?thesis by simp
  qed
qed

end


text \<open>
  A consumer of a byte stream that takes complete units off the front of its buffer and leaves the
  rest: bytes that arrive later only extend what is left.  Such a consumer does not see how the
  stream is cut.
\<close>

locale incremental =
  fixes consume :: "byte list \<Rightarrow> 's \<Rightarrow> byte list \<times> 's"
  assumes consume_append: "consume (bs @ cs) s = (let (r, s1) = consume bs s in consume (r @ cs) s1)"
begin

definition take_in :: "byte list \<Rightarrow> byte list \<times> 's \<Rightarrow> byte list \<times> 's" where
  "take_in cs = (\<lambda>(r, s). consume (r @ cs) s)"

lemma take_in_chunks: "fold take_in (cs # css) rs = take_in (concat (cs # css)) rs"
proof (induction css arbitrary: cs rs)
  case (Cons c css)
  obtain r s where rs: "rs = (r, s)" by fastforce
  have "take_in c (take_in cs rs) = take_in (cs @ c) rs"
    using consume_append [of "r @ cs" c s] by (simp add: take_in_def rs split_beta Let_def)
  with Cons.IH [of "cs @ c" rs] show ?case by simp
qed simp

end

text \<open>A component whose operations answer, and a specification of it: what one operation does,
  a sequence of operations does.\<close>

fun run_ops :: "('o \<Rightarrow> 's \<Rightarrow> 'a \<times> 's) \<Rightarrow> 'o list \<Rightarrow> 's \<Rightarrow> 'a list \<times> 's" where
  "run_ops step [] s = ([], s)"
| "run_ops step (op # ops) s =
     (case step op s of (a, s') \<Rightarrow> case run_ops step ops s' of (as, s'') \<Rightarrow> (a # as, s''))"

locale op_simulation =
  fixes step :: "'o \<Rightarrow> 's \<Rightarrow> 'a \<times> 's"
    and spec :: "'o \<Rightarrow> 't \<Rightarrow> 'a \<times> 't"
    and abs :: "'s \<Rightarrow> 't"
    and allowed :: "'o \<Rightarrow> bool"
    and inv :: "'s \<Rightarrow> bool"
  assumes step_inv: "inv s \<Longrightarrow> allowed op \<Longrightarrow> inv (snd (step op s))"
    and step_spec: "inv s \<Longrightarrow> allowed op \<Longrightarrow>
      spec op (abs s) = (fst (step op s), abs (snd (step op s)))"
begin

lemma run_spec:
  "inv s \<Longrightarrow> list_all allowed ops \<Longrightarrow>
   run_ops spec ops (abs s) = (fst (run_ops step ops s), abs (snd (run_ops step ops s))) \<and>
   inv (snd (run_ops step ops s))"
proof (induction ops arbitrary: s)
  case (Cons op ops)
  obtain a s1 where s1: "step op s = (a, s1)" by fastforce
  obtain as s2 where s2: "run_ops step ops s1 = (as, s2)" by fastforce
  from step_inv [of s op] step_spec [of s op] Cons.IH [of s1] Cons.prems s1 s2 show ?case
    by simp
qed simp

end

end
