(* ===== verification/CanFrame.thy ===== *)
theory CanFrame
  imports Prelude
begin

text \<open>
  One CAN frame as it moves through the repository (libs/helpers/include/helpers/can_frame.h)
  and the CAN FD length code (libs/can/src/dlc.cpp).  The 64-byte payload array is a list of
  64 bytes; \<open>frame_wf\<close> states that length and every operation on frames keeps it.
\<close>

section \<open>The frame\<close>

record can_frame =
  frame_id :: u32
  frame_len :: byte
  isExtended :: bool
  isFD :: bool
  isRTR :: bool
  isBRS :: bool
  isESI :: bool
  isError :: bool
  timestampUs :: u64
  frame_data :: "byte list"

definition empty_frame :: can_frame where
  "empty_frame = \<lparr>frame_id = 0, frame_len = 0, isExtended = False, isFD = False, isRTR = False,
     isBRS = False, isESI = False, isError = False, timestampUs = 0,
     frame_data = replicate 64 0\<rparr>"

definition frame_wf :: "can_frame \<Rightarrow> bool" where
  "frame_wf f \<longleftrightarrow> length (frame_data f) = 64"

definition data_span :: "can_frame \<Rightarrow> byte list" where
  "data_span f = take (min (unat (frame_len f)) (length (frame_data f))) (frame_data f)"

definition id_mask :: "can_frame \<Rightarrow> u32" where
  "id_mask f = (if isExtended f then 0x1FFFFFFF else 0x7FF)"

definition id_fits :: "can_frame \<Rightarrow> bool" where
  "id_fits f \<longleftrightarrow> frame_id f \<le> id_mask f"

text \<open>\<open>frame.data[i] = b\<close> for an index inside the array.\<close>

definition put_byte :: "nat \<Rightarrow> byte \<Rightarrow> can_frame \<Rightarrow> can_frame" where
  "put_byte i b f = f\<lparr>frame_data := (frame_data f)[i := b]\<rparr>"

definition put_bytes :: "nat \<Rightarrow> byte list \<Rightarrow> can_frame \<Rightarrow> can_frame" where
  "put_bytes off bs f = f\<lparr>frame_data := write_at (frame_data f) off bs\<rparr>"

definition byte_at :: "can_frame \<Rightarrow> nat \<Rightarrow> byte" where
  "byte_at f i = frame_data f ! i"

lemma empty_frame_wf [simp]: "frame_wf empty_frame"
  by (simp add: frame_wf_def empty_frame_def)

lemma frame_wf_put [simp]:
  "frame_wf (put_byte i b f) \<longleftrightarrow> frame_wf f"
  "frame_wf (put_bytes i bs f) \<longleftrightarrow> frame_wf f"
  "frame_wf (f\<lparr>frame_id := w\<rparr>) \<longleftrightarrow> frame_wf f"
  "frame_wf (f\<lparr>frame_len := n\<rparr>) \<longleftrightarrow> frame_wf f"
  by (simp_all add: frame_wf_def put_byte_def put_bytes_def)

lemma put_fields [frame_simps]:
  "frame_id (put_byte i b f) = frame_id f" "frame_len (put_byte i b f) = frame_len f"
  "frame_id (put_bytes i bs f) = frame_id f" "frame_len (put_bytes i bs f) = frame_len f"
  by (simp_all add: put_byte_def put_bytes_def)

lemma byte_at_fields [frame_simps]:
  "byte_at (f\<lparr>frame_id := w\<rparr>) i = byte_at f i" "byte_at (f\<lparr>frame_len := n\<rparr>) i = byte_at f i"
  by (simp_all add: byte_at_def)

lemma byte_at_put_byte [frame_simps]:
  "frame_wf f \<Longrightarrow> i < 64 \<Longrightarrow> byte_at (put_byte i b f) j = (if i = j then b else byte_at f j)"
  by (simp add: byte_at_def put_byte_def frame_wf_def)

lemma byte_at_put_bytes:
  assumes "frame_wf f" "off + length bs \<le> 64"
  shows "byte_at (put_bytes off bs f) j =
    (if off \<le> j \<and> j < off + length bs then bs ! (j - off) else byte_at f j)"
proof -
  have "off \<le> j \<Longrightarrow> j < off + length bs \<Longrightarrow> write_at (frame_data f) off bs ! j = bs ! (j - off)"
    using assms write_at_inside [of "j - off" bs off "frame_data f"] by (simp add: frame_wf_def)
  then show ?thesis
    by (auto simp: byte_at_def put_bytes_def write_at_after not_le)
qed

lemma byte_at_put_bytes_before [frame_simps]:
  "j < off \<Longrightarrow> byte_at (put_bytes off bs f) j = byte_at f j"
  by (simp add: byte_at_def put_bytes_def)

lemma byte_at_empty [frame_simps]: "i < 64 \<Longrightarrow> byte_at empty_frame i = 0"
  by (simp add: byte_at_def empty_frame_def)

lemma take_drop_put_bytes:
  "frame_wf f \<Longrightarrow> off + length bs \<le> 64 \<Longrightarrow>
   take (length bs) (drop off (frame_data (put_bytes off bs f))) = bs"
  by (simp add: put_bytes_def frame_wf_def take_drop_write_at)

section \<open>The CAN FD length code\<close>

definition kDlcToLength :: "byte list" where
  "kDlcToLength = [0, 1, 2, 3, 4, 5, 6, 7, 8, 12, 16, 20, 24, 32, 48, 64]"

definition dlc_to_length :: "byte \<Rightarrow> bool \<Rightarrow> byte" where
  "dlc_to_length dlc fd =
     (let index = dlc AND 0x0F in
      if \<not> fd then (if 8 < index then 8 else index) else kDlcToLength ! unat index)"

text \<open>The two scans of the table: for each code 0 .. 15 in turn, return at the first hit.\<close>

fun first_dlc_at_least :: "byte \<Rightarrow> byte list \<Rightarrow> byte \<Rightarrow> byte" where
  "first_dlc_at_least n [] dlc = 15"
| "first_dlc_at_least n (v # vs) dlc =
     (if n \<le> v then dlc else first_dlc_at_least n vs (dlc + 1))"

definition length_to_dlc :: "byte \<Rightarrow> bool \<Rightarrow> byte" where
  "length_to_dlc n fd =
     (if \<not> fd then (if 8 < n then 8 else n) else first_dlc_at_least n kDlcToLength 0)"

definition is_valid_can_length :: "byte \<Rightarrow> bool \<Rightarrow> bool" where
  "is_valid_can_length n fd =
     (if \<not> fd then n \<le> 8 else list_ex (\<lambda>v. v = n) kDlcToLength)"

definition round_up_can_length :: "byte \<Rightarrow> bool \<Rightarrow> byte" where
  "round_up_can_length n fd = dlc_to_length (length_to_dlc n fd) fd"

text \<open>The scan returns the index of the first entry that is large enough, or 15.\<close>

lemma first_dlc_index:
  assumes "i < length vs" "n \<le> vs ! i" "\<forall>j<i. vs ! j < n" "unat dlc + length vs \<le> 255"
  shows "first_dlc_at_least n vs dlc = dlc + of_nat i"
  using assms
proof (induction n vs dlc arbitrary: i rule: first_dlc_at_least.induct)
  case (1 n dlc)
  then show ?case by simp
next
  case (2 n v vs dlc)
  show ?case
  proof (cases "n \<le> v")
    case True
    then have "i = 0" using "2.prems"(3) by (cases i) auto
    with True show ?thesis by simp
  next
    case False
    then obtain j where j: "i = Suc j" using "2.prems"(2) by (cases i) auto
    have "unat (dlc + 1) = unat dlc + 1"
      using "2.prems"(4) by (simp add: unat_word_ariths)
    moreover have "\<forall>k<j. vs ! k < n"
      using "2.prems"(3) j by force
    ultimately show ?thesis
      using "2.IH" [OF False, of j] "2.prems" j False by (simp add: algebra_simps)
  qed
qed

lemma first_dlc_none: "\<forall>v\<in>set vs. v < n \<Longrightarrow> first_dlc_at_least n vs dlc = 15"
  by (induction n vs dlc rule: first_dlc_at_least.induct) (auto simp: not_le)

lemma kDlcToLength_bound: "v \<in> set kDlcToLength \<Longrightarrow> v \<le> 64"
  by (auto simp: kDlcToLength_def)

lemma kDlcToLength_sorted: "sorted kDlcToLength"
  by (simp add: kDlcToLength_def)

lemma length_kDlcToLength [simp]: "length kDlcToLength = 16"
  by (simp add: kDlcToLength_def)

lemma round_up_fd_entry:
  assumes "n \<le> 64"
  obtains i where "i < 16" "round_up_can_length n True = kDlcToLength ! i" "n \<le> kDlcToLength ! i"
    "\<forall>j<i. kDlcToLength ! j < n"
proof -
  let ?P = "\<lambda>i. i < 16 \<and> n \<le> kDlcToLength ! i"
  have "?P 15" using assms by (simp add: kDlcToLength_def)
  then have P: "?P (LEAST i. ?P i)" by (rule LeastI)
  define i where "i = (LEAST i. ?P i)"
  have below: "\<forall>j<i. kDlcToLength ! j < n"
  proof (intro allI impI)
    fix j assume j: "j < i"
    from not_less_Least [OF j [unfolded i_def]] have "\<not> ?P j" .
    moreover have "j < 16" using j P i_def by simp
    ultimately show "kDlcToLength ! j < n" by (simp add: not_le)
  qed
  have "length_to_dlc n True = of_nat i"
    using first_dlc_index [of i kDlcToLength n 0] P below by (simp add: length_to_dlc_def i_def)
  moreover have "unat ((of_nat i :: byte) AND 0x0F) = i"
  proof -
    have "(of_nat i :: byte) AND 0x0F = of_nat i AND mask 4" by (simp add: mask_eq_exp_minus_1)
    also have "\<dots> = of_nat i"
      using P i_def by (simp add: take_bit_eq_mask [symmetric] take_bit_nat_eq_self flip: of_nat_take_bit)
    finally show ?thesis using P i_def by (simp add: unat_of_nat)
  qed
  ultimately have "round_up_can_length n True = kDlcToLength ! i"
    by (simp add: round_up_can_length_def dlc_to_length_def)
  with P below that i_def show thesis by blast
qed

text \<open>
  Rounding a payload length up gives the least length the format can carry exactly at or
  above it, and a length beyond the format's maximum gives the maximum (64 for CAN FD, 8 for
  classic CAN); the result can always be sent as it is.
\<close>

theorem round_up_can_length_least:
  "is_valid_can_length (round_up_can_length n fd) fd \<and>
   (if n \<le> (if fd then 64 else 8)
    then n \<le> round_up_can_length n fd \<and>
         \<not> (\<exists>m. is_valid_can_length m fd \<and> n \<le> m \<and> m < round_up_can_length n fd)
    else round_up_can_length n fd = (if fd then 64 else 8))"
proof (cases fd)
  case False
  have "(n AND 15) = n" if "n \<le> 8"
  proof -
    from that have "n < 2 ^ 4" by (simp add: word_le_nat_alt word_less_nat_alt)
    then have "n AND mask 4 = n" by (rule less_mask_eq)
    then show ?thesis by (simp add: mask_eq_exp_minus_1)
  qed
  with False show ?thesis
    by (auto simp: is_valid_can_length_def round_up_can_length_def dlc_to_length_def
      length_to_dlc_def Let_def not_le not_less)
next
  case True
  show ?thesis
  proof (cases "n \<le> 64")
    case le: True
    then obtain i where i: "i < 16" "round_up_can_length n True = kDlcToLength ! i"
      "n \<le> kDlcToLength ! i" "\<forall>j<i. kDlcToLength ! j < n"
      by (rule round_up_fd_entry)
    have "kDlcToLength ! i \<le> m" if m: "is_valid_can_length m True" "n \<le> m" for m
    proof -
      from m(1) obtain j where j: "j < 16" "m = kDlcToLength ! j"
        by (auto simp: is_valid_can_length_def list_ex_length)
      have "i \<le> j" using i(4) m(2) j(2) by (metis leD le_less_linear)
      then show ?thesis using sorted_nth_mono [OF kDlcToLength_sorted, of i j] j by simp
    qed
    moreover have "is_valid_can_length (kDlcToLength ! i) True"
      using i(1) by (auto simp: is_valid_can_length_def list_ex_length)
    ultimately show ?thesis using True le i by (auto simp: not_less)
  next
    case False
    have "first_dlc_at_least n kDlcToLength 0 = 15"
      using False kDlcToLength_bound by (intro first_dlc_none) (force simp: not_le)
    then show ?thesis using True False
      by (simp add: round_up_can_length_def length_to_dlc_def dlc_to_length_def
        is_valid_can_length_def kDlcToLength_def)
  qed
qed

end
