(* ===== verification/CanBitrate.thy ===== *)
theory CanBitrate
  imports CanFrame
begin

text \<open>
  libs/can: the error kinds (error.h) and the bit timing solver (bitrate.h, bitrate.cpp).
  The C++ computes in 64-bit integers from 16- and 32-bit inputs; every intermediate value
  fits (the largest, \<open>bitrate * tq\<close>, stays below 2^50), so the model computes in
  \<open>nat\<close> and \<open>int\<close> and converts back to the field widths where the code casts.
  Integer division by zero, undefined in C++, is the outcome \<open>DivisionByZero\<close>.
\<close>

section \<open>Errors\<close>

datatype can_error_kind =
    NotFound | Busy | PermissionDenied | Unsupported | InvalidArgument | InvalidState | Io | Protocol

datatype can_failure = Err can_error_kind | DivisionByZero

section \<open>Data\<close>

record bitrate =
  nominalBps :: u32
  nominalSamplePointPermille :: u16
  dataBps :: u32
  dataSamplePointPermille :: u16

definition bitrate_fd :: "bitrate \<Rightarrow> bool" where
  "bitrate_fd b \<longleftrightarrow> dataBps b \<noteq> 0"

record bit_timing_limits =
  clockHz :: u32
  tseg1Min :: u16
  tseg1Max :: u16
  tseg2Min :: u16
  tseg2Max :: u16
  sjwMax :: u16
  brpMin :: u32
  brpMax :: u32

definition default_limits :: bit_timing_limits where
  "default_limits = \<lparr>clockHz = 80000000, tseg1Min = 1, tseg1Max = 64, tseg2Min = 1, tseg2Max = 16,
     sjwMax = 16, brpMin = 1, brpMax = 1024\<rparr>"

record bit_timing =
  bt_brp :: u32
  bt_tseg1 :: u16
  bt_tseg2 :: u16
  bt_sjw :: u16
  bt_bitrateBps :: u32
  bt_samplePointPermille :: u16

definition bt_tq :: "bit_timing \<Rightarrow> u16" where
  "bt_tq t = 1 + bt_tseg1 t + bt_tseg2 t"

definition kMaxErrorPermille :: nat where
  "kMaxErrorPermille = 5"

definition abs_diff :: "u32 \<Rightarrow> u32 \<Rightarrow> u32" where
  "abs_diff a b = (if b < a then a - b else b - a)"

definition default_sample_point_permille :: "u32 \<Rightarrow> u16" where
  "default_sample_point_permille bps =
     (if 800000 < bps then 750 else if 500000 < bps then 800 else 875)"

section \<open>The solver\<close>

text \<open>How the quanta of one bit are split around the sample point, the clamps in the code's order.\<close>

definition split_quanta :: "bit_timing_limits \<Rightarrow> u16 \<Rightarrow> nat \<Rightarrow> int \<times> int" where
  "split_quanta lim sp tq =
    (let t1 = (uint sp * int tq) div 1000 - 1;
         t1 = (if t1 < uint (tseg1Min lim) then uint (tseg1Min lim) else t1);
         t1 = (if t1 > uint (tseg1Max lim) then uint (tseg1Max lim) else t1);
         t2 = int tq - 1 - t1;
         (t1, t2) = (if t2 < uint (tseg2Min lim)
                     then (int tq - 1 - uint (tseg2Min lim), uint (tseg2Min lim)) else (t1, t2));
         (t1, t2) = (if t2 > uint (tseg2Max lim)
                     then (int tq - 1 - uint (tseg2Max lim), uint (tseg2Max lim)) else (t1, t2))
     in (t1, t2))"

text \<open>
  One round of the loop, up to the comparison with the best so far: \<open>None\<close> is a
  \<open>continue\<close>, otherwise the rate error, the sample point error and the timing.
\<close>

definition bt_candidate ::
  "bit_timing_limits \<Rightarrow> u32 \<Rightarrow> u16 \<Rightarrow> nat \<Rightarrow> can_failure + (u32 \<times> u32 \<times> bit_timing) option" where
  "bt_candidate lim bps sp tq =
    (let denominator = unat bps * tq in
     if denominator = 0 then Inr None else
     let brp = (unat (clockHz lim) + denominator div 2) div denominator in
     if brp < unat (brpMin lim) \<or> brp > unat (brpMax lim) then Inr None
     else if brp * tq = 0 then Inl DivisionByZero
     else
       let actual = of_nat (unat (clockHz lim) div (brp * tq)) :: u32;
           rateError = abs_diff actual bps;
           (t1, t2) = split_quanta lim sp tq
       in if t1 < uint (tseg1Min lim) \<or> t1 > uint (tseg1Max lim) then Inr None
          else
            let actualSamplePoint = word_of_int (((1 + t1) * 1000) div int tq) :: u16;
                sampleError = abs_diff (ucast actualSamplePoint) (ucast sp);
                tseg2 = word_of_int t2 :: u16;
                sjw = ucast (min (ucast (sjwMax lim)) (ucast tseg2 :: u32)) :: u16
            in Inr (Some (rateError, sampleError,
                 \<lparr>bt_brp = of_nat brp, bt_tseg1 = word_of_int t1, bt_tseg2 = tseg2,
                  bt_sjw = (if sjw = 0 then 1 else sjw), bt_bitrateBps = actual,
                  bt_samplePointPermille = actualSamplePoint\<rparr>)))"

definition bt_better :: "u32 \<Rightarrow> u32 \<Rightarrow> (u32 \<times> u32 \<times> bit_timing) option \<Rightarrow> bool" where
  "bt_better rateError sampleError best =
    (case best of None \<Rightarrow> True
     | Some (bestRateError, bestSampleError, _) \<Rightarrow>
         rateError < bestRateError \<or>
         (rateError = bestRateError \<and> sampleError < bestSampleError))"

fun bt_loop ::
  "bit_timing_limits \<Rightarrow> u32 \<Rightarrow> u16 \<Rightarrow> nat list \<Rightarrow> (u32 \<times> u32 \<times> bit_timing) option \<Rightarrow>
   can_failure + (u32 \<times> u32 \<times> bit_timing) option" where
  "bt_loop lim bps sp [] best = Inr best"
| "bt_loop lim bps sp (tq # tqs) best =
    (case bt_candidate lim bps sp tq of
       Inl e \<Rightarrow> Inl e
     | Inr None \<Rightarrow> bt_loop lim bps sp tqs best
     | Inr (Some (re, se, t)) \<Rightarrow>
         if bt_better re se best then
           (if re = 0 \<and> se = 0 then Inr (Some (re, se, t))
            else bt_loop lim bps sp tqs (Some (re, se, t)))
         else bt_loop lim bps sp tqs best)"

text \<open>The quanta counts the loop visits, longest bit first.\<close>

definition tq_range :: "bit_timing_limits \<Rightarrow> nat list" where
  "tq_range lim =
     rev [1 + unat (tseg1Min lim) + unat (tseg2Min lim) ..<
          Suc (1 + unat (tseg1Max lim) + unat (tseg2Max lim))]"

definition effective_sample_point :: "u32 \<Rightarrow> u16 \<Rightarrow> u16" where
  "effective_sample_point bps sp = (if sp = 0 then default_sample_point_permille bps else sp)"

definition solve_bit_timing ::
  "u32 \<Rightarrow> u16 \<Rightarrow> bit_timing_limits \<Rightarrow> can_failure + bit_timing" where
  "solve_bit_timing bps sp lim =
    (if bps = 0 then Inl (Err InvalidArgument)
     else if clockHz lim = 0 then Inl (Err InvalidArgument)
     else
       let sp = effective_sample_point bps sp in
       if 1000 \<le> sp then Inl (Err InvalidArgument)
       else case bt_loop lim bps sp (tq_range lim) None of
              Inl e \<Rightarrow> Inl e
            | Inr None \<Rightarrow> Inl (Err Unsupported)
            | Inr (Some (re, se, t)) \<Rightarrow>
                if (unat re * 1000) div unat bps > kMaxErrorPermille then Inl (Err Unsupported)
                else Inr t)"

section \<open>The loop keeps the least error\<close>

definition err_le :: "u32 \<times> u32 \<Rightarrow> u32 \<times> u32 \<Rightarrow> bool" where
  "err_le a b \<longleftrightarrow> fst a < fst b \<or> (fst a = fst b \<and> snd a \<le> snd b)"

lemma err_le_refl [simp]: "err_le a a"
  by (simp add: err_le_def)

lemma err_le_trans: "err_le a b \<Longrightarrow> err_le b c \<Longrightarrow> err_le a c"
  by (auto simp: err_le_def)

lemma err_le_zero [simp]: "err_le (0, 0) a"
  by (auto simp: err_le_def word_neq_0_conv)

lemma not_better: "\<not> bt_better re se (Some (re', se', t')) \<Longrightarrow> err_le (re', se') (re, se)"
  by (auto simp: bt_better_def err_le_def not_less)

lemma better_some: "bt_better re se (Some (re', se', t')) \<Longrightarrow> err_le (re, se) (re', se')"
  by (auto simp: bt_better_def err_le_def)

text \<open>
  What a finished loop returns: a candidate of one of the visited counts (or the best it was
  started with), with an error no larger than that of any candidate visited.
\<close>

definition loop_result ::
  "bit_timing_limits \<Rightarrow> u32 \<Rightarrow> u16 \<Rightarrow> nat list \<Rightarrow> (u32 \<times> u32 \<times> bit_timing) option \<Rightarrow>
   (u32 \<times> u32 \<times> bit_timing) option \<Rightarrow> bool" where
  "loop_result lim bps sp tqs best res \<longleftrightarrow>
     (case res of
        None \<Rightarrow> best = None \<and> (\<forall>tq\<in>set tqs. bt_candidate lim bps sp tq = Inr None)
      | Some (re, se, t) \<Rightarrow>
          (best = Some (re, se, t) \<or> (\<exists>tq\<in>set tqs. bt_candidate lim bps sp tq = Inr (Some (re, se, t)))) \<and>
          (\<forall>re' se' t'. best = Some (re', se', t') \<longrightarrow> err_le (re, se) (re', se')) \<and>
          (\<forall>tq\<in>set tqs. \<forall>re' se' t'.
             bt_candidate lim bps sp tq = Inr (Some (re', se', t')) \<longrightarrow> err_le (re, se) (re', se')))"

lemma loop_result_skip:
  "bt_candidate lim bps sp tq = Inr None \<Longrightarrow> loop_result lim bps sp tqs best res \<Longrightarrow>
   loop_result lim bps sp (tq # tqs) best res"
  by (auto simp: loop_result_def split: option.splits)

lemma loop_result_worse:
  assumes "bt_candidate lim bps sp tq = Inr (Some (re, se, t))" "\<not> bt_better re se best"
    "loop_result lim bps sp tqs best res"
  shows "loop_result lim bps sp (tq # tqs) best res"
proof -
  from assms(2) obtain re0 se0 t0 where b: "best = Some (re0, se0, t0)"
    by (auto simp: bt_better_def split: option.splits prod.splits)
  with assms(3) obtain re1 se1 t1 where r: "res = Some (re1, se1, t1)"
    by (auto simp: loop_result_def split: option.splits)
  with b assms(3) have "err_le (re1, se1) (re0, se0)" by (simp add: loop_result_def)
  then have "err_le (re1, se1) (re, se)"
    by (rule err_le_trans) (rule not_better [OF assms(2) [unfolded b]])
  with assms(1,3) b r show ?thesis by (auto simp: loop_result_def)
qed

lemma loop_result_better:
  assumes "bt_candidate lim bps sp tq = Inr (Some (re, se, t))" "bt_better re se best"
    "loop_result lim bps sp tqs (Some (re, se, t)) res"
  shows "loop_result lim bps sp (tq # tqs) best res"
proof -
  from assms(3) obtain re1 se1 t1 where r: "res = Some (re1, se1, t1)"
    by (auto simp: loop_result_def split: option.splits)
  have le: "err_le (re1, se1) (re, se)"
    using assms(3) r by (simp add: loop_result_def)
  have "err_le (re1, se1) (re', se')" if "best = Some (re', se', t')" for re' se' t'
    using better_some assms(2) that err_le_trans [OF le] by blast
  with le assms(1,3) r show ?thesis by (auto simp: loop_result_def)
qed

lemma bt_loop_result:
  "bt_loop lim bps sp tqs best = Inr res \<Longrightarrow> loop_result lim bps sp tqs best res"
proof (induction lim bps sp tqs best rule: bt_loop.induct)
  case (1 lim bps sp best)
  then show ?case by (auto simp: loop_result_def split: option.splits)
next
  case (2 lim bps sp tq tqs best)
  show ?case
  proof (cases "bt_candidate lim bps sp tq")
    case (Inl e)
    with "2.prems" show ?thesis by simp
  next
    case (Inr c)
    show ?thesis
    proof (cases c)
      case None
      with Inr "2.prems" "2.IH"(1) show ?thesis by (simp add: loop_result_skip)
    next
      case (Some x)
      obtain re se t where x: "x = (re, se, t)" by (cases x)
      note cand = Inr [unfolded Some x]
      show ?thesis
      proof (cases "bt_better re se best")
        case better: True
        show ?thesis
        proof (cases "re = 0 \<and> se = 0")
          case True
          with cand better "2.prems" have "res = Some (0, 0, t)" by simp
          with cand better True show ?thesis
            by (auto simp: loop_result_def intro!: bexI [of _ tq])
        next
          case False
          with cand better "2.prems" "2.IH"(2) Some x Inr show ?thesis
            by (intro loop_result_better [OF cand better]) simp
        qed
      next
        case False
        with cand "2.prems" "2.IH"(3) Some x Inr show ?thesis
          by (intro loop_result_worse [OF cand False]) simp
      qed
    qed
  qed
qed

section \<open>What a candidate satisfies\<close>

definition limits_consistent :: "bit_timing_limits \<Rightarrow> bool" where
  "limits_consistent lim \<longleftrightarrow> tseg2Min lim \<le> tseg2Max lim \<and> 0 < brpMin lim"

definition timing_within :: "bit_timing_limits \<Rightarrow> bit_timing \<Rightarrow> bool" where
  "timing_within lim t \<longleftrightarrow>
     brpMin lim \<le> bt_brp t \<and> bt_brp t \<le> brpMax lim \<and>
     tseg1Min lim \<le> bt_tseg1 t \<and> bt_tseg1 t \<le> tseg1Max lim \<and>
     tseg2Min lim \<le> bt_tseg2 t \<and> bt_tseg2 t \<le> tseg2Max lim \<and>
     1 \<le> bt_sjw t \<and> bt_sjw t \<le> max 1 (bt_tseg2 t) \<and> bt_sjw t \<le> max 1 (sjwMax lim)"

definition timing_rate :: "bit_timing_limits \<Rightarrow> bit_timing \<Rightarrow> nat" where
  "timing_rate lim t =
     unat (clockHz lim) div (unat (bt_brp t) * (1 + unat (bt_tseg1 t) + unat (bt_tseg2 t)))"

lemma split_quanta_sum:
  "split_quanta lim sp tq = (t1, t2) \<Longrightarrow> 1 + t1 + t2 = int tq"
  unfolding split_quanta_def Let_def by (simp split: if_splits prod.splits)

lemma split_quanta_tseg2:
  assumes "split_quanta lim sp tq = (t1, t2)" "tseg2Min lim \<le> tseg2Max lim"
  shows "uint (tseg2Min lim) \<le> t2 \<and> t2 \<le> uint (tseg2Max lim)"
  using assms(1) word_le_def [THEN iffD1, OF assms(2)]
  unfolding split_quanta_def Let_def by (simp split: if_splits prod.splits)

lemma uint_of_int16:
  assumes "0 \<le> x" "x \<le> uint (w :: u16)"
  shows "uint (word_of_int x :: u16) = x"
  using assms uint_lt2p [of w] by (simp add: unsigned_of_int take_bit_int_eq_self)

lemma ucast_min16: "(ucast (min (ucast a) (ucast b :: u32)) :: u16) = min a b"
proof -
  have le: "(ucast a :: u32) \<le> ucast b \<longleftrightarrow> a \<le> b" for a b :: u16
    by (simp add: word_le_nat_alt unat_ucast_up)
  show ?thesis by (simp add: min_def le ucast_down_up)
qed

lemma bt_candidate_sound:
  assumes c: "bt_candidate lim bps sp tq = Inr (Some (re, se, t))" and lim: "limits_consistent lim"
  shows "timing_within lim t \<and> unat (bt_bitrateBps t) = timing_rate lim t \<and>
         re = abs_diff (bt_bitrateBps t) bps \<and>
         se = abs_diff (ucast (bt_samplePointPermille t)) (ucast sp) \<and>
         1 + unat (bt_tseg1 t) + unat (bt_tseg2 t) = tq"
proof -
  define brp where "brp = (unat (clockHz lim) + unat bps * tq div 2) div (unat bps * tq)"
  obtain t1 t2 where q: "split_quanta lim sp tq = (t1, t2)" by fastforce
  have brp: "unat (brpMin lim) \<le> brp" "brp \<le> unat (brpMax lim)" and pos: "brp * tq \<noteq> 0"
    and t1: "uint (tseg1Min lim) \<le> t1" "t1 \<le> uint (tseg1Max lim)"
    and tdef: "re = abs_diff (of_nat (unat (clockHz lim) div (brp * tq))) bps"
      "se = abs_diff (ucast (bt_samplePointPermille t)) (ucast sp)"
      "bt_brp t = of_nat brp" "bt_tseg1 t = word_of_int t1" "bt_tseg2 t = word_of_int t2"
      "bt_bitrateBps t = of_nat (unat (clockHz lim) div (brp * tq))"
      "bt_sjw t = (if min (sjwMax lim) (word_of_int t2) = 0 then 1 else min (sjwMax lim) (word_of_int t2))"
    using c q unfolding bt_candidate_def Let_def brp_def [symmetric]
    by (auto simp: ucast_min16 split: if_splits)
  have t2: "uint (tseg2Min lim) \<le> t2" "t2 \<le> uint (tseg2Max lim)"
    using split_quanta_tseg2 [OF q] lim by (auto simp: limits_consistent_def)
  have u1: "uint (bt_tseg1 t) = t1"
    unfolding tdef(4) by (rule uint_of_int16 [of _ "tseg1Max lim"]) (use t1 uint_nonnegative in \<open>auto intro: order_trans\<close>)
  have u2: "uint (bt_tseg2 t) = t2"
    unfolding tdef(5) by (rule uint_of_int16 [of _ "tseg2Max lim"]) (use t2 uint_nonnegative in \<open>auto intro: order_trans\<close>)
  have ub: "unat (bt_brp t) = brp"
    unfolding tdef(3) using brp(2) unat_bound [of "brpMax lim"]
    by (simp add: unat_of_nat)
  have ur: "unat (bt_bitrateBps t) = unat (clockHz lim) div (brp * tq)"
    unfolding tdef(6) using unat_bound [of "clockHz lim"]
    by (simp add: unat_of_nat le_less_trans [OF div_le_dividend])
  have "int (1 + unat (bt_tseg1 t) + unat (bt_tseg2 t)) = int tq"
    using split_quanta_sum [OF q] u1 u2 by simp
  then have tq: "1 + unat (bt_tseg1 t) + unat (bt_tseg2 t) = tq"
    by (simp only: of_nat_eq_iff)
  have sjw: "1 \<le> bt_sjw t \<and> bt_sjw t \<le> max 1 (bt_tseg2 t) \<and> bt_sjw t \<le> max 1 (sjwMax lim)"
    unfolding tdef(7) tdef(5) by (auto simp: max_def min_def word_le_nat_alt unat_gt_0 Suc_le_eq)
  have "timing_within lim t"
    unfolding timing_within_def using brp ub t1 u1 t2 u2 sjw
    by (simp add: word_le_nat_alt [of "brpMin lim"] word_le_nat_alt [of _ "brpMax lim"]
      word_le_def [of "tseg1Min lim"] word_le_def [of "bt_tseg1 t"]
      word_le_def [of "tseg2Min lim"] word_le_def [of "bt_tseg2 t" "tseg2Max lim"])
  then show ?thesis
    using tdef(1,2,6) ur ub tq by (simp add: timing_rate_def)
qed

lemma bt_candidate_total:
  assumes "limits_consistent lim" "0 < tq"
  shows "bt_candidate lim bps sp tq \<noteq> Inl e"
proof -
  have "0 < unat (brpMin lim)"
    using assms(1) by (simp add: limits_consistent_def word_less_nat_alt)
  with assms(2) show ?thesis
    unfolding bt_candidate_def Let_def by (auto split: prod.splits)
qed

lemma tq_range_pos: "tq \<in> set (tq_range lim) \<Longrightarrow> 0 < tq"
  by (auto simp: tq_range_def)

lemma bt_loop_total:
  "limits_consistent lim \<Longrightarrow> \<forall>tq\<in>set tqs. 0 < tq \<Longrightarrow> bt_loop lim bps sp tqs best \<noteq> Inl e"
  by (induction lim bps sp tqs best rule: bt_loop.induct)
    (auto split: sum.splits option.splits simp: bt_candidate_total)

lemma solve_bit_timing_cases:
  assumes "bps \<noteq> 0" "clockHz lim \<noteq> 0" "effective_sample_point bps sp < 1000" "limits_consistent lim"
  obtains (none) "solve_bit_timing bps sp lim = Inl (Err Unsupported)"
      "loop_result lim bps (effective_sample_point bps sp) (tq_range lim) None None"
    | (far) re se t where "solve_bit_timing bps sp lim = Inl (Err Unsupported)"
      "loop_result lim bps (effective_sample_point bps sp) (tq_range lim) None (Some (re, se, t))"
      "kMaxErrorPermille < (unat re * 1000) div unat bps"
    | (found) re se t where "solve_bit_timing bps sp lim = Inr t"
      "loop_result lim bps (effective_sample_point bps sp) (tq_range lim) None (Some (re, se, t))"
      "(unat re * 1000) div unat bps \<le> kMaxErrorPermille"
proof -
  let ?sp = "effective_sample_point bps sp"
  obtain res where res: "bt_loop lim bps ?sp (tq_range lim) None = Inr res"
    using bt_loop_total [OF assms(4)] tq_range_pos by (metis sum.exhaust)
  note lr = bt_loop_result [OF res]
  show thesis
  proof (cases res)
    case None
    with res lr assms show thesis
      by (intro none) (simp_all add: solve_bit_timing_def Let_def not_le [symmetric])
  next
    case (Some x)
    obtain re se t where x: "x = (re, se, t)" by (cases x)
    show thesis
    proof (cases "(unat re * 1000) div unat bps \<le> kMaxErrorPermille")
      case True
      with Some x res lr assms show thesis
        by (intro found) (simp_all add: solve_bit_timing_def Let_def not_le [symmetric])
    next
      case False
      with Some x res lr assms show thesis
        by (intro far) (simp_all add: solve_bit_timing_def Let_def not_le [symmetric])
    qed
  qed
qed

lemma solve_bit_timing_Inr:
  assumes "solve_bit_timing bps sp lim = Inr t"
  shows "bps \<noteq> 0" "clockHz lim \<noteq> 0" "effective_sample_point bps sp < 1000"
  using assms by (auto simp: solve_bit_timing_def Let_def split: if_splits)

section \<open>Properties of the solver\<close>

lemma unat_abs_diff: "int (unat (abs_diff a b)) = \<bar>int (unat a) - int (unat b)\<bar>"
proof (cases "b < a")
  case True
  then have "uint (a - b) = uint a - uint b" by (simp flip: uint_minus_simple_alt)
  with True show ?thesis by (simp add: abs_diff_def word_less_def)
next
  case False
  then have "uint (b - a) = uint b - uint a" by (simp flip: uint_minus_simple_alt)
  with False show ?thesis by (simp add: abs_diff_def word_less_def)
qed

text \<open>
  C39.  A timing the solver returns lies within every limit of the controller, its bit rate is
  the one its own prescaler and segments produce from the clock, in whole bits per second rounded
  down, and that rate is less than 0.6 per cent off the request: the error is rounded down to whole
  per mille before it is compared with five, so more than half a per cent can pass.
\<close>

theorem solve_bit_timing_sound:
  assumes "solve_bit_timing bps sp lim = Inr t" "limits_consistent lim"
  shows "timing_within lim t \<and> unat (bt_bitrateBps t) = timing_rate lim t \<and>
    1000 * \<bar>int (timing_rate lim t) - int (unat bps)\<bar> < 6 * int (unat bps)"
  using solve_bit_timing_Inr [OF assms(1)] assms(2)
proof (cases rule: solve_bit_timing_cases)
  case (found re se t')
  then have t: "timing_within lim t" "unat (bt_bitrateBps t) = timing_rate lim t"
    and e: "(unat (abs_diff (bt_bitrateBps t) bps) * 1000) div unat bps \<le> 5"
    using assms bt_candidate_sound [OF _ assms(2)] by (auto simp: loop_result_def kMaxErrorPermille_def)
  have "0 < unat bps" using solve_bit_timing_Inr(1) [OF assms(1)] by (simp add: unat_gt_0)
  with e have "unat (abs_diff (bt_bitrateBps t) bps) * 1000 < 6 * unat bps"
    using div_less_iff_less_mult [of "unat bps" "unat (abs_diff (bt_bitrateBps t) bps) * 1000" 6] by simp
  then have "int (unat (abs_diff (bt_bitrateBps t) bps)) * 1000 < 6 * int (unat bps)" by linarith
  then have "1000 * \<bar>int (timing_rate lim t) - int (unat bps)\<bar> < 6 * int (unat bps)"
    unfolding unat_abs_diff t(2) by linarith
  with t show ?thesis by blast
qed (use assms in simp_all)

text \<open>
  C38.  Among all the quanta counts the loop can visit, the timing returned has the least rate
  error, and among those with that rate error the least sample point error: stopping early
  loses nothing.
\<close>

theorem solve_bit_timing_optimal:
  assumes "solve_bit_timing bps sp lim = Inr t" "limits_consistent lim"
    and "tq \<in> set (tq_range lim)"
    and "bt_candidate lim bps (effective_sample_point bps sp) tq = Inr (Some (re, se, t'))"
  shows "err_le (abs_diff (bt_bitrateBps t) bps,
      abs_diff (ucast (bt_samplePointPermille t)) (ucast (effective_sample_point bps sp))) (re, se)"
  using solve_bit_timing_Inr [OF assms(1)] assms(2)
proof (cases rule: solve_bit_timing_cases)
  case (found re0 se0 t0)
  then show ?thesis
    using assms bt_candidate_sound [OF _ assms(2)] by (fastforce simp: loop_result_def)
qed (use assms in simp_all)

text \<open>
  On a request that is well formed, the solver never divides by zero, and it answers
  \<open>Unsupported\<close> exactly when every candidate timing is off the rate by more per mille, rounded
  down, than the code allows.
\<close>

theorem solve_bit_timing_unsupported:
  assumes "bps \<noteq> 0" "clockHz lim \<noteq> 0" "effective_sample_point bps sp < 1000" "limits_consistent lim"
  shows "solve_bit_timing bps sp lim \<noteq> Inl DivisionByZero \<and>
    (solve_bit_timing bps sp lim = Inl (Err Unsupported) \<longleftrightarrow>
     (\<forall>tq\<in>set (tq_range lim). \<forall>re se t.
        bt_candidate lim bps (effective_sample_point bps sp) tq = Inr (Some (re, se, t)) \<longrightarrow>
        kMaxErrorPermille < (unat re * 1000) div unat bps))"
  using assms
proof (cases rule: solve_bit_timing_cases)
  case none
  then show ?thesis by (auto simp: loop_result_def)
next
  case (far re se t)
  have "kMaxErrorPermille < (unat re' * 1000) div unat bps" if "err_le (re, se) (re', se')" for re' se'
  proof -
    have "unat re \<le> unat re'" using that by (auto simp: err_le_def word_less_nat_alt)
    then have "(unat re * 1000) div unat bps \<le> (unat re' * 1000) div unat bps"
      by (intro div_le_mono) simp
    with far(3) show ?thesis by simp
  qed
  with far show ?thesis by (auto simp: loop_result_def)
next
  case (found re se t)
  then show ?thesis by (auto simp: loop_result_def not_less)
qed

section \<open>The properties at a concrete controller\<close>

text \<open>
  500 kbit/s from an 80 MHz controller whose bit may take 38 to 41 quanta: four clocks per
  quantum, forty quanta.
\<close>

definition narrow_limits :: bit_timing_limits where
  "narrow_limits = default_limits\<lparr>tseg1Min := 33, tseg1Max := 35, tseg2Min := 4, tseg2Max := 5\<rparr>"

definition timing_500k :: bit_timing where
  "timing_500k = \<lparr>bt_brp = 4, bt_tseg1 = 34, bt_tseg2 = 5, bt_sjw = 5,
     bt_bitrateBps = 500000, bt_samplePointPermille = 875\<rparr>"

lemma tq_range_narrow: "tq_range narrow_limits = [41, 40, 39, 38]"
  by (simp add: tq_range_def narrow_limits_def default_limits_def upt_rec)

lemmas candidate_eval = bt_candidate_def Let_def narrow_limits_def default_limits_def abs_diff_def
  split_quanta_def

lemma candidate_500k:
  "bt_candidate narrow_limits 500000 875 40 = Inr (Some (0, 0, timing_500k))"
  by (simp add: candidate_eval timing_500k_def)

lemma candidate_41:
  "bt_candidate narrow_limits 500000 875 41 = Inr (Some (12196, 3,
     \<lparr>bt_brp = 4, bt_tseg1 = 35, bt_tseg2 = 5, bt_sjw = 5, bt_bitrateBps = 487804,
      bt_samplePointPermille = 878\<rparr>))"
  by (simp add: candidate_eval)

lemma solve_500k: "solve_bit_timing 500000 0 narrow_limits = Inr timing_500k"
proof -
  have "effective_sample_point 500000 0 = 875"
    by (simp add: effective_sample_point_def default_sample_point_permille_def)
  then show ?thesis
    by (simp add: solve_bit_timing_def tq_range_narrow candidate_41 candidate_500k bt_better_def
      kMaxErrorPermille_def) (simp add: narrow_limits_def default_limits_def)
qed

lemma narrow_limits_consistent: "limits_consistent narrow_limits"
  by (simp add: limits_consistent_def narrow_limits_def default_limits_def)

theorem solve_bit_timing_sound_witness:
  "timing_within narrow_limits timing_500k \<and> unat (bt_bitrateBps timing_500k) = 500000"
  using solve_bit_timing_sound [OF solve_500k narrow_limits_consistent]
  by (simp add: timing_500k_def)

theorem solve_bit_timing_optimal_witness:
  "err_le (abs_diff (bt_bitrateBps timing_500k) 500000,
      abs_diff (ucast (bt_samplePointPermille timing_500k)) (ucast (effective_sample_point 500000 0)))
     (12196, 3)"
  by (rule solve_bit_timing_optimal [OF solve_500k narrow_limits_consistent, of 41])
    (simp_all add: tq_range_narrow candidate_41 effective_sample_point_def
      default_sample_point_permille_def)

text \<open>The tolerance of half a per cent is not kept: a rate 0.55 per cent too high is returned.\<close>

definition loose_limits :: bit_timing_limits where
  "loose_limits = default_limits\<lparr>clockHz := 80440000, tseg1Min := 63, tseg1Max := 63, tseg2Min := 16, tseg2Max := 16\<rparr>"

theorem half_per_cent_exceeded:
  "map_sum id bt_bitrateBps (solve_bit_timing 1000000 800 loose_limits) = Inr 1005500"
proof -
  have "tq_range loose_limits = [80]" by (simp add: tq_range_def loose_limits_def default_limits_def upt_rec)
  moreover have "bt_candidate loose_limits 1000000 800 80 = Inr (Some (5500, 0,
     \<lparr>bt_brp = 1, bt_tseg1 = 63, bt_tseg2 = 16, bt_sjw = 16, bt_bitrateBps = 1005500,
      bt_samplePointPermille = 800\<rparr>))"
    by (simp add: bt_candidate_def Let_def loose_limits_def default_limits_def abs_diff_def split_quanta_def)
  ultimately show ?thesis
    by (simp add: solve_bit_timing_def effective_sample_point_def bt_better_def kMaxErrorPermille_def)
      (simp add: loose_limits_def default_limits_def)
qed

theorem solve_bit_timing_unsupported_witness:
  "solve_bit_timing 500000 0 narrow_limits \<noteq> Inl DivisionByZero"
proof -
  have "effective_sample_point 500000 0 < 1000"
    by (simp add: effective_sample_point_def default_sample_point_permille_def)
  then show ?thesis
    using solve_bit_timing_unsupported [of 500000 narrow_limits 0] narrow_limits_consistent
    by (simp add: narrow_limits_def default_limits_def)
qed

end
