(* ===== verification/CanChannelId.thy ===== *)
theory CanChannelId
  imports CanBitrate
begin

text \<open>
  libs/can/src/channel_id.cpp: the textual name of a CAN channel,
  \<open>backend:device[/channel]\<close>, its printer and its parser; and the lookup of
  libs/can/src/backend.cpp, which finds the driver a name belongs to.  Error messages are not
  modelled, only their kind.
\<close>

section \<open>Characters and decimal numbers\<close>

definition tolower_char :: "char \<Rightarrow> char" where
  "tolower_char c = (let n = of_char c :: nat in if 65 \<le> n \<and> n \<le> 90 then char_of (n + 32) else c)"

definition to_lower :: "string \<Rightarrow> string" where
  "to_lower = map tolower_char"

definition digit_char :: "nat \<Rightarrow> char" where
  "digit_char d = char_of (48 + d)"

fun show_nat :: "nat \<Rightarrow> string" where
  "show_nat n = (if n < 10 then [digit_char n] else show_nat (n div 10) @ [digit_char (n mod 10)])"

declare show_nat.simps [simp del]

definition is_digit :: "char \<Rightarrow> bool" where
  "is_digit c \<longleftrightarrow> 48 \<le> (of_char c :: nat) \<and> (of_char c :: nat) \<le> 57"

definition digits_value :: "string \<Rightarrow> nat" where
  "digits_value = foldl (\<lambda>v c. 10 * v + (of_char c - 48)) 0"

text \<open>\<open>std::from_chars\<close> into an \<open>unsigned int\<close>, accepted only when it consumes the whole text.\<close>

definition parse_uint :: "string \<Rightarrow> nat option" where
  "parse_uint s =
     (if s \<noteq> [] \<and> list_all is_digit s \<and> digits_value s < 2 ^ 32 then Some (digits_value s) else None)"

lemma of_char_digit: "d < 10 \<Longrightarrow> (of_char (digit_char d) :: nat) = 48 + d"
  by (simp add: digit_char_def)

lemma is_digit_digit_char: "d < 10 \<Longrightarrow> is_digit (digit_char d)"
  by (simp add: is_digit_def of_char_digit)

lemma show_nat_digits: "list_all is_digit (show_nat n)"
  by (induction n rule: show_nat.induct)
    (subst show_nat.simps, simp add: is_digit_digit_char)

lemma show_nat_nonempty: "show_nat n \<noteq> []"
  by (subst show_nat.simps) simp

lemma digits_value_show: "digits_value (show_nat n) = n"
proof (induction n rule: show_nat.induct)
  case (1 n)
  show ?case
  proof (cases "n < 10")
    case True
    then show ?thesis by (subst show_nat.simps) (simp add: digits_value_def of_char_digit)
  next
    case False
    with 1 have "digits_value (show_nat (n div 10)) = n div 10" by simp
    with False show ?thesis
      by (subst show_nat.simps) (simp add: digits_value_def of_char_digit)
  qed
qed

lemma parse_uint_show: "n < 2 ^ 32 \<Longrightarrow> parse_uint (show_nat n) = Some n"
  by (simp add: parse_uint_def show_nat_digits show_nat_nonempty digits_value_show)

lemma digit_not_slash: "list_all is_digit s \<Longrightarrow> CHR ''/'' \<notin> set s"
  by (auto simp: list_all_iff is_digit_def)

section \<open>Splitting at a character\<close>

text \<open>\<open>find\<close> and \<open>rfind\<close> of one character, as the text before and after it.\<close>

fun split_first :: "char \<Rightarrow> string \<Rightarrow> (string \<times> string) option" where
  "split_first c [] = None"
| "split_first c (x # xs) =
     (if x = c then Some ([], xs) else map_option (\<lambda>(a, b). (x # a, b)) (split_first c xs))"

definition split_last :: "char \<Rightarrow> string \<Rightarrow> (string \<times> string) option" where
  "split_last c s = map_option (\<lambda>(a, b). (rev b, rev a)) (split_first c (rev s))"

lemma split_first_append: "c \<notin> set a \<Longrightarrow> split_first c (a @ c # b) = Some (a, b)"
  by (induction a) auto

lemma split_first_None: "split_first c s = None \<longleftrightarrow> c \<notin> set s"
  by (induction s) auto

lemma split_first_Some: "split_first c s = Some (a, b) \<Longrightarrow> s = a @ c # b \<and> c \<notin> set a"
  by (induction s arbitrary: a) (auto split: if_splits)

lemma split_last_append: "c \<notin> set b \<Longrightarrow> split_last c (a @ c # b) = Some (a, b)"
  by (simp add: split_last_def split_first_append)

lemma split_last_Some: "split_last c s = Some (a, b) \<Longrightarrow> s = a @ c # b \<and> c \<notin> set b"
  unfolding split_last_def by (auto dest!: split_first_Some) (metis rev.simps(2) rev_append rev_rev_ident append.assoc append_Cons append_Nil)

section \<open>Channel names\<close>

record channel_id =
  cid_backend :: string
  cid_device :: string
  cid_channel :: byte

definition cid_toString :: "channel_id \<Rightarrow> string" where
  "cid_toString i =
     (if cid_channel i = 0 then cid_backend i @ '':'' @ cid_device i
      else cid_backend i @ '':'' @ cid_device i @ ''/'' @ show_nat (unat (cid_channel i)))"

text \<open>
  The channel suffix: the text after the last slash, when all of it is a number; otherwise the
  whole text is the device.  A number above 255 is an error.
\<close>

definition split_channel :: "string \<Rightarrow> (string \<times> byte) option" where
  "split_channel rest =
     (case split_last (CHR ''/'') rest of
        None \<Rightarrow> Some (rest, 0)
      | Some (dev, channelText) \<Rightarrow>
          (case parse_uint channelText of
             None \<Rightarrow> Some (rest, 0)
           | Some channel \<Rightarrow> if 255 < channel then None else Some (dev, of_nat channel)))"

definition parse_channel_id :: "string \<Rightarrow> can_error_kind + channel_id" where
  "parse_channel_id text =
     (case split_first (CHR '':'') text of
        None \<Rightarrow> Inl InvalidArgument
      | Some (before, rest) \<Rightarrow>
          let backend = to_lower before in
          if backend = [] then Inl InvalidArgument
          else if rest = [] then Inl InvalidArgument
          else case split_channel rest of
                 None \<Rightarrow> Inl InvalidArgument
               | Some (dev, channel) \<Rightarrow>
                   if dev = [] then Inl InvalidArgument
                   else Inr \<lparr>cid_backend = backend, cid_device = dev, cid_channel = channel\<rparr>)"

section \<open>The driver registry\<close>

record ('chan, 'opt) can_backend =
  be_name :: string
  be_enumerate :: "channel_id list"
  be_open :: "channel_id \<Rightarrow> 'opt \<Rightarrow> can_error_kind + 'chan"

definition registry_enumerate :: "('chan, 'opt) can_backend list \<Rightarrow> channel_id list" where
  "registry_enumerate bs = concat (map be_enumerate bs)"

fun registry_open ::
  "('chan, 'opt) can_backend list \<Rightarrow> channel_id \<Rightarrow> 'opt \<Rightarrow> can_error_kind + 'chan" where
  "registry_open [] i opts = Inl NotFound"
| "registry_open (b # bs) i opts =
     (if be_name b = cid_backend i then be_open b i opts else registry_open bs i opts)"

definition registry_open_text ::
  "('chan, 'opt) can_backend list \<Rightarrow> string \<Rightarrow> 'opt \<Rightarrow> can_error_kind + 'chan" where
  "registry_open_text bs text opts =
     (case parse_channel_id text of Inl e \<Rightarrow> Inl e | Inr i \<Rightarrow> registry_open bs i opts)"

section \<open>Printing and parsing\<close>

definition no_channel_suffix :: "string \<Rightarrow> bool" where
  "no_channel_suffix dev \<longleftrightarrow>
     (case split_last (CHR ''/'') dev of None \<Rightarrow> True | Some (_, t) \<Rightarrow> parse_uint t = None)"

text \<open>
  The names the printer is faithful on.  The last conjunct is not in the code: with channel 0
  the suffix is omitted, so a device that itself ends in a slash and a number is read back as a
  channel of a shorter device.
\<close>

definition cid_printable :: "channel_id \<Rightarrow> bool" where
  "cid_printable i \<longleftrightarrow>
     cid_backend i \<noteq> [] \<and> to_lower (cid_backend i) = cid_backend i \<and>
     CHR '':'' \<notin> set (cid_backend i) \<and> cid_device i \<noteq> [] \<and>
     (cid_channel i = 0 \<longrightarrow> no_channel_suffix (cid_device i))"

lemma split_channel_plain: "no_channel_suffix dev \<Longrightarrow> split_channel dev = Some (dev, 0)"
  by (auto simp: no_channel_suffix_def split_channel_def split: option.splits)

lemma split_channel_suffix:
  "split_channel (dev @ ''/'' @ show_nat (unat (ch :: byte))) = Some (dev, ch)"
proof -
  have "unat ch < 2 ^ 32" "\<not> 255 < unat ch"
    using unat_byte_bound [of ch] by (simp_all add: not_less del: unat_byte_bound)
  then show ?thesis
    by (simp add: split_channel_def split_last_append digit_not_slash show_nat_digits
      parse_uint_show del: unat_byte_bound)
qed

text \<open>
  A channel name whose backend is a lower-case word without a colon and whose device does
  not itself read as a channel suffix survives printing and parsing unchanged.
\<close>

theorem parse_channel_id_toString:
  assumes "cid_printable i"
  shows "parse_channel_id (cid_toString i) = Inr i"
proof -
  define rest where "rest = (if cid_channel i = 0 then cid_device i
    else cid_device i @ ''/'' @ show_nat (unat (cid_channel i)))"
  have printed: "cid_toString i = cid_backend i @ CHR '':'' # rest"
    by (simp add: cid_toString_def rest_def)
  have "split_channel rest = Some (cid_device i, cid_channel i)"
    using assms by (auto simp: rest_def cid_printable_def split_channel_plain split_channel_suffix
      simp del: append.simps)
  moreover have "rest \<noteq> []" using assms by (simp add: rest_def cid_printable_def)
  ultimately show ?thesis
    using assms by (simp add: parse_channel_id_def printed split_first_append cid_printable_def)
qed

lemma show_one: "show_nat (Suc 0) = ''1''"
  by code_simp

theorem parse_channel_id_toString_witness:
  "parse_channel_id ''pcan:LSN00123/1'' =
     Inr \<lparr>cid_backend = ''pcan'', cid_device = ''LSN00123'', cid_channel = 1\<rparr>"
proof -
  let ?i = "\<lparr>cid_backend = ''pcan'', cid_device = ''LSN00123'', cid_channel = 1\<rparr>"
  have "cid_printable ?i" by (simp add: cid_printable_def to_lower_def tolower_char_def)
  from parse_channel_id_toString [OF this] show ?thesis
    by (simp add: cid_toString_def show_one)
qed

text \<open>What the parser returns is well formed, whatever the text was.\<close>

lemma tolower_idem: "tolower_char (tolower_char c) = tolower_char c"
  by (cases "65 \<le> (of_char c :: nat) \<and> (of_char c :: nat) \<le> 90") (auto simp: tolower_char_def Let_def)

lemma parse_channel_id_wf:
  assumes "parse_channel_id text = Inr i"
  shows "cid_backend i \<noteq> [] \<and> to_lower (cid_backend i) = cid_backend i \<and> cid_device i \<noteq> []"
  using assms
  by (auto simp: parse_channel_id_def Let_def to_lower_def tolower_idem split: option.splits if_splits)

text \<open>
  The printer does not always round-trip: a device that ends in a slash and a number,
  named with an explicit channel 0, is printed without the suffix and read back as another
  channel of another device.
\<close>

theorem channel_id_print_loses_device:
  "\<exists>i. parse_channel_id ''b:a/1/0'' = Inr i \<and> parse_channel_id (cid_toString i) \<noteq> Inr i"
  by (rule exI [of _ "\<lparr>cid_backend = ''b'', cid_device = ''a/1'', cid_channel = 0\<rparr>"])
    (simp add: parse_channel_id_def cid_toString_def split_channel_def split_last_def to_lower_def
      tolower_char_def parse_uint_def is_digit_def digits_value_def)

text \<open>
  The driver a name opens is the first registered under its backend, and only an unregistered
  backend is reported as not found by the registry itself.
\<close>

lemma registry_open_first:
  assumes "b \<in> set bs" "be_name b = cid_backend i"
  shows "registry_open bs i opts =
    be_open (the (find (\<lambda>b. be_name b = cid_backend i) bs)) i opts"
  using assms by (induction bs) auto

lemma registry_open_unknown:
  "(\<forall>b\<in>set bs. be_name b \<noteq> cid_backend i) \<Longrightarrow> registry_open bs i opts = Inl NotFound"
  by (induction bs) auto

end
