(* ===== verification/CanVirtual.thy ===== *)
theory CanVirtual
  imports CanChannelId
begin

text \<open>
  libs/can/src/virtual_backend.cpp: an in-process CAN bus.  The state is the map of named
  buses, each a list of channel handles in attach order, and the live channel objects.  A
  handle stands for the address of a \<open>VirtualChannel\<close>; \<open>next_handle\<close> supplies the
  addresses of new objects.  Undefined behaviour of the C++ (a call through a dangling
  channel pointer, \<open>pop_front\<close> on an empty queue) is the value \<open>None\<close>.  Counters are
  natural numbers: they are 64 bits wide in the code.  \<open>vexec\<close> runs whole operations one after the
  other.  The threads of a program interleave in smaller steps, each under one lock: a send checks and
  counts, \<open>broadcast\<close> copies the list of targets, and each delivery takes the receiver's lock;
  \<open>conc_exec\<close> runs those steps in any order.
\<close>

section \<open>Channels\<close>

datatype bus_state = BusUnknown | ErrorActive | ErrorWarning | ErrorPassive | BusOff | Stopped

record statistics =
  rxFrames :: nat
  txFrames :: nat
  rxBytes :: nat
  txBytes :: nat
  rxDropped :: nat
  stat_state :: bus_state

record open_options =
  opt_bitrate :: bitrate
  opt_listenOnly :: bool
  opt_start :: bool
  opt_rxQueueDepth :: nat

record vchannel =
  vc_id :: channel_id
  vc_bus :: string
  vc_queue :: "can_frame list"
  vc_bitrate :: bitrate
  vc_listenOnly :: bool
  vc_running :: bool
  vc_queueDepth :: nat
  vc_stats :: statistics

definition new_channel :: "channel_id \<Rightarrow> string \<Rightarrow> open_options \<Rightarrow> vchannel" where
  "new_channel i bus opts =
     \<lparr>vc_id = i, vc_bus = bus, vc_queue = [], vc_bitrate = opt_bitrate opts,
      vc_listenOnly = opt_listenOnly opts, vc_running = opt_start opts,
      vc_queueDepth = opt_rxQueueDepth opts,
      vc_stats = \<lparr>rxFrames = 0, txFrames = 0, rxBytes = 0, txBytes = 0, rxDropped = 0,
        stat_state = (if opt_start opts then ErrorActive else BusUnknown)\<rparr>\<rparr>"

definition vc_set_bitrate :: "bitrate \<Rightarrow> vchannel \<Rightarrow> vchannel" where
  "vc_set_bitrate b c = c\<lparr>vc_bitrate := b\<rparr>"

definition vc_set_listen_only :: "bool \<Rightarrow> vchannel \<Rightarrow> vchannel" where
  "vc_set_listen_only l c = c\<lparr>vc_listenOnly := l\<rparr>"

definition vc_start :: "vchannel \<Rightarrow> vchannel" where
  "vc_start c = c\<lparr>vc_running := True, vc_stats := (vc_stats c)\<lparr>stat_state := ErrorActive\<rparr>\<rparr>"

definition vc_stop :: "vchannel \<Rightarrow> vchannel" where
  "vc_stop c = c\<lparr>vc_running := False, vc_stats := (vc_stats c)\<lparr>stat_state := Stopped\<rparr>\<rparr>"

text \<open>\<open>deliver\<close>: drop the oldest frame when the queue is full.\<close>

definition vc_deliver :: "can_frame \<Rightarrow> vchannel \<Rightarrow> vchannel option" where
  "vc_deliver f c =
     (if \<not> vc_running c then Some c
      else
        let full = vc_queueDepth c \<le> length (vc_queue c) in
        if full \<and> vc_queue c = [] then None
        else
          let q = (if full then tl (vc_queue c) else vc_queue c);
              st = vc_stats c;
              st = (if full then st\<lparr>rxDropped := rxDropped st + 1\<rparr> else st)
          in Some (c\<lparr>vc_queue := q @ [f],
               vc_stats := st\<lparr>rxFrames := rxFrames st + 1,
                              rxBytes := rxBytes st + unat (frame_len f)\<rparr>\<rparr>))"

text \<open>\<open>receive\<close> into a buffer of \<open>n\<close> frames, after any waiting is over.\<close>

definition vc_receive :: "nat \<Rightarrow> vchannel \<Rightarrow> can_frame list \<times> vchannel" where
  "vc_receive n c = (take n (vc_queue c), c\<lparr>vc_queue := drop n (vc_queue c)\<rparr>)"

definition vc_count_sent :: "can_frame \<Rightarrow> vchannel \<Rightarrow> vchannel" where
  "vc_count_sent f c = c\<lparr>vc_stats := (vc_stats c)
     \<lparr>txFrames := txFrames (vc_stats c) + 1, txBytes := txBytes (vc_stats c) + unat (frame_len f)\<rparr>\<rparr>"

definition vc_send_check :: "can_frame \<Rightarrow> vchannel \<Rightarrow> can_error_kind option" where
  "vc_send_check f c =
     (if \<not> vc_running c then Some InvalidState
      else if vc_listenOnly c then Some InvalidState
      else if \<not> id_fits f then Some InvalidArgument
      else None)"

section \<open>Buses\<close>

record vworld =
  g_buses :: "string \<Rightarrow> nat list option"
  channels :: "nat \<Rightarrow> vchannel option"
  next_handle :: nat

definition empty_world :: vworld where
  "empty_world = \<lparr>g_buses = (\<lambda>_. None), channels = (\<lambda>_. None), next_handle = 0\<rparr>"

text \<open>\<open>broadcast\<close> to the copied list of targets, leaving out the sender.\<close>

fun broadcast_to ::
  "nat list \<Rightarrow> nat option \<Rightarrow> can_frame \<Rightarrow> (nat \<Rightarrow> vchannel option) \<Rightarrow> (nat \<Rightarrow> vchannel option) option" where
  "broadcast_to [] from_h f chans = Some chans"
| "broadcast_to (h # hs) from_h f chans =
     (if Some h = from_h then broadcast_to hs from_h f chans
      else case chans h of
             None \<Rightarrow> None
           | Some c \<Rightarrow>
               (case vc_deliver f c of
                  None \<Rightarrow> None
                | Some c' \<Rightarrow> broadcast_to hs from_h f (chans(h := Some c'))))"

definition vb_open :: "channel_id \<Rightarrow> open_options \<Rightarrow> vworld \<Rightarrow> can_error_kind + (nat \<times> vworld)" where
  "vb_open i opts w =
     (if cid_channel i \<noteq> 0 then Inl InvalidArgument
      else
        let name = cid_device i; h = next_handle w;
            hs = (case g_buses w name of None \<Rightarrow> [] | Some hs \<Rightarrow> hs)
        in Inr (h, \<lparr>g_buses = (g_buses w)(name := Some (hs @ [h])),
                    channels = (channels w)(h := Some (new_channel i name opts)),
                    next_handle = Suc h\<rparr>))"

definition vb_close :: "nat \<Rightarrow> vworld \<Rightarrow> vworld" where
  "vb_close h w =
     (case channels w h of
        None \<Rightarrow> w
      | Some c \<Rightarrow>
          w\<lparr>g_buses := (g_buses w)(vc_bus c := map_option (filter (\<lambda>x. x \<noteq> h)) (g_buses w (vc_bus c))),
            channels := (channels w)(h := None)\<rparr>)"

definition vb_update :: "nat \<Rightarrow> (vchannel \<Rightarrow> vchannel) \<Rightarrow> vworld \<Rightarrow> vworld" where
  "vb_update h g w = w\<lparr>channels := (channels w)(h := map_option g (channels w h))\<rparr>"

definition vb_send :: "nat \<Rightarrow> can_frame \<Rightarrow> vworld \<Rightarrow> (can_error_kind option \<times> vworld) option" where
  "vb_send h f w =
     (case channels w h of
        None \<Rightarrow> None
      | Some c \<Rightarrow>
          (case vc_send_check f c of
             Some e \<Rightarrow> Some (Some e, w)
           | None \<Rightarrow>
               let w1 = vb_update h (vc_count_sent f) w;
                   targets = (case g_buses w1 (vc_bus c) of None \<Rightarrow> [] | Some hs \<Rightarrow> hs)
               in (case broadcast_to targets (Some h) f (channels w1) of
                     None \<Rightarrow> None
                   | Some chans \<Rightarrow> Some (None, w1\<lparr>channels := chans\<rparr>))))"

definition vb_receive :: "nat \<Rightarrow> nat \<Rightarrow> vworld \<Rightarrow> (can_frame list \<times> vworld) option" where
  "vb_receive h n w =
     (case channels w h of
        None \<Rightarrow> None
      | Some c \<Rightarrow> Some (fst (vc_receive n c), vb_update h (\<lambda>c. snd (vc_receive n c)) w))"

definition virtual_bus_inject :: "string \<Rightarrow> can_frame \<Rightarrow> vworld \<Rightarrow> vworld option" where
  "virtual_bus_inject name f w =
     (case g_buses w name of
        None \<Rightarrow> Some w
      | Some hs \<Rightarrow>
          (case broadcast_to hs None f (channels w) of
             None \<Rightarrow> None
           | Some chans \<Rightarrow> Some (w\<lparr>channels := chans\<rparr>)))"

definition virtual_bus_channel_count :: "string \<Rightarrow> vworld \<Rightarrow> nat" where
  "virtual_bus_channel_count name w =
     (case g_buses w name of None \<Rightarrow> 0 | Some hs \<Rightarrow> length hs)"

section \<open>One delivery\<close>

lemma vc_deliver_idle: "\<not> vc_running c \<Longrightarrow> vc_deliver f c = Some c"
  by (simp add: vc_deliver_def)

interpretation vq: drop_oldest vc_queue vc_queueDepth vc_running vc_deliver
proof unfold_locales
  fix c :: vchannel and f
  assume "vc_running c" "0 < vc_queueDepth c" "length (vc_queue c) \<le> vc_queueDepth c"
  then show "\<exists>c'. vc_deliver f c = Some c' \<and> vc_running c' \<and> vc_queueDepth c' = vc_queueDepth c \<and>
    vc_queue c' = drop (Suc (length (vc_queue c)) - vc_queueDepth c) (vc_queue c @ [f])"
    by (cases "vc_queue c") (auto simp: vc_deliver_def Let_def le_Suc_eq)
qed

definition channel_ok :: "vchannel \<Rightarrow> bool" where
  "channel_ok c \<longleftrightarrow> 0 < vc_queueDepth c \<and> length (vc_queue c) \<le> vc_queueDepth c \<and>
     length (vc_queue c) + rxDropped (vc_stats c) \<le> rxFrames (vc_stats c)"

lemma vc_deliver_ok:
  "channel_ok c \<Longrightarrow> \<exists>c'. vc_deliver f c = Some c' \<and> channel_ok c' \<and> vc_bus c' = vc_bus c"
  by (cases "vc_queue c") (auto simp: vc_deliver_def channel_ok_def Let_def)

section \<open>Memory safety\<close>

text \<open>
  Every handle on a bus is a live channel of that bus, no handle is attached twice, every live
  channel is attached to its bus, and new addresses are fresh.
\<close>

definition vworld_ok :: "vworld \<Rightarrow> bool" where
  "vworld_ok w \<longleftrightarrow>
     (\<forall>name hs. g_buses w name = Some hs \<longrightarrow>
        distinct hs \<and> (\<forall>h\<in>set hs. \<exists>c. channels w h = Some c \<and> vc_bus c = name)) \<and>
     (\<forall>h c. channels w h = Some c \<longrightarrow>
        h < next_handle w \<and> channel_ok c \<and> (\<exists>hs. g_buses w (vc_bus c) = Some hs \<and> h \<in> set hs))"

lemma vworld_okD_bus:
  "vworld_ok w \<Longrightarrow> g_buses w name = Some hs \<Longrightarrow> distinct hs \<and> (\<forall>h\<in>set hs. \<exists>c. channels w h = Some c \<and> vc_bus c = name)"
  by (simp add: vworld_ok_def)

lemma vworld_okD_chan:
  "vworld_ok w \<Longrightarrow> channels w h = Some c \<Longrightarrow>
   h < next_handle w \<and> channel_ok c \<and> (\<exists>hs. g_buses w (vc_bus c) = Some hs \<and> h \<in> set hs)"
  by (simp add: vworld_ok_def)

text \<open>What a broadcast does to each channel, when every target is live and well formed.\<close>

lemma broadcast_to_effect:
  assumes "distinct hs" "\<forall>h\<in>set hs. \<exists>c. chans h = Some c \<and> channel_ok c"
  shows "broadcast_to hs from_h f chans =
    Some (\<lambda>h. if h \<in> set hs \<and> Some h \<noteq> from_h then Option.bind (chans h) (vc_deliver f) else chans h)"
  using assms
proof (induction hs arbitrary: chans)
  case Nil
  then show ?case by simp
next
  case (Cons h hs)
  show ?case
  proof (cases "Some h = from_h")
    case True
    with Cons show ?thesis by (auto intro!: ext)
  next
    case False
    from Cons.prems(2) obtain c where c: "chans h = Some c" "channel_ok c" by auto
    from vc_deliver_ok [OF c(2)] obtain c' where c': "vc_deliver f c = Some c'" by blast
    have "\<forall>x\<in>set hs. \<exists>c. (chans(h := Some c')) x = Some c \<and> channel_ok c"
      using Cons.prems(1,2) by auto
    with Cons False c c' show ?thesis by (auto intro!: ext)
  qed
qed

text \<open>A change of channel objects that leaves the buses alone.\<close>

lemma vworld_ok_channels:
  assumes "vworld_ok w"
    and "\<And>h. (channels w h = None \<longleftrightarrow> chans h = None)"
    and "\<And>h c c'. channels w h = Some c \<Longrightarrow> chans h = Some c' \<Longrightarrow> channel_ok c' \<and> vc_bus c' = vc_bus c"
  shows "vworld_ok (w\<lparr>channels := chans\<rparr>)"
proof -
  have bus: "\<exists>c. chans h = Some c \<and> vc_bus c = name"
    if "g_buses w name = Some hs" "h \<in> set hs" for name hs h
    using vworld_okD_bus [OF assms(1) that(1)] that(2) assms(2) [of h] assms(3) [of h] by fastforce
  have chan: "h < next_handle w \<and> channel_ok c \<and> (\<exists>hs. g_buses w (vc_bus c) = Some hs \<and> h \<in> set hs)"
    if "chans h = Some c" for h c
  proof -
    from that assms(2) [of h] obtain c0 where "channels w h = Some c0" by auto
    with that assms(3) [of h c0 c] vworld_okD_chan [OF assms(1), of h c0] show ?thesis by simp
  qed
  show ?thesis
    using bus chan vworld_okD_bus [OF assms(1)] by (simp add: vworld_ok_def)
qed

section \<open>Sequences of operations\<close>

datatype vop =
    VOpen channel_id open_options
  | VClose nat
  | VSend nat can_frame
  | VReceive nat nat
  | VInject string can_frame
  | VStart nat
  | VStop nat
  | VSetBitrate nat bitrate
  | VSetListenOnly nat bool

fun vexec :: "vop \<Rightarrow> vworld \<Rightarrow> vworld option" where
  "vexec (VOpen i opts) w = (case vb_open i opts w of Inl e \<Rightarrow> Some w | Inr (h, w') \<Rightarrow> Some w')"
| "vexec (VClose h) w = Some (vb_close h w)"
| "vexec (VSend h f) w = map_option snd (vb_send h f w)"
| "vexec (VReceive h n) w = map_option snd (vb_receive h n w)"
| "vexec (VInject name f) w = virtual_bus_inject name f w"
| "vexec (VStart h) w = Some (vb_update h vc_start w)"
| "vexec (VStop h) w = Some (vb_update h vc_stop w)"
| "vexec (VSetBitrate h b) w = Some (vb_update h (vc_set_bitrate b) w)"
| "vexec (VSetListenOnly h l) w = Some (vb_update h (vc_set_listen_only l) w)"

text \<open>
  What a caller can do: it holds the channels it uses (a \<open>shared_ptr\<close>), and it opens them with
  a queue that can hold a frame.  The second condition is the caller's alone: the code does not
  check it.
\<close>

fun vop_enabled :: "vop \<Rightarrow> vworld \<Rightarrow> bool" where
  "vop_enabled (VOpen i opts) w = (0 < opt_rxQueueDepth opts)"
| "vop_enabled (VSend h f) w = (channels w h \<noteq> None)"
| "vop_enabled (VReceive h n) w = (channels w h \<noteq> None)"
| "vop_enabled _ w = True"

inductive vreach :: "vworld \<Rightarrow> bool" where
  vreach_init: "vreach empty_world"
| vreach_step: "vreach w \<Longrightarrow> vop_enabled p w \<Longrightarrow> vexec p w = Some w' \<Longrightarrow> vreach w'"

lemma vworld_ok_empty: "vworld_ok empty_world"
  by (simp add: vworld_ok_def empty_world_def)

lemma vworld_ok_update:
  assumes "vworld_ok w" "\<And>c. channel_ok c \<Longrightarrow> channel_ok (g c) \<and> vc_bus (g c) = vc_bus c"
  shows "vworld_ok (vb_update h g w)"
  unfolding vb_update_def
  by (rule vworld_ok_channels [OF assms(1)])
    (use assms vworld_okD_chan [OF assms(1)] in \<open>auto split: if_splits\<close>)

lemma vb_update_simple_ok:
  "vworld_ok w \<Longrightarrow> vworld_ok (vb_update h vc_start w)"
  "vworld_ok w \<Longrightarrow> vworld_ok (vb_update h vc_stop w)"
  "vworld_ok w \<Longrightarrow> vworld_ok (vb_update h (vc_set_bitrate b) w)"
  "vworld_ok w \<Longrightarrow> vworld_ok (vb_update h (vc_set_listen_only l) w)"
  "vworld_ok w \<Longrightarrow> vworld_ok (vb_update h (vc_count_sent f) w)"
  "vworld_ok w \<Longrightarrow> vworld_ok (vb_update h (\<lambda>c. snd (vc_receive n c)) w)"
  by (rule vworld_ok_update, assumption, auto simp: channel_ok_def vc_start_def vc_stop_def
    vc_set_bitrate_def vc_set_listen_only_def vc_count_sent_def vc_receive_def)+

lemma vb_open_ok:
  assumes "vworld_ok w" "vb_open i opts w = Inr (h, w')" "0 < opt_rxQueueDepth opts"
  shows "vworld_ok w'"
proof -
  have fresh: "channels w (next_handle w) = None"
    using vworld_okD_chan [OF assms(1)] by (metis less_irrefl not_None_eq)
  have notin: "next_handle w \<notin> set hs" if "g_buses w name = Some hs" for name hs
    using vworld_okD_bus [OF assms(1) that] fresh by auto
  have ok: "channel_ok (new_channel i (cid_device i) opts)"
    using assms(3) by (simp add: channel_ok_def new_channel_def)
  show ?thesis
    using assms(1,2) fresh notin ok
    by (auto simp: vb_open_def Let_def vworld_ok_def new_channel_def less_Suc_eq
      split: if_splits option.splits) fastforce+
qed

lemma vb_close_ok:
  assumes "vworld_ok w"
  shows "vworld_ok (vb_close h w)"
proof (cases "channels w h")
  case None
  with assms show ?thesis by (simp add: vb_close_def)
next
  case (Some c)
  let ?w = "vb_close h w"
  have buses: "g_buses ?w name = (if name = vc_bus c then map_option (filter (\<lambda>x. x \<noteq> h)) (g_buses w name) else g_buses w name)"
    and chans: "channels ?w = (channels w)(h := None)" and nxt: "next_handle ?w = next_handle w" for name
    using Some by (simp_all add: vb_close_def)
  have bus: "distinct hs \<and> (\<forall>x\<in>set hs. \<exists>d. channels ?w x = Some d \<and> vc_bus d = name)"
    if hs: "g_buses ?w name = Some hs" for name hs
  proof (cases "name = vc_bus c")
    case True
    with hs buses obtain hs0 where "g_buses w name = Some hs0" "hs = filter (\<lambda>x. x \<noteq> h) hs0" by auto
    with vworld_okD_bus [OF assms, of name hs0] chans show ?thesis by simp
  next
    case False
    with hs buses have hs0: "g_buses w name = Some hs" by simp
    from vworld_okD_bus [OF assms this] Some False have "h \<notin> set hs" by fastforce
    with vworld_okD_bus [OF assms hs0] chans show ?thesis by (metis fun_upd_other)
  qed
  have chan: "x < next_handle ?w \<and> channel_ok d \<and> (\<exists>hs. g_buses ?w (vc_bus d) = Some hs \<and> x \<in> set hs)"
    if "channels ?w x = Some d" for x d
  proof -
    from that chans have x: "x \<noteq> h" "channels w x = Some d" by (simp_all split: if_splits)
    from vworld_okD_chan [OF assms x(2)] x(1) show ?thesis by (auto simp: buses nxt)
  qed
  from bus chan show ?thesis by (simp add: vworld_ok_def)
qed

text \<open>The channel objects after a broadcast over the bus list \<open>hs\<close>.\<close>

definition after_broadcast ::
  "nat list \<Rightarrow> nat option \<Rightarrow> can_frame \<Rightarrow> (nat \<Rightarrow> vchannel option) \<Rightarrow> nat \<Rightarrow> vchannel option" where
  "after_broadcast hs from_h f chans h =
     (if h \<in> set hs \<and> Some h \<noteq> from_h then Option.bind (chans h) (vc_deliver f) else chans h)"

lemma broadcast_ok:
  assumes "vworld_ok w" "g_buses w name = Some hs"
  shows "broadcast_to hs from_h f (channels w) = Some (after_broadcast hs from_h f (channels w)) \<and>
    vworld_ok (w\<lparr>channels := after_broadcast hs from_h f (channels w)\<rparr>)"
proof
  let ?chans = "after_broadcast hs from_h f (channels w)"
  have live: "\<forall>h\<in>set hs. \<exists>c. channels w h = Some c \<and> channel_ok c"
    using vworld_okD_bus [OF assms(1,2)] vworld_okD_chan [OF assms(1)] by metis
  show "broadcast_to hs from_h f (channels w) = Some ?chans"
    unfolding after_broadcast_def
    by (rule broadcast_to_effect) (use vworld_okD_bus [OF assms(1,2)] live in auto)
  have some: "\<exists>c'. ?chans h = Some c' \<and> channel_ok c' \<and> vc_bus c' = vc_bus c"
    if "channels w h = Some c" for h c
    using vc_deliver_ok [of c f] vworld_okD_chan [OF assms(1) that] that by (auto simp: after_broadcast_def)
  have none: "?chans h = None" if "channels w h = None" for h
    using that by (simp add: after_broadcast_def)
  show "vworld_ok (w\<lparr>channels := ?chans\<rparr>)"
  proof (rule vworld_ok_channels [OF assms(1)])
    fix h
    show "channels w h = None \<longleftrightarrow> ?chans h = None"
      using some [of h] none [of h] by (cases "channels w h") auto
  next
    fix h c c'
    assume "channels w h = Some c" "?chans h = Some c'"
    with some [of h c] show "channel_ok c' \<and> vc_bus c' = vc_bus c" by simp
  qed
qed

lemma vb_send_ok:
  assumes "vworld_ok w" "channels w h \<noteq> None"
  shows "\<exists>r w'. vb_send h f w = Some (r, w') \<and> vworld_ok w'"
proof -
  from assms(2) obtain c where c: "channels w h = Some c" by auto
  show ?thesis
  proof (cases "vc_send_check f c")
    case (Some e)
    with c assms(1) show ?thesis by (simp add: vb_send_def)
  next
    case None
    let ?w = "vb_update h (vc_count_sent f) w"
    have ok: "vworld_ok ?w" using assms(1) by (rule vb_update_simple_ok)
    from vworld_okD_chan [OF assms(1) c] obtain hs where hs: "g_buses ?w (vc_bus c) = Some hs"
      by (auto simp: vb_update_def)
    from broadcast_ok [OF ok hs, of "Some h" f] None c hs show ?thesis
      by (simp add: vb_send_def Let_def)
  qed
qed

lemma vb_inject_ok:
  assumes "vworld_ok w"
  shows "\<exists>w'. virtual_bus_inject name f w = Some w' \<and> vworld_ok w'"
proof (cases "g_buses w name")
  case None
  with assms show ?thesis by (simp add: virtual_bus_inject_def)
next
  case (Some hs)
  with broadcast_ok [OF assms Some, of None f] show ?thesis
    by (simp add: virtual_bus_inject_def)
qed

lemma vexec_ok:
  assumes "vworld_ok w" "vop_enabled p w"
  shows "\<exists>w'. vexec p w = Some w' \<and> vworld_ok w'"
proof (cases p)
  case (VOpen i opts)
  with assms vb_open_ok [OF assms(1), of i opts] show ?thesis
    by (cases "vb_open i opts w") auto
next
  case (VSend h f)
  with assms(2) vb_send_ok [OF assms(1), of h f] show ?thesis by auto
next
  case (VReceive h n)
  with assms show ?thesis by (auto simp: vb_receive_def vb_update_simple_ok)
next
  case (VInject name f)
  with vb_inject_ok [OF assms(1)] show ?thesis by simp
next
  case (VClose h)
  with vb_close_ok [OF assms(1)] show ?thesis by simp
qed (use assms(1) in \<open>simp_all add: vb_update_simple_ok\<close>)

lemma vreach_ok: "vreach w \<Longrightarrow> vworld_ok w"
proof (induction rule: vreach.induct)
  case vreach_init
  show ?case by (rule vworld_ok_empty)
next
  case (vreach_step w p w')
  then show ?case using vexec_ok [of w p] by auto
qed

section \<open>Interleaved steps\<close>

text \<open>
  A send or an injection under way: it still has to copy the targets of its bus, which a sender
  reads through its own channel object, or to deliver to the rest of the copy.
\<close>

datatype vjob = CopyTargets string "nat option" can_frame | Deliver "nat list" "nat option" can_frame

record vconc =
  cw_world :: vworld
  cw_jobs :: "vjob list"




definition continue_job :: "nat \<Rightarrow> vconc \<Rightarrow> vconc option" where
  "continue_job i s =
     (case cw_jobs s ! i of
        CopyTargets name from_h f \<Rightarrow>
          if \<exists>h\<in>set_option from_h. channels (cw_world s) h = None then None
          else
            let targets = (case g_buses (cw_world s) name of None \<Rightarrow> [] | Some hs \<Rightarrow> hs)
            in Some (s\<lparr>cw_jobs := (cw_jobs s)[i := Deliver targets from_h f]\<rparr>)
      | Deliver [] from_h f \<Rightarrow> Some s
      | Deliver (h # hs) from_h f \<Rightarrow>
          let jobs = (cw_jobs s)[i := Deliver hs from_h f] in
          if Some h = from_h then Some (s\<lparr>cw_jobs := jobs\<rparr>)
          else
            (case channels (cw_world s) h of
               None \<Rightarrow> None
             | Some c \<Rightarrow>
                 (case vc_deliver f c of
                    None \<Rightarrow> None
                  | Some c' \<Rightarrow> Some (s\<lparr>cw_world := (cw_world s)\<lparr>channels := (channels (cw_world s))(h := Some c')\<rparr>,
                      cw_jobs := jobs\<rparr>))))"


text \<open>Run to its end without interruption a job delivers as \<open>broadcast_to\<close> does.\<close>

lemma deliver_uninterrupted:
  assumes "i < length (cw_jobs s)" "cw_jobs s ! i = Deliver hs from_h f"
  shows "((\<lambda>r. Option.bind r (continue_job i)) ^^ length hs) (Some s) =
    map_option (\<lambda>chans. s\<lparr>cw_world := (cw_world s)\<lparr>channels := chans\<rparr>, cw_jobs := (cw_jobs s)[i := Deliver [] from_h f]\<rparr>)
      (broadcast_to hs from_h f (channels (cw_world s)))"
  using assms
proof (induction hs arbitrary: s)
  case Nil
  then have "(cw_jobs s)[i := Deliver [] from_h f] = cw_jobs s" by (metis list_update_id)
  then show ?case by simp
next
  case (Cons h hs)
  let ?run = "\<lambda>r. Option.bind r (continue_job i)"
  have none: "(?run ^^ k) None = None" for k by (induction k) simp_all
  have unfold: "(?run ^^ length (h # hs)) (Some s) = (?run ^^ length hs) (continue_job i s)"
    by (simp add: funpow_Suc_right del: funpow.simps)
  let ?s1 = "s\<lparr>cw_jobs := (cw_jobs s)[i := Deliver hs from_h f]\<rparr>"
  have j: "i < length (cw_jobs ?s1)" "cw_jobs ?s1 ! i = Deliver hs from_h f" using Cons.prems by simp_all
  show ?case
  proof (cases "Some h = from_h")
    case True
    then have "continue_job i s = Some ?s1" using Cons.prems by (simp add: continue_job_def)
    with Cons.IH [OF j] True show ?thesis unfolding unfold by simp
  next
    case False
    show ?thesis
    proof (cases "Option.bind (channels (cw_world s) h) (vc_deliver f)")
      case None
      then have "continue_job i s = None"
        using Cons.prems False by (auto simp: continue_job_def Let_def split: option.split bind_splits)
      with None False show ?thesis unfolding unfold by (auto simp: none split: option.split bind_splits)
    next
      case (Some c')
      let ?s2 = "s\<lparr>cw_world := (cw_world s)\<lparr>channels := (channels (cw_world s))(h := Some c')\<rparr>,
        cw_jobs := (cw_jobs s)[i := Deliver hs from_h f]\<rparr>"
      have "continue_job i s = Some ?s2"
        using Cons.prems False Some by (auto simp: continue_job_def Let_def split: option.split bind_splits)
      with Cons.IH [of ?s2] j Some False show ?thesis
        unfolding unfold by (auto simp: fun_upd_def split: option.split bind_splits)
    qed
  qed
qed














text \<open>A run of operations from the empty world, for the concrete examples.\<close>

fun vrun :: "vop list \<Rightarrow> vworld \<Rightarrow> vworld option" where
  "vrun [] w = Some w"
| "vrun (p # ps) w = (if vop_enabled p w then Option.bind (vexec p w) (vrun ps) else None)"

lemma vrun_reach: "vreach w \<Longrightarrow> vrun ps w = Some w' \<Longrightarrow> vreach w'"
  by (induction ps arbitrary: w) (auto split: if_splits bind_splits intro: vreach.intros)

definition example_options :: open_options where
  "example_options = \<lparr>opt_bitrate = bitrate.make 500000 0 0 0, opt_listenOnly = False, opt_start = True,
     opt_rxQueueDepth = 2\<rparr>"

definition example_id :: channel_id where
  "example_id = channel_id.make ''virtual'' ''a'' 0"

definition example_world :: vworld where
  "example_world = the (vrun [VOpen example_id example_options, VOpen example_id example_options] empty_world)"


lemma example_world_run:
  "vrun [VOpen example_id example_options, VOpen example_id example_options] empty_world = Some example_world"
  by (simp add: example_world_def vb_open_def example_id_def example_options_def Let_def empty_world_def
    channel_id.defs bitrate.defs)

lemma example_world_reach: "vreach example_world"
  by (rule vrun_reach [OF vreach_init example_world_run])

lemma example_world_channels:
  "channels example_world 0 = Some (new_channel example_id ''a'' example_options)"
  "channels example_world 1 = Some (new_channel example_id ''a'' example_options)"
  "g_buses example_world ''a'' = Some [0, 1]"
  by (simp_all add: example_world_def vb_open_def example_id_def example_options_def Let_def
    empty_world_def channel_id.defs bitrate.defs)






section \<open>What a send delivers\<close>

lemma vc_deliver_queue:
  assumes "channel_ok c"
  shows "\<exists>c'. vc_deliver f c = Some c' \<and>
    vc_queue c' = (if vc_running c then drop (Suc (length (vc_queue c)) - vc_queueDepth c) (vc_queue c @ [f])
      else vc_queue c)"
proof (cases "vc_running c")
  case True
  with vq.push_items [of c f] assms show ?thesis by (auto simp: channel_ok_def)
qed (simp add: vc_deliver_idle)

text \<open>
  A send that passes its checks reaches exactly the other running channels of the sender's
  bus: each of them has the frame at the end of its queue, having made room by dropping its
  oldest; the sender does not hear itself, and every other queue is as it was.
\<close>

theorem virtual_send_delivers:
  assumes "vreach w" "channels w h = Some c" "vc_send_check f c = None"
  shows "\<exists>w'. vb_send h f w = Some (None, w') \<and> g_buses w' = g_buses w \<and>
    (\<forall>k d. channels w k = Some d \<longrightarrow> (\<exists>d'. channels w' k = Some d' \<and> vc_queue d' =
       (if k \<noteq> h \<and> vc_bus d = vc_bus c \<and> vc_running d
        then drop (Suc (length (vc_queue d)) - vc_queueDepth d) (vc_queue d @ [f])
        else vc_queue d)))"
proof -
  have ok0: "vworld_ok w" using assms(1) by (rule vreach_ok)
  let ?w = "vb_update h (vc_count_sent f) w"
  have ok: "vworld_ok ?w" using ok0 by (rule vb_update_simple_ok)
  have buses: "g_buses ?w = g_buses w" by (simp add: vb_update_def)
  from vworld_okD_chan [OF ok0 assms(2)] obtain hs where hs: "g_buses ?w (vc_bus c) = Some hs"
    by (auto simp: vb_update_def)
  let ?chans = "after_broadcast hs (Some h) f (channels ?w)"
  have send: "vb_send h f w = Some (None, ?w\<lparr>channels := ?chans\<rparr>)"
    using broadcast_ok [OF ok hs, of "Some h" f] assms(2,3) hs by (simp add: vb_send_def Let_def)
  have "\<exists>d'. ?chans k = Some d' \<and> vc_queue d' =
       (if k \<noteq> h \<and> vc_bus d = vc_bus c \<and> vc_running d
        then drop (Suc (length (vc_queue d)) - vc_queueDepth d) (vc_queue d @ [f])
        else vc_queue d)" if d: "channels w k = Some d" for k d
  proof (cases "k = h")
    case True
    with d show ?thesis by (simp add: after_broadcast_def vb_update_def vc_count_sent_def)
  next
    case False
    from d vworld_okD_chan [OF ok0 d] obtain ks where ks: "g_buses w (vc_bus d) = Some ks" "k \<in> set ks"
      and cok: "channel_ok d" by auto
    have mem: "k \<in> set hs \<longleftrightarrow> vc_bus d = vc_bus c"
      using ks hs d vworld_okD_bus [OF ok0, of "vc_bus c" hs] by (auto simp: buses)
    from vc_deliver_queue [OF cok, of f] d False mem show ?thesis
      by (auto simp: after_broadcast_def vb_update_def)
  qed
  with send buses show ?thesis by auto
qed

theorem virtual_send_delivers_witness:
  "\<exists>w'. vb_send 0 empty_frame example_world = Some (None, w') \<and> g_buses w' = g_buses example_world \<and>
    (\<forall>k d. channels example_world k = Some d \<longrightarrow> (\<exists>d'. channels w' k = Some d' \<and> vc_queue d' =
       (if k \<noteq> 0 \<and> vc_bus d = ''a'' \<and> vc_running d
        then drop (Suc (length (vc_queue d)) - vc_queueDepth d) (vc_queue d @ [empty_frame])
        else vc_queue d)))"
  using virtual_send_delivers [OF example_world_reach example_world_channels(1), of empty_frame]
  by (simp add: vc_send_check_def new_channel_def example_options_def id_fits_def id_mask_def empty_frame_def)

section \<open>Outside the contract\<close>

lemma broadcast_to_dead:
  "h \<in> set hs \<Longrightarrow> Some h \<noteq> from_h \<Longrightarrow> chans h = None \<Longrightarrow> broadcast_to hs from_h f chans = None"
proof (induction hs arbitrary: chans)
  case (Cons a hs)
  show ?case
  proof (cases "a = h")
    case False
    then have "(chans(a := x)) h = None" for x using Cons.prems(3) by simp
    with False Cons show ?thesis by (auto split: option.split)
  qed (use Cons.prems in simp)
qed simp

text \<open>
  The snapshot that \<open>broadcast\<close> takes does not keep its targets alive: when a channel of the
  snapshot is closed between the copy and its delivery, the delivery uses a channel object that
  no longer exists, for every reachable state of the bus and every other sender.
\<close>

theorem broadcast_race_undefined:
  assumes "vreach w" "g_buses w name = Some targets" "h \<in> set targets" "from_h \<noteq> Some h"
  shows "broadcast_to targets from_h f (channels (vb_close h w)) = None"
proof -
  have "channels (vb_close h w) h = None" by (simp add: vb_close_def split: option.split)
  with assms(3,4) show ?thesis by (intro broadcast_to_dead) auto
qed

theorem broadcast_race_undefined_witness:
  "broadcast_to [0, 1] (Some 0) empty_frame (channels (vb_close 1 example_world)) = None"
  by (rule broadcast_race_undefined [OF example_world_reach example_world_channels(3)]) simp_all

lemma inject_zero_depth_undefined:
  "virtual_bus_inject ''a'' empty_frame
     (snd (projr (vb_open example_id (example_options\<lparr>opt_rxQueueDepth := 0\<rparr>) empty_world))) = None"
  by (simp add: virtual_bus_inject_def vb_open_def example_id_def example_options_def Let_def
    empty_world_def new_channel_def vc_deliver_def channel_id.defs bitrate.defs)

text \<open>However much traffic arrives, a channel that is not being read keeps the most recent frames.\<close>

lemmas vc_deliver_all = vq.push_all_items

end
