(* ===== verification/Eds.thy ===== *)
theory Eds
  imports Prelude
begin

text \<open>
  libs/canopen/include/canopen/eds_ast.h and eds_ast.cpp: the object dictionary a device
  declares.  Enumerations are datatypes with the source's enumerators; \<open>std::map\<close> is a partial
  function; the \<open>int64_t\<close> limits and constants are integers, and the casts to \<open>uint64_t\<close> are
  written out.  The text fields that no operation reads (file name, vendor, comments) are left out.
\<close>

section \<open>Data types\<close>

datatype data_type =
    DT_Boolean | Integer8 | Integer16 | Integer32 | Unsigned8 | Unsigned16 | Unsigned32 | Real32
  | VisibleString | OctetString | UnicodeString | TimeOfDay | TimeDifference | DT_Domain
  | Integer24 | Real64 | Integer40 | Integer48 | Integer56 | Integer64
  | Unsigned24 | Unsigned40 | Unsigned48 | Unsigned56 | Unsigned64
  | PdoCommParameter | PdoMappingType | SdoParameter | Identity

definition all_data_types :: "data_type list" where
  "all_data_types =
    [DT_Boolean, Integer8, Integer16, Integer32, Unsigned8, Unsigned16, Unsigned32, Real32,
     VisibleString, OctetString, UnicodeString, TimeOfDay, TimeDifference, DT_Domain,
     Integer24, Real64, Integer40, Integer48, Integer56, Integer64,
     Unsigned24, Unsigned40, Unsigned48, Unsigned56, Unsigned64,
     PdoCommParameter, PdoMappingType, SdoParameter, Identity]"

text \<open>The value of each enumerator.\<close>

fun data_type_code :: "data_type \<Rightarrow> u16" where
  "data_type_code DT_Boolean = 0x0001"
| "data_type_code Integer8 = 0x0002"
| "data_type_code Integer16 = 0x0003"
| "data_type_code Integer32 = 0x0004"
| "data_type_code Unsigned8 = 0x0005"
| "data_type_code Unsigned16 = 0x0006"
| "data_type_code Unsigned32 = 0x0007"
| "data_type_code Real32 = 0x0008"
| "data_type_code VisibleString = 0x0009"
| "data_type_code OctetString = 0x000A"
| "data_type_code UnicodeString = 0x000B"
| "data_type_code TimeOfDay = 0x000C"
| "data_type_code TimeDifference = 0x000D"
| "data_type_code DT_Domain = 0x000F"
| "data_type_code Integer24 = 0x0010"
| "data_type_code Real64 = 0x0011"
| "data_type_code Integer40 = 0x0012"
| "data_type_code Integer48 = 0x0013"
| "data_type_code Integer56 = 0x0014"
| "data_type_code Integer64 = 0x0015"
| "data_type_code Unsigned24 = 0x0016"
| "data_type_code Unsigned40 = 0x0018"
| "data_type_code Unsigned48 = 0x0019"
| "data_type_code Unsigned56 = 0x001A"
| "data_type_code Unsigned64 = 0x001B"
| "data_type_code PdoCommParameter = 0x0020"
| "data_type_code PdoMappingType = 0x0021"
| "data_type_code SdoParameter = 0x0022"
| "data_type_code Identity = 0x0023"

definition is_known_data_type :: "u16 \<Rightarrow> bool" where
  "is_known_data_type raw \<longleftrightarrow> raw \<in> set (map data_type_code all_data_types)"

fun data_type_bits :: "data_type \<Rightarrow> nat option" where
  "data_type_bits DT_Boolean = Some 1"
| "data_type_bits Integer8 = Some 8"
| "data_type_bits Unsigned8 = Some 8"
| "data_type_bits Integer16 = Some 16"
| "data_type_bits Unsigned16 = Some 16"
| "data_type_bits Integer24 = Some 24"
| "data_type_bits Unsigned24 = Some 24"
| "data_type_bits Integer32 = Some 32"
| "data_type_bits Unsigned32 = Some 32"
| "data_type_bits Real32 = Some 32"
| "data_type_bits Integer40 = Some 40"
| "data_type_bits Unsigned40 = Some 40"
| "data_type_bits Integer48 = Some 48"
| "data_type_bits Unsigned48 = Some 48"
| "data_type_bits TimeOfDay = Some 48"
| "data_type_bits TimeDifference = Some 48"
| "data_type_bits Integer56 = Some 56"
| "data_type_bits Unsigned56 = Some 56"
| "data_type_bits Integer64 = Some 64"
| "data_type_bits Unsigned64 = Some 64"
| "data_type_bits Real64 = Some 64"
| "data_type_bits VisibleString = None"
| "data_type_bits OctetString = None"
| "data_type_bits UnicodeString = None"
| "data_type_bits DT_Domain = None"
| "data_type_bits PdoCommParameter = None"
| "data_type_bits PdoMappingType = None"
| "data_type_bits SdoParameter = None"
| "data_type_bits Identity = None"

lemma data_type_bits_bound: "data_type_bits t = Some n \<Longrightarrow> 0 < n \<and> n \<le> 64"
  by (cases t) auto

section \<open>Access\<close>

datatype access_type = RO | WO | RW | RWR | RWW | AT_CONST

fun is_writable :: "access_type \<Rightarrow> bool" where
  "is_writable WO = True"
| "is_writable RW = True"
| "is_writable RWR = True"
| "is_writable RWW = True"
| "is_writable RO = False"
| "is_writable AT_CONST = False"

fun is_readable :: "access_type \<Rightarrow> bool" where
  "is_readable RO = True"
| "is_readable RW = True"
| "is_readable RWR = True"
| "is_readable RWW = True"
| "is_readable AT_CONST = True"
| "is_readable WO = False"

lemma readable_or_writable: "is_readable a \<or> is_writable a"
  by (cases a) auto

section \<open>The dictionary\<close>

datatype object_code = OC_Null | OC_Domain | OC_DefType | OC_DefStruct | OC_Var | OC_Array | OC_Record

record node_id_expr =
  usesNodeId :: bool
  expr_constant :: int

datatype eds_value =
    VEmpty
  | VUnsigned u64
  | VSigned int
  | VString string
  | VNodeId node_id_expr

record sub_object =
  subIndex :: byte
  parameterName :: string
  sub_objectCode :: object_code
  dataType :: data_type
  lowLimit :: "int option"
  highLimit :: "int option"
  access :: access_type
  defaultValue :: "eds_value option"
  pdoMappable :: bool
  sub_objFlags :: u32

record eds_object =
  obj_index :: u16
  obj_parameterName :: string
  obj_objectCode :: object_code
  declaredSubNumber :: "byte option"
  obj_objFlags :: u32
  subs :: "byte \<Rightarrow> sub_object option"

record object_dictionary =
  lssSupported :: bool
  supportedBitrates :: "u32 \<Rightarrow> bool option"
  objects :: "u16 \<Rightarrow> eds_object option"

definition resolve_nodeid_expr :: "node_id_expr \<Rightarrow> byte \<Rightarrow> int" where
  "resolve_nodeid_expr e nodeId = (if usesNodeId e then uint nodeId else 0) + expr_constant e"

definition od_get :: "object_dictionary \<Rightarrow> u16 \<Rightarrow> eds_object option" where
  "od_get od i = objects od i"

definition od_get_sub :: "object_dictionary \<Rightarrow> u16 \<Rightarrow> byte \<Rightarrow> sub_object option" where
  "od_get_sub od i s = (case od_get od i of None \<Rightarrow> None | Some ob \<Rightarrow> subs ob s)"

definition od_defaultValue :: "object_dictionary \<Rightarrow> u16 \<Rightarrow> byte \<Rightarrow> byte \<Rightarrow> u64 option" where
  "od_defaultValue od i s nodeId =
     (case od_get_sub od i s of
        None \<Rightarrow> None
      | Some e \<Rightarrow>
          (case defaultValue e of
             None \<Rightarrow> None
           | Some (VUnsigned n) \<Rightarrow> Some n
           | Some (VSigned n) \<Rightarrow> Some (word_of_int n)
           | Some (VNodeId x) \<Rightarrow> Some (word_of_int (resolve_nodeid_expr x nodeId))
           | Some _ \<Rightarrow> None))"

lemma od_defaultValue_follows_node:
  assumes "od_get_sub od i s = Some e" "defaultValue e = Some (VNodeId \<lparr>usesNodeId = True, expr_constant = c\<rparr>)"
  shows "od_defaultValue od i s n = Some (word_of_int (uint n + c))"
  using assms by (simp add: od_defaultValue_def resolve_nodeid_expr_def)

lemma is_known_data_type_code: "is_known_data_type (data_type_code t)"
  by (cases t) (simp_all add: is_known_data_type_def all_data_types_def)

end
