(* ===== verification/CanOpenProtocol.thy ===== *)
theory CanOpenProtocol
  imports CanFrame
begin

text \<open>
  The frames of the CANopen services (libs/canopen): SDO requests and the numbers they carry
  (sdo.h, sdo.cpp, stub_device.cpp), LSS (lss.h, lss.cpp) and NMT (nmt.h, nmt.cpp).
\<close>

section \<open>Little-endian numbers\<close>

definition to_uint :: "byte list \<Rightarrow> u64" where
  "to_uint bs = foldl (\<lambda>v i. v OR push_bit (8 * i) (ucast (bs ! i))) 0 [0..<min (length bs) 8]"

definition to_bytes :: "u64 \<Rightarrow> nat \<Rightarrow> byte list" where
  "to_bytes v n = map (\<lambda>i. ucast (drop_bit (8 * i) v)) [0..<n]"

lemma length_to_bytes [simp]: "length (to_bytes v n) = n"
  by (simp add: to_bytes_def)

lemma bit_or_fold:
  "bit (foldl (\<lambda>v i. v OR push_bit (8 * i) (ucast (bs ! i))) (0 :: u64) [0..<n]) k \<longleftrightarrow>
     k < 64 \<and> k div 8 < n \<and> bit (bs ! (k div 8) :: byte) (k mod 8)"
proof (induction n)
  case 0
  show ?case by simp
next
  case (Suc n)
  have bound: "\<not> bit (bs ! n :: byte) j" if "8 \<le> j" for j
    using that bit_imp_le_length [of "bs ! n" j] by auto
  have split: "k div 8 < Suc n \<longleftrightarrow> k div 8 < n \<or> k div 8 = n" by auto
  show ?case
  proof (cases "k div 8 = n")
    case True
    then have "8 * n \<le> k" "k - 8 * n = k mod 8" by (auto simp: minus_mult_div_eq_mod)
    with True Suc.IH show ?thesis by (auto simp: bit_simps)
  next
    case False
    have "\<not> (8 * n \<le> k \<and> bit (bs ! n :: byte) (k - 8 * n))"
    proof
      assume a: "8 * n \<le> k \<and> bit (bs ! n :: byte) (k - 8 * n)"
      with bound [of "k - 8 * n"] have "k - 8 * n < 8" by (metis not_le)
      with a have "k div 8 = n" by (auto simp: div_nat_eqI)
      with False show False by simp
    qed
    with False Suc.IH split show ?thesis by (auto simp: bit_simps)
  qed
qed

lemma bit_to_uint:
  "bit (to_uint bs) k \<longleftrightarrow> k < 64 \<and> k div 8 < length bs \<and> bit (bs ! (k div 8)) (k mod 8)"
  unfolding to_uint_def bit_or_fold by auto

lemma bit_to_bytes: "i < n \<Longrightarrow> bit (to_bytes v n ! i) j \<longleftrightarrow> j < 8 \<and> bit v (8 * i + j)"
  by (auto simp: to_bytes_def bit_simps ac_simps)

lemma to_bytes_to_uint: "length bs \<le> 8 \<Longrightarrow> to_bytes (to_uint bs) (length bs) = bs"
proof (rule nth_equalityI)
  fix i assume len: "length bs \<le> 8" and "i < length (to_bytes (to_uint bs) (length bs))"
  then have i: "i < length bs" by simp
  show "to_bytes (to_uint bs) (length bs) ! i = bs ! i"
  proof (rule bit_word_eqI)
    fix j assume "j < LENGTH(8)"
    then have j: "j < 8" by simp
    then have "8 * i + j < 64" "(8 * i + j) div 8 = i" "(8 * i + j) mod 8 = j"
      using i len by auto
    with i j show "bit (to_bytes (to_uint bs) (length bs) ! i) j = bit (bs ! i) j"
      by (simp add: bit_to_bytes bit_to_uint)
  qed
qed simp

lemma to_uint_to_bytes: "n \<le> 8 \<Longrightarrow> to_uint (to_bytes v n) = take_bit (8 * n) v"
proof (rule bit_word_eqI)
  fix k assume n: "n \<le> 8" and "k < LENGTH(64)"
  then have k: "k < 64" by simp
  have "k div 8 < n \<longleftrightarrow> k < 8 * n" by auto
  moreover have "8 * (k div 8) + k mod 8 = k" by simp
  ultimately show "bit (to_uint (to_bytes v n)) k = bit (take_bit (8 * n) v) k"
    using k by (auto simp: bit_to_uint bit_to_bytes bit_simps)
qed

definition le32 :: "u32 \<Rightarrow> byte list" where
  "le32 w = map (\<lambda>i. ucast (drop_bit (8 * i) w)) [0..<4]"

definition get_u32 :: "can_frame \<Rightarrow> nat \<Rightarrow> u32" where
  "get_u32 f off =
     ucast (byte_at f off) OR push_bit 8 (ucast (byte_at f (off + 1))) OR
     push_bit 16 (ucast (byte_at f (off + 2))) OR push_bit 24 (ucast (byte_at f (off + 3)))"

lemma length_le32 [simp]: "length (le32 w) = 4"
  by (simp add: le32_def)

lemma bit_le32: "i < 4 \<Longrightarrow> bit (le32 w ! i) j \<longleftrightarrow> j < 8 \<and> bit w (8 * i + j)"
  by (auto simp: le32_def bit_simps ac_simps)

lemma join_le32:
  "ucast (le32 w ! 0) OR push_bit 8 (ucast (le32 w ! 1)) OR push_bit 16 (ucast (le32 w ! 2))
     OR push_bit 24 (ucast (le32 w ! 3)) = (w :: u32)"
proof (rule bit_word_eqI)
  fix n assume "n < LENGTH(32)"
  then have n: "n < 32" by simp
  then consider "n < 8" | "8 \<le> n" "n < 16" | "16 \<le> n" "n < 24" | "24 \<le> n" by linarith
  then show "bit (ucast (le32 w ! 0) OR push_bit 8 (ucast (le32 w ! 1)) OR push_bit 16 (ucast (le32 w ! 2))
     OR push_bit 24 (ucast (le32 w ! 3)) :: u32) n = bit w n"
    using n by cases (auto simp: bit_or_iff bit_push_bit_iff bit_ucast_iff bit_le32)
qed

lemma get_u32_le32:
  assumes "frame_wf f" "off + 4 \<le> 64"
  shows "get_u32 (put_bytes off (le32 w) f) off = w"
proof -
  have "byte_at (put_bytes off (le32 w) f) (off + i) = le32 w ! i" if "i < 4" for i
    using assms that by (simp add: byte_at_put_bytes)
  from this [of 0] this [of 1] this [of 2] this [of 3] show ?thesis
    unfolding get_u32_def using join_le32 [of w] by simp
qed

section \<open>SDO\<close>

abbreviation (input) "kCcsDownload \<equiv> 0x20 :: byte"
abbreviation (input) "kCcsUpload \<equiv> 0x40 :: byte"
abbreviation (input) "kCcsUploadSegment \<equiv> 0x60 :: byte"
abbreviation (input) "kScsUploadSegment \<equiv> 0x00 :: byte"
abbreviation (input) "kScsUpload \<equiv> 0x40 :: byte"
abbreviation (input) "kScsDownload \<equiv> 0x60 :: byte"
abbreviation (input) "kScsAbort \<equiv> 0x80 :: byte"
abbreviation (input) "kExpedited \<equiv> 0x02 :: byte"
abbreviation (input) "kSizeIndicated \<equiv> 0x01 :: byte"
abbreviation (input) "kToggle \<equiv> 0x10 :: byte"
abbreviation (input) "kRequestCobIdBase \<equiv> 0x600 :: u32"
abbreviation (input) "kResponseCobIdBase \<equiv> 0x580 :: u32"

datatype sdo_abort_code =
    ToggleBitNotAlternated | TimedOut | CommandSpecifierInvalid | UnsupportedAccess
  | ReadOfWriteOnly | WriteOfReadOnly | ObjectDoesNotExist | CannotBeMappedToPdo
  | PdoLengthExceeded | GeneralParameterIncompatibility | GeneralInternalIncompatibility
  | HardwareError | LengthMismatch | LengthTooHigh | LengthTooLow | SubIndexDoesNotExist
  | ValueRangeExceeded | ValueTooHigh | ValueTooLow | GeneralError | CannotTransfer
  | CannotTransferLocalControl | CannotTransferDeviceState | NoObjectDictionary

fun abort_code :: "sdo_abort_code \<Rightarrow> u32" where
  "abort_code ToggleBitNotAlternated = 0x05030000"
| "abort_code TimedOut = 0x05040000"
| "abort_code CommandSpecifierInvalid = 0x05040001"
| "abort_code UnsupportedAccess = 0x06010000"
| "abort_code ReadOfWriteOnly = 0x06010001"
| "abort_code WriteOfReadOnly = 0x06010002"
| "abort_code ObjectDoesNotExist = 0x06020000"
| "abort_code CannotBeMappedToPdo = 0x06040041"
| "abort_code PdoLengthExceeded = 0x06040042"
| "abort_code GeneralParameterIncompatibility = 0x06040043"
| "abort_code GeneralInternalIncompatibility = 0x06040047"
| "abort_code HardwareError = 0x06060000"
| "abort_code LengthMismatch = 0x06070010"
| "abort_code LengthTooHigh = 0x06070012"
| "abort_code LengthTooLow = 0x06070013"
| "abort_code SubIndexDoesNotExist = 0x06090011"
| "abort_code ValueRangeExceeded = 0x06090030"
| "abort_code ValueTooHigh = 0x06090031"
| "abort_code ValueTooLow = 0x06090032"
| "abort_code GeneralError = 0x08000000"
| "abort_code CannotTransfer = 0x08000020"
| "abort_code CannotTransferLocalControl = 0x08000021"
| "abort_code CannotTransferDeviceState = 0x08000022"
| "abort_code NoObjectDictionary = 0x08000023"

definition command_specifier :: "byte \<Rightarrow> byte" where
  "command_specifier b = b AND 0xE0"

definition make_request :: "byte \<Rightarrow> can_frame" where
  "make_request nodeId = empty_frame\<lparr>frame_id := kRequestCobIdBase + ucast nodeId, frame_len := 8\<rparr>"

definition put_index :: "u16 \<Rightarrow> byte \<Rightarrow> can_frame \<Rightarrow> can_frame" where
  "put_index i s f = put_byte 3 s (put_byte 2 (hi8 i) (put_byte 1 (lo8 i) f))"

definition get_index :: "can_frame \<Rightarrow> u16" where
  "get_index f = join16 (byte_at f 2) (byte_at f 1)"

definition expedited_download_command :: "nat \<Rightarrow> byte" where
  "expedited_download_command n = ucast (0x23 OR push_bit 2 (4 - of_nat n) :: u64)"

definition make_sdo_upload_frame :: "byte \<Rightarrow> u16 \<Rightarrow> byte \<Rightarrow> can_frame" where
  "make_sdo_upload_frame nodeId i s = put_index i s (put_byte 0 kCcsUpload (make_request nodeId))"

definition make_sdo_download_frame :: "byte \<Rightarrow> u16 \<Rightarrow> byte \<Rightarrow> byte list \<Rightarrow> can_frame" where
  "make_sdo_download_frame nodeId i s bs =
     put_bytes 4 (take 4 bs)
       (put_index i s (put_byte 0 (expedited_download_command (length bs)) (make_request nodeId)))"

definition make_segment_request :: "byte \<Rightarrow> bool \<Rightarrow> can_frame" where
  "make_segment_request nodeId toggle =
     put_byte 0 (kCcsUploadSegment OR (if toggle then kToggle else 0)) (make_request nodeId)"

lemma make_request_fields [frame_simps]:
  "frame_id (make_request n) = kRequestCobIdBase + ucast n"
  "frame_len (make_request n) = 8"
  "i < 64 \<Longrightarrow> byte_at (make_request n) i = 0"
  by (simp_all add: make_request_def byte_at_def empty_frame_def)

lemma make_request_wf [simp]: "frame_wf (make_request n)"
  by (simp add: make_request_def frame_wf_def empty_frame_def)

lemma put_index_wf [simp]: "frame_wf (put_index i s f) \<longleftrightarrow> frame_wf f"
  by (simp add: put_index_def)

lemma put_index_fields [frame_simps]:
  "frame_id (put_index i s f) = frame_id f" "frame_len (put_index i s f) = frame_len f"
  by (simp_all add: put_index_def put_fields)

lemma byte_at_put_index [frame_simps]:
  "frame_wf f \<Longrightarrow> byte_at (put_index i s f) j =
     (if j = 1 then lo8 i else if j = 2 then hi8 i else if j = 3 then s else byte_at f j)"
  by (simp add: put_index_def frame_simps)

lemma get_index_put_index [frame_simps]: "frame_wf f \<Longrightarrow> get_index (put_index i s f) = i"
  by (simp add: get_index_def frame_simps)

lemma get_index_put_bytes [frame_simps]: "3 \<le> off \<Longrightarrow> get_index (put_bytes off bs f) = get_index f"
  by (simp add: get_index_def frame_simps)

lemma get_index_put_byte0 [frame_simps]: "frame_wf f \<Longrightarrow> get_index (put_byte 0 b f) = get_index f"
  by (simp add: get_index_def frame_simps)

section \<open>LSS\<close>

datatype lss_bitrate =
  Rate1000k | Rate800k | Rate500k | Rate250k | Rate125k | Rate100k | Rate50k | Rate20k | Rate10k

definition lss_table :: "lss_bitrate list" where
  "lss_table = [Rate1000k, Rate800k, Rate500k, Rate250k, Rate125k, Rate100k, Rate50k, Rate20k, Rate10k]"

fun lss_code :: "lss_bitrate \<Rightarrow> byte" where
  "lss_code Rate1000k = 0"
| "lss_code Rate800k = 1"
| "lss_code Rate500k = 2"
| "lss_code Rate250k = 3"
| "lss_code Rate125k = 4"
| "lss_code Rate100k = 5"
| "lss_code Rate50k = 6"
| "lss_code Rate20k = 7"
| "lss_code Rate10k = 8"

fun lss_bitrate_to_kbps :: "lss_bitrate \<Rightarrow> u32" where
  "lss_bitrate_to_kbps Rate1000k = 1000"
| "lss_bitrate_to_kbps Rate800k = 800"
| "lss_bitrate_to_kbps Rate500k = 500"
| "lss_bitrate_to_kbps Rate250k = 250"
| "lss_bitrate_to_kbps Rate125k = 125"
| "lss_bitrate_to_kbps Rate100k = 100"
| "lss_bitrate_to_kbps Rate50k = 50"
| "lss_bitrate_to_kbps Rate20k = 20"
| "lss_bitrate_to_kbps Rate10k = 10"

definition lss_bitrate_from_kbps :: "u32 \<Rightarrow> lss_bitrate option" where
  "lss_bitrate_from_kbps kbps =
     (if kbps = 1000 then Some Rate1000k
      else if kbps = 800 then Some Rate800k
      else if kbps = 500 then Some Rate500k
      else if kbps = 250 then Some Rate250k
      else if kbps = 125 then Some Rate125k
      else if kbps = 100 then Some Rate100k
      else if kbps = 50 then Some Rate50k
      else if kbps = 20 then Some Rate20k
      else if kbps = 10 then Some Rate10k
      else None)"

lemma lss_bitrate_roundtrip: "lss_bitrate_from_kbps kbps = Some r \<longleftrightarrow> kbps = lss_bitrate_to_kbps r"
  by (cases r) (auto simp: lss_bitrate_from_kbps_def split: if_splits)

lemma lss_bitrate_to_kbps_nonzero [simp]: "lss_bitrate_to_kbps r \<noteq> 0"
  by (cases r) simp_all

lemma lss_bitrate_to_kbps_inj: "lss_bitrate_to_kbps r = lss_bitrate_to_kbps s \<longleftrightarrow> r = s"
  by (cases r; cases s) simp_all

lemma lss_code_bound: "lss_code r \<le> 8" and lss_table_code: "lss_table ! unat (lss_code r) = r"
  by (cases r; simp add: lss_table_def)+

abbreviation (input) "kSwitchStateGlobal \<equiv> 0x04 :: byte"
abbreviation (input) "kConfigureNodeId \<equiv> 0x11 :: byte"
abbreviation (input) "kConfigureBitTiming \<equiv> 0x13 :: byte"
abbreviation (input) "kActivateBitTiming \<equiv> 0x15 :: byte"
abbreviation (input) "kStoreConfiguration \<equiv> 0x17 :: byte"
abbreviation (input) "kInquireNodeId \<equiv> 0x5E :: byte"
abbreviation (input) "kModeWaiting \<equiv> 0x00 :: byte"
abbreviation (input) "kModeConfiguration \<equiv> 0x01 :: byte"
abbreviation (input) "kStandardBitTimingTable \<equiv> 0x00 :: byte"
abbreviation (input) "kMasterCobId \<equiv> 0x7E5 :: u32"
abbreviation (input) "kSlaveCobId \<equiv> 0x7E4 :: u32"

definition make_lss_frame :: "byte \<Rightarrow> byte \<Rightarrow> byte \<Rightarrow> can_frame" where
  "make_lss_frame cs arg0 arg1 =
     put_byte 2 arg1 (put_byte 1 arg0 (put_byte 0 cs
       (empty_frame\<lparr>frame_id := kMasterCobId, frame_len := 8\<rparr>)))"

lemma make_lss_frame_fields [frame_simps]:
  "frame_id (make_lss_frame cs a b) = kMasterCobId" "frame_len (make_lss_frame cs a b) = 8"
  "byte_at (make_lss_frame cs a b) 0 = cs" "byte_at (make_lss_frame cs a b) (Suc 0) = a"
  "byte_at (make_lss_frame cs a b) 2 = b" "frame_wf (make_lss_frame cs a b)"
  by (simp_all add: make_lss_frame_def frame_simps)

section \<open>NMT\<close>

datatype nmt_command = Start | Stop | EnterPreOperational | ResetNode | ResetCommunication

fun nmt_command_code :: "nmt_command \<Rightarrow> byte" where
  "nmt_command_code Start = 0x01"
| "nmt_command_code Stop = 0x02"
| "nmt_command_code EnterPreOperational = 0x80"
| "nmt_command_code ResetNode = 0x81"
| "nmt_command_code ResetCommunication = 0x82"

text \<open>The enumerator a cast byte stands for, when it is one of them.\<close>

definition nmt_command_of :: "byte \<Rightarrow> nmt_command option" where
  "nmt_command_of b =
     (if b = 0x01 then Some Start else if b = 0x02 then Some Stop
      else if b = 0x80 then Some EnterPreOperational else if b = 0x81 then Some ResetNode
      else if b = 0x82 then Some ResetCommunication else None)"

lemma nmt_command_of_code [simp]: "nmt_command_of (nmt_command_code c) = Some c"
  by (cases c) (simp_all add: nmt_command_of_def)

abbreviation (input) "kNmtCobId \<equiv> 0x000 :: u32"
abbreviation (input) "kHeartbeatCobIdBase \<equiv> 0x700 :: u32"
abbreviation (input) "kEmcyCobIdBase \<equiv> 0x080 :: u32"

definition make_nmt_frame :: "nmt_command \<Rightarrow> byte \<Rightarrow> can_frame" where
  "make_nmt_frame c nodeId =
     put_byte 1 nodeId (put_byte 0 (nmt_command_code c) (empty_frame\<lparr>frame_id := kNmtCobId, frame_len := 2\<rparr>))"

lemma make_nmt_frame_fields [frame_simps]:
  "frame_id (make_nmt_frame c n) = kNmtCobId" "frame_len (make_nmt_frame c n) = 2"
  "byte_at (make_nmt_frame c n) 0 = nmt_command_code c" "byte_at (make_nmt_frame c n) (Suc 0) = n"
  by (simp_all add: make_nmt_frame_def frame_simps)

end
