(* ===== verification/StubDevice.thy ===== *)
theory StubDevice
  imports Eds CanOpenProtocol
begin

text \<open>
  libs/canopen/src/stub_device.cpp: a CANopen device made of its own EDS.  A handler takes a
  frame and the device and returns the frames the device puts on the bus (with their delay in
  milliseconds and the bit rate they were sent at) and the device afterwards.
\<close>

section \<open>State\<close>

type_synonym od_key = "u16 \<times> byte"

record entry =
  entry_bytes :: "byte list"
  entry_dataType :: data_type
  entry_access :: access_type
  entry_lowLimit :: "int option"
  entry_highLimit :: "int option"
  forcedReadOnly :: bool

record segmented =
  seg_active :: bool
  seg_bytes :: "byte list"
  seg_offset :: nat
  seg_toggle :: bool

definition no_segmented :: segmented where
  "no_segmented = \<lparr>seg_active = False, seg_bytes = [], seg_offset = 0, seg_toggle = False\<rparr>"

datatype nmt_state = NmtBootUp | NmtStopped | NmtOperational | NmtPreOperational

record stub_device =
  dev_od :: object_dictionary
  nodeId :: byte
  dev_bitrate :: lss_bitrate
  nmtState :: nmt_state
  present :: bool
  responseDelay :: nat
  resetCount :: u32
  dev_values :: "od_key \<Rightarrow> entry option"
  nonVolatile :: "od_key \<Rightarrow> byte list option"
  lssConfiguration :: bool
  pendingNodeId :: "byte option"
  pendingBitrate :: "lss_bitrate option"
  storedNodeId :: "byte option"
  storedBitrate :: "lss_bitrate option"
  dev_segmented :: segmented

record injection =
  inj_frame :: can_frame
  inj_after :: nat
  inj_kbps :: u32

section \<open>Values\<close>

definition width_for :: "data_type \<Rightarrow> nat \<Rightarrow> nat" where
  "width_for t fallback = (case data_type_bits t of Some bits \<Rightarrow> (bits + 7) div 8 | None \<Rightarrow> fallback)"

definition text_bytes :: "string \<Rightarrow> byte list" where
  "text_bytes s = map of_char s"

definition seed_bytes :: "object_dictionary \<Rightarrow> (od_key \<Rightarrow> byte list option) \<Rightarrow> byte \<Rightarrow> od_key \<Rightarrow> sub_object \<Rightarrow> byte list" where
  "seed_bytes od nv node key declared =
     (case nv key of
        Some stored \<Rightarrow> stored
      | None \<Rightarrow>
          if dataType declared \<in> {VisibleString, OctetString, UnicodeString} then
            (case defaultValue declared of Some (VString s) \<Rightarrow> text_bytes s | _ \<Rightarrow> [])
          else
            to_bytes (case od_defaultValue od (fst key) (snd key) node of Some v \<Rightarrow> v | None \<Rightarrow> 0)
              (width_for (dataType declared) 4))"

definition seed_from_eds :: "object_dictionary \<Rightarrow> (od_key \<Rightarrow> byte list option) \<Rightarrow> byte \<Rightarrow> od_key \<Rightarrow> entry option" where
  "seed_from_eds od nv node key =
     (case objects od (fst key) of
        None \<Rightarrow> None
      | Some ob \<Rightarrow>
          (case subs ob (snd key) of
             None \<Rightarrow> None
           | Some declared \<Rightarrow>
               Some \<lparr>entry_bytes = seed_bytes od nv node key declared,
                     entry_dataType = dataType declared, entry_access = access declared,
                     entry_lowLimit = lowLimit declared, entry_highLimit = highLimit declared,
                     forcedReadOnly = False\<rparr>))"

definition new_stub_device :: "object_dictionary \<Rightarrow> byte \<Rightarrow> lss_bitrate \<Rightarrow> stub_device" where
  "new_stub_device od node rate =
     \<lparr>dev_od = od, nodeId = node, dev_bitrate = rate, nmtState = NmtPreOperational, present = True,
      responseDelay = 1, resetCount = 0, dev_values = seed_from_eds od (\<lambda>_. None) node,
      nonVolatile = (\<lambda>_. None), lssConfiguration = False, pendingNodeId = None,
      pendingBitrate = None, storedNodeId = None, storedBitrate = None,
      dev_segmented = no_segmented\<rparr>"

definition dev_value :: "stub_device \<Rightarrow> od_key \<Rightarrow> u64 option" where
  "dev_value d key = map_option (\<lambda>e. to_uint (entry_bytes e)) (dev_values d key)"

definition set_value :: "od_key \<Rightarrow> u64 \<Rightarrow> stub_device \<Rightarrow> stub_device" where
  "set_value key v d =
     (case dev_values d key of
        None \<Rightarrow> d
      | Some e \<Rightarrow>
          d\<lparr>dev_values := (dev_values d)(key \<mapsto> e\<lparr>entry_bytes :=
             to_bytes v (if entry_bytes e = [] then 4 else length (entry_bytes e))\<rparr>)\<rparr>)"

definition stored_value :: "stub_device \<Rightarrow> od_key \<Rightarrow> u64 option" where
  "stored_value d key = map_option to_uint (nonVolatile d key)"

definition make_read_only :: "od_key \<Rightarrow> stub_device \<Rightarrow> stub_device" where
  "make_read_only key d =
     (case dev_values d key of
        None \<Rightarrow> d
      | Some e \<Rightarrow> d\<lparr>dev_values := (dev_values d)(key \<mapsto> e\<lparr>forcedReadOnly := True\<rparr>)\<rparr>)"

section \<open>Answers\<close>

definition dev_reply :: "can_frame \<Rightarrow> stub_device \<Rightarrow> injection" where
  "dev_reply f d =
     \<lparr>inj_frame = f, inj_after = responseDelay d, inj_kbps = lss_bitrate_to_kbps (dev_bitrate d)\<rparr>"

definition dev_response :: "stub_device \<Rightarrow> can_frame" where
  "dev_response d = empty_frame\<lparr>frame_id := kResponseCobIdBase + ucast (nodeId d), frame_len := 8\<rparr>"

definition dev_abort :: "u16 \<Rightarrow> byte \<Rightarrow> sdo_abort_code \<Rightarrow> stub_device \<Rightarrow> injection" where
  "dev_abort i s code d =
     dev_reply (put_bytes 4 (le32 (abort_code code)) (put_index i s (put_byte 0 kScsAbort (dev_response d)))) d"

text \<open>Adopt what LSS stored, reload the values, and announce the boot.\<close>

definition dev_reset :: "stub_device \<Rightarrow> injection list \<times> stub_device" where
  "dev_reset d =
     (let node = (case storedNodeId d of Some n \<Rightarrow> n | None \<Rightarrow> nodeId d);
          rate = (case storedBitrate d of Some r \<Rightarrow> r | None \<Rightarrow> dev_bitrate d);
          d' = d\<lparr>resetCount := resetCount d + 1, nodeId := node, dev_bitrate := rate,
                 dev_values := seed_from_eds (dev_od d) (nonVolatile d) node,
                 nmtState := NmtPreOperational, lssConfiguration := False,
                 dev_segmented := no_segmented\<rparr>
      in ([\<lparr>inj_frame = put_byte 0 0 (empty_frame\<lparr>frame_id := kHeartbeatCobIdBase + ucast node, frame_len := 1\<rparr>),
            inj_after = 50, inj_kbps = lss_bitrate_to_kbps rate\<rparr>], d'))"

definition handle_nmt :: "can_frame \<Rightarrow> stub_device \<Rightarrow> injection list \<times> stub_device" where
  "handle_nmt f d =
     (if frame_len f < 2 then ([], d)
      else if byte_at f 1 \<noteq> 0 \<and> byte_at f 1 \<noteq> nodeId d then ([], d)
      else case nmt_command_of (byte_at f 0) of
             None \<Rightarrow> ([], d)
           | Some Start \<Rightarrow> ([], d\<lparr>nmtState := NmtOperational\<rparr>)
           | Some Stop \<Rightarrow> ([], d\<lparr>nmtState := NmtStopped\<rparr>)
           | Some EnterPreOperational \<Rightarrow> ([], d\<lparr>nmtState := NmtPreOperational\<rparr>)
           | Some ResetNode \<Rightarrow> dev_reset d
           | Some ResetCommunication \<Rightarrow> dev_reset d)"

section \<open>The SDO server\<close>

definition segment_command :: "bool \<Rightarrow> nat \<Rightarrow> bool \<Rightarrow> byte" where
  "segment_command toggle n final =
     kScsUploadSegment OR (if toggle then kToggle else 0) OR push_bit 1 (of_nat (7 - n))
       OR (if final then kSizeIndicated else 0)"

definition handle_segment :: "byte \<Rightarrow> stub_device \<Rightarrow> injection list \<times> stub_device" where
  "handle_segment command d =
     (let sg = dev_segmented d in
      if \<not> seg_active sg then ([dev_abort 0 0 CommandSpecifierInvalid d], d)
      else if (command AND kToggle \<noteq> 0) \<noteq> seg_toggle sg then
        (let d' = d\<lparr>dev_segmented := no_segmented\<rparr> in ([dev_abort 0 0 ToggleBitNotAlternated d'], d'))
      else
        let remaining = length (seg_bytes sg) - seg_offset sg;
            size = min remaining 7;
            last = (size = remaining);
            chunk = take size (drop (seg_offset sg) (seg_bytes sg));
            response = put_bytes 1 chunk (put_byte 0 (segment_command (seg_toggle sg) size last) (dev_response d));
            sg' = (if last then no_segmented
                   else sg\<lparr>seg_offset := seg_offset sg + size, seg_toggle := \<not> seg_toggle sg\<rparr>);
            d' = d\<lparr>dev_segmented := sg'\<rparr>
        in ([dev_reply response d'], d'))"

definition expedited_upload_command :: "nat \<Rightarrow> byte" where
  "expedited_upload_command n = ucast (0x43 OR push_bit 2 (4 - of_nat n) :: u64)"

definition handle_upload :: "u16 \<Rightarrow> byte \<Rightarrow> entry \<Rightarrow> stub_device \<Rightarrow> injection list \<times> stub_device" where
  "handle_upload i s e d =
     (if \<not> is_readable (entry_access e) then ([dev_abort i s ReadOfWriteOnly d], d)
      else
        let n = length (entry_bytes e) in
        if n \<le> 4 then
          ([dev_reply (put_bytes 4 (entry_bytes e)
              (put_byte 0 (expedited_upload_command n) (put_index i s (dev_response d)))) d], d)
        else
          let d' = d\<lparr>dev_segmented := \<lparr>seg_active = True, seg_bytes = entry_bytes e, seg_offset = 0, seg_toggle = False\<rparr>\<rparr>
          in ([dev_reply (put_bytes 4 (le32 (of_nat n))
                (put_byte 0 (kScsUpload OR kSizeIndicated) (put_index i s (dev_response d)))) d'], d'))"

definition download_size :: "byte \<Rightarrow> nat" where
  "download_size command =
     (if command AND kSizeIndicated \<noteq> 0 then 4 - unat (drop_bit 2 command AND 3) else 4)"

text \<open>The checks of a download, in their order.\<close>

definition download_check :: "entry \<Rightarrow> byte \<Rightarrow> byte list \<Rightarrow> sdo_abort_code option" where
  "download_check e command bs =
     (let size = download_size command;
          expected = width_for (entry_dataType e) (length (entry_bytes e));
          asSigned = sint (to_uint bs)
      in if forcedReadOnly e \<or> \<not> is_writable (entry_access e) then Some WriteOfReadOnly
         else if command AND kExpedited = 0 then Some UnsupportedAccess
         else if size \<noteq> expected then Some (if expected < size then LengthTooHigh else LengthTooLow)
         else if (case entry_lowLimit e of None \<Rightarrow> False | Some l \<Rightarrow> asSigned < l) then Some ValueTooLow
         else if (case entry_highLimit e of None \<Rightarrow> False | Some h \<Rightarrow> h < asSigned) then Some ValueTooHigh
         else None)"

definition store_parameters_all :: "stub_device \<Rightarrow> stub_device" where
  "store_parameters_all d =
     d\<lparr>nonVolatile := (\<lambda>key. case dev_values d key of
         Some e \<Rightarrow> Some (entry_bytes e) | None \<Rightarrow> nonVolatile d key)\<rparr>"

definition restore_parameters_all :: "stub_device \<Rightarrow> stub_device" where
  "restore_parameters_all d = d\<lparr>nonVolatile := (\<lambda>_. None), storedNodeId := None, storedBitrate := None\<rparr>"

definition handle_download :: "can_frame \<Rightarrow> u16 \<Rightarrow> byte \<Rightarrow> entry \<Rightarrow> stub_device \<Rightarrow> injection list \<times> stub_device" where
  "handle_download f i s e d =
     (let command = byte_at f 0;
          bs = take (download_size command) (drop 4 (frame_data f))
      in case download_check e command bs of
           Some code \<Rightarrow> ([dev_abort i s code d], d)
         | None \<Rightarrow>
             let d1 = d\<lparr>dev_values := (dev_values d)((i, s) \<mapsto> e\<lparr>entry_bytes := bs\<rparr>)\<rparr>;
                 d2 = (if i = 0x1010 \<and> to_uint bs = 0x65766173 then store_parameters_all d1
                       else if i = 0x1011 \<and> to_uint bs = 0x64616F6C then restore_parameters_all d1
                       else d1)
             in ([dev_reply (put_index i s (put_byte 0 kScsDownload (dev_response d2))) d2], d2))"

definition handle_sdo :: "can_frame \<Rightarrow> stub_device \<Rightarrow> injection list \<times> stub_device" where
  "handle_sdo f d =
     (if frame_len f \<noteq> 8 then ([], d)
      else
        let command = byte_at f 0; i = get_index f; s = byte_at f 3 in
        if command_specifier command = kCcsUploadSegment then handle_segment command d
        else if od_get (dev_od d) i = None then ([dev_abort i s ObjectDoesNotExist d], d)
        else case dev_values d (i, s) of
               None \<Rightarrow> ([dev_abort i s SubIndexDoesNotExist d], d)
             | Some e \<Rightarrow>
                 if command_specifier command = kCcsUpload then handle_upload i s e d
                 else if command_specifier command = kCcsDownload then handle_download f i s e d
                 else ([dev_abort i s CommandSpecifierInvalid d], d))"

section \<open>The LSS slave\<close>

definition lss_confirm :: "byte \<Rightarrow> byte \<Rightarrow> byte \<Rightarrow> stub_device \<Rightarrow> injection" where
  "lss_confirm cs errorCode v d =
     dev_reply (put_byte 2 v (put_byte 1 errorCode (put_byte 0 cs
       (empty_frame\<lparr>frame_id := kSlaveCobId, frame_len := 8\<rparr>)))) d"

definition lss_rate_refused :: "stub_device \<Rightarrow> lss_bitrate \<Rightarrow> bool" where
  "lss_rate_refused d rate = (supportedBitrates (dev_od d) (lss_bitrate_to_kbps rate) = Some False)"

definition handle_lss :: "can_frame \<Rightarrow> stub_device \<Rightarrow> injection list \<times> stub_device" where
  "handle_lss f d =
     (if frame_len f \<noteq> 8 then ([], d)
      else
        let cs = byte_at f 0 in
        if cs = kSwitchStateGlobal then ([], d\<lparr>lssConfiguration := (byte_at f 1 = kModeConfiguration)\<rparr>)
        else if \<not> lssConfiguration d then ([], d)
        else if cs = kConfigureNodeId then
          (let requested = byte_at f 1 in
           if requested < 1 \<or> 127 < requested then ([lss_confirm cs 1 0 d], d)
           else ([lss_confirm cs 0 0 d], d\<lparr>pendingNodeId := Some requested\<rparr>))
        else if cs = kConfigureBitTiming then
          (if byte_at f 1 \<noteq> 0 then ([lss_confirm cs 1 0 d], d)
           else if 8 < byte_at f 2 then ([lss_confirm cs 1 0 d], d)
           else
             let rate = lss_table ! unat (byte_at f 2) in
             if lss_rate_refused d rate then ([lss_confirm cs 1 0 d], d)
             else ([lss_confirm cs 0 0 d], d\<lparr>pendingBitrate := Some rate\<rparr>))
        else if cs = kStoreConfiguration then
          ([lss_confirm cs 0 0 d],
           d\<lparr>storedNodeId := (case pendingNodeId d of Some n \<Rightarrow> Some n | None \<Rightarrow> storedNodeId d),
             storedBitrate := (case pendingBitrate d of Some r \<Rightarrow> Some r | None \<Rightarrow> storedBitrate d)\<rparr>)
        else if cs = kInquireNodeId then ([lss_confirm cs (nodeId d) 0 d], d)
        else if cs = kActivateBitTiming then
          ([], d\<lparr>dev_bitrate := (case pendingBitrate d of Some r \<Rightarrow> r | None \<Rightarrow> dev_bitrate d)\<rparr>)
        else ([], d))"

section \<open>Dispatch\<close>

definition dev_handle :: "u32 \<Rightarrow> can_frame \<Rightarrow> stub_device \<Rightarrow> injection list \<times> stub_device" where
  "dev_handle bus_kbps f d =
     (if \<not> present d then ([], d)
      else if bus_kbps \<noteq> lss_bitrate_to_kbps (dev_bitrate d) then ([], d)
      else
        let cobid = frame_id f AND 0x7FF in
        if cobid = kNmtCobId then handle_nmt f d
        else if cobid = kMasterCobId then handle_lss f d
        else if cobid = kRequestCobIdBase + ucast (nodeId d) then handle_sdo f d
        else ([], d))"

definition emit_tpdo1 :: "byte list \<Rightarrow> stub_device \<Rightarrow> injection" where
  "emit_tpdo1 payload d =
     (let cobid = (case dev_value d (0x1800, 1) of Some v \<Rightarrow> v | None \<Rightarrow> 0);
          n = min (length payload) 64
      in \<lparr>inj_frame = put_bytes 0 (take n payload)
            (empty_frame\<lparr>frame_id := ucast (cobid AND 0x7FF), frame_len := of_nat n\<rparr>),
          inj_after = 0, inj_kbps = lss_bitrate_to_kbps (dev_bitrate d)\<rparr>)"

section \<open>Frames of an answer\<close>

lemma dev_response_fields [frame_simps]:
  "frame_id (dev_response d) = kResponseCobIdBase + ucast (nodeId d)"
  "frame_len (dev_response d) = 8" "frame_wf (dev_response d)"
  "j < 64 \<Longrightarrow> byte_at (dev_response d) j = 0"
  by (simp_all add: dev_response_def frame_simps)

text \<open>What the handlers of one device leave as it was.\<close>

definition same_address :: "stub_device \<Rightarrow> stub_device \<Rightarrow> bool" where
  "same_address d d' \<longleftrightarrow> nodeId d' = nodeId d \<and> dev_bitrate d' = dev_bitrate d \<and>
     present d' = present d \<and> responseDelay d' = responseDelay d \<and> dev_od d' = dev_od d"

definition sdo_answer :: "stub_device \<Rightarrow> injection list \<Rightarrow> bool" where
  "sdo_answer d js \<longleftrightarrow> (\<exists>f. js = [dev_reply f d] \<and> frame_wf f \<and> frame_len f = 8 \<and>
     frame_id f = kResponseCobIdBase + ucast (nodeId d))"

lemma same_address_refl [simp]: "same_address d d"
  by (simp add: same_address_def)

lemma same_address_updates [simp]:
  "same_address d (d\<lparr>dev_segmented := sg\<rparr>)"
  "same_address d (d\<lparr>dev_values := vs\<rparr>)"
  by (simp_all add: same_address_def)

lemma sdo_answer_abort [simp]: "sdo_answer d [dev_abort i s c d]"
  unfolding sdo_answer_def dev_abort_def by (intro exI conjI, rule refl) (simp_all add: frame_simps)

lemma sdo_answer_reply:
  "frame_wf f \<Longrightarrow> frame_len f = 8 \<Longrightarrow> frame_id f = kResponseCobIdBase + ucast (nodeId d) \<Longrightarrow> sdo_answer d [dev_reply f d]"
  by (auto simp: sdo_answer_def)

lemma handle_segment_answer:
  "handle_segment c d = (js, d') \<Longrightarrow> sdo_answer d' js \<and> same_address d d'"
  by (auto simp: handle_segment_def Let_def frame_simps intro!: sdo_answer_reply split: if_splits)

lemma handle_upload_answer:
  "handle_upload i s e d = (js, d') \<Longrightarrow> sdo_answer d' js \<and> same_address d d'"
  by (auto simp: handle_upload_def Let_def frame_simps intro!: sdo_answer_reply split: if_splits)

lemma handle_download_answer:
  "handle_download f i s e d = (js, d') \<Longrightarrow> sdo_answer d' js \<and> same_address d d'"
  by (auto simp: handle_download_def Let_def frame_simps same_address_def store_parameters_all_def
    restore_parameters_all_def intro!: sdo_answer_reply split: if_splits option.splits)

text \<open>Every request of eight bytes gets exactly one answer, from the device's own address.\<close>

lemma handle_sdo_answer:
  assumes "handle_sdo f d = (js, d')" "frame_len f = 8"
  shows "sdo_answer d' js \<and> same_address d d'"
  using assms handle_segment_answer handle_upload_answer handle_download_answer
  by (auto simp: handle_sdo_def Let_def split: if_splits option.splits)

section \<open>Widths and addresses\<close>

definition width_ok :: "data_type \<Rightarrow> byte list \<Rightarrow> bool" where
  "width_ok t bs \<longleftrightarrow> (case data_type_bits t of Some bits \<Rightarrow> length bs = (bits + 7) div 8 | None \<Rightarrow> True)"

definition node_ok :: "byte \<Rightarrow> bool" where
  "node_ok n \<longleftrightarrow> 1 \<le> n \<and> n \<le> 127"

definition entry_matches :: "sub_object \<Rightarrow> entry \<Rightarrow> bool" where
  "entry_matches declared e \<longleftrightarrow> entry_dataType e = dataType declared \<and> entry_access e = access declared \<and>
     entry_lowLimit e = lowLimit declared \<and> entry_highLimit e = highLimit declared \<and>
     width_ok (dataType declared) (entry_bytes e)"

text \<open>
  The live values are exactly the declared objects, each with its declared type, access, limits
  and width; what is stored has the declared width too; every node ID the device can come to use
  is a valid one.
\<close>

fun slot_ok :: "sub_object option \<Rightarrow> entry option \<Rightarrow> byte list option \<Rightarrow> bool" where
  "slot_ok None v nv \<longleftrightarrow> v = None"
| "slot_ok (Some declared) v nv \<longleftrightarrow>
     (\<exists>e. v = Some e \<and> entry_matches declared e) \<and> (\<forall>bs. nv = Some bs \<longrightarrow> width_ok (dataType declared) bs)"

definition values_ok ::
  "object_dictionary \<Rightarrow> (od_key \<Rightarrow> entry option) \<Rightarrow> (od_key \<Rightarrow> byte list option) \<Rightarrow> bool" where
  "values_ok od vs nv \<longleftrightarrow> (\<forall>i s. slot_ok (od_get_sub od i s) (vs (i, s)) (nv (i, s)))"

definition device_ok :: "stub_device \<Rightarrow> bool" where
  "device_ok d \<longleftrightarrow>
     values_ok (dev_od d) (dev_values d) (nonVolatile d) \<and> node_ok (nodeId d) \<and>
     (\<forall>n. pendingNodeId d = Some n \<longrightarrow> node_ok n) \<and> (\<forall>n. storedNodeId d = Some n \<longrightarrow> node_ok n)"

lemma values_okD:
  assumes "values_ok od vs nv" "vs (i, s) = Some e"
  shows "\<exists>declared. od_get_sub od i s = Some declared \<and> entry_matches declared e"
proof -
  from assms(1) have "slot_ok (od_get_sub od i s) (vs (i, s)) (nv (i, s))" by (simp add: values_ok_def)
  with assms(2) show ?thesis by (cases "od_get_sub od i s") auto
qed

lemma values_okI: "(\<And>i s. slot_ok (od_get_sub od i s) (vs (i, s)) (nv (i, s))) \<Longrightarrow> values_ok od vs nv"
  by (simp add: values_ok_def)

lemma slot_ok_stored: "slot_ok decl v nv \<Longrightarrow> v = Some e \<Longrightarrow> slot_ok decl v (Some (entry_bytes e))"
  by (cases decl) (auto simp: entry_matches_def)

lemma slot_ok_cleared: "slot_ok decl v nv \<Longrightarrow> slot_ok decl v None"
  by (cases decl) auto

lemma seed_bytes_width:
  assumes "\<And>bs. nv key = Some bs \<Longrightarrow> width_ok (dataType declared) bs"
  shows "width_ok (dataType declared) (seed_bytes od nv node key declared)"
proof (cases "nv key")
  case None
  then show ?thesis
    by (cases "dataType declared") (simp_all add: seed_bytes_def width_ok_def width_for_def)
next
  case (Some bs)
  with assms show ?thesis by (simp add: seed_bytes_def)
qed

lemma seed_from_eds_slot:
  assumes "slot_ok (od_get_sub od i s) v (nv (i, s))"
  shows "slot_ok (od_get_sub od i s) (seed_from_eds od nv node (i, s)) (nv (i, s))"
proof (cases "od_get_sub od i s")
  case None
  then show ?thesis
    by (auto simp: od_get_sub_def od_get_def seed_from_eds_def split: option.splits)
next
  case (Some declared)
  have seed: "seed_from_eds od nv node (i, s) =
      Some \<lparr>entry_bytes = seed_bytes od nv node (i, s) declared, entry_dataType = dataType declared,
        entry_access = access declared, entry_lowLimit = lowLimit declared,
        entry_highLimit = highLimit declared, forcedReadOnly = False\<rparr>"
    using Some by (auto simp: od_get_sub_def od_get_def seed_from_eds_def split: option.splits)
  from assms Some have "\<And>bs. nv (i, s) = Some bs \<Longrightarrow> width_ok (dataType declared) bs" by auto
  from seed_bytes_width [of nv "(i, s)" declared od node, OF this] seed Some assms show ?thesis
    by (simp add: entry_matches_def)
qed

lemma seed_values_ok: "values_ok od vs nv \<Longrightarrow> values_ok od (seed_from_eds od nv node) nv"
  by (rule values_okI, rule seed_from_eds_slot) (auto simp: values_ok_def)

lemma seed_initial_ok: "values_ok od (seed_from_eds od (\<lambda>_. None) node) (\<lambda>_. None)"
proof (rule values_okI)
  fix i s
  show "slot_ok (od_get_sub od i s) (seed_from_eds od (\<lambda>_. None) node (i, s)) None"
    using seed_bytes_width [of "\<lambda>_. None" "(i, s)"]
    by (auto simp: od_get_sub_def od_get_def seed_from_eds_def entry_matches_def split: option.split)
qed

lemma new_stub_device_ok: "node_ok n \<Longrightarrow> device_ok (new_stub_device od n rate)"
  by (simp add: device_ok_def new_stub_device_def seed_initial_ok)

section \<open>Every handler keeps the device well formed\<close>

lemma dev_reset_ok: "device_ok d \<Longrightarrow> device_ok (snd (dev_reset d))"
  by (auto simp: device_ok_def dev_reset_def Let_def intro: seed_values_ok split: option.split)

lemma handle_nmt_ok: "device_ok d \<Longrightarrow> device_ok (snd (handle_nmt f d))"
  using dev_reset_ok [of d]
  by (auto simp: handle_nmt_def device_ok_def split: option.split nmt_command.split)

lemma node_ok_alt: "node_ok n \<longleftrightarrow> n \<noteq> 0 \<and> n \<le> 127"
  by (simp add: node_ok_def word_le_nat_alt Suc_le_eq unat_gt_0)

lemma handle_lss_ok: "device_ok d \<Longrightarrow> device_ok (snd (handle_lss f d))"
  by (auto simp: handle_lss_def Let_def device_ok_def node_ok_alt not_less split: option.split)

lemma handle_segment_ok: "device_ok d \<Longrightarrow> device_ok (snd (handle_segment c d))"
  by (auto simp: handle_segment_def Let_def device_ok_def)

lemma handle_upload_ok: "device_ok d \<Longrightarrow> device_ok (snd (handle_upload i s e d))"
  by (auto simp: handle_upload_def Let_def device_ok_def)

lemma download_size_bound: "download_size c \<le> 4"
  by (simp add: download_size_def)

lemma download_width:
  assumes "download_check e c bs = None" "entry_matches declared e" "length bs = download_size c"
  shows "entry_matches declared (e\<lparr>entry_bytes := bs\<rparr>)"
  using assms
  by (auto simp: download_check_def Let_def entry_matches_def width_ok_def width_for_def
    split: if_splits option.splits)

lemma values_ok_write:
  assumes "values_ok od vs nv" "vs (i, s) = Some e"
    "\<And>declared. od_get_sub od i s = Some declared \<Longrightarrow> entry_matches declared e \<Longrightarrow> entry_matches declared e'"
  shows "values_ok od (vs((i, s) \<mapsto> e')) nv"
proof (rule values_okI)
  fix i' s'
  from assms(1) have "slot_ok (od_get_sub od i' s') (vs (i', s')) (nv (i', s'))" by (simp add: values_ok_def)
  with assms(2,3) show "slot_ok (od_get_sub od i' s') ((vs((i, s) \<mapsto> e')) (i', s')) (nv (i', s'))"
    by (cases "od_get_sub od i' s'") (auto split: if_splits)
qed

lemma store_parameters_ok: "device_ok d \<Longrightarrow> device_ok (store_parameters_all d)"
proof -
  assume ok: "device_ok d"
  have "values_ok (dev_od d) (dev_values d)
      (\<lambda>key. case dev_values d key of Some e \<Rightarrow> Some (entry_bytes e) | None \<Rightarrow> nonVolatile d key)"
  proof (rule values_okI)
    fix i s
    from ok have "slot_ok (od_get_sub (dev_od d) i s) (dev_values d (i, s)) (nonVolatile d (i, s))"
      by (simp add: device_ok_def values_ok_def)
    then show "slot_ok (od_get_sub (dev_od d) i s) (dev_values d (i, s))
        (case dev_values d (i, s) of Some e \<Rightarrow> Some (entry_bytes e) | None \<Rightarrow> nonVolatile d (i, s))"
      using slot_ok_stored by (cases "dev_values d (i, s)") auto
  qed
  with ok show ?thesis by (simp add: device_ok_def store_parameters_all_def)
qed

lemma restore_parameters_ok: "device_ok d \<Longrightarrow> device_ok (restore_parameters_all d)"
  by (auto simp: device_ok_def restore_parameters_all_def values_ok_def intro: slot_ok_cleared)

lemma handle_download_ok:
  assumes "device_ok d" "dev_values d (i, s) = Some e" "frame_wf f"
  shows "device_ok (snd (handle_download f i s e d))"
proof -
  let ?c = "byte_at f 0"
  let ?bs = "take (download_size ?c) (drop 4 (frame_data f))"
  have len: "length ?bs = download_size ?c"
    using assms(3) download_size_bound [of ?c] by (simp add: frame_wf_def)
  show ?thesis
  proof (cases "download_check e ?c ?bs")
    case None
    let ?d = "d\<lparr>dev_values := (dev_values d)((i, s) \<mapsto> e\<lparr>entry_bytes := ?bs\<rparr>)\<rparr>"
    have "values_ok (dev_od d) ((dev_values d)((i, s) \<mapsto> e\<lparr>entry_bytes := ?bs\<rparr>)) (nonVolatile d)"
      using assms(1,2) download_width [OF None _ len]
      by (intro values_ok_write [where e = e]) (simp_all add: device_ok_def)
    then have "device_ok ?d" using assms(1) by (simp add: device_ok_def)
    then show ?thesis using None store_parameters_ok [of ?d] restore_parameters_ok [of ?d]
      by (auto simp: handle_download_def Let_def)
  qed (use assms(1) in \<open>simp add: handle_download_def Let_def\<close>)
qed

lemma handle_sdo_ok: "device_ok d \<Longrightarrow> frame_wf f \<Longrightarrow> device_ok (snd (handle_sdo f d))"
  using handle_segment_ok handle_upload_ok handle_download_ok
  by (auto simp: handle_sdo_def Let_def split: option.split)

lemma dev_handle_ok: "device_ok d \<Longrightarrow> frame_wf f \<Longrightarrow> device_ok (snd (dev_handle k f d))"
  by (simp add: dev_handle_def Let_def handle_nmt_ok handle_lss_ok handle_sdo_ok)

text \<open>One frame heard at a bus rate; a frame has 64 payload bytes.\<close>

definition dev_step :: "u32 \<times> can_frame \<Rightarrow> stub_device \<Rightarrow> stub_device" where
  "dev_step x d = (if frame_wf (snd x) then snd (dev_handle (fst x) (snd x) d) else d)"

interpretation dev_ops: op_system dev_step device_ok
  by unfold_locales (simp add: dev_step_def dev_handle_ok)

text \<open>
  C4.  Whatever frames a device hears, at whatever bit rates, its live object dictionary keeps
  exactly the declared objects at their declared types and widths, what it stored has those
  widths, and its node ID (live, pending or stored) stays within 1 to 127.
\<close>

theorem stub_device_invariant:
  assumes "1 \<le> n" "n \<le> 127"
  shows "device_ok (fold dev_step heard (new_stub_device od n rate))"
  by (rule dev_ops.inv_run) (use assms in \<open>simp add: new_stub_device_ok node_ok_def\<close>)

theorem stub_device_invariant_witness:
  "device_ok (fold dev_step [(250, make_nmt_frame ResetNode 10)]
     (new_stub_device \<lparr>lssSupported = True, supportedBitrates = (\<lambda>_. None), objects = (\<lambda>_. None)\<rparr> 10 Rate250k))"
  by (rule stub_device_invariant) simp_all

end
