(* ===== verification/CanOpenBus.thy ===== *)
theory CanOpenBus
  imports StubDevice
begin

text \<open>
  libs/canopen/src/virtual_bus.cpp and bus.cpp: a bus with a virtual clock, the frames in flight
  and the devices on it; and the three services that listen to it, wired the way the
  reconfiguration tool wires them: one SDO client (sdo.cpp), one LSS master (lss.cpp), one NMT
  master (nmt.cpp).  Time is in milliseconds, the unit of every duration in the code.  A
  callback of the NMT master is the list of the calls it received.
\<close>

section \<open>The listeners\<close>

record sdo_client =
  sc_nodeId :: byte
  sc_timeout :: nat
  sc_pending :: "can_frame option"

record lss_master =
  singleNodeBus :: bool
  lm_timeout :: nat
  lm_pending :: "can_frame option"

record emcy_message =
  em_nodeId :: byte
  em_errorCode :: u16
  em_errorRegister :: byte
  em_manufacturer :: "byte list"

record nmt_master =
  nm_states :: "byte \<Rightarrow> byte option"
  nm_bootCounts :: "byte \<Rightarrow> u32"
  nm_stateCalls :: "(byte \<times> byte) list"
  nm_emergencyCalls :: "emcy_message list"

definition sdo_hear :: "can_frame \<Rightarrow> sdo_client \<Rightarrow> sdo_client" where
  "sdo_hear f c =
     (if frame_id f AND 0x7FF \<noteq> kResponseCobIdBase + ucast (sc_nodeId c) then c
      else c\<lparr>sc_pending := Some f\<rparr>)"

definition lss_hear :: "can_frame \<Rightarrow> lss_master \<Rightarrow> lss_master" where
  "lss_hear f m = (if frame_id f AND 0x7FF = kSlaveCobId then m\<lparr>lm_pending := Some f\<rparr> else m)"

definition nmt_hear_heartbeat :: "byte \<Rightarrow> byte \<Rightarrow> nmt_master \<Rightarrow> nmt_master" where
  "nmt_hear_heartbeat node b m =
     (let st = b AND 0x7F;
          m1 = (if b = 0 then m\<lparr>nm_bootCounts := (nm_bootCounts m)(node := nm_bootCounts m node + 1)\<rparr> else m);
          changed = (nm_states m node \<noteq> Some st);
          m2 = m1\<lparr>nm_states := (nm_states m1)(node \<mapsto> st)\<rparr>
      in if changed then m2\<lparr>nm_stateCalls := nm_stateCalls m2 @ [(node, st)]\<rparr> else m2)"

definition nmt_hear :: "can_frame \<Rightarrow> nmt_master \<Rightarrow> nmt_master" where
  "nmt_hear f m =
     (let cobid = frame_id f AND 0x7FF in
      if kHeartbeatCobIdBase \<le> cobid \<and> cobid < kHeartbeatCobIdBase + 128 \<and> 1 \<le> frame_len f then
        nmt_hear_heartbeat (ucast (cobid - kHeartbeatCobIdBase)) (byte_at f 0) m
      else if kEmcyCobIdBase < cobid \<and> cobid < kEmcyCobIdBase + 128 \<and> 8 \<le> frame_len f then
        m\<lparr>nm_emergencyCalls := nm_emergencyCalls m @
          [\<lparr>em_nodeId = ucast (cobid - kEmcyCobIdBase),
            em_errorCode = join16 (byte_at f 1) (byte_at f 0), em_errorRegister = byte_at f 2,
            em_manufacturer = map (\<lambda>i. byte_at f (3 + i)) [0..<5]\<rparr>]\<rparr>
      else m)"

section \<open>The bus\<close>

record scheduled =
  sch_at :: nat
  sch_frame :: can_frame
  sch_kbps :: u32

record bus_world =
  bw_now :: nat
  bw_kbps :: u32
  bw_queue :: "scheduled list"
  bw_sent :: "can_frame list"
  bw_devices :: "stub_device list"
  bw_sdo :: sdo_client
  bw_lss :: lss_master
  bw_nmt :: nmt_master

definition vb_inject :: "injection \<Rightarrow> bus_world \<Rightarrow> bus_world" where
  "vb_inject j w =
     w\<lparr>bw_queue := bw_queue w @ [\<lparr>sch_at = bw_now w + inj_after j, sch_frame = inj_frame j, sch_kbps = inj_kbps j\<rparr>]\<rparr>"

text \<open>Every device sees the frame, in attachment order; what it injects goes to the end of the queue.\<close>

fun send_to_devices :: "can_frame \<Rightarrow> stub_device list \<Rightarrow> bus_world \<Rightarrow> stub_device list \<times> bus_world" where
  "send_to_devices f [] w = ([], w)"
| "send_to_devices f (d # ds) w =
     (let (js, d') = dev_handle (bw_kbps w) f d;
          (ds', w') = send_to_devices f ds (fold vb_inject js w)
      in (d' # ds', w'))"

definition bus_send :: "can_frame \<Rightarrow> bus_world \<Rightarrow> bus_world" where
  "bus_send f w =
     (let (ds, w') = send_to_devices f (bw_devices w) (w\<lparr>bw_sent := bw_sent w @ [f]\<rparr>)
      in w'\<lparr>bw_devices := ds\<rparr>)"

definition bus_deliver :: "can_frame \<Rightarrow> bus_world \<Rightarrow> bus_world" where
  "bus_deliver f w =
     w\<lparr>bw_nmt := nmt_hear f (bw_nmt w), bw_sdo := sdo_hear f (bw_sdo w), bw_lss := lss_hear f (bw_lss w)\<rparr>"

definition bus_poll :: "nat \<Rightarrow> bus_world \<Rightarrow> bus_world" where
  "bus_poll budget w =
     (let t = bw_now w + budget;
          q = sort_key sch_at (bw_queue w);
          arrived = takeWhile (\<lambda>s. \<not> t < sch_at s) q;
          due = map sch_frame (filter (\<lambda>s. \<not> (sch_kbps s \<noteq> 0 \<and> sch_kbps s \<noteq> bw_kbps w)) arrived)
      in fold bus_deliver due
           (w\<lparr>bw_now := t, bw_queue := dropWhile (\<lambda>s. \<not> t < sch_at s) q\<rparr>))"

definition set_bitrate_kbps :: "u32 \<Rightarrow> bus_world \<Rightarrow> bus_world" where
  "set_bitrate_kbps kbps w = w\<lparr>bw_kbps := kbps\<rparr>"

lemma bus_deliver_fields [simp]:
  "bw_now (bus_deliver f w) = bw_now w" "bw_kbps (bus_deliver f w) = bw_kbps w"
  "bw_queue (bus_deliver f w) = bw_queue w" "bw_sent (bus_deliver f w) = bw_sent w"
  "bw_devices (bus_deliver f w) = bw_devices w"
  by (simp_all add: bus_deliver_def)

lemma fold_deliver_fields [simp]:
  "bw_now (fold bus_deliver fs w) = bw_now w" "bw_kbps (fold bus_deliver fs w) = bw_kbps w"
  "bw_queue (fold bus_deliver fs w) = bw_queue w" "bw_sent (fold bus_deliver fs w) = bw_sent w"
  "bw_devices (fold bus_deliver fs w) = bw_devices w"
  by (induction fs arbitrary: w) simp_all

lemma bw_now_poll [simp]: "bw_now (bus_poll b w) = bw_now w + b"
  by (simp add: bus_poll_def Let_def)

section \<open>Waiting\<close>

text \<open>The loop of \<open>wait_until\<close>: slices of at most five milliseconds up to the deadline.\<close>

function wait_loop :: "(bus_world \<Rightarrow> bool) \<Rightarrow> nat \<Rightarrow> bus_world \<Rightarrow> bool \<times> bus_world" where
  "wait_loop p deadline w =
     (if bw_now w < deadline then
        let w' = bus_poll (min (deadline - bw_now w) 5) w in
        if p w' then (True, w') else wait_loop p deadline w'
      else (p w, w))"
  by auto
termination
  by (relation "measure (\<lambda>(p, deadline, w). deadline - bw_now w)") auto

declare wait_loop.simps [simp del]

definition wait_until :: "nat \<Rightarrow> (bus_world \<Rightarrow> bool) \<Rightarrow> bus_world \<Rightarrow> bool \<times> bus_world" where
  "wait_until timeout p w = (if p w then (True, w) else wait_loop p (bw_now w + timeout) w)"

lemma wait_loop_result:
  assumes "bw_now w \<le> deadline" "wait_loop p deadline w = (r, w')"
  shows "(r \<longleftrightarrow> p w') \<and> bw_now w \<le> bw_now w' \<and> bw_now w' \<le> deadline \<and> (\<not> r \<longrightarrow> bw_now w' = deadline)"
  using assms
proof (induction p deadline w rule: wait_loop.induct)
  case (1 p deadline w)
  let ?w = "bus_poll (min (deadline - bw_now w) 5) w"
  show ?case
  proof (cases "bw_now w < deadline")
    case False
    with "1.prems" show ?thesis by (auto simp: wait_loop.simps)
  next
    case True
    have step: "bw_now ?w \<le> deadline" using True by simp
    show ?thesis
    proof (cases "p ?w")
      case pTrue: True
      with True "1.prems"(2) step show ?thesis
        by (auto simp: wait_loop.simps [of p deadline w] Let_def)
    next
      case False
      with True "1.prems"(2) have "wait_loop p deadline ?w = (r, w')"
        by (simp add: wait_loop.simps [of p deadline w] Let_def)
      with "1.IH" [OF True refl False step] show ?thesis by simp
    qed
  qed
qed

text \<open>
  Every wait ends: \<open>wait_until\<close> reports exactly whether its predicate holds when it returns,
  never later than its timeout, and reports failure only when the whole timeout has passed.
\<close>

theorem wait_until_deadline:
  "let (r, w') = wait_until timeout p w in
     (r = p w') \<and> bw_now w \<le> bw_now w' \<and> bw_now w' \<le> bw_now w + timeout \<and>
     (r \<or> bw_now w' = bw_now w + timeout)"
proof (cases "p w")
  case True
  then show ?thesis by (simp add: wait_until_def)
next
  case False
  obtain r w' where "wait_loop p (bw_now w + timeout) w = (r, w')" by fastforce
  with wait_loop_result [of w "bw_now w + timeout" p r w'] False show ?thesis
    by (auto simp: wait_until_def)
qed

section \<open>A single answer in flight\<close>

lemma poll_single:
  assumes "bw_queue w = [s]" "sch_kbps s = bw_kbps w"
  shows "bus_poll b w =
    (if sch_at s \<le> bw_now w + b
     then bus_deliver (sch_frame s) (w\<lparr>bw_now := bw_now w + b, bw_queue := []\<rparr>)
     else w\<lparr>bw_now := bw_now w + b\<rparr>)"
  using assms by (auto simp: bus_poll_def Let_def)

text \<open>
  When one frame is in flight at the bus rate and it arrives by the deadline, and the predicate
  holds exactly once it has been delivered, the wait succeeds in the state after its delivery.
\<close>

lemma wait_loop_single:
  assumes "bw_queue w = [s]" "sch_kbps s = bw_kbps w" "sch_at s \<le> deadline" "bw_now w < deadline"
    and "\<And>t. \<not> p (w\<lparr>bw_now := t\<rparr>)"
    and "\<And>t. p (bus_deliver (sch_frame s) (w\<lparr>bw_now := t, bw_queue := []\<rparr>))"
  shows "\<exists>t. bw_now w \<le> t \<and> t \<le> deadline \<and>
    wait_loop p deadline w = (True, bus_deliver (sch_frame s) (w\<lparr>bw_now := t, bw_queue := []\<rparr>))"
  using assms
proof (induction p deadline w rule: wait_loop.induct)
  case (1 p deadline w)
  let ?b = "min (deadline - bw_now w) 5"
  let ?w = "bus_poll ?b w"
  note step = wait_loop.simps [of p deadline w]
  show ?case
  proof (cases "sch_at s \<le> bw_now w + ?b")
    case True
    with "1.prems" have "?w = bus_deliver (sch_frame s) (w\<lparr>bw_now := bw_now w + ?b, bw_queue := []\<rparr>)"
      by (simp add: poll_single)
    with "1.prems" have "wait_loop p deadline w =
        (True, bus_deliver (sch_frame s) (w\<lparr>bw_now := bw_now w + ?b, bw_queue := []\<rparr>))"
      by (simp add: step Let_def)
    moreover have "bw_now w \<le> bw_now w + ?b" "bw_now w + ?b \<le> deadline" using "1.prems"(4) by simp_all
    ultimately show ?thesis by blast
  next
    case False
    with "1.prems" have w: "?w = w\<lparr>bw_now := bw_now w + ?b\<rparr>" by (simp add: poll_single)
    with "1.prems" have np: "\<not> p ?w" by simp
    have lt: "bw_now w + ?b < deadline" using False "1.prems"(3) by linarith
    have "\<exists>t. bw_now ?w \<le> t \<and> t \<le> deadline \<and>
      wait_loop p deadline ?w = (True, bus_deliver (sch_frame s) (?w\<lparr>bw_now := t, bw_queue := []\<rparr>))"
      by (rule "1.IH" [OF "1.prems"(4) refl np]) (unfold w, use "1.prems" lt in simp_all)
    then obtain t where t: "bw_now w + ?b \<le> t" "t \<le> deadline"
      "wait_loop p deadline ?w = (True, bus_deliver (sch_frame s) (w\<lparr>bw_now := t, bw_queue := []\<rparr>))"
      by (auto simp: w)
    have "wait_loop p deadline w = wait_loop p deadline ?w"
      using "1.prems"(4) np by (simp add: step Let_def)
    with t show ?thesis by (intro exI [of _ t]) simp
  qed
qed

end
