(* ===== verification/SdoClient.thy ===== *)
theory SdoClient
  imports CanOpenBus
begin

text \<open>
  libs/canopen/src/sdo.cpp: the SDO client.  Its operations are written over the exchange of one
  frame, \<open>xfer\<close>: clear the pending response, send the request, wait, and take what arrived
  (\<open>None\<close> when the wait timed out).  \<open>sdo_transfer\<close> is that exchange on the virtual bus; the
  locale \<open>sdo_link\<close> is what the client relies on.
\<close>

section \<open>Definitions\<close>

datatype sdo_error = SdoTimeout | SdoAbort u32 | SdoBadResponse

record sdo_data =
  sdo_bytes :: "byte list"
  sdo_expedited :: bool

definition as_uint :: "sdo_data \<Rightarrow> u64" where
  "as_uint x = to_uint (sdo_bytes x)"

definition sdo_transfer :: "can_frame \<Rightarrow> bus_world \<Rightarrow> can_frame option \<times> bus_world" where
  "sdo_transfer req w =
     (let w1 = bus_send req (w\<lparr>bw_sdo := (bw_sdo w)\<lparr>sc_pending := None\<rparr>\<rparr>);
          (arrived, w2) = wait_until (sc_timeout (bw_sdo w)) (\<lambda>w. sc_pending (bw_sdo w) \<noteq> None) w1
      in if \<not> arrived then (None, w2)
         else (sc_pending (bw_sdo w2), w2\<lparr>bw_sdo := (bw_sdo w2)\<lparr>sc_pending := None\<rparr>\<rparr>))"

text \<open>The checks of \<open>exchange\<close> on the response.\<close>

definition sdo_check :: "can_frame option \<Rightarrow> u16 \<Rightarrow> byte \<Rightarrow> bool \<Rightarrow> sdo_error + can_frame" where
  "sdo_check response i s checkEcho =
     (case response of
        None \<Rightarrow> Inl SdoTimeout
      | Some f \<Rightarrow>
          if frame_len f \<noteq> 8 then Inl SdoBadResponse
          else if command_specifier (byte_at f 0) = kScsAbort then Inl (SdoAbort (get_u32 f 4))
          else if checkEcho \<and> (get_index f \<noteq> i \<or> byte_at f 3 \<noteq> s) then Inl SdoBadResponse
          else Inr f)"

definition sdo_exchange ::
  "(can_frame \<Rightarrow> 's \<Rightarrow> can_frame option \<times> 's) \<Rightarrow> can_frame \<Rightarrow> u16 \<Rightarrow> byte \<Rightarrow> bool \<Rightarrow> 's \<Rightarrow> (sdo_error + can_frame) \<times> 's" where
  "sdo_exchange xfer req i s checkEcho st =
     (let (response, st') = xfer req st in (sdo_check response i s checkEcho, st'))"

definition expedited_unused :: "byte \<Rightarrow> nat" where
  "expedited_unused command =
     (if command AND kSizeIndicated \<noteq> 0 then unat (drop_bit 2 command AND 3) else 0)"

definition segment_unused :: "byte \<Rightarrow> nat" where
  "segment_unused command = unat (drop_bit 1 command AND 7)"

definition kMaxSegments :: nat where
  "kMaxSegments = 1024"

fun upload_segments ::
  "(can_frame \<Rightarrow> 's \<Rightarrow> can_frame option \<times> 's) \<Rightarrow> byte \<Rightarrow> u16 \<Rightarrow> byte \<Rightarrow> nat \<Rightarrow> bool \<Rightarrow> byte list \<Rightarrow> 's \<Rightarrow>
   (sdo_error + sdo_data) \<times> 's" where
  "upload_segments xfer node i s 0 toggle bs st = (Inl SdoBadResponse, st)"
| "upload_segments xfer node i s (Suc n) toggle bs st =
     (case sdo_exchange xfer (make_segment_request node toggle) i s False st of
        (Inl e, st') \<Rightarrow> (Inl e, st')
      | (Inr f, st') \<Rightarrow>
          let command = byte_at f 0 in
          if command_specifier command \<noteq> kScsUploadSegment then (Inl SdoBadResponse, st')
          else if (command AND kToggle \<noteq> 0) \<noteq> toggle then (Inl SdoBadResponse, st')
          else
            let bs' = bs @ take (7 - segment_unused command) (drop 1 (frame_data f)) in
            if command AND kSizeIndicated \<noteq> 0
            then (Inr \<lparr>sdo_bytes = bs', sdo_expedited = False\<rparr>, st')
            else upload_segments xfer node i s n (\<not> toggle) bs' st')"

definition sdo_upload ::
  "(can_frame \<Rightarrow> 's \<Rightarrow> can_frame option \<times> 's) \<Rightarrow> byte \<Rightarrow> u16 \<Rightarrow> byte \<Rightarrow> 's \<Rightarrow> (sdo_error + sdo_data) \<times> 's" where
  "sdo_upload xfer node i s st =
     (case sdo_exchange xfer (make_sdo_upload_frame node i s) i s True st of
        (Inl e, st') \<Rightarrow> (Inl e, st')
      | (Inr f, st') \<Rightarrow>
          let command = byte_at f 0 in
          if command_specifier command \<noteq> kScsUpload then (Inl SdoBadResponse, st')
          else if command AND kExpedited \<noteq> 0 then
            (Inr \<lparr>sdo_bytes = take (4 - expedited_unused command) (drop 4 (frame_data f)), sdo_expedited = True\<rparr>, st')
          else upload_segments xfer node i s kMaxSegments False [] st')"

definition sdo_download ::
  "(can_frame \<Rightarrow> 's \<Rightarrow> can_frame option \<times> 's) \<Rightarrow> byte \<Rightarrow> u16 \<Rightarrow> byte \<Rightarrow> byte list \<Rightarrow> 's \<Rightarrow> (sdo_error + unit) \<times> 's" where
  "sdo_download xfer node i s bs st =
     (if bs = [] \<or> 4 < length bs then (Inl SdoBadResponse, st)
      else case sdo_exchange xfer (make_sdo_download_frame node i s bs) i s True st of
             (Inl e, st') \<Rightarrow> (Inl e, st')
           | (Inr f, st') \<Rightarrow>
               if command_specifier (byte_at f 0) \<noteq> kScsDownload then (Inl SdoBadResponse, st')
               else (Inr (), st'))"

definition upload_uint ::
  "(can_frame \<Rightarrow> 's \<Rightarrow> can_frame option \<times> 's) \<Rightarrow> byte \<Rightarrow> u16 \<Rightarrow> byte \<Rightarrow> 's \<Rightarrow> (sdo_error + 'w::len word) \<times> 's" where
  "upload_uint xfer node i s st =
     (case sdo_upload xfer node i s st of
        (Inl e, st') \<Rightarrow> (Inl e, st')
      | (Inr x, st') \<Rightarrow> (Inr (ucast (as_uint x)), st'))"

definition upload_string ::
  "(can_frame \<Rightarrow> 's \<Rightarrow> can_frame option \<times> 's) \<Rightarrow> byte \<Rightarrow> u16 \<Rightarrow> byte \<Rightarrow> 's \<Rightarrow> (sdo_error + byte list) \<times> 's" where
  "upload_string xfer node i s st =
     (case sdo_upload xfer node i s st of
        (Inl e, st') \<Rightarrow> (Inl e, st')
      | (Inr x, st') \<Rightarrow> (Inr (takeWhile (\<lambda>b. b \<noteq> 0) (sdo_bytes x)), st'))"

definition download_u8 ::
  "(can_frame \<Rightarrow> 's \<Rightarrow> can_frame option \<times> 's) \<Rightarrow> byte \<Rightarrow> u16 \<Rightarrow> byte \<Rightarrow> byte \<Rightarrow> 's \<Rightarrow> (sdo_error + unit) \<times> 's" where
  "download_u8 xfer node i s v = sdo_download xfer node i s [v]"

definition download_u16 ::
  "(can_frame \<Rightarrow> 's \<Rightarrow> can_frame option \<times> 's) \<Rightarrow> byte \<Rightarrow> u16 \<Rightarrow> byte \<Rightarrow> u16 \<Rightarrow> 's \<Rightarrow> (sdo_error + unit) \<times> 's" where
  "download_u16 xfer node i s v = sdo_download xfer node i s [lo8 v, hi8 v]"

definition download_u32 ::
  "(can_frame \<Rightarrow> 's \<Rightarrow> can_frame option \<times> 's) \<Rightarrow> byte \<Rightarrow> u16 \<Rightarrow> byte \<Rightarrow> u32 \<Rightarrow> 's \<Rightarrow> (sdo_error + unit) \<times> 's" where
  "download_u32 xfer node i s v = sdo_download xfer node i s (le32 v)"

definition store_parameters ::
  "(can_frame \<Rightarrow> 's \<Rightarrow> can_frame option \<times> 's) \<Rightarrow> byte \<Rightarrow> byte \<Rightarrow> 's \<Rightarrow> (sdo_error + unit) \<times> 's" where
  "store_parameters xfer node s = sdo_download xfer node 0x1010 s (text_bytes ''save'')"

definition restore_parameters ::
  "(can_frame \<Rightarrow> 's \<Rightarrow> can_frame option \<times> 's) \<Rightarrow> byte \<Rightarrow> byte \<Rightarrow> 's \<Rightarrow> (sdo_error + unit) \<times> 's" where
  "restore_parameters xfer node s = sdo_download xfer node 0x1011 s (text_bytes ''load'')"

section \<open>Command bytes\<close>

lemma length_1_4: "bs \<noteq> [] \<Longrightarrow> length bs \<le> 4 \<Longrightarrow> length bs = 1 \<or> length bs = 2 \<or> length bs = 3 \<or> length bs = 4"
proof -
  assume a: "bs \<noteq> []" "length bs \<le> 4"
  then have "length bs \<noteq> 0" by simp
  with a(2) show ?thesis by linarith
qed

lemma expedited_upload_command_decode:
  assumes "n = 1 \<or> n = 2 \<or> n = 3 \<or> n = 4"
  shows "command_specifier (expedited_upload_command n) = kScsUpload"
    "expedited_upload_command n AND kExpedited \<noteq> 0"
    "4 - expedited_unused (expedited_upload_command n) = n"
  using assms by (auto simp: expedited_upload_command_def command_specifier_def expedited_unused_def)

lemma expedited_download_command_decode:
  assumes "n = 1 \<or> n = 2 \<or> n = 3 \<or> n = 4"
  shows "command_specifier (expedited_download_command n) = kCcsDownload"
    "expedited_download_command n AND kExpedited \<noteq> 0"
    "download_size (expedited_download_command n) = n"
  using assms by (auto simp: expedited_download_command_def command_specifier_def download_size_def)

lemma le7_cases: "n \<le> 7 \<Longrightarrow> n = 0 \<or> n = 1 \<or> n = 2 \<or> n = 3 \<or> n = 4 \<or> n = 5 \<or> n = 6 \<or> n = (7::nat)"
  by auto

lemma segment_command_decode:
  assumes "n \<le> 7"
  shows "command_specifier (segment_command t n l) = kScsUploadSegment"
    "(segment_command t n l AND kToggle \<noteq> 0) = t"
    "(segment_command t n l AND kSizeIndicated \<noteq> 0) = l"
    "7 - segment_unused (segment_command t n l) = n"
  using le7_cases [OF assms]
  by (cases t; cases l; elim disjE; simp add: segment_command_def command_specifier_def segment_unused_def)+

lemma segment_request_decode [frame_simps]:
  "frame_id (make_segment_request node t) = kRequestCobIdBase + ucast node"
  "frame_len (make_segment_request node t) = 8"
  "command_specifier (byte_at (make_segment_request node t) 0) = kCcsUploadSegment"
  "(byte_at (make_segment_request node t) 0 AND kToggle \<noteq> 0) = t"
  by (cases t; simp add: make_segment_request_def frame_simps command_specifier_def)+

lemma upload_request_decode [frame_simps]:
  "frame_id (make_sdo_upload_frame node i s) = kRequestCobIdBase + ucast node"
  "frame_len (make_sdo_upload_frame node i s) = 8"
  "byte_at (make_sdo_upload_frame node i s) 0 = kCcsUpload"
  "get_index (make_sdo_upload_frame node i s) = i" "byte_at (make_sdo_upload_frame node i s) 3 = s"
  by (simp_all add: make_sdo_upload_frame_def frame_simps)

lemma download_request_decode [frame_simps]:
  assumes "length bs \<le> 4"
  shows "frame_id (make_sdo_download_frame node i s bs) = kRequestCobIdBase + ucast node"
    "frame_len (make_sdo_download_frame node i s bs) = 8"
    "byte_at (make_sdo_download_frame node i s bs) 0 = expedited_download_command (length bs)"
    "get_index (make_sdo_download_frame node i s bs) = i"
    "byte_at (make_sdo_download_frame node i s bs) 3 = s"
    "take (length bs) (drop 4 (frame_data (make_sdo_download_frame node i s bs))) = bs"
  using assms by (simp_all add: make_sdo_download_frame_def frame_simps take_drop_put_bytes)

end
