(* ===== verification/SdoLink.thy ===== *)
theory SdoLink
  imports SdoClient
begin

text \<open>
  The SDO client against the device: what an upload and a download mean in terms of the device's
  object dictionary.  The client is proved against the locale \<open>sdo_link\<close> (an exchange that brings
  back the device's answer), which the virtual bus with a reachable device provides.
\<close>

section \<open>The dictionary a device serves\<close>

definition dict_read :: "stub_device \<Rightarrow> u16 \<Rightarrow> byte \<Rightarrow> sdo_abort_code + byte list" where
  "dict_read d i s =
     (if od_get (dev_od d) i = None then Inl ObjectDoesNotExist
      else case dev_values d (i, s) of
             None \<Rightarrow> Inl SubIndexDoesNotExist
           | Some e \<Rightarrow> if is_readable (entry_access e) then Inr (entry_bytes e) else Inl ReadOfWriteOnly)"



definition object_refusal :: "entry \<Rightarrow> byte list \<Rightarrow> int \<Rightarrow> sdo_abort_code option" where
  "object_refusal e bs v =
     (let expected = width_for (entry_dataType e) (length (entry_bytes e))
      in if forcedReadOnly e \<or> \<not> is_writable (entry_access e) then Some WriteOfReadOnly
         else if expected < length bs then Some LengthTooHigh
         else if length bs < expected then Some LengthTooLow
         else if \<exists>l\<in>set_option (entry_lowLimit e). v < l then Some ValueTooLow
         else if \<exists>h\<in>set_option (entry_highLimit e). h < v then Some ValueTooHigh
         else None)"

definition object_write ::
  "(data_type \<Rightarrow> byte list \<Rightarrow> int) \<Rightarrow> stub_device \<Rightarrow> u16 \<Rightarrow> byte \<Rightarrow> byte list \<Rightarrow> sdo_abort_code + stub_device" where
  "object_write value d i s bs =
     (if od_get (dev_od d) i = None then Inl ObjectDoesNotExist
      else case dev_values d (i, s) of
             None \<Rightarrow> Inl SubIndexDoesNotExist
           | Some e \<Rightarrow>
               (case object_refusal e bs (value (entry_dataType e) bs) of
                  Some c \<Rightarrow> Inl c
                | None \<Rightarrow>
                    let d1 = d\<lparr>dev_values := (dev_values d)((i, s) \<mapsto> e\<lparr>entry_bytes := bs\<rparr>)\<rparr>
                    in Inr (if i = 0x1010 \<and> bs = text_bytes ''save'' then store_parameters_all d1
                            else if i = 0x1011 \<and> bs = text_bytes ''load'' then restore_parameters_all d1
                            else d1)))"

text \<open>The device's own reading of the bytes: zero-extended to 64 bits, whatever the type.\<close>

abbreviation write_refusal :: "entry \<Rightarrow> byte list \<Rightarrow> sdo_abort_code option" where
  "write_refusal e bs \<equiv> object_refusal e bs (sint (to_uint bs))"

abbreviation dict_write :: "stub_device \<Rightarrow> u16 \<Rightarrow> byte \<Rightarrow> byte list \<Rightarrow> sdo_abort_code + stub_device" where
  "dict_write \<equiv> object_write (\<lambda>_ bs. sint (to_uint bs))"





lemma download_check_refusal:
  "download_size c = length bs \<Longrightarrow> c AND kExpedited \<noteq> 0 \<Longrightarrow> download_check e c bs = write_refusal e bs"
  by (auto simp: download_check_def object_refusal_def Let_def split: option.split)

lemma to_uint_signature:
  assumes "bs \<noteq> []" "length bs \<le> 4" "length t = 4" "t ! 3 \<noteq> 0" "to_uint bs = to_uint t"
  shows "bs = t"
proof (cases "length bs = 4")
  case True
  have "bs = to_bytes (to_uint bs) 4" using to_bytes_to_uint [of bs] True by simp
  also have "\<dots> = to_bytes (to_uint t) 4" by (simp only: assms(5))
  also have "\<dots> = t" using to_bytes_to_uint [of t] assms(3) by simp
  finally show ?thesis .
next
  case False
  have "\<exists>j<8. bit (t ! 3) j"
  proof (rule ccontr)
    assume none: "\<not> (\<exists>j<8. bit (t ! 3) j)"
    have "t ! 3 = 0"
    proof (rule bit_word_eqI)
      fix n assume "n < LENGTH(8)"
      with none show "bit (t ! 3) n = bit 0 n" by simp
    qed
    with assms(4) show False by simp
  qed
  then obtain j where j: "j < 8" "bit (t ! 3) j" by blast
  from j(1) have "(24 + j) div 8 = 3" "(24 + j) mod 8 = j" by presburger+
  with j assms(3) have "bit (to_uint t) (24 + j)" by (simp add: bit_to_uint)
  moreover have "\<not> bit (to_uint bs) (24 + j)"
    using False assms(2) \<open>(24 + j) div 8 = 3\<close> by (simp add: bit_to_uint)
  ultimately show ?thesis using assms(5) by simp
qed

lemma signature_values:
  "to_uint (text_bytes ''save'') = 0x65766173" "to_uint (text_bytes ''load'') = 0x64616F6C"
  by (simp_all add: to_uint_def text_bytes_def upt_rec of_char_def)

section \<open>What the device answers to each request of the client\<close>

lemma command_specifier_requests [simp]:
  "command_specifier 0x40 = 0x40" "command_specifier 0x80 = 0x80" "command_specifier 0x60 = 0x60"
  "command_specifier 0x41 = 0x40"
  by (simp_all add: command_specifier_def)

lemma handle_upload_request:
  assumes "dict_read d i s = Inl c"
  shows "handle_sdo (make_sdo_upload_frame n i s) d = ([dev_abort i s c d], d)"
  using assms
  by (auto simp: handle_sdo_def frame_simps dict_read_def handle_upload_def Let_def
    split: if_splits option.splits)

lemma handle_upload_request_bytes:
  assumes "dict_read d i s = Inr bs"
  shows "handle_sdo (make_sdo_upload_frame n i s) d =
    (if length bs \<le> 4 then
       ([dev_reply (put_bytes 4 bs (put_byte 0 (expedited_upload_command (length bs))
          (put_index i s (dev_response d)))) d], d)
     else
       let d' = d\<lparr>dev_segmented := \<lparr>seg_active = True, seg_bytes = bs, seg_offset = 0, seg_toggle = False\<rparr>\<rparr>
       in ([dev_reply (put_bytes 4 (le32 (of_nat (length bs)))
             (put_byte 0 0x41 (put_index i s (dev_response d)))) d'], d'))"
proof -
  let ?f = "make_sdo_upload_frame n i s"
  from assms obtain e where e: "od_get (dev_od d) i \<noteq> None" "dev_values d (i, s) = Some e"
    "is_readable (entry_access e)" "bs = entry_bytes e"
    by (auto simp: dict_read_def split: if_splits option.splits)
  have "handle_sdo ?f d = handle_upload i s e d"
    unfolding handle_sdo_def Let_def upload_request_decode using e(1,2) by auto
  with e(3,4) show ?thesis by (simp add: handle_upload_def Let_def)
qed

lemma handle_segment_request:
  assumes "dev_segmented d = \<lparr>seg_active = True, seg_bytes = bs, seg_offset = off, seg_toggle = t\<rparr>"
    and "k = min (length bs - off) 7" "l = (k = length bs - off)"
    and "d' = d\<lparr>dev_segmented := if l then no_segmented
      else \<lparr>seg_active = True, seg_bytes = bs, seg_offset = off + k, seg_toggle = \<not> t\<rparr>\<rparr>"
  shows "handle_sdo (make_segment_request n t) d =
    ([dev_reply (put_bytes 1 (take k (drop off bs)) (put_byte 0 (segment_command t k l) (dev_response d))) d'], d')"
proof -
  let ?f = "make_segment_request n t"
  have "handle_sdo ?f d = handle_segment (byte_at ?f 0) d"
    by (simp add: handle_sdo_def segment_request_decode)
  also have "\<dots> = ([dev_reply (put_bytes 1 (take k (drop off bs)) (put_byte 0 (segment_command t k l) (dev_response d))) d'], d')"
    unfolding handle_segment_def assms(1) Let_def segmented.simps segment_request_decode(4)
    using assms(2-4) by simp
  finally show ?thesis .
qed

lemma handle_download_request:
  assumes "bs \<noteq> []" "length bs \<le> 4"
  shows "handle_sdo (make_sdo_download_frame n i s bs) d =
    (case dict_write d i s bs of
       Inl c \<Rightarrow> ([dev_abort i s c d], d)
     | Inr d' \<Rightarrow> ([dev_reply (put_index i s (put_byte 0 kScsDownload (dev_response d'))) d'], d'))"
proof -
  let ?f = "make_sdo_download_frame n i s bs" and ?c = "expedited_download_command (length bs)"
  note c = expedited_download_command_decode [OF length_1_4 [OF assms]]
  note req = download_request_decode [OF assms(2), of n i s]
  have data: "take (download_size (byte_at ?f 0)) (drop 4 (frame_data ?f)) = bs"
    using req(3,6) c(3) by simp
  have sig: "to_uint bs = to_uint t \<longleftrightarrow> bs = t" if "length t = 4" "t ! 3 \<noteq> 0" for t
    using to_uint_signature [OF assms that] by auto
  have save: "to_uint bs = 0x65766173 \<longleftrightarrow> bs = text_bytes ''save''"
    using sig [of "text_bytes ''save''"] unfolding signature_values by (simp add: text_bytes_def of_char_def)
  have load: "to_uint bs = 0x64616F6C \<longleftrightarrow> bs = text_bytes ''load''"
    using sig [of "text_bytes ''load''"] unfolding signature_values by (simp add: text_bytes_def of_char_def)
  have "handle_download ?f i s e d =
      (case write_refusal e bs of
         Some code \<Rightarrow> ([dev_abort i s code d], d)
       | None \<Rightarrow>
           let d1 = d\<lparr>dev_values := (dev_values d)((i, s) \<mapsto> e\<lparr>entry_bytes := bs\<rparr>)\<rparr>;
               d2 = (if i = 0x1010 \<and> bs = text_bytes ''save'' then store_parameters_all d1
                     else if i = 0x1011 \<and> bs = text_bytes ''load'' then restore_parameters_all d1
                     else d1)
           in ([dev_reply (put_index i s (put_byte 0 kScsDownload (dev_response d2))) d2], d2))" for e
    unfolding handle_download_def Let_def data
    unfolding req(3) download_check_refusal [OF c(3,2)] save load by (rule refl)
  then show ?thesis
    using download_request_decode [OF assms(2), of n i s] c(1)
    by (auto simp: handle_sdo_def object_write_def Let_def split: option.split)
qed

section \<open>The client over a link\<close>

locale sdo_link =
  fixes xfer :: "can_frame \<Rightarrow> 's \<Rightarrow> can_frame option \<times> 's"
    and srv :: "'s \<Rightarrow> stub_device"
    and ready :: "'s \<Rightarrow> bool"
  assumes xfer_answer:
    "ready st \<Longrightarrow> frame_id req = kRequestCobIdBase + ucast (nodeId (srv st)) \<Longrightarrow> frame_len req = 8 \<Longrightarrow>
     handle_sdo req (srv st) = ([j], d') \<Longrightarrow>
     \<exists>st'. xfer req st = (Some (inj_frame j), st') \<and> srv st' = d' \<and> ready st'"
begin

lemma exchange_answer:
  assumes "ready st" "frame_id req = kRequestCobIdBase + ucast (nodeId (srv st))" "frame_len req = 8"
    "handle_sdo req (srv st) = ([j], d')"
  shows "\<exists>st'. sdo_exchange xfer req i s chk st = (sdo_check (Some (inj_frame j)) i s chk, st') \<and>
    srv st' = d' \<and> ready st'"
  using xfer_answer [OF assms] by (auto simp: sdo_exchange_def)

lemma check_abort: "sdo_check (Some (inj_frame (dev_abort i s c d))) i' s' chk = Inl (SdoAbort (abort_code c))"
  by (simp add: sdo_check_def dev_abort_def dev_reply_def frame_simps get_u32_le32)

lemma upload_refused:
  assumes "ready st" "dict_read (srv st) i s = Inl c"
  shows "\<exists>st'. sdo_upload xfer (nodeId (srv st)) i s st = (Inl (SdoAbort (abort_code c)), st') \<and>
    srv st' = srv st \<and> ready st'"
  using exchange_answer [OF assms(1) _ _ handle_upload_request [OF assms(2), of "nodeId (srv st)"], where i = i and s = s and chk = True]
  by (auto simp: sdo_upload_def frame_simps check_abort)

lemma upload_expedited:
  assumes "ready st" "dict_read (srv st) i s = Inr bs" "bs \<noteq> []" "length bs \<le> 4"
  shows "\<exists>st'. sdo_upload xfer (nodeId (srv st)) i s st =
      (Inr \<lparr>sdo_bytes = bs, sdo_expedited = True\<rparr>, st') \<and> srv st' = srv st \<and> ready st'"
proof -
  let ?n = "nodeId (srv st)" and ?c = "expedited_upload_command (length bs)"
  let ?g = "put_byte 0 ?c (put_index i s (dev_response (srv st)))"
  note dec = expedited_upload_command_decode [OF length_1_4 [OF assms(3,4)]]
  have h: "handle_sdo (make_sdo_upload_frame ?n i s) (srv st) = ([dev_reply (put_bytes 4 bs ?g) (srv st)], srv st)"
    using handle_upload_request_bytes [OF assms(2), of ?n] assms(4) by simp
  from exchange_answer [OF assms(1) _ _ h, where i = i and s = s and chk = True] obtain st' where st':
    "sdo_exchange xfer (make_sdo_upload_frame ?n i s) i s True st =
       (sdo_check (Some (put_bytes 4 bs ?g)) i s True, st')" "srv st' = srv st" "ready st'"
    by (auto simp: frame_simps dev_reply_def)
  have "sdo_check (Some (put_bytes 4 bs ?g)) i s True = Inr (put_bytes 4 bs ?g)"
    using dec(1) by (simp add: sdo_check_def frame_simps)
  moreover have "byte_at (put_bytes 4 bs ?g) 0 = ?c" by (simp add: frame_simps)
  moreover have "take (length bs) (drop 4 (frame_data (put_bytes 4 bs ?g))) = bs"
    using assms(4) by (simp add: take_drop_put_bytes frame_simps)
  ultimately show ?thesis using st' dec by (simp add: sdo_upload_def Let_def)
qed

text \<open>The segment loop: it collects what the device has left, in the order of the object.\<close>

lemma upload_segments_rest:
  assumes "ready st"
    "dev_segmented (srv st) = \<lparr>seg_active = True, seg_bytes = bs, seg_offset = off, seg_toggle = t\<rparr>"
    "length bs - off \<le> 7 * n" "0 < n"
  shows "\<exists>st'. upload_segments xfer (nodeId (srv st)) i s n t acc st =
      (Inr \<lparr>sdo_bytes = acc @ drop off bs, sdo_expedited = False\<rparr>, st') \<and>
    srv st' = (srv st)\<lparr>dev_segmented := no_segmented\<rparr> \<and> ready st'"
  using assms
proof (induction n arbitrary: st off t acc)
  case 0
  then show ?case by simp
next
  case (Suc n)
  let ?d = "srv st"
  let ?k = "min (length bs - off) 7"
  let ?l = "?k = length bs - off"
  let ?d' = "?d\<lparr>dev_segmented := if ?l then no_segmented
      else \<lparr>seg_active = True, seg_bytes = bs, seg_offset = off + ?k, seg_toggle = \<not> t\<rparr>\<rparr>"
  let ?g = "put_byte 0 (segment_command t ?k ?l) (dev_response ?d)"
  let ?chunk = "take ?k (drop off bs)"
  let ?f = "put_bytes 1 ?chunk ?g"
  have len: "length ?chunk = ?k" by simp
  note dec = segment_command_decode [of ?k t ?l, simplified]
  from exchange_answer [OF Suc.prems(1) _ _ handle_segment_request [OF Suc.prems(2) refl refl refl, where n = "nodeId ?d"],
      where i = i and s = s and chk = False]
  obtain st1 where st1:
    "sdo_exchange xfer (make_segment_request (nodeId ?d) t) i s False st = (sdo_check (Some ?f) i s False, st1)"
    "srv st1 = ?d'" "ready st1"
    by (auto simp: frame_simps dev_reply_def)
  have chk: "sdo_check (Some ?f) i s False = Inr ?f"
    using dec(1) by (simp add: sdo_check_def frame_simps)
  have b0: "byte_at ?f 0 = segment_command t ?k ?l" by (simp add: frame_simps)
  have data: "take ?k (drop 1 (frame_data ?f)) = ?chunk"
    using take_drop_put_bytes [of ?g 1 ?chunk] len by (simp add: frame_simps)
  note step = upload_segments.simps(2) [of xfer "nodeId ?d" i s n t acc st]
  show ?case
  proof (cases ?l)
    case True
    then have "?chunk = drop off bs" by simp
    with st1 chk b0 data dec True show ?thesis by (simp add: Let_def)
  next
    case False
    then have k7: "?k = 7" by simp
    with Suc.prems(3) False have n: "length bs - (off + ?k) \<le> 7 * n" "0 < n" by auto
    have seg1: "dev_segmented (srv st1) = \<lparr>seg_active = True, seg_bytes = bs, seg_offset = off + ?k, seg_toggle = \<not> t\<rparr>"
      using st1(2) False by simp
    have eq: "upload_segments xfer (nodeId ?d) i s (Suc n) t acc st =
        upload_segments xfer (nodeId (srv st1)) i s n (\<not> t) (acc @ ?chunk) st1"
      using st1 chk b0 data segment_command_decode [of 7 t False, simplified] k7 False by (simp add: Let_def)
    from Suc.IH [OF st1(3) seg1 n] obtain st' where st':
      "upload_segments xfer (nodeId (srv st1)) i s n (\<not> t) (acc @ ?chunk) st1 =
        (Inr \<lparr>sdo_bytes = (acc @ ?chunk) @ drop (off + ?k) bs, sdo_expedited = False\<rparr>, st')"
      "srv st' = (srv st1)\<lparr>dev_segmented := no_segmented\<rparr>" "ready st'" by blast
    have "?chunk @ drop (off + ?k) bs = drop off bs"
      by (metis add.commute append_take_drop_id drop_drop)
    with eq st' st1(2) show ?thesis by simp
  qed
qed

text \<open>An object with more than the client's segments hold: the client gives up.\<close>

lemma upload_segments_exhausted:
  assumes "ready st"
    "dev_segmented (srv st) = \<lparr>seg_active = True, seg_bytes = bs, seg_offset = off, seg_toggle = t\<rparr>"
    "7 * n < length bs - off"
  shows "\<exists>st'. upload_segments xfer (nodeId (srv st)) i s n t acc st = (Inl SdoBadResponse, st') \<and>
    dev_values (srv st') = dev_values (srv st) \<and> ready st'"
  using assms
proof (induction n arbitrary: st off t acc)
  case 0
  then show ?case by auto
next
  case (Suc n)
  let ?d = "srv st"
  let ?d' = "?d\<lparr>dev_segmented := \<lparr>seg_active = True, seg_bytes = bs, seg_offset = off + 7, seg_toggle = \<not> t\<rparr>\<rparr>"
  let ?f = "put_bytes 1 (take 7 (drop off bs)) (put_byte 0 (segment_command t 7 False) (dev_response ?d))"
  have k: "min (length bs - off) 7 = 7" "\<not> 7 = length bs - off" using Suc.prems(3) by auto
  have h: "handle_sdo (make_segment_request (nodeId ?d) t) ?d = ([dev_reply ?f ?d'], ?d')"
    using handle_segment_request [OF Suc.prems(2) refl refl refl, where n = "nodeId ?d"] k by simp
  from exchange_answer [OF Suc.prems(1) _ _ h, where i = i and s = s and chk = False] obtain st1 where st1:
    "sdo_exchange xfer (make_segment_request (nodeId ?d) t) i s False st = (sdo_check (Some ?f) i s False, st1)"
    "srv st1 = ?d'" "ready st1"
    by (auto simp: frame_simps dev_reply_def)
  note dec = segment_command_decode [of 7 t False, simplified]
  have chk: "sdo_check (Some ?f) i s False = Inr ?f" using dec(1) by (simp add: sdo_check_def frame_simps)
  have b0: "byte_at ?f 0 = segment_command t 7 False" by (simp add: frame_simps)
  have eq: "\<exists>acc'. upload_segments xfer (nodeId ?d) i s (Suc n) t acc st =
      upload_segments xfer (nodeId (srv st1)) i s n (\<not> t) acc' st1"
    using st1 chk b0 dec by (simp add: Let_def) (rule exI, rule refl)
  have "7 * n < length bs - (off + 7)" using Suc.prems(3) by auto
  from eq Suc.IH [OF st1(3) _ this] st1(2) show ?case by fastforce
qed

text \<open>
  An object of no bytes: the size field of the expedited answer overflows, and the client takes the
  four zero bytes of the payload for the value.
\<close>

lemma upload_empty:
  assumes "ready st" "dict_read (srv st) i s = Inr []"
  shows "\<exists>st'. sdo_upload xfer (nodeId (srv st)) i s st =
      (Inr \<lparr>sdo_bytes = [0, 0, 0, 0], sdo_expedited = True\<rparr>, st') \<and> srv st' = srv st \<and> ready st'"
proof -
  let ?d = "srv st"
  let ?f = "put_bytes 4 [] (put_byte 0 (expedited_upload_command 0) (put_index i s (dev_response ?d)))"
  have h: "handle_sdo (make_sdo_upload_frame (nodeId ?d) i s) ?d = ([dev_reply ?f ?d], ?d)"
    using handle_upload_request_bytes [OF assms(2), of "nodeId ?d"] by simp
  from exchange_answer [OF assms(1) _ _ h, where i = i and s = s and chk = True] obtain st' where
    "sdo_exchange xfer (make_sdo_upload_frame (nodeId ?d) i s) i s True st = (sdo_check (Some ?f) i s True, st')"
    "srv st' = ?d" "ready st'"
    by (auto simp: frame_simps dev_reply_def)
  moreover have "expedited_upload_command 0 = 0x53" by (simp add: expedited_upload_command_def)
  moreover have "take 4 (drop 4 (frame_data ?f)) = [0, 0, 0, 0]"
    by (rule nth_equalityI) (simp_all add: put_bytes_def put_index_def put_byte_def dev_response_def
      empty_frame_def nth_Cons' numeral_eq_Suc)
  ultimately show ?thesis
    by (simp add: sdo_upload_def sdo_check_def frame_simps command_specifier_def expedited_unused_def Let_def)
qed

lemma upload_announced:
  assumes "ready st" "dict_read (srv st) i s = Inr bs" "4 < length bs"
  shows "\<exists>st1. sdo_upload xfer (nodeId (srv st)) i s st =
      upload_segments xfer (nodeId (srv st1)) i s kMaxSegments False [] st1 \<and>
    srv st1 = (srv st)\<lparr>dev_segmented := \<lparr>seg_active = True, seg_bytes = bs, seg_offset = 0, seg_toggle = False\<rparr>\<rparr> \<and>
    ready st1"
proof -
  let ?d = "srv st" and ?n = "nodeId (srv st)"
  let ?d1 = "?d\<lparr>dev_segmented := \<lparr>seg_active = True, seg_bytes = bs, seg_offset = 0, seg_toggle = False\<rparr>\<rparr>"
  let ?f = "put_bytes 4 (le32 (of_nat (length bs))) (put_byte 0 0x41 (put_index i s (dev_response ?d)))"
  have h: "handle_sdo (make_sdo_upload_frame ?n i s) ?d = ([dev_reply ?f ?d1], ?d1)"
    using handle_upload_request_bytes [OF assms(2), of ?n] assms(3) by (simp add: Let_def)
  from exchange_answer [OF assms(1) _ _ h, where i = i and s = s and chk = True] obtain st1 where st1:
    "sdo_exchange xfer (make_sdo_upload_frame ?n i s) i s True st = (sdo_check (Some ?f) i s True, st1)"
    "srv st1 = ?d1" "ready st1"
    by (auto simp: frame_simps dev_reply_def)
  have chk: "sdo_check (Some ?f) i s True = Inr ?f" by (simp add: sdo_check_def frame_simps)
  have "sdo_upload xfer ?n i s st = upload_segments xfer (nodeId (srv st1)) i s kMaxSegments False [] st1"
    using st1 chk by (simp add: sdo_upload_def frame_simps)
  with st1(2,3) show ?thesis by blast
qed

lemma upload_long:
  assumes "ready st" "dict_read (srv st) i s = Inr bs" "4 < length bs" "length bs \<le> 7 * kMaxSegments"
  shows "\<exists>st'. sdo_upload xfer (nodeId (srv st)) i s st =
      (Inr \<lparr>sdo_bytes = bs, sdo_expedited = False\<rparr>, st') \<and>
    srv st' = (srv st)\<lparr>dev_segmented := no_segmented\<rparr> \<and> ready st'"
proof -
  from upload_announced [OF assms(1-3)] obtain st1 where st1:
    "sdo_upload xfer (nodeId (srv st)) i s st = upload_segments xfer (nodeId (srv st1)) i s kMaxSegments False [] st1"
    "srv st1 = (srv st)\<lparr>dev_segmented := \<lparr>seg_active = True, seg_bytes = bs, seg_offset = 0, seg_toggle = False\<rparr>\<rparr>"
    "ready st1" by blast
  moreover have "\<exists>st'. upload_segments xfer (nodeId (srv st1)) i s kMaxSegments False [] st1 =
      (Inr \<lparr>sdo_bytes = [] @ drop 0 bs, sdo_expedited = False\<rparr>, st') \<and>
      srv st' = (srv st1)\<lparr>dev_segmented := no_segmented\<rparr> \<and> ready st'"
    by (rule upload_segments_rest) (use st1 assms(4) in \<open>simp_all add: kMaxSegments_def\<close>)
  ultimately show ?thesis using st1(2) by auto
qed

lemma upload_too_long:
  assumes "ready st" "dict_read (srv st) i s = Inr bs" "7 * kMaxSegments < length bs"
  shows "\<exists>st'. sdo_upload xfer (nodeId (srv st)) i s st = (Inl SdoBadResponse, st') \<and>
    dev_values (srv st') = dev_values (srv st) \<and> ready st'"
proof -
  have "4 < length bs" using assms(3) by (simp add: kMaxSegments_def)
  from upload_announced [OF assms(1,2) this] obtain st1 where st1:
    "sdo_upload xfer (nodeId (srv st)) i s st = upload_segments xfer (nodeId (srv st1)) i s kMaxSegments False [] st1"
    "srv st1 = (srv st)\<lparr>dev_segmented := \<lparr>seg_active = True, seg_bytes = bs, seg_offset = 0, seg_toggle = False\<rparr>\<rparr>"
    "ready st1" by blast
  from upload_segments_exhausted [OF st1(3), of bs 0 False kMaxSegments i s "[]"] st1(1,2) assms(3)
  show ?thesis by auto
qed

lemma download_result:
  assumes "ready st" "bs \<noteq> []" "length bs \<le> 4"
  shows "\<exists>st'. ready st' \<and>
    (case dict_write (srv st) i s bs of
       Inl c \<Rightarrow> sdo_download xfer (nodeId (srv st)) i s bs st = (Inl (SdoAbort (abort_code c)), st') \<and> srv st' = srv st
     | Inr d' \<Rightarrow> sdo_download xfer (nodeId (srv st)) i s bs st = (Inr (), st') \<and> srv st' = d')"
proof (cases "dict_write (srv st) i s bs")
  case (Inl c)
  with handle_download_request [OF assms(2,3), of "nodeId (srv st)" i s "srv st"]
  have h: "handle_sdo (make_sdo_download_frame (nodeId (srv st)) i s bs) (srv st) = ([dev_abort i s c (srv st)], srv st)"
    by simp
  from exchange_answer [OF assms(1) _ _ h, where i = i and s = s and chk = True] Inl assms(2,3) show ?thesis
    by (auto simp: sdo_download_def frame_simps check_abort)
next
  case (Inr d')
  with handle_download_request [OF assms(2,3), of "nodeId (srv st)" i s "srv st"]
  have h: "handle_sdo (make_sdo_download_frame (nodeId (srv st)) i s bs) (srv st) =
      ([dev_reply (put_index i s (put_byte 0 kScsDownload (dev_response d'))) d'], d')"
    by simp
  from exchange_answer [OF assms(1) _ _ h, where i = i and s = s and chk = True] Inr assms(2,3) show ?thesis
    by (auto simp: sdo_download_def frame_simps sdo_check_def dev_reply_def)
qed

end

section \<open>The virtual bus is such a link\<close>

definition bus_device :: "bus_world \<Rightarrow> stub_device" where
  "bus_device w = hd (bw_devices w)"

text \<open>One device, present and at the bus rate, answering the client in time; nothing in flight.\<close>

definition bus_ready :: "bus_world \<Rightarrow> bool" where
  "bus_ready w \<longleftrightarrow> bw_queue w = [] \<and> length (bw_devices w) = 1 \<and> present (bus_device w) \<and>
     bw_kbps w = lss_bitrate_to_kbps (dev_bitrate (bus_device w)) \<and>
     sc_nodeId (bw_sdo w) = nodeId (bus_device w) \<and> 0 < sc_timeout (bw_sdo w) \<and>
     responseDelay (bus_device w) \<le> sc_timeout (bw_sdo w)"

lemma cobid_uint:
  assumes "b \<in> {0x580, 0x600, 0x700 :: u32}"
  shows "uint (b + ucast (n :: byte)) = uint b + uint n"
proof -
  have n: "uint (ucast n :: u32) = uint n" "uint n < 256" "0 \<le> uint n"
    using uint_lt2p [of n] by (simp_all add: unsigned_ucast_eq take_bit_int_eq_self)
  from assms n show ?thesis by (auto simp: uint_word_ariths)
qed

lemma cobid_mask:
  assumes "b \<in> {0x580, 0x600, 0x700 :: u32}"
  shows "(b + ucast (n :: byte)) AND 0x7FF = b + ucast n"
proof -
  have "uint (b + ucast n) < 2 ^ 11"
    using cobid_uint [OF assms, of n] uint_lt2p [of n] assms by auto
  then have "(b + ucast n) AND mask 11 = b + ucast n"
    by (intro less_mask_eq) (simp add: word_less_def)
  then show ?thesis by (simp add: mask_eq_decr_exp)
qed

lemma sdo_cobid_distinct:
  "0x600 + ucast (n :: byte) \<noteq> (0 :: u32)" "0x600 + ucast (n :: byte) \<noteq> (0x7E5 :: u32)"
proof -
  have u: "uint (0x600 + ucast n :: u32) = 0x600 + uint n"
    using cobid_uint [of "0x600" n] by simp
  have n: "uint n < 256" "0 \<le> uint n" using uint_lt2p [of n] by simp_all
  have "0x600 \<le> uint (0x600 + ucast n :: u32)" "uint (0x600 + ucast n :: u32) < 0x7E5"
    unfolding u using n by linarith+
  then show "0x600 + ucast (n :: byte) \<noteq> (0 :: u32)" "0x600 + ucast (n :: byte) \<noteq> (0x7E5 :: u32)"
    by (metis not_numeral_le_zero uint_0_eq, auto)
qed

lemma dev_handle_sdo:
  assumes "present d" "frame_id f = kRequestCobIdBase + ucast (nodeId d)"
  shows "dev_handle (lss_bitrate_to_kbps (dev_bitrate d)) f d = handle_sdo f d"
  using assms cobid_mask [of "0x600" "nodeId d"] sdo_cobid_distinct [of "nodeId d"]
  by (simp add: dev_handle_def Let_def)

lemma bus_send_single:
  assumes "bw_devices w = [d]" "dev_handle (bw_kbps w) f d = ([j], d')"
  shows "bus_send f w = w\<lparr>bw_sent := bw_sent w @ [f], bw_devices := [d'],
    bw_queue := bw_queue w @ [\<lparr>sch_at = bw_now w + inj_after j, sch_frame = inj_frame j, sch_kbps = inj_kbps j\<rparr>]\<rparr>"
  using assms by (simp add: bus_send_def vb_inject_def)

lemma sdo_transfer_exact:
  assumes "bus_ready w" "frame_id req = kRequestCobIdBase + ucast (nodeId (bus_device w))" "frame_len req = 8"
    "handle_sdo req (bus_device w) = ([j], d')"
  shows "\<exists>w'. sdo_transfer req w = (Some (inj_frame j), w') \<and> bus_device w' = d' \<and> bus_ready w' \<and>
    bw_lss w' = lss_hear (inj_frame j) (bw_lss w) \<and> bw_nmt w' = nmt_hear (inj_frame j) (bw_nmt w) \<and>
    sc_timeout (bw_sdo w') = sc_timeout (bw_sdo w) \<and>
    frame_id (inj_frame j) = kResponseCobIdBase + ucast (nodeId d') \<and> same_address (bus_device w) d'"
proof -
  let ?d = "bus_device w" and ?T = "sc_timeout (bw_sdo w)"
  from handle_sdo_answer [OF assms(4,3)] obtain f where f: "j = dev_reply f d'" "frame_len f = 8"
    "frame_id f = kResponseCobIdBase + ucast (nodeId d')" and same: "same_address ?d d'"
    by (auto simp: sdo_answer_def)
  from assms(1) have devs: "bw_devices w = [?d]" by (cases "bw_devices w") (auto simp: bus_ready_def bus_device_def)
  let ?w0 = "w\<lparr>bw_sdo := (bw_sdo w)\<lparr>sc_pending := None\<rparr>\<rparr>"
  let ?s = "\<lparr>sch_at = bw_now w + responseDelay d', sch_frame = f, sch_kbps = lss_bitrate_to_kbps (dev_bitrate d')\<rparr>"
  let ?w1 = "?w0\<lparr>bw_sent := bw_sent w @ [req], bw_devices := [d'], bw_queue := [?s]\<rparr>"
  have h: "dev_handle (bw_kbps w) req ?d = ([j], d')"
    using dev_handle_sdo [OF _ assms(2)] assms(1,4) by (simp add: bus_ready_def)
  have send: "bus_send req ?w0 = ?w1"
    using bus_send_single [of ?w0 ?d req j d'] devs h assms(1) f(1)
    by (simp add: bus_ready_def dev_reply_def)
  let ?p = "\<lambda>w. sc_pending (bw_sdo w) \<noteq> None"
  have hear: "sdo_hear f ((bw_sdo w)\<lparr>sc_pending := None\<rparr>) = (bw_sdo w)\<lparr>sc_pending := Some f\<rparr>"
    using f(3) assms(1) same cobid_mask [of "0x580" "nodeId d'"]
    by (simp add: sdo_hear_def bus_ready_def same_address_def)
  have "\<exists>t. bw_now ?w1 \<le> t \<and> t \<le> bw_now w + ?T \<and>
    wait_loop ?p (bw_now w + ?T) ?w1 = (True, bus_deliver (sch_frame ?s) (?w1\<lparr>bw_now := t, bw_queue := []\<rparr>))"
    by (rule wait_loop_single)
      (use assms(1) same hear in \<open>simp_all add: bus_ready_def same_address_def bus_deliver_def\<close>)
  then obtain t where t: "wait_loop ?p (bw_now w + ?T) ?w1 = (True, bus_deliver f (?w1\<lparr>bw_now := t, bw_queue := []\<rparr>))"
    by auto
  let ?w2 = "bus_deliver f (?w1\<lparr>bw_now := t, bw_queue := []\<rparr>)"
  have pend: "bw_sdo ?w2 = (bw_sdo w)\<lparr>sc_pending := Some f\<rparr>"
    using hear by (simp add: bus_deliver_def)
  have res: "sdo_transfer req w = (Some f, ?w2\<lparr>bw_sdo := (bw_sdo w)\<lparr>sc_pending := None\<rparr>\<rparr>)"
    using send t pend by (simp add: sdo_transfer_def wait_until_def)
  have ready: "bus_ready (?w2\<lparr>bw_sdo := (bw_sdo w)\<lparr>sc_pending := None\<rparr>\<rparr>)"
    using assms(1) same by (simp add: bus_ready_def bus_device_def same_address_def)
  from res ready f(1,3) same show ?thesis by (simp add: bus_device_def dev_reply_def bus_deliver_def)
qed

lemma sdo_transfer_answer:
  assumes "bus_ready w" "frame_id req = kRequestCobIdBase + ucast (nodeId (bus_device w))" "frame_len req = 8"
    "handle_sdo req (bus_device w) = ([j], d')"
  shows "\<exists>w'. sdo_transfer req w = (Some (inj_frame j), w') \<and> bus_device w' = d' \<and> bus_ready w'"
  using sdo_transfer_exact [OF assms] by blast
interpretation vb_link: sdo_link sdo_transfer bus_device bus_ready
  by unfold_locales (rule sdo_transfer_answer)

section \<open>Uploads and downloads over the bus\<close>

text \<open>
  C1.  What an SDO upload over the bus returns, for every object of the device's dictionary: the
  abort code for a missing object, a missing sub-index or a write-only object; the object's bytes,
  byte for byte, expedited up to four bytes and segmented up to 7168; a bad response for a longer
  object; and for an object of no bytes four zero bytes, because the size field of the device's
  answer overflows.  The device stays reachable and its dictionary is unchanged.
\<close>

theorem sdo_upload_serves:
  assumes "bus_ready w"
  shows "\<exists>w'. sdo_upload sdo_transfer (nodeId (bus_device w)) i s w =
      (case dict_read (bus_device w) i s of
         Inl c \<Rightarrow> Inl (SdoAbort (abort_code c))
       | Inr bs \<Rightarrow>
           if bs = [] then Inr \<lparr>sdo_bytes = [0, 0, 0, 0], sdo_expedited = True\<rparr>
           else if length bs \<le> 7 * kMaxSegments then Inr \<lparr>sdo_bytes = bs, sdo_expedited = (length bs \<le> 4)\<rparr>
           else Inl SdoBadResponse, w') \<and>
    bus_ready w' \<and> dev_values (bus_device w') = dev_values (bus_device w)"
proof (cases "dict_read (bus_device w) i s")
  case (Inl c)
  with vb_link.upload_refused [OF assms, of i s c] show ?thesis by auto
next
  case (Inr bs)
  consider "bs = []" | "bs \<noteq> []" "length bs \<le> 4" | "4 < length bs" "length bs \<le> 7 * kMaxSegments"
    | "7 * kMaxSegments < length bs" by linarith
  then show ?thesis
  proof cases
    case 1
    with vb_link.upload_empty [OF assms, of i s] Inr show ?thesis by auto
  next
    case 2
    with vb_link.upload_expedited [OF assms Inr] Inr show ?thesis by (auto simp: kMaxSegments_def)
  next
    case 3
    with vb_link.upload_long [OF assms Inr] Inr show ?thesis by auto
  next
    case 4
    with vb_link.upload_too_long [OF assms Inr] Inr show ?thesis by auto
  qed
qed



lemma dict_write_values:
  assumes "dict_write d i s bs = Inr d'"
  shows "\<exists>e. dev_values d (i, s) = Some e \<and> dev_values d' = (dev_values d)((i, s) \<mapsto> e\<lparr>entry_bytes := bs\<rparr>) \<and>
    dev_od d' = dev_od d \<and> od_get (dev_od d) i \<noteq> None \<and> is_writable (entry_access e)"
  using assms
  by (auto simp: object_write_def Let_def store_parameters_all_def restore_parameters_all_def object_refusal_def
    split: if_splits option.splits)

text \<open>
  C3.  Read after write: a download that the device confirmed is what the next upload of the same
  object returns, when the object is readable, and every other object keeps its value.
\<close>

theorem sdo_read_after_write:
  assumes "bus_ready w" "bs \<noteq> []" "length bs \<le> 4"
    and "sdo_download sdo_transfer (nodeId (bus_device w)) i s bs w = (Inr (), w1)"
    and "\<forall>e. dev_values (bus_device w) (i, s) = Some e \<longrightarrow> is_readable (entry_access e)"
  shows "\<exists>w2. sdo_upload sdo_transfer (nodeId (bus_device w1)) i s w1 =
      (Inr \<lparr>sdo_bytes = bs, sdo_expedited = True\<rparr>, w2) \<and>
    (\<forall>key. key \<noteq> (i, s) \<longrightarrow> dev_values (bus_device w1) key = dev_values (bus_device w) key)"
proof -
  from vb_link.download_result [OF assms(1-3), of i s] assms(4) obtain d' where
    d': "dict_write (bus_device w) i s bs = Inr d'" "bus_ready w1" "bus_device w1 = d'"
    by (cases "dict_write (bus_device w) i s bs") auto
  from dict_write_values [OF d'(1)] obtain e where e: "dev_values (bus_device w) (i, s) = Some e"
    "dev_values d' = (dev_values (bus_device w))((i, s) \<mapsto> e\<lparr>entry_bytes := bs\<rparr>)"
    "dev_od d' = dev_od (bus_device w)" "od_get (dev_od (bus_device w)) i \<noteq> None" by blast
  have "dict_read (bus_device w1) i s = Inr bs"
    using e assms(5) by (simp add: dict_read_def d'(3))
  from vb_link.upload_expedited [OF d'(2) this assms(2,3)] e(2) d'(3) show ?thesis by auto
qed

section \<open>A concrete device\<close>

definition example_object :: "u16 \<Rightarrow> sub_object \<Rightarrow> eds_object" where
  "example_object i x = \<lparr>obj_index = i, obj_parameterName = ''x'', obj_objectCode = OC_Var,
     declaredSubNumber = None, obj_objFlags = 0, subs = [0 \<mapsto> x]\<rparr>"

definition example_sub :: "data_type \<Rightarrow> access_type \<Rightarrow> eds_value \<Rightarrow> sub_object" where
  "example_sub t a v = \<lparr>subIndex = 0, parameterName = ''x'', sub_objectCode = OC_Var, dataType = t,
     lowLimit = Some (- 100), highLimit = Some 100, access = a, defaultValue = Some v,
     pdoMappable = True, sub_objFlags = 0\<rparr>"

text \<open>0x2000 is a byte with limits, 0x2001 a five-letter name, 0x2002 an empty name.\<close>

definition example_od :: object_dictionary where
  "example_od = \<lparr>lssSupported = True, supportedBitrates = [10 \<mapsto> False],
     objects = [0x2000 \<mapsto> example_object 0x2000 (example_sub Unsigned8 RW (VUnsigned 7)),
       0x2001 \<mapsto> example_object 0x2001 (example_sub VisibleString RO (VString ''hello'')),
       0x2002 \<mapsto> example_object 0x2002 (example_sub VisibleString RO (VString '''')),
       0x2003 \<mapsto> example_object 0x2003 (example_sub Integer8 RW (VUnsigned 0))]\<rparr>"

definition example_bus :: bus_world where
  "example_bus = \<lparr>bw_now = 3600000, bw_kbps = 250, bw_queue = [], bw_sent = [],
     bw_devices = [new_stub_device example_od 10 Rate250k],
     bw_sdo = \<lparr>sc_nodeId = 10, sc_timeout = 1000, sc_pending = None\<rparr>,
     bw_lss = \<lparr>singleNodeBus = True, lm_timeout = 1000, lm_pending = None\<rparr>,
     bw_nmt = \<lparr>nm_states = (\<lambda>_. None), nm_bootCounts = (\<lambda>_. 0), nm_stateCalls = [], nm_emergencyCalls = []\<rparr>\<rparr>"

lemma example_bus_ready: "bus_ready example_bus"
  by (simp add: bus_ready_def example_bus_def bus_device_def new_stub_device_def)

lemma example_bus_device: "bus_device example_bus = new_stub_device example_od 10 Rate250k"
  by (simp add: example_bus_def bus_device_def)

lemmas example_defs = dict_read_def od_get_def od_get_sub_def new_stub_device_def example_od_def
  example_object_def example_sub_def seed_from_eds_def seed_bytes_def text_bytes_def
  od_defaultValue_def width_for_def to_bytes_def upt_rec of_char_def

lemma example_reads:
  "dict_read (bus_device example_bus) 0x2001 0 = Inr [0x68, 0x65, 0x6C, 0x6C, 0x6F]"
  "dict_read (bus_device example_bus) 0x2002 0 = Inr []"
  by (simp_all add: example_bus_device example_defs)

theorem sdo_upload_serves_witness:
  "(\<exists>w'. sdo_upload sdo_transfer 10 0x2001 0 example_bus =
      (Inr \<lparr>sdo_bytes = [0x68, 0x65, 0x6C, 0x6C, 0x6F], sdo_expedited = False\<rparr>, w')) \<and>
   (\<exists>w'. sdo_upload sdo_transfer 10 0x2002 0 example_bus =
      (Inr \<lparr>sdo_bytes = [0, 0, 0, 0], sdo_expedited = True\<rparr>, w'))"
  using sdo_upload_serves [OF example_bus_ready, of "0x2001" 0] sdo_upload_serves [OF example_bus_ready, of "0x2002" 0]
  by (auto simp: example_reads kMaxSegments_def) (simp_all add: example_bus_device new_stub_device_def)

lemma example_write:
  "\<exists>d'. dict_write (bus_device example_bus) 0x2000 0 [42] = Inr d'"
  by (simp add: object_write_def object_refusal_def Let_def to_uint_def example_bus_device example_defs)


theorem sdo_read_after_write_witness:
  "\<exists>w1 w2. sdo_upload sdo_transfer (nodeId (bus_device w1)) 0x2000 0 w1 =
      (Inr \<lparr>sdo_bytes = [42], sdo_expedited = True\<rparr>, w2)"
proof -
  from example_write obtain d' where d': "dict_write (bus_device example_bus) 0x2000 0 [42] = Inr d'" by blast
  with vb_link.download_result [OF example_bus_ready, of "[42]" "0x2000" 0] obtain w1 where
    "sdo_download sdo_transfer (nodeId (bus_device example_bus)) 0x2000 0 [42] example_bus = (Inr (), w1)"
    by auto
  from sdo_read_after_write [OF example_bus_ready _ _ this] show ?thesis
    by (auto simp: example_bus_device example_defs)
qed

section \<open>Where the device disagrees with the declared type\<close>

text \<open>
  The limits of a signed object are compared with the value zero-extended, so a signed object
  whose declared range allows -5 refuses the write of -5 as too high.
\<close>

theorem signed_limit_refuses_negative:
  "\<exists>w'. sdo_download sdo_transfer 10 0x2003 0 [0xFB] example_bus = (Inl (SdoAbort 0x06090031), w')"
proof -
  have "dict_write (bus_device example_bus) 0x2003 0 [0xFB] = Inl ValueTooHigh"
    by (simp add: object_write_def object_refusal_def Let_def to_uint_def example_bus_device example_defs)
  with vb_link.download_result [OF example_bus_ready, of "[0xFB]" "0x2003" 0] show ?thesis
    by (auto simp: example_bus_device new_stub_device_def)
qed

end
