(* ===== verification/CanOpenMasters.thy ===== *)
theory CanOpenMasters
  imports SdoLink
begin

text \<open>
  libs/canopen/src/lss.cpp and nmt.cpp: the LSS master that readdresses a device and the NMT
  master that resets it, on the virtual bus; and what any SDO transfer can cost, whatever the
  devices on the bus do.
\<close>

section \<open>LSS\<close>

datatype lss_error = LssTimeout | LssRejected byte byte | LssBadResponse | LssRefused

definition lss_check :: "byte \<Rightarrow> can_frame option \<Rightarrow> lss_error + can_frame" where
  "lss_check cs response =
     (case response of
        None \<Rightarrow> Inl LssTimeout
      | Some f \<Rightarrow>
          if frame_len f \<noteq> 8 then Inl LssBadResponse
          else if byte_at f 0 \<noteq> cs then Inl LssBadResponse
          else if byte_at f 1 \<noteq> 0 then Inl (LssRejected (byte_at f 1) (byte_at f 2))
          else Inr f)"

definition lss_send_unconfirmed :: "byte \<Rightarrow> byte \<Rightarrow> byte \<Rightarrow> bus_world \<Rightarrow> (lss_error + unit) \<times> bus_world" where
  "lss_send_unconfirmed cs arg0 arg1 w = (Inr (), bus_send (make_lss_frame cs arg0 arg1) w)"

definition lss_send_confirmed :: "byte \<Rightarrow> byte \<Rightarrow> byte \<Rightarrow> bus_world \<Rightarrow> (lss_error + can_frame) \<times> bus_world" where
  "lss_send_confirmed cs arg0 arg1 w =
     (let w1 = bus_send (make_lss_frame cs arg0 arg1) (w\<lparr>bw_lss := (bw_lss w)\<lparr>lm_pending := None\<rparr>\<rparr>);
          (arrived, w2) = wait_until (lm_timeout (bw_lss w)) (\<lambda>w. lm_pending (bw_lss w) \<noteq> None) w1
      in if \<not> arrived then (Inl LssTimeout, w2)
         else (lss_check cs (lm_pending (bw_lss w2)), w2\<lparr>bw_lss := (bw_lss w2)\<lparr>lm_pending := None\<rparr>\<rparr>))"

definition lss_confirmed_unit :: "(lss_error + can_frame) \<times> bus_world \<Rightarrow> (lss_error + unit) \<times> bus_world" where
  "lss_confirmed_unit x = (case x of (Inl e, w) \<Rightarrow> (Inl e, w) | (Inr f, w) \<Rightarrow> (Inr (), w))"

definition enter_configuration :: "bus_world \<Rightarrow> (lss_error + unit) \<times> bus_world" where
  "enter_configuration w =
     (if \<not> singleNodeBus (bw_lss w) then (Inl LssRefused, w)
      else lss_send_unconfirmed kSwitchStateGlobal kModeConfiguration 0 w)"

definition exit_configuration :: "bus_world \<Rightarrow> (lss_error + unit) \<times> bus_world" where
  "exit_configuration w =
     (if \<not> singleNodeBus (bw_lss w) then (Inl LssRefused, w)
      else lss_send_unconfirmed kSwitchStateGlobal kModeWaiting 0 w)"

definition configure_node_id :: "byte \<Rightarrow> bus_world \<Rightarrow> (lss_error + unit) \<times> bus_world" where
  "configure_node_id n w =
     (if n < 1 \<or> 127 < n then (Inl LssRefused, w)
      else lss_confirmed_unit (lss_send_confirmed kConfigureNodeId n 0 w))"

definition configure_bitrate :: "lss_bitrate \<Rightarrow> bus_world \<Rightarrow> (lss_error + unit) \<times> bus_world" where
  "configure_bitrate r w =
     lss_confirmed_unit (lss_send_confirmed kConfigureBitTiming kStandardBitTimingTable (lss_code r) w)"

definition store_configuration :: "bus_world \<Rightarrow> (lss_error + unit) \<times> bus_world" where
  "store_configuration w = lss_confirmed_unit (lss_send_confirmed kStoreConfiguration 0 0 w)"

definition activate_bitrate :: "nat \<Rightarrow> bus_world \<Rightarrow> (lss_error + unit) \<times> bus_world" where
  "activate_bitrate delay w =
     (if \<not> singleNodeBus (bw_lss w) then (Inl LssRefused, w)
      else let ms = of_nat delay :: u16
           in (Inr (), bus_send (make_lss_frame kActivateBitTiming (lo8 ms) (hi8 ms)) w))"

definition inquire_node_id :: "bus_world \<Rightarrow> (lss_error + byte) \<times> bus_world" where
  "inquire_node_id w =
     (case lss_send_confirmed kInquireNodeId 0 0 w of
        (Inl e, w') \<Rightarrow> (Inl e, w')
      | (Inr f, w') \<Rightarrow> (Inr (byte_at f 1), w'))"

section \<open>NMT\<close>

definition nmt_send :: "nmt_command \<Rightarrow> byte \<Rightarrow> bus_world \<Rightarrow> bus_world" where
  "nmt_send c node w = bus_send (make_nmt_frame c node) w"

definition wait_for_bootup :: "byte \<Rightarrow> nat \<Rightarrow> bus_world \<Rightarrow> bool \<times> bus_world" where
  "wait_for_bootup node timeout w =
     (let before = nm_bootCounts (bw_nmt w) node
      in wait_until timeout (\<lambda>w. before < nm_bootCounts (bw_nmt w) node) w)"

definition reset_and_wait :: "byte \<Rightarrow> nat \<Rightarrow> bus_world \<Rightarrow> bool \<times> bus_world" where
  "reset_and_wait node timeout w =
     (let before = nm_bootCounts (bw_nmt w) node
      in wait_until timeout (\<lambda>w. before < nm_bootCounts (bw_nmt w) node) (nmt_send ResetNode node w))"

section \<open>What a transfer costs\<close>

lemma fold_inject_fields [simp]:
  "bw_sent (fold vb_inject js w) = bw_sent w" "bw_now (fold vb_inject js w) = bw_now w"
  "bw_kbps (fold vb_inject js w) = bw_kbps w" "bw_sdo (fold vb_inject js w) = bw_sdo w"
  "bw_lss (fold vb_inject js w) = bw_lss w" "bw_nmt (fold vb_inject js w) = bw_nmt w"
  by (induction js arbitrary: w) (simp_all add: vb_inject_def)

lemma send_to_devices_fields:
  "bw_sent (snd (send_to_devices f ds w)) = bw_sent w \<and> bw_now (snd (send_to_devices f ds w)) = bw_now w \<and>
   bw_sdo (snd (send_to_devices f ds w)) = bw_sdo w"
  by (induction ds arbitrary: w) (simp_all add: split_beta Let_def)

lemma bus_send_fields [simp]:
  "bw_sent (bus_send f w) = bw_sent w @ [f]" "bw_now (bus_send f w) = bw_now w" "bw_sdo (bus_send f w) = bw_sdo w"
  using send_to_devices_fields [of f "bw_devices w" "w\<lparr>bw_sent := bw_sent w @ [f]\<rparr>"]
  by (simp_all add: bus_send_def split_beta Let_def)

definition keeps_client :: "bus_world \<Rightarrow> bus_world \<Rightarrow> bool" where
  "keeps_client w w' \<longleftrightarrow> bw_sent w' = bw_sent w \<and> sc_timeout (bw_sdo w') = sc_timeout (bw_sdo w) \<and>
     sc_nodeId (bw_sdo w') = sc_nodeId (bw_sdo w)"

lemma bus_deliver_client: "keeps_client w (bus_deliver f w)"
  by (simp add: keeps_client_def bus_deliver_def sdo_hear_def)

lemma fold_deliver_client: "keeps_client w (fold bus_deliver fs w)"
proof (induction fs arbitrary: w)
  case (Cons f fs)
  from Cons [of "bus_deliver f w"] bus_deliver_client [of w f] show ?case by (simp add: keeps_client_def)
qed (simp add: keeps_client_def)

lemma keeps_client_trans: "keeps_client a b \<Longrightarrow> keeps_client b c \<Longrightarrow> keeps_client a c"
  by (simp add: keeps_client_def)

lemma bus_poll_client: "keeps_client w (bus_poll b w)"
  unfolding bus_poll_def Let_def
  by (rule keeps_client_trans [OF _ fold_deliver_client]) (simp add: keeps_client_def)

lemma wait_loop_client: "keeps_client w (snd (wait_loop p deadline w))"
proof (induction p deadline w rule: wait_loop.induct)
  case (1 p deadline w)
  let ?w = "bus_poll (min (deadline - bw_now w) 5) w"
  show ?case
  proof (cases "bw_now w < deadline \<and> \<not> p ?w")
    case True
    with "1.IH" have "keeps_client ?w (snd (wait_loop p deadline ?w))" by blast
    then have "keeps_client w (snd (wait_loop p deadline ?w))"
      by (rule keeps_client_trans [OF bus_poll_client])
    with True show ?thesis
      by (subst wait_loop.simps) (auto simp: Let_def)
  next
    case False
    then show ?thesis
      by (subst wait_loop.simps) (auto simp: Let_def bus_poll_client keeps_client_def [of w w])
  qed
qed

lemma wait_until_client: "keeps_client w (snd (wait_until timeout p w))"
  by (simp add: wait_until_def wait_loop_client keeps_client_def [of w w])

text \<open>One request on the wire, no longer than the timeout, the client's address and timeout kept.\<close>

definition one_transfer :: "can_frame \<Rightarrow> bus_world \<Rightarrow> bus_world \<Rightarrow> bool" where
  "one_transfer req w w' \<longleftrightarrow> bw_sent w' = bw_sent w @ [req] \<and>
     bw_now w' \<le> bw_now w + sc_timeout (bw_sdo w) \<and> sc_timeout (bw_sdo w') = sc_timeout (bw_sdo w) \<and>
     sc_nodeId (bw_sdo w') = sc_nodeId (bw_sdo w)"

lemma sdo_transfer_cost: "one_transfer req w (snd (sdo_transfer req w))"
proof -
  let ?w0 = "w\<lparr>bw_sdo := (bw_sdo w)\<lparr>sc_pending := None\<rparr>\<rparr>"
  let ?p = "\<lambda>w. sc_pending (bw_sdo w) \<noteq> None"
  obtain r w2 where w2: "wait_until (sc_timeout (bw_sdo w)) ?p (bus_send req ?w0) = (r, w2)" by fastforce
  have "bw_now w2 \<le> bw_now w + sc_timeout (bw_sdo w)"
    using wait_until_deadline [of "sc_timeout (bw_sdo w)" ?p "bus_send req ?w0"] w2 by (simp add: Let_def)
  moreover have "keeps_client (bus_send req ?w0) w2"
    using wait_until_client [of "bus_send req ?w0" "sc_timeout (bw_sdo w)" ?p] w2 by simp
  ultimately show ?thesis
    using w2 by (simp add: sdo_transfer_def keeps_client_def one_transfer_def)
qed

definition upload_cost :: "nat \<Rightarrow> bus_world \<Rightarrow> bus_world \<Rightarrow> bool" where
  "upload_cost n w w' \<longleftrightarrow> length (bw_sent w') \<le> length (bw_sent w) + n \<and>
     bw_now w' \<le> bw_now w + n * sc_timeout (bw_sdo w)"

lemma upload_cost_step:
  assumes "one_transfer req w w1" "upload_cost n w1 w2"
  shows "upload_cost (Suc n) w w2"
  using assms by (simp add: one_transfer_def upload_cost_def)

lemma upload_cost_one: "one_transfer req w w1 \<Longrightarrow> upload_cost (Suc n) w w1"
  by (auto simp: one_transfer_def upload_cost_def)

lemma upload_segments_cost: "upload_cost n w (snd (upload_segments sdo_transfer node i s n t acc w))"
proof (induction n arbitrary: t acc w)
  case 0
  show ?case by (simp add: upload_cost_def)
next
  case (Suc n)
  let ?req = "make_segment_request node t"
  obtain x w1 where x: "sdo_transfer ?req w = (x, w1)" by fastforce
  have one: "one_transfer ?req w w1" using sdo_transfer_cost [of ?req w] x by simp
  show ?case
    using upload_cost_one [OF one, of n] upload_cost_step [OF one Suc.IH] x
    by (auto simp: sdo_exchange_def Let_def split: sum.split)
qed

text \<open>
  An SDO upload gives up: whatever the devices on the bus answer, it sends at most 1025
  requests and returns within 1025 timeouts.
\<close>

theorem sdo_upload_bounded:
  "let w' = snd (sdo_upload sdo_transfer node i s w) in
     length (bw_sent w') \<le> length (bw_sent w) + 1025 \<and>
     bw_now w' \<le> bw_now w + 1025 * sc_timeout (bw_sdo w)"
proof -
  let ?req = "make_sdo_upload_frame node i s"
  obtain x w1 where x: "sdo_transfer ?req w = (x, w1)" by fastforce
  have one: "one_transfer ?req w w1" using sdo_transfer_cost [of ?req w] x by simp
  have "upload_cost (Suc kMaxSegments) w (snd (sdo_upload sdo_transfer node i s w))"
    using upload_cost_one [OF one, of kMaxSegments] upload_cost_step [OF one upload_segments_cost] x
    by (auto simp: sdo_upload_def sdo_exchange_def Let_def split: sum.split)
  then show ?thesis by (simp add: upload_cost_def kMaxSegments_def Let_def)
qed

section \<open>Deaf devices\<close>

lemma send_to_deaf:
  "\<forall>d\<in>set ds. dev_handle (bw_kbps w) f d = ([], d) \<Longrightarrow> send_to_devices f ds w = (ds, w)"
  by (induction ds) auto

lemma wait_loop_idle:
  assumes "bw_queue w = []" "\<And>t. \<not> p (w\<lparr>bw_now := t\<rparr>)" "bw_now w \<le> deadline"
  shows "wait_loop p deadline w = (False, w\<lparr>bw_now := deadline\<rparr>)"
  using assms
proof (induction p deadline w rule: wait_loop.induct)
  case (1 p deadline w)
  let ?b = "min (deadline - bw_now w) 5"
  have poll: "bus_poll ?b w = w\<lparr>bw_now := bw_now w + ?b\<rparr>"
    using "1.prems"(1) by (simp add: bus_poll_def Let_def)
  show ?case
  proof (cases "bw_now w < deadline")
    case True
    have np: "\<not> p (bus_poll ?b w)" using "1.prems"(2) by (simp add: poll)
    have "wait_loop p deadline (bus_poll ?b w) = (False, (bus_poll ?b w)\<lparr>bw_now := deadline\<rparr>)"
      by (rule "1.IH" [OF True refl np]) (unfold poll, use "1.prems" True in simp_all)
    with True np poll show ?thesis by (subst wait_loop.simps) (simp add: Let_def)
  next
    case False
    with "1.prems" have "bw_now w = deadline" by simp
    then have "w\<lparr>bw_now := deadline\<rparr> = w" by (cases w) simp
    with "1.prems"(2) [of deadline] False show ?thesis by (subst wait_loop.simps) simp
  qed
qed

text \<open>An upload that no device hears: it times out after exactly its timeout, having sent one frame.\<close>

lemma unheard_times_out:
  assumes "bw_queue w = []" "\<forall>d\<in>set (bw_devices w). dev_handle (bw_kbps w) (make_sdo_upload_frame node i s) d = ([], d)"
  shows "\<exists>w'. sdo_upload sdo_transfer node i s w = (Inl SdoTimeout, w') \<and> bw_devices w' = bw_devices w \<and>
    bw_now w' = bw_now w + sc_timeout (bw_sdo w) \<and> bw_sent w' = bw_sent w @ [make_sdo_upload_frame node i s]"
proof -
  let ?req = "make_sdo_upload_frame node i s" and ?T = "sc_timeout (bw_sdo w)"
  let ?w1 = "w\<lparr>bw_sdo := (bw_sdo w)\<lparr>sc_pending := None\<rparr>, bw_sent := bw_sent w @ [?req]\<rparr>"
  have send: "bus_send ?req (w\<lparr>bw_sdo := (bw_sdo w)\<lparr>sc_pending := None\<rparr>\<rparr>) = ?w1"
    using send_to_deaf [of "bw_devices w" ?w1 ?req] assms(2) by (simp add: bus_send_def)
  have "wait_loop (\<lambda>w. sc_pending (bw_sdo w) \<noteq> None) (bw_now ?w1 + ?T) ?w1 =
      (False, ?w1\<lparr>bw_now := bw_now ?w1 + ?T\<rparr>)"
    by (rule wait_loop_idle) (use assms(1) in simp_all)
  then show ?thesis
    using send by (simp add: sdo_upload_def sdo_exchange_def sdo_transfer_def wait_until_def sdo_check_def)
qed

text \<open>
  A device is unreachable at any other bit rate: when every device on an idle bus runs at a
  rate that is not the bus rate, an upload times out after exactly its timeout and no device
  changes.
\<close>

theorem wrong_rate_times_out:
  assumes "bw_queue w = []" "\<forall>d\<in>set (bw_devices w). lss_bitrate_to_kbps (dev_bitrate d) \<noteq> bw_kbps w"
  shows "\<exists>w'. sdo_upload sdo_transfer node i s w = (Inl SdoTimeout, w') \<and>
    bw_devices w' = bw_devices w \<and> bw_now w' = bw_now w + sc_timeout (bw_sdo w)"
proof -
  have "\<forall>d\<in>set (bw_devices w). dev_handle (bw_kbps w) (make_sdo_upload_frame node i s) d = ([], d)"
    using assms(2) by (auto simp: dev_handle_def)
  from unheard_times_out [OF assms(1) this] show ?thesis by blast
qed

theorem wrong_rate_times_out_witness:
  "\<exists>w'. sdo_upload sdo_transfer 10 0x2001 0 (example_bus\<lparr>bw_kbps := 500\<rparr>) = (Inl SdoTimeout, w') \<and>
    bw_devices w' = bw_devices example_bus \<and> bw_now w' = 3601000"
  using wrong_rate_times_out [of "example_bus\<lparr>bw_kbps := 500\<rparr>" 10 "0x2001" 0]
  by (simp add: example_bus_def new_stub_device_def)

section \<open>Readdressing a device\<close>

definition lss_ready :: "bus_world \<Rightarrow> bool" where
  "lss_ready w \<longleftrightarrow> bw_queue w = [] \<and> length (bw_devices w) = 1 \<and> present (bus_device w) \<and>
     bw_kbps w = lss_bitrate_to_kbps (dev_bitrate (bus_device w)) \<and>
     0 < lm_timeout (bw_lss w) \<and> responseDelay (bus_device w) \<le> lm_timeout (bw_lss w)"

definition keeps_masters :: "bus_world \<Rightarrow> bus_world \<Rightarrow> bool" where
  "keeps_masters w w' \<longleftrightarrow> singleNodeBus (bw_lss w') = singleNodeBus (bw_lss w) \<and>
     lm_timeout (bw_lss w') = lm_timeout (bw_lss w) \<and> sc_timeout (bw_sdo w') = sc_timeout (bw_sdo w) \<and>
     sc_nodeId (bw_sdo w') = sc_nodeId (bw_sdo w) \<and> bw_nmt w' = bw_nmt w"

lemma lss_devices: "lss_ready w \<Longrightarrow> bw_devices w = [bus_device w]"
  by (cases "bw_devices w") (auto simp: lss_ready_def bus_device_def)

lemma dev_handle_lss:
  "present d \<Longrightarrow> dev_handle (lss_bitrate_to_kbps (dev_bitrate d)) (make_lss_frame cs a b) d =
   handle_lss (make_lss_frame cs a b) d"
  by (simp add: dev_handle_def frame_simps)

lemma lss_unconfirmed_result:
  assumes "lss_ready w" "handle_lss (make_lss_frame cs a b) (bus_device w) = ([], d')"
    "same_address (bus_device w) d'"
  shows "lss_ready (bus_send (make_lss_frame cs a b) w) \<and>
    bus_device (bus_send (make_lss_frame cs a b) w) = d' \<and>
    keeps_masters w (bus_send (make_lss_frame cs a b) w)"
proof -
  have "dev_handle (bw_kbps w) (make_lss_frame cs a b) (bus_device w) = ([], d')"
    using assms(1,2) by (simp add: lss_ready_def dev_handle_lss)
  then have "bus_send (make_lss_frame cs a b) w =
      w\<lparr>bw_sent := bw_sent w @ [make_lss_frame cs a b], bw_devices := [d']\<rparr>"
    using lss_devices [OF assms(1)] by (simp add: bus_send_def)
  with assms(1,3) show ?thesis
    by (simp add: lss_ready_def bus_device_def same_address_def keeps_masters_def)
qed

lemma lss_confirmed_result:
  assumes "lss_ready w" "same_address (bus_device w) d'"
    "handle_lss (make_lss_frame cs a b) (bus_device w) = ([lss_confirm cs e v d0], d')"
    "nodeId d0 = nodeId d'" "dev_bitrate d0 = dev_bitrate d'" "responseDelay d0 = responseDelay d'"
  shows "\<exists>w'. lss_send_confirmed cs a b w = (lss_check cs (Some (inj_frame (lss_confirm cs e v d0))), w') \<and>
    bus_device w' = d' \<and> lss_ready w' \<and> keeps_masters w w'"
proof -
  let ?req = "make_lss_frame cs a b" and ?T = "lm_timeout (bw_lss w)"
  let ?f = "inj_frame (lss_confirm cs e v d0)"
  let ?w0 = "w\<lparr>bw_lss := (bw_lss w)\<lparr>lm_pending := None\<rparr>\<rparr>"
  let ?s = "\<lparr>sch_at = bw_now w + responseDelay d', sch_frame = ?f, sch_kbps = lss_bitrate_to_kbps (dev_bitrate d')\<rparr>"
  let ?w1 = "?w0\<lparr>bw_sent := bw_sent w @ [?req], bw_devices := [d'], bw_queue := [?s]\<rparr>"
  let ?p = "\<lambda>w. lm_pending (bw_lss w) \<noteq> None"
  have h: "dev_handle (bw_kbps w) ?req (bus_device w) = ([lss_confirm cs e v d0], d')"
    using assms(1,3) by (simp add: lss_ready_def dev_handle_lss)
  have send: "bus_send ?req ?w0 = ?w1"
    using bus_send_single [of ?w0 "bus_device w" ?req "lss_confirm cs e v d0" d'] lss_devices [OF assms(1)] h assms
    by (simp add: lss_ready_def lss_confirm_def dev_reply_def)
  have id: "frame_id ?f = kSlaveCobId"
    by (simp add: lss_confirm_def dev_reply_def frame_simps)
  then have nmt: "nmt_hear ?f (bw_nmt w) = bw_nmt w"
    by (simp add: nmt_hear_def)
  have "\<exists>t. bw_now ?w1 \<le> t \<and> t \<le> bw_now w + ?T \<and>
    wait_loop ?p (bw_now w + ?T) ?w1 = (True, bus_deliver (sch_frame ?s) (?w1\<lparr>bw_now := t, bw_queue := []\<rparr>))"
    by (rule wait_loop_single)
      (use assms(1,2) id in \<open>simp_all add: lss_ready_def same_address_def bus_deliver_def lss_hear_def\<close>)
  then obtain t where t: "wait_loop ?p (bw_now w + ?T) ?w1 = (True, bus_deliver ?f (?w1\<lparr>bw_now := t, bw_queue := []\<rparr>))"
    by auto
  let ?w2 = "bus_deliver ?f (?w1\<lparr>bw_now := t, bw_queue := []\<rparr>)"
  have pend: "bw_lss ?w2 = (bw_lss w)\<lparr>lm_pending := Some ?f\<rparr>"
    using id by (simp add: bus_deliver_def lss_hear_def)
  have res: "lss_send_confirmed cs a b w = (lss_check cs (Some ?f), ?w2\<lparr>bw_lss := (bw_lss w)\<lparr>lm_pending := None\<rparr>\<rparr>)"
    using send t pend by (simp add: lss_send_confirmed_def wait_until_def)
  have "lss_ready (?w2\<lparr>bw_lss := (bw_lss w)\<lparr>lm_pending := None\<rparr>\<rparr>) \<and>
      keeps_masters w (?w2\<lparr>bw_lss := (bw_lss w)\<lparr>lm_pending := None\<rparr>\<rparr>)"
    using assms(1,2) nmt
    by (simp add: lss_ready_def bus_device_def same_address_def keeps_masters_def bus_deliver_def sdo_hear_def)
  with res show ?thesis by (auto simp: bus_device_def)
qed

lemma lss_check_confirm:
  "lss_check cs (Some (inj_frame (lss_confirm cs e v d))) =
   (if e = 0 then Inr (inj_frame (lss_confirm cs e v d)) else Inl (LssRejected e v))"
  by (simp add: lss_check_def lss_confirm_def dev_reply_def frame_simps)

text \<open>
  \<open>inquire_node_id\<close> cannot report a node ID: on any bus and whatever answers, the only value
  it ever returns is 0, because the shared check of the response takes a non-zero byte 1 for an
  error code.
\<close>

theorem inquire_node_id_only_zero:
  "case inquire_node_id w of (Inl e, w') \<Rightarrow> True | (Inr v, w') \<Rightarrow> v = 0"
  by (auto simp: inquire_node_id_def lss_send_confirmed_def lss_check_def Let_def
    split: prod.split sum.split option.splits if_splits)

text \<open>The handler of each step, on a device that is in configuration mode.\<close>

lemma handle_lss_switch:
  "handle_lss (make_lss_frame kSwitchStateGlobal m 0) d = ([], d\<lparr>lssConfiguration := (m = kModeConfiguration)\<rparr>)"
  by (simp add: handle_lss_def frame_simps Let_def)

lemma handle_lss_node:
  "lssConfiguration d \<Longrightarrow> 1 \<le> n \<Longrightarrow> n \<le> 127 \<Longrightarrow>
   handle_lss (make_lss_frame kConfigureNodeId n 0) d =
     ([lss_confirm kConfigureNodeId 0 0 d], d\<lparr>pendingNodeId := Some n\<rparr>)"
  using node_ok_alt [of n] by (simp add: handle_lss_def frame_simps Let_def node_ok_def not_less)

lemma handle_lss_rate:
  "lssConfiguration d \<Longrightarrow> \<not> lss_rate_refused d r \<Longrightarrow>
   handle_lss (make_lss_frame kConfigureBitTiming 0 (lss_code r)) d =
     ([lss_confirm kConfigureBitTiming 0 0 d], d\<lparr>pendingBitrate := Some r\<rparr>)"
  using leD [OF lss_code_bound [of r]] by (simp add: handle_lss_def frame_simps Let_def lss_table_code)

lemma handle_lss_store:
  "lssConfiguration d \<Longrightarrow> pendingNodeId d = Some n \<Longrightarrow> pendingBitrate d = Some r \<Longrightarrow>
   handle_lss (make_lss_frame kStoreConfiguration 0 0) d =
     ([lss_confirm kStoreConfiguration 0 0 d], d\<lparr>storedNodeId := Some n, storedBitrate := Some r\<rparr>)"
  by (simp add: handle_lss_def frame_simps Let_def)

lemma handle_nmt_reset:
  "handle_nmt (make_nmt_frame ResetNode n) d = (if n \<noteq> 0 \<and> n \<noteq> nodeId d then ([], d) else dev_reset d)"
  by (simp add: handle_nmt_def frame_simps nmt_command_of_def)

lemma dev_handle_nmt:
  "present d \<Longrightarrow> dev_handle (lss_bitrate_to_kbps (dev_bitrate d)) (make_nmt_frame c n) d = handle_nmt (make_nmt_frame c n) d"
  by (simp add: dev_handle_def frame_simps)

definition reset_device :: "stub_device \<Rightarrow> stub_device" where
  "reset_device d = snd (dev_reset d)"

lemma reset_device_fields:
  "present (reset_device d) = present d" "responseDelay (reset_device d) = responseDelay d"
  "dev_od (reset_device d) = dev_od d" "nonVolatile (reset_device d) = nonVolatile d"
  by (simp_all add: reset_device_def dev_reset_def Let_def)

lemma nmt_reset_result:
  assumes "lss_ready w"
  shows "bus_device (nmt_send ResetNode (nodeId (bus_device w)) w) = reset_device (bus_device w) \<and>
    bw_queue (nmt_send ResetNode (nodeId (bus_device w)) w) =
      [\<lparr>sch_at = bw_now w + 50,
        sch_frame = put_byte 0 0 (empty_frame\<lparr>frame_id := kHeartbeatCobIdBase + ucast (nodeId (reset_device (bus_device w))), frame_len := 1\<rparr>),
        sch_kbps = lss_bitrate_to_kbps (dev_bitrate (reset_device (bus_device w)))\<rparr>] \<and>
    length (bw_devices (nmt_send ResetNode (nodeId (bus_device w)) w)) = 1 \<and>
    keeps_masters w (nmt_send ResetNode (nodeId (bus_device w)) w)"
proof -
  let ?f = "make_nmt_frame ResetNode (nodeId (bus_device w))"
  obtain j where j: "dev_reset (bus_device w) = ([j], reset_device (bus_device w))"
    "inj_after j = 50" "inj_kbps j = lss_bitrate_to_kbps (dev_bitrate (reset_device (bus_device w)))"
    "inj_frame j = put_byte 0 0 (empty_frame\<lparr>frame_id := kHeartbeatCobIdBase + ucast (nodeId (reset_device (bus_device w))), frame_len := 1\<rparr>)"
    by (rule that [of "hd (fst (dev_reset (bus_device w)))"])
      (simp_all add: dev_reset_def reset_device_def Let_def)
  have "dev_handle (bw_kbps w) ?f (bus_device w) = ([j], reset_device (bus_device w))"
    using assms j(1) by (simp add: lss_ready_def dev_handle_nmt handle_nmt_reset)
  from bus_send_single [OF lss_devices [OF assms] this] j assms show ?thesis
    by (simp add: nmt_send_def lss_ready_def bus_device_def keeps_masters_def)
qed

text \<open>
  C18.  The LSS reconfiguration: on a bus with one device, entering configuration mode, setting
  node ID and bit rate, storing, leaving, and then resetting the node all succeed; the device
  keeps its old address up to the reset, and has the new one after it.
\<close>

theorem lss_reconfigures:
  assumes "lss_ready w" "singleNodeBus (bw_lss w)" "1 \<le> n" "n \<le> 127"
    and "\<not> lss_rate_refused (bus_device w) r"
  shows "let (r1, w1) = enter_configuration w; (r2, w2) = configure_node_id n w1;
      (r3, w3) = configure_bitrate r w2; (r4, w4) = store_configuration w3;
      (r5, w5) = exit_configuration w4; w6 = nmt_send ResetNode (nodeId (bus_device w)) w5
    in r1 = Inr () \<and> r2 = Inr () \<and> r3 = Inr () \<and> r4 = Inr () \<and> r5 = Inr () \<and>
       nodeId (bus_device w5) = nodeId (bus_device w) \<and> dev_bitrate (bus_device w5) = dev_bitrate (bus_device w) \<and>
       nodeId (bus_device w6) = n \<and> dev_bitrate (bus_device w6) = r"
proof -
  let ?d = "bus_device w"
  let ?d1 = "?d\<lparr>lssConfiguration := True\<rparr>"
  let ?d2 = "?d1\<lparr>pendingNodeId := Some n\<rparr>"
  let ?d3 = "?d2\<lparr>pendingBitrate := Some r\<rparr>"
  let ?d4 = "?d3\<lparr>storedNodeId := Some n, storedBitrate := Some r\<rparr>"
  let ?d5 = "?d4\<lparr>lssConfiguration := False\<rparr>"
  have n: "\<not> (n < 1 \<or> 127 < n)" using assms(3,4) node_ok_alt [of n] by (simp add: node_ok_def not_less)
  obtain w1 where w1: "enter_configuration w = (Inr (), w1)" "bus_device w1 = ?d1" "lss_ready w1" "keeps_masters w w1"
    using lss_unconfirmed_result [OF assms(1) handle_lss_switch, of 1] assms(2)
    by (simp add: enter_configuration_def lss_send_unconfirmed_def same_address_def)
  have "handle_lss (make_lss_frame kConfigureNodeId n 0) (bus_device w1) = ([lss_confirm kConfigureNodeId 0 0 ?d1], ?d2)"
    using handle_lss_node [of ?d1 n] assms(3,4) w1(2) by simp
  from lss_confirmed_result [OF w1(3) _ this] obtain w2 where
    w2: "configure_node_id n w1 = (Inr (), w2)" "bus_device w2 = ?d2" "lss_ready w2" "keeps_masters w1 w2"
    using n w1(2) by (auto simp: configure_node_id_def lss_confirmed_unit_def lss_check_confirm same_address_def)
  have "handle_lss (make_lss_frame kConfigureBitTiming 0 (lss_code r)) (bus_device w2) =
      ([lss_confirm kConfigureBitTiming 0 0 ?d2], ?d3)"
    using handle_lss_rate [of ?d2 r] assms(5) w2(2) by (simp add: lss_rate_refused_def)
  from lss_confirmed_result [OF w2(3) _ this] obtain w3 where
    w3: "configure_bitrate r w2 = (Inr (), w3)" "bus_device w3 = ?d3" "lss_ready w3" "keeps_masters w2 w3"
    using w2(2) by (auto simp: configure_bitrate_def lss_confirmed_unit_def lss_check_confirm same_address_def)
  have "handle_lss (make_lss_frame kStoreConfiguration 0 0) (bus_device w3) =
      ([lss_confirm kStoreConfiguration 0 0 ?d3], ?d4)"
    using handle_lss_store [of ?d3 n r] w3(2) by simp
  from lss_confirmed_result [OF w3(3) _ this] obtain w4 where
    w4: "store_configuration w3 = (Inr (), w4)" "bus_device w4 = ?d4" "lss_ready w4" "keeps_masters w3 w4"
    using w3(2) by (auto simp: store_configuration_def lss_confirmed_unit_def lss_check_confirm same_address_def)
  have single: "singleNodeBus (bw_lss w4)"
    using assms(2) w1(4) w2(4) w3(4) w4(4) by (simp add: keeps_masters_def)
  obtain w5 where w5: "exit_configuration w4 = (Inr (), w5)" "bus_device w5 = ?d5" "lss_ready w5"
    using lss_unconfirmed_result [OF w4(3) handle_lss_switch, of 0] single w4(2)
    by (simp add: exit_configuration_def lss_send_unconfirmed_def same_address_def)
  have "nodeId (bus_device w5) = nodeId ?d" "dev_bitrate (bus_device w5) = dev_bitrate ?d"
    "nodeId (reset_device (bus_device w5)) = n" "dev_bitrate (reset_device (bus_device w5)) = r"
    using w5(2) by (simp_all add: reset_device_def dev_reset_def Let_def)
  with nmt_reset_result [OF w5(3)] w1(1) w2(1) w3(1) w4(1) w5(1) show ?thesis by simp
qed

theorem lss_reconfigures_witness:
  "let (r1, w1) = enter_configuration example_bus; (r2, w2) = configure_node_id 11 w1;
      (r3, w3) = configure_bitrate Rate1000k w2; (r4, w4) = store_configuration w3;
      (r5, w5) = exit_configuration w4; w6 = nmt_send ResetNode (nodeId (bus_device example_bus)) w5
    in r1 = Inr () \<and> r2 = Inr () \<and> r3 = Inr () \<and> r4 = Inr () \<and> r5 = Inr () \<and>
       nodeId (bus_device w5) = nodeId (bus_device example_bus) \<and>
       dev_bitrate (bus_device w5) = dev_bitrate (bus_device example_bus) \<and>
       nodeId (bus_device w6) = 11 \<and> dev_bitrate (bus_device w6) = Rate1000k"
  by (rule lss_reconfigures) (simp_all add: lss_ready_def example_bus_def bus_device_def
    new_stub_device_def lss_rate_refused_def example_od_def)


lemma heartbeat_cobid:
  assumes "1 \<le> (n :: byte)" "n \<le> 127"
  shows "(0x700 + ucast n) AND 0x7FF = (0x700 + ucast n :: u32)" "0x700 \<le> (0x700 + ucast n :: u32)"
    "0x700 + ucast n < (0x780 :: u32)" "ucast (0x700 + ucast n - 0x700 :: u32) = n"
proof -
  have u: "uint (0x700 + ucast n :: u32) = 0x700 + uint n" using cobid_uint [of "0x700" n] by simp
  have n: "uint n \<le> 127" using assms(2) by (simp add: word_le_def)
  show "(0x700 + ucast n) AND 0x7FF = (0x700 + ucast n :: u32)" by (rule cobid_mask) simp
  show "0x700 \<le> (0x700 + ucast n :: u32)" "0x700 + ucast n < (0x780 :: u32)"
    using u n by (simp_all add: word_le_def word_less_def)
  show "ucast (0x700 + ucast n - 0x700 :: u32) = n" by (simp add: ucast_down_up)
qed

lemma nmt_hear_bootup:
  assumes "1 \<le> n" "n \<le> 127"
    "f = put_byte 0 0 (empty_frame\<lparr>frame_id := kHeartbeatCobIdBase + ucast n, frame_len := 1\<rparr>)"
  shows "nmt_hear f m = nmt_hear_heartbeat n 0 m \<and> nm_bootCounts (nmt_hear f m) n = nm_bootCounts m n + 1 \<and>
    nm_states (nmt_hear f m) n = Some 0"
proof -
  have f: "frame_id f = 0x700 + ucast n" "frame_len f = 1" "byte_at f 0 = 0"
    using assms(3) by (simp_all add: frame_simps)
  have "nmt_hear f m = nmt_hear_heartbeat n 0 m"
    unfolding nmt_hear_def Let_def f heartbeat_cobid [OF assms(1,2)]
    using heartbeat_cobid(2,3) [OF assms(1,2)] by simp
  then show ?thesis by (simp add: nmt_hear_heartbeat_def Let_def)
qed

lemma heartbeat_count: "nm_bootCounts (nmt_hear_heartbeat n 0 m) = (nm_bootCounts m)(n := nm_bootCounts m n + 1)"
  by (simp add: nmt_hear_heartbeat_def Let_def)

text \<open>A boot-up is no answer to a request.\<close>

lemma bootup_not_answer:
  assumes "1 \<le> n" "n \<le> 127" "frame_id f = kHeartbeatCobIdBase + ucast (n :: byte)"
  shows "sdo_hear f c = c" "lss_hear f m = m"
proof -
  have id: "frame_id f AND 0x7FF = 0x700 + ucast n"
    using heartbeat_cobid(1) [OF assms(1,2)] assms(3) by simp
  have range: "uint (0x700 + ucast n :: u32) = 0x700 + uint n" "uint (0x580 + ucast (sc_nodeId c) :: u32) = 0x580 + uint (sc_nodeId c)"
    using cobid_uint [of "0x700" n] cobid_uint [of "0x580" "sc_nodeId c"] by simp_all
  have m: "uint (sc_nodeId c) < 256" using uint_lt2p [of "sc_nodeId c"] by simp
  have "uint (0x580 + ucast (sc_nodeId c) :: u32) < 0x700" "0x700 \<le> uint (0x700 + ucast n :: u32)"
    unfolding range using m by simp_all
  then have "0x700 + ucast n \<noteq> (0x580 + ucast (sc_nodeId c) :: u32)"
    by (metis linorder_not_less)
  then show "sdo_hear f c = c" by (simp add: sdo_hear_def id)
  have "0x700 + ucast n \<noteq> (0x7E4 :: u32)"
    using heartbeat_cobid(3) [OF assms(1,2)] by auto
  then show "lss_hear f m = m" by (simp add: lss_hear_def id)
qed

lemma reset_and_wait_result:
  assumes "lss_ready w" "50 \<le> timeout" "n = nodeId (bus_device w)" "1 \<le> n" "n \<le> 127"
    and "nodeId (reset_device (bus_device w)) = n"
    and "dev_bitrate (reset_device (bus_device w)) = dev_bitrate (bus_device w)"
    and "nm_bootCounts (bw_nmt w) n \<noteq> - 1"
  shows "\<exists>w'. reset_and_wait n timeout w = (True, w') \<and> bus_device w' = reset_device (bus_device w) \<and>
    bw_nmt w' = nmt_hear_heartbeat n 0 (bw_nmt w) \<and> lss_ready w' \<and> bw_sdo w' = bw_sdo w \<and>
    bw_lss w' = bw_lss w"
proof -
  let ?w = "nmt_send ResetNode n w" and ?before = "nm_bootCounts (bw_nmt w) n"
  let ?p = "\<lambda>w. ?before < nm_bootCounts (bw_nmt w) n"
  let ?f = "put_byte 0 0 (empty_frame\<lparr>frame_id := kHeartbeatCobIdBase + ucast n, frame_len := 1\<rparr>)"
  let ?s = "\<lparr>sch_at = bw_now w + 50, sch_frame = ?f, sch_kbps = lss_bitrate_to_kbps (dev_bitrate (bus_device w))\<rparr>"
  note res = nmt_reset_result [OF assms(1), folded assms(3), unfolded assms(6,7)]
  have fields: "bw_now ?w = bw_now w" "bw_kbps ?w = lss_bitrate_to_kbps (dev_bitrate (bus_device w))"
    "bw_nmt ?w = bw_nmt w" "bw_sdo ?w = bw_sdo w" "bw_lss ?w = bw_lss w"
    using assms(1) lss_devices [OF assms(1)]
    by (simp_all add: nmt_send_def bus_send_def lss_ready_def split_beta Let_def)
  have lt: "?before < ?before + 1" using assms(8) unatSuc [of ?before] by (simp add: word_less_nat_alt add_eq_0_iff add.commute)
  have hear: "nmt_hear ?f (bw_nmt w) = nmt_hear_heartbeat n 0 (bw_nmt w) \<and>
      nm_bootCounts (nmt_hear ?f (bw_nmt w)) n = ?before + 1 \<and> nm_states (nmt_hear ?f (bw_nmt w)) n = Some 0"
    by (rule nmt_hear_bootup [OF assms(4,5) refl])
  have "\<exists>t. bw_now ?w \<le> t \<and> t \<le> bw_now w + timeout \<and>
    wait_loop ?p (bw_now w + timeout) ?w = (True, bus_deliver (sch_frame ?s) (?w\<lparr>bw_now := t, bw_queue := []\<rparr>))"
    by (rule wait_loop_single) (use res fields hear lt assms(2) in \<open>simp_all add: bus_deliver_def heartbeat_count\<close>)
  then obtain t where t: "wait_loop ?p (bw_now w + timeout) ?w = (True, bus_deliver ?f (?w\<lparr>bw_now := t, bw_queue := []\<rparr>))"
    by auto
  then have "reset_and_wait n timeout w = (True, bus_deliver ?f (?w\<lparr>bw_now := t, bw_queue := []\<rparr>))"
    using fields by (simp add: reset_and_wait_def wait_until_def)
  moreover have "bus_device (bus_deliver ?f (?w\<lparr>bw_now := t, bw_queue := []\<rparr>)) = reset_device (bus_device w)"
    using res by (simp add: bus_device_def)
  moreover have "sdo_hear ?f c = c" "lss_hear ?f m = m" for c m
    using bootup_not_answer [OF assms(4,5), of ?f] by (simp_all add: frame_simps)
  ultimately show ?thesis using hear fields res assms
    by (auto simp: bus_deliver_def lss_ready_def reset_device_fields bus_device_def)
qed

text \<open>
  C19.  A commanded reset is observed: on a bus with one device that comes back at the same node
  ID and bit rate, \<open>reset_and_wait\<close> with a timeout of at least 50 ms returns true, in a state
  where the device has been reset and its boot-up has been counted.
\<close>

theorem reset_and_wait_succeeds:
  assumes "lss_ready w" "50 \<le> timeout" "n = nodeId (bus_device w)" "1 \<le> n" "n \<le> 127"
    and "nodeId (reset_device (bus_device w)) = n"
    and "dev_bitrate (reset_device (bus_device w)) = dev_bitrate (bus_device w)"
    and "nm_bootCounts (bw_nmt w) n \<noteq> - 1"
  shows "\<exists>w'. reset_and_wait n timeout w = (True, w') \<and> bus_device w' = reset_device (bus_device w) \<and>
    nm_bootCounts (bw_nmt w') n = nm_bootCounts (bw_nmt w) n + 1 \<and> nm_states (bw_nmt w') n = Some 0"
  using reset_and_wait_result [OF assms] by (auto simp: nmt_hear_heartbeat_def Let_def)

theorem reset_and_wait_succeeds_witness:
  "\<exists>w'. reset_and_wait 10 5000 example_bus = (True, w') \<and>
    bus_device w' = reset_device (bus_device example_bus) \<and>
    nm_bootCounts (bw_nmt w') 10 = nm_bootCounts (bw_nmt example_bus) 10 + 1 \<and> nm_states (bw_nmt w') 10 = Some 0"
  by (rule reset_and_wait_succeeds) (simp_all add: lss_ready_def example_bus_def bus_device_def
    new_stub_device_def reset_device_def dev_reset_def Let_def)

end
