(* ===== verification/PdoMapping.thy ===== *)
theory PdoMapping
  imports Eds
begin

text \<open>
  libs/canopen/include/canopen/pdo_bits.h (bit fields of a PDO) and libs/canopen/src/pdo_mapping.cpp
  (the layout a device declares for its PDOs).  Bit positions are natural numbers: the code holds
  them in 16 bits and they stay below 512.  A shift by 64 or more, which \<open>get_bits\<close> would make for a
  field wider than 64 bits, is outside the model: the theorems bound the width.
\<close>

section \<open>Bit fields\<close>

definition test_bit8 :: "byte \<Rightarrow> nat \<Rightarrow> bool" where
  "test_bit8 b k \<longleftrightarrow> drop_bit k b AND 1 \<noteq> 0"

fun get_bits_loop :: "byte list \<Rightarrow> nat \<Rightarrow> nat \<Rightarrow> nat \<Rightarrow> u64 \<Rightarrow> u64" where
  "get_bits_loop data off 0 i v = v"
| "get_bits_loop data off (Suc n) i v =
     (let b = off + i; k = b div 8 in
      if length data \<le> k then v
      else get_bits_loop data off n (Suc i) (if test_bit8 (data ! k) (b mod 8) then v OR push_bit i 1 else v))"

definition get_bits :: "byte list \<Rightarrow> byte \<Rightarrow> byte \<Rightarrow> u64" where
  "get_bits data off bits = get_bits_loop data (unat off) (unat bits) 0 0"

fun set_bits_loop :: "byte list \<Rightarrow> nat \<Rightarrow> nat \<Rightarrow> nat \<Rightarrow> u64 \<Rightarrow> byte list" where
  "set_bits_loop data off 0 i v = data"
| "set_bits_loop data off (Suc n) i v =
     (let b = off + i; k = b div 8; mask = push_bit (b mod 8) 1 :: byte in
      if length data \<le> k then data
      else set_bits_loop
        (data[k := if drop_bit i v AND 1 \<noteq> 0 then (data ! k) OR mask else (data ! k) AND NOT mask])
        off n (Suc i) v)"

definition set_bits :: "byte list \<Rightarrow> byte \<Rightarrow> byte \<Rightarrow> u64 \<Rightarrow> byte list" where
  "set_bits data off bits v = set_bits_loop data (unat off) (unat bits) 0 v"

definition sign_extend :: "u64 \<Rightarrow> byte \<Rightarrow> u64" where
  "sign_extend v bits =
     (if bits = 0 \<or> 64 \<le> bits then v
      else if v AND push_bit (unat bits - 1) 1 \<noteq> 0
        then v OR NOT (push_bit (unat bits) 1 - 1)
        else v)"

text \<open>Bit \<open>k\<close> of a buffer, little end first; nothing beyond its end.\<close>

definition data_bit :: "byte list \<Rightarrow> nat \<Rightarrow> bool" where
  "data_bit data k \<longleftrightarrow> k div 8 < length data \<and> bit (data ! (k div 8)) (k mod 8)"

lemma and_1_bit: "(drop_bit k (w :: 'a::len word) AND 1 \<noteq> 0) = bit w k"
  by (simp add: and_one_eq bit_iff_odd_drop_bit mod_2_eq_odd)

lemma test_bit8_bit: "test_bit8 b k = bit b k"
  by (simp add: test_bit8_def and_1_bit)

lemma bit_get_bits_loop:
  "bit (get_bits_loop data off n i v) j \<longleftrightarrow>
     bit v j \<or> (i \<le> j \<and> j < i + n \<and> j < 64 \<and> data_bit data (off + j))"
proof (induction data off n i v rule: get_bits_loop.induct)
  case (1 data off i v)
  show ?case by auto
next
  case (2 data off n i v)
  let ?k = "(off + i) div 8"
  show ?case
  proof (cases "length data \<le> ?k")
    case True
    have "\<not> data_bit data (off + j)" if "i \<le> j" for j
    proof -
      from that have "?k \<le> (off + j) div 8" by (simp add: div_le_mono)
      with True show ?thesis by (simp add: data_bit_def)
    qed
    with True show ?thesis by auto
  next
    case False
    let ?b = "bit (data ! ?k) ((off + i) mod 8)"
    have b: "?b = data_bit data (off + i)" using False by (simp add: data_bit_def)
    have "bit (if test_bit8 (data ! ?k) ((off + i) mod 8) then v OR push_bit i 1 else v) j \<longleftrightarrow>
        bit v j \<or> (j = i \<and> j < 64 \<and> data_bit data (off + i))"
      by (auto simp: test_bit8_bit b bit_simps)
    with "2.IH" [OF refl refl False] False show ?thesis
      by (auto simp: Let_def le_less Suc_le_eq)
  qed
qed

lemma bit_get_bits:
  "bit (get_bits data off bits) j \<longleftrightarrow> j < unat bits \<and> j < 64 \<and> data_bit data (unat off + j)"
  by (auto simp: get_bits_def bit_get_bits_loop)

lemma length_set_bits_loop [simp]: "length (set_bits_loop data off n i v) = length data"
  by (induction data off n i v rule: set_bits_loop.induct) (simp_all add: Let_def)

lemma data_bit_update:
  assumes "k < length data" "m < 8"
  shows "data_bit (data[k := if c then (data ! k) OR push_bit m 1 else (data ! k) AND NOT (push_bit m 1)]) j \<longleftrightarrow>
    (if j = 8 * k + m then c else data_bit data j)"
proof (cases "j div 8 = k")
  case True
  have "j = 8 * k + m \<longleftrightarrow> j mod 8 = m" using True assms(2) by (metis div_mult_mod_eq mult.commute add_left_cancel)
  moreover have "j mod 8 < 8" by simp
  ultimately show ?thesis using True assms by (auto simp: data_bit_def bit_simps)
next
  case False
  then have "j \<noteq> 8 * k + m" using assms(2) by auto
  with False show ?thesis by (simp add: data_bit_def)
qed

lemma data_bit_set_bits_loop:
  "data_bit (set_bits_loop data off n i v) j \<longleftrightarrow>
     (if off + i \<le> j \<and> j < off + i + n \<and> j div 8 < length data then bit v (j - off) else data_bit data j)"
proof (induction data off n i v rule: set_bits_loop.induct)
  case (1 data off i v)
  show ?case by auto
next
  case (2 data off n i v)
  let ?k = "(off + i) div 8"
  show ?case
  proof (cases "length data \<le> ?k")
    case True
    have "\<not> j div 8 < length data" if "off + i \<le> j"
      using that True by (meson div_le_mono le_trans not_le)
    with True show ?thesis by auto
  next
    case False
    let ?data = "data[?k := if drop_bit i v AND 1 \<noteq> 0 then (data ! ?k) OR push_bit ((off + i) mod 8) 1
      else (data ! ?k) AND NOT (push_bit ((off + i) mod 8) 1)]"
    have upd: "data_bit ?data j \<longleftrightarrow> (if j = off + i then bit v i else data_bit data j)"
      using data_bit_update [of ?k data "(off + i) mod 8" "bit v i" j] False by (simp add: and_1_bit)
    have "set_bits_loop data off (Suc n) i v = set_bits_loop ?data off n (Suc i) v"
      using False by (simp add: Let_def)
    with "2.IH" [OF refl refl refl False] upd False show ?thesis
      by (auto simp: le_less Suc_le_eq)
  qed
qed

lemma data_bit_set_bits:
  "data_bit (set_bits data off bits v) j \<longleftrightarrow>
     (if unat off \<le> j \<and> j < unat off + unat bits \<and> j div 8 < length data then bit v (j - unat off) else data_bit data j)"
  by (simp add: set_bits_def data_bit_set_bits_loop)

lemma get_bits_same:
  assumes "unat bits \<le> 64" "unat off + unat bits \<le> 8 * length data"
  shows "get_bits (set_bits data off bits v) off bits = take_bit (unat bits) v"
proof -
  have "j div 8 < length data" if "j < unat off + unat bits" for j
    using that assms(2) by auto
  then show ?thesis
    using assms(1) by (intro bit_word_eqI) (auto simp: bit_get_bits data_bit_set_bits bit_simps)
qed

lemma get_bits_other:
  "unat off2 + unat bits2 \<le> unat off \<or> unat off + unat bits \<le> unat off2 \<Longrightarrow>
   get_bits (set_bits data off bits v) off2 bits2 = get_bits data off2 bits2"
  by (intro bit_word_eqI) (auto simp: bit_get_bits data_bit_set_bits)

text \<open>
  A bit field written into a frame reads back as the written value cut to its width, and
  every field that does not overlap it reads as before.
\<close>

theorem set_bits_get_bits:
  assumes "unat bits \<le> 64" "unat off + unat bits \<le> 8 * length data"
  shows "get_bits (set_bits data off bits v) off bits = take_bit (unat bits) v \<and>
    (\<forall>off2 bits2. unat off2 + unat bits2 \<le> unat off \<or> unat off + unat bits \<le> unat off2 \<longrightarrow>
      get_bits (set_bits data off bits v) off2 bits2 = get_bits data off2 bits2)"
  using get_bits_same [OF assms] get_bits_other by blast

theorem set_bits_get_bits_witness:
  "get_bits (set_bits [0xFF, 0, 0xFF] 4 12 0x5A5) 4 12 = take_bit 12 0x5A5 \<and>
    get_bits (set_bits [0xFF, 0, 0xFF] 4 12 0x5A5) 16 8 = get_bits [0xFF, 0, 0xFF] 16 8"
  using set_bits_get_bits [of 12 4 "[0xFF, 0, 0xFF]" "0x5A5"] by simp

text \<open>
  Sign extension recovers a signed value from its field: an integer that fits \<open>n\<close> bits in
  two's complement, cut to \<open>n\<close> bits and extended, is the integer again, as 64 bits.
\<close>

theorem sign_extend_recovers:
  assumes "0 < unat n" "unat n \<le> 64" "- (2 ^ (unat n - 1)) \<le> x" "x < 2 ^ (unat n - 1)"
  shows "sint (sign_extend (take_bit (unat n) (word_of_int x)) n) = x"
proof (cases "unat n = 64")
  case True
  then have "64 \<le> n" by (simp add: word_le_nat_alt)
  then have "sign_extend (take_bit (unat n) (word_of_int x)) n = word_of_int x"
    using True by (simp add: sign_extend_def take_bit_word_eq_self)
  moreover have "signed_take_bit 63 x = x"
    by (rule signed_take_bit_int_eq_self) (use True assms in simp_all)
  ultimately show ?thesis using True by (simp add: signed_of_int)
next
  case False
  with assms obtain m where m: "unat n = Suc m" "m < 63" by (cases "unat n") auto
  have n: "n \<noteq> 0" "\<not> 64 \<le> n" using m by (auto simp: word_le_nat_alt)
  let ?w = "take_bit (Suc m) (word_of_int x :: u64)"
  have sign: "?w AND push_bit m 1 \<noteq> 0 \<longleftrightarrow> bit (word_of_int x :: u64) m"
    using m(2) by (auto simp: and_exp_eq_0_iff_not_bit push_bit_of_1 bit_simps)
  let ?x = "word_of_int x :: u64"
  have mask: "push_bit (Suc m) (1 :: u64) - 1 = mask (Suc m)"
    by (simp add: mask_eq_exp_minus_1 push_bit_of_1)
  have "sign_extend ?w n = (if bit ?x m then ?w OR NOT (mask (Suc m)) else ?w)"
    unfolding sign_extend_def m(1) mask using n sign by simp
  also have "\<dots> = signed_take_bit m ?x"
  proof (rule bit_word_eqI)
    fix j assume "j < LENGTH(64)"
    then show "bit (if bit ?x m then ?w OR NOT (mask (Suc m)) else ?w) j = bit (signed_take_bit m ?x) j"
      using m(2) by (cases "j \<le> m"; cases "j = m")
        (auto simp: bit_signed_take_bit_iff bit_or_iff bit_not_iff bit_mask_iff bit_take_bit_iff min_def)
  qed
  finally have "sign_extend ?w n = signed_take_bit m ?x" .
  moreover have "signed_take_bit m (word_of_int x :: u64) = word_of_int x"
  proof (rule bit_word_eqI)
    fix j assume "j < LENGTH(64)"
    then have j: "j < 64" by simp
    have "signed_take_bit m x = x" using assms(3,4) m(1) by (simp add: signed_take_bit_int_eq_self)
    then have "bit x j = bit (signed_take_bit m x) j" by simp
    also have "\<dots> = bit x (min m j)" by (simp add: bit_signed_take_bit_iff min.commute)
    finally have eq: "bit x (min m j) = bit x j" by (rule sym)
    have "min m j < 64" using j by simp
    with eq j show "bit (signed_take_bit m (word_of_int x :: u64)) j = bit (word_of_int x :: u64) j"
      by (simp add: bit_signed_take_bit_iff bit_word_of_int_iff min.commute)
  qed
  moreover have "signed_take_bit 63 x = x"
  proof (rule signed_take_bit_int_eq_self)
    have "(2 :: int) ^ m \<le> 2 ^ 63" using m(2) by (intro power_increasing) simp_all
    then show "- (2 ^ 63) \<le> x" "x < 2 ^ 63" using assms(3,4) m(1) by simp_all
  qed
  ultimately have "sint (sign_extend ?w n) = x" by (simp only: signed_of_int) simp
  then show ?thesis using m(1) by simp
qed

theorem sign_extend_recovers_witness:
  "sint (sign_extend (take_bit 16 (word_of_int (- 300))) 16) = - 300"
  using sign_extend_recovers [of 16 "- 300"] by simp

section \<open>The declared layout\<close>

datatype pdo_problem =
    NotAMappingIndex u16
  | MappingMissing u16
  | SubMissing u16 byte
  | NoDefaultToMap u16 byte
  | NotANumber u16 byte
  | NotDeclared u16 byte u16 byte
  | NotMappable u16 byte u16 byte
  | WidthDiffers u16 byte byte u16 byte nat

record pdo_mapping_entry =
  pme_index :: u16
  pme_sub :: byte
  pme_bits :: byte
  pme_bitOffset :: byte
  pme_parameterName :: string

record pdo_mapping =
  pm_entries :: "pdo_mapping_entry list"
  pm_totalBits :: u16
  pm_problems :: "pdo_problem list"

definition lengthBytes :: "pdo_mapping \<Rightarrow> byte" where
  "lengthBytes m = of_nat ((unat (pm_totalBits m) + 7) div 8)"

definition is_rpdo_mapping_index :: "u16 \<Rightarrow> bool" where
  "is_rpdo_mapping_index i \<longleftrightarrow> 0x1600 \<le> i \<and> i \<le> 0x17FF"

definition is_tpdo_mapping_index :: "u16 \<Rightarrow> bool" where
  "is_tpdo_mapping_index i \<longleftrightarrow> 0x1A00 \<le> i \<and> i \<le> 0x1BFF"

definition is_pdo_mapping_index :: "u16 \<Rightarrow> bool" where
  "is_pdo_mapping_index i \<longleftrightarrow> is_rpdo_mapping_index i \<or> is_tpdo_mapping_index i"

definition communication_index_for_mapping :: "u16 \<Rightarrow> u16" where
  "communication_index_for_mapping i =
     (if is_rpdo_mapping_index i then i - 0x0200
      else if is_tpdo_mapping_index i then i - 0x0200
      else 0)"

text \<open>\<open>subs.size()\<close>.\<close>

definition subs_size :: "eds_object \<Rightarrow> nat" where
  "subs_size ob = length (filter (\<lambda>s. subs ob s \<noteq> None) (map of_nat [0..<256]))"

definition active_entries :: "eds_object \<Rightarrow> nat" where
  "active_entries ob =
     (case subs ob 0 of
        Some sub0 \<Rightarrow>
          (case defaultValue sub0 of
             Some (VUnsigned n) \<Rightarrow> unat n
           | _ \<Rightarrow> if 0 < subs_size ob then subs_size ob - 1 else 0)
      | None \<Rightarrow> if 0 < subs_size ob then subs_size ob - 1 else 0)"

text \<open>What one mapping word is checked against, and the name it gives the entry.\<close>

definition check_target :: "object_dictionary \<Rightarrow> u16 \<Rightarrow> byte \<Rightarrow> u16 \<Rightarrow> byte \<Rightarrow> byte \<Rightarrow> string \<times> pdo_problem list" where
  "check_target od mi s ti ts bits =
     (if ti = 0 then ('''', [])
      else case od_get_sub od ti ts of
             None \<Rightarrow> ('''', [NotDeclared mi s ti ts])
           | Some target \<Rightarrow>
               (parameterName target,
                (if \<not> pdoMappable target then [NotMappable mi s ti ts] else []) @
                (case data_type_bits (dataType target) of
                   None \<Rightarrow> []
                 | Some width \<Rightarrow> if width \<noteq> unat bits then [WidthDiffers mi s bits ti ts width] else [])))"

text \<open>The loop over the active positions; \<open>n\<close> of them are left, the next is \<open>position\<close>.\<close>

fun mapping_loop ::
  "object_dictionary \<Rightarrow> u16 \<Rightarrow> eds_object \<Rightarrow> nat \<Rightarrow> nat \<Rightarrow> byte \<Rightarrow> pdo_mapping \<Rightarrow> pdo_mapping" where
  "mapping_loop od mi ob 0 position bitOffset m = m"
| "mapping_loop od mi ob (Suc n) position bitOffset m =
     (let s = of_nat position in
      case subs ob s of
        None \<Rightarrow> m\<lparr>pm_problems := pm_problems m @ [SubMissing mi s]\<rparr>
      | Some e \<Rightarrow>
          (case defaultValue e of
             None \<Rightarrow> mapping_loop od mi ob n (Suc position) bitOffset
                       (m\<lparr>pm_problems := pm_problems m @ [NoDefaultToMap mi s]\<rparr>)
           | Some (VUnsigned w) \<Rightarrow>
               let ti = ucast (drop_bit 16 w AND 0xFFFF); ts = ucast (drop_bit 8 w AND 0xFF); bits = ucast (w AND 0xFF);
                   (nm, ps) = check_target od mi s ti ts bits
               in mapping_loop od mi ob n (Suc position) (bitOffset + bits)
                    (m\<lparr>pm_entries := pm_entries m @
                         [\<lparr>pme_index = ti, pme_sub = ts, pme_bits = bits, pme_bitOffset = bitOffset, pme_parameterName = nm\<rparr>],
                       pm_totalBits := pm_totalBits m + ucast bits,
                       pm_problems := pm_problems m @ ps\<rparr>)
           | Some _ \<Rightarrow> mapping_loop od mi ob n (Suc position) bitOffset
                       (m\<lparr>pm_problems := pm_problems m @ [NotANumber mi s]\<rparr>)))"

definition read_pdo_mapping :: "object_dictionary \<Rightarrow> u16 \<Rightarrow> pdo_mapping" where
  "read_pdo_mapping od mi =
     (let m = \<lparr>pm_entries = [], pm_totalBits = 0, pm_problems = []\<rparr> in
      if \<not> is_pdo_mapping_index mi then m\<lparr>pm_problems := [NotAMappingIndex mi]\<rparr>
      else case od_get od mi of
             None \<Rightarrow> m\<lparr>pm_problems := [MappingMissing mi]\<rparr>
           | Some ob \<Rightarrow> mapping_loop od mi ob (active_entries ob) 1 0 m)"

definition total_bits :: "pdo_mapping_entry list \<Rightarrow> nat" where
  "total_bits es = sum_list (map (\<lambda>e. unat (pme_bits e)) es)"

text \<open>Each entry starts where the ones before it end; the tot is their sum (in 8 and 16 bits).\<close>

definition layout_ok :: "pdo_mapping_entry list \<Rightarrow> byte \<Rightarrow> u16 \<Rightarrow> bool" where
  "layout_ok es next tot \<longleftrightarrow>
     (\<forall>j < length es. pme_bitOffset (es ! j) = of_nat (total_bits (take j es))) \<and>
     next = of_nat (total_bits es) \<and> tot = of_nat (total_bits es)"

lemma layout_ok_append:
  assumes "layout_ok es next tot" "pme_bitOffset e = next"
  shows "layout_ok (es @ [e]) (next + pme_bits e) (tot + ucast (pme_bits e))"
proof -
  have "of_nat (unat b) = (b :: byte)" "of_nat (unat b) = (ucast b :: u16)" for b :: byte
    by simp_all
  with assms show ?thesis
    by (auto simp: layout_ok_def total_bits_def nth_append less_Suc_eq)
qed

lemma mapping_loop_layout:
  assumes "layout_ok (pm_entries m) bitOffset (pm_totalBits m)"
  shows "\<exists>next. layout_ok (pm_entries (mapping_loop od mi ob n position bitOffset m)) next
    (pm_totalBits (mapping_loop od mi ob n position bitOffset m))"
  using assms
proof (induction n arbitrary: position bitOffset m)
  case 0
  then show ?case by auto
next
  case (Suc n)
  show ?case
  proof (cases "subs ob (of_nat position)")
    case None
    with Suc.prems show ?thesis by (auto simp: Let_def)
  next
    case (Some e)
    show ?thesis
    proof (cases "\<exists>x. defaultValue e = Some (VUnsigned x)")
      case True
      then obtain x where x: "defaultValue e = Some (VUnsigned x)" by blast
      obtain nm ps where t: "check_target od mi (of_nat position) (ucast (drop_bit 16 x AND 0xFFFF))
          (ucast (drop_bit 8 x AND 0xFF)) (ucast (x AND 0xFF)) = (nm, ps)" by fastforce
      with Some x show ?thesis
        using layout_ok_append [OF Suc.prems, of "\<lparr>pme_index = ucast (drop_bit 16 x AND 0xFFFF),
          pme_sub = ucast (drop_bit 8 x AND 0xFF), pme_bits = ucast (x AND 0xFF),
          pme_bitOffset = bitOffset, pme_parameterName = nm\<rparr>"]
        by (simp add: Let_def) (rule Suc.IH, simp)
    next
      case False
      with Some Suc show ?thesis
        by (cases "defaultValue e") (auto simp: Let_def split: eds_value.split)
    qed
  qed
qed

lemma read_pdo_mapping_layout:
  "\<exists>next. layout_ok (pm_entries (read_pdo_mapping od mi)) next (pm_totalBits (read_pdo_mapping od mi))"
proof -
  have init: "layout_ok [] 0 0" by (simp add: layout_ok_def total_bits_def)
  then show ?thesis
    using mapping_loop_layout [of "\<lparr>pm_entries = [], pm_totalBits = 0, pm_problems = []\<rparr>" 0]
    by (auto simp: read_pdo_mapping_def Let_def split: option.split)
qed

lemma total_bits_take_le: "total_bits (take j es) \<le> total_bits es"
  unfolding total_bits_def by (subst append_take_drop_id [of j es, symmetric]) (simp del: append_take_drop_id)

lemma total_bits_take_Suc:
  "j < length es \<Longrightarrow> total_bits (take (Suc j) es) = total_bits (take j es) + unat (pme_bits (es ! j))"
  by (simp add: total_bits_def take_Suc_conv_app_nth)

lemma total_bits_take_mono:
  assumes "j \<le> k"
  shows "total_bits (take j es) \<le> total_bits (take k es)"
  using total_bits_take_le [of j "take k es"] assms by (simp add: min_absorb1)

lemma layout_offset:
  assumes "layout_ok es next tot" "total_bits es < 256" "j < length es"
  shows "unat (pme_bitOffset (es ! j)) = total_bits (take j es)"
proof -
  have "total_bits (take j es) < 2 ^ LENGTH(8)"
    using total_bits_take_le [of j es] assms(2) by simp
  with assms(1,3) show ?thesis by (simp add: layout_ok_def unat_of_nat_small)
qed

text \<open>
  C40.  The declared layout of a PDO is a frame layout: when its entries fit the eight bytes of a
  classic frame, each entry reads back what was written through it, and writing one entry never
  changes another.
\<close>

theorem pdo_layout_fields:
  assumes "m = read_pdo_mapping od mi" "total_bits (pm_entries m) \<le> 64" "length data = 8"
    and "j < length (pm_entries m)" "e = pm_entries m ! j"
  shows "get_bits (set_bits data (pme_bitOffset e) (pme_bits e) v) (pme_bitOffset e) (pme_bits e)
      = take_bit (unat (pme_bits e)) v \<and>
    (\<forall>k < length (pm_entries m). k \<noteq> j \<longrightarrow>
      get_bits (set_bits data (pme_bitOffset e) (pme_bits e) v)
        (pme_bitOffset (pm_entries m ! k)) (pme_bits (pm_entries m ! k)) =
      get_bits data (pme_bitOffset (pm_entries m ! k)) (pme_bits (pm_entries m ! k)))"
proof -
  let ?es = "pm_entries m"
  obtain n where lay: "layout_ok ?es n (pm_totalBits m)"
    using read_pdo_mapping_layout [of od mi] assms(1) by auto
  have off: "unat (pme_bitOffset (?es ! k)) = total_bits (take k ?es)" if "k < length ?es" for k
    by (rule layout_offset [OF lay _ that]) (use assms(2) in simp)
  have fin: "unat (pme_bitOffset (?es ! k)) + unat (pme_bits (?es ! k)) = total_bits (take (Suc k) ?es)"
    if "k < length ?es" for k
    using off [OF that] total_bits_take_Suc [OF that] by simp
  have fits: "unat (pme_bitOffset e) + unat (pme_bits e) \<le> 64"
    using fin [OF assms(4)] total_bits_take_le [of "Suc j" ?es] assms(2,5) by simp
  have apart: "unat (pme_bitOffset (?es ! k)) + unat (pme_bits (?es ! k)) \<le> unat (pme_bitOffset e) \<or>
      unat (pme_bitOffset e) + unat (pme_bits e) \<le> unat (pme_bitOffset (?es ! k))"
    if k: "k < length ?es" "k \<noteq> j" for k
  proof (cases "k < j")
    case True
    then show ?thesis
      using fin [OF k(1)] off [OF assms(4)] total_bits_take_mono [of "Suc k" j ?es] assms(5) by simp
  next
    case False
    with k(2) show ?thesis
      using fin [OF assms(4)] off [OF k(1)] total_bits_take_mono [of "Suc j" k ?es] assms(5) by simp
  qed
  have same: "get_bits (set_bits data (pme_bitOffset e) (pme_bits e) v) (pme_bitOffset e) (pme_bits e)
      = take_bit (unat (pme_bits e)) v"
    by (rule get_bits_same) (use fits assms(3) in simp_all)
  show ?thesis
    using same get_bits_other [OF apart] by simp
qed

definition mapping_sub :: "byte \<Rightarrow> u64 \<Rightarrow> sub_object" where
  "mapping_sub s v = \<lparr>subIndex = s, parameterName = ''m'', sub_objectCode = OC_Var, dataType = Unsigned32,
     lowLimit = None, highLimit = None, access = RW, defaultValue = Some (VUnsigned v),
     pdoMappable = False, sub_objFlags = 0\<rparr>"

definition mapping_object :: eds_object where
  "mapping_object = \<lparr>obj_index = 0x1A00, obj_parameterName = ''TPDO1'', obj_objectCode = OC_Record,
     declaredSubNumber = Some 3, obj_objFlags = 0,
     subs = [0 \<mapsto> mapping_sub 0 2, 1 \<mapsto> mapping_sub 1 0x60000108, 2 \<mapsto> mapping_sub 2 0x20100210]\<rparr>"

definition mapping_od :: object_dictionary where
  "mapping_od = \<lparr>lssSupported = False, supportedBitrates = (\<lambda>_. None),
     objects = [0x1A00 \<mapsto> mapping_object]\<rparr>"

lemma mapping_object_active: "active_entries mapping_object = Suc (Suc 0)"
  by (simp add: active_entries_def mapping_object_def mapping_sub_def)

lemma mapping_object_subs:
  "subs mapping_object 1 = Some (mapping_sub 1 0x60000108)" "subs mapping_object 2 = Some (mapping_sub 2 0x20100210)"
  by (simp_all add: mapping_object_def)

lemma mapping_od_entries:
  "pm_entries (read_pdo_mapping mapping_od 0x1A00) =
    [\<lparr>pme_index = 0x6000, pme_sub = 1, pme_bits = 8, pme_bitOffset = 0, pme_parameterName = ''''\<rparr>,
     \<lparr>pme_index = 0x2010, pme_sub = 2, pme_bits = 16, pme_bitOffset = 8, pme_parameterName = ''''\<rparr>]"
  by (simp add: read_pdo_mapping_def is_pdo_mapping_index_def is_tpdo_mapping_index_def Let_def
    mapping_od_def od_get_def od_get_sub_def mapping_object_active mapping_object_subs mapping_sub_def
    check_target_def)

theorem pdo_layout_fields_witness:
  "get_bits (set_bits (replicate 8 0) 8 16 0x1234) 8 16 = take_bit 16 0x1234"
  using pdo_layout_fields [OF refl, of mapping_od "0x1A00" "replicate 8 0" 1 _ "0x1234", OF _ _ _ refl]
  by (simp add: mapping_od_entries total_bits_def)

end
