(* ===== verification/Csm.thy ===== *)
theory Csm
  imports Prelude
begin

text \<open>
  libs/iap2/csm.cpp: the control session message codec.  A message is a header (start marker,
  total length, message id) and a flat list of parameters, each with its own length and id.
  Everything is big-endian (byte_order.h).  Log lines are not modelled.
\<close>

section \<open>Definitions\<close>

definition put_be16 :: "u16 \<Rightarrow> byte list" where
  "put_be16 w = [hi8 w, lo8 w]"

definition get_be16 :: "byte list \<Rightarrow> nat \<Rightarrow> u16" where
  "get_be16 bs i = join16 (bs ! i) (bs ! (i + 1))"

abbreviation (input) "kCsmStart \<equiv> 0x4040 :: u16"
abbreviation (input) "kCsmHeaderSize \<equiv> 6 :: nat"
abbreviation (input) "kCsmParamHeaderSize \<equiv> 4 :: nat"

record param =
  param_id :: u16
  param_data :: "byte list"

record message =
  msg_id :: u16
  msg_params :: "param list"

fun encodeParams :: "param list \<Rightarrow> byte list" where
  "encodeParams [] = []"
| "encodeParams (p # ps) =
     (let n = length (param_data p) + kCsmParamHeaderSize in
      if 0xFFFF < n then encodeParams ps
      else put_be16 (of_nat n) @ put_be16 (param_id p) @ param_data p @ encodeParams ps)"

definition encodeMessage :: "u16 \<Rightarrow> param list \<Rightarrow> byte list" where
  "encodeMessage i ps =
     (let body = encodeParams ps; n = length body + kCsmHeaderSize in
      if 0xFFFF < n then []
      else put_be16 kCsmStart @ put_be16 (of_nat n) @ put_be16 i @ body)"

text \<open>The loop over the parameter area, from the current offset on.\<close>

function parseParams :: "byte list \<Rightarrow> param list option" where
  "parseParams bs =
     (if bs = [] then Some []
      else if length bs < kCsmParamHeaderSize then None
      else
        let n = unat (get_be16 bs 0) in
        if n < kCsmParamHeaderSize \<or> length bs < n then None
        else map_option ((#) \<lparr>param_id = get_be16 bs 2, param_data = take (n - 4) (drop 4 bs)\<rparr>)
               (parseParams (drop n bs)))"
  by auto
termination
  by (relation "measure length") auto

declare parseParams.simps [simp del]

definition parseMessage :: "byte list \<Rightarrow> message option" where
  "parseMessage bs =
     (if length bs < kCsmHeaderSize then None
      else if get_be16 bs 0 \<noteq> kCsmStart then None
      else
        let n = unat (get_be16 bs 2) in
        if n < kCsmHeaderSize \<or> length bs < n then None
        else case parseParams (take (n - kCsmHeaderSize) (drop kCsmHeaderSize bs)) of
               None \<Rightarrow> None
             | Some ps \<Rightarrow> Some \<lparr>msg_id = get_be16 bs 4, msg_params = ps\<rparr>)"

definition peekLength :: "byte list \<Rightarrow> nat option" where
  "peekLength bs =
     (if length bs < kCsmHeaderSize then None
      else if get_be16 bs 0 \<noteq> kCsmStart then Some 0
      else let n = unat (get_be16 bs 2) in if n < kCsmHeaderSize then Some 0 else Some n)"

fun find_param :: "param list \<Rightarrow> u16 \<Rightarrow> param option" where
  "find_param [] i = None"
| "find_param (p # ps) i = (if param_id p = i then Some p else find_param ps i)"

definition has_param :: "param list \<Rightarrow> u16 \<Rightarrow> bool" where
  "has_param ps i \<longleftrightarrow> find_param ps i \<noteq> None"

text \<open>A value of \<open>sizeof(T)\<close> bytes, most significant first, and its reader.\<close>

definition be_bytes :: "'a::len word \<Rightarrow> byte list" where
  "be_bytes v = rev (map (\<lambda>i. ucast (drop_bit (8 * i) v)) [0..<LENGTH('a) div 8])"

definition be_value :: "byte list \<Rightarrow> 'a::len word" where
  "be_value bs = foldl (\<lambda>v b. ucast (push_bit 8 (ucast v :: u64) OR ucast b)) 0 bs"

definition addBigEndian :: "param list \<Rightarrow> u16 \<Rightarrow> 'a::len word \<Rightarrow> param list" where
  "addBigEndian ps i v = ps @ [\<lparr>param_id = i, param_data = be_bytes v\<rparr>]"

definition getBigEndian :: "param list \<Rightarrow> u16 \<Rightarrow> 'a::len word option" where
  "getBigEndian ps i =
     (case find_param ps i of
        None \<Rightarrow> None
      | Some p \<Rightarrow> if length (param_data p) \<noteq> LENGTH('a) div 8 then None else Some (be_value (param_data p)))"

definition addBytes :: "param list \<Rightarrow> u16 \<Rightarrow> byte list \<Rightarrow> param list" where
  "addBytes ps i bs = ps @ [\<lparr>param_id = i, param_data = bs\<rparr>]"

definition addNone :: "param list \<Rightarrow> u16 \<Rightarrow> param list" where
  "addNone ps i = addBytes ps i []"

definition addBool :: "param list \<Rightarrow> u16 \<Rightarrow> bool \<Rightarrow> param list" where
  "addBool ps i v = addBytes ps i [if v then 1 else 0]"

definition addString :: "param list \<Rightarrow> u16 \<Rightarrow> byte list \<Rightarrow> param list" where
  "addString ps i s = addBytes ps i (s @ [0])"

definition addGroup :: "param list \<Rightarrow> u16 \<Rightarrow> param list \<Rightarrow> param list" where
  "addGroup ps i g = addBytes ps i (encodeParams g)"

definition getBytes :: "param list \<Rightarrow> u16 \<Rightarrow> byte list option" where
  "getBytes ps i = map_option param_data (find_param ps i)"

definition getBool :: "param list \<Rightarrow> u16 \<Rightarrow> bool option" where
  "getBool ps i =
     (case find_param ps i of
        None \<Rightarrow> None
      | Some p \<Rightarrow> if param_data p = [] then None else Some (param_data p ! 0 \<noteq> 0))"

definition getString :: "param list \<Rightarrow> u16 \<Rightarrow> byte list option" where
  "getString ps i =
     (case find_param ps i of
        None \<Rightarrow> None
      | Some p \<Rightarrow>
          let n = length (param_data p) in
          Some (take (if 0 < n \<and> param_data p ! (n - 1) = 0 then n - 1 else n) (param_data p)))"

definition getGroup :: "param list \<Rightarrow> u16 \<Rightarrow> param list option" where
  "getGroup ps i =
     (case find_param ps i of None \<Rightarrow> None | Some p \<Rightarrow> parseParams (param_data p))"

section \<open>One parameter\<close>

definition param_ok :: "param \<Rightarrow> bool" where
  "param_ok p \<longleftrightarrow> length (param_data p) + 4 \<le> 0xFFFF"

definition enc_param :: "param \<Rightarrow> byte list" where
  "enc_param p = put_be16 (of_nat (length (param_data p) + 4)) @ put_be16 (param_id p) @ param_data p"

definition dec_param :: "byte list \<Rightarrow> (param \<times> byte list) option" where
  "dec_param bs =
     (if length bs < 4 then None
      else let n = unat (get_be16 bs 0) in
        if n < 4 \<or> length bs < n then None
        else Some (\<lparr>param_id = get_be16 bs 2, param_data = take (n - 4) (drop 4 bs)\<rparr>, drop n bs))"

lemma get_put_be16 [simp]:
  "get_be16 (put_be16 w @ bs) 0 = w" "get_be16 (put_be16 w @ bs) (Suc (Suc i)) = get_be16 bs i"
  "length (put_be16 w) = 2"
  by (simp_all add: get_be16_def put_be16_def)

lemma get_put_be16_numeral [simp]:
  "get_be16 (put_be16 w @ bs) 2 = get_be16 bs 0" "get_be16 (put_be16 w @ bs) 4 = get_be16 bs 2"
  by (simp_all add: get_be16_def put_be16_def)

lemma drop_put_be16 [simp]: "drop (Suc (Suc n)) (put_be16 w @ bs) = drop n bs"
  by (simp add: put_be16_def)

lemma put_be16_get: "2 \<le> length bs \<Longrightarrow> put_be16 (get_be16 bs 0) @ drop 2 bs = bs"
  by (cases bs; cases "tl bs") (auto simp: put_be16_def get_be16_def)

lemma dec_enc_param:
  assumes "param_ok p"
  shows "dec_param (enc_param p @ rest) = Some (p, rest)"
proof -
  have n: "unat (of_nat (length (param_data p) + 4) :: u16) = length (param_data p) + 4"
    using assms by (intro unat_of_nat_small) (simp add: param_ok_def)
  have drop4: "drop 4 (enc_param p @ rest) = param_data p @ rest"
    by (simp add: enc_param_def put_be16_def)
  have "drop (length (param_data p) + 4) (enc_param p @ rest) = rest"
    by (simp add: enc_param_def)
  then show ?thesis
    unfolding dec_param_def using n drop4 by (simp add: enc_param_def Let_def)
qed

lemma parseParams_step:
  "bs \<noteq> [] \<Longrightarrow> dec_param bs = Some (p, r) \<Longrightarrow> parseParams bs = map_option ((#) p) (parseParams r)"
  by (subst parseParams.simps) (auto simp: dec_param_def Let_def split: if_splits)

lemma parseParams_fail: "bs \<noteq> [] \<Longrightarrow> dec_param bs = None \<Longrightarrow> parseParams bs = None"
  by (subst parseParams.simps) (auto simp: dec_param_def Let_def split: if_splits)

interpretation csm_params: prefix_stream enc_param dec_param param_ok parseParams
proof unfold_locales
  show "parseParams [] = Some []" by (simp add: parseParams.simps)
  show "bs \<noteq> [] \<Longrightarrow> dec_param bs = Some (x, r) \<Longrightarrow> parseParams bs = map_option ((#) x) (parseParams r)"
    for bs x r by (rule parseParams_step)
  show "param_ok x \<Longrightarrow> enc_param x \<noteq> []" for x by (simp add: enc_param_def put_be16_def)
qed (rule dec_enc_param)

lemma encodeParams_concat: "list_all param_ok ps \<Longrightarrow> encodeParams ps = concat (map enc_param ps)"
  by (induction ps) (auto simp: param_ok_def enc_param_def Let_def)

lemma parse_encodeParams: "list_all param_ok ps \<Longrightarrow> parseParams (encodeParams ps) = Some ps"
  by (simp add: encodeParams_concat csm_params.many_concat)

lemma enc_dec_param:
  assumes "dec_param bs = Some (p, r)"
  shows "param_ok p \<and> bs = enc_param p @ r"
proof -
  let ?n = "unat (get_be16 bs 0)"
  from assms have n: "4 \<le> length bs" "4 \<le> ?n" "?n \<le> length bs" and r: "r = drop ?n bs"
    and p: "param_id p = get_be16 bs 2" "param_data p = take (?n - 4) (drop 4 bs)"
    by (auto simp: dec_param_def Let_def split: if_splits)
  have len: "length (param_data p) + 4 = ?n" using n p(2) by simp
  have "of_nat (length (param_data p) + 4) = get_be16 bs 0" by (simp only: len of_nat_unat ucast_id)
  moreover have "put_be16 (get_be16 bs 2) @ drop 4 bs = drop 2 bs"
    using put_be16_get [of "drop 2 bs"] n(1) by (simp add: get_be16_def)
  moreover have "param_data p @ r = drop 4 bs"
    using n(2) unfolding p(2) r by (metis append_take_drop_id drop_drop le_add_diff_inverse2)
  moreover have "put_be16 (get_be16 bs 0) @ drop 2 bs = bs" using put_be16_get n(1) by simp
  ultimately have "enc_param p @ r = bs" by (simp add: enc_param_def p(1))
  moreover have "param_ok p" using len unat_bound [of "get_be16 bs 0"] by (simp add: param_ok_def)
  ultimately show ?thesis by simp
qed

lemma encode_parseParams:
  "parseParams bs = Some ps \<Longrightarrow> list_all param_ok ps \<and> encodeParams ps = bs"
proof (induction bs arbitrary: ps rule: parseParams.induct)
  case (1 bs)
  show ?case
  proof (cases "bs = []")
    case True
    with "1.prems" show ?thesis by (simp add: parseParams.simps)
  next
    case False
    show ?thesis
    proof (cases "dec_param bs")
      case None
      with False "1.prems" parseParams_fail show ?thesis by simp
    next
      case (Some x)
      obtain p r where x: "x = (p, r)" by fastforce
      from enc_dec_param [of bs p r] Some x have p: "param_ok p" "bs = enc_param p @ r" by simp_all
      from parseParams_step [OF False, of p r] Some x "1.prems" obtain qs where
        qs: "parseParams r = Some qs" "ps = p # qs" by (cases "parseParams r") auto
      have r: "r = drop (unat (get_be16 bs 0)) bs" and c: "\<not> length bs < 4"
        "\<not> (unat (get_be16 bs 0) < 4 \<or> length bs < unat (get_be16 bs 0))"
        using Some x by (auto simp: dec_param_def Let_def split: if_splits)
      have "list_all param_ok qs \<and> encodeParams qs = r"
        using "1.IH" [OF False c(1) refl c(2)] qs(1) r by simp
      moreover have "\<not> 0xFFFF < length (param_data p) + 4" using p(1) by (simp add: param_ok_def)
      ultimately show ?thesis using p qs by (simp add: enc_param_def Let_def)
    qed
  qed
qed

section \<open>Whole messages\<close>

text \<open>The parameters of a message fit: each one, and all of them with the header.\<close>

definition message_fits :: "param list \<Rightarrow> bool" where
  "message_fits ps \<longleftrightarrow> list_all param_ok ps \<and> length (encodeParams ps) + 6 \<le> 0xFFFF"

lemma encodeMessage_shape:
  assumes "message_fits ps"
  shows "encodeMessage i ps = put_be16 0x4040 @ put_be16 (of_nat (length (encodeParams ps) + 6)) @ put_be16 i @ encodeParams ps"
    and "unat (of_nat (length (encodeParams ps) + 6) :: u16) = length (encodeParams ps) + 6"
proof -
  show "unat (of_nat (length (encodeParams ps) + 6) :: u16) = length (encodeParams ps) + 6"
    by (rule unat_of_nat_small) (use assms in \<open>simp add: message_fits_def\<close>)
qed (use assms in \<open>simp add: encodeMessage_def message_fits_def Let_def\<close>)

lemma encodeMessage_parses:
  assumes "message_fits ps"
  shows "parseMessage (encodeMessage i ps @ rest) = Some \<lparr>msg_id = i, msg_params = ps\<rparr> \<and>
    peekLength (encodeMessage i ps @ rest) = Some (length (encodeMessage i ps))"
proof -
  let ?body = "encodeParams ps"
  note shape = encodeMessage_shape(1) [OF assms, of i] and n = encodeMessage_shape(2) [OF assms]
  have drop6: "drop 6 (encodeMessage i ps @ rest) = ?body @ rest"
    by (simp add: shape put_be16_def)
  have get: "get_be16 (encodeMessage i ps @ rest) 0 = 0x4040"
    "get_be16 (encodeMessage i ps @ rest) 2 = of_nat (length ?body + 6)"
    "get_be16 (encodeMessage i ps @ rest) 4 = i"
    "length (encodeMessage i ps) = length ?body + 6"
    by (simp_all add: shape)
  have "parseParams ?body = Some ps" using assms by (simp add: message_fits_def parse_encodeParams)
  then have "parseMessage (encodeMessage i ps @ rest) = Some \<lparr>msg_id = i, msg_params = ps\<rparr>"
    unfolding parseMessage_def Let_def get drop6 n by (simp add: get(4))
  moreover have "peekLength (encodeMessage i ps @ rest) = Some (length ?body + 6)"
    unfolding peekLength_def Let_def get n by (simp add: get(4))
  ultimately show ?thesis by (simp add: get(4))
qed

text \<open>
  C37.  A control session message survives the wire: parsing an encoded message gives back its id
  and its parameters, in order and with repeated ids kept, whatever bytes follow it in the
  buffer; and \<open>peekLength\<close> announces exactly the bytes it occupies.
\<close>

theorem csm_message_roundtrip:
  assumes "message_fits ps"
  shows "parseMessage (encodeMessage i ps @ rest) = Some \<lparr>msg_id = i, msg_params = ps\<rparr> \<and>
    peekLength (encodeMessage i ps @ rest) = Some (length (encodeMessage i ps))"
  by (rule encodeMessage_parses [OF assms])

theorem csm_message_roundtrip_witness:
  "parseMessage (encodeMessage 0x1D00 [\<lparr>param_id = 1, param_data = [7]\<rparr>, \<lparr>param_id = 1, param_data = []\<rparr>] @ [9]) =
    Some \<lparr>msg_id = 0x1D00, msg_params = [\<lparr>param_id = 1, param_data = [7]\<rparr>, \<lparr>param_id = 1, param_data = []\<rparr>]\<rparr>"
  using csm_message_roundtrip [of "[\<lparr>param_id = 1, param_data = [7]\<rparr>, \<lparr>param_id = 1, param_data = []\<rparr>]" "0x1D00" "[9]"]
  by (simp add: message_fits_def param_ok_def Let_def)

text \<open>
  The parser accepts nothing but encoded messages: a buffer that parses starts with exactly
  the encoding of what was read, so no malformed length or truncated parameter gets through, and
  a message has one encoding only.
\<close>

theorem csm_parse_sound:
  assumes "parseMessage bs = Some m"
  shows "message_fits (msg_params m) \<and> (\<exists>rest. bs = encodeMessage (msg_id m) (msg_params m) @ rest)"
proof -
  let ?n = "unat (get_be16 bs 2)"
  from assms have n: "6 \<le> length bs" "get_be16 bs 0 = 0x4040" "6 \<le> ?n" "?n \<le> length bs"
    and ps: "parseParams (take (?n - 6) (drop 6 bs)) = Some (msg_params m)" and i: "msg_id m = get_be16 bs 4"
    by (auto simp: parseMessage_def Let_def split: if_splits option.splits)
  let ?body = "take (?n - 6) (drop 6 bs)"
  from encode_parseParams [OF ps] have enc: "list_all param_ok (msg_params m)" "encodeParams (msg_params m) = ?body" by simp_all
  have len: "length (encodeParams (msg_params m)) + 6 = ?n" using enc n by simp
  have fits: "message_fits (msg_params m)"
    using enc(1) len unat_bound [of "get_be16 bs 2"] by (simp add: message_fits_def)
  have "of_nat (length (encodeParams (msg_params m)) + 6) = get_be16 bs 2" by (simp only: len of_nat_unat ucast_id)
  then have head: "encodeMessage (msg_id m) (msg_params m) =
      put_be16 (get_be16 bs 0) @ put_be16 (get_be16 bs 2) @ put_be16 (get_be16 bs 4) @ ?body"
    using encodeMessage_shape(1) [OF fits] enc(2) i n(2) by simp
  have b4: "put_be16 (get_be16 bs 4) @ drop 6 bs = drop 4 bs"
    using put_be16_get [of "drop 4 bs"] n(1) by (simp add: get_be16_def)
  have b2: "put_be16 (get_be16 bs 2) @ drop 4 bs = drop 2 bs"
    using put_be16_get [of "drop 2 bs"] n(1) by (simp add: get_be16_def)
  have b0: "put_be16 (get_be16 bs 0) @ drop 2 bs = bs" using put_be16_get [of bs] n(1) by simp
  have "encodeMessage (msg_id m) (msg_params m) @ drop (?n - 6) (drop 6 bs) =
      put_be16 (get_be16 bs 0) @ put_be16 (get_be16 bs 2) @ put_be16 (get_be16 bs 4) @ drop 6 bs"
    unfolding head append_assoc append_take_drop_id ..
  also have "\<dots> = bs" using b4 b2 b0 by simp
  finally show ?thesis using fits by metis
qed

theorem csm_parse_sound_witness:
  "\<exists>rest. [0x40, 0x40, 0, 11, 0x1D, 0, 0, 5, 0, 1, 7, 9] =
    encodeMessage 0x1D00 [\<lparr>param_id = 1, param_data = [7]\<rparr>] @ rest"
proof -
  have "parseMessage [0x40, 0x40, 0, 11, 0x1D, 0, 0, 5, 0, 1, 7, 9] =
      Some \<lparr>msg_id = 0x1D00, msg_params = [\<lparr>param_id = 1, param_data = [7]\<rparr>]\<rparr>"
    by (simp add: parseMessage_def get_be16_def join16_def parseParams.simps [of "[0, 5, 0, 1, 7]"] parseParams.simps [of "[]"])
  from csm_parse_sound [OF this] show ?thesis by simp
qed

section \<open>Typed parameters\<close>

lemma find_param_append:
  "find_param (ps @ qs) i = (case find_param ps i of Some p \<Rightarrow> Some p | None \<Rightarrow> find_param qs i)"
  by (induction ps) auto

lemma bit_be_value:
  fixes v :: "'a::len word" and bs :: "byte list"
  assumes "LENGTH('a) \<le> 64"
  shows "bit (foldl (\<lambda>v b. ucast (push_bit 8 (ucast v :: u64) OR ucast b)) v bs :: 'a word) j \<longleftrightarrow>
    j < LENGTH('a) \<and> (if j < 8 * length bs then bit (bs ! (length bs - Suc (j div 8))) (j mod 8)
      else bit v (j - 8 * length bs))"
proof (induction bs arbitrary: j rule: rev_induct)
  case Nil
  show ?case using bit_imp_le_length [of v j] by auto
next
  case (snoc b bs)
  let ?w = "foldl (\<lambda>v b. ucast (push_bit 8 (ucast v :: u64) OR ucast b)) v bs"
  have step: "bit (ucast (push_bit 8 (ucast ?w :: u64) OR ucast b) :: 'a word) j \<longleftrightarrow>
      j < LENGTH('a) \<and> (if j < 8 then bit b j else bit ?w (j - 8))"
    using assms bit_imp_le_length [of b j] bit_imp_le_length [of ?w "j - 8"] by (auto simp: bit_simps)
  show ?case
  proof (cases "j < 8")
    case True
    then show ?thesis using step by (simp add: nth_append)
  next
    case False
    then have d: "(j - 8) div 8 = j div 8 - 1" "(j - 8) mod 8 = j mod 8" "0 < j div 8"
      by (simp_all add: le_div_geq le_mod_geq)
    have lt: "j - 8 < 8 * length bs \<longleftrightarrow> j < 8 * length (bs @ [b])" using False by auto
    have idx: "(bs @ [b]) ! (length (bs @ [b]) - Suc (j div 8)) = bs ! (length bs - Suc ((j - 8) div 8))"
      if "j - 8 < 8 * length bs"
    proof -
      from that have "(j - 8) div 8 < length bs" by (simp add: less_mult_imp_div_less mult.commute)
      moreover from this d(3) have "length bs - j div 8 < length bs" by linarith
      ultimately show ?thesis using d by (simp add: nth_append)
    qed
    show ?thesis
      using step False snoc.IH [of "j - 8"] d lt idx by (auto simp: diff_diff_left add.commute)
  qed
qed

lemma be_value_be_bytes:
  assumes "LENGTH('a::len) \<le> 64" "LENGTH('a) = 8 * (LENGTH('a) div 8)"
  shows "be_value (be_bytes (v :: 'a word)) = v"
proof (rule bit_word_eqI)
  fix j assume j: "j < LENGTH('a)"
  let ?k = "LENGTH('a) div 8"
  have lt: "j div 8 < ?k" using j assms(2) by auto
  have "be_bytes v ! (?k - Suc (j div 8)) = ucast (drop_bit (8 * (j div 8)) v)"
    using lt by (simp add: be_bytes_def rev_nth)
  with j lt assms show "bit (be_value (be_bytes v) :: 'a word) j = bit v j"
    using bit_be_value [of "0 :: 'a word" "be_bytes v" j] assms
    by (auto simp: be_value_def be_bytes_def bit_simps)
qed

text \<open>
  A typed parameter reads back: the first parameter of an id added as a 64-bit number is
  the number that the reader of that width returns, and a group added under an id is the group
  read under it.
\<close>

theorem csm_typed_roundtrip:
  assumes "\<not> has_param ps i" "list_all param_ok g"
  shows "getBigEndian (addBigEndian ps i (v :: u64)) i = Some v \<and>
    getBigEndian (addBigEndian ps i (x :: u16)) i = Some x \<and>
    getString (addString ps i s) i = Some s \<and> getBool (addBool ps i b) i = Some b \<and>
    getGroup (addGroup ps i g) i = Some g \<and> getBytes (addBytes ps i bs) i = Some bs"
proof -
  from assms(1) have none: "find_param ps i = None" by (simp add: has_param_def)
  show ?thesis
    using none assms(2) be_value_be_bytes [of v] be_value_be_bytes [of x]
    by (simp add: getBigEndian_def addBigEndian_def find_param_append be_bytes_def getString_def addString_def
      addBytes_def getBool_def addBool_def getGroup_def addGroup_def parse_encodeParams getBytes_def
      nth_append Let_def)
qed

theorem csm_typed_roundtrip_witness:
  "getBigEndian (addBigEndian [\<lparr>param_id = 2, param_data = []\<rparr>] 1 (0x123456789 :: u64)) 1 = Some (0x123456789 :: u64)"
  using csm_typed_roundtrip [of "[\<lparr>param_id = 2, param_data = []\<rparr>]" 1 "[]" "0x123456789"]
  by (simp add: has_param_def)

end
