(* ===== verification/LinkLayer.thy ===== *)
theory LinkLayer
  imports Csm
begin

text \<open>
  libs/iap2/link_layer.cpp: the iAP2 link.  Packets carry 8-bit sequence numbers; the link
  negotiates its parameters, keeps a window of unacknowledged packets, retransmits them by timer
  or on request, puts received packets back in sequence and hands their payloads to the sessions.

  The transport is \<open>ll_transport\<close>: whether a write of a buffer succeeds, given what was written
  before; \<open>ll_wire\<close> records the writes that did.  The clock stands still within one call, at
  \<open>ll_now\<close>.  The callbacks are recorded as calls; a callback that calls back into the link is not
  modelled, nor are log lines.
\<close>

section \<open>Checksums and packets\<close>

abbreviation (input) "kControlSyn \<equiv> 0x80 :: byte"
abbreviation (input) "kControlAck \<equiv> 0x40 :: byte"
abbreviation (input) "kControlEak \<equiv> 0x20 :: byte"
abbreviation (input) "kControlRst \<equiv> 0x10 :: byte"
abbreviation (input) "kLinkPacketStart \<equiv> 0xFF5A :: u16"
abbreviation (input) "kLinkHeaderSize \<equiv> 9 :: nat"
abbreviation (input) "kControlSessionId \<equiv> 10 :: byte"
abbreviation (input) "kExternalAccessorySessionId \<equiv> 11 :: byte"
abbreviation (input) "kFileTransferSessionId \<equiv> 12 :: byte"

definition kIap2Marker :: "byte list" where
  "kIap2Marker = [0xFF, 0x55, 0x02, 0x00, 0xEE, 0x10]"

definition byte_sum :: "byte list \<Rightarrow> byte" where
  "byte_sum bs = foldl (+) 0 bs"

definition genChecksum :: "byte list \<Rightarrow> byte" where
  "genChecksum bs = - byte_sum bs"

definition checkChecksum :: "byte list \<Rightarrow> bool" where
  "checkChecksum bs \<longleftrightarrow> byte_sum bs = 0"

definition sequenceDistance :: "byte \<Rightarrow> int \<Rightarrow> byte" where
  "sequenceDistance a b =
     (if b < 0 then 0 else word_of_int (if b \<le> uint a then uint a - b else uint a + 256 - b))"

lemma sequenceDistance_word: "sequenceDistance a (uint b) = a - b"
proof -
  have "word_of_int (uint a - uint b) = a - b" by (simp flip: wi_hom_sub)
  moreover have "word_of_int (uint a + 256 - uint b) = a - b"
    by (simp flip: wi_hom_sub wi_hom_add)
  ultimately show ?thesis by (simp add: sequenceDistance_def)
qed

record link_header =
  lh_length :: u16
  lh_control :: byte
  lh_seq :: byte
  lh_ack :: byte
  lh_session :: byte

definition pack_header :: "link_header \<Rightarrow> byte list" where
  "pack_header h =
     (let out = put_be16 kLinkPacketStart @ put_be16 (lh_length h) @
                [lh_control h, lh_seq h, lh_ack h, lh_session h]
      in out @ [genChecksum out])"

definition parse_header :: "byte list \<Rightarrow> link_header option" where
  "parse_header bs =
     (if length bs < kLinkHeaderSize then None
      else if get_be16 bs 0 \<noteq> kLinkPacketStart then None
      else if \<not> checkChecksum (take kLinkHeaderSize bs) then None
      else Some \<lparr>lh_length = get_be16 bs 2, lh_control = bs ! 4, lh_seq = bs ! 5,
                 lh_ack = bs ! 6, lh_session = bs ! 7\<rparr>)"

section \<open>Link parameters\<close>

record link_session =
  ls_id :: byte
  ls_type :: byte
  ls_version :: byte

record link_sync =
  max_outgoing :: byte
  max_len :: u16
  retransmission_timeout :: u16
  ack_timeout :: u16
  max_retransmissions :: byte
  max_ack :: byte
  lsp_sessions :: "link_session list"

definition pack_sync :: "link_sync \<Rightarrow> byte list" where
  "pack_sync s =
     [1, max_outgoing s] @ put_be16 (max_len s) @ put_be16 (retransmission_timeout s) @
     put_be16 (ack_timeout s) @ [max_retransmissions s, max_ack s] @
     concat (map (\<lambda>x. [ls_id x, ls_type x, ls_version x]) (lsp_sessions s))"

fun parse_sessions :: "byte list \<Rightarrow> link_session list" where
  "parse_sessions (a # b # c # rest) = \<lparr>ls_id = a, ls_type = b, ls_version = c\<rparr> # parse_sessions rest"
| "parse_sessions _ = []"

definition parse_sync :: "byte list \<Rightarrow> link_sync option" where
  "parse_sync bs =
     (if length bs < 10 then None
      else if bs ! 0 \<noteq> 1 then None
      else Some \<lparr>max_outgoing = bs ! 1, max_len = get_be16 bs 2, retransmission_timeout = get_be16 bs 4,
                 ack_timeout = get_be16 bs 6, max_retransmissions = bs ! 8, max_ack = bs ! 9,
                 lsp_sessions = parse_sessions (drop 10 bs)\<rparr>)"

record link_config =
  cfg_max_outgoing :: byte
  zero_ack :: bool
  control_version :: byte
  initiate_negotiate :: bool
  ack_timeout_ms :: u16
  max_outgoing_delta :: byte

definition initial_sync :: "link_config \<Rightarrow> link_sync" where
  "initial_sync c =
     \<lparr>max_outgoing = cfg_max_outgoing c, max_len = 65535,
      retransmission_timeout = (if zero_ack c then 0 else 4000),
      ack_timeout = (if zero_ack c then 0 else ack_timeout_ms c),
      max_retransmissions = (if zero_ack c then 0 else 4), max_ack = (if zero_ack c then 0 else 3),
      lsp_sessions = [\<lparr>ls_id = kControlSessionId, ls_type = 0, ls_version = control_version c\<rparr>,
        \<lparr>ls_id = kExternalAccessorySessionId, ls_type = 2, ls_version = 1\<rparr>,
        \<lparr>ls_id = kFileTransferSessionId, ls_type = 1, ls_version = 2\<rparr>]\<rparr>"

section \<open>The sessions above the link\<close>

record sessions =
  control_rx :: "byte list"
  control_queue :: "byte list list"
  control_handler :: bool
  control_calls :: "byte list list"
  file_handler :: bool
  file_calls :: "byte list list"
  accessory_handler :: bool
  accessory_calls :: "(u16 \<times> byte list) list"

text \<open>The loop of \<open>parseControlSession\<close>: the unconsumed bytes and the messages found.\<close>

function split_control :: "byte list \<Rightarrow> byte list \<times> byte list list" where
  "split_control bs =
     (case peekLength bs of
        None \<Rightarrow> (bs, [])
      | Some n \<Rightarrow>
          if n = 0 then split_control (tl bs)
          else if length bs < n then (bs, [])
          else (let (r, ms) = split_control (drop n bs) in (r, take n bs # ms)))"
  by pat_completeness auto
termination
  by (relation "measure length") (auto simp: peekLength_def Let_def split: if_splits)

declare split_control.simps [simp del]

abbreviation (input) "kMaxControlBuffer \<equiv> 1048576 :: nat"

definition parseControlSession :: "sessions \<Rightarrow> sessions" where
  "parseControlSession s =
     (let (r, ms) = split_control (control_rx s)
      in s\<lparr>control_queue := control_queue s @ ms,
           control_rx := (if kMaxControlBuffer < length r then [] else r)\<rparr>)"

definition deliver :: "byte list \<Rightarrow> byte \<Rightarrow> sessions \<Rightarrow> sessions" where
  "deliver payload sid s =
     (if sid = kControlSessionId then parseControlSession (s\<lparr>control_rx := control_rx s @ payload\<rparr>)
      else if sid = kExternalAccessorySessionId then
        (if length payload < 2 then s
         else if accessory_handler s
           then s\<lparr>accessory_calls := accessory_calls s @ [(get_be16 payload 0, drop 2 payload)]\<rparr>
         else s)
      else if sid = kFileTransferSessionId then
        (if file_handler s then s\<lparr>file_calls := file_calls s @ [payload]\<rparr> else s)
      else s)"

definition drainControlQueue :: "sessions \<Rightarrow> sessions" where
  "drainControlQueue s =
     (if control_handler s
      then s\<lparr>control_calls := control_calls s @ control_queue s, control_queue := []\<rparr> else s)"

section \<open>The link state\<close>

datatype link_state = kIdle | kDetectIap2Support | kNegotiate | kNormal | kDead

record out_packet =
  op_data :: "byte list"
  op_session :: byte
  op_psn :: byte
  op_counter :: nat
  op_timeout :: nat

record in_packet =
  ip_data :: "byte list"
  ip_session :: byte
  ip_psn :: byte

record link =
  ll_transport :: "byte list list \<Rightarrow> byte list \<Rightarrow> bool"
  ll_wire :: "byte list list"
  ll_now :: nat
  ll_config :: link_config
  ll_state :: link_state
  ll_lsp :: link_sync
  sent_psn :: byte
  last_sent_acknowledged :: int
  unacked :: "out_packet list"
  queued :: "out_packet list"
  last_received :: byte
  last_acked :: int
  out_of_sequence :: "in_packet list"
  cumulative_received :: nat
  ll_sessions :: sessions
  marker_deadline :: "nat option"
  negotiate_deadline :: "nat option"
  send_ack_deadline :: "nat option"
  recv_ack_deadline :: "nat option"

definition no_sessions :: sessions where
  "no_sessions = \<lparr>control_rx = [], control_queue = [], control_handler = False, control_calls = [],
     file_handler = False, file_calls = [], accessory_handler = False, accessory_calls = []\<rparr>"

text \<open>The link behind its buffer of transport bytes not yet consumed.\<close>

record link_io =
  io_rx :: "byte list"
  io_link :: link

definition new_link :: "(byte list list \<Rightarrow> byte list \<Rightarrow> bool) \<Rightarrow> link_config \<Rightarrow> link" where
  "new_link transport c =
     \<lparr>ll_transport = transport, ll_wire = [], ll_now = 0, ll_config = c, ll_state = kIdle,
      ll_lsp = initial_sync c, sent_psn = 99, last_sent_acknowledged = - 1, unacked = [], queued = [],
      last_received = 0, last_acked = - 1, out_of_sequence = [], cumulative_received = 0,
      ll_sessions = no_sessions, marker_deadline = None, negotiate_deadline = None,
      send_ack_deadline = None, recv_ack_deadline = None\<rparr>"

definition setControlMessageHandler :: "link \<Rightarrow> link" where
  "setControlMessageHandler l = l\<lparr>ll_sessions := (ll_sessions l)\<lparr>control_handler := True\<rparr>\<rparr>"

definition setFileTransferHandler :: "link \<Rightarrow> link" where
  "setFileTransferHandler l = l\<lparr>ll_sessions := (ll_sessions l)\<lparr>file_handler := True\<rparr>\<rparr>"

definition setExternalAccessoryHandler :: "link \<Rightarrow> link" where
  "setExternalAccessoryHandler l = l\<lparr>ll_sessions := (ll_sessions l)\<lparr>accessory_handler := True\<rparr>\<rparr>"

definition maxPayload :: "link \<Rightarrow> nat" where
  "maxPayload l =
     (let n = unat (max_len (ll_lsp l)) in if n \<le> 10 then 1 else min (n - 10) (0xFFFF - 10))"

section \<open>Sending\<close>

definition bailout :: "link \<Rightarrow> link" where
  "bailout l =
     (if ll_state l = kDead then l
      else l\<lparr>send_ack_deadline := None, recv_ack_deadline := None, marker_deadline := None,
             negotiate_deadline := None, ll_state := kDead\<rparr>)"

definition transport_send :: "byte list \<Rightarrow> link \<Rightarrow> link" where
  "transport_send bs l =
     (if ll_transport l (ll_wire l) bs then l\<lparr>ll_wire := ll_wire l @ [bs]\<rparr> else bailout l)"

text \<open>The buffer of one packet.\<close>

definition packet_frame :: "byte list \<Rightarrow> byte \<Rightarrow> byte \<Rightarrow> byte \<Rightarrow> byte \<Rightarrow> byte list" where
  "packet_frame payload seq control ack sid =
     (let h = \<lparr>lh_length = (if payload \<noteq> [] then of_nat (length payload + kLinkHeaderSize + 1)
                            else of_nat kLinkHeaderSize),
               lh_control = control, lh_seq = seq, lh_ack = ack, lh_session = sid\<rparr>
      in if payload \<noteq> [] then pack_header h @ payload @ [genChecksum payload] else pack_header h)"

definition writePacket :: "byte list \<Rightarrow> byte \<Rightarrow> byte \<Rightarrow> byte \<Rightarrow> link \<Rightarrow> link" where
  "writePacket payload seq control sid l =
     transport_send (packet_frame payload seq control (last_received l) sid) (l\<lparr>cumulative_received := 0\<rparr>)"

definition sendAck :: "link \<Rightarrow> link" where
  "sendAck l = writePacket [] (sent_psn l) kControlAck 0 l"

definition sendEak :: "byte list \<Rightarrow> link \<Rightarrow> link" where
  "sendEak psns l = writePacket psns (sent_psn l) kControlEak 0 l"

definition sendData :: "out_packet \<Rightarrow> link \<Rightarrow> link" where
  "sendData p l = writePacket (op_data p) (op_psn p) kControlAck (op_session p) l"

definition sendDetectMarker :: "link \<Rightarrow> link" where
  "sendDetectMarker l =
     (if ll_state l \<noteq> kDetectIap2Support then l
      else if ll_transport l (ll_wire l) kIap2Marker
        then l\<lparr>ll_wire := ll_wire l @ [kIap2Marker], marker_deadline := Some (ll_now l + 1000)\<rparr>
      else bailout l)"

definition sendNegotiate :: "link \<Rightarrow> link" where
  "sendNegotiate l =
     (if ll_state l \<noteq> kNegotiate then l
      else (writePacket (pack_sync (ll_lsp l)) (sent_psn l) kControlSyn 0 l)
        \<lparr>negotiate_deadline := Some (ll_now l + 500)\<rparr>)"

definition start_link :: "link \<Rightarrow> bool \<times> link" where
  "start_link l =
     (if ll_state l \<noteq> kIdle then (False, l)
      else
        let l1 = sendDetectMarker (l\<lparr>ll_state := kDetectIap2Support\<rparr>) in
        if ll_state l1 = kDead then (False, l1)
        else
          let l2 = (if initiate_negotiate (ll_config l1)
                    then sendNegotiate (l1\<lparr>marker_deadline := None, ll_state := kNegotiate\<rparr>) else l1)
          in (ll_state l2 \<noteq> kDead, l2))"

definition close_link :: "link \<Rightarrow> link" where
  "close_link l = (if ll_state l = kDead then l else bailout l)"

definition disarmSendAckTimer :: "link \<Rightarrow> link" where
  "disarmSendAckTimer l = l\<lparr>send_ack_deadline := None\<rparr>"

definition rearmSendAckTimer :: "link \<Rightarrow> link" where
  "rearmSendAckTimer l = l\<lparr>send_ack_deadline := Some (ll_now l + unat (ack_timeout (ll_lsp l)))\<rparr>"

definition disarmRecvAckTimer :: "link \<Rightarrow> link" where
  "disarmRecvAckTimer l = l\<lparr>recv_ack_deadline := None\<rparr>"

definition rearmRecvAckTimer :: "nat \<Rightarrow> link \<Rightarrow> link" where
  "rearmRecvAckTimer t l = l\<lparr>recv_ack_deadline := Some t\<rparr>"

definition in_flight :: "link \<Rightarrow> byte" where
  "in_flight l = sequenceDistance (sent_psn l) (last_sent_acknowledged l)"

definition enqueuePacket :: "out_packet \<Rightarrow> link \<Rightarrow> link" where
  "enqueuePacket p l =
     (if ll_state l \<noteq> kNormal \<or> max_outgoing (ll_lsp l) < in_flight l
      then l\<lparr>queued := queued l @ [p]\<rparr>
      else
        let psn = sent_psn l + 1;
            p1 = p\<lparr>op_psn := psn, op_counter := 0,
                   op_timeout := ll_now l + unat (retransmission_timeout (ll_lsp l))\<rparr>;
            l1 = sendData p1 (disarmSendAckTimer (l\<lparr>sent_psn := psn\<rparr>));
            l2 = l1\<lparr>last_acked := uint (last_received l1)\<rparr>
        in if 0 < max_retransmissions (ll_lsp l2)
           then (rearmRecvAckTimer (op_timeout p1) l2)\<lparr>unacked := unacked l2 @ [p1]\<rparr>
           else l2\<lparr>last_sent_acknowledged := uint (sent_psn l2)\<rparr>)"

text \<open>The pieces of a payload, each at most \<open>n\<close> bytes.\<close>

function chunks :: "nat \<Rightarrow> byte list \<Rightarrow> byte list list" where
  "chunks n bs = (if n = 0 \<or> bs = [] then [] else take n bs # chunks n (drop n bs))"
  by auto
termination
  by (relation "measure (length \<circ> snd)") auto

declare chunks.simps [simp del]

definition new_out_packet :: "byte \<Rightarrow> byte list \<Rightarrow> out_packet" where
  "new_out_packet sid bs = \<lparr>op_data = bs, op_session = sid, op_psn = 0, op_counter = 0, op_timeout = 0\<rparr>"

definition sendSessionData :: "byte \<Rightarrow> byte list \<Rightarrow> link \<Rightarrow> bool \<times> link" where
  "sendSessionData sid bs l =
     (if ll_state l = kDead then (False, l)
      else if bs = [] then (False, l)
      else let l1 = fold (\<lambda>c. enqueuePacket (new_out_packet sid c)) (chunks (maxPayload l) bs) l
           in (ll_state l1 \<noteq> kDead, l1))"

definition sendControlMessage :: "byte list \<Rightarrow> link \<Rightarrow> bool \<times> link" where
  "sendControlMessage m l = sendSessionData kControlSessionId m l"

definition sendFileTransfer :: "byte list \<Rightarrow> link \<Rightarrow> bool \<times> link" where
  "sendFileTransfer bs l = sendSessionData kFileTransferSessionId bs l"

definition sendExternalAccessory :: "u16 \<Rightarrow> byte list \<Rightarrow> link \<Rightarrow> bool \<times> link" where
  "sendExternalAccessory stream bs l =
     sendSessionData kExternalAccessorySessionId (put_be16 stream @ bs) l"

section \<open>Receiving\<close>

definition handleSyn :: "link_sync \<Rightarrow> byte \<Rightarrow> link \<Rightarrow> link" where
  "handleSyn s psn l =
     (if ll_state l \<noteq> kNegotiate then l
      else sendAck (l\<lparr>ll_lsp := s, last_received := psn, last_acked := uint psn\<rparr>))"

text \<open>Whether the front of the unacknowledged packets is still outstanding after an acknowledgement.\<close>

definition outstanding :: "link \<Rightarrow> out_packet \<Rightarrow> bool" where
  "outstanding l p \<longleftrightarrow>
     (let d = uint (sequenceDistance (op_psn p) (last_sent_acknowledged l))
      in 0 < d \<and> d \<le> uint (max_ack (ll_lsp l)) + 10)"

text \<open>What waited for the window, as far as it has opened.\<close>

fun drain_queued :: "nat \<Rightarrow> link \<Rightarrow> link" where
  "drain_queued 0 l = l"
| "drain_queued (Suc guard) l =
     (case queued l of
        [] \<Rightarrow> l
      | p # ps \<Rightarrow>
          if in_flight l < max_outgoing (ll_lsp l)
          then drain_queued guard (enqueuePacket p (l\<lparr>queued := ps\<rparr>)) else l)"

definition acknowledge :: "byte \<Rightarrow> link \<Rightarrow> link" where
  "acknowledge ack l =
     (let l1 = (if ll_state l = kNegotiate then l\<lparr>ll_state := kNormal, negotiate_deadline := None\<rparr> else l);
          l2 = l1\<lparr>last_sent_acknowledged := uint ack\<rparr>;
          l3 = l2\<lparr>unacked := dropWhile (\<lambda>p. \<not> outstanding l2 p) (unacked l2)\<rparr>
      in case unacked l3 of
           [] \<Rightarrow> disarmRecvAckTimer l3
         | p # _ \<Rightarrow> rearmRecvAckTimer (op_timeout p) l3)"

definition handleAck :: "byte \<Rightarrow> link \<Rightarrow> link" where
  "handleAck ack l = (let l1 = acknowledge ack l in drain_queued (length (queued l1)) l1)"

text \<open>The retransmissions an EAK asks for; the loop stops at a packet that hits the limit.\<close>

fun eak_loop :: "byte list \<Rightarrow> out_packet list \<Rightarrow> link \<Rightarrow> out_packet list \<times> link" where
  "eak_loop psns [] l = ([], l)"
| "eak_loop psns (p # ps) l =
     (if op_psn p \<notin> set psns then (let (ps', l') = eak_loop psns ps l in (p # ps', l'))
      else
        let p1 = p\<lparr>op_counter := op_counter p + 1\<rparr> in
        if op_counter p1 = unat (max_retransmissions (ll_lsp l)) then (p1 # ps, bailout l)
        else
          let l1 = rearmRecvAckTimer (op_timeout p1) (disarmSendAckTimer (sendData p1 l));
              (ps', l') = eak_loop psns ps l1
          in (p1 # ps', l'))"

definition handleEak :: "byte list \<Rightarrow> link \<Rightarrow> link" where
  "handleEak psns l =
     (if ll_state l \<noteq> kNormal then l
      else let (ps, l1) = eak_loop psns (unacked l) l in l1\<lparr>unacked := ps\<rparr>)"

text \<open>The sequence numbers between the last in sequence and the one that arrived.\<close>

function missing_psns :: "byte \<Rightarrow> byte \<Rightarrow> byte list" where
  "missing_psns psn x =
     (if 1 < sequenceDistance psn (uint x) then (x + 1) # missing_psns psn (x + 1) else [])"
  by auto
termination
proof (relation "measure (\<lambda>(psn, x). unat (psn - x))", simp)
  fix psn x :: byte
  assume "1 < sequenceDistance psn (uint x)"
  then have "1 < unat (psn - x)" by (simp add: sequenceDistance_word word_less_nat_alt)
  then have "unat (psn - x - 1) < unat (psn - x)" by (subst unat_sub) (simp_all add: word_le_nat_alt)
  then show "((psn, x + 1), psn, x) \<in> measure (\<lambda>(psn, x). unat (psn - x))" by (simp add: algebra_simps)
qed

declare missing_psns.simps [simp del]

function drain_received :: "in_packet list \<Rightarrow> byte \<Rightarrow> sessions \<Rightarrow> in_packet list \<times> byte \<times> sessions" where
  "drain_received buf final s =
     (case find (\<lambda>p. sequenceDistance (ip_psn p) (uint final) = 1) buf of
        None \<Rightarrow> (buf, final, s)
      | Some p \<Rightarrow> drain_received (remove1 p buf) (ip_psn p) (deliver (ip_data p) (ip_session p) s))"
  by pat_completeness auto
termination
  by (relation "measure (length \<circ> fst)") (auto simp: find_Some_iff length_remove1 dest: nth_mem)

declare drain_received.simps [simp del]

definition handleData :: "byte list \<Rightarrow> byte \<Rightarrow> byte \<Rightarrow> link \<Rightarrow> link" where
  "handleData payload psn sid l =
     (let d = uint (sequenceDistance psn (uint (last_received l)));
          w = uint (max_outgoing (ll_lsp l)) in
      if w + 10 < d \<or> d = 0 then sendAck l
      else
        let l1 = l\<lparr>out_of_sequence := out_of_sequence l @ [\<lparr>ip_data = payload, ip_session = sid, ip_psn = psn\<rparr>]\<rparr> in
        if 1 < d then
          (if w \<le> d then sendEak (missing_psns psn (last_received l1)) (disarmSendAckTimer l1) else l1)
        else
          let (buf, final, s) = drain_received (out_of_sequence l1) (last_received l1) (ll_sessions l1);
              l2 = l1\<lparr>out_of_sequence := buf, last_received := final, ll_sessions := s\<rparr> in
          if max_ack (ll_lsp l2) = 0 then l2
          else if w - uint (max_outgoing_delta (ll_config l2))
                    \<le> uint (sequenceDistance (last_received l2) (last_acked l2))
            then sendAck ((disarmSendAckTimer l2)\<lparr>last_acked := uint (last_received l2)\<rparr>)
          else rearmSendAckTimer l2)"

text \<open>A packet that is not a reset, once its synchronisation payload has been handled.\<close>

definition handle_body :: "link_header \<Rightarrow> byte list option \<Rightarrow> link \<Rightarrow> link" where
  "handle_body h payload l =
     (let l1 = (if lh_control h AND kControlAck \<noteq> 0
                then handleAck (lh_ack h) (l\<lparr>cumulative_received := cumulative_received l + 1\<rparr>) else l);
          l2 = (case payload of
                  Some bs \<Rightarrow> if lh_control h AND kControlEak \<noteq> 0 \<and> bs \<noteq> [] then handleEak bs l1 else l1
                | None \<Rightarrow> l1);
          l3 = (case payload of
                  Some bs \<Rightarrow> if lh_control h AND NOT kControlAck = 0
                             then handleData bs (lh_seq h) (lh_session h) l2 else l2
                | None \<Rightarrow> l2)
      in if 0 < max_ack (ll_lsp l3) \<and> unat (max_ack (ll_lsp l3)) \<le> cumulative_received l3
         then sendAck (l3\<lparr>cumulative_received := 0, last_acked := uint (last_received l3)\<rparr>)
         else l3)"

definition handlePacket :: "link_header \<Rightarrow> byte list option \<Rightarrow> link \<Rightarrow> link" where
  "handlePacket h payload l =
     (if lh_control h AND kControlRst \<noteq> 0 then bailout l
      else if lh_control h AND kControlSyn \<noteq> 0 then
        (case payload of
           None \<Rightarrow> l
         | Some bs \<Rightarrow>
             (case parse_sync bs of
                None \<Rightarrow> l
              | Some s \<Rightarrow> handle_body h payload (handleSyn s (lh_seq h) l)))
      else handle_body h payload l)"

text \<open>The loop of \<open>processRxBuffer\<close>: what is left of the buffer, and the link.\<close>

function process_rx :: "byte list \<Rightarrow> link \<Rightarrow> byte list \<times> link" where
  "process_rx bs l =
     (if ll_state l = kDead then (bs, l)
      else if length bs < kLinkHeaderSize then (bs, l)
      else if get_be16 bs 0 \<noteq> kLinkPacketStart then process_rx (tl bs) l
      else case parse_header (take kLinkHeaderSize bs) of
             None \<Rightarrow> process_rx (tl bs) l
           | Some h \<Rightarrow>
               let n = unat (lh_length h) in
               if n < kLinkHeaderSize then process_rx (tl bs) l
               else if length bs < n then (bs, l)
               else
                 let body = take (n - kLinkHeaderSize) (drop kLinkHeaderSize bs) in
                 process_rx (drop n bs)
                   (if n = kLinkHeaderSize then handlePacket h None l
                    else if \<not> checkChecksum body then l
                    else handlePacket h (Some (butlast body)) l))"
  by pat_completeness auto
termination
  by (relation "measure (length \<circ> fst)") auto

declare process_rx.simps [simp del]

definition receive_chunk :: "byte list \<Rightarrow> link_io \<Rightarrow> link_io" where
  "receive_chunk chunk io =
     (let (r, l) = process_rx (io_rx io @ chunk) (io_link io) in \<lparr>io_rx = r, io_link = l\<rparr>)"

section \<open>Timers and polling\<close>

definition due :: "nat option \<Rightarrow> nat \<Rightarrow> bool" where
  "due deadline t = (case deadline of None \<Rightarrow> False | Some d \<Rightarrow> d \<le> t)"

definition onSendAckTimer :: "link \<Rightarrow> link" where
  "onSendAckTimer l =
     (if ll_state l \<noteq> kNormal then l else sendAck (l\<lparr>last_acked := uint (last_received l)\<rparr>))"

text \<open>The code's sort of the packets by their time is not stable; packets of equal time keep their order here.\<close>

definition onExpectAckTimer :: "link \<Rightarrow> link" where
  "onExpectAckTimer l =
     (if unacked l = [] \<or> ll_state l \<noteq> kNormal then l
      else case sort_key op_timeout (unacked l) of
             [] \<Rightarrow> l
           | p # ps \<Rightarrow>
               let p1 = p\<lparr>op_timeout := ll_now l + unat (retransmission_timeout (ll_lsp l)),
                          op_counter := op_counter p + 1\<rparr>;
                   l1 = l\<lparr>unacked := p1 # ps\<rparr> in
               if op_counter p1 = unat (max_retransmissions (ll_lsp l)) then bailout l1
               else rearmRecvAckTimer (case ps of [] \<Rightarrow> op_timeout p1 | q # _ \<Rightarrow> op_timeout q) (sendData p1 l1))"

definition fireTimers :: "link \<Rightarrow> link" where
  "fireTimers l =
     (let t = ll_now l;
          l1 = (if due (marker_deadline l) t then sendDetectMarker (l\<lparr>marker_deadline := None\<rparr>) else l);
          l2 = (if due (negotiate_deadline l1) t then sendNegotiate (l1\<lparr>negotiate_deadline := None\<rparr>) else l1);
          l3 = (if due (send_ack_deadline l2) t then onSendAckTimer (l2\<lparr>send_ack_deadline := None\<rparr>) else l2)
      in if due (recv_ack_deadline l3) t then onExpectAckTimer (l3\<lparr>recv_ack_deadline := None\<rparr>) else l3)"

text \<open>How long \<open>poll\<close> lets the transport block.\<close>

definition poll_wait :: "nat \<Rightarrow> link \<Rightarrow> nat" where
  "poll_wait timeout l =
     fold (\<lambda>d w. case d of None \<Rightarrow> w | Some t \<Rightarrow> min w (t - ll_now l))
       [marker_deadline l, negotiate_deadline l, send_ack_deadline l, recv_ack_deadline l] timeout"

text \<open>One \<open>poll\<close>, given the bytes the transport returned and the time it returned at.\<close>

definition poll :: "byte list \<Rightarrow> nat \<Rightarrow> link_io \<Rightarrow> bool \<times> link_io" where
  "poll chunk t io =
     (if ll_state (io_link io) = kDead then (False, io)
      else
        let io0 = io\<lparr>io_link := (io_link io)\<lparr>ll_now := t\<rparr>\<rparr>;
            io1 = (if chunk \<noteq> [] then receive_chunk chunk io0 else io0);
            l2 = fireTimers (io_link io1);
            l3 = l2\<lparr>ll_sessions := drainControlQueue (ll_sessions l2)\<rparr>
        in (ll_state l3 \<noteq> kDead, io1\<lparr>io_link := l3\<rparr>))"

text \<open>
  The two blocking helpers, over the list of what each \<open>poll\<close> gets from the transport; \<open>None\<close> when
  the list ends before they return.
\<close>

fun waitNegotiated :: "nat \<Rightarrow> (byte list \<times> nat) list \<Rightarrow> link_io \<Rightarrow> bool option \<times> link_io" where
  "waitNegotiated deadline reads io =
     (if ll_state (io_link io) = kNormal then (Some True, io)
      else if ll_state (io_link io) = kDead then (Some False, io)
      else case reads of
             [] \<Rightarrow> (None, io)
           | (chunk, t) # rest \<Rightarrow>
               let io1 = snd (poll chunk t io) in
               if ll_state (io_link io1) = kNormal then (Some True, io1)
               else if deadline \<le> ll_now (io_link io1) then (Some False, io1)
               else waitNegotiated deadline rest io1)"

definition pop_control :: "link_io \<Rightarrow> link_io" where
  "pop_control io =
     io\<lparr>io_link := (io_link io)\<lparr>ll_sessions := (ll_sessions (io_link io))
        \<lparr>control_queue := tl (control_queue (ll_sessions (io_link io)))\<rparr>\<rparr>\<rparr>"

fun receiveControlMessage ::
  "nat \<Rightarrow> (byte list \<times> nat) list \<Rightarrow> link_io \<Rightarrow> byte list option option \<times> link_io" where
  "receiveControlMessage deadline reads io =
     (case control_queue (ll_sessions (io_link io)) of
        m # _ \<Rightarrow> (Some (Some m), pop_control io)
      | [] \<Rightarrow>
          if ll_state (io_link io) = kDead then (Some None, io)
          else case reads of
                 [] \<Rightarrow> (None, io)
               | (chunk, t) # rest \<Rightarrow>
                   let io1 = snd (poll chunk t io) in
                   if control_queue (ll_sessions (io_link io1)) = [] \<and> deadline \<le> ll_now (io_link io1)
                   then (Some None, io1)
                   else receiveControlMessage deadline rest io1)"

end
