(* ===== verification/LinkReceive.thy ===== *)
theory LinkReceive
  imports LinkLayer
begin

text \<open>
  The receiving side of the iAP2 link: the packet codec, the independence of the framing from how
  the transport cuts the stream, and the resequencing of data packets.
\<close>

section \<open>Packets\<close>

lemma byte_sum_append: "byte_sum (xs @ ys) = byte_sum xs + byte_sum ys"
  by (induction ys rule: rev_induct) (simp_all add: byte_sum_def)

lemma checkChecksum_gen [simp]: "checkChecksum (bs @ [genChecksum bs])"
  by (simp add: checkChecksum_def genChecksum_def byte_sum_append) (simp add: byte_sum_def)

lemma length_pack_header [simp]: "length (pack_header h) = 9"
  by (simp add: pack_header_def Let_def put_be16_def)

lemma parse_pack_header: "parse_header (pack_header h) = Some h"
proof -
  let ?out = "put_be16 kLinkPacketStart @ put_be16 (lh_length h) @ [lh_control h, lh_seq h, lh_ack h, lh_session h]"
  have p: "pack_header h = ?out @ [genChecksum ?out]" by (simp add: pack_header_def Let_def)
  have "checkChecksum (take 9 (pack_header h))" unfolding p by (simp add: put_be16_def del: append_assoc)
     (metis append_Cons append_Nil checkChecksum_gen)
  then show ?thesis
    by (simp add: parse_header_def) (simp add: pack_header_def Let_def put_be16_def get_be16_def)
qed

section \<open>Framing\<close>

lemma get_be16_append: "1 < length bs \<Longrightarrow> get_be16 (bs @ cs) 0 = get_be16 bs 0"
  by (cases bs) (simp_all add: get_be16_def nth_append)

lemma process_rx_append:
  "process_rx (bs @ cs) l = (let (r, l1) = process_rx bs l in process_rx (r @ cs) l1)"
proof (induction bs l rule: process_rx.induct)
  case (1 bs l)
  show ?case
  proof (cases "ll_state l = kDead \<or> length bs < 9")
    case True
    then have "process_rx bs l = (bs, l)" by (subst process_rx.simps) auto
    then show ?thesis by simp
  next
    case F: False
    then have alive: "ll_state l \<noteq> kDead" and long: "9 \<le> length bs" by auto
    then have ne: "bs \<noteq> []" and hd: "get_be16 (bs @ cs) 0 = get_be16 bs 0" by (auto simp: get_be16_append)
    show ?thesis
    proof (cases "get_be16 bs 0 = kLinkPacketStart")
      case False
      with F "1.IH"(1) show ?thesis
        by (simp add: process_rx.simps [of bs] process_rx.simps [of "bs @ cs"] hd ne)
    next
      case start: True
      show ?thesis
      proof (cases "parse_header (take 9 bs)")
        case None
        with F start "1.IH"(2) show ?thesis
          by (simp add: process_rx.simps [of bs] process_rx.simps [of "bs @ cs"] hd ne)
      next
        case (Some h)
        let ?n = "unat (lh_length h)"
        show ?thesis
        proof (cases "?n < 9")
          case True
          with F start Some "1.IH"(3) show ?thesis
            by (simp add: process_rx.simps [of bs] process_rx.simps [of "bs @ cs"] hd ne Let_def)
        next
          case n9: False
          show ?thesis
          proof (cases "length bs < ?n")
            case True
            with F start Some n9 show ?thesis by (simp add: process_rx.simps [of bs])
          next
            case False
            with F start Some n9 "1.IH"(4) show ?thesis
              by (simp add: process_rx.simps [of bs] process_rx.simps [of "bs @ cs"] hd Let_def)
          qed
        qed
      qed
    qed
  qed
qed



interpretation rx: incremental process_rx
  by unfold_locales (rule process_rx_append)

lemma receive_chunk_take_in:
  "receive_chunk cs io = (let (r, l) = rx.take_in cs (io_rx io, io_link io) in \<lparr>io_rx = r, io_link = l\<rparr>)"
  by (simp add: receive_chunk_def rx.take_in_def)

lemma receive_chunks_take_in:
  "fold receive_chunk css io = (let (r, l) = fold rx.take_in css (io_rx io, io_link io) in \<lparr>io_rx = r, io_link = l\<rparr>)"
  by (induction css arbitrary: io) (simp_all add: receive_chunk_take_in Let_def split_beta)

text \<open>
  C22.  The link does not depend on how the transport cuts the byte stream: receiving it in any
  pieces leaves the link, what it sent and delivered, and the unconsumed bytes exactly as receiving
  it in one piece, through packets, noise, bad checksums and the death of the link.
\<close>

theorem link_rx_chunking:
  "fold receive_chunk (cs # css) io = receive_chunk (concat (cs # css)) io"
  unfolding receive_chunks_take_in receive_chunk_take_in rx.take_in_chunks ..

section \<open>Resequencing\<close>

text \<open>What the receiving side keeps; sending never changes it.\<close>

definition receiver :: "link \<Rightarrow> byte \<times> in_packet list \<times> sessions \<times> link_sync \<times> link_config" where
  "receiver l = (last_received l, out_of_sequence l, ll_sessions l, ll_lsp l, ll_config l)"

lemma receiver_send [simp]:
  "receiver (sendAck l) = receiver l" "receiver (sendEak ps l) = receiver l" "receiver (sendData p l) = receiver l"
  "receiver (disarmSendAckTimer l) = receiver l" "receiver (rearmSendAckTimer l) = receiver l"
  "receiver (disarmRecvAckTimer l) = receiver l" "receiver (rearmRecvAckTimer t l) = receiver l"
  by (simp_all add: receiver_def sendAck_def sendEak_def sendData_def writePacket_def transport_send_def
    bailout_def disarmSendAckTimer_def rearmSendAckTimer_def disarmRecvAckTimer_def rearmRecvAckTimer_def)

lemma receiver_update [simp]:
  "receiver (l\<lparr>sent_psn := a\<rparr>) = receiver l" "receiver (l\<lparr>last_acked := b\<rparr>) = receiver l"
  "receiver (l\<lparr>last_sent_acknowledged := b\<rparr>) = receiver l" "receiver (l\<lparr>unacked := ps\<rparr>) = receiver l"
  "receiver (l\<lparr>queued := ps\<rparr>) = receiver l" "receiver (l\<lparr>cumulative_received := n\<rparr>) = receiver l"
  "receiver (l\<lparr>ll_state := s\<rparr>) = receiver l" "receiver (l\<lparr>negotiate_deadline := t\<rparr>) = receiver l"
  by (simp_all add: receiver_def)

lemma receiver_enqueuePacket [simp]: "receiver (enqueuePacket p l) = receiver l"
  by (simp add: enqueuePacket_def Let_def)

lemma receiver_drain_queued [simp]: "receiver (drain_queued n l) = receiver l"
  by (induction n arbitrary: l) (auto split: list.split)

lemma receiver_handleAck [simp]: "receiver (handleAck a l) = receiver l"
  by (simp add: handleAck_def acknowledge_def Let_def split: list.split)

text \<open>A numbered stream of data packets and its sequence numbers.\<close>

definition stream_packet :: "(nat \<Rightarrow> byte list) \<Rightarrow> (nat \<Rightarrow> byte) \<Rightarrow> byte \<Rightarrow> nat \<Rightarrow> in_packet" where
  "stream_packet d sid s0 k = \<lparr>ip_data = d k, ip_session = sid k, ip_psn = s0 + of_nat (Suc k)\<rparr>"

lemma stream_packet_fields [simp]:
  "ip_data (stream_packet d sid s0 k) = d k" "ip_session (stream_packet d sid s0 k) = sid k"
  "ip_psn (stream_packet d sid s0 k) = s0 + of_nat (Suc k)"
  by (simp_all add: stream_packet_def)

lemma stream_distance:
  "uint (sequenceDistance (s0 + of_nat (Suc k)) (uint (s0 + of_nat m))) = (int k + 1 - int m) mod 256"
proof -
  have "sequenceDistance (s0 + of_nat (Suc k)) (uint (s0 + of_nat m)) = word_of_int (int k + 1 - int m)"
    unfolding sequenceDistance_word by (simp flip: wi_hom_sub wi_hom_add)
  then show ?thesis by (simp only: uint_word_of_int) simp
qed

lemma stream_distance_window:
  assumes "m \<le> k" "k < m + 255"
  shows "uint (sequenceDistance (s0 + of_nat (Suc k)) (uint (s0 + of_nat m))) = int (k + 1 - m)"
  unfolding stream_distance using assms by (simp add: of_nat_diff mod_pos_pos_trivial)

lemma stream_distance_old:
  assumes "k < m" "m \<le> k + 256"
  shows "uint (sequenceDistance (s0 + of_nat (Suc k)) (uint (s0 + of_nat m))) =
    (if m = k + 1 then 0 else int (k + 257 - m))"
proof (cases "m = k + 1")
  case False
  have "(int k + 1 - int m) mod 256 = (int k + 1 - int m + 256) mod 256" by (rule mod_add_self2 [symmetric])
  also have "\<dots> = int k + 257 - int m" using assms False by (subst mod_pos_pos_trivial) auto
  finally show ?thesis unfolding stream_distance using assms False by (simp add: of_nat_diff)
qed (simp add: stream_distance del: of_nat_Suc)

lemma find_map: "find P (map f xs) = map_option f (find (P \<circ> f) xs)"
  by (induction xs) auto

lemma find_eq: "find (\<lambda>k. k = m) ks = (if m \<in> set ks then Some m else None)"
  by (induction ks) auto

lemma remove1_map_inj: "inj_on f (insert x (set xs)) \<Longrightarrow> remove1 (f x) (map f xs) = map f (remove1 x xs)"
  by (induction xs) (auto simp: inj_on_def)

text \<open>The first number not in a list.\<close>

definition mex :: "nat list \<Rightarrow> nat" where
  "mex ks = (case find (\<lambda>i. i \<notin> set ks) [0..<Suc (length ks)] of Some m \<Rightarrow> m | None \<Rightarrow> 0)"

lemma mex_props: "mex ks \<notin> set ks" "i < mex ks \<Longrightarrow> i \<in> set ks"
proof -
  have "\<not> {0..<Suc (length ks)} \<subseteq> set ks"
  proof
    assume "{0..<Suc (length ks)} \<subseteq> set ks"
    then have "card {0..<Suc (length ks)} \<le> card (set ks)" by (rule card_mono [rotated]) simp
    then show False using card_length [of ks] by simp
  qed
  then have "find (\<lambda>i. i \<notin> set ks) [0..<Suc (length ks)] \<noteq> None"
    by (auto simp: find_None_iff simp del: upt_Suc)
  then obtain m where m: "find (\<lambda>i. i \<notin> set ks) [0..<Suc (length ks)] = Some m" by auto
  then have "mex ks = m" by (simp add: mex_def)
  moreover from m have "m \<notin> set ks \<and> (\<forall>i < m. i \<in> set ks)"
    unfolding find_Some_iff by (force simp del: upt_Suc)
  ultimately show "mex ks \<notin> set ks" "i < mex ks \<Longrightarrow> i \<in> set ks" by auto
qed

lemma mex_unique: "n \<notin> set ks \<Longrightarrow> (\<And>i. i < n \<Longrightarrow> i \<in> set ks) \<Longrightarrow> mex ks = n"
  using mex_props(1) [of ks] mex_props(2) [where ks = ks] by (metis linorder_neqE_nat)


lemma drain_received_stream:
  fixes d :: "nat \<Rightarrow> byte list" and sid :: "nat \<Rightarrow> byte" and s0 :: byte
  assumes "distinct ks" "\<forall>k \<in> set ks. m \<le> k \<and> k < m + 255"
  shows "\<exists>n ks'. drain_received (map (stream_packet d sid s0) ks) (s0 + of_nat m) s =
      (map (stream_packet d sid s0) ks', s0 + of_nat n, fold (\<lambda>i. deliver (d i) (sid i)) [m..<n] s) \<and>
    m \<le> n \<and> distinct ks' \<and> set ks' = {k \<in> set ks. n \<le> k} \<and> n \<notin> set ks \<and> {m..<n} \<subseteq> set ks"
  using assms
proof (induction "length ks" arbitrary: ks m s)
  case 0
  then show ?case by (simp add: drain_received.simps exI [of _ m])
next
  case (Suc len)
  let ?sp = "stream_packet d sid s0"
  have one: "sequenceDistance (ip_psn (?sp k)) (uint (s0 + of_nat m)) = 1 \<longleftrightarrow> k = m" if "k \<in> set ks" for k
  proof -
    have "uint (sequenceDistance (ip_psn (?sp k)) (uint (s0 + of_nat m))) = int (k + 1 - m)"
      using Suc.prems(2) that by (simp add: stream_distance_window del: of_nat_Suc)
    then show ?thesis using Suc.prems(2) that by (auto simp: word_uint_eq_iff)
  qed
  then have f: "find (\<lambda>p. sequenceDistance (ip_psn p) (uint (s0 + of_nat m)) = 1) (map ?sp ks) =
      (if m \<in> set ks then Some (?sp m) else None)"
    by (subst find_map, subst find_cong [OF refl, of ks _ "\<lambda>k. k = m"]) (simp_all add: find_eq del: of_nat_Suc)
  show ?case
  proof (cases "m \<in> set ks")
    case False
    with f have "drain_received (map ?sp ks) (s0 + of_nat m) s = (map ?sp ks, s0 + of_nat m, s)"
      by (subst drain_received.simps) simp
    with False Suc.prems show ?thesis by (intro exI [of _ m] exI [of _ ks]) auto
  next
    case True
    have "inj_on ?sp (insert m (set ks))"
    proof (rule inj_onI)
      fix i j assume "i \<in> insert m (set ks)" "j \<in> insert m (set ks)" "?sp i = ?sp j"
      then have "uint (sequenceDistance (ip_psn (?sp i)) (uint (s0 + of_nat m))) =
          uint (sequenceDistance (ip_psn (?sp j)) (uint (s0 + of_nat m)))" "i \<in> set ks" "j \<in> set ks"
        using True by auto
      then show "i = j" using Suc.prems(2) by (simp add: stream_distance_window del: of_nat_Suc) (metis diff_add_inverse2 Suc_diff_le Suc_inject le_add_diff_inverse)
    qed
    then have "remove1 (?sp m) (map ?sp ks) = map ?sp (remove1 m ks)" by (rule remove1_map_inj)
    with f True have d: "drain_received (map ?sp ks) (s0 + of_nat m) s =
        drain_received (map ?sp (remove1 m ks)) (s0 + of_nat (Suc m)) (deliver (d m) (sid m) s)"
      by (subst drain_received.simps) simp
    have "len = length (remove1 m ks)" using Suc.hyps(2) True by (simp add: length_remove1)
    moreover have "\<forall>k \<in> set (remove1 m ks). Suc m \<le> k \<and> k < Suc m + 255"
      using Suc.prems by (fastforce simp: set_remove1_eq)
    ultimately obtain n ks' where "drain_received (map ?sp (remove1 m ks)) (s0 + of_nat (Suc m)) (deliver (d m) (sid m) s) =
        (map ?sp ks', s0 + of_nat n, fold (\<lambda>i. deliver (d i) (sid i)) [Suc m..<n] (deliver (d m) (sid m) s))"
      "Suc m \<le> n" "distinct ks'" "set ks' = {k \<in> set (remove1 m ks). n \<le> k}" "n \<notin> set (remove1 m ks)"
      and sub: "{Suc m..<n} \<subseteq> set (remove1 m ks)"
      using Suc.hyps(1) [of "remove1 m ks" "Suc m" "deliver (d m) (sid m) s"] Suc.prems(1)
      by (auto simp: distinct_remove1)
    moreover have "{m..<n} \<subseteq> set ks"
    proof
      fix x assume "x \<in> {m..<n}"
      then have "x = m \<or> x \<in> {Suc m..<n}" by auto
      with sub True set_remove1_subset [of m ks] show "x \<in> set ks" by blast
    qed
    ultimately show ?thesis
      using d True Suc.prems(1)
      by (intro exI [of _ n] exI [of _ ks']) (auto simp: upt_rec [of m] set_remove1_eq)
  qed
qed


text \<open>
  Which packets may arrive, relative to those that did: one already delivered, not too long ago,
  or one within the window that is not already waiting.
\<close>

fun admissible :: "nat \<Rightarrow> nat list \<Rightarrow> nat list \<Rightarrow> bool" where
  "admissible w seen [] = True"
| "admissible w seen (k # ks) =
     (((k < mex seen \<and> mex seen \<le> k + (256 - w)) \<or> (mex seen \<le> k \<and> k < mex seen + w \<and> k \<notin> set seen))
      \<and> admissible w (seen @ [k]) ks)"

definition data_header :: "(nat \<Rightarrow> byte list) \<Rightarrow> (nat \<Rightarrow> byte) \<Rightarrow> byte \<Rightarrow> nat \<Rightarrow> byte \<Rightarrow> link_header" where
  "data_header d sid s0 k ack =
     \<lparr>lh_length = of_nat (length (d k) + 10), lh_control = kControlAck, lh_seq = s0 + of_nat (Suc k),
      lh_ack = ack, lh_session = sid k\<rparr>"

text \<open>The arrivals: the number of the packet in the stream and the acknowledgement it carries.\<close>

definition receive_stream ::
  "(nat \<Rightarrow> byte list) \<Rightarrow> (nat \<Rightarrow> byte) \<Rightarrow> byte \<Rightarrow> (nat \<times> byte) list \<Rightarrow> link \<Rightarrow> link" where
  "receive_stream d sid s0 arrivals l =
     fold (\<lambda>(k, ack). handlePacket (data_header d sid s0 k ack) (Some (d k))) arrivals l"

definition resequenced ::
  "(nat \<Rightarrow> byte list) \<Rightarrow> (nat \<Rightarrow> byte) \<Rightarrow> byte \<Rightarrow> sessions \<Rightarrow> nat \<Rightarrow> nat list \<Rightarrow> byte \<times> in_packet list \<times> sessions \<Rightarrow> bool" where
  "resequenced d sid s0 s w seen = (\<lambda>(final, buf, t).
     let m = mex seen in
     final = s0 + of_nat m \<and> t = fold (\<lambda>i. deliver (d i) (sid i)) [0..<m] s \<and>
     (\<exists>ks. buf = map (stream_packet d sid s0) ks \<and> distinct ks \<and> set ks = {k \<in> set seen. m \<le> k} \<and>
           (\<forall>k \<in> set ks. k < m + w)))"

definition receiver3 :: "link \<Rightarrow> byte \<times> in_packet list \<times> sessions" where
  "receiver3 l = (last_received l, out_of_sequence l, ll_sessions l)"

lemma receiver_eqD:
  assumes "receiver l = receiver l'"
  shows "receiver3 l = receiver3 l'" "ll_lsp l = ll_lsp l'" "ll_config l = ll_config l'"
  using assms by (simp_all add: receiver_def receiver3_def)

lemma receiver_data_packet:
  "receiver (handlePacket (data_header d sid s0 k ack) (Some bs) l) =
   receiver (handleData bs (s0 + of_nat (Suc k)) (sid k) (handleAck ack (l\<lparr>cumulative_received := cumulative_received l + 1\<rparr>)))"
  by (simp add: handlePacket_def handle_body_def data_header_def Let_def del: of_nat_Suc)

lemma handleData_old:
  assumes "last_received l = s0 + of_nat m" "k < m" "m \<le> k + (256 - w)"
    and "w = unat (max_outgoing (ll_lsp l)) + 10" "w \<le> 255"
  shows "receiver (handleData bs (s0 + of_nat (Suc k)) i l) = receiver l"
proof -
  have "uint (sequenceDistance (s0 + of_nat (Suc k)) (uint (last_received l))) =
      (if m = k + 1 then 0 else int (k + 257 - m))"
    unfolding assms(1) using assms by (intro stream_distance_old) auto
  moreover have "uint (max_outgoing (ll_lsp l)) + 10 = int w" using assms(4) by simp
  moreover have "m = k + 1 \<or> w < k + 257 - m" using assms(2,3,5) by linarith
  ultimately have "uint (max_outgoing (ll_lsp l)) + 10
        < uint (sequenceDistance (s0 + of_nat (Suc k)) (uint (last_received l))) \<or>
      uint (sequenceDistance (s0 + of_nat (Suc k)) (uint (last_received l))) = 0"
    by (auto simp del: of_nat_Suc)
  then have "handleData bs (s0 + of_nat (Suc k)) i l = sendAck l"
    unfolding handleData_def Let_def by (rule if_P)
  then show ?thesis by simp
qed

lemma receiver_ack_policy:
  "receiver (if max_ack (ll_lsp l) = 0 then l
     else if c then sendAck ((disarmSendAckTimer l)\<lparr>last_acked := v\<rparr>) else rearmSendAckTimer l) = receiver l"
  by simp


text \<open>Inside the window the packet is kept; the next one in sequence also drains what waits behind it.\<close>

definition keep_packet :: "in_packet \<Rightarrow> link \<Rightarrow> link" where
  "keep_packet p l = l\<lparr>out_of_sequence := out_of_sequence l @ [p]\<rparr>"

definition drain_link :: "link \<Rightarrow> link" where
  "drain_link l =
     (let (buf, final, s) = drain_received (out_of_sequence l) (last_received l) (ll_sessions l)
      in l\<lparr>out_of_sequence := buf, last_received := final, ll_sessions := s\<rparr>)"

lemma handleData_kept:
  fixes bs psn i l
  defines "d \<equiv> uint (sequenceDistance psn (uint (last_received l)))"
    and "p \<equiv> \<lparr>ip_data = bs, ip_session = i, ip_psn = psn\<rparr>"
  assumes "d \<le> uint (max_outgoing (ll_lsp l)) + 10" "d \<noteq> 0"
  shows "receiver (handleData bs psn i l) =
    receiver (if 1 < d then keep_packet p l else drain_link (keep_packet p l))"
proof -
  have "\<not> (uint (max_outgoing (ll_lsp l)) + 10 < d \<or> d = 0)" using assms(3,4) by simp
  then show ?thesis
    unfolding handleData_def Let_def d_def [symmetric] p_def [symmetric] keep_packet_def [symmetric]
    by (simp add: drain_link_def split_beta)
qed

lemma resequenced_gap:
  assumes r: "resequenced d sid s0 s w seen (receiver3 l)"
    and k: "mex seen < k" "k < mex seen + w" "k \<notin> set seen"
  shows "resequenced d sid s0 s w (seen @ [k]) (receiver3 (keep_packet (stream_packet d sid s0 k) l))"
proof -
  have "mex (seen @ [k]) = mex seen"
    using mex_props(1) [of seen] k(1) by (intro mex_unique) (auto dest: mex_props(2))
  moreover obtain ks where "out_of_sequence l = map (stream_packet d sid s0) ks" "distinct ks"
    "set ks = {j \<in> set seen. mex seen \<le> j}" "\<forall>j \<in> set ks. j < mex seen + w"
    using r by (auto simp: resequenced_def receiver3_def Let_def)
  ultimately show ?thesis
    using r k by (auto simp: resequenced_def Let_def receiver3_def keep_packet_def intro!: exI [of _ "ks @ [k]"])
qed

lemma resequenced_next:
  assumes r: "resequenced d sid s0 s w seen (receiver3 l)" and k: "k = mex seen" and w: "0 < w" "w \<le> 255"
  shows "resequenced d sid s0 s w (seen @ [k]) (receiver3 (drain_link (keep_packet (stream_packet d sid s0 k) l)))"
proof -
  let ?m = "mex seen" and ?sp = "stream_packet d sid s0" and ?dl = "\<lambda>i. deliver (d i) (sid i)"
  obtain ks where last: "last_received l = s0 + of_nat ?m" and s: "ll_sessions l = fold ?dl [0..<?m] s"
    and ks: "out_of_sequence l = map ?sp ks" "distinct ks" "set ks = {k \<in> set seen. ?m \<le> k}" "\<forall>k \<in> set ks. k < ?m + w"
    using r by (auto simp: resequenced_def receiver3_def Let_def)
  have "distinct (ks @ [k])" "\<forall>j \<in> set (ks @ [k]). ?m \<le> j \<and> j < ?m + 255"
    using ks k w mex_props(1) [of seen] by auto
  from drain_received_stream [OF this, of d sid s0 "ll_sessions l"] obtain n ks' where
    n: "drain_received (map ?sp (ks @ [k])) (s0 + of_nat ?m) (ll_sessions l) =
        (map ?sp ks', s0 + of_nat n, fold ?dl [?m..<n] (ll_sessions l))"
      "?m \<le> n" "distinct ks'" "set ks' = {j \<in> set (ks @ [k]). n \<le> j}" "n \<notin> set (ks @ [k])" "{?m..<n} \<subseteq> set (ks @ [k])"
    by blast
  have mex: "mex (seen @ [k]) = n"
  proof (rule mex_unique)
    show "n \<notin> set (seen @ [k])" using n(2,5) ks(3) by auto
    show "i \<in> set (seen @ [k])" if "i < n" for i
    proof (cases "i < ?m")
      case False
      with that have "i \<in> {?m..<n}" by simp
      with n(6) ks(3) show ?thesis by auto
    qed (simp add: mex_props(2))
  qed
  have "[0..<n] = [0..<?m] @ [?m..<n]" using n(2) by (metis le_add_diff_inverse upt_add_eq_append zero_le)
  then have "fold ?dl [0..<n] s = fold ?dl [?m..<n] (ll_sessions l)" by (simp add: s)
  moreover have "receiver3 (drain_link (keep_packet (?sp k) l)) =
      (s0 + of_nat n, map ?sp ks', fold ?dl [?m..<n] (ll_sessions l))"
    using n(1) by (simp add: drain_link_def keep_packet_def receiver3_def ks(1) last)
  moreover have "set ks' = {j \<in> set (seen @ [k]). n \<le> j}" "\<forall>j \<in> set ks'. j < n + w"
    using n(2,4) ks(3,4) k w by auto
  ultimately show ?thesis
    using n(3) by (auto simp: resequenced_def Let_def mex intro!: exI [of _ ks'])
qed

lemma keep_drain_lsp [simp]:
  "ll_lsp (keep_packet p l) = ll_lsp l" "ll_lsp (drain_link l) = ll_lsp l"
  by (simp_all add: keep_packet_def drain_link_def split_beta)

lemma handleData_admissible:
  assumes r: "resequenced d sid s0 s w seen (receiver3 l)" and a: "admissible w seen [k]"
    and w: "w = unat (max_outgoing (ll_lsp l)) + 10" "w \<le> 255"
  defines "l' \<equiv> handleData (d k) (s0 + of_nat (Suc k)) (sid k) l"
  shows "resequenced d sid s0 s w (seen @ [k]) (receiver3 l') \<and> ll_lsp l' = ll_lsp l"
proof (cases "k < mex seen")
  case True
  from r have "last_received l = s0 + of_nat (mex seen)" by (simp add: resequenced_def receiver3_def Let_def)
  from handleData_old [OF this True _ w] a True have "receiver l' = receiver l" by (auto simp: l'_def)
  moreover have "mex (seen @ [k]) = mex seen"
    using True mex_props(1) [of seen] by (intro mex_unique) (auto dest: mex_props(2))
  moreover have "{j \<in> set (seen @ [k]). mex seen \<le> j} = {j \<in> set seen. mex seen \<le> j}" using True by auto
  ultimately show ?thesis using r by (simp add: receiver_eqD [of l' l] resequenced_def Let_def)
next
  case False
  with a have k: "mex seen \<le> k" "k < mex seen + w" "k \<notin> set seen" by auto
  have last: "last_received l = s0 + of_nat (mex seen)"
    using r by (simp add: resequenced_def receiver3_def Let_def)
  have dist: "uint (sequenceDistance (s0 + of_nat (Suc k)) (uint (last_received l))) = int (k + 1 - mex seen)"
    unfolding last using k w by (intro stream_distance_window) auto
  have W: "uint (max_outgoing (ll_lsp l)) + 10 = int w" using w(1) by simp
  have d: "uint (sequenceDistance (s0 + of_nat (Suc k)) (uint (last_received l))) \<le> uint (max_outgoing (ll_lsp l)) + 10"
    "uint (sequenceDistance (s0 + of_nat (Suc k)) (uint (last_received l))) \<noteq> 0"
    "1 < uint (sequenceDistance (s0 + of_nat (Suc k)) (uint (last_received l))) \<longleftrightarrow> mex seen < k"
    unfolding W dist using k by linarith+
  have "receiver l' = receiver (if mex seen < k then keep_packet (stream_packet d sid s0 k) l
      else drain_link (keep_packet (stream_packet d sid s0 k) l))"
    unfolding l'_def using handleData_kept [OF d(1,2), of "d k" "sid k"]
    by (simp only: d(3) stream_packet_def)
  note rec = receiver_eqD [OF this]
  show ?thesis
  proof (cases "mex seen < k")
    case True
    with resequenced_gap [OF r] k rec show ?thesis by simp
  next
    case False
    with k have "k = mex seen" "0 < w" by auto
    with resequenced_next [OF r] w(2) rec show ?thesis by simp
  qed
qed

lemma receive_stream_inv:
  assumes "resequenced d sid s0 s w seen (receiver3 l)" "admissible w seen (map fst arrivals)"
    and "w = unat (max_outgoing (ll_lsp l)) + 10" "w \<le> 255"
  shows "resequenced d sid s0 s w (seen @ map fst arrivals) (receiver3 (receive_stream d sid s0 arrivals l))"
  using assms
proof (induction arrivals arbitrary: seen l)
  case (Cons ka arrivals)
  obtain k ack where ka: "ka = (k, ack)" by fastforce
  let ?l1 = "handleAck ack (l\<lparr>cumulative_received := cumulative_received l + 1\<rparr>)"
  let ?l2 = "handlePacket (data_header d sid s0 k ack) (Some (d k)) l"
  have 1: "receiver ?l1 = receiver l" by simp
  have a: "admissible w seen [k]" "admissible w (seen @ [k]) (map fst arrivals)"
    using Cons.prems(2) ka by auto
  have 2: "receiver ?l2 = receiver (handleData (d k) (s0 + of_nat (Suc k)) (sid k) ?l1)"
    by (rule receiver_data_packet)
  have "resequenced d sid s0 s w seen (receiver3 ?l1)" "w = unat (max_outgoing (ll_lsp ?l1)) + 10"
    using Cons.prems by (simp_all only: receiver_eqD [OF 1])
  from handleData_admissible [OF this(1) a(1) this(2) Cons.prems(4)]
  have "resequenced d sid s0 s w (seen @ [k]) (receiver3 ?l2) \<and> ll_lsp ?l2 = ll_lsp l"
    by (simp only: receiver_eqD [OF 1] receiver_eqD [OF 2])
  with Cons.IH [of "seen @ [k]" ?l2] Cons.prems a(2) ka show ?case by (simp add: receive_stream_def)
qed (simp add: receive_stream_def)

text \<open>
  C21.  Resequencing: number the data packets of the peer 0, 1, \<dots> with consecutive 8-bit sequence
  numbers, which wrap, and let them arrive in any order, with packets already delivered arriving
  again.  As long as they stay within the window and no packet arrives twice while it is waiting for
  an earlier one, the sessions get the payloads of the packets up to the first missing one, each
  once and in order, and the link's sequence number is that packet's.
\<close>

theorem link_resequences:
  fixes d :: "nat \<Rightarrow> byte list" and sid :: "nat \<Rightarrow> byte"
  assumes "unat (max_outgoing (ll_lsp l)) \<le> 245" "out_of_sequence l = []"
    and "admissible (unat (max_outgoing (ll_lsp l)) + 10) [] (map fst arrivals)"
  shows "let l' = receive_stream d sid (last_received l) arrivals l; m = mex (map fst arrivals) in
    last_received l' = last_received l + of_nat m \<and>
    ll_sessions l' = fold (\<lambda>i. deliver (d i) (sid i)) [0..<m] (ll_sessions l)"
proof -
  have "mex [] = 0" by (rule mex_unique) auto
  then have "resequenced d sid (last_received l) (ll_sessions l) (unat (max_outgoing (ll_lsp l)) + 10) [] (receiver3 l)"
    using assms(2) by (simp add: resequenced_def receiver3_def Let_def)
  from receive_stream_inv [OF this assms(3) refl] assms(1) show ?thesis
    by (simp add: resequenced_def receiver3_def Let_def split_beta)
qed


lemma deliver_file:
  "file_handler s \<Longrightarrow> deliver p kFileTransferSessionId s = s\<lparr>file_calls := file_calls s @ [p]\<rparr>"
  by (simp add: deliver_def)

definition example_config :: link_config where
  "example_config = \<lparr>cfg_max_outgoing = 4, zero_ack = False, control_version = 2, initiate_negotiate = True,
     ack_timeout_ms = 500, max_outgoing_delta = 0\<rparr>"

definition example_link :: link where
  "example_link = setFileTransferHandler (new_link (\<lambda>_ _. True) example_config)"

lemmas example_link_simps = example_link_def setFileTransferHandler_def new_link_def initial_sync_def
  no_sessions_def example_config_def

theorem link_resequences_witness:
  "file_calls (ll_sessions (receive_stream (\<lambda>k. [of_nat k]) (\<lambda>_. kFileTransferSessionId) 0
     [(1, 0), (0, 0), (0, 0), (3, 0), (2, 0)] example_link)) = [[0], [1], [2], [3]]"
proof -
  have ad: "admissible (unat (max_outgoing (ll_lsp example_link)) + 10) [] (map fst [(1, 0 :: byte), (0, 0), (0, 0), (3, 0), (2, 0)])"
    by (simp add: example_link_simps mex_def)
  have "last_received example_link = 0" "mex [1, 0, 0, 3, 2] = 4" "unat (max_outgoing (ll_lsp example_link)) \<le> 245"
    "out_of_sequence example_link = []"
    by (simp_all add: example_link_simps mex_def)
  with link_resequences [OF _ _ ad, of "\<lambda>k. [of_nat k]" "\<lambda>_. kFileTransferSessionId"]
  have "ll_sessions (receive_stream (\<lambda>k. [of_nat k]) (\<lambda>_. kFileTransferSessionId) 0
     [(1, 0), (0, 0), (0, 0), (3, 0), (2, 0)] example_link) =
    fold (\<lambda>i. deliver [of_nat i] kFileTransferSessionId) [0..<4] (ll_sessions example_link)"
    by (simp add: Let_def)
  moreover have "[0..<4] = [0, 1, 2, 3 :: nat]" by (simp add: upt_rec)
  moreover have "file_handler (ll_sessions example_link)" "file_calls (ll_sessions example_link) = []"
    by (simp_all add: example_link_simps)
  ultimately show ?thesis by (simp add: deliver_file)
qed

section \<open>Waiting twice\<close>

lemma stream_distance_one:
  "sequenceDistance (s0 + of_nat (Suc k)) (uint (s0 + of_nat m)) = 1 \<longleftrightarrow> k mod 256 = m mod 256"
proof -
  have "sequenceDistance (s0 + of_nat (Suc k)) (uint (s0 + of_nat m)) = 1 \<longleftrightarrow> (of_nat k :: byte) = of_nat m"
    by (simp add: sequenceDistance_word algebra_simps)
  then show ?thesis by (simp add: word_of_nat_eq_iff take_bit_nat_def)
qed

lemma drain_stale:
  assumes "2 \<le> k" "k \<le> 256"
  shows "drain_received [stream_packet d sid s0 1, stream_packet d sid s0 k] (s0 + of_nat k) s =
    (if k < 256 then ([stream_packet d sid s0 1], s0 + of_nat (Suc k), deliver (d k) (sid k) s)
     else ([], s0 + of_nat (Suc 1), deliver (d 1) (sid 1) (deliver (d k) (sid k) s)))"
proof -
  have n1: "1 mod 256 \<noteq> k mod 256" using assms by (cases "k = 256") auto
  have ne: "stream_packet d sid s0 1 \<noteq> stream_packet d sid s0 k"
  proof
    assume "stream_packet d sid s0 1 = stream_packet d sid s0 k"
    then have "ip_psn (stream_packet d sid s0 1) = ip_psn (stream_packet d sid s0 k)" by simp
    then have "s0 + of_nat (Suc 1) = s0 + of_nat (Suc k)" by (simp only: stream_packet_fields)
    moreover have "sequenceDistance (s0 + of_nat (Suc k)) (uint (s0 + of_nat k)) = 1" by (simp only: stream_distance_one)
    ultimately have "sequenceDistance (s0 + of_nat (Suc 1)) (uint (s0 + of_nat k)) = 1" by simp
    with n1 show False by (simp only: stream_distance_one)
  qed
  have seq: "sequenceDistance (ip_psn (stream_packet d sid s0 1)) (uint (s0 + of_nat k)) \<noteq> 1"
    "sequenceDistance (ip_psn (stream_packet d sid s0 k)) (uint (s0 + of_nat k)) = 1"
    using n1 by (simp_all only: stream_packet_fields stream_distance_one) simp_all
  have "drain_received [stream_packet d sid s0 1, stream_packet d sid s0 k] (s0 + of_nat k) s =
      drain_received [stream_packet d sid s0 1] (ip_psn (stream_packet d sid s0 k)) (deliver (d k) (sid k) s)"
    using seq ne by (subst drain_received.simps) (simp del: stream_packet_fields(3))
  then have first: "drain_received [stream_packet d sid s0 1, stream_packet d sid s0 k] (s0 + of_nat k) s =
      drain_received [stream_packet d sid s0 1] (s0 + of_nat (Suc k)) (deliver (d k) (sid k) s)"
    by (simp only: stream_packet_fields)
  have one: "sequenceDistance (ip_psn (stream_packet d sid s0 1)) (uint (s0 + of_nat (Suc k))) = 1 \<longleftrightarrow> k = 256"
    unfolding stream_packet_fields stream_distance_one using assms by (cases "k = 255"; cases "k = 256") auto
  have "drain_received [stream_packet d sid s0 1] (s0 + of_nat (Suc k)) (deliver (d k) (sid k) s) =
      (if k < 256 then ([stream_packet d sid s0 1], s0 + of_nat (Suc k), deliver (d k) (sid k) s)
       else ([], ip_psn (stream_packet d sid s0 1), deliver (d 1) (sid 1) (deliver (d k) (sid k) s)))"
    using one assms(2)
    by (subst drain_received.simps) (auto simp: drain_received.simps [of "[]"] simp del: of_nat_Suc stream_packet_fields(3))
  with first show ?thesis by (simp only: stream_packet_fields)
qed

lemma handleData_next_in_sequence:
  assumes "last_received l = s0 + of_nat k"
  shows "receiver (handleData (d k) (s0 + of_nat (Suc k)) (sid k) l) =
    receiver (drain_link (keep_packet (stream_packet d sid s0 k) l))"
proof -
  have "uint (sequenceDistance (s0 + of_nat (Suc k)) (uint (last_received l))) = 1"
    unfolding assms using stream_distance_window [of k k s0] by simp
  then show ?thesis using handleData_kept [of "s0 + of_nat (Suc k)" l "d k" "sid k"] by (simp add: stream_packet_def)
qed

lemma data_packet_in_sequence:
  assumes "last_received l = s0 + of_nat k"
  shows "receiver3 (handlePacket (data_header d sid s0 k ack) (Some (d k)) l) =
    (let (buf, final, s) = drain_received (out_of_sequence l @ [stream_packet d sid s0 k]) (s0 + of_nat k) (ll_sessions l)
     in (final, buf, s))"
proof -
  let ?l1 = "handleAck ack (l\<lparr>cumulative_received := cumulative_received l + 1\<rparr>)"
  have r: "receiver ?l1 = receiver l" by simp
  then have "last_received ?l1 = s0 + of_nat k" using assms by (simp add: receiver_def)
  from handleData_next_in_sequence [OF this, of d sid] receiver_data_packet [of d sid s0 k ack "d k" l]
  have "receiver3 (handlePacket (data_header d sid s0 k ack) (Some (d k)) l) =
      receiver3 (drain_link (keep_packet (stream_packet d sid s0 k) ?l1))" by (metis receiver_eqD(1))
  with r assms show ?thesis
    by (simp add: drain_link_def keep_packet_def receiver3_def receiver_def split_beta Let_def)
qed

lemma stale_run:
  assumes "receiver3 l = (s0 + of_nat k, [stream_packet d sid s0 1], fold (\<lambda>i. deliver (d i) (sid i)) [0..<k] s)"
    and "2 \<le> k" "k + n \<le> 256"
  shows "receiver3 (receive_stream d sid s0 (map (\<lambda>i. (i, ack i)) [k..<k + n]) l) =
    (s0 + of_nat (k + n), [stream_packet d sid s0 1], fold (\<lambda>i. deliver (d i) (sid i)) [0..<k + n] s)"
  using assms
proof (induction n arbitrary: k l)
  case (Suc n)
  let ?l2 = "handlePacket (data_header d sid s0 k (ack k)) (Some (d k)) l"
  have "receiver3 ?l2 = (s0 + of_nat (Suc k), [stream_packet d sid s0 1], fold (\<lambda>i. deliver (d i) (sid i)) [0..<Suc k] s)"
    using data_packet_in_sequence [of l s0 k d sid "ack k"] drain_stale [of k d sid s0 "ll_sessions l"] Suc.prems
    by (simp add: receiver3_def del: of_nat_Suc)
  from Suc.IH [OF this] Suc.prems show ?case
    by (simp add: receive_stream_def upt_rec [of k] del: of_nat_Suc upt_Suc)
qed (simp add: receive_stream_def)


lemma data_packet_gap:
  assumes "last_received l = s0"
  shows "receiver3 (handlePacket (data_header d sid s0 1 ack) (Some (d 1)) l) =
    (s0, out_of_sequence l @ [stream_packet d sid s0 1], ll_sessions l)"
proof -
  let ?l1 = "handleAck ack (l\<lparr>cumulative_received := cumulative_received l + 1\<rparr>)"
  have r: "receiver ?l1 = receiver l" by simp
  then have last: "last_received ?l1 = s0 + of_nat 0" using assms by (simp add: receiver_def)
  have d: "uint (sequenceDistance (s0 + of_nat (Suc 1)) (uint (last_received ?l1))) = 2"
    unfolding last using stream_distance_window [of 0 1 s0] by simp
  have "0 \<le> uint (max_outgoing (ll_lsp ?l1))" by simp
  then have "receiver (handleData (d 1) (s0 + of_nat (Suc 1)) (sid 1) ?l1) =
      receiver (keep_packet (stream_packet d sid s0 1) ?l1)"
    using handleData_kept [of "s0 + of_nat (Suc 1)" ?l1 "d 1" "sid 1"] d
    by (simp add: stream_packet_def del: of_nat_Suc)
  with receiver_data_packet [of d sid s0 1 ack "d 1" l] r assms show ?thesis
    by (simp add: keep_packet_def receiver3_def receiver_def del: of_nat_Suc)
qed

lemma drain_doubled:
  "drain_received [stream_packet d sid s0 1, stream_packet d sid s0 1, stream_packet d sid s0 0] (s0 + of_nat 0) s =
    ([stream_packet d sid s0 1], s0 + of_nat 2, deliver (d 1) (sid 1) (deliver (d 0) (sid 0) s))"
proof -
  let ?sp = "stream_packet d sid s0"
  have seq: "sequenceDistance (ip_psn (?sp i)) (uint (s0 + of_nat m)) = 1 \<longleftrightarrow> i mod 256 = m mod 256" for i m
    unfolding stream_packet_fields by (rule stream_distance_one)
  have ne: "?sp 1 \<noteq> ?sp 0"
  proof
    assume "?sp 1 = ?sp 0"
    then have "sequenceDistance (ip_psn (?sp 1)) (uint (s0 + of_nat 0)) = 1 \<longleftrightarrow>
        sequenceDistance (ip_psn (?sp 0)) (uint (s0 + of_nat 0)) = 1" by (rule arg_cong)
    then show False unfolding seq by simp
  qed
  note simps = drain_received.simps [of _ "s0 + of_nat _"]
  have 1: "drain_received [?sp 1, ?sp 1, ?sp 0] (s0 + of_nat 0) s =
      drain_received [?sp 1, ?sp 1] (s0 + of_nat 1) (deliver (d 0) (sid 0) s)"
    unfolding simps [of "[?sp 1, ?sp 1, ?sp 0]"] find.simps seq using ne by simp
  have 2: "drain_received [?sp 1, ?sp 1] (s0 + of_nat 1) t =
      drain_received [?sp 1] (s0 + of_nat 2) (deliver (d 1) (sid 1) t)" for t
    unfolding simps [of "[?sp 1, ?sp 1]"] find.simps seq by simp
  have 3: "drain_received [?sp 1] (s0 + of_nat 2) t = ([?sp 1], s0 + of_nat 2, t)" for t
    unfolding simps [of "[?sp 1]"] find.simps seq by simp
  show ?thesis by (simp only: 1 2 3)
qed

text \<open>
  A packet that arrives twice while it waits is delivered twice: one copy at its turn, the
  other 256 packets later, in place of the packet that then has its sequence number, and that
  packet is dropped as already received.
\<close>

theorem link_stale_duplicate:
  fixes d :: "nat \<Rightarrow> byte list" and sid :: "nat \<Rightarrow> byte" and ack :: "nat \<Rightarrow> byte"
  assumes "out_of_sequence l = []"
  shows "let l' = receive_stream d sid (last_received l) (map (\<lambda>k. (k, ack k)) ([1, 1, 0] @ [2..<257])) l in
    ll_sessions l' = fold (\<lambda>i. deliver (d i) (sid i)) ([0..<257] @ [1]) (ll_sessions l) \<and>
    last_received l' = last_received l + of_nat 258"
proof -
  let ?s0 = "last_received l"
  let ?sp = "stream_packet d sid ?s0" and ?dl = "\<lambda>i. deliver (d i) (sid i)"
  define step where "step k l = handlePacket (data_header d sid ?s0 k (ack k)) (Some (d k)) l" for k l
  have 1: "receiver3 (step 1 l) = (?s0, [?sp 1], ll_sessions l)"
    using data_packet_gap [of l ?s0] assms by (simp add: step_def)
  then have 2: "receiver3 (step 1 (step 1 l)) = (?s0, [?sp 1, ?sp 1], ll_sessions l)"
    using data_packet_gap [of "step 1 l" ?s0 d sid "ack 1"] by (simp add: step_def receiver3_def)
  have 3: "receiver3 (step 0 (step 1 (step 1 l))) = (?s0 + of_nat 2, [?sp 1], fold ?dl [0..<2] (ll_sessions l))"
    using data_packet_in_sequence [of "step 1 (step 1 l)" ?s0 0 d sid "ack 0"] 2 drain_doubled [of d sid ?s0 "ll_sessions l"]
    by (simp add: step_def receiver3_def upt_rec)
  define l3 where "l3 = receive_stream d sid ?s0 (map (\<lambda>k. (k, ack k)) [2..<2 + 254]) (step 0 (step 1 (step 1 l)))"
  have 4: "receiver3 l3 = (?s0 + of_nat 256, [?sp 1], fold ?dl [0..<256] (ll_sessions l))"
    unfolding l3_def using stale_run [OF 3, of 254 ack] by simp
  have u: "[0..<257] = [0..<256] @ [256 :: nat]" using upt_Suc_append [of 0 256] by simp
  have "receiver3 (step 256 l3) = (?s0 + of_nat (Suc 1), [], fold ?dl ([0..<257] @ [1]) (ll_sessions l))"
    unfolding u using data_packet_in_sequence [of l3 ?s0 256 d sid "ack 256"] 4 drain_stale [of 256 d sid ?s0 "ll_sessions l3"]
    by (simp add: step_def receiver3_def del: of_nat_Suc)
  moreover have "[2..<257] = [2..<2 + 254] @ [256 :: nat]" using upt_Suc_append [of 2 256] by simp
  then have "receive_stream d sid ?s0 (map (\<lambda>k. (k, ack k)) ([1, 1, 0] @ [2..<257])) l = step 256 l3"
    by (simp add: receive_stream_def l3_def step_def)
  moreover have "(of_nat (Suc 1) :: byte) = of_nat 258" by simp
  ultimately show ?thesis by (simp add: receiver3_def Let_def)
qed


theorem link_stale_duplicate_witness:
  "file_calls (ll_sessions (receive_stream (\<lambda>k. [of_nat k, hi8 (of_nat k)]) (\<lambda>_. kFileTransferSessionId) 0
     (map (\<lambda>k. (k, 0)) ([1, 1, 0] @ [2..<257])) example_link)) =
   map (\<lambda>k. [of_nat k, hi8 (of_nat k)]) ([0..<257] @ [1])"
proof -
  have files: "file_handler s \<Longrightarrow> fold (\<lambda>i. deliver (f i) kFileTransferSessionId) is s =
      s\<lparr>file_calls := file_calls s @ map f is\<rparr>" for f "is" s
    by (induction "is" arbitrary: s) (simp_all add: deliver_file)
  have l: "last_received example_link = 0" "out_of_sequence example_link = []"
    "file_handler (ll_sessions example_link)" "file_calls (ll_sessions example_link) = []"
    by (simp_all add: example_link_simps)
  from link_stale_duplicate [of example_link "\<lambda>k. [of_nat k, hi8 (of_nat k)]" "\<lambda>_. kFileTransferSessionId" "\<lambda>_. 0"]
  show ?thesis by (simp only: Let_def l files simp_thms) (simp add: l)
qed

end
