(* ===== verification/LinkSend.thy ===== *)
theory LinkSend
  imports LinkReceive "HOL-Library.Multiset"
begin

text \<open>
  The sending side of the iAP2 link and the two sides together: fragments go out at once and in order
  when the window has room or the peer does not ask for acknowledgements, a control message crosses the
  link whole, the data packets on the wire are bounded by the payloads handed over, and what the two
  readings of the window do to the order.
\<close>

section \<open>A transport that accepts every write\<close>

definition accepting :: "link \<Rightarrow> bool" where
  "accepting l \<longleftrightarrow> (\<forall>w bs. ll_transport l w bs)"

lemma transport_send_accepting: "accepting l \<Longrightarrow> transport_send bs l = l\<lparr>ll_wire := ll_wire l @ [bs]\<rparr>"
  by (simp add: accepting_def transport_send_def)

lemma writePacket_accepting:
  "accepting l \<Longrightarrow> writePacket bs q c i l =
     l\<lparr>cumulative_received := 0, ll_wire := ll_wire l @ [packet_frame bs q c (last_received l) i]\<rparr>"
  by (simp add: writePacket_def transport_send_def accepting_def)

lemma accepting_update [simp]:
  "accepting (l\<lparr>sent_psn := a\<rparr>) = accepting l" "accepting (l\<lparr>last_acked := b\<rparr>) = accepting l"
  "accepting (l\<lparr>last_sent_acknowledged := b\<rparr>) = accepting l" "accepting (l\<lparr>unacked := ps\<rparr>) = accepting l"
  "accepting (l\<lparr>queued := ps\<rparr>) = accepting l" "accepting (l\<lparr>cumulative_received := n\<rparr>) = accepting l"
  "accepting (l\<lparr>ll_state := st\<rparr>) = accepting l" "accepting (l\<lparr>negotiate_deadline := t\<rparr>) = accepting l"
  "accepting (l\<lparr>send_ack_deadline := t\<rparr>) = accepting l" "accepting (l\<lparr>recv_ack_deadline := t\<rparr>) = accepting l"
  "accepting (l\<lparr>ll_wire := w\<rparr>) = accepting l" "accepting (l\<lparr>out_of_sequence := buf\<rparr>) = accepting l"
  "accepting (l\<lparr>last_received := a\<rparr>) = accepting l" "accepting (l\<lparr>ll_sessions := s\<rparr>) = accepting l"
  by (simp_all add: accepting_def)

lemmas timer_defs = disarmSendAckTimer_def rearmSendAckTimer_def disarmRecvAckTimer_def rearmRecvAckTimer_def
lemmas send_defs = sendAck_def sendEak_def sendData_def

section \<open>Fragments\<close>

lemma concat_chunks: "0 < n \<Longrightarrow> concat (chunks n bs) = bs"
  by (induction n bs rule: chunks.induct) (subst chunks.simps, auto)

lemma chunks_bounds: "c \<in> set (chunks n bs) \<Longrightarrow> c \<noteq> [] \<and> length c \<le> n"
  by (induction n bs rule: chunks.induct) (subst (asm) (2) chunks.simps, auto split: if_splits)

lemma maxPayload_bounds: "0 < maxPayload l" "maxPayload l \<le> 65525"
  by (simp_all add: maxPayload_def Let_def)

text \<open>The frames of a list of fragments, numbered after a sequence number.\<close>

fun data_frames :: "byte \<Rightarrow> byte \<Rightarrow> byte \<Rightarrow> byte list list \<Rightarrow> byte list list" where
  "data_frames sid ack psn [] = []"
| "data_frames sid ack psn (c # cs) =
     packet_frame c (psn + 1) kControlAck ack sid # data_frames sid ack (psn + 1) cs"

text \<open>
  A link that can take \<open>n\<close> more packets at once: none waits, and either the peer wants no
  acknowledgements or the window has room for them.  \<open>unacknowledged\<close> is how much of it is used.
\<close>

definition unacknowledged :: "link \<Rightarrow> nat" where
  "unacknowledged l = unat (in_flight l)"

definition has_room :: "nat \<Rightarrow> link \<Rightarrow> bool" where
  "has_room n l \<longleftrightarrow> accepting l \<and> ll_state l = kNormal \<and> queued l = [] \<and>
     (\<exists>a :: byte. last_sent_acknowledged l = uint a) \<and>
     (if max_retransmissions (ll_lsp l) = 0 then unacknowledged l = 0
      else unacknowledged l + n \<le> unat (max_outgoing (ll_lsp l)) + 1)"

lemma enqueue_has_room:
  fixes l :: link and sid c
  assumes "has_room (Suc n) l"
  defines "l' \<equiv> enqueuePacket (new_out_packet sid c) l"
  shows "has_room n l'" "ll_wire l' = ll_wire l @ [packet_frame c (sent_psn l + 1) kControlAck (last_received l) sid]"
    "sent_psn l' = sent_psn l + 1" "last_received l' = last_received l" "ll_lsp l' = ll_lsp l"
    "unacknowledged l' \<le> unacknowledged l + 1"
proof -
  obtain a :: byte where r: "accepting l" "ll_state l = kNormal" "queued l = []" "last_sent_acknowledged l = uint a"
    "if max_retransmissions (ll_lsp l) = 0 then unacknowledged l = 0
     else unacknowledged l + Suc n \<le> unat (max_outgoing (ll_lsp l)) + 1"
    using assms(1) by (auto simp: has_room_def)
  then have "unat (in_flight l) \<le> unat (max_outgoing (ll_lsp l))"
    by (auto simp: unacknowledged_def split: if_splits)
  then have room: "\<not> (ll_state l \<noteq> kNormal \<or> max_outgoing (ll_lsp l) < in_flight l)"
    using r(2) by (simp add: word_less_nat_alt)
  have e: "accepting l'" "ll_state l' = kNormal" "queued l' = []" "ll_lsp l' = ll_lsp l" "sent_psn l' = sent_psn l + 1"
    "last_sent_acknowledged l' =
      (if max_retransmissions (ll_lsp l) = 0 then uint (sent_psn l + 1) else last_sent_acknowledged l)"
    "ll_wire l' = ll_wire l @ [packet_frame c (sent_psn l + 1) kControlAck (last_received l) sid]"
    "last_received l' = last_received l"
    using r room by (simp_all add: l'_def enqueuePacket_def Let_def send_defs timer_defs writePacket_accepting
      new_out_packet_def word_gt_0)
  have u: "unacknowledged l' \<le> unacknowledged l + 1"
  proof -
    have "unat (x + 1) \<le> unat x + 1" for x :: byte
      using unat_word_ariths(1) [of x 1] by (simp add: mod_less_eq_dividend [THEN le_trans])
    from this [of "sent_psn l - a"] show ?thesis
      by (auto simp: unacknowledged_def in_flight_def e(5,6) r(4) sequenceDistance_word algebra_simps)
  qed
  have z: "unacknowledged l' = 0" if "max_retransmissions (ll_lsp l) = 0"
    using that by (simp add: unacknowledged_def in_flight_def e(5,6) sequenceDistance_word)
  show "has_room n l'"
    using e(1-4,6) r(4,5) u z by (auto simp: has_room_def split: if_splits)
  show "ll_wire l' = ll_wire l @ [packet_frame c (sent_psn l + 1) kControlAck (last_received l) sid]"
    "sent_psn l' = sent_psn l + 1" "last_received l' = last_received l" "ll_lsp l' = ll_lsp l" by (fact e)+
  show "unacknowledged l' \<le> unacknowledged l + 1" by (fact u)
qed

lemma enqueue_chunks_has_room:
  fixes l :: link and sid cs
  assumes "has_room (length cs + n) l"
  defines "l' \<equiv> fold (\<lambda>c. enqueuePacket (new_out_packet sid c)) cs l"
  shows "has_room n l' \<and> ll_wire l' = ll_wire l @ data_frames sid (last_received l) (sent_psn l) cs
    \<and> sent_psn l' = sent_psn l + of_nat (length cs)"
  using assms(1) unfolding l'_def
proof (induction cs arbitrary: l)
  case (Cons c cs)
  then have "has_room (Suc (length cs + n)) l" by simp
  note e = enqueue_has_room [OF this, of sid c]
  from Cons.IH [OF e(1)] e(2-4) show ?case by (simp add: algebra_simps)
qed simp

lemma sendSessionData_has_room:
  assumes "has_room (length (chunks (maxPayload l) bs) + n) l" "bs \<noteq> []"
  shows "\<exists>l'. sendSessionData sid bs l = (True, l') \<and> has_room n l' \<and>
    ll_wire l' = ll_wire l @ data_frames sid (last_received l) (sent_psn l) (chunks (maxPayload l) bs) \<and>
    sent_psn l' = sent_psn l + of_nat (length (chunks (maxPayload l) bs))"
proof -
  let ?l = "fold (\<lambda>c. enqueuePacket (new_out_packet sid c)) (chunks (maxPayload l) bs) l"
  note e = enqueue_chunks_has_room [OF assms(1), of sid]
  then have "ll_state l = kNormal" "ll_state ?l = kNormal" using assms(1) by (simp_all add: has_room_def)
  with e assms(2) show ?thesis by (simp add: sendSessionData_def Let_def)
qed


section \<open>A packet at the receiver\<close>

lemma process_rx_frame:
  assumes "c \<noteq> []" "length c \<le> 65525" "ll_state r \<noteq> kDead"
  shows "process_rx (packet_frame c (s0 + of_nat (Suc k)) kControlAck ack sid @ rest) r =
    process_rx rest (handlePacket (data_header (\<lambda>_. c) (\<lambda>_. sid) s0 k ack) (Some c) r)"
proof -
  let ?h = "data_header (\<lambda>_. c) (\<lambda>_. sid) s0 k ack"
  let ?bs = "pack_header ?h @ (c @ [genChecksum c]) @ rest"
  have f: "packet_frame c (s0 + of_nat (Suc k)) kControlAck ack sid @ rest = ?bs"
    using assms(1) by (simp add: packet_frame_def data_header_def Let_def add.commute del: of_nat_Suc)
  have n: "unat (lh_length ?h) = length c + 10"
    using assms(2) unat_of_nat_small [of "length c + 10", where ?'a = 16] by (simp add: data_header_def del: of_nat_Suc)
  have body: "take (length c + 10 - 9) (drop 9 ?bs) = c @ [genChecksum c]" by simp
  have rest: "drop (length c + 10) ?bs = rest" by simp
  have "get_be16 ?bs 0 = kLinkPacketStart"
    by (simp add: pack_header_def Let_def get_be16_append)
  moreover have "\<not> length ?bs < length c + 10" by simp
  ultimately show ?thesis
    unfolding f using assms(3) n body rest
    by (subst process_rx.simps) (simp add: parse_pack_header Let_def del: append_assoc of_nat_Suc)
qed

definition link_up :: "link \<Rightarrow> bool" where
  "link_up l \<longleftrightarrow> accepting l \<and> ll_state l \<noteq> kDead"

lemma link_up_update [simp]:
  "link_up (l\<lparr>sent_psn := a\<rparr>) = link_up l" "link_up (l\<lparr>last_acked := b\<rparr>) = link_up l"
  "link_up (l\<lparr>last_sent_acknowledged := b\<rparr>) = link_up l" "link_up (l\<lparr>unacked := ps\<rparr>) = link_up l"
  "link_up (l\<lparr>queued := ps\<rparr>) = link_up l" "link_up (l\<lparr>cumulative_received := n\<rparr>) = link_up l"
  "link_up (l\<lparr>negotiate_deadline := t\<rparr>) = link_up l" "link_up (l\<lparr>send_ack_deadline := t\<rparr>) = link_up l"
  "link_up (l\<lparr>recv_ack_deadline := t\<rparr>) = link_up l" "link_up (l\<lparr>ll_wire := w\<rparr>) = link_up l"
  "link_up (l\<lparr>out_of_sequence := buf\<rparr>) = link_up l" "link_up (l\<lparr>last_received := a\<rparr>) = link_up l"
  "link_up (l\<lparr>ll_sessions := s\<rparr>) = link_up l"
  by (simp_all add: link_up_def)

lemma link_up_send [simp]:
  "link_up l \<Longrightarrow> link_up (sendAck l)" "link_up l \<Longrightarrow> link_up (sendEak ps l)" "link_up l \<Longrightarrow> link_up (sendData p l)"
  "link_up (disarmSendAckTimer l) = link_up l" "link_up (rearmSendAckTimer l) = link_up l"
  "link_up (disarmRecvAckTimer l) = link_up l" "link_up (rearmRecvAckTimer t l) = link_up l"
  by (simp_all add: send_defs timer_defs link_up_def writePacket_accepting)

lemma link_up_enqueue [simp]: "link_up l \<Longrightarrow> link_up (enqueuePacket p l)"
  by (simp add: enqueuePacket_def Let_def)

lemma link_up_drain [simp]: "link_up l \<Longrightarrow> link_up (drain_queued n l)"
  by (induction n arbitrary: l) (auto split: list.split)

lemma link_up_normal [simp]: "link_up l \<Longrightarrow> link_up (l\<lparr>ll_state := kNormal\<rparr>)"
  by (simp add: link_up_def)

lemma link_up_acknowledge [simp]: "link_up l \<Longrightarrow> link_up (acknowledge a l)"
  by (simp add: acknowledge_def Let_def split: list.split)

lemma link_up_handleAck [simp]: "link_up l \<Longrightarrow> link_up (handleAck a l)"
  by (simp add: handleAck_def Let_def)

lemma link_up_handleData [simp]: "link_up l \<Longrightarrow> link_up (handleData bs q i l)"
  by (auto simp: handleData_def Let_def split_beta)

lemma link_up_data_packet: "link_up l \<Longrightarrow> link_up (handlePacket (data_header d sid s0 k ack) (Some bs) l)"
  by (simp add: handlePacket_def handle_body_def data_header_def Let_def del: of_nat_Suc)

lemma length_data_frames [simp]: "length (data_frames sid ack psn cs) = length cs"
  by (induction cs arbitrary: psn) simp_all

lemma data_frames_nth:
  "k < length cs \<Longrightarrow> data_frames sid ack psn cs ! k = packet_frame (cs ! k) (psn + of_nat (Suc k)) kControlAck ack sid"
proof (induction cs arbitrary: psn k)
  case (Cons c cs)
  then show ?case by (cases k) (simp_all add: algebra_simps)
qed simp

text \<open>The frames in any order and any number of times, as the packets they are.\<close>

lemma process_rx_arrivals:
  assumes "link_up r" "\<forall>k \<in> set ks. k < length cs" "\<forall>c \<in> set cs. c \<noteq> [] \<and> length c \<le> 65525"
  shows "process_rx (concat (map ((!) (data_frames sid ack s0 cs)) ks)) r =
      ([], receive_stream ((!) cs) (\<lambda>_. sid) s0 (map (\<lambda>k. (k, ack)) ks) r) \<and>
    link_up (receive_stream ((!) cs) (\<lambda>_. sid) s0 (map (\<lambda>k. (k, ack)) ks) r)"
  using assms(1,2)
proof (induction ks arbitrary: r)
  case Nil
  then show ?case by (simp add: process_rx.simps receive_stream_def)
next
  case (Cons k ks)
  let ?r = "handlePacket (data_header ((!) cs) (\<lambda>_. sid) s0 k ack) (Some (cs ! k)) r"
  have k: "k < length cs" "cs ! k \<noteq> []" "length (cs ! k) \<le> 65525" using Cons.prems assms(3) by auto
  have h: "data_header (\<lambda>_. cs ! k) (\<lambda>_. sid) s0 k ack = data_header ((!) cs) (\<lambda>_. sid) s0 k ack"
    by (simp add: data_header_def)
  have "ll_state r \<noteq> kDead" using Cons.prems(1) by (simp add: link_up_def)
  from process_rx_frame [OF k(2,3) this, of s0 k ack sid]
  have "process_rx (concat (map ((!) (data_frames sid ack s0 cs)) (k # ks))) r =
      process_rx (concat (map ((!) (data_frames sid ack s0 cs)) ks)) ?r"
    by (simp add: data_frames_nth [OF k(1)] h del: of_nat_Suc)
  moreover have "link_up ?r" using Cons.prems(1) by (rule link_up_data_packet)
  ultimately show ?case using Cons.IH [of ?r] Cons.prems(2) by (simp add: receive_stream_def)
qed

text \<open>Once every one of them has arrived, all payloads have been delivered, once and in order.\<close>

lemma receive_every_packet:
  assumes "unat (max_outgoing (ll_lsp r)) \<le> 245" "out_of_sequence r = []"
    and "admissible (unat (max_outgoing (ll_lsp r)) + 10) [] ks" "set ks = {..<length cs}"
  shows "receiver3 (receive_stream ((!) cs) (\<lambda>_. sid) (last_received r) (map (\<lambda>k. (k, ack)) ks) r) =
    (last_received r + of_nat (length cs), [], fold (\<lambda>c. deliver c sid) cs (ll_sessions r))"
proof -
  have "mex [] = 0" by (rule mex_unique) auto
  then have "resequenced ((!) cs) (\<lambda>_. sid) (last_received r) (ll_sessions r) (unat (max_outgoing (ll_lsp r)) + 10) [] (receiver3 r)"
    using assms(2) by (simp add: resequenced_def receiver3_def Let_def)
  from receive_stream_inv [OF this _ refl, of "map (\<lambda>k. (k, ack)) ks"] assms(1,3)
  have r: "resequenced ((!) cs) (\<lambda>_. sid) (last_received r) (ll_sessions r) (unat (max_outgoing (ll_lsp r)) + 10) ks
      (receiver3 (receive_stream ((!) cs) (\<lambda>_. sid) (last_received r) (map (\<lambda>k. (k, ack)) ks) r))"
    by (simp add: comp_def)
  have mex: "mex ks = length cs" using assms(4) by (intro mex_unique) auto
  have "fold (\<lambda>i. deliver (cs ! i) sid) [0..<length cs] s = fold (\<lambda>c. deliver c sid) (map ((!) cs) [0..<length cs]) s" for s
    by (simp add: fold_map comp_def)
  then have f: "fold (\<lambda>i. deliver (cs ! i) sid) [0..<length cs] s = fold (\<lambda>c. deliver c sid) cs s" for s
    by (simp add: map_nth)
  have "{k \<in> set ks. length cs \<le> k} = {}" using assms(4) by auto
  with r show ?thesis by (auto simp: resequenced_def Let_def mex f receiver3_def)
qed


section \<open>The control session\<close>

text \<open>The splitter as a consumer that appends what it finds to the queue.\<close>

definition split_onto :: "byte list \<Rightarrow> byte list list \<Rightarrow> byte list \<times> byte list list" where
  "split_onto bs q = (let (r, ms) = split_control bs in (r, q @ ms))"

lemma peekLength_append: "peekLength bs = Some n \<Longrightarrow> peekLength (bs @ cs) = Some n"
  by (auto simp: peekLength_def Let_def get_be16_def nth_append split: if_splits)

lemma peekLength_bounds: "peekLength bs = Some n \<Longrightarrow> bs \<noteq> [] \<and> (n \<noteq> 0 \<longrightarrow> 6 \<le> n)"
  by (auto simp: peekLength_def Let_def split: if_splits)

lemma split_control_append:
  "split_control (bs @ cs) = (let (r, ms) = split_control bs; (r', ms') = split_control (r @ cs) in (r', ms @ ms'))"
proof (induction bs rule: split_control.induct)
  case (1 bs)
  show ?case
  proof (cases "peekLength bs")
    case None
    then show ?thesis by (subst (2) split_control.simps) (simp add: split_beta)
  next
    case (Some n)
    note b = peekLength_bounds [OF Some] peekLength_append [OF Some, of cs]
    show ?thesis
    proof (cases "n = 0")
      case True
      with "1.IH"(1) [OF Some] b Some show ?thesis
        by (simp add: split_control.simps [of bs] split_control.simps [of "bs @ cs"])
    next
      case n: False
      show ?thesis
      proof (cases "length bs < n")
        case True
        with n Some show ?thesis by (subst (2) split_control.simps) (simp add: split_beta)
      next
        case False
        with "1.IH"(2) [OF Some n] n b Some show ?thesis
          by (simp add: split_control.simps [of bs] split_control.simps [of "bs @ cs"] split_beta Let_def)
      qed
    qed
  qed
qed

interpretation ctl: incremental split_onto
proof unfold_locales
  fix bs cs :: "byte list" and q
  show "split_onto (bs @ cs) q = (let (r, s1) = split_onto bs q in split_onto (r @ cs) s1)"
    by (simp add: split_onto_def split_control_append [of bs cs] split_beta Let_def)
qed

lemma split_control_length: "length (fst (split_control bs)) \<le> length bs"
proof (induction bs rule: split_control.induct)
  case (1 bs)
  then show ?case
    by (subst split_control.simps) (auto simp: split_beta split: option.split intro: le_trans)
qed

lemma deliver_control:
  assumes "length (control_rx s @ c) \<le> kMaxControlBuffer"
  shows "deliver c kControlSessionId s =
    (let (r, q) = ctl.take_in c (control_rx s, control_queue s) in s\<lparr>control_rx := r, control_queue := q\<rparr>)"
proof -
  have "\<not> kMaxControlBuffer < length (fst (split_control (control_rx s @ c)))"
    using split_control_length [of "control_rx s @ c"] assms by linarith
  then show ?thesis
    by (simp add: deliver_def parseControlSession_def ctl.take_in_def split_onto_def split_beta Let_def)
qed

lemma deliver_control_all:
  assumes "length (control_rx s @ concat cs) \<le> kMaxControlBuffer"
  shows "fold (\<lambda>c. deliver c kControlSessionId) cs s =
    (let (r, q) = fold ctl.take_in cs (control_rx s, control_queue s) in s\<lparr>control_rx := r, control_queue := q\<rparr>)"
  using assms
proof (induction cs arbitrary: s)
  case (Cons c cs)
  let ?rq = "ctl.take_in c (control_rx s, control_queue s)"
  have "length (fst ?rq) \<le> length (control_rx s @ c)"
    using split_control_length [of "control_rx s @ c"] by (simp add: ctl.take_in_def split_onto_def split_beta)
  then have "length (fst ?rq @ concat cs) \<le> kMaxControlBuffer" using Cons.prems by simp
  with Cons.IH [of "s\<lparr>control_rx := fst ?rq, control_queue := snd ?rq\<rparr>"] Cons.prems deliver_control [of s c]
  show ?case by (simp add: split_beta Let_def)
qed simp

lemma split_one_message:
  assumes "message_fits ps"
  shows "split_control (encodeMessage i ps) = ([], [encodeMessage i ps])"
proof -
  let ?m = "encodeMessage i ps"
  have p: "peekLength ?m = Some (length ?m)" using encodeMessage_parses [OF assms, of i "[]"] by simp
  have "length ?m \<noteq> 0" by (simp add: encodeMessage_shape(1) [OF assms] put_be16_def)
  moreover have "split_control [] = ([], [])" by (subst split_control.simps) (simp add: peekLength_def)
  ultimately show ?thesis using p by (subst split_control.simps) simp
qed

section \<open>End to end\<close>

text \<open>The receiving link is where the sending link left it, with no packet waiting and no message begun.\<close>

definition in_step :: "link \<Rightarrow> link \<Rightarrow> bool" where
  "in_step a b \<longleftrightarrow> link_up b \<and> unat (max_outgoing (ll_lsp b)) \<le> 245 \<and> last_received b = sent_psn a \<and>
     out_of_sequence b = [] \<and> control_rx (ll_sessions b) = []"

definition new_writes :: "link \<Rightarrow> link \<Rightarrow> byte list list" where
  "new_writes a a' = drop (length (ll_wire a)) (ll_wire a')"

definition fragments :: "link \<Rightarrow> byte list \<Rightarrow> nat" where
  "fragments a m = length (chunks (maxPayload a) m)"

text \<open>
  C20.  A control session message crosses the link.  A message of any size is cut into fragments of
  the length the peer allows and written, one packet each; when the peer wants acknowledgements the
  window must have room for them all.  The packets may reach the peer in any order within its
  window, and again once they have been delivered; \<open>ks\<close> are the numbers of the packets in the
  order of their arrival.  When each has arrived, exactly the message is in the peer's control queue,
  where it parses to the id and parameters that were sent, with nothing left over, and the links are
  in step for the next one.
\<close>

theorem control_message_crosses_link:
  assumes "in_step a b" "message_fits ps"
    and "has_room (fragments a (encodeMessage i ps) + n) a"
    and "admissible (unat (max_outgoing (ll_lsp b)) + 10) [] ks" "set ks = {..<fragments a (encodeMessage i ps)}"
  shows "\<exists>a' b'. sendControlMessage (encodeMessage i ps) a = (True, a') \<and>
    length (new_writes a a') = fragments a (encodeMessage i ps) \<and>
    receive_chunk (concat (map ((!) (new_writes a a')) ks)) \<lparr>io_rx = [], io_link = b\<rparr> = \<lparr>io_rx = [], io_link = b'\<rparr> \<and>
    control_queue (ll_sessions b') = control_queue (ll_sessions b) @ [encodeMessage i ps] \<and>
    parseMessage (encodeMessage i ps) = Some \<lparr>msg_id = i, msg_params = ps\<rparr> \<and> has_room n a' \<and>
    link_up b' \<and> last_received b' = sent_psn a' \<and> out_of_sequence b' = [] \<and> control_rx (ll_sessions b') = []"
proof -
  let ?m = "encodeMessage i ps" and ?s = "ll_sessions b"
  let ?cs = "chunks (maxPayload a) ?m"
  have step: "link_up b" "unat (max_outgoing (ll_lsp b)) \<le> 245" "last_received b = sent_psn a"
    "out_of_sequence b = []" "control_rx ?s = []"
    using assms(1) by (simp_all add: in_step_def)
  have m: "?m \<noteq> []" "length ?m \<le> kMaxControlBuffer"
    using assms(2) by (simp_all add: encodeMessage_shape(1) [OF assms(2)] put_be16_def message_fits_def)
  obtain a' where a': "sendControlMessage ?m a = (True, a')" "has_room n a'"
    "new_writes a a' = data_frames kControlSessionId (last_received a) (sent_psn a) ?cs"
    "sent_psn a' = sent_psn a + of_nat (length ?cs)"
    using sendSessionData_has_room [OF assms(3) [unfolded fragments_def] m(1), of kControlSessionId]
    by (auto simp: sendControlMessage_def new_writes_def)
  have ks: "set ks = {..<length ?cs}" using assms(5) by (simp add: fragments_def)
  have "\<forall>c \<in> set ?cs. c \<noteq> [] \<and> length c \<le> 65525"
    using chunks_bounds maxPayload_bounds(2) [of a] by (meson le_trans)
  from process_rx_arrivals [OF step(1) _ this, of ks kControlSessionId "last_received a" "sent_psn a"] ks
  obtain b' where b': "process_rx (concat (map ((!) (new_writes a a')) ks)) b = ([], b')" "link_up b'"
    "b' = receive_stream ((!) ?cs) (\<lambda>_. kControlSessionId) (last_received b) (map (\<lambda>k. (k, last_received a)) ks) b"
    unfolding a'(3) step(3) by blast
  have r3: "receiver3 b' = (sent_psn a', [], fold (\<lambda>c. deliver c kControlSessionId) ?cs ?s)"
    unfolding b'(3) receive_every_packet [OF step(2,4) assms(4) ks] by (simp add: step(3) a'(4))
  have cat: "concat ?cs = ?m" by (rule concat_chunks [OF maxPayload_bounds(1)])
  have "?cs \<noteq> []" using cat m(1) by auto
  then have "fold ctl.take_in ?cs ([], control_queue ?s) = ([], control_queue ?s @ [?m])"
    using ctl.take_in_chunks [of "hd ?cs" "tl ?cs"] cat split_one_message [OF assms(2)]
    by (simp add: ctl.take_in_def split_onto_def)
  then have "ll_sessions b' = ?s\<lparr>control_rx := [], control_queue := control_queue ?s @ [?m]\<rparr>"
    using r3 deliver_control_all [of ?s ?cs] cat m(2) step(5) by (simp add: receiver3_def)
  then have "control_rx (ll_sessions b') = []" "control_queue (ll_sessions b') = control_queue ?s @ [?m]" by simp_all
  moreover have "last_received b' = sent_psn a'" "out_of_sequence b' = []" using r3 by (simp_all add: receiver3_def)
  moreover have "receive_chunk (concat (map ((!) (new_writes a a')) ks)) \<lparr>io_rx = [], io_link = b\<rparr> =
      \<lparr>io_rx = [], io_link = b'\<rparr>"
    using b'(1) by (simp add: receive_chunk_def)
  moreover have "length (new_writes a a') = fragments a ?m" by (simp add: a'(3) fragments_def)
  ultimately show ?thesis
    using a'(1,2) b'(2) encodeMessage_parses [OF assms(2), of i "[]"] unfolding append_Nil2 by blast
qed


text \<open>A link that has negotiated the given parameters.\<close>

definition negotiated :: "link_sync \<Rightarrow> link" where
  "negotiated s =
     handlePacket \<lparr>lh_length = 20, lh_control = kControlSyn OR kControlAck, lh_seq = 42, lh_ack = 99, lh_session = 0\<rparr>
       (Some (pack_sync s)) (snd (start_link (new_link (\<lambda>_ _. True) example_config)))"

lemma parse_pack_sync:
  assumes "lsp_sessions s = []"
  shows "parse_sync (pack_sync s) = Some s"
proof -
  have "hi8 w # lo8 w # r = put_be16 w @ r" for w r by (simp add: put_be16_def)
  then show ?thesis
    using assms by (simp add: parse_sync_def pack_sync_def put_be16_def get_be16_def)
qed

definition example_params :: "param list" where
  "example_params = [\<lparr>param_id = 1, param_data = [1, 2, 3, 4, 5, 6, 7, 8, 9]\<rparr>]"

lemmas negotiated_defs = negotiated_def handlePacket_def handle_body_def handleSyn_def handleAck_def
  acknowledge_def start_link_def sendDetectMarker_def sendNegotiate_def new_link_def example_config_def send_defs

lemma negotiated_fields:
  assumes "lsp_sessions s = []"
  shows "accepting (negotiated s)" "ll_state (negotiated s) = kNormal" "ll_lsp (negotiated s) = s"
    "queued (negotiated s) = []" "unacked (negotiated s) = []" "sent_psn (negotiated s) = 99"
    "last_sent_acknowledged (negotiated s) = 99" "last_received (negotiated s) = 42"
    "out_of_sequence (negotiated s) = []" "ll_sessions (negotiated s) = no_sessions"
  using assms by (simp_all add: negotiated_defs parse_pack_sync writePacket_accepting accepting_def Let_def timer_defs)

text \<open>A peer that wants acknowledgements, with room for four packets; the second overtakes the first and comes again.\<close>

definition example_sync :: link_sync where
  "example_sync = \<lparr>max_outgoing = 4, max_len = 20, retransmission_timeout = 1000, ack_timeout = 0,
     max_retransmissions = 4, max_ack = 3, lsp_sessions = []\<rparr>"

definition example_peer :: link where
  "example_peer = (negotiated example_sync)\<lparr>last_received := 99\<rparr>"

lemma in_step_example: "in_step (negotiated example_sync) example_peer" "control_queue (ll_sessions example_peer) = []"
  using negotiated_fields [of example_sync]
  by (simp_all add: in_step_def example_peer_def no_sessions_def link_up_def example_sync_def)

lemma mex_example: "mex [] = 0" "mex [Suc 0] = 0" "mex [Suc 0, 0] = 2"
  by (rule mex_unique; auto simp: less_Suc_eq numeral_2_eq_2)+

theorem control_message_crosses_link_witness:
  "\<exists>a' b'. sendControlMessage (encodeMessage 0x1D00 example_params) (negotiated example_sync) = (True, a') \<and>
    receive_chunk (concat (map ((!) (new_writes (negotiated example_sync) a')) [1, 0, 1])) \<lparr>io_rx = [], io_link = example_peer\<rparr> =
      \<lparr>io_rx = [], io_link = b'\<rparr> \<and>
    control_queue (ll_sessions b') = [encodeMessage 0x1D00 example_params]"
proof -
  let ?a = "negotiated example_sync" and ?m = "encodeMessage 0x1D00 example_params"
  have fits: "message_fits example_params"
    by (simp add: message_fits_def param_ok_def example_params_def Let_def put_be16_def)
  have sync: "lsp_sessions example_sync = []" by (simp add: example_sync_def)
  note n = negotiated_fields [OF sync]
  have "maxPayload ?a = 10" by (simp add: maxPayload_def n) (simp add: example_sync_def)
  moreover have "length ?m = 19"
    using encodeMessage_shape(1) [OF fits, of "0x1D00"]
    by (simp add: example_params_def put_be16_def)
  moreover from this have "?m \<noteq> []" by auto
  ultimately have f: "fragments ?a ?m = 2"
    by (simp add: fragments_def chunks.simps [of 10 ?m] chunks.simps [of 10 "drop 10 ?m"] chunks.simps [of 10 "[]"])
  have room: "has_room (fragments ?a ?m + 1) ?a"
    unfolding f by (simp add: has_room_def n unacknowledged_def in_flight_def sequenceDistance_def)
      (simp add: example_sync_def exI [of _ "99 :: byte"])
  have adm: "admissible (unat (max_outgoing (ll_lsp example_peer)) + 10) [] [1, 0, 1]"
    by (simp add: mex_example example_peer_def n) (simp add: example_sync_def)
  have "set [1, 0, 1] = {..<fragments ?a ?m}" unfolding f by auto
  from control_message_crosses_link [OF in_step_example(1) fits room adm this] in_step_example(2)
  show ?thesis by auto
qed

section \<open>Retransmission is bounded\<close>

text \<open>What the program and the peer can do to a link.\<close>

datatype link_op = OpStart | OpSend byte "byte list" | OpPacket link_header "byte list option"
  | OpTimers nat | OpDrain | OpClose

fun link_exec :: "link_op \<Rightarrow> link \<Rightarrow> link" where
  "link_exec OpStart l = snd (start_link l)"
| "link_exec (OpSend sid bs) l = snd (sendSessionData sid bs l)"
| "link_exec (OpPacket h payload) l = handlePacket h payload l"
| "link_exec (OpTimers t) l = fireTimers (l\<lparr>ll_now := t\<rparr>)"
| "link_exec OpDrain l = l\<lparr>ll_sessions := drainControlQueue (ll_sessions l)\<rparr>"
| "link_exec OpClose l = close_link l"


text \<open>Steps that leave the limit and the unacknowledged packets alone and at most kill the link.\<close>

definition harmless :: "link \<Rightarrow> link \<Rightarrow> bool" where
  "harmless l l' \<longleftrightarrow> unacked l' = unacked l \<and> ll_lsp l' = ll_lsp l \<and> (ll_state l' = ll_state l \<or> ll_state l' = kDead)"






lemma harmless_update [simp]:
  "harmless l (l'\<lparr>last_acked := b\<rparr>) = harmless l l'" "harmless l (l'\<lparr>cumulative_received := n\<rparr>) = harmless l l'"
  "harmless l (l'\<lparr>queued := ps\<rparr>) = harmless l l'" "harmless l (l'\<lparr>ll_sessions := s\<rparr>) = harmless l l'"
  "harmless l (l'\<lparr>out_of_sequence := buf\<rparr>) = harmless l l'" "harmless l (l'\<lparr>last_received := a\<rparr>) = harmless l l'"
  "harmless l (l'\<lparr>ll_now := t\<rparr>) = harmless l l'" "harmless l (l'\<lparr>marker_deadline := d\<rparr>) = harmless l l'"
  "harmless l (l'\<lparr>negotiate_deadline := d\<rparr>) = harmless l l'" "harmless l (l'\<lparr>send_ack_deadline := d\<rparr>) = harmless l l'"
  "harmless l (l'\<lparr>recv_ack_deadline := d\<rparr>) = harmless l l'" "harmless l (l'\<lparr>sent_psn := a\<rparr>) = harmless l l'"
  by (simp_all add: harmless_def)


















text \<open>
  What reaches the wire.  A data packet is one with a payload and no control bit but the
  acknowledgement; the others are markers, negotiations, acknowledgements and requests.
\<close>

definition is_data :: "byte list \<Rightarrow> bool" where
  "is_data bs \<longleftrightarrow> kLinkHeaderSize < length bs \<and> bs ! 4 = kControlAck"

definition data_writes :: "link \<Rightarrow> nat" where
  "data_writes l = length (filter is_data (ll_wire l))"








text \<open>Steps that write no data packet and neither queue nor forget one.\<close>

definition quiet :: "link \<Rightarrow> link \<Rightarrow> bool" where
  "quiet l l' \<longleftrightarrow> data_writes l' = data_writes l \<and> unacked l' = unacked l \<and> queued l' = queued l \<and>
     ll_lsp l' = ll_lsp l \<and> (ll_state l' = ll_state l \<or> ll_state l' = kDead)"


lemma quiet_refl [simp]: "quiet l l"
  by (simp add: quiet_def)



lemma quiet_update [simp]:
  "quiet l (l'\<lparr>last_acked := b\<rparr>) = quiet l l'" "quiet l (l'\<lparr>cumulative_received := n\<rparr>) = quiet l l'"
  "quiet l (l'\<lparr>ll_sessions := s\<rparr>) = quiet l l'" "quiet l (l'\<lparr>out_of_sequence := buf\<rparr>) = quiet l l'"
  "quiet l (l'\<lparr>last_received := a\<rparr>) = quiet l l'" "quiet l (l'\<lparr>ll_now := t\<rparr>) = quiet l l'"
  "quiet l (l'\<lparr>marker_deadline := d\<rparr>) = quiet l l'" "quiet l (l'\<lparr>negotiate_deadline := d\<rparr>) = quiet l l'"
  "quiet l (l'\<lparr>send_ack_deadline := d\<rparr>) = quiet l l'" "quiet l (l'\<lparr>recv_ack_deadline := d\<rparr>) = quiet l l'"
  by (simp_all add: quiet_def data_writes_def)
























section \<open>The window is read in two ways\<close>

definition windowed_sync :: link_sync where
  "windowed_sync = \<lparr>max_outgoing = 1, max_len = 1000, retransmission_timeout = 1000, ack_timeout = 0,
     max_retransmissions = 4, max_ack = 3, lsp_sessions = []\<rparr>"

text \<open>A normal link with the window of one packet: what waits, its numbers, and what is unacknowledged.\<close>

definition window_at :: "out_packet list \<Rightarrow> byte \<Rightarrow> int \<Rightarrow> byte list \<Rightarrow> link \<Rightarrow> bool" where
  "window_at q psn ack flight l \<longleftrightarrow> accepting l \<and> ll_state l = kNormal \<and> ll_lsp l = windowed_sync \<and> queued l = q \<and>
     sent_psn l = psn \<and> last_sent_acknowledged l = ack \<and> last_received l = 42 \<and> map op_psn (unacked l) = flight"

lemma window_at_enqueue:
  assumes "window_at q psn ack flight l" "sequenceDistance psn ack \<le> 1"
  shows "window_at q (psn + 1) ack (flight @ [psn + 1]) (enqueuePacket (new_out_packet sid c) l)"
    "ll_wire (enqueuePacket (new_out_packet sid c) l) = ll_wire l @ [packet_frame c (psn + 1) kControlAck 42 sid]"
    "cumulative_received (enqueuePacket (new_out_packet sid c) l) = 0"
proof -
  have "\<not> 1 < sequenceDistance psn ack" using assms(2) by simp
  with assms(1) show "window_at q (psn + 1) ack (flight @ [psn + 1]) (enqueuePacket (new_out_packet sid c) l)"
    "ll_wire (enqueuePacket (new_out_packet sid c) l) = ll_wire l @ [packet_frame c (psn + 1) kControlAck 42 sid]"
    "cumulative_received (enqueuePacket (new_out_packet sid c) l) = 0"
    by (simp_all add: window_at_def in_flight_def windowed_sync_def enqueuePacket_def Let_def send_defs timer_defs
      writePacket_accepting new_out_packet_def)
qed

lemma window_at_wait:
  assumes "window_at q psn ack flight l" "1 < sequenceDistance psn ack"
  shows "enqueuePacket p l = l\<lparr>queued := q @ [p]\<rparr>" "window_at (q @ [p]) psn ack flight (l\<lparr>queued := q @ [p]\<rparr>)"
  using assms by (simp_all add: window_at_def in_flight_def windowed_sync_def enqueuePacket_def)

lemma window_at_send:
  assumes "window_at q psn ack flight l"
  shows "link_exec (OpSend sid [b]) l = enqueuePacket (new_out_packet sid [b]) l"
proof -
  have l: "ll_lsp l = windowed_sync" "ll_state l = kNormal" using assms by (simp_all add: window_at_def)
  then have "chunks (maxPayload l) [b] = [[b]]"
    by (simp add: maxPayload_def windowed_sync_def chunks.simps [of _ "[b]"] chunks.simps [of _ "[]"])
  with l show ?thesis by (simp add: sendSessionData_def Let_def)
qed

text \<open>
  Packets overtake each other: a packet that waits for the window is sent when fewer than
  \<open>max_outgoing\<close> are in flight, a new one already when no more than \<open>max_outgoing\<close> are, so with the
  window exactly full a payload sent later goes out, with the lower sequence number, ahead of one
  that waits, and the peer gets the payloads in the wrong order.
\<close>

theorem link_send_overtakes:
  "let l0 = negotiated windowed_sync;
       ack = OpPacket \<lparr>lh_length = 9, lh_control = kControlAck, lh_seq = 42, lh_ack = 100, lh_session = 0\<rparr> None;
       l = fold link_exec [OpSend 12 [1], OpSend 12 [2], OpSend 12 [3], ack, OpSend 12 [4]] l0
   in ll_wire l = ll_wire l0 @ [packet_frame [1] 100 kControlAck 42 12, packet_frame [2] 101 kControlAck 42 12,
        packet_frame [4] 102 kControlAck 42 12] \<and>
      map op_data (queued l) = [[3]]"
proof -
  let ?l0 = "negotiated windowed_sync" and ?q = "\<lambda>b. new_out_packet 12 [b]"
  let ?h = "\<lparr>lh_length = 9, lh_control = kControlAck, lh_seq = 42, lh_ack = 100, lh_session = 0\<rparr>"
  have dist: "sequenceDistance 99 99 = 0" "sequenceDistance 100 99 = 1" "sequenceDistance 101 99 = 2"
    "sequenceDistance 100 100 = 0" "sequenceDistance 101 100 = 1" by (simp_all add: sequenceDistance_def)
  define l1 where "l1 = enqueuePacket (?q 1) ?l0"
  define l2 where "l2 = enqueuePacket (?q 2) l1"
  define l3 where "l3 = l2\<lparr>queued := [?q 3]\<rparr>"
  define l4 where "l4 = handlePacket ?h None l3"
  have w0: "window_at [] 99 99 [] ?l0"
    using negotiated_fields [of windowed_sync] by (simp add: window_at_def) (simp add: windowed_sync_def)
  have w1: "window_at [] 100 99 [100] l1" "ll_wire l1 = ll_wire ?l0 @ [packet_frame [1] 100 kControlAck 42 12]"
    using window_at_enqueue [OF w0, of 12 "[1]"] by (simp_all add: l1_def dist)
  have w2: "window_at [] 101 99 [100, 101] l2" "ll_wire l2 = ll_wire l1 @ [packet_frame [2] 101 kControlAck 42 12]"
    "cumulative_received l2 = 0"
    using window_at_enqueue [OF w1(1), of 12 "[2]"] by (simp_all add: l2_def dist)
  have w3: "window_at [?q 3] 101 99 [100, 101] l3" "enqueuePacket (?q 3) l2 = l3" "ll_wire l3 = ll_wire l2"
    using window_at_wait [OF w2(1), of "?q 3"] by (simp_all add: l3_def dist)
  obtain p1 p2 where "unacked l3 = [p1, p2]" "op_psn p1 = 100" "op_psn p2 = 101" using w3(1) by (auto simp: window_at_def)
  then have w4: "window_at [?q 3] 101 100 [101] l4" "ll_wire l4 = ll_wire l3"
    using w3(1) w2(3) by (simp_all add: window_at_def l4_def handlePacket_def handle_body_def handleAck_def acknowledge_def
      outstanding_def in_flight_def timer_defs Let_def dist windowed_sync_def) (simp_all add: l3_def)
  have w5: "window_at [?q 3] 102 100 [101, 102] (enqueuePacket (?q 4) l4)"
    "ll_wire (enqueuePacket (?q 4) l4) = ll_wire l4 @ [packet_frame [4] 102 kControlAck 42 12]"
    using window_at_enqueue [OF w4(1), of 12 "[4]"] by (simp_all add: dist)
  have "fold link_exec [OpSend 12 [1], OpSend 12 [2], OpSend 12 [3], OpPacket ?h None, OpSend 12 [4]] ?l0 = enqueuePacket (?q 4) l4"
    using w3(2) by (simp add: window_at_send [OF w0] window_at_send [OF w1(1)] window_at_send [OF w2(1)]
      window_at_send [OF w4(1)] l1_def [symmetric] l2_def [symmetric] l4_def [symmetric] del: link_exec.simps(2))
  with w1(2) w2(2) w3(3) w4(2) w5 show ?thesis by (simp add: Let_def window_at_def new_out_packet_def)
qed

end
