(* ===== verification/Gsof.thy ===== *)
theory Gsof
  imports Prelude
begin

text \<open>
  libs/gsof: the DCOL packet (trimcomm.h) and the framer that cuts a byte stream into packets
  (framer.cpp).  A packet view is its three fields; the buffer of the framer is a byte list and a
  count of consumed bytes.  The 64-bit statistics are natural numbers.
\<close>

section \<open>Errors\<close>

datatype gsof_error_kind =
  Truncated | BadChecksum | BadFraming | GLengthMismatch | UnknownRecord | PageOutOfOrder | TooLong

record gsof_error =
  ge_kind :: gsof_error_kind
  ge_recordType :: byte
  ge_offset :: u16

definition gerror :: "gsof_error_kind \<Rightarrow> nat \<Rightarrow> gsof_error" where
  "gerror k off = \<lparr>ge_kind = k, ge_recordType = 0, ge_offset = of_nat off\<rparr>"

lemma gerror_kind [simp]: "ge_kind (gerror k off) = k"
  by (simp add: gerror_def)

section \<open>The packet\<close>

abbreviation (input) "kStx \<equiv> 0x02 :: byte"
abbreviation (input) "kEtx \<equiv> 0x03 :: byte"
abbreviation (input) "kHeaderSize \<equiv> 4 :: nat"
abbreviation (input) "kOverheadSize \<equiv> 6 :: nat"
abbreviation (input) "kMaxDataSize \<equiv> 255 :: nat"
abbreviation (input) "kMaxPacketSize \<equiv> 261 :: nat"

record packet_view =
  pv_status :: byte
  pv_type :: byte
  pv_data :: "byte list"

definition checksum :: "byte \<Rightarrow> byte \<Rightarrow> byte list \<Rightarrow> byte" where
  "checksum st ty data = foldl (+) (st + ty + of_nat (length data)) data"

definition packet_size :: "byte \<Rightarrow> nat" where
  "packet_size n = unat n + kOverheadSize"

definition parse_packet :: "byte list \<Rightarrow> gsof_error + packet_view" where
  "parse_packet bs =
     (if length bs < kOverheadSize then Inl (gerror Truncated 0)
      else if bs ! 0 \<noteq> kStx then Inl (gerror BadFraming 0)
      else
        let st = bs ! 1; ty = bs ! 2; n = bs ! 3; tot = packet_size n in
        if length bs < tot then Inl (gerror Truncated (length bs))
        else if bs ! (tot - 1) \<noteq> kEtx then Inl (gerror BadFraming (tot - 1))
        else
          let data = take (unat n) (drop kHeaderSize bs) in
          if bs ! (tot - 2) \<noteq> checksum st ty data then Inl (gerror BadChecksum (tot - 2))
          else Inr \<lparr>pv_status = st, pv_type = ty, pv_data = data\<rparr>)"

definition make_packet :: "byte \<Rightarrow> byte list \<Rightarrow> byte \<Rightarrow> byte list" where
  "make_packet ty data st =
     [kStx, st, ty, of_nat (length data)] @ data @ [checksum st ty data, kEtx]"

text \<open>The runtime form writes into the caller's buffer and returns the bytes used.\<close>

definition encode_packet :: "byte \<Rightarrow> byte list \<Rightarrow> byte list \<Rightarrow> byte \<Rightarrow> gsof_error + (nat \<times> byte list)" where
  "encode_packet ty data out st =
     (if kMaxDataSize < length data then Inl (gerror TooLong (length data))
      else
        let tot = length data + kOverheadSize in
        if length out < tot then Inl (gerror Truncated (length out))
        else
          let out1 = write_at out 0 [kStx, st, ty, of_nat (length data)];
              out2 = write_at out1 kHeaderSize data
          in Inr (tot, (out2[tot - 2 := checksum st ty data])[tot - 1 := kEtx]))"

definition packet_ok :: "packet_view \<Rightarrow> bool" where
  "packet_ok p \<longleftrightarrow> length (pv_data p) \<le> kMaxDataSize"

definition enc_packet :: "packet_view \<Rightarrow> byte list" where
  "enc_packet p = make_packet (pv_type p) (pv_data p) (pv_status p)"

lemma length_make_packet: "length (make_packet ty data st) = length data + 6"
  by (simp add: make_packet_def)

lemma length_enc_packet [simp]: "length (enc_packet p) = length (pv_data p) + 6"
  by (simp add: enc_packet_def make_packet_def)

lemma parse_enc_packet:
  assumes "packet_ok p"
  shows "parse_packet (enc_packet p @ rest) = Inr p"
proof -
  let ?n = "length (pv_data p)"
  have n: "unat (of_nat ?n :: byte) = ?n"
    using assms by (intro unat_of_nat_small) (simp add: packet_ok_def)
  let ?bs = "enc_packet p @ rest"
  have nth: "?bs ! 0 = 0x02" "?bs ! 1 = pv_status p" "?bs ! 2 = pv_type p" "?bs ! 3 = of_nat ?n"
    "?bs ! (5 + ?n) = 0x03" "?bs ! (4 + ?n) = checksum (pv_status p) (pv_type p) (pv_data p)"
    "drop 4 ?bs = pv_data p @ [checksum (pv_status p) (pv_type p) (pv_data p), 0x03] @ rest"
    by (simp_all add: enc_packet_def make_packet_def nth_append nth_Cons' numeral_eq_Suc)
  have s: "packet_size (of_nat ?n) = ?n + 6" by (simp add: packet_size_def n)
  show ?thesis
    unfolding parse_packet_def Let_def nth s n by (simp add: nth(5,6))
qed

lemma parse_packet_inv:
  assumes "parse_packet bs = Inr p"
  shows "packet_ok p \<and> bs = enc_packet p @ drop (length (pv_data p) + 6) bs \<and> length (pv_data p) + 6 \<le> length bs"
proof -
  let ?n = "unat (bs ! 3)"
  from assms have len: "6 \<le> length bs" "?n + 6 \<le> length bs" and stx: "bs ! 0 = 0x02"
    and etx: "bs ! (5 + ?n) = 0x03" and data: "pv_data p = take ?n (drop 4 bs)"
    and st: "pv_status p = bs ! 1" and ty: "pv_type p = bs ! 2"
    and cs: "bs ! (4 + ?n) = checksum (pv_status p) (pv_type p) (pv_data p)"
    by (auto simp: parse_packet_def packet_size_def Let_def split: if_splits)
  have n: "length (pv_data p) = ?n" using data len by simp
  have lenb: "of_nat (length (pv_data p)) = bs ! 3" by (simp only: n of_nat_unat ucast_id)
  have "take (?n + 6) bs = enc_packet p"
  proof (rule nth_equalityI)
    show "length (take (?n + 6) bs) = length (enc_packet p)" using len n by simp
    fix i assume "i < length (take (?n + 6) bs)"
    then have i: "i < ?n + 6" using len by simp
    then consider "i < 4" | "4 \<le> i" "i < ?n + 4" | "i = ?n + 4" | "i = ?n + 5" by linarith
    then show "take (?n + 6) bs ! i = enc_packet p ! i"
    proof cases
      case 1
      then have "i = 0 \<or> i = 1 \<or> i = 2 \<or> i = 3" by auto
      then show ?thesis using stx st ty lenb by (auto simp: enc_packet_def make_packet_def)
    next
      case 2
      then obtain k where k: "i = 4 + k" "k < ?n" by (metis le_Suc_ex less_diff_conv add.commute add_diff_cancel_left')
      then have "enc_packet p ! i = pv_data p ! k"
        using n by (simp add: enc_packet_def make_packet_def nth_append)
      also have "\<dots> = bs ! i" using k len n unfolding data by simp
      finally show ?thesis using i by simp
    qed (use i n cs etx in \<open>simp_all add: add.commute [of ?n] enc_packet_def make_packet_def nth_append nth_Cons' numeral_eq_Suc\<close>)
  qed
  then have "bs = enc_packet p @ drop (?n + 6) bs" by (metis append_take_drop_id)
  with n len show ?thesis
    using unat_byte_bound [of "bs ! 3"] by (simp add: packet_ok_def del: unat_byte_bound)
qed

definition dec_packet :: "byte list \<Rightarrow> (packet_view \<times> byte list) option" where
  "dec_packet bs =
     (case parse_packet bs of Inl e \<Rightarrow> None | Inr p \<Rightarrow> Some (p, drop (length (pv_data p) + 6) bs))"

interpretation dcol: prefix_codec enc_packet dec_packet packet_ok
proof unfold_locales
  show "packet_ok p \<Longrightarrow> dec_packet (enc_packet p @ rest) = Some (p, rest)" for p rest
    by (simp add: dec_packet_def parse_enc_packet)
  show "packet_ok p \<Longrightarrow> enc_packet p \<noteq> []" for p by (simp add: enc_packet_def make_packet_def)
qed

text \<open>
  A DCOL packet is what it says: an encoded packet parses to itself in front of anything,
  and whatever parses is, byte for byte, the encoding of the packet that was read (start marker,
  length, checksum and end marker all agree).
\<close>

theorem dcol_packet_exact:
  assumes "packet_ok p"
  shows "parse_packet bs = Inr p \<longleftrightarrow> (\<exists>rest. bs = enc_packet p @ rest)"
  using parse_packet_inv [of bs p] parse_enc_packet [OF assms] by blast

theorem dcol_packet_exact_witness:
  "parse_packet [2, 0, 6, 0, 6, 3, 99] = Inr \<lparr>pv_status = 0, pv_type = 6, pv_data = []\<rparr> \<longleftrightarrow>
    (\<exists>rest. [2, 0, 6, 0, 6, 3, 99] = enc_packet \<lparr>pv_status = 0, pv_type = 6, pv_data = []\<rparr> @ rest)"
  by (rule dcol_packet_exact) (simp add: packet_ok_def)

text \<open>The runtime encoder writes exactly the packet at the front of the caller's buffer and nothing after it.\<close>

theorem encode_packet_writes:
  assumes "length data \<le> 255" "length data + 6 \<le> length out"
  shows "encode_packet ty data out st =
    Inr (length data + 6, make_packet ty data st @ drop (length data + 6) out)"
proof -
  let ?n = "length data"
  let ?out = "write_at (write_at out 0 [0x02, st, ty, of_nat ?n]) 4 data"
  let ?res = "(?out[4 + ?n := checksum st ty data])[5 + ?n := 0x03]"
  have "?res = make_packet ty data st @ drop (?n + 6) out"
  proof (rule nth_equalityI)
    show "length ?res = length (make_packet ty data st @ drop (?n + 6) out)"
      using assms(2) by (simp add: make_packet_def)
    fix i assume "i < length ?res"
    then have i: "i < length out" by simp
    consider "i < 4" | "4 \<le> i" "i < ?n + 4" | "i = ?n + 4" | "i = ?n + 5" | "?n + 6 \<le> i" by linarith
    then show "?res ! i = (make_packet ty data st @ drop (?n + 6) out) ! i"
    proof cases
      case 1
      then have "i = 0 \<or> i = 1 \<or> i = 2 \<or> i = 3" by auto
      moreover have "out \<noteq> []" using assms(2) by auto
      ultimately show ?thesis using assms(2)
        by (auto simp: make_packet_def nth_append nth_list_update numeral_eq_Suc)
    next
      case 2
      then obtain k where k: "i = 4 + k" "k < ?n" by (metis le_Suc_ex less_diff_conv add.commute add_diff_cancel_left')
      then have "?out ! i = data ! k"
        using assms(2) write_at_inside [of k data 4] by simp
      with k show ?thesis by (simp add: make_packet_def nth_append)
    next
      case 5
      then have "?res ! i = out ! i" by (simp add: write_at_after)
      with 5 i show ?thesis by (simp add: length_make_packet nth_append)
    qed (use assms(2) in \<open>simp_all add: make_packet_def nth_append nth_Cons' numeral_eq_Suc\<close>)
  qed
  with assms show ?thesis by (simp add: encode_packet_def Let_def)
qed

theorem encode_packet_writes_witness:
  "encode_packet 0x6F [] (replicate 8 0) 0 = Inr (6, make_packet 0x6F [] 0 @ [0, 0])"
  using encode_packet_writes [of "[]" "replicate 8 0" "0x6F" 0] by (simp add: numeral_eq_Suc)

section \<open>The framer\<close>

record framer_stats =
  fs_packets :: nat
  checksumErrors :: nat
  framingErrors :: nat
  resyncs :: nat
  droppedBytes :: nat
  fs_overflows :: nat

record framer =
  mBuffer :: "byte list"
  mConsumed :: nat
  mMaxBuffer :: nat
  mStats :: framer_stats

definition new_framer :: "nat \<Rightarrow> framer" where
  "new_framer maxBuffer =
     \<lparr>mBuffer = [], mConsumed = 0, mMaxBuffer = max maxBuffer kMaxPacketSize,
      mStats = \<lparr>fs_packets = 0, checksumErrors = 0, framingErrors = 0, resyncs = 0, droppedBytes = 0, fs_overflows = 0\<rparr>\<rparr>"

definition framer_push :: "byte list \<Rightarrow> framer \<Rightarrow> framer" where
  "framer_push bs f =
     (let f1 = (if mConsumed f \<noteq> 0 then f\<lparr>mBuffer := drop (mConsumed f) (mBuffer f), mConsumed := 0\<rparr> else f);
          f2 = f1\<lparr>mBuffer := mBuffer f1 @ bs\<rparr>
      in if mMaxBuffer f2 < length (mBuffer f2) then
           f2\<lparr>mStats := (mStats f2)\<lparr>droppedBytes := droppedBytes (mStats f2) + length (mBuffer f2),
                                    fs_overflows := fs_overflows (mStats f2) + 1\<rparr>, mBuffer := []\<rparr>
         else f2)"

text \<open>The hunt for the next start marker, from an index on.\<close>

function find_stx :: "byte list \<Rightarrow> nat \<Rightarrow> nat" where
  "find_stx bs i = (if i < length bs \<and> bs ! i \<noteq> kStx then find_stx bs (Suc i) else i)"
  by auto
termination
  by (relation "measure (\<lambda>(bs, i). length bs - i)") auto

declare find_stx.simps [simp del]

definition framer_resync :: "framer \<Rightarrow> framer" where
  "framer_resync f =
     (let s = find_stx (mBuffer f) (mConsumed f + 1) in
      f\<lparr>mStats := (mStats f)\<lparr>resyncs := resyncs (mStats f) + 1,
                             droppedBytes := droppedBytes (mStats f) + (s - mConsumed f)\<rparr>,
        mConsumed := s\<rparr>)"

definition count_error :: "gsof_error_kind \<Rightarrow> framer \<Rightarrow> framer" where
  "count_error k f =
     (case k of
        BadChecksum \<Rightarrow> f\<lparr>mStats := (mStats f)\<lparr>checksumErrors := checksumErrors (mStats f) + 1\<rparr>\<rparr>
      | BadFraming \<Rightarrow>
          if mBuffer f ! mConsumed f = kStx
          then f\<lparr>mStats := (mStats f)\<lparr>framingErrors := framingErrors (mStats f) + 1\<rparr>\<rparr> else f
      | _ \<Rightarrow> f)"

lemma count_error_fields [simp]:
  "mBuffer (count_error k f) = mBuffer f" "mConsumed (count_error k f) = mConsumed f"
  "mMaxBuffer (count_error k f) = mMaxBuffer f" "droppedBytes (mStats (count_error k f)) = droppedBytes (mStats f)"
  "fs_packets (mStats (count_error k f)) = fs_packets (mStats f)"
  by (simp_all add: count_error_def split: gsof_error_kind.split)

lemma find_stx_ge: "i \<le> find_stx bs i"
  by (induction bs i rule: find_stx.induct) (subst find_stx.simps, auto simp: Suc_leD)

lemma find_stx_le: "i \<le> length bs \<Longrightarrow> find_stx bs i \<le> length bs"
  by (induction bs i rule: find_stx.induct) (subst find_stx.simps, auto)

function framer_next :: "framer \<Rightarrow> packet_view option \<times> framer" where
  "framer_next f =
     (if length (mBuffer f) \<le> mConsumed f then (None, f)
      else case parse_packet (drop (mConsumed f) (mBuffer f)) of
             Inr p \<Rightarrow>
               (Some p, f\<lparr>mConsumed := mConsumed f + packet_size (of_nat (length (pv_data p))),
                          mStats := (mStats f)\<lparr>fs_packets := fs_packets (mStats f) + 1\<rparr>\<rparr>)
           | Inl e \<Rightarrow>
               if ge_kind e = Truncated then (None, f)
               else framer_next (framer_resync (count_error (ge_kind e) f)))"
  by auto
termination
proof (relation "measure (\<lambda>f. length (mBuffer f) - mConsumed f)")
  fix f :: framer and e
  assume "\<not> length (mBuffer f) \<le> mConsumed f"
  moreover have "mConsumed f + 1 \<le> find_stx (mBuffer f) (mConsumed f + 1)" by (rule find_stx_ge)
  ultimately show "(framer_resync (count_error (ge_kind e) f), f) \<in> measure (\<lambda>f. length (mBuffer f) - mConsumed f)"
    by (simp add: framer_resync_def Let_def)
qed simp

declare framer_next.simps [simp del]

definition framer_reset :: "framer \<Rightarrow> framer" where
  "framer_reset f = f\<lparr>mBuffer := [], mConsumed := 0\<rparr>"

definition framer_buffered :: "framer \<Rightarrow> nat" where
  "framer_buffered f = length (mBuffer f) - mConsumed f"

section \<open>What the framer computes\<close>

text \<open>The bytes not yet handed out.\<close>

definition window :: "framer \<Rightarrow> byte list" where
  "window f = drop (mConsumed f) (mBuffer f)"

definition to_stx :: "byte list \<Rightarrow> byte list" where
  "to_stx bs = dropWhile (\<lambda>b. b \<noteq> kStx) bs"

text \<open>The abstract scan: packets are taken off the front, a byte that starts none is skipped.\<close>

function scan :: "byte list \<Rightarrow> packet_view list \<times> byte list" where
  "scan bs =
     (if bs = [] then ([], [])
      else case parse_packet bs of
             Inr p \<Rightarrow> (let (ps, r) = scan (drop (length (pv_data p) + 6) bs) in (p # ps, r))
           | Inl e \<Rightarrow> if ge_kind e = Truncated then ([], bs) else scan (to_stx (tl bs)))"
  by auto
termination
proof (relation "measure length")
  fix bs :: "byte list"
  assume "bs \<noteq> []"
  moreover have "length (dropWhile (\<lambda>b. b \<noteq> kStx) (tl bs)) \<le> length (tl bs)" by (rule length_dropWhile_le)
  ultimately show "(to_stx (tl bs), bs) \<in> measure length" by (cases bs) (simp_all add: to_stx_def)
qed auto

declare scan.simps [simp del]

lemma drop_find_stx: "drop (find_stx bs i) bs = to_stx (drop i bs)"
proof (induction bs i rule: find_stx.induct)
  case (1 bs i)
  show ?case
  proof (cases "i < length bs \<and> bs ! i \<noteq> kStx")
    case True
    then have "drop i bs = bs ! i # drop (Suc i) bs" by (simp add: Cons_nth_drop_Suc)
    with True 1 show ?thesis by (subst find_stx.simps) (simp add: to_stx_def)
  next
    case False
    then have "to_stx (drop i bs) = drop i bs"
      by (cases "i < length bs") (auto simp: to_stx_def Cons_nth_drop_Suc [symmetric])
    with False show ?thesis by (subst find_stx.simps) auto
  qed
qed

lemma window_resync: "window (framer_resync f) = to_stx (tl (window f))"
  by (simp add: window_def framer_resync_def Let_def drop_find_stx drop_Suc tl_drop)

lemma window_count_error [simp]: "window (count_error k f) = window f"
  by (simp add: window_def)

lemma window_empty: "window f = [] \<longleftrightarrow> length (mBuffer f) \<le> mConsumed f"
  by (simp add: window_def)

text \<open>Bytes are neither invented nor lost without being counted.\<close>

lemma packet_size_data: "packet_ok p \<Longrightarrow> packet_size (of_nat (length (pv_data p))) = length (pv_data p) + 6"
  by (simp add: packet_size_def packet_ok_def unat_of_nat_small)

lemma window_length_resync:
  assumes "window f \<noteq> []"
  shows "droppedBytes (mStats (framer_resync f)) + length (window (framer_resync f)) =
    droppedBytes (mStats f) + length (window f)" and "mMaxBuffer (framer_resync f) = mMaxBuffer f"
proof -
  have "mConsumed f + 1 \<le> length (mBuffer f)" using assms by (simp add: window_empty)
  then show "droppedBytes (mStats (framer_resync f)) + length (window (framer_resync f)) =
    droppedBytes (mStats f) + length (window f)"
    using find_stx_ge [of "mConsumed f + 1" "mBuffer f"] find_stx_le [of "mConsumed f + 1" "mBuffer f"]
    by (simp add: framer_resync_def Let_def window_def)
qed (simp add: framer_resync_def Let_def)

text \<open>
  One call of \<open>next\<close> hands out the first packet of the scan, and none only when the scan has none;
  in either case the bytes are accounted for.
\<close>

definition next_spec :: "framer \<Rightarrow> packet_view option \<Rightarrow> framer \<Rightarrow> bool" where
  "next_spec f r f' \<longleftrightarrow> mMaxBuffer f' = mMaxBuffer f \<and>
     (case r of
        None \<Rightarrow> scan (window f) = ([], window f') \<and>
          droppedBytes (mStats f') + length (window f') = droppedBytes (mStats f) + length (window f)
      | Some p \<Rightarrow> scan (window f) = (p # fst (scan (window f')), snd (scan (window f'))) \<and>
          droppedBytes (mStats f') + (length (pv_data p) + 6) + length (window f') =
            droppedBytes (mStats f) + length (window f) \<and>
          length (window f') < length (window f))"

lemma framer_next_spec: "next_spec f (fst (framer_next f)) (snd (framer_next f))"
proof (induction f rule: framer_next.induct)
  case (1 f)
  show ?case
  proof (cases "window f = []")
    case True
    then have "length (mBuffer f) \<le> mConsumed f" by (simp add: window_empty)
    with True show ?thesis by (subst (1 2) framer_next.simps) (simp add: next_spec_def scan.simps)
  next
    case ne: False
    then have c: "\<not> length (mBuffer f) \<le> mConsumed f" by (simp add: window_empty)
    have scan: "scan (window f) = (case parse_packet (window f) of
             Inr p \<Rightarrow> (let (ps, r) = scan (drop (length (pv_data p) + 6) (window f)) in (p # ps, r))
           | Inl e \<Rightarrow> if ge_kind e = Truncated then ([], window f) else scan (to_stx (tl (window f))))"
      using ne by (subst scan.simps) simp
    show ?thesis
    proof (cases "parse_packet (window f)")
      case (Inr p)
      from parse_packet_inv [OF this] have p: "packet_ok p" "length (pv_data p) + 6 \<le> length (window f)" by simp_all
      let ?f = "f\<lparr>mConsumed := mConsumed f + packet_size (of_nat (length (pv_data p))),
        mStats := (mStats f)\<lparr>fs_packets := fs_packets (mStats f) + 1\<rparr>\<rparr>"
      have res: "framer_next f = (Some p, ?f)"
        using c Inr by (subst framer_next.simps) (simp add: window_def)
      have w: "window ?f = drop (length (pv_data p) + 6) (window f)"
        by (simp add: window_def packet_size_data [OF p(1)] add.commute)
      with scan Inr p(2) show ?thesis
        by (auto simp: res next_spec_def Let_def split_beta)
    next
      case (Inl e)
      show ?thesis
      proof (cases "ge_kind e = Truncated")
        case True
        with c Inl have "framer_next f = (None, f)"
          by (subst framer_next.simps) (simp add: window_def)
        with scan Inl True show ?thesis by (simp add: next_spec_def)
      next
        case False
        let ?f = "framer_resync (count_error (ge_kind e) f)"
        have eq: "framer_next f = framer_next ?f"
          using c Inl False by (subst framer_next.simps) (simp add: window_def)
        have scan': "scan (window f) = scan (window ?f)"
          using scan Inl False by (simp add: window_resync)
        have acc: "droppedBytes (mStats ?f) + length (window ?f) = droppedBytes (mStats f) + length (window f)"
          "mMaxBuffer ?f = mMaxBuffer f"
          using window_length_resync [of "count_error (ge_kind e) f"] ne by simp_all
        have shrink: "length (window ?f) < length (window f)"
          using ne length_dropWhile_le [of "\<lambda>b. b \<noteq> 2" "tl (window f)"]
          by (cases "window f") (simp_all add: window_resync to_stx_def)
        have "next_spec ?f (fst (framer_next ?f)) (snd (framer_next ?f))"
          using "1.IH" [OF c, of e] Inl False by (simp add: window_def)
        then show ?thesis
          using acc shrink scan' unfolding eq next_spec_def by (auto split: option.splits)
      qed
    qed
  qed
qed

text \<open>The caller's loop: drain the framer after a push.\<close>

function framer_drain :: "framer \<Rightarrow> packet_view list \<times> framer" where
  "framer_drain f =
     (case framer_next f of
        (None, f') \<Rightarrow> ([], f')
      | (Some p, f') \<Rightarrow> (let (ps, f'') = framer_drain f' in (p # ps, f'')))"
  by auto
termination
proof (relation "measure (\<lambda>f. length (window f))", goal_cases)
  case 1
  show ?case by simp
next
  case (2 f x f' p)
  then have "framer_next f = (Some p, f')" by simp
  with framer_next_spec [of f] show ?case by (simp add: next_spec_def)
qed

declare framer_drain.simps [simp del]

definition packets_bytes :: "packet_view list \<Rightarrow> nat" where
  "packets_bytes ps = sum_list (map (\<lambda>p. length (pv_data p) + 6) ps)"

definition drain_spec :: "framer \<Rightarrow> packet_view list \<Rightarrow> framer \<Rightarrow> bool" where
  "drain_spec f ps f' \<longleftrightarrow> scan (window f) = (ps, window f') \<and> mMaxBuffer f' = mMaxBuffer f \<and>
   packets_bytes ps + droppedBytes (mStats f') + length (window f') = droppedBytes (mStats f) + length (window f)"

lemma framer_drain_spec: "drain_spec f (fst (framer_drain f)) (snd (framer_drain f))"
proof (induction f rule: framer_drain.induct)
  case (1 f)
  obtain r f' where n: "framer_next f = (r, f')" by fastforce
  with framer_next_spec [of f] have spec: "next_spec f r f'" by simp
  show ?case
  proof (cases r)
    case None
    with n have "framer_drain f = ([], f')" by (subst framer_drain.simps) simp
    with spec None show ?thesis by (simp add: next_spec_def packets_bytes_def drain_spec_def)
  next
    case (Some p)
    obtain ps f'' where d: "framer_drain f' = (ps, f'')" by fastforce
    have eq: "framer_drain f = (p # ps, f'')"
      using n Some d by (subst framer_drain.simps) simp
    have "drain_spec f' (fst (framer_drain f')) (snd (framer_drain f'))"
      by (rule "1.IH") (use n Some in simp_all)
    with d spec Some eq show ?thesis by (auto simp: next_spec_def packets_bytes_def drain_spec_def)
  qed
qed

section \<open>The packets do not depend on how the stream is cut\<close>

lemma scan_short: "length bs < 6 \<Longrightarrow> scan bs = ([], bs)"
  by (subst scan.simps) (simp add: parse_packet_def)

lemma to_stx_idem [simp]: "to_stx (to_stx bs) = to_stx bs"
  by (simp add: to_stx_def)

lemma to_stx_append: "to_stx (to_stx a @ b) = to_stx (a @ b)"
  by (induction a) (auto simp: to_stx_def)

lemma length_to_stx: "length (to_stx bs) \<le> length bs"
  by (simp add: to_stx_def length_dropWhile_le)

lemma scan_to_stx: "fst (scan (to_stx bs)) = fst (scan bs)"
proof (cases "length bs < 6")
  case True
  with length_to_stx [of bs] show ?thesis by (simp add: scan_short)
next
  case False
  then obtain x t where bs: "bs = x # t" by (cases bs) auto
  show ?thesis
  proof (cases "x = kStx")
    case True
    with bs show ?thesis by (simp add: to_stx_def)
  next
    case x: False
    with bs False have "parse_packet bs = Inl (gerror BadFraming 0)" by (simp add: parse_packet_def)
    with bs have "scan bs = scan (to_stx t)" by (subst scan.simps) simp
    with bs x show ?thesis by (simp add: to_stx_def)
  qed
qed

lemma parse_packet_more:
  assumes "parse_packet bs = Inr p"
  shows "parse_packet (bs @ c) = Inr p"
proof -
  from parse_packet_inv [OF assms] have "packet_ok p" "bs = enc_packet p @ drop (length (pv_data p) + 6) bs" by simp_all
  then show ?thesis by (metis append_assoc parse_enc_packet)
qed

lemma parse_packet_wrong:
  assumes "parse_packet bs = Inl e" "ge_kind e \<noteq> Truncated"
  shows "parse_packet (bs @ c) = Inl e"
proof -
  have nth: "(bs @ c) ! i = bs ! i" if "i < length bs" for i
    using that by (simp add: nth_append)
  have len: "6 \<le> length bs" using assms by (auto simp: parse_packet_def split: if_splits)
  show ?thesis
  proof (cases "bs ! 0 = kStx")
    case False
    moreover have "(bs @ c) ! 0 = bs ! 0" by (rule nth) (use len in linarith)
    ultimately show ?thesis using assms len by (auto simp: parse_packet_def)
  next
    case True
    let ?tot = "packet_size (bs ! 3)"
    have tot: "?tot \<le> length bs"
      using assms len True by (auto simp: parse_packet_def Let_def split: if_splits)
    have data: "take (unat (bs ! 3)) (drop 4 (bs @ c)) = take (unat (bs ! 3)) (drop 4 bs)"
      using tot by (simp add: packet_size_def)
    have idx: "(bs @ c) ! 0 = bs ! 0" "(bs @ c) ! 1 = bs ! 1" "(bs @ c) ! 2 = bs ! 2" "(bs @ c) ! 3 = bs ! 3"
      "(bs @ c) ! (?tot - 1) = bs ! (?tot - 1)" "(bs @ c) ! (?tot - 2) = bs ! (?tot - 2)"
      by (rule nth, use len tot in \<open>simp only: packet_size_def; linarith\<close>)+
    have "\<not> length (bs @ c) < 6" "\<not> length (bs @ c) < ?tot" "\<not> length bs < 6" "\<not> length bs < ?tot"
      using len tot by simp_all
    then have "parse_packet (bs @ c) = parse_packet bs"
      unfolding parse_packet_def Let_def idx data by simp
    with assms(1) show ?thesis by simp
  qed
qed

lemma scan_append: "fst (scan (a @ b)) = fst (scan a) @ fst (scan (snd (scan a) @ b))"
proof (induction a rule: scan.induct)
  case (1 a)
  show ?case
  proof (cases "a = []")
    case True
    then show ?thesis by (simp add: scan_short)
  next
    case ne: False
    show ?thesis
    proof (cases "parse_packet a")
      case (Inr p)
      from parse_packet_inv [OF Inr] have len: "length (pv_data p) + 6 \<le> length a" by simp
      let ?r = "drop (length (pv_data p) + 6) a"
      have "scan a = (p # fst (scan ?r), snd (scan ?r))"
        using ne Inr by (subst scan.simps) (simp add: Let_def split_beta)
      moreover have "fst (scan (a @ b)) = p # fst (scan (?r @ b))"
        using ne parse_packet_more [OF Inr, of b] len by (subst scan.simps) (simp add: Let_def split_beta)
      ultimately show ?thesis using "1.IH"(2) [OF ne Inr] by simp
    next
      case (Inl e)
      show ?thesis
      proof (cases "ge_kind e = Truncated")
        case True
        with ne Inl have "scan a = ([], a)" by (subst scan.simps) simp
        then show ?thesis by simp
      next
        case False
        have a: "scan a = scan (to_stx (tl a))" using ne Inl False by (subst scan.simps) simp
        have "scan (a @ b) = scan (to_stx (tl (a @ b)))"
          using ne parse_packet_wrong [OF Inl False, of b] False by (subst scan.simps) simp
        then have "fst (scan (a @ b)) = fst (scan (to_stx (tl a) @ b))"
          using ne by (metis scan_to_stx to_stx_append tl_append2)
        with "1.IH"(1) [OF ne Inl False] a show ?thesis by simp
      qed
    qed
  qed
qed

lemma scan_rest_bound: "length (snd (scan bs)) \<le> 260"
proof (induction bs rule: scan.induct)
  case (1 bs)
  show ?case
  proof (cases "bs = []")
    case True
    then show ?thesis by (simp add: scan_short)
  next
    case ne: False
    show ?thesis
    proof (cases "parse_packet bs")
      case (Inr p)
      with "1.IH"(2) [OF ne Inr] ne show ?thesis
        by (subst scan.simps) (simp add: Let_def split_beta)
    next
      case (Inl e)
      show ?thesis
      proof (cases "ge_kind e = Truncated")
        case True
        with Inl have "length bs < 6 \<or> length bs < packet_size (bs ! 3)"
          by (auto simp: parse_packet_def Let_def split: if_splits)
        then have "length bs \<le> 260"
          using unat_byte_bound [of "bs ! 3"] by (auto simp: packet_size_def simp del: unat_byte_bound)
        moreover have "scan bs = ([], bs)" using ne Inl True by (subst scan.simps) simp
        ultimately show ?thesis by simp
      next
        case False
        then have "scan bs = scan (to_stx (tl bs))" using ne Inl by (subst scan.simps) simp
        with "1.IH"(1) [OF ne Inl False] show ?thesis by simp
      qed
    qed
  qed
qed

text \<open>A connection: each chunk is pushed and the framer drained.\<close>

fun feed_chunks :: "byte list list \<Rightarrow> framer \<Rightarrow> packet_view list \<times> framer" where
  "feed_chunks [] f = ([], f)"
| "feed_chunks (c # cs) f =
     (let (ps, f1) = framer_drain (framer_push c f); (qs, f2) = feed_chunks cs f1 in (ps @ qs, f2))"

lemma framer_push_window:
  assumes "length (window f @ c) \<le> mMaxBuffer f"
  shows "window (framer_push c f) = window f @ c" "mMaxBuffer (framer_push c f) = mMaxBuffer f"
    "droppedBytes (mStats (framer_push c f)) = droppedBytes (mStats f)"
  using assms by (auto simp: framer_push_def window_def Let_def not_less)

lemma feed_chunks_scan:
  assumes "\<forall>c\<in>set cs. length c + 260 \<le> mMaxBuffer f" "length (window f) \<le> 260"
  shows "fst (feed_chunks cs f) = (if cs = [] then [] else fst (scan (window f @ concat cs))) \<and>
    packets_bytes (fst (feed_chunks cs f)) + droppedBytes (mStats (snd (feed_chunks cs f))) +
      length (window (snd (feed_chunks cs f))) = droppedBytes (mStats f) + length (window f) + length (concat cs)"
  using assms
proof (induction cs arbitrary: f)
  case Nil
  then show ?case by (simp add: packets_bytes_def)
next
  case (Cons c cs)
  obtain ps f1 where d: "framer_drain (framer_push c f) = (ps, f1)" by fastforce
  obtain qs f2 where fd: "feed_chunks cs f1 = (qs, f2)" by fastforce
  have push: "window (framer_push c f) = window f @ c" "mMaxBuffer (framer_push c f) = mMaxBuffer f"
    "droppedBytes (mStats (framer_push c f)) = droppedBytes (mStats f)"
    using framer_push_window [of f c] Cons.prems by simp_all
  from framer_drain_spec [of "framer_push c f"] d push have
    scan: "scan (window f @ c) = (ps, window f1)" and max1: "mMaxBuffer f1 = mMaxBuffer f" and
    acc: "packets_bytes ps + droppedBytes (mStats f1) + length (window f1) =
      droppedBytes (mStats f) + (length (window f) + length c)"
    by (simp_all add: drain_spec_def)
  have w1: "length (window f1) \<le> 260" using scan_rest_bound [of "window f @ c"] scan by simp
  from Cons.IH [of f1] Cons.prems max1 w1 fd have
    ih: "qs = (if cs = [] then [] else fst (scan (window f1 @ concat cs)))" and
    acc2: "packets_bytes qs + droppedBytes (mStats f2) + length (window f2) =
      droppedBytes (mStats f1) + length (window f1) + length (concat cs)" by auto
  have "fst (scan (window f @ concat (c # cs))) = ps @ fst (scan (window f1 @ concat cs))"
    using scan_append [of "window f @ c" "concat cs"] scan by simp
  moreover have "fst (scan (window f1)) = []"
  proof -
    have "ps = ps @ fst (scan (window f1))" using scan_append [of "window f @ c" "[]"] scan by simp
    then show ?thesis by simp
  qed
  ultimately have "ps @ qs = fst (scan (window f @ concat (c # cs)))" using ih by auto
  moreover have "packets_bytes (ps @ qs) = packets_bytes ps + packets_bytes qs"
    by (simp add: packets_bytes_def)
  ultimately show ?case using d fd acc acc2 by (simp add: Let_def)
qed

lemma feed_chunks_new:
  assumes "\<forall>c\<in>set cs. length c + 260 \<le> max n 261" "cs \<noteq> []"
  shows "fst (feed_chunks cs (new_framer n)) = fst (scan (concat cs))"
    and "packets_bytes (fst (feed_chunks cs (new_framer n))) + droppedBytes (mStats (snd (feed_chunks cs (new_framer n)))) +
      framer_buffered (snd (feed_chunks cs (new_framer n))) = length (concat cs)"
proof -
  have "window (new_framer n) = []" "mMaxBuffer (new_framer n) = max n 261" "droppedBytes (mStats (new_framer n)) = 0"
    by (simp_all add: new_framer_def window_def)
  moreover have "length (window f) = framer_buffered f" for f by (simp add: window_def framer_buffered_def)
  ultimately show "fst (feed_chunks cs (new_framer n)) = fst (scan (concat cs))"
    "packets_bytes (fst (feed_chunks cs (new_framer n))) + droppedBytes (mStats (snd (feed_chunks cs (new_framer n)))) +
      framer_buffered (snd (feed_chunks cs (new_framer n))) = length (concat cs)"
    using feed_chunks_scan [of cs "new_framer n"] assms by auto
qed

text \<open>
  C34.  The framer's output does not depend on how the network cuts the stream: for chunks that
  leave room for one partial packet in the buffer, the packets handed out are those of the
  uncut stream, and every byte received is in a packet, counted as dropped, or still held.
\<close>

theorem framer_chunking:
  assumes "\<forall>c\<in>set cs. length c + 260 \<le> max n 261" "cs \<noteq> []"
  shows "fst (feed_chunks cs (new_framer n)) = fst (scan (concat cs)) \<and>
    packets_bytes (fst (feed_chunks cs (new_framer n))) + droppedBytes (mStats (snd (feed_chunks cs (new_framer n)))) +
      framer_buffered (snd (feed_chunks cs (new_framer n))) = length (concat cs)"
  using feed_chunks_new [OF assms] by (rule conjI)

theorem framer_chunking_witness:
  "fst (feed_chunks [[9, 2, 0], [6, 0, 6, 3]] (new_framer 1024)) = fst (scan [9, 2, 0, 6, 0, 6, 3])"
  using framer_chunking [of "[[9, 2, 0], [6, 0, 6, 3]]" 1024] by simp


text \<open>
  What may come between the packets: anything in which no packet starts, given the bytes that
  follow.  Every byte of it is refused as the start of a packet, for its framing or its checksum;
  start markers, damaged and cut packets are all allowed.
\<close>

definition packet_free :: "byte list \<Rightarrow> byte list \<Rightarrow> bool" where
  "packet_free nz rest \<longleftrightarrow>
     (\<forall>i<length nz. \<exists>e. parse_packet (drop i nz @ rest) = Inl e \<and> ge_kind e \<noteq> Truncated)"

lemma packet_free_Cons [simp]:
  "packet_free [] rest"
  "packet_free (b # nz) rest \<longleftrightarrow>
     (\<exists>e. parse_packet (b # nz @ rest) = Inl e \<and> ge_kind e \<noteq> Truncated) \<and> packet_free nz rest"
  by (auto simp: packet_free_def All_less_Suc2)

text \<open>
  Bytes without a start marker are packet_free in front of a packet.  In front of 260 bytes or more no
  candidate can be waiting for its end, so whatever holds no valid packet is packet_free there.
\<close>

lemma noise_packet_free: "kStx \<notin> set nz \<Longrightarrow> 6 \<le> length rest \<Longrightarrow> packet_free nz rest"
  by (induction nz) (auto simp: parse_packet_def)

lemma no_packet_packet_free:
  assumes "260 \<le> length rest" "\<forall>i<length nz. \<forall>p. parse_packet (drop i nz @ rest) \<noteq> Inr p"
  shows "packet_free nz rest"
  unfolding packet_free_def
proof (intro allI impI)
  fix i assume i: "i < length nz"
  let ?bs = "drop i nz @ rest"
  from assms(2) i obtain e where e: "parse_packet ?bs = Inl e" by (cases "parse_packet ?bs") auto
  have "261 \<le> length ?bs" using assms(1) i by simp
  moreover have "packet_size (?bs ! 3) \<le> 261"
    using unat_byte_bound [of "?bs ! 3"] by (simp add: packet_size_def del: unat_byte_bound)
  ultimately have "\<not> length ?bs < 6" "\<not> length ?bs < packet_size (?bs ! 3)" by linarith+
  with e have "ge_kind e \<noteq> Truncated" unfolding parse_packet_def Let_def by (auto split: if_splits)
  with e show "\<exists>e. parse_packet ?bs = Inl e \<and> ge_kind e \<noteq> Truncated" by blast
qed







text \<open>
  The cap is on one push as well: packets that arrive in a single push larger than the
  buffer are all discarded, whole and valid as they are.
\<close>

theorem framer_overflow_drops_packets:
  assumes "max n 261 < length (concat (map enc_packet ps))"
  shows "fst (feed_chunks [concat (map enc_packet ps)] (new_framer n)) = []"
proof -
  have "window (framer_push (concat (map enc_packet ps)) (new_framer n)) = []"
    using assms by (simp add: framer_push_def new_framer_def window_def Let_def)
  with framer_drain_spec [of "framer_push (concat (map enc_packet ps)) (new_framer n)"] show ?thesis
    by (simp add: drain_spec_def scan_short split_beta Let_def)
qed

theorem framer_overflow_drops_packets_witness:
  "fst (feed_chunks [concat (map enc_packet [\<lparr>pv_status = 0, pv_type = 0x40, pv_data = replicate 200 0\<rparr>, \<lparr>pv_status = 0, pv_type = 6, pv_data = replicate 90 0\<rparr>])]
     (new_framer 0)) = []"
  by (rule framer_overflow_drops_packets) simp

end
