(* ===== verification/GsofTransport.thy ===== *)
theory GsofTransport
  imports Gsof
begin

text \<open>
  libs/gsof/src/transport.cpp (the assembler of multi-page transmissions) and
  libs/gsof/include/gsof/tlv.h (the walk over the records of a payload).
\<close>

section \<open>The page assembler\<close>

record transport_header =
  transmissionNumber :: byte
  pageIndex :: byte
  maxPageIndex :: byte

definition parse_transport_header :: "byte list \<Rightarrow> gsof_error + transport_header" where
  "parse_transport_header data =
     (if length data < 3 then Inl (gerror Truncated (length data))
      else Inr \<lparr>transmissionNumber = data ! 0, pageIndex = data ! 1, maxPageIndex = data ! 2\<rparr>)"

datatype page_feed = Incomplete | Complete

record assembler_stats =
  transmissions :: nat
  pagesDiscarded :: nat
  restarts :: nat
  as_overflows :: nat

record assembler =
  mPayload :: "byte list"
  mHeader :: transport_header
  mAssembling :: bool
  mPagesHeld :: nat
  mMaxPayload :: nat
  as_stats :: assembler_stats

definition new_assembler :: "nat \<Rightarrow> assembler" where
  "new_assembler maxPayload =
     \<lparr>mPayload = [], mHeader = \<lparr>transmissionNumber = 0, pageIndex = 0, maxPageIndex = 0\<rparr>,
      mAssembling = False, mPagesHeld = 0, mMaxPayload = max maxPayload 256,
      as_stats = \<lparr>transmissions = 0, pagesDiscarded = 0, restarts = 0, as_overflows = 0\<rparr>\<rparr>"

definition discardPartial :: "assembler \<Rightarrow> assembler" where
  "discardPartial a =
     (let a1 = (if mAssembling a then
                  a\<lparr>as_stats := (as_stats a)\<lparr>pagesDiscarded := pagesDiscarded (as_stats a) + mPagesHeld a,
                                            restarts := restarts (as_stats a) + 1\<rparr>\<rparr>
                else a)
      in a1\<lparr>mPayload := [], mPagesHeld := 0, mAssembling := False\<rparr>)"

definition page_continues :: "transport_header \<Rightarrow> assembler \<Rightarrow> bool" where
  "page_continues h a \<longleftrightarrow> mAssembling a \<and>
     transmissionNumber h = transmissionNumber (mHeader a) \<and>
     maxPageIndex h = maxPageIndex (mHeader a) \<and> pageIndex h = pageIndex (mHeader a) + 1"

text \<open>The part of \<open>feed\<close> after the page has been accepted as the next one.\<close>

definition append_page :: "transport_header \<Rightarrow> byte list \<Rightarrow> assembler \<Rightarrow> (gsof_error + page_feed) \<times> assembler" where
  "append_page h recs a =
     (if mMaxPayload a < length (mPayload a) + length recs then
        (let a1 = discardPartial (a\<lparr>as_stats := (as_stats a)\<lparr>as_overflows := as_overflows (as_stats a) + 1\<rparr>\<rparr>)
         in (Inl (gerror TooLong (length (mPayload a1))), a1))
      else
        let a1 = a\<lparr>mPayload := mPayload a @ recs, mPagesHeld := mPagesHeld a + 1, mHeader := h\<rparr> in
        if maxPageIndex h \<le> pageIndex h then
          (Inr Complete, a1\<lparr>mAssembling := False, mPagesHeld := 0,
             as_stats := (as_stats a1)\<lparr>transmissions := transmissions (as_stats a1) + 1\<rparr>\<rparr>)
        else (Inr Incomplete, a1\<lparr>mAssembling := True\<rparr>))"

definition feed :: "byte list \<Rightarrow> assembler \<Rightarrow> (gsof_error + page_feed) \<times> assembler" where
  "feed data a =
     (case parse_transport_header data of
        Inl e \<Rightarrow> (Inl e, a)
      | Inr h \<Rightarrow>
          if page_continues h a then append_page h (drop 3 data) a
          else
            let a1 = discardPartial a in
            if pageIndex h \<noteq> 0 then (Inl (gerror PageOutOfOrder (unat (pageIndex h))), a1)
            else append_page h (drop 3 data) a1)"

definition assembler_reset :: "assembler \<Rightarrow> assembler" where
  "assembler_reset a = a\<lparr>mPayload := [], mPagesHeld := 0, mAssembling := False\<rparr>"

fun feed_all :: "byte list list \<Rightarrow> assembler \<Rightarrow> (gsof_error + page_feed) list \<times> assembler" where
  "feed_all [] a = ([], a)"
| "feed_all (d # ds) a = (let (r, a1) = feed d a; (rs, a2) = feed_all ds a1 in (r # rs, a2))"

lemma discardPartial_fields [simp]:
  "mPayload (discardPartial a) = []" "mAssembling (discardPartial a) = False"
  "mMaxPayload (discardPartial a) = mMaxPayload a" "mPagesHeld (discardPartial a) = 0"
  by (simp_all add: discardPartial_def Let_def)

lemma feed_maxPayload [simp]: "mMaxPayload (snd (feed d a)) = mMaxPayload a"
  by (simp add: feed_def append_page_def Let_def split: sum.split)

section \<open>What a complete transmission is\<close>

definition long_pages :: "byte list list \<Rightarrow> byte list list" where
  "long_pages ps = filter (\<lambda>p. 3 \<le> length p) ps"

text \<open>Pages 0, 1, \<dots> of one transmission.\<close>

definition transmission :: "byte \<Rightarrow> byte \<Rightarrow> byte list list \<Rightarrow> bool" where
  "transmission tx m held \<longleftrightarrow>
     (\<forall>i < length held. held ! i ! 0 = tx \<and> unat (held ! i ! 1) = i \<and> held ! i ! 2 = m)"

definition records_of :: "byte list list \<Rightarrow> byte list" where
  "records_of held = concat (map (drop 3) held)"

text \<open>The pages fed so far end with the ones the assembler holds.\<close>

definition asm_inv :: "byte list list \<Rightarrow> assembler \<Rightarrow> bool" where
  "asm_inv ps a \<longleftrightarrow> length (mPayload a) \<le> mMaxPayload a \<and>
     (mAssembling a \<longrightarrow> (\<exists>pre held. long_pages ps = pre @ held \<and>
        transmission (transmissionNumber (mHeader a)) (maxPageIndex (mHeader a)) held \<and>
        mPayload a = records_of held \<and> length held = unat (pageIndex (mHeader a)) + 1 \<and>
        pageIndex (mHeader a) < maxPageIndex (mHeader a)))"

definition complete_result :: "byte list list \<Rightarrow> assembler \<Rightarrow> bool" where
  "complete_result ps a \<longleftrightarrow> (\<exists>pre held tx m. long_pages ps = pre @ held \<and> transmission tx m held \<and>
     length held = unat m + 1 \<and> mPayload a = records_of held)"

lemma transmission_snoc:
  "transmission tx m held \<Longrightarrow> p ! 0 = tx \<Longrightarrow> unat (p ! 1) = length held \<Longrightarrow> p ! 2 = m \<Longrightarrow> transmission tx m (held @ [p])"
  by (auto simp: transmission_def nth_append less_Suc_eq)

lemma records_of_snoc: "records_of (held @ [p]) = records_of held @ drop 3 p"
  by (simp add: records_of_def)

lemma append_page_inv:
  assumes "3 \<le> length p" "h = \<lparr>transmissionNumber = p ! 0, pageIndex = p ! 1, maxPageIndex = p ! 2\<rparr>"
    and "long_pages ps = pre @ held" "transmission (p ! 0) (p ! 2) held" "mPayload a = records_of held"
    and "unat (p ! 1) = length held" "length held = 0 \<or> length held \<le> unat (p ! 2)"
    and "append_page h (drop 3 p) a = (r, a')"
  shows "asm_inv (ps @ [p]) a' \<and> (r = Inr Complete \<longrightarrow> complete_result (ps @ [p]) a')"
proof -
  have long: "long_pages (ps @ [p]) = pre @ (held @ [p])" using assms(1,3) by (simp add: long_pages_def)
  have tr: "transmission (p ! 0) (p ! 2) (held @ [p])" using assms(4,6) by (simp add: transmission_snoc)
  have pay: "records_of (held @ [p]) = mPayload a @ drop 3 p" using assms(5) by (simp add: records_of_snoc)
  show ?thesis
  proof (cases "mMaxPayload a < length (mPayload a) + length (drop 3 p)")
    case True
    with assms(8) show ?thesis by (auto simp: append_page_def Let_def asm_inv_def)
  next
    case fits: False
    show ?thesis
    proof (cases "p ! 2 \<le> p ! 1")
      case True
      then have "length (held @ [p]) = unat (p ! 2) + 1"
        using assms(6,7) by (auto simp: word_le_nat_alt)
      moreover have "r = Inr Complete" "mPayload a' = records_of (held @ [p])" "\<not> mAssembling a'" "mMaxPayload a' = mMaxPayload a"
        using assms(2,8) fits True pay by (auto simp: append_page_def Let_def)
      moreover have "complete_result (ps @ [p]) a'"
        unfolding complete_result_def using calculation(1,3) long tr by blast
      ultimately show ?thesis using fits pay by (auto simp: asm_inv_def)
    next
      case False
      then have "r = Inr Incomplete" "mPayload a' = records_of (held @ [p])" "mMaxPayload a' = mMaxPayload a" "mHeader a' = h"
        using assms(2,8) fits pay by (auto simp: append_page_def Let_def)
      moreover have "length (mPayload a') \<le> mMaxPayload a'" using calculation(2,3) fits pay by simp
      moreover have "length (held @ [p]) = unat (p ! 1) + 1" using assms(6) by simp
      ultimately show ?thesis
        using long tr assms(2) False unfolding asm_inv_def
        by (simp only: not_le transport_header.simps) blast
    qed
  qed
qed

lemma feed_inv:
  assumes "asm_inv ps a" "feed p a = (r, a')"
  shows "asm_inv (ps @ [p]) a' \<and> (r = Inr Complete \<longrightarrow> complete_result (ps @ [p]) a')"
proof (cases "length p < 3")
  case True
  with assms show ?thesis
    by (auto simp: feed_def parse_transport_header_def asm_inv_def long_pages_def)
next
  case False
  let ?h = "\<lparr>transmissionNumber = p ! 0, pageIndex = p ! 1, maxPageIndex = p ! 2\<rparr>"
  have h: "parse_transport_header p = Inr ?h" using False by (simp add: parse_transport_header_def)
  show ?thesis
  proof (cases "page_continues ?h a")
    case True
    then have c: "mAssembling a" "p ! 0 = transmissionNumber (mHeader a)" "p ! 2 = maxPageIndex (mHeader a)"
      "p ! 1 = pageIndex (mHeader a) + 1" by (simp_all add: page_continues_def)
    from assms(1) c(1) obtain pre held where held: "long_pages ps = pre @ held"
      "transmission (p ! 0) (p ! 2) held" "mPayload a = records_of held"
      "length held = unat (pageIndex (mHeader a)) + 1" "pageIndex (mHeader a) < p ! 2"
      unfolding asm_inv_def c(2,3) by blast
    have idx: "unat (p ! 1) = length held" "length held \<le> unat (p ! 2)"
      using held(4,5) c(4) unat_byte_bound [of "p ! 2"]
      by (simp_all add: word_less_nat_alt unat_word_ariths del: unat_byte_bound)
    have "append_page ?h (drop 3 p) a = (r, a')" using assms(2) h True by (simp add: feed_def)
    from append_page_inv [OF _ refl held(1-3) idx(1) _ this] False idx(2) show ?thesis by simp
  next
    case nc: False
    show ?thesis
    proof (cases "p ! 1 = 0")
      case True
      have "append_page ?h (drop 3 p) (discardPartial a) = (r, a')"
        using assms(2) h nc True by (simp add: feed_def Let_def)
      from append_page_inv [OF _ refl _ _ _ _ _ this, of ps "long_pages ps" "[]"] False True show ?thesis
        by (simp add: transmission_def records_of_def)
    next
      case pne: False
      with assms(2) h nc have "r = Inl (gerror PageOutOfOrder (unat (p ! 1)))" "a' = discardPartial a"
        by (auto simp: feed_def Let_def)
      then show ?thesis by (simp add: asm_inv_def)
    qed
  qed
qed

lemma feed_all_inv: "asm_inv ps a \<Longrightarrow> asm_inv (ps @ ds) (snd (feed_all ds a))"
proof (induction ds arbitrary: ps a)
  case (Cons d ds)
  obtain r a1 where f: "feed d a = (r, a1)" by fastforce
  from feed_inv [OF Cons.prems f] Cons.IH [of "ps @ [d]" a1] f show ?case
    by (simp add: Let_def split_beta)
qed simp

text \<open>
  C36.  Nothing is spliced: whatever pages arrive, when the assembler reports a complete
  transmission its payload is the record bytes of all the pages 0 to the last of one
  transmission, in order, and those were the most recent pages received (pages too short to
  have a header aside).
\<close>

theorem page_assembler_sound:
  assumes "feed p (snd (feed_all ps (new_assembler n))) = (Inr Complete, a)"
  shows "complete_result (ps @ [p]) a"
proof -
  have "asm_inv [] (new_assembler n)" by (simp add: asm_inv_def new_assembler_def)
  from feed_all_inv [OF this, of ps] feed_inv [OF _ assms, of ps] show ?thesis by simp
qed

theorem page_assembler_sound_witness:
  "complete_result [[7, 0, 1, 65], [7, 1, 1, 66]]
     (snd (feed [7, 1, 1, 66] (snd (feed_all [[7, 0, 1, 65]] (new_assembler 0)))))"
proof -
  have "fst (feed [7, 1, 1, 66] (snd (feed_all [[7, 0, 1, 65]] (new_assembler 0)))) = Inr Complete"
    by (simp add: feed_def parse_transport_header_def page_continues_def append_page_def new_assembler_def
      discardPartial_def Let_def)
  then have "feed [7, 1, 1, 66] (snd (feed_all [[7, 0, 1, 65]] (new_assembler 0))) =
      (Inr Complete, snd (feed [7, 1, 1, 66] (snd (feed_all [[7, 0, 1, 65]] (new_assembler 0)))))"
    by (simp add: prod_eq_iff)
  from page_assembler_sound [OF this] show ?thesis by simp
qed

section \<open>A whole transmission goes through\<close>

definition pages_from :: "nat \<Rightarrow> byte \<Rightarrow> nat \<Rightarrow> byte list list \<Rightarrow> byte list list" where
  "pages_from k tx m rs = map (\<lambda>i. [tx, of_nat (k + i), of_nat m] @ rs ! i) [0..<length rs]"

lemma pages_from_Cons: "pages_from k tx m (r # rs) = ([tx, of_nat k, of_nat m] @ r) # pages_from (Suc k) tx m rs"
  by (simp add: pages_from_def map_upt_Suc del: upt_Suc)

lemma pages_continue:
  assumes "mAssembling a" "mHeader a = \<lparr>transmissionNumber = tx, pageIndex = of_nat k, maxPageIndex = of_nat m\<rparr>"
    and "Suc k + length rs = Suc m" "m < 256" "rs \<noteq> []" "length (mPayload a @ concat rs) \<le> mMaxPayload a"
  shows "\<exists>a'. feed_all (pages_from (Suc k) tx m rs) a =
      (replicate (length rs - 1) (Inr Incomplete) @ [Inr Complete], a') \<and> mPayload a' = mPayload a @ concat rs"
  using assms
proof (induction rs arbitrary: a k)
  case Nil
  then show ?case by simp
next
  case (Cons r rs)
  let ?h = "\<lparr>transmissionNumber = tx, pageIndex = of_nat (Suc k), maxPageIndex = of_nat m\<rparr>"
  let ?p = "[tx, of_nat (Suc k), of_nat m] @ r"
  have cont: "page_continues ?h a" using Cons.prems by (simp add: page_continues_def)
  have f: "feed ?p a = append_page ?h r a"
    using cont by (simp add: feed_def parse_transport_header_def numeral_eq_Suc)
  have le: "(of_nat m :: byte) \<le> of_nat (Suc k) \<longleftrightarrow> m \<le> Suc k"
    using Cons.prems(3,4) by (simp add: word_le_nat_alt unat_of_nat_small del: of_nat_Suc)
  show ?case
  proof (cases "rs = []")
    case True
    with Cons.prems have "Suc k = m" by simp
    then show ?thesis
      using True Cons.prems(6) f le
      by (simp add: pages_from_def append_page_def Let_def del: of_nat_Suc)
  next
    case False
    let ?a = "a\<lparr>mPayload := mPayload a @ r, mPagesHeld := mPagesHeld a + 1, mHeader := ?h, mAssembling := True\<rparr>"
    from False Cons.prems(3) have "\<not> m \<le> Suc k" by (cases rs) auto
    then have fa: "feed ?p a = (Inr Incomplete, ?a)"
      using Cons.prems(6) f le by (simp add: append_page_def Let_def del: of_nat_Suc)
    from Cons.IH [of ?a "Suc k"] Cons.prems False obtain a' where
      "feed_all (pages_from (Suc (Suc k)) tx m rs) ?a =
        (replicate (length rs - 1) (Inr Incomplete) @ [Inr Complete], a')"
      "mPayload a' = (mPayload a @ r) @ concat rs" by (auto simp del: of_nat_Suc)
    with fa False show ?thesis
      by (cases rs) (simp_all add: pages_from_Cons [of "Suc k"] Let_def del: of_nat_Suc)
  qed
qed

text \<open>
  Reassembly: the pages of a transmission of at most 256 pages, fed in order to any
  assembler in use, are all accepted, the last one completes it, and the payload is the
  transmission's record bytes, records that straddle page boundaries included.
\<close>

theorem page_assembler_reassembles:
  assumes "rs \<noteq> []" "length rs \<le> 256" "length (concat rs) \<le> max n 256"
  shows "\<exists>a'. feed_all (pages_from 0 tx (length rs - 1) rs) (snd (feed_all before (new_assembler n))) =
      (replicate (length rs - 1) (Inr Incomplete) @ [Inr Complete], a') \<and> mPayload a' = concat rs"
proof -
  let ?a = "snd (feed_all before (new_assembler n))" and ?m = "length rs - 1"
  have inv: "asm_inv before ?a"
    using feed_all_inv [of "[]" "new_assembler n" before] by (simp add: asm_inv_def new_assembler_def)
  have maxp: "mMaxPayload (snd (feed_all ds a)) = mMaxPayload a" for ds a
    by (induction ds arbitrary: a) (simp_all add: Let_def split_beta)
  from assms(1) obtain r rest where rs: "rs = r # rest" by (cases rs) auto
  let ?h = "\<lparr>transmissionNumber = tx, pageIndex = 0, maxPageIndex = of_nat ?m\<rparr>"
  let ?p = "[tx, of_nat 0, of_nat ?m] @ r"
  have nc: "\<not> page_continues ?h ?a"
  proof
    assume c: "page_continues ?h ?a"
    then have "pageIndex (mHeader ?a) + 1 = 0" "mAssembling ?a" by (auto simp: page_continues_def)
    with inv have "pageIndex (mHeader ?a) = - 1" "pageIndex (mHeader ?a) < maxPageIndex (mHeader ?a)"
      by (auto simp: asm_inv_def eq_neg_iff_add_eq_0)
    then show False by (metis word_order.extremum_strict)
  qed
  have f: "feed ?p ?a = append_page ?h r (discardPartial ?a)"
    using nc by (simp add: feed_def parse_transport_header_def Let_def numeral_eq_Suc)
  have mx: "mMaxPayload ?a = max n 256" by (simp add: maxp new_assembler_def)
  show ?thesis
  proof (cases "rest = []")
    case True
    have fits: "\<not> max n 256 < length r" using rs True assms(3) by (simp only: not_less) simp
    obtain b where "append_page ?h r (discardPartial ?a) = (Inr Complete, b)" "mPayload b = r"
      using mx fits rs True by (simp add: append_page_def Let_def del: max_less_iff_conj)
    with f rs True show ?thesis by (simp add: pages_from_Cons pages_from_def)
  next
    case False
    have m: "unat (of_nat ?m :: byte) = ?m" using assms(2) rs by (intro unat_of_nat_small) simp
    have "0 < ?m" using False rs by simp
    with m have "\<not> (of_nat ?m :: byte) \<le> 0" by (auto simp: word_le_nat_alt)
    let ?b = "(discardPartial ?a)\<lparr>mPayload := r, mPagesHeld := 1, mHeader := ?h, mAssembling := True\<rparr>"
    have "\<not> max n 256 < length r" using rs assms(3) by (simp only: not_less) simp
    then have "append_page ?h r (discardPartial ?a) = (Inr Incomplete, ?b)"
      using mx \<open>\<not> (of_nat ?m :: byte) \<le> 0\<close> by (simp add: append_page_def Let_def del: max_less_iff_conj)
    with f have fa: "feed ?p ?a = (Inr Incomplete, ?b)" by simp
    from pages_continue [of ?b tx 0 ?m rest] assms(2,3) rs False mx obtain a' where
      "feed_all (pages_from (Suc 0) tx ?m rest) ?b = (replicate (length rest - 1) (Inr Incomplete) @ [Inr Complete], a')"
      "mPayload a' = r @ concat rest" by auto
    with fa rs False show ?thesis by (cases rest) (simp_all add: pages_from_Cons [of 0] Let_def)
  qed
qed


theorem page_assembler_reassembles_witness:
  "\<exists>a'. feed_all (pages_from 0 9 1 [[65, 66], [67]]) (snd (feed_all [[3, 0, 2, 1], [3, 1]] (new_assembler 0))) =
      ([Inr Incomplete, Inr Complete], a') \<and> mPayload a' = [65, 66, 67]"
  using page_assembler_reassembles [of "[[65, 66], [67]]" 0 9 "[[3, 0, 2, 1], [3, 1]]"] by simp

section \<open>The records of a payload\<close>

record tlv_record =
  tlv_type :: byte
  tlv_body :: "byte list"

text \<open>The iterator: the payload and the offset; \<open>next\<close> returns its result and the new offset.\<close>

record tlv_iterator =
  tlv_payload :: "byte list"
  tlv_offset :: nat

definition tlv_begin :: "byte list \<Rightarrow> tlv_iterator" where
  "tlv_begin payload = \<lparr>tlv_payload = payload, tlv_offset = 0\<rparr>"

definition tlv_done :: "tlv_iterator \<Rightarrow> bool" where
  "tlv_done it \<longleftrightarrow> length (tlv_payload it) < tlv_offset it + 2"

definition length_mismatch :: "byte \<Rightarrow> nat \<Rightarrow> gsof_error" where
  "length_mismatch ty off = \<lparr>ge_kind = GLengthMismatch, ge_recordType = ty, ge_offset = of_nat off\<rparr>"

definition tlv_next :: "tlv_iterator \<Rightarrow> (gsof_error + tlv_record) \<times> tlv_iterator" where
  "tlv_next it =
     (let p = tlv_payload it; o1 = tlv_offset it in
      if length p < o1 + 2 then (Inl (gerror Truncated o1), it)
      else
        let ty = p ! o1; len = unat (p ! (o1 + 1)); bodyAt = o1 + 2 in
        if length p < bodyAt + len then
          (Inl (length_mismatch ty bodyAt), it\<lparr>tlv_offset := length p\<rparr>)
        else (Inr \<lparr>tlv_type = ty, tlv_body = take len (drop bodyAt p)\<rparr>, it\<lparr>tlv_offset := bodyAt + len\<rparr>))"

text \<open>The walk its callers write: \<open>while (!it.done()) it.next()\<close>, stopping at an error.\<close>

function tlv_walk :: "tlv_iterator \<Rightarrow> tlv_record list \<times> gsof_error option \<times> tlv_iterator" where
  "tlv_walk it =
     (if tlv_done it then ([], None, it)
      else case tlv_next it of
          (Inl e, it') \<Rightarrow> ([], Some e, it')
        | (Inr r, it') \<Rightarrow> (let (rs, e, it'') = tlv_walk it' in (r # rs, e, it'')))"
  by pat_completeness auto
termination
  by (relation "measure (\<lambda>it. length (tlv_payload it) - tlv_offset it)")
    (auto simp: tlv_next_def tlv_done_def Let_def split: if_splits)

declare tlv_walk.simps [simp del]


definition enc_tlv :: "tlv_record \<Rightarrow> byte list" where
  "enc_tlv r = tlv_type r # of_nat (length (tlv_body r)) # tlv_body r"

definition tlv_ok :: "tlv_record \<Rightarrow> bool" where
  "tlv_ok r \<longleftrightarrow> length (tlv_body r) < 256"

lemma length_enc_tlv [simp]: "length (enc_tlv r) = 2 + length (tlv_body r)"
  by (simp add: enc_tlv_def)

lemma tlv_next_enc:
  assumes "tlv_ok r"
  shows "tlv_next \<lparr>tlv_payload = pre @ enc_tlv r @ rest, tlv_offset = length pre\<rparr> =
    (Inr r, \<lparr>tlv_payload = pre @ enc_tlv r @ rest, tlv_offset = length (pre @ enc_tlv r)\<rparr>)"
proof -
  have "unat (of_nat (length (tlv_body r)) :: byte) = length (tlv_body r)"
    using assms by (intro unat_of_nat_small) (simp add: tlv_ok_def)
  then show ?thesis by (simp add: tlv_next_def Let_def enc_tlv_def nth_append)
qed

lemma tlv_walk_enc:
  assumes "list_all tlv_ok rs" "length tail < 2"
  shows "tlv_walk \<lparr>tlv_payload = pre @ concat (map enc_tlv rs) @ tail, tlv_offset = length pre\<rparr> =
    (rs, None, \<lparr>tlv_payload = pre @ concat (map enc_tlv rs) @ tail,
                tlv_offset = length (pre @ concat (map enc_tlv rs))\<rparr>)"
  using assms
proof (induction rs arbitrary: pre)
  case Nil
  then show ?case by (subst tlv_walk.simps) (simp add: tlv_done_def)
next
  case (Cons r rs)
  from Cons.IH [of "pre @ enc_tlv r"] Cons.prems tlv_next_enc [of r pre "concat (map enc_tlv rs) @ tail"]
  show ?case by (subst tlv_walk.simps) (simp add: tlv_done_def)
qed

lemma tlv_next_sound:
  assumes "tlv_offset it \<le> length (tlv_payload it)" "tlv_next it = (Inr r, it')"
  shows "drop (tlv_offset it) (tlv_payload it) = enc_tlv r @ drop (tlv_offset it') (tlv_payload it')
    \<and> tlv_ok r \<and> tlv_payload it' = tlv_payload it \<and> tlv_offset it' \<le> length (tlv_payload it')"
proof -
  let ?p = "tlv_payload it" and ?o = "tlv_offset it"
  let ?n = "unat (?p ! (?o + 1))"
  from assms(2) have b: "?o + 2 + ?n \<le> length ?p"
    and r: "r = \<lparr>tlv_type = ?p ! ?o, tlv_body = take ?n (drop (?o + 2) ?p)\<rparr>"
    and it': "it' = it\<lparr>tlv_offset := ?o + 2 + ?n\<rparr>"
    by (auto simp: tlv_next_def Let_def split: if_splits)
  have len: "length (tlv_body r) = ?n" using b r by simp
  have "drop ?o ?p = ?p ! ?o # ?p ! (?o + 1) # drop (?o + 2) ?p"
    using b by (simp add: Cons_nth_drop_Suc [symmetric])
  moreover have "drop (?o + 2) ?p = tlv_body r @ drop (?o + 2 + ?n) ?p"
    using r by (simp add: add.commute) (metis append_take_drop_id drop_drop add.commute add_2_eq_Suc')
  ultimately show ?thesis
    using len r it' b unat_byte_bound [of "?p ! (?o + 1)"] by (simp add: enc_tlv_def tlv_ok_def)
qed

definition tlv_rest_ok :: "gsof_error option \<Rightarrow> byte list \<Rightarrow> bool" where
  "tlv_rest_ok e rest \<longleftrightarrow>
     (if e = None then length rest < 2
      else 2 \<le> length rest \<and> length rest < 2 + unat (rest ! 1))"

lemma tlv_walk_sound_from:
  "tlv_offset it \<le> length (tlv_payload it) \<Longrightarrow> tlv_walk it = (rs, e, it') \<Longrightarrow>
   \<exists>rest. drop (tlv_offset it) (tlv_payload it) = concat (map enc_tlv rs) @ rest \<and> list_all tlv_ok rs \<and> tlv_rest_ok e rest"
proof (induction it arbitrary: rs e it' rule: tlv_walk.induct)
  case (1 it)
  obtain res nx where n: "tlv_next it = (res, nx)" by fastforce
  show ?case
  proof (cases "tlv_done it")
    case True
    with "1.prems" have "rs = []" "e = None" by (simp_all add: tlv_walk.simps [of it])
    with True show ?thesis by (auto simp: tlv_done_def tlv_rest_ok_def)
  next
    case nd: False
    show ?thesis
    proof (cases res)
      case (Inl err)
      with "1.prems" nd n have "rs = []" "e = Some err" by (simp_all add: tlv_walk.simps [of it])
      with Inl nd n show ?thesis
        by (auto simp: tlv_next_def tlv_done_def tlv_rest_ok_def Let_def split: if_splits)
    next
      case (Inr r)
      obtain rs' e' it'' where w: "tlv_walk nx = (rs', e', it'')" by (metis prod_cases3)
      with "1.prems"(2) nd n Inr have "rs = r # rs'" "e = e'" by (simp_all add: tlv_walk.simps [of it])
      moreover note tlv_next_sound [OF "1.prems"(1) n [unfolded Inr]]
      ultimately show ?thesis using "1.IH" [OF nd n [symmetric] Inr _ w] by auto
    qed
  qed
qed


text \<open>
  Records back to back are read back exactly, whatever their type bytes: walking the
  encodings of any list of records gives those records and no error, and the walk stops right
  behind the last one, a trailing byte too short to be a record left unread.
\<close>

theorem tlv_walk_roundtrip:
  assumes "list_all tlv_ok rs" "length tail < 2"
  shows "\<exists>it. tlv_walk (tlv_begin (concat (map enc_tlv rs) @ tail)) = (rs, None, it) \<and>
    tlv_offset it = length (concat (map enc_tlv rs))"
  using tlv_walk_enc [OF assms, of "[]"] by (simp add: tlv_begin_def)

theorem tlv_walk_roundtrip_witness:
  "\<exists>it. tlv_walk (tlv_begin [200, 2, 5, 6, 1, 0, 99]) =
      ([\<lparr>tlv_type = 200, tlv_body = [5, 6]\<rparr>, \<lparr>tlv_type = 1, tlv_body = []\<rparr>], None, it) \<and> tlv_offset it = 6"
  using tlv_walk_roundtrip [of "[\<lparr>tlv_type = 200, tlv_body = [5, 6]\<rparr>, \<lparr>tlv_type = 1, tlv_body = []\<rparr>]" "[99]"]
  by (simp add: enc_tlv_def tlv_ok_def numeral_eq_Suc)

text \<open>
  The walk never reads what is not there and never makes a record up: on any payload it
  ends, the records it returned are a prefix of the payload byte for byte, and it stops either
  before fewer than two bytes, or with an error before a record whose length byte claims more
  than the payload holds.
\<close>

theorem tlv_walk_exact:
  "\<exists>rs e it rest. tlv_walk (tlv_begin payload) = (rs, e, it) \<and>
     payload = concat (map enc_tlv rs) @ rest \<and> list_all tlv_ok rs \<and> tlv_rest_ok e rest"
proof -
  obtain rs e it where w: "tlv_walk (tlv_begin payload) = (rs, e, it)" by (metis prod_cases3)
  from tlv_walk_sound_from [OF _ w] w show ?thesis by (auto simp: tlv_begin_def)
qed

end
