(* ===== verification/MselProtocol.thy ===== *)
theory MselProtocol
  imports CanFrame "HOL-Library.Signed_Division" "HOL-Library.Log_Nat"
begin

text \<open>
  libs/msel/include/msel/protocol.h and libs/msel/src/protocol.cpp: the wire protocol of the MSEL
  master relay, pure functions over bytes.  An enumeration is a datatype with the source's
  enumerators and a function to its code; a duration is its number of milliseconds, an \<open>int\<close>; a
  failed \<open>Result\<close> is \<open>Inl\<close> of the error's kind (the message, made for a person, is left out).
\<close>

section \<open>The enumerations and their codes\<close>

datatype msel_error = MselInvalidArgument | MselUnsupported

type_synonym 'a msel_result = "msel_error + 'a"

datatype relay_status = Normal | OverTemperatureWarning | OverCurrentWarning | LowVoltageWarning
  | HighVoltageWarning | OverTemperatureKill | DriverSwitchKill | ExternalSwitchKill
  | CanTriggerKill | PowerOnReset

fun status_code :: "relay_status \<Rightarrow> byte" where
  "status_code Normal = 1"
| "status_code OverTemperatureWarning = 2"
| "status_code OverCurrentWarning = 3"
| "status_code LowVoltageWarning = 4"
| "status_code HighVoltageWarning = 5"
| "status_code OverTemperatureKill = 6"
| "status_code DriverSwitchKill = 7"
| "status_code ExternalSwitchKill = 8"
| "status_code CanTriggerKill = 9"
| "status_code PowerOnReset = 10"

datatype relay_warning = WOverTemperature | WOverCurrent | WLowVoltage | WHighVoltage
  | WOverTemperatureKill | WDriverSwitchKill | WExternalSwitchKill | WCanTriggerKill

fun warning_bit :: "relay_warning \<Rightarrow> byte" where
  "warning_bit WOverTemperature = 0x01"
| "warning_bit WOverCurrent = 0x02"
| "warning_bit WLowVoltage = 0x04"
| "warning_bit WHighVoltage = 0x08"
| "warning_bit WOverTemperatureKill = 0x10"
| "warning_bit WDriverSwitchKill = 0x20"
| "warning_bit WExternalSwitchKill = 0x40"
| "warning_bit WCanTriggerKill = 0x80"

datatype can_baud = Rate1M | Rate500k | Rate250k

fun baud_code :: "can_baud \<Rightarrow> byte" where
  "baud_code Rate1M = 0"
| "baud_code Rate500k = 1"
| "baud_code Rate250k = 2"

datatype output_drive = ActiveHighHalfBridge | ActiveHighHighSide | ActiveHighLowSide
  | ActiveLowHalfBridge | ActiveLowHighSide | ActiveLowLowSide

fun drive_code :: "output_drive \<Rightarrow> byte" where
  "drive_code ActiveHighHalfBridge = 0"
| "drive_code ActiveHighHighSide = 1"
| "drive_code ActiveHighLowSide = 2"
| "drive_code ActiveLowHalfBridge = 4"
| "drive_code ActiveLowHighSide = 5"
| "drive_code ActiveLowLowSide = 6"

datatype can_kill_mode = KillDisabled | KillEnabled | KillAdr

fun kill_code :: "can_kill_mode \<Rightarrow> byte" where
  "kill_code KillDisabled = 0"
| "kill_code KillEnabled = 1"
| "kill_code KillAdr = 2"

datatype switch_state = NormalCalNormalExternalSwitch | NormalCalInternalExternalSwitch
  | LegacyCalNormalExternalSwitch | LegacyCalInternalExternalSwitch

fun switch_code :: "switch_state \<Rightarrow> byte" where
  "switch_code NormalCalNormalExternalSwitch = 1"
| "switch_code NormalCalInternalExternalSwitch = 2"
| "switch_code LegacyCalNormalExternalSwitch = 3"
| "switch_code LegacyCalInternalExternalSwitch = 4"

datatype transmit_rate = Hz10 | Hz100

fun rate_code :: "transmit_rate \<Rightarrow> byte" where
  "rate_code Hz10 = 0x01"
| "rate_code Hz100 = 0x0A"

datatype config_response = RSuccess | RIdMismatch | RFrameCheckError | RInvalidId

fun response_code :: "config_response \<Rightarrow> byte" where
  "response_code RSuccess = 0x00"
| "response_code RIdMismatch = 0x11"
| "response_code RFrameCheckError = 0x22"
| "response_code RInvalidId = 0x33"

fun toBitsPerSecond :: "can_baud \<Rightarrow> u32" where
  "toBitsPerSecond Rate1M = 1000000"
| "toBitsPerSecond Rate500k = 500000"
| "toBitsPerSecond Rate250k = 250000"

definition statusFromRaw :: "byte \<Rightarrow> relay_status option" where
  "statusFromRaw raw =
     (if raw = 1 then Some Normal
      else if raw = 2 then Some OverTemperatureWarning
      else if raw = 3 then Some OverCurrentWarning
      else if raw = 4 then Some LowVoltageWarning
      else if raw = 5 then Some HighVoltageWarning
      else if raw = 6 then Some OverTemperatureKill
      else if raw = 7 then Some DriverSwitchKill
      else if raw = 8 then Some ExternalSwitchKill
      else if raw = 9 then Some CanTriggerKill
      else if raw = 10 then Some PowerOnReset
      else None)"

definition canBaudFromRaw :: "byte \<Rightarrow> can_baud option" where
  "canBaudFromRaw raw =
     (if raw = 0 then Some Rate1M
      else if raw = 1 then Some Rate500k
      else if raw = 2 then Some Rate250k
      else None)"

definition outputDriveFromRaw :: "byte \<Rightarrow> output_drive option" where
  "outputDriveFromRaw raw =
     (if raw = 0 then Some ActiveHighHalfBridge
      else if raw = 1 then Some ActiveHighHighSide
      else if raw = 2 then Some ActiveHighLowSide
      else if raw = 4 then Some ActiveLowHalfBridge
      else if raw = 5 then Some ActiveLowHighSide
      else if raw = 6 then Some ActiveLowLowSide
      else None)"

definition canKillModeFromRaw :: "byte \<Rightarrow> can_kill_mode option" where
  "canKillModeFromRaw raw =
     (if raw = 0 then Some KillDisabled
      else if raw = 1 then Some KillEnabled
      else if raw = 2 then Some KillAdr
      else None)"

definition switchStateFromRaw :: "byte \<Rightarrow> switch_state option" where
  "switchStateFromRaw raw =
     (if raw = 1 then Some NormalCalNormalExternalSwitch
      else if raw = 2 then Some NormalCalInternalExternalSwitch
      else if raw = 3 then Some LegacyCalNormalExternalSwitch
      else if raw = 4 then Some LegacyCalInternalExternalSwitch
      else None)"

definition transmitRateFromRaw :: "byte \<Rightarrow> transmit_rate option" where
  "transmitRateFromRaw raw =
     (if raw = 0x01 then Some Hz10 else if raw = 0x0A then Some Hz100 else None)"

lemma from_raw_iff:
  "statusFromRaw r = Some s \<longleftrightarrow> r = status_code s"
  "canBaudFromRaw r = Some b \<longleftrightarrow> r = baud_code b"
  "outputDriveFromRaw r = Some d \<longleftrightarrow> r = drive_code d"
  "canKillModeFromRaw r = Some k \<longleftrightarrow> r = kill_code k"
  "switchStateFromRaw r = Some w \<longleftrightarrow> r = switch_code w"
  "transmitRateFromRaw r = Some t \<longleftrightarrow> r = rate_code t"
  subgoal by (cases s) (simp_all add: statusFromRaw_def)
  subgoal by (cases b) (simp_all add: canBaudFromRaw_def)
  subgoal by (cases d) (simp_all add: outputDriveFromRaw_def)
  subgoal by (cases k) (simp_all add: canKillModeFromRaw_def)
  subgoal by (cases w) (simp_all add: switchStateFromRaw_def)
  subgoal by (cases t) (simp_all add: transmitRateFromRaw_def)
  done

lemma from_raw_code [simp]:
  "statusFromRaw (status_code s) = Some s" "canBaudFromRaw (baud_code b) = Some b"
  "outputDriveFromRaw (drive_code d) = Some d" "canKillModeFromRaw (kill_code k) = Some k"
  "switchStateFromRaw (switch_code w) = Some w" "transmitRateFromRaw (rate_code t) = Some t"
  by (simp_all add: from_raw_iff)

text \<open>The names a person reads.\<close>

fun status_to_string :: "relay_status \<Rightarrow> string" where
  "status_to_string Normal = ''normal''"
| "status_to_string OverTemperatureWarning = ''over temperature warning''"
| "status_to_string OverCurrentWarning = ''over current warning''"
| "status_to_string LowVoltageWarning = ''low voltage warning''"
| "status_to_string HighVoltageWarning = ''high voltage warning''"
| "status_to_string OverTemperatureKill = ''over temperature kill''"
| "status_to_string DriverSwitchKill = ''driver switch kill''"
| "status_to_string ExternalSwitchKill = ''external switch kill''"
| "status_to_string CanTriggerKill = ''CAN trigger kill''"
| "status_to_string PowerOnReset = ''power on reset''"

fun warning_to_string :: "relay_warning \<Rightarrow> string" where
  "warning_to_string WOverTemperature = ''over temperature''"
| "warning_to_string WOverCurrent = ''over current''"
| "warning_to_string WLowVoltage = ''low voltage''"
| "warning_to_string WHighVoltage = ''high voltage''"
| "warning_to_string WOverTemperatureKill = ''over temperature kill''"
| "warning_to_string WDriverSwitchKill = ''driver switch kill''"
| "warning_to_string WExternalSwitchKill = ''external switch kill''"
| "warning_to_string WCanTriggerKill = ''CAN trigger kill''"

fun baud_to_string :: "can_baud \<Rightarrow> string" where
  "baud_to_string Rate1M = ''1 Mbps''"
| "baud_to_string Rate500k = ''500 kbps''"
| "baud_to_string Rate250k = ''250 kbps''"

fun drive_to_string :: "output_drive \<Rightarrow> string" where
  "drive_to_string ActiveHighHalfBridge = ''active high, half bridge''"
| "drive_to_string ActiveHighHighSide = ''active high, high side''"
| "drive_to_string ActiveHighLowSide = ''active high, low side''"
| "drive_to_string ActiveLowHalfBridge = ''active low, half bridge''"
| "drive_to_string ActiveLowHighSide = ''active low, high side''"
| "drive_to_string ActiveLowLowSide = ''active low, low side''"

fun kill_to_string :: "can_kill_mode \<Rightarrow> string" where
  "kill_to_string KillDisabled = ''disabled''"
| "kill_to_string KillEnabled = ''enabled''"
| "kill_to_string KillAdr = ''accident data recorder''"

fun rate_to_string :: "transmit_rate \<Rightarrow> string" where
  "rate_to_string Hz10 = ''10 Hz''"
| "rate_to_string Hz100 = ''100 Hz''"

fun response_to_string :: "config_response \<Rightarrow> string" where
  "response_to_string RSuccess = ''success''"
| "response_to_string RIdMismatch = ''identifiers do not match''"
| "response_to_string RFrameCheckError = ''frame check error''"
| "response_to_string RInvalidId = ''invalid identifier''"

fun switch_to_string :: "switch_state \<Rightarrow> string" where
  "switch_to_string NormalCalNormalExternalSwitch =
     ''normal current calibration, normal external switch''"
| "switch_to_string NormalCalInternalExternalSwitch =
     ''normal current calibration, internally acting external switch''"
| "switch_to_string LegacyCalNormalExternalSwitch =
     ''legacy current calibration, normal external switch''"
| "switch_to_string LegacyCalInternalExternalSwitch =
     ''legacy current calibration, internally acting external switch''"

definition all_warnings :: "relay_warning list" where
  "all_warnings = [WOverTemperature, WOverCurrent, WLowVoltage, WHighVoltage,
     WOverTemperatureKill, WDriverSwitchKill, WExternalSwitchKill, WCanTriggerKill]"

definition describeWarnings :: "byte \<Rightarrow> string" where
  "describeWarnings bits =
     fold (\<lambda>w out. if bits AND warning_bit w \<noteq> 0
                   then (if out \<noteq> [] then out @ ''|'' else out) @ warning_to_string w else out)
       all_warnings []"

definition hex_digit :: "nat \<Rightarrow> char" where
  "hex_digit n = ''0123456789ABCDEF'' ! n"

definition relay_toHex :: "byte list \<Rightarrow> string" where
  "relay_toHex bytes =
     fold (\<lambda>b out. (if out \<noteq> [] then out @ '' '' else out) @
                   [hex_digit (unat b div 16), hex_digit (unat b mod 16)]) bytes []"

section \<open>Addresses and the configuration word\<close>

definition kConfigCommandId :: u32 where "kConfigCommandId = 0x789"
definition kDefaultBaseAddress :: u32 where "kDefaultBaseAddress = 0x6E4"
definition kDefaultKillAddress :: u32 where "kDefaultKillAddress = 0x6E6"
definition kMaxStandardId :: u32 where "kMaxStandardId = 0x7FF"

record addresses =
  addr_base :: u32

definition addr_status :: "addresses \<Rightarrow> u32" where
  "addr_status a = addr_base a"

definition addr_info :: "addresses \<Rightarrow> u32" where
  "addr_info a = addr_base a + 1"

definition addr_switchState :: "addresses \<Rightarrow> u32" where
  "addr_switchState a = addr_base a + 3"

definition validateBaseAddress :: "u32 \<Rightarrow> unit msel_result" where
  "validateBaseAddress base =
     (if base > kMaxStandardId \<or> base + 3 > kMaxStandardId then Inl MselInvalidArgument
      else if base \<le> kConfigCommandId \<and> kConfigCommandId \<le> base + 3 then Inl MselInvalidArgument
      else Inr ())"

record relay_config =
  cfg_canKill :: "can_kill_mode option"
  canKillRaw :: byte
  cfg_baud :: "can_baud option"
  baudRaw :: byte
  cfg_outputDrive :: "output_drive option"
  outputDriveRaw :: byte
  shutdownDelay :: int

definition decodeConfigWord :: "u16 \<Rightarrow> relay_config" where
  "decodeConfigWord word =
     (let byte4 = hi8 word; byte5 = lo8 word;
          kill = drop_bit 6 byte4 AND 0x03; bd = drop_bit 4 byte4 AND 0x03;
          drive = byte4 AND 0x0F in
      \<lparr>cfg_canKill = canKillModeFromRaw kill, canKillRaw = kill,
       cfg_baud = canBaudFromRaw bd, baudRaw = bd,
       cfg_outputDrive = outputDriveFromRaw drive, outputDriveRaw = drive,
       shutdownDelay = int (unat byte5) * 100\<rparr>)"

definition encodeConfigWord :: "relay_config \<Rightarrow> u16" where
  "encodeConfigWord c =
     (let byte4 = push_bit 6 (canKillRaw c AND 0x03) OR push_bit 4 (baudRaw c AND 0x03) OR
                  (outputDriveRaw c AND 0x0F);
          tenths = shutdownDelay c sdiv 100;
          byte5 = word_of_int (if tenths < 0 then 0 else if tenths > 255 then 255 else tenths) in
      join16 byte4 byte5)"

section \<open>The commands\<close>

datatype command_effect = Immediate | RequiresPowerCycle

definition kMagicBaseAddress :: u16 where "kMagicBaseAddress = 0x0789"
definition kMagicTransmitRate :: u16 where "kMagicTransmitRate = 0x0DEF"
definition kMagicBaudAndDelay :: u16 where "kMagicBaudAndDelay = 0x0456"
definition kMagicOutputDrive :: u16 where "kMagicOutputDrive = 0x0ABC"
definition kMagicCanShutdown :: u16 where "kMagicCanShutdown = 0x0123"

definition requiresHeldExternalKillSwitch :: bool where
  "requiresHeldExternalKillSwitch = True"

definition makeFrame :: "u32 \<Rightarrow> byte list \<Rightarrow> can_frame" where
  "makeFrame i bytes =
     put_bytes 0 bytes (empty_frame\<lparr>frame_id := i, frame_len := 8\<rparr>)"

definition byteCommand :: "u16 \<Rightarrow> byte \<Rightarrow> byte \<Rightarrow> byte list" where
  "byteCommand magic a b = [hi8 magic, lo8 magic, a, a, b, b, hi8 magic, lo8 magic]"

definition wordCommand :: "u16 \<Rightarrow> u16 \<Rightarrow> byte list" where
  "wordCommand magic v =
     [hi8 magic, lo8 magic, hi8 v, lo8 v, hi8 v, lo8 v, hi8 magic, lo8 magic]"

definition magicOf :: "can_frame \<Rightarrow> u16" where
  "magicOf f = (if frame_len f < 2 then 0 else join16 (byte_at f 0) (byte_at f 1))"

definition makeSetBaseAddressFrame :: "u32 \<Rightarrow> can_frame msel_result" where
  "makeSetBaseAddressFrame newBase =
     (case validateBaseAddress newBase of
        Inl e \<Rightarrow> Inl e
      | Inr _ \<Rightarrow> Inr (makeFrame kConfigCommandId (wordCommand kMagicBaseAddress (ucast newBase))))"

definition makeSetTransmitRateFrame :: "transmit_rate \<Rightarrow> can_frame msel_result" where
  "makeSetTransmitRateFrame rate =
     Inr (makeFrame kConfigCommandId (byteCommand kMagicTransmitRate (rate_code rate) 0))"

definition makeSetBaudAndShutdownDelayFrame :: "can_baud \<Rightarrow> int \<Rightarrow> can_frame msel_result" where
  "makeSetBaudAndShutdownDelayFrame bd delay =
     (if delay < 0 then Inl MselInvalidArgument
      else if delay > 25500 then Inl MselInvalidArgument
      else if delay smod 100 \<noteq> 0 then Inl MselInvalidArgument
      else Inr (makeFrame kConfigCommandId
             (byteCommand kMagicBaudAndDelay (baud_code bd) (word_of_int (delay sdiv 100)))))"

definition makeSetOutputDriveFrame :: "output_drive \<Rightarrow> can_frame msel_result" where
  "makeSetOutputDriveFrame drive =
     Inr (makeFrame kConfigCommandId (byteCommand kMagicOutputDrive (drive_code drive) 0))"

definition makeSetCanShutdownFrame :: "can_kill_mode \<Rightarrow> u32 \<Rightarrow> can_frame msel_result" where
  "makeSetCanShutdownFrame mode killAddress =
     (if killAddress > kMaxStandardId then Inl MselInvalidArgument
      else if killAddress = kConfigCommandId then Inl MselInvalidArgument
      else Inr (makeFrame kConfigCommandId
             (wordCommand kMagicCanShutdown
               (push_bit 12 (ucast (kill_code mode)) OR ucast killAddress))))"

definition kill_payload :: "byte list" where
  "kill_payload = [0xFF, 0x00, 0xFF, 0x00, 0xFF, 0x00, 0xFF, 0x00]"

definition makeCanKillTriggerFrame :: "u32 \<Rightarrow> can_frame msel_result" where
  "makeCanKillTriggerFrame killAddress =
     (if killAddress > kMaxStandardId then Inl MselInvalidArgument
      else Inr (makeFrame killAddress kill_payload))"

definition effectOf :: "can_frame \<Rightarrow> command_effect" where
  "effectOf command =
     (if frame_id command \<noteq> kConfigCommandId then Immediate
      else let magic = magicOf command in
        if magic = kMagicBaseAddress then Immediate
        else if magic = kMagicBaudAndDelay then RequiresPowerCycle
        else if magic = kMagicTransmitRate \<or> magic = kMagicOutputDrive \<or> magic = kMagicCanShutdown
        then RequiresPowerCycle
        else Immediate)"

definition decodeConfigResponse :: "byte list \<Rightarrow> config_response option" where
  "decodeConfigResponse bytes =
     (if length bytes \<noteq> 8 then None
      else let b0 = bytes ! 0 in
        if \<not> list_all (\<lambda>b. b = b0) bytes then None
        else if b0 = 0x00 then Some RSuccess
        else if b0 = 0x11 then Some RIdMismatch
        else if b0 = 0x22 then Some RFrameCheckError
        else if b0 = 0x33 then Some RInvalidId
        else None)"

section \<open>The configuration word\<close>

text \<open>A configuration the word can carry: raw fields of their widths, with the readings the raw
  bytes have, and a delay of whole tenths of a second below 25.6 s.\<close>

definition config_wf :: "relay_config \<Rightarrow> bool" where
  "config_wf c \<longleftrightarrow> canKillRaw c \<le> 3 \<and> baudRaw c \<le> 3 \<and> outputDriveRaw c \<le> 15 \<and>
     cfg_canKill c = canKillModeFromRaw (canKillRaw c) \<and> cfg_baud c = canBaudFromRaw (baudRaw c) \<and>
     cfg_outputDrive c = outputDriveFromRaw (outputDriveRaw c) \<and>
     shutdownDelay c mod 100 = 0 \<and> 0 \<le> shutdownDelay c \<and> shutdownDelay c \<le> 25500"

lemma config_byte4_fields:
  fixes k b d :: byte
  defines "w \<equiv> push_bit 6 (take_bit 2 k) OR push_bit 4 (take_bit 2 b) OR take_bit 4 d"
  shows "take_bit 2 (drop_bit 6 w) = take_bit 2 k" "take_bit 2 (drop_bit 4 w) = take_bit 2 b"
    "take_bit 4 w = take_bit 4 d"
  unfolding w_def by (auto intro!: bit_word_eqI simp: bit_simps dest: bit_imp_le_length)

lemma config_byte4_whole:
  fixes w :: byte
  shows "push_bit 6 (take_bit 2 (drop_bit 6 w)) OR push_bit 4 (take_bit 2 (drop_bit 4 w)) OR
    take_bit 4 w = w" (is "?v = w")
proof (rule bit_word_eqI)
  fix n :: nat
  assume n: "n < LENGTH(8)"
  consider "n < 4" | "4 \<le> n" "n < 6" | "6 \<le> n" "n < 8" using n by force
  then show "bit ?v n = bit w n"
  proof cases
    case 1 then show ?thesis by (simp add: bit_simps)
  next
    case 2
    then have "n - 4 < 2" "\<not> n < 4" "\<not> 6 \<le> n" by simp_all
    then show ?thesis using 2 by (simp add: bit_simps)
  next
    case 3
    then have "n - 6 < 2" "\<not> n < 4" "\<not> n - 4 < 2" by simp_all
    then show ?thesis using 3 by (simp add: bit_simps)
  qed
qed

lemma and_masks: "(x :: byte) AND 0x03 = take_bit 2 x" "x AND 0x0F = take_bit 4 x"
  by (simp_all add: take_bit_eq_mask mask_eq_exp_minus_1)

lemma take_small:
  fixes x :: byte
  shows "x \<le> 3 \<Longrightarrow> take_bit 2 x = x" "x \<le> 15 \<Longrightarrow> take_bit 4 x = x"
    "take_bit 2 x \<le> 3" "take_bit 4 x \<le> 15"
  by (simp_all add: word_unat_eq_iff word_le_nat_alt unsigned_take_bit_eq take_bit_nat_def
      less_Suc_eq_le [symmetric])

lemma tenths_roundtrip:
  assumes "d mod 100 = 0" "0 \<le> d" "d \<le> 25500"
  shows "int (unat (word_of_int (d sdiv 100) :: byte)) * 100 = d"
proof -
  have "d sdiv 100 = d div 100"
    using assms(2) by (cases "d = 0") (simp_all add: signed_divide_int_def)
  then show ?thesis
    using assms by (auto simp: unsigned_of_int take_bit_int_eq_self pos_imp_zdiv_nonneg_iff
        div_mult_mod_eq [of d 100, simplified assms(1)])
qed

lemma byte_int_range: "0 \<le> uint (b :: byte)" "uint (b :: byte) \<le> 255"
  using uint_bounded [of b] by simp_all

lemma byte_tenths: "uint (b :: byte) * 100 sdiv 100 = uint b"
  by (simp add: signed_divide_int_def sgn_if) (use byte_int_range(1) [of b] in linarith)


lemma tenths_range:
  fixes d :: int
  assumes "d mod 100 = 0" "0 \<le> d" "d \<le> 25500"
  shows "0 \<le> d sdiv 100" "d sdiv 100 \<le> 255" "d smod 100 = 0"
  using assms by (auto simp: signed_divide_int_def signed_modulo_int_def sgn_if elim: dvdE)

lemma config_word_read: "config_wf c \<Longrightarrow> decodeConfigWord (encodeConfigWord c) = c"
  using config_byte4_fields [of "canKillRaw c" "baudRaw c" "outputDriveRaw c"]
    tenths_roundtrip [of "shutdownDelay c"] tenths_range [of "shutdownDelay c"]
  by (simp add: config_wf_def encodeConfigWord_def decodeConfigWord_def Let_def and_masks take_small)

text \<open>Reading a configuration word gives a well-formed configuration that encodes back to
  the same word, undocumented codes included; and every well-formed configuration is read back
  from its word.\<close>

theorem config_word_roundtrip:
  "encodeConfigWord (decodeConfigWord word) = word \<and> config_wf (decodeConfigWord word) \<and>
   (config_wf c \<longrightarrow> decodeConfigWord (encodeConfigWord c) = c)"
proof (intro conjI impI)
  show "encodeConfigWord (decodeConfigWord word) = word"
    using config_byte4_whole [of "hi8 word"]
    by (simp add: encodeConfigWord_def decodeConfigWord_def Let_def and_masks byte_tenths
        leD [OF byte_int_range(2)])
  show "config_wf (decodeConfigWord word)"
    by (simp add: config_wf_def decodeConfigWord_def Let_def and_masks take_small byte_int_range)
qed (rule config_word_read)
end
