(* ===== verification/Doubles.thy ===== *)
theory Doubles
  imports Prelude "HOL-Library.Log_Nat"
begin

text \<open>
  Double arithmetic.  A \<open>double\<close> is the rational it denotes: \<open>to_double\<close> rounds to the 53 significant
  bits of the type, to even on a tie; NaN, infinities and subnormals are outside the model.
\<close>

section \<open>Double arithmetic\<close>

definition round_half_even :: "rat \<Rightarrow> int" where
  "round_half_even x =
     (let f = \<lfloor>x\<rfloor>; d = x - of_int f in
      if d < 1 / 2 then f else if d > 1 / 2 then f + 1 else if even f then f else f + 1)"

definition rat_pow2 :: "int \<Rightarrow> rat" where
  "rat_pow2 e = (if e \<ge> 0 then 2 ^ nat e else 1 / 2 ^ nat (- e))"

definition to_double :: "rat \<Rightarrow> rat" where
  "to_double x =
     (if x = 0 then 0
      else let p = nat (fst (quotient_of \<bar>x\<bar>)); q = nat (snd (quotient_of \<bar>x\<bar>));
               e0 = int (floorlog 2 p) - int (floorlog 2 q) - 53;
               e = (if \<bar>x\<bar> / rat_pow2 e0 \<ge> 2 ^ 53 then e0 + 1 else e0) in
        sgn x * of_int (round_half_even (\<bar>x\<bar> / rat_pow2 e)) * rat_pow2 e)"

definition llround :: "rat \<Rightarrow> int" where
  "llround x = (if x < 0 then - \<lfloor>- x + 1 / 2\<rfloor> else \<lfloor>x + 1 / 2\<rfloor>)"


definition is_double :: "rat \<Rightarrow> bool" where
  "is_double x \<longleftrightarrow> to_double x = x"


section \<open>Rounding\<close>

lemma round_half_even_mono: "x \<le> y \<Longrightarrow> round_half_even x \<le> round_half_even y"
proof -
  assume le: "x \<le> y"
  have fl: "\<lfloor>x\<rfloor> \<le> \<lfloor>y\<rfloor>" using le by (rule floor_mono)
  show ?thesis
  proof (cases "\<lfloor>x\<rfloor> = \<lfloor>y\<rfloor>")
    case True
    with le show ?thesis by (auto simp: round_half_even_def Let_def)
  next
    case False
    with fl have "\<lfloor>x\<rfloor> + 1 \<le> \<lfloor>y\<rfloor>" by simp
    then show ?thesis by (auto simp: round_half_even_def Let_def)
  qed
qed

lemma round_half_even_int [simp]: "round_half_even (of_int n) = n"
  by (simp add: round_half_even_def)

lemma round_half_even_near: "\<bar>x - of_int n\<bar> < 1 / 2 \<Longrightarrow> round_half_even x = n"
proof -
  assume a: "\<bar>x - of_int n\<bar> < 1 / 2"
  then consider "\<lfloor>x\<rfloor> = n" | "\<lfloor>x\<rfloor> = n - 1" by linarith
  then show ?thesis
  proof cases
    case 1
    moreover from 1 a have "x - of_int \<lfloor>x\<rfloor> < 1 / 2" by linarith
    ultimately show ?thesis by (simp add: round_half_even_def Let_def)
  next
    case 2
    moreover from 2 a have "x - of_int \<lfloor>x\<rfloor> > 1 / 2" by linarith
    ultimately show ?thesis by (simp add: round_half_even_def Let_def)
  qed
qed

lemma rat_pow2_pos [simp]: "0 < rat_pow2 e"
  by (simp add: rat_pow2_def)

lemma rat_pow2_nonzero [simp]: "rat_pow2 e \<noteq> 0"
  by (metis less_irrefl rat_pow2_pos)

lemma rat_pow2_powi: "rat_pow2 e = 2 powi e"
  by (simp add: rat_pow2_def power_int_def inverse_eq_divide power_one_over)

lemma rat_pow2_add: "rat_pow2 (a + b) = rat_pow2 a * rat_pow2 b"
  by (simp add: rat_pow2_powi power_int_add)

lemma rat_pow2_mono: "a \<le> b \<Longrightarrow> rat_pow2 a \<le> rat_pow2 b"
  unfolding rat_pow2_powi by (rule power_int_increasing) simp_all

text \<open>The scale of a positive number: the power of two that brings it into the 53 bits.\<close>

definition scaled :: "rat \<Rightarrow> int \<Rightarrow> bool" where
  "scaled x e \<longleftrightarrow> 2 ^ 52 \<le> x / rat_pow2 e \<and> x / rat_pow2 e < 2 ^ 53"

lemma scaled_unique:
  assumes "scaled x e" "scaled x f"
  shows "e = f"
proof -
  have False if "a < b" "scaled x a" "scaled x b" for a b
  proof -
    have "rat_pow2 (a + 1) \<le> rat_pow2 b" using that(1) by (intro rat_pow2_mono) simp
    then have "2 * rat_pow2 a \<le> rat_pow2 b" by (simp add: rat_pow2_add) (simp add: rat_pow2_def)
    moreover have "x < 2 ^ 53 * rat_pow2 a" "2 ^ 52 * rat_pow2 b \<le> x"
      using that(2,3) by (simp_all add: scaled_def divide_less_eq le_divide_eq)
    ultimately show False by simp
  qed
  with assms show ?thesis by (cases e f rule: linorder_cases) auto
qed


lemma floorlog_rat:
  assumes "0 < (p :: nat)"
  shows "rat_pow2 (int (floorlog 2 p) - 1) \<le> of_nat p" "of_nat p < 2 * rat_pow2 (int (floorlog 2 p) - 1)"
proof -
  have b: "2 ^ (floorlog 2 p - 1) \<le> p" "p < 2 ^ floorlog 2 p" using floorlog_bounds [of p 2] assms by auto
  have P: "floorlog 2 p \<noteq> 0" using assms by (simp add: floorlog_eq_zero_iff)
  have low: "rat_pow2 (int (floorlog 2 p) - 1) = of_nat (2 ^ (floorlog 2 p - 1))"
    using P by (simp add: rat_pow2_def nat_diff_distrib)
  moreover have "2 * rat_pow2 (int (floorlog 2 p) - 1) = of_nat (2 ^ floorlog 2 p)"
    using P by (simp add: low power_eq_if)
  ultimately show "rat_pow2 (int (floorlog 2 p) - 1) \<le> of_nat p" "of_nat p < 2 * rat_pow2 (int (floorlog 2 p) - 1)"
    using b by (simp_all only: of_nat_le_iff of_nat_less_iff)
qed

lemma to_double_scaled:
  assumes "0 < x"
  shows "\<exists>e. scaled x e \<and> to_double x = of_int (round_half_even (x / rat_pow2 e)) * rat_pow2 e"
proof -
  obtain a b where ab: "quotient_of x = (a, b)" by fastforce
  define p q where "p = nat a" and "q = nat b"
  have pos: "0 < b" "0 < a" using ab assms quotient_of_denom_pos [of x a b] quotient_of_div [OF ab]
    by (auto simp: zero_less_divide_iff)
  then have x: "x = of_nat p / of_nat q" "0 < p" "0 < q"
    using quotient_of_div [OF ab] by (simp_all add: p_def q_def)
  define A B where "A = rat_pow2 (int (floorlog 2 p) - 1)" and "B = rat_pow2 (int (floorlog 2 q) - 1)"
  define e0 where "e0 = int (floorlog 2 p) - int (floorlog 2 q) - 53"
  have AB: "A \<le> of_nat p" "of_nat p < 2 * A" "B \<le> of_nat q" "of_nat q < 2 * B" "0 < A" "0 < B"
    using floorlog_rat [OF x(2)] floorlog_rat [OF x(3)] by (simp_all add: A_def B_def)
  have e0: "rat_pow2 e0 * B * 2 ^ 53 = A"
    unfolding A_def B_def e0_def by (simp add: rat_pow2_powi power_int_diff)
  have "x * B < 2 * A" "A < 2 * (x * B)"
  proof -
    have xq: "x * of_nat q = of_nat p" using x by simp
    have "x * B \<le> x * of_nat q" using AB(3) assms by simp
    then show "x * B < 2 * A" using AB(2) xq by linarith
    have "x * of_nat q < x * (2 * B)" using AB(4) assms by (rule mult_strict_left_mono)
    then show "A < 2 * (x * B)" using AB(1) xq by linarith
  qed
  then have xe: "x * B < 2 * (rat_pow2 e0 * B * 2 ^ 53)" "rat_pow2 e0 * B * 2 ^ 53 < 2 * (x * B)"
    unfolding e0 .
  then have "B * x < B * (rat_pow2 e0 * 2 ^ 54)" "B * (rat_pow2 e0 * 2 ^ 52) < B * x" by (simp_all add: ac_simps)
  then have r: "x < rat_pow2 e0 * 2 ^ 54" "rat_pow2 e0 * 2 ^ 52 < x"
    using AB(6) by (simp_all only: mult_less_cancel_left_pos)
  define e where "e = (if x / rat_pow2 e0 \<ge> 2 ^ 53 then e0 + 1 else e0)"
  have "scaled x e"
    using r by (auto simp: scaled_def e_def rat_pow2_add le_divide_eq divide_less_eq ac_simps)
       (simp_all add: rat_pow2_def)
  moreover have "to_double x = of_int (round_half_even (x / rat_pow2 e)) * rat_pow2 e"
    using assms ab by (simp add: to_double_def e_def e0_def p_def q_def Let_def)
  ultimately show ?thesis by blast
qed

lemma to_double_at: "scaled x e \<Longrightarrow> to_double x = of_int (round_half_even (x / rat_pow2 e)) * rat_pow2 e"
proof -
  assume e: "scaled x e"
  then have "0 < x / rat_pow2 e" by (simp add: scaled_def)
  then have "0 < x" using rat_pow2_pos [of e] by (auto simp: zero_less_divide_iff)
  from to_double_scaled [OF this] e scaled_unique show ?thesis by blast
qed

lemma to_double_0 [simp]: "to_double 0 = 0"
  by (simp add: to_double_def)

lemma scaled_rounded:
  assumes "scaled x e"
  shows "2 ^ 52 \<le> round_half_even (x / rat_pow2 e)" "round_half_even (x / rat_pow2 e) \<le> 2 ^ 53"
proof -
  have "round_half_even (of_int (2 ^ 52)) \<le> round_half_even (x / rat_pow2 e)"
    by (rule round_half_even_mono) (use assms in \<open>simp add: scaled_def\<close>)
  then show "2 ^ 52 \<le> round_half_even (x / rat_pow2 e)" by (simp only: round_half_even_int)
  have "round_half_even (x / rat_pow2 e) \<le> round_half_even (of_int (2 ^ 53))"
    by (rule round_half_even_mono) (use assms in \<open>simp add: scaled_def\<close>)
  then show "round_half_even (x / rat_pow2 e) \<le> 2 ^ 53" by (simp only: round_half_even_int)
qed

lemma scaled_rounded_rat:
  assumes "scaled x e"
  shows "(2::rat) ^ 52 \<le> of_int (round_half_even (x / rat_pow2 e))"
    "of_int (round_half_even (x / rat_pow2 e)) \<le> (2::rat) ^ 53"
  using of_int_le_iff [where ?'a = rat, THEN iffD2, OF scaled_rounded(1) [OF assms]]
    of_int_le_iff [where ?'a = rat, THEN iffD2, OF scaled_rounded(2) [OF assms]] by simp_all

lemma to_double_pos: "0 < x \<Longrightarrow> 0 < to_double x"
  using to_double_scaled [of x] scaled_rounded(1) by fastforce

lemma to_double_nonneg [simp]: "0 \<le> x \<Longrightarrow> 0 \<le> to_double x"
  using to_double_pos [of x] by (cases "x = 0") auto

lemma to_double_mono:
  assumes "0 \<le> x" "x \<le> y"
  shows "to_double x \<le> to_double y"
proof (cases "x = 0")
  case True
  with assms show ?thesis by simp
next
  case False
  then have pos: "0 < x" "0 < y" using assms by simp_all
  from to_double_scaled [OF pos(1)] obtain e where
    e: "scaled x e" "to_double x = of_int (round_half_even (x / rat_pow2 e)) * rat_pow2 e" by blast
  from to_double_scaled [OF pos(2)] obtain f where
    f: "scaled y f" "to_double y = of_int (round_half_even (y / rat_pow2 f)) * rat_pow2 f" by blast
  consider "f < e" | "e = f" | "e < f" by linarith
  then show ?thesis
  proof cases
    case 1
    then have "rat_pow2 (f + 1) \<le> rat_pow2 e" by (intro rat_pow2_mono) simp
    then have "2 * rat_pow2 f \<le> rat_pow2 e" by (simp add: rat_pow2_add) (simp add: rat_pow2_def)
    moreover have "y < 2 ^ 53 * rat_pow2 f" "2 ^ 52 * rat_pow2 e \<le> x"
      using e(1) f(1) by (simp_all add: scaled_def divide_less_eq le_divide_eq)
    ultimately show ?thesis using assms(2) by simp
  next
    case 2
    with assms(2) have "round_half_even (x / rat_pow2 e) \<le> round_half_even (y / rat_pow2 f)"
      by (intro round_half_even_mono) (simp add: divide_right_mono less_imp_le)
    with 2 e(2) f(2) show ?thesis by (simp add: less_imp_le)
  next
    case 3
    then have "rat_pow2 (e + 1) \<le> rat_pow2 f" by (intro rat_pow2_mono) simp
    then have two: "2 * rat_pow2 e \<le> rat_pow2 f" by (simp add: rat_pow2_add) (simp add: rat_pow2_def)
    have "to_double x \<le> 2 ^ 53 * rat_pow2 e"
      unfolding e(2) by (intro mult_right_mono scaled_rounded_rat(2) [OF e(1)]) (simp add: less_imp_le)
    also have "\<dots> \<le> 2 ^ 52 * rat_pow2 f" using two by simp
    also have "\<dots> \<le> to_double y"
      unfolding f(2) by (intro mult_right_mono scaled_rounded_rat(1) [OF f(1)]) (simp add: less_imp_le)
    finally show ?thesis .
  qed
qed

lemma to_double_exact:
  assumes "scaled x e" "x = of_int n * rat_pow2 e"
  shows "to_double x = x"
proof -
  have "0 < x / rat_pow2 e" using assms(1) by (simp add: scaled_def)
  then have "0 < x" using rat_pow2_pos [of e] by (auto simp: zero_less_divide_iff)
  from to_double_scaled [OF this] obtain f where
    f: "scaled x f" "to_double x = of_int (round_half_even (x / rat_pow2 f)) * rat_pow2 f" by blast
  have "f = e" using scaled_unique f(1) assms(1) .
  moreover have "x / rat_pow2 e = of_int n" using assms(2) by simp
  ultimately show ?thesis using f(2) assms(2) by simp
qed

lemma to_double_idem: "0 \<le> x \<Longrightarrow> to_double (to_double x) = to_double x"
proof (cases "x = 0")
  case False
  assume "0 \<le> x"
  with False have "0 < x" by simp
  from to_double_scaled [OF this] obtain e where
    e: "scaled x e" "to_double x = of_int (round_half_even (x / rat_pow2 e)) * rat_pow2 e" by blast
  let ?n = "round_half_even (x / rat_pow2 e)"
  note n = scaled_rounded [OF e(1)]
  show ?thesis
  proof (cases "?n = 2 ^ 53")
    case True
    have "to_double x = of_int (2 ^ 52) * rat_pow2 (e + 1)"
      unfolding e(2) True by (simp add: rat_pow2_add) (simp add: rat_pow2_def)
    then show ?thesis by (intro to_double_exact [of _ "e + 1" "2 ^ 52"]) (simp_all add: scaled_def)
  next
    case False
    with n have "?n < 2 ^ 53" by simp
    from of_int_less_iff [where ?'a = rat, THEN iffD2, OF this] scaled_rounded_rat(1) [OF e(1)]
    have "(2::rat) ^ 52 \<le> of_int ?n" "of_int ?n < (2::rat) ^ 53" by simp_all
    with e(2) show ?thesis by (intro to_double_exact [of _ e ?n]) (simp_all add: scaled_def)
  qed
qed simp


lemma to_double_nat: "n < 2 ^ 53 \<Longrightarrow> to_double (of_nat n) = of_nat n"
proof (cases "n = 0")
  case False
  assume n: "n < 2 ^ 53"
  from False have "0 < (of_nat n :: rat)" by simp
  from to_double_scaled [OF this] obtain e where e: "scaled (of_nat n) e" by blast
  have "e \<le> 0"
  proof (rule ccontr)
    assume "\<not> e \<le> 0"
    then have "rat_pow2 1 \<le> rat_pow2 e" by (intro rat_pow2_mono) simp
    then have "2 \<le> rat_pow2 e" by (simp add: rat_pow2_def)
    moreover have "2 ^ 52 * rat_pow2 e \<le> of_nat n" using e by (simp add: scaled_def le_divide_eq)
    ultimately have "(2::rat) ^ 53 \<le> of_nat n" by simp
    moreover have "(of_nat n :: rat) < of_nat (2 ^ 53)" using n by (simp only: of_nat_less_iff)
    ultimately show False by simp
  qed
  then have "(of_nat n :: rat) = of_int (int n * 2 ^ nat (- e)) * rat_pow2 e" by (simp add: rat_pow2_def)
  from to_double_exact [OF e this] show ?thesis .
qed simp

lemma to_double_dyadic: "n < 2 ^ 53 \<Longrightarrow> to_double (of_nat n / 2 ^ k) = of_nat n / 2 ^ k"
proof (cases "n = 0")
  case False
  assume n: "n < 2 ^ 53"
  from False have "0 < (of_nat n :: rat)" by simp
  from to_double_scaled [OF this] obtain e where
    e: "scaled (of_nat n) e" "to_double (of_nat n) = of_int (round_half_even (of_nat n / rat_pow2 e)) * rat_pow2 e" by blast
  have p: "rat_pow2 (e - int k) = rat_pow2 e / 2 ^ k" by (simp add: rat_pow2_powi power_int_diff)
  have "scaled (of_nat n / 2 ^ k) (e - int k)" using e(1) by (simp add: scaled_def p)
  moreover have "of_nat n / 2 ^ k = of_int (round_half_even (of_nat n / rat_pow2 e)) * rat_pow2 (e - int k)"
    using e(2) to_double_nat [OF n] by (simp add: p)
  ultimately show ?thesis by (rule to_double_exact)
qed simp

lemma to_double_numeral: "numeral k < (2::nat) ^ 53 \<Longrightarrow> to_double (numeral k) = numeral k"
  using to_double_nat [of "numeral k"] by simp

lemma to_double_1 [simp]: "to_double 1 = 1"
  using to_double_nat [of 1] by simp

text \<open>A rounded value lies between the doubles its argument lies between.\<close>

lemma to_double_between: "is_double a \<Longrightarrow> is_double b \<Longrightarrow> 0 \<le> a \<Longrightarrow> a \<le> x \<Longrightarrow> x \<le> b \<Longrightarrow> a \<le> to_double x \<and> to_double x \<le> b"
  using to_double_mono [of a x] to_double_mono [of x b] by (simp add: is_double_def)

section \<open>Sums\<close>

text \<open>The addition of two doubles, and what a sum of costs relies on.\<close>

definition dadd :: "rat \<Rightarrow> rat \<Rightarrow> rat" where
  "dadd a b = to_double (a + b)"

lemma is_double_0 [simp]: "is_double 0"
  by (simp add: is_double_def)

lemma is_double_to_double: "0 \<le> x \<Longrightarrow> is_double (to_double x)"
  by (simp add: is_double_def to_double_idem)

lemma is_double_dadd: "0 \<le> a \<Longrightarrow> 0 \<le> b \<Longrightarrow> is_double (dadd a b)"
  by (simp add: dadd_def is_double_to_double)

lemma dadd_nonneg: "0 \<le> a \<Longrightarrow> 0 \<le> b \<Longrightarrow> 0 \<le> dadd a b"
  by (simp add: dadd_def)

lemma dadd_mono: "0 \<le> a \<Longrightarrow> 0 \<le> b \<Longrightarrow> a \<le> a' \<Longrightarrow> b \<le> b' \<Longrightarrow> dadd a b \<le> dadd a' b'"
  unfolding dadd_def by (rule to_double_mono) simp_all

lemma dadd_increases: "is_double a \<Longrightarrow> 0 \<le> a \<Longrightarrow> 0 \<le> b \<Longrightarrow> a \<le> dadd a b"
  using to_double_mono [of a "a + b"] by (simp add: dadd_def is_double_def)

end
