(* ===== verification/MselRelay.thy ===== *)
theory MselRelay
  imports MselProtocol Doubles
begin

text \<open>
  libs/msel: the relay itself as the code models it (stub_relay.cpp), the decoder of its messages
  (decoder.cpp), the hand-off of its answers (response_waiter.cpp), and how the relay node moves
  the relay to another base address (nodes/msel_master_relay/main.cpp).

  The readings are doubles (theory \<open>Doubles\<close>); none comes near an infinity or a subnormal.
\<close>

section \<open>The relay\<close>

record relay_state =
  voltageIn :: rat
  voltageOut :: rat
  loadCurrent :: rat
  temperatureInternal :: rat
  rs_warnings :: byte
  statusRaw :: byte
  serialNo :: u16
  timeSinceShutdown :: int
  shutdownCauseRaw :: byte
  shutdownCause2Raw :: byte
  switchStateRaw :: byte
  transmitsSwitchState :: bool
  rs_config :: relay_config

record relay =
  mAddresses :: addresses
  mState :: relay_state
  mExternalKillHeld :: bool
  mIsolated :: bool
  mKillAddress :: u32
  mPendingConfig :: "relay_config option"
  mPendingKillAddress :: "u32 option"

definition factory_config :: relay_config where
  "factory_config =
     \<lparr>cfg_canKill = Some KillDisabled, canKillRaw = kill_code KillDisabled,
      cfg_baud = Some Rate1M, baudRaw = baud_code Rate1M,
      cfg_outputDrive = Some ActiveHighHalfBridge,
      outputDriveRaw = drive_code ActiveHighHalfBridge, shutdownDelay = 1000\<rparr>"

definition initial_relay_state :: relay_state where
  "initial_relay_state =
     \<lparr>voltageIn = to_double (1256 / 100), voltageOut = to_double (1256 / 100),
      loadCurrent = to_double (545 / 10), temperatureInternal = to_double (252 / 10),
      rs_warnings = 0, statusRaw = status_code Normal, serialNo = 64666, timeSinceShutdown = 0,
      shutdownCauseRaw = 0, shutdownCause2Raw = 0,
      switchStateRaw = switch_code NormalCalNormalExternalSwitch, transmitsSwitchState = True,
      rs_config = factory_config\<rparr>"

definition new_relay :: "addresses \<Rightarrow> relay" where
  "new_relay a =
     \<lparr>mAddresses = a, mState = initial_relay_state, mExternalKillHeld = False, mIsolated = False,
      mKillAddress = kDefaultKillAddress, mPendingConfig = None, mPendingKillAddress = None\<rparr>"

definition setExternalKillSwitchHeld :: "bool \<Rightarrow> relay \<Rightarrow> relay" where
  "setExternalKillSwitchHeld held r = r\<lparr>mExternalKillHeld := held\<rparr>"

definition hasPendingConfig :: "relay \<Rightarrow> bool" where
  "hasPendingConfig r \<longleftrightarrow> mPendingConfig r \<noteq> None"

definition putU16 :: "can_frame \<Rightarrow> nat \<Rightarrow> u16 \<Rightarrow> can_frame" where
  "putU16 f offset v = put_byte (offset + 1) (lo8 v) (put_byte offset (hi8 v) f)"

definition putI16 :: "can_frame \<Rightarrow> nat \<Rightarrow> 16 word \<Rightarrow> can_frame" where
  "putI16 f offset v = putU16 f offset v"

definition scaledI16 :: "rat \<Rightarrow> rat \<Rightarrow> 16 word" where
  "scaledI16 v scale =
     (let raw = llround (to_double (v / scale)) in
      if raw > 32767 then word_of_int 32767
      else if raw < -32768 then word_of_int (-32768)
      else word_of_int raw)"

definition scaledU16 :: "rat \<Rightarrow> rat \<Rightarrow> u16" where
  "scaledU16 v scale =
     (let raw = llround (to_double (v / scale)) in
      if raw > 65535 then 65535 else if raw < 0 then 0 else word_of_int raw)"

definition wordAt :: "can_frame \<Rightarrow> nat \<Rightarrow> u16" where
  "wordAt f offset = join16 (byte_at f offset) (byte_at f (offset + 1))"

text \<open>The three frames of one transmission cycle, and the cycle.\<close>

definition status_frame :: "relay \<Rightarrow> can_frame" where
  "status_frame r =
     (let s = mState r;
          f = empty_frame\<lparr>frame_id := addr_status (mAddresses r), frame_len := 8\<rparr>;
          f = putU16 f 0 (scaledU16 (voltageOut s) (to_double (1 / 100)));
          f = putI16 f 2 (scaledI16 (loadCurrent s) (to_double (1 / 10)));
          f = putI16 f 4 (scaledI16 (temperatureInternal s) (to_double (1 / 10))) in
      put_byte 7 (statusRaw s) (put_byte 6 (rs_warnings s) f))"

definition info_frame :: "relay \<Rightarrow> can_frame" where
  "info_frame r =
     (let s = mState r;
          f = empty_frame\<lparr>frame_id := addr_info (mAddresses r), frame_len := 8\<rparr>;
          f = putU16 f 0 (scaledU16 (voltageIn s) (to_double (1 / 100)));
          f = putU16 f 2 (serialNo s);
          f = putU16 f 4 (encodeConfigWord (rs_config s));
          f = put_byte 6 (word_of_int (timeSinceShutdown s sdiv 100)) f in
      put_byte 7 (push_bit 4 (shutdownCause2Raw s AND 0x0F) OR (shutdownCauseRaw s AND 0x0F)) f)"

definition switch_frame :: "relay \<Rightarrow> can_frame" where
  "switch_frame r =
     put_byte 1 (switchStateRaw (mState r))
       (put_byte 0 0 (empty_frame\<lparr>frame_id := addr_switchState (mAddresses r), frame_len := 2\<rparr>))"

definition periodicFrames :: "relay \<Rightarrow> can_frame list" where
  "periodicFrames r =
     [status_frame r, info_frame r] @
     (if transmitsSwitchState (mState r) then [switch_frame r] else [])"

definition makeResponse :: "relay \<Rightarrow> config_response \<Rightarrow> can_frame" where
  "makeResponse r response =
     put_bytes 0 (replicate 8 (response_code response))
       (empty_frame\<lparr>frame_id := addr_status (mAddresses r), frame_len := 8\<rparr>)"

text \<open>The five commands, one definition per case of the switch on the magic word.  The answer to
  a change of the base address goes out on the new one, because the assignment comes first.\<close>

definition set_base :: "can_frame \<Rightarrow> relay \<Rightarrow> can_frame \<times> relay" where
  "set_base f r =
     (let w = wordAt f 2 in
      if w \<noteq> wordAt f 4 then (makeResponse r RIdMismatch, r)
      else case validateBaseAddress (ucast w) of
        Inl _ \<Rightarrow> (makeResponse r RInvalidId, r)
      | Inr _ \<Rightarrow> (let r' = r\<lparr>mAddresses := (mAddresses r)\<lparr>addr_base := ucast w\<rparr>\<rparr> in
                   (makeResponse r' RSuccess, r')))"

definition set_rate :: "can_frame \<Rightarrow> relay \<Rightarrow> can_frame \<times> relay" where
  "set_rate f r =
     (if byte_at f 2 \<noteq> byte_at f 3 then (makeResponse r RIdMismatch, r)
      else case transmitRateFromRaw (byte_at f 2) of
        None \<Rightarrow> (makeResponse r RInvalidId, r)
      | Some _ \<Rightarrow> (makeResponse r RSuccess, r))"

definition pending_or :: "relay \<Rightarrow> relay_config" where
  "pending_or r = (case mPendingConfig r of Some c \<Rightarrow> c | None \<Rightarrow> rs_config (mState r))"

definition set_baud :: "can_frame \<Rightarrow> relay \<Rightarrow> can_frame \<times> relay" where
  "set_baud f r =
     (if byte_at f 2 \<noteq> byte_at f 3 \<or> byte_at f 4 \<noteq> byte_at f 5 then (makeResponse r RIdMismatch, r)
      else case canBaudFromRaw (byte_at f 2) of
        None \<Rightarrow> (makeResponse r RInvalidId, r)
      | Some b \<Rightarrow>
          (let delay = int (unat (byte_at f 4)) * 100;
               s = mState r;
               r = r\<lparr>mState := s\<lparr>rs_config := (rs_config s)\<lparr>shutdownDelay := delay\<rparr>\<rparr>\<rparr>;
               pending = (pending_or r)\<lparr>shutdownDelay := delay, baudRaw := byte_at f 2,
                                        cfg_baud := Some b\<rparr>;
               r = r\<lparr>mPendingConfig := Some pending\<rparr> in
           (makeResponse r RSuccess, r)))"

definition set_drive :: "can_frame \<Rightarrow> relay \<Rightarrow> can_frame \<times> relay" where
  "set_drive f r =
     (if byte_at f 2 \<noteq> byte_at f 3 then (makeResponse r RIdMismatch, r)
      else case outputDriveFromRaw (byte_at f 2) of
        None \<Rightarrow> (makeResponse r RInvalidId, r)
      | Some d \<Rightarrow>
          (let pending = (pending_or r)\<lparr>outputDriveRaw := byte_at f 2, cfg_outputDrive := Some d\<rparr>;
               r = r\<lparr>mPendingConfig := Some pending\<rparr> in
           (makeResponse r RSuccess, r)))"

definition set_kill :: "can_frame \<Rightarrow> relay \<Rightarrow> can_frame \<times> relay" where
  "set_kill f r =
     (let w = wordAt f 2 in
      if w \<noteq> wordAt f 4 then (makeResponse r RIdMismatch, r)
      else
        (let address = ucast (w AND 0x0FFF) :: u32 in
         case canKillModeFromRaw (ucast (drop_bit 12 w AND 0x0F)) of
           None \<Rightarrow> (makeResponse r RInvalidId, r)
         | Some mode \<Rightarrow>
             if address > kMaxStandardId then (makeResponse r RInvalidId, r)
             else (let pending = (pending_or r)\<lparr>canKillRaw := kill_code mode, cfg_canKill := Some mode\<rparr>;
                       r = r\<lparr>mPendingConfig := Some pending, mPendingKillAddress := Some address\<rparr> in
                   (makeResponse r RSuccess, r))))"

definition handleCommand :: "can_frame \<Rightarrow> relay \<Rightarrow> can_frame option \<times> relay" where
  "handleCommand f r =
     (if \<not> mExternalKillHeld r then (None, r)
      else if frame_len f \<noteq> 8 then (Some (makeResponse r RFrameCheckError), r)
      else let magic = wordAt f 0 in
        if magic \<noteq> wordAt f 6 then (Some (makeResponse r RFrameCheckError), r)
        else if magic = 0x0789 then apfst Some (set_base f r)
        else if magic = 0x0DEF then apfst Some (set_rate f r)
        else if magic = 0x0456 then apfst Some (set_baud f r)
        else if magic = 0x0ABC then apfst Some (set_drive f r)
        else if magic = 0x0123 then apfst Some (set_kill f r)
        else (Some (makeResponse r RFrameCheckError), r))"

definition kill_matches :: "can_frame \<Rightarrow> bool" where
  "kill_matches f \<longleftrightarrow>
     frame_len f = 8 \<and> list_all (\<lambda>i. byte_at f i = kill_payload ! i) [0..<8]"

definition relay_isolate :: "relay \<Rightarrow> relay" where
  "relay_isolate r =
     (let s = mState r in
      r\<lparr>mIsolated := True,
        mState := s\<lparr>statusRaw := status_code CanTriggerKill,
                    rs_warnings := warning_bit WCanTriggerKill,
                    shutdownCause2Raw := shutdownCauseRaw s,
                    shutdownCauseRaw := status_code CanTriggerKill\<rparr>\<rparr>)"

definition relay_onFrame :: "can_frame \<Rightarrow> relay \<Rightarrow> can_frame option \<times> relay" where
  "relay_onFrame f r =
     (if frame_id f = mKillAddress r \<and> cfg_canKill (rs_config (mState r)) \<noteq> None \<and>
         cfg_canKill (rs_config (mState r)) \<noteq> Some KillDisabled \<and> kill_matches f
      then (None, relay_isolate r)
      else if frame_id f = kConfigCommandId then handleCommand f r
      else (None, r))"

definition powerCycle :: "relay \<Rightarrow> relay" where
  "powerCycle r =
     (let s = mState r;
          c = (case mPendingConfig r of Some c \<Rightarrow> c | None \<Rightarrow> rs_config s);
          k = (case mPendingKillAddress r of Some k \<Rightarrow> k | None \<Rightarrow> mKillAddress r) in
      r\<lparr>mState := s\<lparr>rs_config := c, statusRaw := status_code Normal, rs_warnings := 0\<rparr>,
        mPendingConfig := None, mPendingKillAddress := None, mKillAddress := k,
        mIsolated := False\<rparr>)"

section \<open>What the commands do\<close>

text \<open>The settings of a relay as the manual describes them: what is live and what the next power
  cycle brings.  A request is a call of one of the builders; \<open>spec_do\<close> says what it should do.\<close>

record relay_view =
  v_held :: bool
  v_isolated :: bool
  v_base :: u32
  v_live :: relay_config
  v_next :: relay_config
  v_kill :: u32
  v_next_kill :: u32

definition next_kill :: "relay \<Rightarrow> u32" where
  "next_kill r = (case mPendingKillAddress r of Some k \<Rightarrow> k | None \<Rightarrow> mKillAddress r)"

lemma pending_simps [simp]:
  "pending_or (r\<lparr>mAddresses := a\<rparr>) = pending_or r"
  "pending_or (r\<lparr>mPendingConfig := Some c\<rparr>) = c"
  "pending_or (r\<lparr>mPendingKillAddress := k\<rparr>) = pending_or r"
  "pending_or (r\<lparr>mIsolated := i\<rparr>) = pending_or r"
  "pending_or (r\<lparr>mExternalKillHeld := h\<rparr>) = pending_or r"
  "next_kill (r\<lparr>mAddresses := a\<rparr>) = next_kill r"
  "next_kill (r\<lparr>mPendingConfig := x\<rparr>) = next_kill r"
  "next_kill (r\<lparr>mPendingKillAddress := Some q\<rparr>) = q"
  "next_kill (r\<lparr>mState := s\<rparr>) = next_kill r"
  "next_kill (r\<lparr>mIsolated := i\<rparr>) = next_kill r"
  "next_kill (r\<lparr>mExternalKillHeld := h\<rparr>) = next_kill r"
  by (simp_all add: pending_or_def next_kill_def split: option.splits)

lemma pending_or_live:
  "(pending_or (r\<lparr>mState := (mState r)\<lparr>rs_config := (rs_config (mState r))\<lparr>shutdownDelay := d\<rparr>\<rparr>\<rparr>))
     \<lparr>shutdownDelay := d, baudRaw := x, cfg_baud := y\<rparr> =
   (pending_or r)\<lparr>shutdownDelay := d, baudRaw := x, cfg_baud := y\<rparr>"
  by (cases "mPendingConfig r") (simp_all add: pending_or_def)

lemma pending_or_state:
  "rs_config s = rs_config (mState r) \<Longrightarrow> pending_or (r\<lparr>mState := s\<rparr>) = pending_or r"
  by (simp add: pending_or_def split: option.splits)

definition view_of :: "relay \<Rightarrow> relay_view" where
  "view_of r =
     \<lparr>v_held = mExternalKillHeld r, v_isolated = mIsolated r, v_base = addr_base (mAddresses r),
      v_live = rs_config (mState r), v_next = pending_or r, v_kill = mKillAddress r,
      v_next_kill = next_kill r\<rparr>"

datatype request = ReqBase u32 | ReqRate transmit_rate | ReqBaud can_baud int
  | ReqDrive output_drive | ReqKill can_kill_mode u32

datatype relay_op = Ask request | Trigger u32 | Hold bool | Cycle

fun build :: "request \<Rightarrow> can_frame msel_result" where
  "build (ReqBase b) = makeSetBaseAddressFrame b"
| "build (ReqRate t) = makeSetTransmitRateFrame t"
| "build (ReqBaud b d) = makeSetBaudAndShutdownDelayFrame b d"
| "build (ReqDrive d) = makeSetOutputDriveFrame d"
| "build (ReqKill m a) = makeSetCanShutdownFrame m a"

fun spec_ask :: "request \<Rightarrow> relay_view \<Rightarrow> relay_view" where
  "spec_ask (ReqBase b) v = v\<lparr>v_base := b\<rparr>"
| "spec_ask (ReqRate t) v = v"
| "spec_ask (ReqBaud b d) v =
     v\<lparr>v_live := (v_live v)\<lparr>shutdownDelay := d\<rparr>,
       v_next := (v_next v)\<lparr>shutdownDelay := d, baudRaw := baud_code b, cfg_baud := Some b\<rparr>\<rparr>"
| "spec_ask (ReqDrive d) v =
     v\<lparr>v_next := (v_next v)\<lparr>outputDriveRaw := drive_code d, cfg_outputDrive := Some d\<rparr>\<rparr>"
| "spec_ask (ReqKill m a) v =
     v\<lparr>v_next := (v_next v)\<lparr>canKillRaw := kill_code m, cfg_canKill := Some m\<rparr>, v_next_kill := a\<rparr>"

text \<open>The answer and the settings afterwards: nothing happens to a request without the held
  switch, and a kill trigger is obeyed when the shutdown is enabled and live on its address.\<close>

fun spec_do :: "relay_op \<Rightarrow> relay_view \<Rightarrow> config_response option \<times> relay_view" where
  "spec_do (Ask q) v = (if v_held v then (Some RSuccess, spec_ask q v) else (None, v))"
| "spec_do (Trigger a) v =
     (if a = v_kill v \<and> cfg_canKill (v_live v) \<in> {Some KillEnabled, Some KillAdr}
      then (None, v\<lparr>v_isolated := True\<rparr>)
      else if a = kConfigCommandId \<and> v_held v then (Some RFrameCheckError, v)
      else (None, v))"
| "spec_do (Hold b) v = (None, v\<lparr>v_held := b\<rparr>)"
| "spec_do Cycle v =
     (None, v\<lparr>v_isolated := False, v_live := v_next v, v_kill := v_next_kill v\<rparr>)"

text \<open>The same operations on the relay, with the answer decoded from the frame that carries it;
  a request the builder refuses is not sent.\<close>

definition relay_send :: "can_frame msel_result \<Rightarrow> relay \<Rightarrow> config_response option \<times> relay" where
  "relay_send built r =
     (case built of
        Inl _ \<Rightarrow> (None, r)
      | Inr f \<Rightarrow> (case relay_onFrame f r of
            (None, r') \<Rightarrow> (None, r')
          | (Some answer, r') \<Rightarrow> (decodeConfigResponse (data_span answer), r')))"

fun relay_do :: "relay_op \<Rightarrow> relay \<Rightarrow> config_response option \<times> relay" where
  "relay_do (Ask q) r = relay_send (build q) r"
| "relay_do (Trigger a) r = relay_send (makeCanKillTriggerFrame a) r"
| "relay_do (Hold b) r = (None, setExternalKillSwitchHeld b r)"
| "relay_do Cycle r = (None, powerCycle r)"

fun sendable :: "relay_op \<Rightarrow> bool" where
  "sendable (Ask q) \<longleftrightarrow> (case build q of Inl _ \<Rightarrow> False | Inr _ \<Rightarrow> True)"
| "sendable (Trigger a) \<longleftrightarrow> a \<le> kMaxStandardId"
| "sendable (Hold b) \<longleftrightarrow> True"
| "sendable Cycle \<longleftrightarrow> True"

lemma frame_wf_makeFrame [simp]: "frame_wf (makeFrame i bs)"
  by (simp add: makeFrame_def)

lemma makeFrame_fields [frame_simps]:
  "frame_id (makeFrame i bs) = i" "frame_len (makeFrame i bs) = 8"
  by (simp_all add: makeFrame_def frame_simps)

lemma makeFrame_byte [frame_simps]:
  "length bs = 8 \<Longrightarrow> j < 8 \<Longrightarrow> byte_at (makeFrame i bs) j = bs ! j"
  by (simp add: makeFrame_def byte_at_put_bytes)

lemma word_command_bytes [frame_simps]:
  "wordAt (makeFrame i (wordCommand m v)) 0 = m" "wordAt (makeFrame i (wordCommand m v)) 6 = m"
  "wordAt (makeFrame i (wordCommand m v)) 2 = v" "wordAt (makeFrame i (wordCommand m v)) 4 = v"
  by (simp_all add: wordAt_def frame_simps wordCommand_def)

lemma byte_command_bytes [frame_simps]:
  "wordAt (makeFrame i (byteCommand m a b)) 0 = m" "wordAt (makeFrame i (byteCommand m a b)) 6 = m"
  "byte_at (makeFrame i (byteCommand m a b)) 2 = a" "byte_at (makeFrame i (byteCommand m a b)) 3 = a"
  "byte_at (makeFrame i (byteCommand m a b)) 4 = b" "byte_at (makeFrame i (byteCommand m a b)) 5 = b"
  by (simp_all add: wordAt_def frame_simps byteCommand_def)

lemma makeResponse_decodes [simp]: "decodeConfigResponse (data_span (makeResponse r c)) = Some c"
proof -
  have "data_span (makeResponse r c) = replicate 8 (response_code c)"
    using take_drop_put_bytes [of "empty_frame\<lparr>frame_id := addr_status (mAddresses r), frame_len := 8\<rparr>"
        0 "replicate 8 (response_code c)"]
    by (simp add: makeResponse_def data_span_def frame_simps)
       (simp add: put_bytes_def empty_frame_def)
  then show ?thesis
    by (cases c) (simp_all add: decodeConfigResponse_def list_all_iff)
qed


lemma kill_byte_small: "unat (kill_code m) < 4"
  by (cases m) simp_all

lemma kill_word_fields:
  fixes a :: u32 and m :: can_kill_mode
  assumes "a \<le> 0x7FF"
  defines "w \<equiv> push_bit 12 (ucast (kill_code m)) OR ucast a :: u16"
  shows "ucast (w AND 0x0FFF) = a" "ucast (drop_bit 12 w AND 0x0F) = kill_code m"
proof -
  have a: "a = take_bit 11 a"
    using assms(1) by (simp add: word_unat_eq_iff word_le_nat_alt unsigned_take_bit_eq take_bit_nat_def)
  have m: "kill_code m = take_bit 2 (kill_code m)"
    by (cases m) simp_all
  have ffs: "(0x0FFF :: u16) = mask 12" "(0x0F :: u16) = mask 4"
    by (simp_all add: mask_eq_exp_minus_1)
  show "ucast (w AND 0x0FFF) = a"
    unfolding ffs w_def by (subst (1 2) a, rule bit_word_eqI) (auto simp: bit_simps)
  show "ucast (drop_bit 12 w AND 0x0F) = kill_code m"
    unfolding ffs w_def
    by (subst a, subst (1 2) m, rule bit_word_eqI) (auto simp: bit_simps dest: bit_imp_le_length)
qed

lemma validate_ok:
  "validateBaseAddress b = Inr () \<longleftrightarrow> b \<le> 0x7FC \<and> \<not> (0x786 \<le> b \<and> b \<le> 0x789)"
  unfolding validateBaseAddress_def kMaxStandardId_def kConfigCommandId_def
  by (cases "b \<le> 0x7FF") (auto simp: word_le_nat_alt word_less_nat_alt unat_word_ariths not_le)

lemma command_not_kill:
  "hi8 m \<noteq> 0xFF \<Longrightarrow> \<not> kill_matches (makeFrame i (wordCommand m v))"
  "hi8 m \<noteq> 0xFF \<Longrightarrow> \<not> kill_matches (makeFrame i (byteCommand m a b))"
  by (auto simp: kill_matches_def kill_payload_def list_all_iff frame_simps wordCommand_def
      byteCommand_def intro!: bexI [of _ 0])

lemma trigger_matches: "kill_matches (makeFrame i kill_payload)"
  by (simp add: kill_matches_def list_all_iff frame_simps kill_payload_def)

lemma wordAt_kill: "wordAt (makeFrame i kill_payload) 0 = 0xFF00"
  "wordAt (makeFrame i kill_payload) 6 = 0xFF00"
  by (simp_all add: wordAt_def frame_simps kill_payload_def join16_def)

lemma magic_hi: "hi8 kMagicBaseAddress = 0x07" "hi8 kMagicTransmitRate = 0x0D"
  "hi8 kMagicBaudAndDelay = 0x04" "hi8 kMagicOutputDrive = 0x0A" "hi8 kMagicCanShutdown = 0x01"
  by (simp_all add: kMagicBaseAddress_def kMagicTransmitRate_def kMagicBaudAndDelay_def
      kMagicOutputDrive_def kMagicCanShutdown_def hi8_def)

lemmas magic_defs = kMagicBaseAddress_def kMagicTransmitRate_def kMagicBaudAndDelay_def
  kMagicOutputDrive_def kMagicCanShutdown_def

text \<open>A frame that is no kill trigger reaches the command handler when it has its identifier.\<close>

lemma relay_onFrame_command:
  "\<not> kill_matches f \<Longrightarrow> frame_id f = kConfigCommandId \<Longrightarrow> relay_onFrame f r = handleCommand f r"
  by (simp add: relay_onFrame_def)

lemma built_frame:
  assumes "build q = Inr f"
  shows "frame_id f = kConfigCommandId" "frame_len f = 8" "\<not> kill_matches f"
  using assms
  by (cases q; auto simp: makeSetBaseAddressFrame_def makeSetTransmitRateFrame_def
      makeSetBaudAndShutdownDelayFrame_def makeSetOutputDriveFrame_def makeSetCanShutdownFrame_def
      frame_simps magic_hi command_not_kill split: if_splits sum.splits)+

lemma ucast_base: "b \<le> 0x7FF \<Longrightarrow> ucast (ucast b :: u16) = (b :: u32)"
  by (simp add: word_unat_eq_iff word_le_nat_alt unsigned_ucast_eq unsigned_take_bit_eq
      take_bit_nat_def)

lemma handle_built:
  assumes "build q = Inr f" "mExternalKillHeld r"
  shows "\<exists>r'. handleCommand f r = (Some (makeResponse r' RSuccess), r') \<and>
    view_of r' = spec_ask q (view_of r)"
proof (cases q)
  case (ReqBase b)
  then have v: "validateBaseAddress b = Inr ()"
    and f: "f = makeFrame kConfigCommandId (wordCommand kMagicBaseAddress (ucast b))"
    using assms(1) by (auto simp: makeSetBaseAddressFrame_def split: sum.splits)
  have "b \<le> 0x7FF" using v by (auto simp: validateBaseAddress_def kMaxStandardId_def split: if_splits)
  with v f ReqBase assms(2) show ?thesis
    by (simp add: handleCommand_def frame_simps set_base_def magic_defs ucast_base view_of_def Let_def)
next
  case (ReqRate t)
  then show ?thesis using assms
    by (auto simp: makeSetTransmitRateFrame_def handleCommand_def frame_simps set_rate_def magic_defs)
next
  case (ReqBaud b d)
  then have d: "d smod 100 = 0" "0 \<le> d" "d \<le> 25500"
    and f: "f = makeFrame kConfigCommandId
      (byteCommand kMagicBaudAndDelay (baud_code b) (word_of_int (d sdiv 100)))"
    using assms(1) by (auto simp: makeSetBaudAndShutdownDelayFrame_def split: if_splits)
  have "int (unat (word_of_int (d sdiv 100) :: byte)) * 100 = d"
    using d by (intro tenths_roundtrip) (auto simp: signed_modulo_int_def sgn_if split: if_splits)
  with f ReqBaud assms(2) show ?thesis
    by (simp add: handleCommand_def frame_simps set_baud_def magic_defs view_of_def pending_or_live
        Let_def)
next
  case (ReqDrive d)
  then have "f = makeFrame kConfigCommandId (byteCommand kMagicOutputDrive (drive_code d) 0)"
    using assms(1) by (simp add: makeSetOutputDriveFrame_def)
  with ReqDrive assms(2) show ?thesis
    by (simp add: handleCommand_def frame_simps set_drive_def magic_defs view_of_def Let_def)
next
  case (ReqKill m a)
  then have a: "a \<le> 0x7FF" and f: "f = makeFrame kConfigCommandId (wordCommand kMagicCanShutdown
      (push_bit 12 (ucast (kill_code m)) OR ucast a))"
    using assms(1) by (auto simp: makeSetCanShutdownFrame_def kMaxStandardId_def split: if_splits)
  then show ?thesis using assms(2) ReqKill kill_word_fields [OF a, of m]
    by (simp add: handleCommand_def frame_simps set_kill_def magic_defs view_of_def
        Let_def kMaxStandardId_def leD [OF a])
qed

section \<open>Requests against the specification\<close>

lemma view_isolate [simp]: "view_of (relay_isolate r) = (view_of r)\<lparr>v_isolated := True\<rparr>"
  by (simp add: relay_isolate_def view_of_def pending_or_state Let_def)

lemma view_held [simp]: "v_held (view_of r) = mExternalKillHeld r"
  by (simp add: view_of_def)

lemma view_fields: "v_kill (view_of r) = mKillAddress r" "v_live (view_of r) = rs_config (mState r)"
  by (simp_all add: view_of_def)

lemma send_request:
  assumes "sendable (Ask q)"
  shows "spec_do (Ask q) (view_of r) = (fst (relay_do (Ask q) r), view_of (snd (relay_do (Ask q) r)))"
proof -
  from assms obtain f where f: "build q = Inr f" by (auto split: sum.splits)
  note cmd = relay_onFrame_command [OF built_frame(3) [OF f] built_frame(1) [OF f], of r]
  show ?thesis
  proof (cases "mExternalKillHeld r")
    case True
    from handle_built [OF f True] obtain r' where
      "handleCommand f r = (Some (makeResponse r' RSuccess), r')" "view_of r' = spec_ask q (view_of r)"
      by blast
    with f True cmd show ?thesis by (simp add: relay_send_def)
  next
    case False
    with f cmd show ?thesis by (simp add: relay_send_def handleCommand_def)
  qed
qed

lemma send_trigger:
  assumes "a \<le> kMaxStandardId"
  shows "spec_do (Trigger a) (view_of r) =
    (fst (relay_do (Trigger a) r), view_of (snd (relay_do (Trigger a) r)))"
proof -
  have f: "makeCanKillTriggerFrame a = Inr (makeFrame a kill_payload)"
    using assms by (simp add: makeCanKillTriggerFrame_def not_less)
  have modes: "k \<in> {Some KillEnabled, Some KillAdr} \<longleftrightarrow> k \<noteq> None \<and> k \<noteq> Some KillDisabled" for k
    by (cases k) (auto, metis can_kill_mode.exhaust)
  have armed: "frame_id (makeFrame a kill_payload) = mKillAddress r \<and>
      cfg_canKill (rs_config (mState r)) \<noteq> None \<and>
      cfg_canKill (rs_config (mState r)) \<noteq> Some KillDisabled \<and>
      kill_matches (makeFrame a kill_payload) \<longleftrightarrow>
      a = v_kill (view_of r) \<and> cfg_canKill (v_live (view_of r)) \<in> {Some KillEnabled, Some KillAdr}"
    unfolding modes view_fields frame_simps using trigger_matches by blast
  show ?thesis
  proof (cases "a = v_kill (view_of r) \<and> cfg_canKill (v_live (view_of r)) \<in> {Some KillEnabled, Some KillAdr}")
    case True
    show ?thesis
      unfolding relay_do.simps spec_do.simps f relay_send_def sum.case relay_onFrame_def armed
        if_P [OF True] by simp
  next
    case False
    show ?thesis
      unfolding relay_do.simps spec_do.simps f relay_send_def sum.case relay_onFrame_def armed
        if_not_P [OF False] by (simp add: frame_simps handleCommand_def wordAt_kill)
  qed
qed

lemma cycle_view: "view_of (powerCycle r) =
  (view_of r)\<lparr>v_isolated := False, v_live := v_next (view_of r), v_kill := v_next_kill (view_of r)\<rparr>"
  by (simp add: view_of_def powerCycle_def pending_or_def next_kill_def Let_def)

interpretation requests: op_simulation relay_do spec_do view_of sendable "\<lambda>_. True"
proof
  fix op r
  assume "sendable op"
  then show "spec_do op (view_of r) = (fst (relay_do op r), view_of (snd (relay_do op r)))"
    using send_request [of _ r] send_trigger [of _ r]
    by (cases op) (simp_all add: setExternalKillSwitchHeld_def cycle_view, simp add: view_of_def)
qed simp

text \<open>C24. Any sequence of configuration requests, kill triggers, presses of the kill switch and
  power cycles does to the relay exactly what the manual's reading of the settings says: a request
  is answered with success and takes effect (at once for the base address and the shutdown delay,
  at the next power cycle for the rest, without disturbing what other requests have stored) when
  the switch is held, and is ignored and unanswered when it is not.\<close>

theorem relay_obeys_requests:
  assumes "list_all sendable ops"
  shows "run_ops spec_do ops (view_of r) =
    (fst (run_ops relay_do ops r), view_of (snd (run_ops relay_do ops r)))"
  using requests.run_spec [of ops r] assms by simp

theorem relay_obeys_requests_witness:
  "view_of (snd (run_ops relay_do
      [Hold True, Ask (ReqBase 0x500), Ask (ReqKill KillEnabled 0x6E6), Cycle, Trigger 0x6E6]
      (new_relay \<lparr>addr_base = 0x6E4\<rparr>))) =
   \<lparr>v_held = True, v_isolated = True, v_base = 0x500,
    v_live = factory_config\<lparr>canKillRaw := 1, cfg_canKill := Some KillEnabled\<rparr>,
    v_next = factory_config\<lparr>canKillRaw := 1, cfg_canKill := Some KillEnabled\<rparr>,
    v_kill = 0x6E6, v_next_kill = 0x6E6\<rparr>"
proof -
  let ?ops = "[Hold True, Ask (ReqBase 0x500), Ask (ReqKill KillEnabled 0x6E6), Cycle, Trigger 0x6E6]"
  let ?r = "new_relay \<lparr>addr_base = 0x6E4\<rparr>"
  have "list_all sendable ?ops"
    by (simp add: makeSetBaseAddressFrame_def validateBaseAddress_def makeSetCanShutdownFrame_def
        kMaxStandardId_def kConfigCommandId_def)
  from relay_obeys_requests [OF this, of ?r]
  have "view_of (snd (run_ops relay_do ?ops ?r)) = snd (run_ops spec_do ?ops (view_of ?r))"
    by simp
  also have "\<dots> = \<lparr>v_held = True, v_isolated = True, v_base = 0x500,
    v_live = factory_config\<lparr>canKillRaw := 1, cfg_canKill := Some KillEnabled\<rparr>,
    v_next = factory_config\<lparr>canKillRaw := 1, cfg_canKill := Some KillEnabled\<rparr>,
    v_kill = 0x6E6, v_next_kill = 0x6E6\<rparr>"
    by (simp add: new_relay_def view_of_def pending_or_def next_kill_def initial_relay_state_def
        kConfigCommandId_def)
  finally show ?thesis .
qed

section \<open>What holds whatever arrives\<close>

datatype relay_event = Arrives can_frame | Held bool | PowerCycled

fun relay_exec :: "relay_event \<Rightarrow> relay \<Rightarrow> relay" where
  "relay_exec (Arrives f) r = snd (relay_onFrame f r)"
| "relay_exec (Held b) r = setExternalKillSwitchHeld b r"
| "relay_exec PowerCycled r = powerCycle r"

text \<open>Settings the manual documents, consistent with their raw bytes.\<close>

definition config_documented :: "relay_config \<Rightarrow> bool" where
  "config_documented c \<longleftrightarrow>
     (\<exists>k. cfg_canKill c = Some k \<and> canKillRaw c = kill_code k) \<and>
     (\<exists>b. cfg_baud c = Some b \<and> baudRaw c = baud_code b) \<and>
     (\<exists>d. cfg_outputDrive c = Some d \<and> outputDriveRaw c = drive_code d) \<and>
     shutdownDelay c mod 100 = 0 \<and> 0 \<le> shutdownDelay c \<and> shutdownDelay c \<le> 25500"

lemma code_bounds: "kill_code k \<le> 3" "baud_code b \<le> 3" "drive_code d \<le> 15"
  subgoal by (cases k) simp_all
  subgoal by (cases b) simp_all
  subgoal by (cases d) simp_all
  done

lemma documented_wf: "config_documented c \<Longrightarrow> config_wf c"
  by (auto simp: config_documented_def config_wf_def code_bounds)

definition relay_inv :: "relay \<Rightarrow> bool" where
  "relay_inv r \<longleftrightarrow> validateBaseAddress (addr_base (mAddresses r)) = Inr () \<and>
     config_documented (rs_config (mState r)) \<and>
     (\<forall>c. mPendingConfig r = Some c \<longrightarrow>
        config_documented c \<and> shutdownDelay c = shutdownDelay (rs_config (mState r))) \<and>
     mKillAddress r \<le> kMaxStandardId \<and> next_kill r \<le> kMaxStandardId \<and>
     statusRaw (mState r) \<in> {status_code Normal, status_code CanTriggerKill} \<and>
     (mIsolated r \<longleftrightarrow> statusRaw (mState r) = status_code CanTriggerKill)"

lemma relay_inv_pending: "relay_inv r \<Longrightarrow> config_documented (pending_or r) \<and>
    shutdownDelay (pending_or r) = shutdownDelay (rs_config (mState r))"
  by (cases "mPendingConfig r") (simp_all add: relay_inv_def pending_or_def)

lemma documented_updates:
  assumes "config_documented c"
  shows "canBaudFromRaw b = Some x \<Longrightarrow> config_documented (c\<lparr>shutdownDelay := uint (y :: byte) * 100,
      baudRaw := b, cfg_baud := Some x\<rparr>)"
    "config_documented (c\<lparr>shutdownDelay := uint y * 100\<rparr>)"
    "outputDriveFromRaw d = Some z \<Longrightarrow> config_documented (c\<lparr>outputDriveRaw := d, cfg_outputDrive := Some z\<rparr>)"
    "config_documented (c\<lparr>canKillRaw := kill_code m, cfg_canKill := Some m\<rparr>)"
  using assms byte_int_range [of y] by (simp_all add: config_documented_def from_raw_iff)

lemma set_base_inv: "relay_inv r \<Longrightarrow> relay_inv (snd (set_base f r))"
  by (auto simp: set_base_def Let_def relay_inv_def split: sum.splits)

lemma set_rate_inv: "relay_inv r \<Longrightarrow> relay_inv (snd (set_rate f r))"
  by (auto simp: set_rate_def split: option.splits)

lemma set_baud_inv: "relay_inv r \<Longrightarrow> relay_inv (snd (set_baud f r))"
  using relay_inv_pending [of r]
  by (auto simp: set_baud_def Let_def relay_inv_def documented_updates pending_or_live
      split: option.splits)

lemma set_drive_inv: "relay_inv r \<Longrightarrow> relay_inv (snd (set_drive f r))"
  using relay_inv_pending [of r]
  by (auto simp: set_drive_def Let_def relay_inv_def documented_updates split: option.splits)

lemma set_kill_inv: "relay_inv r \<Longrightarrow> relay_inv (snd (set_kill f r))"
  using relay_inv_pending [of r]
  by (auto simp: set_kill_def Let_def relay_inv_def documented_updates not_less split: option.splits)

lemma handleCommand_inv: "relay_inv r \<Longrightarrow> relay_inv (snd (handleCommand f r))"
  using set_base_inv [of r f] set_rate_inv [of r f] set_baud_inv [of r f] set_drive_inv [of r f]
    set_kill_inv [of r f]
  by (simp add: handleCommand_def Let_def)

lemma isolate_inv: "relay_inv r \<Longrightarrow> relay_inv (relay_isolate r)"
  by (simp add: relay_inv_def relay_isolate_def Let_def)

lemma cycle_inv: "relay_inv r \<Longrightarrow> relay_inv (powerCycle r)"
  by (auto simp: relay_inv_def powerCycle_def Let_def next_kill_def split: option.splits)

interpretation relay_events: op_system relay_exec relay_inv
proof
  fix r p
  assume "relay_inv r"
  then show "relay_inv (relay_exec p r)"
    using handleCommand_inv [of r] isolate_inv [of r] cycle_inv [of r]
    by (cases p) (simp_all add: relay_onFrame_def setExternalKillSwitchHeld_def relay_inv_def)
qed

lemma config_response_iff:
  "decodeConfigResponse bytes = Some c \<longleftrightarrow> bytes = replicate 8 (response_code c)"
proof
  assume "decodeConfigResponse bytes = Some c"
  then have "length bytes = 8" "\<forall>b\<in>set bytes. b = response_code c"
    by (auto simp: decodeConfigResponse_def Let_def list_all_iff split: if_splits)
  then show "bytes = replicate 8 (response_code c)"
    by (metis replicate_length_same)
qed (cases c; simp add: decodeConfigResponse_def list_all_iff)

lemma putU16_simps [frame_simps]:
  "frame_wf (putU16 f i v) = frame_wf f" "frame_id (putU16 f i v) = frame_id f"
  "frame_len (putU16 f i v) = frame_len f"
  "frame_wf f \<Longrightarrow> i < 63 \<Longrightarrow> byte_at (putU16 f i v) j =
     (if j = i + 1 then lo8 v else if j = i then hi8 v else byte_at f j)"
  by (simp_all add: putU16_def frame_simps)

lemma status_frame_fields:
  "frame_id (status_frame r) = addr_status (mAddresses r)" "frame_len (status_frame r) = 8"
  "frame_wf (status_frame r)" "byte_at (status_frame r) 7 = statusRaw (mState r)"
  by (simp_all add: status_frame_def putI16_def Let_def frame_simps)

lemma info_frame_fields:
  "frame_id (info_frame r) = addr_info (mAddresses r)" "frame_len (info_frame r) = 8"
  "frame_wf (info_frame r)" "wordAt (info_frame r) 4 = encodeConfigWord (rs_config (mState r))"
  by (simp_all add: info_frame_def Let_def frame_simps wordAt_def)

lemma span_nth: "frame_wf f \<Longrightarrow> frame_len f = 8 \<Longrightarrow> i < 8 \<Longrightarrow> data_span f ! i = byte_at f i"
  by (simp add: data_span_def byte_at_def frame_wf_def)

lemma status_never_response:
  assumes "statusRaw (mState r) = status_code s"
  shows "decodeConfigResponse (data_span (status_frame r)) = None"
proof (rule ccontr)
  assume "decodeConfigResponse (data_span (status_frame r)) \<noteq> None"
  then obtain c where "data_span (status_frame r) = replicate 8 (response_code c)"
    using config_response_iff by blast
  then have "status_code s = response_code c"
    using span_nth [of "status_frame r" 7] assms by (simp add: status_frame_fields)
  then show False by (cases s; cases c) simp_all
qed

lemma span_ids:
  assumes "validateBaseAddress b = Inr ()" "i \<in> {b, b + 1, b + 3}"
  shows "i \<noteq> kConfigCommandId \<and> i \<le> 0x7FF"
proof -
  have b: "unat b \<le> 0x7FC" "\<not> (0x786 \<le> unat b \<and> unat b \<le> 0x789)"
    using assms(1) by (simp_all add: validate_ok word_le_nat_alt)
  then have "unat i \<in> {unat b, unat b + 1, unat b + 3}"
    using assms(2) by (auto simp: unat_word_ariths)
  with b show ?thesis
    by (auto simp: kConfigCommandId_def word_le_nat_alt word_unat_eq_iff)
qed

lemma isExtended_put [simp]:
  "isExtended (put_byte i b f) = isExtended f" "isExtended (put_bytes i bs f) = isExtended f"
  "isExtended (putU16 f i v) = isExtended f"
  by (simp_all add: put_byte_def put_bytes_def putU16_def)

lemma periodic_frames_ids:
  "f \<in> set (periodicFrames r) \<Longrightarrow>
   frame_id f \<in> {addr_base (mAddresses r), addr_base (mAddresses r) + 1, addr_base (mAddresses r) + 3} \<and>
   \<not> isExtended f"
  by (auto simp: periodicFrames_def status_frame_def info_frame_def switch_frame_def Let_def
      frame_simps putI16_def addr_status_def addr_info_def addr_switchState_def empty_frame_def
      split: if_splits)

lemma relay_inv_new: "validateBaseAddress (addr_base a) = Inr () \<Longrightarrow> relay_inv (new_relay a)"
  by (auto simp: relay_inv_def new_relay_def initial_relay_state_def factory_config_def next_kill_def
      config_documented_def kDefaultKillAddress_def kMaxStandardId_def)

text \<open>C26. Whatever frames reach a relay, however the kill switch is held and whenever its power is
  cycled: its messages stay on standard identifiers other than the one it is configured on, its
  status message can never be taken for an answer to a command, the settings it reports are the
  ones it runs on, what it would isolate on is a standard identifier, and a power cycle never
  changes the shutdown delay.\<close>

theorem relay_stays_configurable:
  fixes events
  assumes "validateBaseAddress (addr_base a) = Inr ()"
  defines "r \<equiv> fold relay_exec events (new_relay a)"
  shows "kConfigCommandId \<notin> set (map frame_id (periodicFrames r)) \<and>
    (\<forall>f\<in>set (periodicFrames r). id_fits f) \<and>
    decodeConfigResponse (data_span (status_frame r)) = None \<and>
    decodeConfigWord (wordAt (info_frame r) 4) = rs_config (mState r) \<and>
    mKillAddress r \<le> kMaxStandardId \<and>
    shutdownDelay (rs_config (mState (powerCycle r))) = shutdownDelay (rs_config (mState r))"
proof -
  have inv: "relay_inv r"
    unfolding r_def by (intro relay_events.inv_run relay_inv_new assms(1))
  then obtain s where s: "statusRaw (mState r) = status_code s"
    unfolding relay_inv_def by blast
  have ids: "frame_id f \<noteq> kConfigCommandId \<and> id_fits f" if "f \<in> set (periodicFrames r)" for f
    using periodic_frames_ids [OF that] span_ids [of "addr_base (mAddresses r)" "frame_id f"] inv
    by (auto simp: relay_inv_def id_fits_def id_mask_def)
  moreover have "decodeConfigWord (wordAt (info_frame r) 4) = rs_config (mState r)"
    using inv by (simp add: info_frame_fields config_word_read documented_wf relay_inv_def)
  moreover have "shutdownDelay (rs_config (mState (powerCycle r))) = shutdownDelay (rs_config (mState r))"
    using inv by (auto simp: powerCycle_def Let_def relay_inv_def split: option.splits)
  moreover have "kConfigCommandId \<notin> set (map frame_id (periodicFrames r))"
    "\<forall>f\<in>set (periodicFrames r). id_fits f"
    using ids by fastforce+
  ultimately show ?thesis
    using status_never_response [OF s] inv by (simp add: relay_inv_def)
qed

theorem relay_stays_configurable_witness:
  "kConfigCommandId \<notin> set (map frame_id (periodicFrames
     (fold relay_exec [Held True, Arrives (makeFrame 0x789 (wordCommand 0x0789 0x0787))]
       (new_relay \<lparr>addr_base = 0x6E4\<rparr>))))"
  using relay_stays_configurable [of "\<lparr>addr_base = 0x6E4\<rparr>"
      "[Held True, Arrives (makeFrame 0x789 (wordCommand 0x0789 0x0787))]"]
  by (simp add: validateBaseAddress_def kMaxStandardId_def kConfigCommandId_def)

end
