(* ===== verification/MselNode.thy ===== *)
theory MselNode
  imports MselRelay
begin

text \<open>
  libs/msel: the decoder of the relay's messages (decoder.cpp) and the hand-off of its answers
  (response_waiter.cpp); and how the relay node moves the relay to another base address
  (nodes/msel_master_relay/main.cpp).

  The decoder is over \<open>dbc_codec\<close>, the decoders the build generates from the relay's DBC: each
  takes a payload and gives the message's signals, or nothing when the payload is too short.
  A registered callback is a flag; the calls a frame makes are the list \<open>onFrame\<close> returns.
\<close>

section \<open>The decoder\<close>

record dbc_status =
  dbc_voltage_out :: rat
  dbc_load_current :: rat
  dbc_temperature_internal :: rat
  over_temp_warn :: nat
  over_current_warn :: nat
  low_voltage_warn :: nat
  high_voltage_warn :: nat
  over_temp_kill :: nat
  driver_kill :: nat
  external_kill :: nat
  CAN_kill :: nat
  dbc_status_signal :: int

record dbc_info =
  dbc_voltage_in :: rat
  dbc_serial_no :: int
  dbc_time_since_shutdown :: rat
  dbc_shutdown_cause :: int
  dbc_shutdown_cause_2 :: int

record dbc_codec =
  decode_status :: "byte list \<Rightarrow> dbc_status option"
  decode_info :: "byte list \<Rightarrow> dbc_info option"
  decode_switch :: "byte list \<Rightarrow> int option"

record status_msg =
  sm_voltageOut :: rat
  sm_loadCurrent :: rat
  sm_temperatureInternal :: rat
  sm_warnings :: byte
  sm_statusRaw :: byte
  sm_status :: "relay_status option"

record info_msg =
  im_voltageIn :: rat
  im_serialNo :: u16
  im_config :: relay_config
  im_timeSinceShutdown :: int
  im_shutdownCauseRaw :: byte
  im_shutdownCause :: "relay_status option"
  im_shutdownCause2Raw :: byte
  im_shutdownCause2 :: "relay_status option"

record switch_msg =
  wm_switchStateRaw :: byte
  wm_switchState :: "switch_state option"

record snapshot =
  snap_status :: "status_msg option"
  snap_info :: "info_msg option"
  snap_switchState :: "switch_msg option"
  snap_response :: "config_response option"

datatype accepted = NotAccepted | AcceptedStatus | AcceptedInfo | AcceptedSwitchState
  | AcceptedConfigResponse

datatype relay_call = CallStatus status_msg | CallInfo info_msg | CallSwitchState switch_msg
  | CallConfigResponse config_response

record decoder =
  dec_addresses :: addresses
  mResponseWatch :: "u32 option"
  mSnapshot :: snapshot
  mStatusHandler :: bool
  mInfoHandler :: bool
  mSwitchStateHandler :: bool
  mConfigResponseHandler :: bool

definition new_decoder :: "addresses \<Rightarrow> decoder" where
  "new_decoder a =
     \<lparr>dec_addresses = a, mResponseWatch = None,
      mSnapshot = \<lparr>snap_status = None, snap_info = None, snap_switchState = None,
                   snap_response = None\<rparr>,
      mStatusHandler = False, mInfoHandler = False, mSwitchStateHandler = False,
      mConfigResponseHandler = False\<rparr>"

definition onStatus :: "decoder \<Rightarrow> decoder" where
  "onStatus d = d\<lparr>mStatusHandler := True\<rparr>"

definition onInfo :: "decoder \<Rightarrow> decoder" where
  "onInfo d = d\<lparr>mInfoHandler := True\<rparr>"

definition onSwitchState :: "decoder \<Rightarrow> decoder" where
  "onSwitchState d = d\<lparr>mSwitchStateHandler := True\<rparr>"

definition onConfigResponse :: "decoder \<Rightarrow> decoder" where
  "onConfigResponse d = d\<lparr>mConfigResponseHandler := True\<rparr>"

definition setAddresses :: "addresses \<Rightarrow> decoder \<Rightarrow> decoder" where
  "setAddresses a d = d\<lparr>dec_addresses := a\<rparr>"

definition watchConfigResponseAt :: "u32 option \<Rightarrow> decoder \<Rightarrow> decoder" where
  "watchConfigResponseAt i d = d\<lparr>mResponseWatch := i\<rparr>"

definition tenthsToMilliseconds :: "rat \<Rightarrow> int" where
  "tenthsToMilliseconds seconds = llround (to_double (seconds * 10)) * 100"

definition warningsMaskOf :: "dbc_status \<Rightarrow> byte" where
  "warningsMaskOf m =
     fold (\<lambda>(on, w) bits. if on \<noteq> 0 then bits OR warning_bit w else bits)
       [(over_temp_warn m, WOverTemperature), (over_current_warn m, WOverCurrent),
        (low_voltage_warn m, WLowVoltage), (high_voltage_warn m, WHighVoltage),
        (over_temp_kill m, WOverTemperatureKill), (driver_kill m, WDriverSwitchKill),
        (external_kill m, WExternalSwitchKill), (CAN_kill m, WCanTriggerKill)] 0"

text \<open>The answer of the relay, on the watched identifier and on its base one.\<close>

definition accept_response ::
  "config_response \<Rightarrow> decoder \<Rightarrow> accepted \<times> relay_call list \<times> decoder" where
  "accept_response c d =
     (AcceptedConfigResponse, if mConfigResponseHandler d then [CallConfigResponse c] else [],
      d\<lparr>mSnapshot := (mSnapshot d)\<lparr>snap_response := Some c\<rparr>\<rparr>)"

definition accept_status :: "dbc_status \<Rightarrow> decoder \<Rightarrow> accepted \<times> relay_call list \<times> decoder" where
  "accept_status m d =
     (let raw = word_of_int (dbc_status_signal m);
          out = \<lparr>sm_voltageOut = dbc_voltage_out m, sm_loadCurrent = dbc_load_current m,
                 sm_temperatureInternal = dbc_temperature_internal m,
                 sm_warnings = warningsMaskOf m, sm_statusRaw = raw,
                 sm_status = statusFromRaw raw\<rparr> in
      (AcceptedStatus, if mStatusHandler d then [CallStatus out] else [],
       d\<lparr>mSnapshot := (mSnapshot d)\<lparr>snap_status := Some out\<rparr>\<rparr>))"

definition accept_info ::
  "byte list \<Rightarrow> dbc_info \<Rightarrow> decoder \<Rightarrow> accepted \<times> relay_call list \<times> decoder" where
  "accept_info bytes m d =
     (let cause = word_of_int (dbc_shutdown_cause m);
          cause2 = word_of_int (dbc_shutdown_cause_2 m);
          out = \<lparr>im_voltageIn = dbc_voltage_in m, im_serialNo = word_of_int (dbc_serial_no m),
                 im_config = decodeConfigWord (join16 (bytes ! 4) (bytes ! 5)),
                 im_timeSinceShutdown = tenthsToMilliseconds (dbc_time_since_shutdown m),
                 im_shutdownCauseRaw = cause, im_shutdownCause = statusFromRaw cause,
                 im_shutdownCause2Raw = cause2, im_shutdownCause2 = statusFromRaw cause2\<rparr> in
      (AcceptedInfo, if mInfoHandler d then [CallInfo out] else [],
       d\<lparr>mSnapshot := (mSnapshot d)\<lparr>snap_info := Some out\<rparr>\<rparr>))"

definition accept_switch :: "int \<Rightarrow> decoder \<Rightarrow> accepted \<times> relay_call list \<times> decoder" where
  "accept_switch s d =
     (let raw = word_of_int s;
          out = \<lparr>wm_switchStateRaw = raw, wm_switchState = switchStateFromRaw raw\<rparr> in
      (AcceptedSwitchState, if mSwitchStateHandler d then [CallSwitchState out] else [],
       d\<lparr>mSnapshot := (mSnapshot d)\<lparr>snap_switchState := Some out\<rparr>\<rparr>))"

definition dec_onFrame ::
  "dbc_codec \<Rightarrow> can_frame \<Rightarrow> decoder \<Rightarrow> accepted \<times> relay_call list \<times> decoder" where
  "dec_onFrame dbc f d =
     (if isExtended f \<or> isRTR f \<or> isError f then (NotAccepted, [], d)
      else let bytes = data_span f; a = dec_addresses d in
        if mResponseWatch d = Some (frame_id f) \<and> frame_id f \<noteq> addr_status a then
          (case decodeConfigResponse bytes of
             Some c \<Rightarrow> accept_response c d | None \<Rightarrow> (NotAccepted, [], d))
        else if frame_id f = addr_status a then
          (case decodeConfigResponse bytes of
             Some c \<Rightarrow> accept_response c d
           | None \<Rightarrow> (case decode_status dbc bytes of
                None \<Rightarrow> (NotAccepted, [], d) | Some m \<Rightarrow> accept_status m d))
        else if frame_id f = addr_info a then
          (case decode_info dbc bytes of
             None \<Rightarrow> (NotAccepted, [], d) | Some m \<Rightarrow> accept_info bytes m d)
        else if frame_id f = addr_switchState a then
          (case decode_switch dbc bytes of
             None \<Rightarrow> (NotAccepted, [], d) | Some s \<Rightarrow> accept_switch s d)
        else (NotAccepted, [], d))"

section \<open>The hand-off of an answer\<close>

text \<open>A \<open>ResponseWaiter\<close> between two operations; the mutex makes each operation one step.
  \<open>wait\<close> is its return: what it finds then is what it answers, whether a notification or the
  timeout ended the wait.\<close>

record waiter =
  mArmed :: bool
  mResponse :: "config_response option"

definition new_waiter :: waiter where
  "new_waiter = \<lparr>mArmed = False, mResponse = None\<rparr>"

definition w_arm :: "waiter \<Rightarrow> waiter" where
  "w_arm w = w\<lparr>mArmed := True, mResponse := None\<rparr>"

definition w_deliver :: "config_response \<Rightarrow> waiter \<Rightarrow> waiter" where
  "w_deliver c w = (if \<not> mArmed w then w else w\<lparr>mResponse := Some c\<rparr>)"

definition w_wait :: "waiter \<Rightarrow> config_response option \<times> waiter" where
  "w_wait w = (mResponse w, w\<lparr>mArmed := False, mResponse := None\<rparr>)"

definition w_disarm :: "waiter \<Rightarrow> waiter" where
  "w_disarm w = w\<lparr>mArmed := False, mResponse := None\<rparr>"

section \<open>The node\<close>

text \<open>The node feeds every frame of the bus to the decoder; the callback of an answer hands it to
  the waiter.\<close>

record relay_node =
  n_decoder :: decoder
  n_waiter :: waiter

fun hand_off :: "relay_call \<Rightarrow> waiter \<Rightarrow> waiter" where
  "hand_off (CallConfigResponse c) w = w_deliver c w"
| "hand_off _ w = w"

definition node_receive :: "dbc_codec \<Rightarrow> can_frame \<Rightarrow> relay_node \<Rightarrow> relay_node" where
  "node_receive dbc f n =
     (case dec_onFrame dbc f (n_decoder n) of
        (acc, calls, d) \<Rightarrow> \<lparr>n_decoder = d, n_waiter = fold hand_off calls (n_waiter n)\<rparr>)"

text \<open>A change of the base address, in the node's three stages: send and retune, wait (the
  frames that arrive meanwhile), settle.\<close>

definition move_begin :: "u32 \<Rightarrow> relay_node \<Rightarrow> can_frame option \<times> relay_node" where
  "move_begin requested n =
     (let previous = addr_base (dec_addresses (n_decoder n)); n = n\<lparr>n_waiter := w_arm (n_waiter n)\<rparr> in
      case makeSetBaseAddressFrame requested of
        Inl _ \<Rightarrow> (None, n\<lparr>n_waiter := w_disarm (n_waiter n)\<rparr>)
      | Inr f \<Rightarrow> (Some f, n\<lparr>n_decoder := watchConfigResponseAt (Some previous)
                            (setAddresses \<lparr>addr_base = requested\<rparr> (n_decoder n))\<rparr>))"

definition move_end ::
  "u32 \<Rightarrow> can_frame option \<Rightarrow> relay_node \<Rightarrow> config_response option \<times> relay_node" where
  "move_end previous sent n =
     (let (answer, w) = (if sent = None then (None, n_waiter n) else w_wait (n_waiter n));
          d = watchConfigResponseAt None (n_decoder n) in
      (answer,
       \<lparr>n_decoder = (if answer = Some RSuccess \<or> sent = None then d
                     else setAddresses \<lparr>addr_base = previous\<rparr> d),
        n_waiter = w\<rparr>))"

definition move_base :: "dbc_codec \<Rightarrow> u32 \<Rightarrow> (can_frame option \<Rightarrow> can_frame list) \<Rightarrow> relay_node \<Rightarrow>
    config_response option \<times> relay_node" where
  "move_base dbc requested arrivals n =
     (case move_begin requested n of
        (sent, n') \<Rightarrow> move_end (addr_base (dec_addresses (n_decoder n))) sent
                        (if sent = None then n' else fold (node_receive dbc) (arrivals sent) n'))"

section \<open>Answers\<close>

lemma deliver_armed:
  "mArmed w \<Longrightarrow> fold w_deliver cs w =
     w\<lparr>mResponse := (if cs = [] then mResponse w else Some (last cs))\<rparr>"
  by (induction cs arbitrary: w) (simp_all add: w_deliver_def)

lemma deliver_unarmed: "\<not> mArmed w \<Longrightarrow> fold w_deliver cs w = w"
  by (induction cs) (simp_all add: w_deliver_def)

text \<open>A wait answers with the last answer delivered since the waiter was armed for the current
  command, and with nothing when there was none: whatever was delivered before, and whatever
  arrives between two commands, is never taken for the answer to the next one.\<close>

theorem waiter_answers_current_command:
  "w_wait (fold w_deliver cs (w_arm w)) =
     (if cs = [] then None else Some (last cs), \<lparr>mArmed = False, mResponse = None\<rparr>) \<and>
   fold w_deliver late (snd (w_wait w)) = \<lparr>mArmed = False, mResponse = None\<rparr> \<and>
   fold w_deliver late (w_disarm w) = \<lparr>mArmed = False, mResponse = None\<rparr>"
  by (simp add: deliver_armed deliver_unarmed w_arm_def w_wait_def w_disarm_def)

section \<open>Moving the relay\<close>

text \<open>What a frame does to the decoder's address and the waiter: only an answer, on the base
  identifier or the watched one, counts.\<close>

definition answer_on :: "decoder \<Rightarrow> can_frame \<Rightarrow> config_response option" where
  "answer_on d f =
     (if isExtended f \<or> isRTR f \<or> isError f then None
      else if frame_id f = addr_status (dec_addresses d) \<or> mResponseWatch d = Some (frame_id f)
      then decodeConfigResponse (data_span f) else None)"

definition same_tuning :: "decoder \<Rightarrow> decoder \<Rightarrow> bool" where
  "same_tuning d d' \<longleftrightarrow> dec_addresses d' = dec_addresses d \<and> mResponseWatch d' = mResponseWatch d \<and>
     mConfigResponseHandler d' = mConfigResponseHandler d"

lemma accept_tuning [simp]:
  "same_tuning d (snd (snd (accept_response c d)))" "same_tuning d (snd (snd (accept_status m d)))"
  "same_tuning d (snd (snd (accept_info bytes i d)))" "same_tuning d (snd (snd (accept_switch s d)))"
  by (simp_all add: same_tuning_def accept_response_def accept_status_def accept_info_def
      accept_switch_def Let_def)

lemma accept_no_answer [simp]:
  "fold hand_off (fst (snd (accept_status m d))) w = w"
  "fold hand_off (fst (snd (accept_info bytes i d))) w = w"
  "fold hand_off (fst (snd (accept_switch s d))) w = w"
  by (simp_all add: accept_status_def accept_info_def accept_switch_def Let_def)

lemma same_tuning_refl [simp]: "same_tuning d d"
  by (simp add: same_tuning_def)

lemma dec_onFrame_tuning: "same_tuning d (snd (snd (dec_onFrame dbc f d)))"
  by (simp add: dec_onFrame_def Let_def split: option.splits)

lemma dec_onFrame_answer:
  "mConfigResponseHandler d \<Longrightarrow>
   fold hand_off (fst (snd (dec_onFrame dbc f d))) w =
     (case answer_on d f of Some c \<Rightarrow> w_deliver c w | None \<Rightarrow> w)"
  by (simp add: dec_onFrame_def answer_on_def Let_def accept_response_def [of _ d]
      split: option.splits)

lemma answer_on_tuning: "same_tuning d d' \<Longrightarrow> answer_on d' = answer_on d"
  by (rule ext) (simp add: answer_on_def same_tuning_def)

lemma receive_all:
  "mConfigResponseHandler (n_decoder n) \<Longrightarrow>
   same_tuning (n_decoder n) (n_decoder (fold (node_receive dbc) fs n)) \<and>
   n_waiter (fold (node_receive dbc) fs n) =
     fold w_deliver (List.map_filter (answer_on (n_decoder n)) fs) (n_waiter n)"
proof (induction fs arbitrary: n)
  case (Cons f fs)
  let ?n = "node_receive dbc f n"
  have t: "same_tuning (n_decoder n) (n_decoder ?n)"
    using dec_onFrame_tuning [of "n_decoder n" dbc f] by (simp add: node_receive_def split_beta)
  moreover have "n_waiter ?n = (case answer_on (n_decoder n) f of Some c \<Rightarrow> w_deliver c (n_waiter n)
      | None \<Rightarrow> n_waiter n)"
    using dec_onFrame_answer [OF Cons.prems] by (simp add: node_receive_def split_beta)
  moreover have "mConfigResponseHandler (n_decoder ?n)"
    using t Cons.prems by (simp add: same_tuning_def)
  ultimately show ?case
    using Cons.IH [of ?n] answer_on_tuning [OF t]
    by (auto simp: List.map_filter_simps same_tuning_def split: option.splits)
qed (simp add: List.map_filter_simps)

text \<open>The relay's side of the exchange.\<close>

definition relay_reply :: "can_frame option \<Rightarrow> relay \<Rightarrow> can_frame option \<times> relay" where
  "relay_reply sent r = (case sent of None \<Rightarrow> (None, r) | Some f \<Rightarrow> relay_onFrame f r)"

definition no_answers :: "u32 set \<Rightarrow> can_frame list \<Rightarrow> bool" where
  "no_answers ids fs \<longleftrightarrow>
     list_all (\<lambda>f. frame_id f \<notin> ids \<or> decodeConfigResponse (data_span f) = None) fs"

lemma no_answers_filter:
  assumes "no_answers {addr_status (dec_addresses d), p} fs" "mResponseWatch d = Some p"
  shows "List.map_filter (answer_on d) fs = []"
  using assms by (induction fs) (auto simp: no_answers_def List.map_filter_simps answer_on_def)

lemma map_filter_append:
  "List.map_filter g (xs @ ys) = List.map_filter g xs @ List.map_filter g ys"
  by (simp add: List.map_filter_def)

lemma makeResponse_fields:
  "frame_id (makeResponse r c) = addr_status (mAddresses r)" "\<not> isExtended (makeResponse r c)"
  "\<not> isRTR (makeResponse r c)" "\<not> isError (makeResponse r c)"
  by (simp_all add: makeResponse_def put_bytes_def empty_frame_def)

lemma base_request_reply:
  assumes "makeSetBaseAddressFrame b = Inr f"
  shows "if mExternalKillHeld r
    then \<exists>r'. relay_onFrame f r = (Some (makeResponse r' RSuccess), r') \<and> addr_base (mAddresses r') = b
    else relay_onFrame f r = (None, r)"
proof -
  have q: "build (ReqBase b) = Inr f" using assms by simp
  note cmd = relay_onFrame_command [OF built_frame(3) [OF q] built_frame(1) [OF q], of r]
  show ?thesis
    using handle_built [OF q, of r] cmd by (auto simp: handleCommand_def view_of_def)
qed

text \<open>C25. When the node moves the relay to another base address, with any traffic around the answer
  that does not itself look like an answer on the two identifiers involved, the node ends up
  decoding where the relay is: on the new address when the switch was held and the request
  valid, on the old one otherwise; it reports success exactly in the first case, and it is left
  watching nothing and waiting for nothing.\<close>

theorem node_follows_relay:
  fixes requested :: u32
  assumes handler: "mConfigResponseHandler (n_decoder n)"
    and agree: "addr_base (dec_addresses (n_decoder n)) = addr_base (mAddresses r)"
    and quiet: "no_answers {requested, addr_base (mAddresses r)} (before @ after)"
    and reply: "relay_reply (fst (move_begin requested n)) r = (answer_frame, r')"
    and moved: "move_base dbc requested
      (\<lambda>_. before @ (case answer_frame of Some a \<Rightarrow> [a] | None \<Rightarrow> []) @ after) n = (answer, n')"
  shows "addr_base (dec_addresses (n_decoder n')) = addr_base (mAddresses r') \<and>
    mResponseWatch (n_decoder n') = None \<and> \<not> mArmed (n_waiter n') \<and>
    answer = (if validateBaseAddress requested = Inr () \<and> mExternalKillHeld r
              then Some RSuccess else None)"
proof (cases "makeSetBaseAddressFrame requested")
  case (Inl e)
  then have "validateBaseAddress requested \<noteq> Inr ()"
    by (auto simp: makeSetBaseAddressFrame_def)
  with Inl reply moved agree show ?thesis
    by (auto simp: move_base_def move_begin_def move_end_def relay_reply_def Let_def
        watchConfigResponseAt_def w_disarm_def)
next
  case (Inr f)
  then have valid: "validateBaseAddress requested = Inr ()"
    by (auto simp: makeSetBaseAddressFrame_def split: sum.splits)
  define p where "p = addr_base (mAddresses r)"
  define d where "d = watchConfigResponseAt (Some p) (setAddresses \<lparr>addr_base = requested\<rparr> (n_decoder n))"
  define n1 where "n1 = \<lparr>n_decoder = d, n_waiter = w_arm (n_waiter n)\<rparr>"
  have d: "mConfigResponseHandler d" "addr_status (dec_addresses d) = requested"
    "mResponseWatch d = Some p" "addr_base (dec_addresses d) = requested"
    by (simp_all add: d_def watchConfigResponseAt_def setAddresses_def addr_status_def handler)
  have begun: "move_begin requested n = (Some f, n1)"
    by (simp add: move_begin_def Inr Let_def n1_def d_def p_def agree)
  define fs where "fs = before @ (case answer_frame of Some a \<Rightarrow> [a] | None \<Rightarrow> []) @ after"
  have quiet': "List.map_filter (answer_on d) before = []" "List.map_filter (answer_on d) after = []"
    using quiet no_answers_filter [OF _ d(3)] d(2) by (simp_all add: no_answers_def p_def)
  have rep: "relay_onFrame f r = (answer_frame, r')"
    using reply by (simp add: begun relay_reply_def)
  have answers: "List.map_filter (answer_on d) fs = (if mExternalKillHeld r then [RSuccess] else [])"
    "addr_base (mAddresses r') = (if mExternalKillHeld r then requested else p)"
    using base_request_reply [OF Inr, of r] rep quiet'
    by (auto simp: fs_def map_filter_append List.map_filter_simps answer_on_def
        makeResponse_fields d addr_status_def p_def split: if_splits)
  define n2 where "n2 = fold (node_receive dbc) fs n1"
  have n2: "same_tuning d (n_decoder n2)"
    "n_waiter n2 = fold w_deliver (List.map_filter (answer_on d) fs) (w_arm (n_waiter n))"
    using receive_all [of n1 dbc fs] d(1) by (simp_all add: n2_def n1_def)
  have "move_end p (Some f) n2 = (answer, n')"
    using moved by (simp add: move_base_def begun fs_def [symmetric] n2_def agree p_def)
  then show ?thesis
    using n2 answers valid d(2)
    by (auto simp: move_end_def Let_def w_wait_def w_arm_def deliver_armed watchConfigResponseAt_def
        setAddresses_def same_tuning_def addr_status_def split: if_splits)
qed

theorem node_follows_relay_witness:
  "\<exists>n'. move_base \<lparr>decode_status = \<lambda>_. None, decode_info = \<lambda>_. None, decode_switch = \<lambda>_. None\<rparr> 0x500
      (\<lambda>_. [makeResponse (setExternalKillSwitchHeld True (new_relay \<lparr>addr_base = 0x500\<rparr>)) RSuccess])
      \<lparr>n_decoder = onConfigResponse (new_decoder \<lparr>addr_base = 0x6E4\<rparr>), n_waiter = new_waiter\<rparr> =
      (Some RSuccess, n') \<and> addr_base (dec_addresses (n_decoder n')) = 0x500"
proof -
  let ?n = "\<lparr>n_decoder = onConfigResponse (new_decoder \<lparr>addr_base = 0x6E4\<rparr>), n_waiter = new_waiter\<rparr>"
  let ?r = "setExternalKillSwitchHeld True (new_relay \<lparr>addr_base = 0x6E4\<rparr>)"
  let ?r' = "setExternalKillSwitchHeld True (new_relay \<lparr>addr_base = 0x500\<rparr>)"
  have v: "validateBaseAddress 0x500 = Inr ()"
    by (simp add: validateBaseAddress_def kMaxStandardId_def kConfigCommandId_def)
  then have f: "makeSetBaseAddressFrame 0x500 =
      Inr (makeFrame kConfigCommandId (wordCommand kMagicBaseAddress 0x500))"
    by (simp add: makeSetBaseAddressFrame_def)
  have rep: "relay_reply (fst (move_begin 0x500 ?n)) ?r = (Some (makeResponse ?r' RSuccess), ?r')"
    by (simp add: move_begin_def f relay_reply_def relay_onFrame_def command_not_kill magic_hi
        handleCommand_def setExternalKillSwitchHeld_def frame_simps magic_defs set_base_def Let_def v
        new_relay_def kConfigCommandId_def kDefaultKillAddress_def)
  obtain answer n' where m: "move_base
      \<lparr>decode_status = \<lambda>_. None, decode_info = \<lambda>_. None, decode_switch = \<lambda>_. None\<rparr> 0x500
      (\<lambda>_. [] @ (case Some (makeResponse ?r' RSuccess) of Some a \<Rightarrow> [a] | None \<Rightarrow> []) @ []) ?n = (answer, n')"
    by fastforce
  have "addr_base (dec_addresses (n_decoder n')) = 0x500 \<and> answer = Some RSuccess"
    using node_follows_relay [OF _ _ _ rep m] v
    by (simp add: onConfigResponse_def new_decoder_def setExternalKillSwitchHeld_def new_relay_def
        no_answers_def)
  with m show ?thesis by simp
qed

text \<open>While the node waits, it decodes what it hears on the requested address as telemetry.
  When the request is for the address right after the relay's and the relay has not moved (the
  switch is not held, so there is no answer and the wait lasts its whole timeout), the relay's
  own info message is published as a status reading.\<close>

theorem move_misreads_info:
  assumes dbc: "\<And>bytes. length bytes = 8 \<Longrightarrow> \<exists>m. decode_status dbc bytes = Some m"
    and agree: "addr_base (dec_addresses (n_decoder n)) = addr_base (mAddresses r)"
    and handler: "mStatusHandler (n_decoder n)"
    and sent: "move_begin (addr_base (mAddresses r) + 1) n = (Some f, n')"
    and released: "\<not> mExternalKillHeld r"
    and shape: "decodeConfigResponse (data_span (info_frame r)) = None"
  shows "relay_onFrame f r = (None, r) \<and>
    (\<exists>m d. dec_onFrame dbc (info_frame r) (n_decoder n') = (AcceptedStatus, [CallStatus m], d))"
proof -
  from sent have f: "makeSetBaseAddressFrame (addr_base (mAddresses r) + 1) = Inr f"
    and n': "n_decoder n' = watchConfigResponseAt (Some (addr_base (mAddresses r)))
      (setAddresses \<lparr>addr_base = addr_base (mAddresses r) + 1\<rparr> (n_decoder n))"
    using agree by (auto simp: move_begin_def Let_def split: sum.splits)
  have flags: "\<not> isExtended (info_frame r)" "\<not> isRTR (info_frame r)" "\<not> isError (info_frame r)"
    by (simp_all add: info_frame_def Let_def put_byte_def putU16_def empty_frame_def)
  have "length (data_span (info_frame r)) = 8"
    using info_frame_fields [of r] by (simp add: data_span_def frame_wf_def)
  then obtain m where m: "decode_status dbc (data_span (info_frame r)) = Some m"
    using dbc by blast
  then have "\<exists>m d. dec_onFrame dbc (info_frame r) (n_decoder n') = (AcceptedStatus, [CallStatus m], d)"
    using flags shape handler
    by (simp add: dec_onFrame_def Let_def n' info_frame_fields addr_info_def addr_status_def
        watchConfigResponseAt_def setAddresses_def accept_status_def)
  with base_request_reply [OF f, of r] released show ?thesis by simp
qed

theorem move_misreads_info_witness:
  "\<exists>f n' m d. move_begin 0x6E5
      \<lparr>n_decoder = onStatus (new_decoder \<lparr>addr_base = 0x6E4\<rparr>), n_waiter = new_waiter\<rparr> = (Some f, n') \<and>
    dec_onFrame \<lparr>decode_status = \<lambda>_. Some \<lparr>dbc_voltage_out = 12, dbc_load_current = 0,
        dbc_temperature_internal = 25, over_temp_warn = 0, over_current_warn = 0,
        low_voltage_warn = 0, high_voltage_warn = 0, over_temp_kill = 0, driver_kill = 0,
        external_kill = 0, CAN_kill = 0, dbc_status_signal = 0\<rparr>,
      decode_info = \<lambda>_. None, decode_switch = \<lambda>_. None\<rparr>
      (info_frame (new_relay \<lparr>addr_base = 0x6E4\<rparr>)) (n_decoder n') = (AcceptedStatus, [CallStatus m], d)"
proof -
  let ?r = "new_relay \<lparr>addr_base = 0x6E4\<rparr>"
  let ?n = "\<lparr>n_decoder = onStatus (new_decoder \<lparr>addr_base = 0x6E4\<rparr>), n_waiter = new_waiter\<rparr>"
  have "wordAt (info_frame ?r) 4 = 0x000A"
    by (simp add: info_frame_fields new_relay_def initial_relay_state_def factory_config_def
        encodeConfigWord_def Let_def signed_divide_int_def join16_def)
  then have "hi8 (wordAt (info_frame ?r) 4) \<noteq> lo8 (wordAt (info_frame ?r) 4)"
    by (simp add: hi8_def lo8_def)
  then have differ: "data_span (info_frame ?r) ! 4 \<noteq> data_span (info_frame ?r) ! 5"
    by (simp add: span_nth info_frame_fields(2,3)) (simp add: wordAt_def)
  have shape: "decodeConfigResponse (data_span (info_frame ?r)) = None"
  proof (rule ccontr)
    assume "decodeConfigResponse (data_span (info_frame ?r)) \<noteq> None"
    then obtain c where "data_span (info_frame ?r) = replicate 8 (response_code c)"
      using config_response_iff by blast
    with differ show False by simp
  qed
  obtain f n' where sent: "move_begin (addr_base (mAddresses ?r) + 1) ?n = (Some f, n')"
    by (simp add: move_begin_def makeSetBaseAddressFrame_def validateBaseAddress_def
        kMaxStandardId_def kConfigCommandId_def new_relay_def)
  show ?thesis
    using move_misreads_info [OF _ _ _ sent _ shape] sent
    by (simp add: onStatus_def new_decoder_def new_relay_def)
qed

end
