(* ===== verification/Keypad.thy ===== *)
theory Keypad
  imports CanOpenMasters
begin

text \<open>
  nodes/grayhill_keypad: the reconfiguration tool.  A desired state (reconfigure_config.h) becomes
  an ordered plan (reconfigure_plan.cpp) that is executed over the bus (reconfigure_main.cpp).

  The YAML reader is a library: \<open>finish_config\<close> is what the code does with the values read, from
  the motec shorthand on.  Problems are values of \<open>plan_problem\<close> in the place of the messages, and a
  step's description, which only a person reads, is left out.
\<close>

section \<open>The desired state\<close>

record current_address =
  ca_nodeId :: byte
  ca_bitrateKbps :: u32

record target_cobids =
  cob_buttons :: "u32 option"
  cob_indicators :: "u32 option"
  cob_brightness :: "u32 option"

definition cobids_any :: "target_cobids \<Rightarrow> bool" where
  "cobids_any c \<longleftrightarrow> cob_buttons c \<noteq> None \<or> cob_indicators c \<noteq> None \<or> cob_brightness c \<noteq> None"

record target_state =
  tg_nodeId :: "byte option"
  tg_bitrateKbps :: "u32 option"
  tg_cobIds :: target_cobids
  tg_heartbeatMs :: "u16 option"
  tg_eventTimerMs :: "u16 option"
  tg_inhibitTimeUs :: "u16 option"
  tg_transmissionType :: "byte option"
  tg_indicatorScalar :: "u16 option"
  tg_backlightScalar :: "u16 option"
  tg_motecCompatible :: bool

record reconfig_config =
  rc_current :: current_address
  rc_target :: target_state
  rc_store :: bool
  rc_resetAfter :: bool

datatype plan_problem =
    NotDescribed u16 byte
  | NotExpedited u16 byte
  | BelowMinimum u16 byte u64
  | AboveMaximum u16 byte u64
  | NotWritable u16 byte
  | CobIdWidth u16 nat
  | RateNotSelectable u32
  | RateUnsupported u32
  | LssUnsupported
  | NothingAsked
  | MotecTransmission byte
  | MotecBacklight u16
  | CobIdTooWide u32
  | NodeIdRange byte

definition kMarker :: byte where "kMarker = 0xFE"

definition check_cobid :: "u32 option \<Rightarrow> plan_problem list" where
  "check_cobid v = (case v of Some x \<Rightarrow> if x > 0x7FF then [CobIdTooWide x] else [] | None \<Rightarrow> [])"

definition finish_config ::
  "reconfig_config \<Rightarrow> plan_problem list \<Rightarrow> plan_problem list + reconfig_config" where
  "finish_config cfg errors =
     (let t = rc_target cfg;
          (errors, t) =
            (if tg_motecCompatible t then
               (errors @
                (case tg_transmissionType t of Some x \<Rightarrow> if x \<noteq> kMarker then [MotecTransmission x] else []
                 | None \<Rightarrow> []) @
                (case tg_backlightScalar t of Some x \<Rightarrow> if x \<noteq> ucast kMarker then [MotecBacklight x] else []
                 | None \<Rightarrow> []),
                t\<lparr>tg_transmissionType := Some kMarker, tg_backlightScalar := Some (ucast kMarker)\<rparr>)
             else (errors, t));
          errors = errors @ check_cobid (cob_buttons (tg_cobIds t)) @
            check_cobid (cob_indicators (tg_cobIds t)) @ check_cobid (cob_brightness (tg_cobIds t)) @
            (case tg_nodeId t of Some n \<Rightarrow> if n < 1 \<or> n > 127 then [NodeIdRange n] else [] | None \<Rightarrow> [])
      in if errors \<noteq> [] then Inl errors else Inr (cfg\<lparr>rc_target := t\<rparr>))"

section \<open>The plan\<close>

datatype step_kind = KNmtCommand | KSdoWrite | KSdoStore | KNmtResetAndWait | KNmtWaitBootup
  | KVerify | KLssEnter | KLssNodeId | KLssBitrate | KLssStore | KLssExit | KReaddress

record plan_step =
  st_kind :: step_kind
  st_index :: u16
  st_sub :: byte
  st_value :: u64
  st_width :: nat
  st_command :: nmt_command
  st_nodeId :: byte
  st_bitrate :: lss_bitrate
  st_bitrateKbps :: u32
  st_frames :: "can_frame list"

definition new_step :: "step_kind \<Rightarrow> plan_step" where
  "new_step k =
     \<lparr>st_kind = k, st_index = 0, st_sub = 0, st_value = 0, st_width = 0,
      st_command = EnterPreOperational, st_nodeId = 0, st_bitrate = Rate250k, st_bitrateKbps = 0,
      st_frames = []\<rparr>"

record plan =
  pl_steps :: "plan_step list"
  startNodeId :: byte
  startBitrateKbps :: u32
  endNodeId :: byte
  endBitrateKbps :: u32
  touchesLss :: bool

definition empty_plan :: plan where
  "empty_plan = \<lparr>pl_steps = [], startNodeId = 0, startBitrateKbps = 0, endNodeId = 0,
     endBitrateKbps = 0, touchesLss = False\<rparr>"

definition kCobIdInvalid :: u32 where "kCobIdInvalid = 0x80000000"
definition kCobIdRtrDisabled :: u32 where "kCobIdRtrDisabled = 0x40000000"

definition width_of :: "object_dictionary \<Rightarrow> u16 \<Rightarrow> byte \<Rightarrow> plan_problem + nat" where
  "width_of od i s =
     (case od_get_sub od i s of
        None \<Rightarrow> Inl (NotDescribed i s)
      | Some e \<Rightarrow>
          (case data_type_bits (dataType e) of
             None \<Rightarrow> Inl (NotExpedited i s)
           | Some bits \<Rightarrow> if bits > 32 then Inl (NotExpedited i s) else Inr ((bits + 7) div 8)))"

definition check_limits :: "object_dictionary \<Rightarrow> u16 \<Rightarrow> byte \<Rightarrow> u64 \<Rightarrow> plan_problem option" where
  "check_limits od i s v =
     (case od_get_sub od i s of
        None \<Rightarrow> None
      | Some e \<Rightarrow>
          if (case lowLimit e of Some l \<Rightarrow> sint v < l | None \<Rightarrow> False) then Some (BelowMinimum i s v)
          else if (case highLimit e of Some h \<Rightarrow> sint v > h | None \<Rightarrow> False) then Some (AboveMaximum i s v)
          else if \<not> is_writable (access e) then Some (NotWritable i s)
          else None)"

section \<open>The plan builder\<close>

record plan_builder =
  pb_od :: object_dictionary
  pb_nodeId :: byte
  pb_errors :: "plan_problem list"
  pb_plan :: plan

definition pb_error :: "plan_problem \<Rightarrow> plan_builder \<Rightarrow> plan_builder" where
  "pb_error e b = b\<lparr>pb_errors := pb_errors b @ [e]\<rparr>"

definition pb_push :: "plan_step \<Rightarrow> plan_builder \<Rightarrow> plan_builder" where
  "pb_push s b = b\<lparr>pb_plan := (pb_plan b)\<lparr>pl_steps := pl_steps (pb_plan b) @ [s]\<rparr>\<rparr>"

definition pb_nmt :: "nmt_command \<Rightarrow> plan_builder \<Rightarrow> plan_builder" where
  "pb_nmt c b = pb_push ((new_step KNmtCommand)\<lparr>st_command := c,
     st_frames := [make_nmt_frame c (pb_nodeId b)]\<rparr>) b"

definition pb_reset_and_wait :: "plan_builder \<Rightarrow> plan_builder" where
  "pb_reset_and_wait b = pb_push ((new_step KNmtResetAndWait)\<lparr>st_command := ResetNode,
     st_nodeId := pb_nodeId b, st_frames := [make_nmt_frame ResetNode (pb_nodeId b)]\<rparr>) b"

definition sdo_write_step :: "byte \<Rightarrow> u16 \<Rightarrow> byte \<Rightarrow> u64 \<Rightarrow> nat \<Rightarrow> plan_step" where
  "sdo_write_step node i s v w = (new_step KSdoWrite)\<lparr>st_index := i, st_sub := s, st_value := v,
     st_width := w, st_frames := [make_sdo_download_frame node i s (to_bytes v w)]\<rparr>"

definition pb_write :: "u16 \<Rightarrow> byte \<Rightarrow> u64 \<Rightarrow> plan_builder \<Rightarrow> plan_builder" where
  "pb_write i s v b =
     (case width_of (pb_od b) i s of
        Inl e \<Rightarrow> pb_error e b
      | Inr w \<Rightarrow>
          (case check_limits (pb_od b) i s v of
             Some e \<Rightarrow> pb_error e b
           | None \<Rightarrow> pb_push (sdo_write_step (pb_nodeId b) i s v w) b))"

definition pb_write_cobid :: "u16 \<Rightarrow> u32 \<Rightarrow> plan_builder \<Rightarrow> plan_builder" where
  "pb_write_cobid i cobid b =
     (case width_of (pb_od b) i 1 of
        Inl e \<Rightarrow> pb_error e b
      | Inr w \<Rightarrow>
          if w \<noteq> 4 then pb_error (CobIdWidth i w) b
          else pb_push (sdo_write_step (pb_nodeId b) i 1 (ucast (kCobIdRtrDisabled OR cobid)) 4)
                 (pb_push (sdo_write_step (pb_nodeId b) i 1 (ucast kCobIdInvalid) 4) b))"

definition pb_store :: "plan_builder \<Rightarrow> plan_builder" where
  "pb_store b = pb_push ((new_step KSdoStore)\<lparr>st_index := 0x1010, st_sub := 1, st_width := 4,
     st_frames := [make_sdo_download_frame (pb_nodeId b) 0x1010 1 (text_bytes ''save'')]\<rparr>) b"

definition pb_verify :: "u16 \<Rightarrow> byte \<Rightarrow> u64 \<Rightarrow> plan_builder \<Rightarrow> plan_builder" where
  "pb_verify i s expected b =
     (case width_of (pb_od b) i s of
        Inl e \<Rightarrow> pb_error e b
      | Inr w \<Rightarrow> pb_push ((new_step KVerify)\<lparr>st_index := i, st_sub := s, st_value := expected,
          st_width := w, st_frames := [make_sdo_upload_frame (pb_nodeId b) i s]\<rparr>) b)"

definition pb_lss_enter :: "plan_builder \<Rightarrow> plan_builder" where
  "pb_lss_enter b = pb_push ((new_step KLssEnter)\<lparr>st_frames :=
     [make_lss_frame kSwitchStateGlobal kModeConfiguration 0]\<rparr>) b"

definition pb_lss_node_id :: "byte \<Rightarrow> plan_builder \<Rightarrow> plan_builder" where
  "pb_lss_node_id n b = pb_push ((new_step KLssNodeId)\<lparr>st_nodeId := n,
     st_frames := [make_lss_frame kConfigureNodeId n 0]\<rparr>) b"

definition pb_lss_bitrate :: "lss_bitrate \<Rightarrow> plan_builder \<Rightarrow> plan_builder" where
  "pb_lss_bitrate r b = pb_push ((new_step KLssBitrate)\<lparr>st_bitrate := r,
     st_bitrateKbps := lss_bitrate_to_kbps r,
     st_frames := [make_lss_frame kConfigureBitTiming kStandardBitTimingTable (lss_code r)]\<rparr>) b"

definition pb_lss_store :: "plan_builder \<Rightarrow> plan_builder" where
  "pb_lss_store b = pb_push ((new_step KLssStore)\<lparr>st_frames :=
     [make_lss_frame kStoreConfiguration 0 0]\<rparr>) b"

definition pb_lss_exit :: "plan_builder \<Rightarrow> plan_builder" where
  "pb_lss_exit b = pb_push ((new_step KLssExit)\<lparr>st_frames :=
     [make_lss_frame kSwitchStateGlobal kModeWaiting 0]\<rparr>) b"

definition pb_wait_for_bootup :: "plan_builder \<Rightarrow> plan_builder" where
  "pb_wait_for_bootup b = pb_push ((new_step KNmtWaitBootup)\<lparr>st_nodeId := pb_nodeId b\<rparr>) b"

definition pb_readdress :: "byte \<Rightarrow> u32 \<Rightarrow> plan_builder \<Rightarrow> plan_builder" where
  "pb_readdress n kbps b =
     (pb_push ((new_step KReaddress)\<lparr>st_nodeId := n, st_bitrateKbps := kbps\<rparr>) b)\<lparr>pb_nodeId := n\<rparr>"

definition if_asked :: "'a option \<Rightarrow> ('a \<Rightarrow> plan_builder \<Rightarrow> plan_builder) \<Rightarrow> plan_builder \<Rightarrow> plan_builder" where
  "if_asked v f b = (case v of Some x \<Rightarrow> f x b | None \<Rightarrow> b)"

text \<open>The four parts of \<open>build_plan\<close>, in its order.\<close>

definition plan_any_write :: "reconfig_config \<Rightarrow> bool" where
  "plan_any_write cfg \<longleftrightarrow> (let t = rc_target cfg in
     cobids_any (tg_cobIds t) \<or> tg_heartbeatMs t \<noteq> None \<or> tg_eventTimerMs t \<noteq> None \<or>
     tg_inhibitTimeUs t \<noteq> None \<or> tg_transmissionType t \<noteq> None \<or> tg_indicatorScalar t \<noteq> None \<or>
     tg_backlightScalar t \<noteq> None)"

definition plan_writes :: "reconfig_config \<Rightarrow> plan_builder \<Rightarrow> plan_builder" where
  "plan_writes cfg b =
     (let t = rc_target cfg;
          b = (if plan_any_write cfg then pb_nmt EnterPreOperational b else b);
          b = if_asked (cob_buttons (tg_cobIds t)) (pb_write_cobid 0x1800) b;
          b = if_asked (cob_indicators (tg_cobIds t)) (pb_write_cobid 0x1400) b;
          b = if_asked (cob_brightness (tg_cobIds t)) (pb_write_cobid 0x1401) b;
          b = if_asked (tg_heartbeatMs t) (\<lambda>v. pb_write 0x1017 0 (ucast v)) b;
          b = if_asked (tg_transmissionType t) (\<lambda>v. pb_write 0x1800 2 (ucast v)) b;
          b = if_asked (tg_inhibitTimeUs t) (\<lambda>v. pb_write 0x1800 3 (ucast v)) b;
          b = if_asked (tg_eventTimerMs t) (\<lambda>v. pb_write 0x1800 5 (ucast v)) b;
          b = if_asked (tg_indicatorScalar t) (\<lambda>v. pb_write 0x2010 1 (ucast v)) b
      in if_asked (tg_backlightScalar t) (\<lambda>v. pb_write 0x2010 2 (ucast v)) b)"

definition plan_verifies :: "reconfig_config \<Rightarrow> plan_builder \<Rightarrow> plan_builder" where
  "plan_verifies cfg b =
     (let t = rc_target cfg;
          b = if_asked (tg_transmissionType t) (\<lambda>v. pb_verify 0x1800 2 (ucast v)) b;
          b = if_asked (tg_backlightScalar t) (\<lambda>v. pb_verify 0x2010 2 (ucast v)) b;
          b = if_asked (tg_indicatorScalar t) (\<lambda>v. pb_verify 0x2010 1 (ucast v)) b;
          b = if_asked (tg_heartbeatMs t) (\<lambda>v. pb_verify 0x1017 0 (ucast v)) b;
          b = if_asked (tg_eventTimerMs t) (\<lambda>v. pb_verify 0x1800 5 (ucast v)) b;
          b = if_asked (tg_inhibitTimeUs t) (\<lambda>v. pb_verify 0x1800 3 (ucast v)) b;
          b = if_asked (cob_buttons (tg_cobIds t))
                (\<lambda>c. pb_verify 0x1800 1 (ucast (kCobIdRtrDisabled OR c))) b;
          b = if_asked (cob_indicators (tg_cobIds t))
                (\<lambda>c. pb_verify 0x1400 1 (ucast (kCobIdRtrDisabled OR c))) b
      in if_asked (cob_brightness (tg_cobIds t))
                (\<lambda>c. pb_verify 0x1401 1 (ucast (kCobIdRtrDisabled OR c))) b)"

definition changing_node :: "reconfig_config \<Rightarrow> bool" where
  "changing_node cfg \<longleftrightarrow> tg_nodeId (rc_target cfg) \<noteq> None \<and>
     tg_nodeId (rc_target cfg) \<noteq> Some (ca_nodeId (rc_current cfg))"

definition changing_bitrate :: "reconfig_config \<Rightarrow> bool" where
  "changing_bitrate cfg \<longleftrightarrow> tg_bitrateKbps (rc_target cfg) \<noteq> None \<and>
     tg_bitrateKbps (rc_target cfg) \<noteq> Some (ca_bitrateKbps (rc_current cfg))"

definition check_rate :: "u32 \<Rightarrow> plan_builder \<Rightarrow> lss_bitrate option \<times> plan_builder" where
  "check_rate kbps b =
     (case lss_bitrate_from_kbps kbps of
        None \<Rightarrow> (None, pb_error (RateNotSelectable kbps) b)
      | Some r \<Rightarrow> (Some r, if supportedBitrates (pb_od b) kbps = Some False
                           then pb_error (RateUnsupported kbps) b else b))"

definition plan_lss :: "reconfig_config \<Rightarrow> plan_builder \<Rightarrow> plan_builder" where
  "plan_lss cfg b =
     (let t = rc_target cfg;
          b = b\<lparr>pb_plan := (pb_plan b)\<lparr>touchesLss := True\<rparr>\<rparr>;
          (rate, b) = (if changing_bitrate cfg then check_rate (the (tg_bitrateKbps t)) b else (None, b));
          b = (if \<not> lssSupported (pb_od b) then pb_error LssUnsupported b else b);
          b = pb_lss_enter b;
          b = (if changing_node cfg then pb_lss_node_id (the (tg_nodeId t)) b else b);
          b = (case rate of Some r \<Rightarrow> pb_lss_bitrate r b | None \<Rightarrow> b);
          b = pb_lss_store b;
          b = pb_lss_exit b;
          b = pb_nmt ResetNode b;
          b = pb_readdress (endNodeId (pb_plan b)) (endBitrateKbps (pb_plan b)) b;
          b = pb_wait_for_bootup b
      in pb_verify 0x1018 1 0x0307 b)"

definition start_plan :: "reconfig_config \<Rightarrow> object_dictionary \<Rightarrow> plan_problem list \<Rightarrow> plan_builder" where
  "start_plan cfg od errors =
     \<lparr>pb_od = od, pb_nodeId = ca_nodeId (rc_current cfg), pb_errors = errors,
      pb_plan = empty_plan\<lparr>startNodeId := ca_nodeId (rc_current cfg),
        startBitrateKbps := ca_bitrateKbps (rc_current cfg),
        endNodeId := (case tg_nodeId (rc_target cfg) of Some n \<Rightarrow> n | None \<Rightarrow> ca_nodeId (rc_current cfg)),
        endBitrateKbps := (case tg_bitrateKbps (rc_target cfg) of Some k \<Rightarrow> k
                           | None \<Rightarrow> ca_bitrateKbps (rc_current cfg))\<rparr>\<rparr>"

definition build_plan ::
  "reconfig_config \<Rightarrow> object_dictionary \<Rightarrow> plan_problem list \<Rightarrow> plan_problem list + plan" where
  "build_plan cfg od errors =
     (let b = plan_writes cfg (start_plan cfg od errors);
          b = (if rc_store cfg \<and> plan_any_write cfg then pb_store b else b);
          b = (if rc_resetAfter cfg \<and> plan_any_write cfg
               then plan_verifies cfg (pb_reset_and_wait b) else b);
          b = (if changing_node cfg \<or> changing_bitrate cfg then plan_lss cfg b else b);
          b = (if pl_steps (pb_plan b) = [] then pb_error NothingAsked b else b)
      in if pb_errors b \<noteq> [] then Inl (pb_errors b) else Inr (pb_plan b))"

section \<open>Executing a plan\<close>

definition kOk :: nat where "kOk = 0"
definition kUsageError :: nat where "kUsageError = 1"
definition kKeypadNotFound :: nat where "kKeypadNotFound = 2"
definition kDeviceRefused :: nat where "kDeviceRefused = 3"
definition kVerificationMismatch :: nat where "kVerificationMismatch = 4"

text \<open>The result of a call that can fail, as an exit code or nothing: go on.\<close>

definition or_exit :: "nat \<Rightarrow> ('e + unit) \<times> bus_world \<Rightarrow> nat option \<times> bus_world" where
  "or_exit code r = (case r of (Inl _, w) \<Rightarrow> (Some code, w) | (Inr _, w) \<Rightarrow> (None, w))"

definition exec_verify :: "plan_step \<Rightarrow> bus_world \<Rightarrow> nat option \<times> bus_world" where
  "exec_verify s w =
     (case sdo_upload sdo_transfer (sc_nodeId (bw_sdo w)) (st_index s) (st_sub s) w of
        (Inl _, w') \<Rightarrow> (Some kDeviceRefused, w')
      | (Inr x, w') \<Rightarrow>
          if as_uint x \<noteq> st_value s then (Some kVerificationMismatch, w')
          else if sdo_expedited x \<and> length (sdo_bytes x) \<noteq> st_width s
          then (Some kVerificationMismatch, w')
          else (None, w'))"

definition exec_step :: "plan_step \<Rightarrow> bus_world \<Rightarrow> nat option \<times> bus_world" where
  "exec_step s w =
     (case st_kind s of
        KNmtCommand \<Rightarrow> (None, bus_poll 20 (nmt_send (st_command s) (sc_nodeId (bw_sdo w)) w))
      | KSdoWrite \<Rightarrow> or_exit kDeviceRefused
          (sdo_download sdo_transfer (sc_nodeId (bw_sdo w)) (st_index s) (st_sub s)
             (take (st_width s) (drop 4 (frame_data (hd (st_frames s))))) w)
      | KSdoStore \<Rightarrow> or_exit kDeviceRefused
          (sdo_download sdo_transfer (sc_nodeId (bw_sdo w)) (st_index s) (st_sub s)
             (take (st_width s) (drop 4 (frame_data (hd (st_frames s))))) w)
      | KNmtResetAndWait \<Rightarrow>
          (case reset_and_wait (sc_nodeId (bw_sdo w)) 5000 w of
             (ok, w') \<Rightarrow> (if ok then None else Some kDeviceRefused, w'))
      | KNmtWaitBootup \<Rightarrow>
          (case wait_for_bootup (sc_nodeId (bw_sdo w)) 5000 w of
             (ok, w') \<Rightarrow> (if ok then None else Some kDeviceRefused, w'))
      | KVerify \<Rightarrow> exec_verify s w
      | KLssEnter \<Rightarrow> or_exit kUsageError (enter_configuration w)
      | KLssNodeId \<Rightarrow> or_exit kDeviceRefused (configure_node_id (st_nodeId s) w)
      | KLssBitrate \<Rightarrow> or_exit kDeviceRefused (configure_bitrate (st_bitrate s) w)
      | KLssStore \<Rightarrow> or_exit kDeviceRefused (store_configuration w)
      | KLssExit \<Rightarrow> or_exit kDeviceRefused (exit_configuration w)
      | KReaddress \<Rightarrow>
          (None, set_bitrate_kbps (st_bitrateKbps s)
                   (w\<lparr>bw_sdo := (bw_sdo w)\<lparr>sc_nodeId := st_nodeId s\<rparr>\<rparr>)))"

fun exec_steps :: "plan_step list \<Rightarrow> bus_world \<Rightarrow> nat \<times> bus_world" where
  "exec_steps [] w = (kOk, w)"
| "exec_steps (s # ss) w =
     (case exec_step s w of
        (Some code, w') \<Rightarrow> (code, w')
      | (None, w') \<Rightarrow> exec_steps ss w')"

text \<open>The three services as \<open>execute\<close> makes them on the bus.\<close>

definition start_services :: "byte \<Rightarrow> bool \<Rightarrow> bus_world \<Rightarrow> bus_world" where
  "start_services node single w =
     w\<lparr>bw_sdo := \<lparr>sc_nodeId = node, sc_timeout = 1000, sc_pending = None\<rparr>,
       bw_lss := \<lparr>singleNodeBus = single, lm_timeout = 1000, lm_pending = None\<rparr>,
       bw_nmt := \<lparr>nm_states = (\<lambda>_. None), nm_bootCounts = (\<lambda>_. 0), nm_stateCalls = [],
                  nm_emergencyCalls = []\<rparr>\<rparr>"

definition exec_plan :: "plan \<Rightarrow> bool \<Rightarrow> bus_world \<Rightarrow> nat \<times> bus_world" where
  "exec_plan p single w =
     (case upload_uint sdo_transfer (startNodeId p) 0x1018 1 (start_services (startNodeId p) single w)
        :: (sdo_error + 32 word) \<times> bus_world of
        (Inl _, w') \<Rightarrow> (kKeypadNotFound, w')
      | (Inr _, w') \<Rightarrow> exec_steps (pl_steps p) w')"

text \<open>The simulated transport: a bus at the rate the config claims, with one new device where it
  was put.\<close>

definition make_stub_transport :: "object_dictionary \<Rightarrow> reconfig_config \<Rightarrow> byte \<Rightarrow> u32 \<Rightarrow> bus_world \<Rightarrow> bus_world" where
  "make_stub_transport od cfg stubNode stubKbps w =
     w\<lparr>bw_kbps := ca_bitrateKbps (rc_current cfg), bw_queue := [], bw_sent := [],
       bw_devices := [new_stub_device od stubNode
         (case lss_bitrate_from_kbps stubKbps of Some r \<Rightarrow> r | None \<Rightarrow> Rate250k)]\<rparr>"

end
