(* ===== verification/KeypadApply.thy ===== *)
theory KeypadApply
  imports Keypad
begin

text \<open>
  Applying a plan to the simulated keypad: every step of a plan against the device's dictionary,
  and the theorem that a plan built from the device's own EDS takes it to the desired state, with
  exactly the frames the dry run shows.
\<close>

section \<open>The bus between two steps\<close>

text \<open>The bus is quiet, the device answers SDO and LSS, and no node has booted more than \<open>k\<close>
  times.\<close>

definition tool_ready :: "nat \<Rightarrow> bus_world \<Rightarrow> bool" where
  "tool_ready k w \<longleftrightarrow> bus_ready w \<and> lss_ready w \<and> singleNodeBus (bw_lss w) \<and>
     (\<forall>n. unat (nm_bootCounts (bw_nmt w) n) \<le> k)"

lemma sdo_answer_not_heard:
  assumes "frame_id f = kResponseCobIdBase + ucast (n :: byte)"
  shows "lss_hear f m = m" "nmt_hear f q = q"
proof -
  have id: "frame_id f AND 0x7FF = 0x580 + ucast n"
    using cobid_mask [of "0x580" n] assms by simp
  have u: "uint (0x580 + ucast n :: u32) = 0x580 + uint n" using cobid_uint [of "0x580" n] by simp
  have n: "uint n < 256" "0 \<le> uint n" using uint_lt2p [of n] by simp_all
  have b: "uint (0x580 + ucast n :: u32) < 0x700" "0x100 \<le> uint (0x580 + ucast n :: u32)"
    unfolding u using n by linarith+
  then have "\<not> (0x700 \<le> (0x580 + ucast n :: u32))" "\<not> ((0x580 + ucast n :: u32) < 0x100)"
    "(0x580 + ucast n :: u32) \<noteq> 0x7E4"
    by (simp_all add: word_le_def word_less_def, auto)
  then show "lss_hear f m = m" "nmt_hear f q = q"
    by (simp_all add: lss_hear_def nmt_hear_def id)
qed

lemma tool_transfer:
  assumes "tool_ready k w" "frame_id req = kRequestCobIdBase + ucast (nodeId (bus_device w))"
    "frame_len req = 8" "handle_sdo req (bus_device w) = ([j], d')"
  shows "\<exists>w'. sdo_transfer req w = (Some (inj_frame j), w') \<and> bus_device w' = d' \<and> tool_ready k w'"
proof -
  from assms(1) have r: "bus_ready w" by (simp add: tool_ready_def)
  from sdo_transfer_exact [OF r assms(2-4)] obtain w' where w': "sdo_transfer req w = (Some (inj_frame j), w')"
    "bus_device w' = d'" "bus_ready w'" "bw_lss w' = lss_hear (inj_frame j) (bw_lss w)"
    "bw_nmt w' = nmt_hear (inj_frame j) (bw_nmt w)"
    "frame_id (inj_frame j) = kResponseCobIdBase + ucast (nodeId d')" "same_address (bus_device w) d'"
    by blast
  have "bw_lss w' = bw_lss w" "bw_nmt w' = bw_nmt w"
    using w'(4,5) sdo_answer_not_heard [OF w'(6)] by simp_all
  then have "tool_ready k w'"
    using assms(1) w'(2,3,7) by (auto simp: tool_ready_def lss_ready_def bus_ready_def same_address_def)
  with w' show ?thesis by blast
qed

interpretation tool_link: sdo_link sdo_transfer bus_device "tool_ready k" for k
  by unfold_locales (rule tool_transfer)

section \<open>Steps that are carried out\<close>

text \<open>\<open>carries ss w w'\<close>: executing the steps \<open>ss\<close> in \<open>w\<close> goes on in \<open>w'\<close>, and what was sent is what
  the plan shows.  \<open>goes\<close> says the same of every ready bus, by the device.\<close>

definition carries :: "plan_step list \<Rightarrow> bus_world \<Rightarrow> bus_world \<Rightarrow> bool" where
  "carries ss w w' \<longleftrightarrow> (\<forall>rest. exec_steps (ss @ rest) w = exec_steps rest w') \<and>
     bw_sent w' = bw_sent w @ concat (map st_frames ss)"

definition goes :: "nat \<Rightarrow> stub_device \<Rightarrow> plan_step list \<Rightarrow> nat \<Rightarrow> stub_device \<Rightarrow> bool" where
  "goes k d ss k' d' \<longleftrightarrow> (\<forall>w. tool_ready k w \<and> bus_device w = d \<longrightarrow>
     (\<exists>w'. carries ss w w' \<and> tool_ready k' w' \<and> bus_device w' = d'))"

lemma carries_Nil: "carries [] w w"
  by (simp add: carries_def)

lemma carries_append: "carries xs w w1 \<Longrightarrow> carries ys w1 w2 \<Longrightarrow> carries (xs @ ys) w w2"
  by (simp add: carries_def)

lemma carries_step:
  "exec_step s w = (None, w') \<Longrightarrow> bw_sent w' = bw_sent w @ st_frames s \<Longrightarrow> carries [s] w w'"
  by (simp add: carries_def)

lemma goes_Nil: "goes k d [] k d"
  using carries_Nil by (auto simp: goes_def)

lemma goes_append: "goes k d xs k1 d1 \<Longrightarrow> goes k1 d1 ys k2 d2 \<Longrightarrow> goes k d (xs @ ys) k2 d2"
  unfolding goes_def
proof (intro allI impI)
  assume xs: "\<forall>w. tool_ready k w \<and> bus_device w = d \<longrightarrow>
      (\<exists>w'. carries xs w w' \<and> tool_ready k1 w' \<and> bus_device w' = d1)"
    and ys: "\<forall>w. tool_ready k1 w \<and> bus_device w = d1 \<longrightarrow>
      (\<exists>w'. carries ys w w' \<and> tool_ready k2 w' \<and> bus_device w' = d2)"
  fix w assume "tool_ready k w \<and> bus_device w = d"
  with xs obtain w1 where w1: "carries xs w w1" "tool_ready k1 w1" "bus_device w1 = d1" by blast
  with ys obtain w2 where "carries ys w1 w2" "tool_ready k2 w2" "bus_device w2 = d2" by blast
  with carries_append [OF w1(1)] show "\<exists>w'. carries (xs @ ys) w w' \<and> tool_ready k2 w' \<and> bus_device w' = d2"
    by blast
qed

lemma tool_ready_node: "tool_ready k w \<Longrightarrow> sc_nodeId (bw_sdo w) = nodeId (bus_device w)"
  by (simp add: tool_ready_def bus_ready_def)

lemma segments_not_expedited:
  "upload_segments xfer n i s m t bs st = (Inr x, st') \<Longrightarrow> \<not> sdo_expedited x"
  by (induction m arbitrary: t bs st) (auto simp: Let_def split: prod.splits sum.splits if_splits)

lemma upload_sent:
  assumes "sdo_upload sdo_transfer node i s w = (Inr x, w')" "sdo_expedited x"
  shows "bw_sent w' = bw_sent w @ [make_sdo_upload_frame node i s]"
proof -
  obtain r w1 where r: "sdo_transfer (make_sdo_upload_frame node i s) w = (r, w1)" by fastforce
  have "one_transfer (make_sdo_upload_frame node i s) w w1"
    using sdo_transfer_cost [of "make_sdo_upload_frame node i s" w] r by simp
  then have sent: "bw_sent w1 = bw_sent w @ [make_sdo_upload_frame node i s]"
    by (simp add: one_transfer_def)
  show ?thesis
    using assms sent r
    by (auto simp: sdo_upload_def sdo_exchange_def Let_def dest: segments_not_expedited
        split: sum.splits if_splits)
qed

lemma download_sent:
  assumes "bs \<noteq> []" "length bs \<le> 4"
  shows "bw_sent (snd (sdo_download sdo_transfer node i s bs w)) =
    bw_sent w @ [make_sdo_download_frame node i s bs]"
proof -
  obtain r w1 where r: "sdo_transfer (make_sdo_download_frame node i s bs) w = (r, w1)" by fastforce
  have "one_transfer (make_sdo_download_frame node i s bs) w w1"
    using sdo_transfer_cost [of "make_sdo_download_frame node i s bs" w] r by simp
  then show ?thesis
    using assms r by (auto simp: one_transfer_def sdo_download_def sdo_exchange_def split: sum.splits)
qed

lemma download_frame_bytes:
  "length bs \<le> 4 \<Longrightarrow> take (length bs) (drop 4 (frame_data (make_sdo_download_frame n i s bs))) = bs"
  by (simp add: make_sdo_download_frame_def take_drop_put_bytes frame_simps)

lemma goes_download:
  assumes "st_kind st \<in> {KSdoWrite, KSdoStore}" "st_frames st = [make_sdo_download_frame (nodeId d) i s bs]"
    "st_index st = i" "st_sub st = s" "st_width st = length bs" "bs \<noteq> []" "length bs \<le> 4"
    "dict_write d i s bs = Inr d'"
  shows "goes k d [st] k d'"
  unfolding goes_def
proof (intro allI impI, elim conjE)
  fix w assume w: "tool_ready k w" "bus_device w = d"
  from tool_link.download_result [OF w(1) assms(6,7), of i s] assms(8) w(2) obtain w' where
    w': "sdo_download sdo_transfer (nodeId d) i s bs w = (Inr (), w')" "bus_device w' = d'" "tool_ready k w'"
    by auto
  have "exec_step st w = (None, w')"
    using assms w tool_ready_node [OF w(1)] w'(1) download_frame_bytes [OF assms(7), of "nodeId d" i s]
    by (auto simp: exec_step_def or_exit_def)
  moreover have "bw_sent w' = bw_sent w @ st_frames st"
    using download_sent [OF assms(6,7), of "nodeId d" i s w] w'(1) assms(2) by simp
  ultimately show "\<exists>w'. carries [st] w w' \<and> tool_ready k w' \<and> bus_device w' = d'"
    using w' carries_step by blast
qed

lemma goes_write:
  "1 \<le> n \<Longrightarrow> n \<le> 4 \<Longrightarrow> dict_write d i s (to_bytes v n) = Inr d' \<Longrightarrow> nodeId d = node \<Longrightarrow>
   goes k d [sdo_write_step node i s v n] k d'"
  by (rule goes_download [where i = i and s = s and bs = "to_bytes v n"])
     (auto simp: sdo_write_step_def new_step_def simp flip: length_0_conv)

definition verify_step :: "byte \<Rightarrow> u16 \<Rightarrow> byte \<Rightarrow> u64 \<Rightarrow> nat \<Rightarrow> plan_step" where
  "verify_step node i s v n = (new_step KVerify)\<lparr>st_index := i, st_sub := s, st_value := v,
     st_width := n, st_frames := [make_sdo_upload_frame node i s]\<rparr>"

lemma goes_verify:
  assumes "dict_read d i s = Inr bs" "to_uint bs = v" "length bs = n" "1 \<le> n" "n \<le> 4" "nodeId d = node"
  shows "goes k d [verify_step node i s v n] k d"
  unfolding goes_def
proof (intro allI impI, elim conjE)
  fix w assume w: "tool_ready k w" "bus_device w = d"
  have bs: "bs \<noteq> []" "length bs \<le> 4" using assms(3-5) by auto
  from tool_link.upload_expedited [OF w(1) _ bs, of i s] assms(1) w(2) obtain w' where
    w': "sdo_upload sdo_transfer (nodeId d) i s w = (Inr \<lparr>sdo_bytes = bs, sdo_expedited = True\<rparr>, w')"
      "bus_device w' = d" "tool_ready k w'"
    by auto
  have "exec_step (verify_step node i s v n) w = (None, w')"
    using assms w w'(1) tool_ready_node [OF w(1)]
    by (simp add: exec_step_def exec_verify_def verify_step_def new_step_def as_uint_def)
  moreover have "bw_sent w' = bw_sent w @ st_frames (verify_step node i s v n)"
    using upload_sent [OF w'(1)] assms(6) by (simp add: verify_step_def)
  ultimately show "\<exists>w'. carries [verify_step node i s v n] w w' \<and> tool_ready k w' \<and> bus_device w' = d"
    using w' carries_step by blast
qed

lemma stops_verify:
  assumes "dict_read d i s = Inr bs" "to_uint bs \<noteq> v" "length bs = n" "1 \<le> n" "n \<le> 4" "nodeId d = node"
    "tool_ready k w" "bus_device w = d"
  shows "\<exists>w'. exec_steps (verify_step node i s v n # rest) w = (kVerificationMismatch, w') \<and> bus_device w' = d"
proof -
  have bs: "bs \<noteq> []" "length bs \<le> 4" using assms(3-5) by auto
  from tool_link.upload_expedited [OF assms(7) _ bs, of i s] assms(1,8) obtain w' where
    w': "sdo_upload sdo_transfer (nodeId d) i s w = (Inr \<lparr>sdo_bytes = bs, sdo_expedited = True\<rparr>, w')"
      "bus_device w' = d" "tool_ready k w'"
    by auto
  then have "exec_step (verify_step node i s v n) w = (Some kVerificationMismatch, w')"
    using assms(2,8) tool_ready_node [OF assms(7)]
    by (simp add: exec_step_def exec_verify_def verify_step_def new_step_def as_uint_def)
  with w'(2) show ?thesis by simp
qed

section \<open>Unconfirmed frames, LSS and resets\<close>

lemma tool_ready_keep:
  assumes "tool_ready k w" "lss_ready w'" "keeps_masters w w'" "same_address (bus_device w) (bus_device w')"
  shows "tool_ready k w'"
  using assms by (simp add: tool_ready_def lss_ready_def bus_ready_def keeps_masters_def same_address_def)

lemma tool_send:
  assumes "tool_ready k w" "dev_handle (bw_kbps w) f (bus_device w) = ([], d')" "same_address (bus_device w) d'"
  shows "tool_ready k (bus_send f w) \<and> bus_device (bus_send f w) = d'"
proof -
  have l: "lss_ready w" using assms(1) by (simp add: tool_ready_def)
  have "bus_send f w = w\<lparr>bw_sent := bw_sent w @ [f], bw_devices := [d']\<rparr>"
    using lss_devices [OF l] assms(2) by (simp add: bus_send_def)
  with assms(1,3) show ?thesis
    by (simp add: tool_ready_def lss_ready_def bus_ready_def bus_device_def same_address_def)
qed

lemma poll_quiet: "bw_queue w = [] \<Longrightarrow> bus_poll b w = w\<lparr>bw_now := bw_now w + b\<rparr>"
  by (simp add: bus_poll_def Let_def)

lemma tool_poll: "tool_ready k w \<Longrightarrow> tool_ready k (bus_poll b w) \<and> bus_device (bus_poll b w) = bus_device w \<and>
    bw_sent (bus_poll b w) = bw_sent w"
  using poll_quiet [of w b] by (simp add: tool_ready_def lss_ready_def bus_ready_def bus_device_def)

definition nmt_step :: "nmt_command \<Rightarrow> byte \<Rightarrow> plan_step" where
  "nmt_step c node = (new_step KNmtCommand)\<lparr>st_command := c, st_frames := [make_nmt_frame c node]\<rparr>"

lemma goes_preoperational:
  assumes "nodeId d = node"
  shows "goes k d [nmt_step EnterPreOperational node] k (d\<lparr>nmtState := NmtPreOperational\<rparr>)"
  unfolding goes_def
proof (intro allI impI, elim conjE)
  fix w assume w: "tool_ready k w" "bus_device w = d"
  let ?f = "make_nmt_frame EnterPreOperational node"
  have "dev_handle (bw_kbps w) ?f (bus_device w) = ([], d\<lparr>nmtState := NmtPreOperational\<rparr>)"
    using w assms by (simp add: tool_ready_def lss_ready_def dev_handle_nmt handle_nmt_def frame_simps
        nmt_command_of_def)
  from tool_send [OF w(1) this] w(2) have s: "tool_ready k (bus_send ?f w)"
    "bus_device (bus_send ?f w) = d\<lparr>nmtState := NmtPreOperational\<rparr>"
    by (simp_all add: same_address_def)
  have "exec_step (nmt_step EnterPreOperational node) w = (None, bus_poll 20 (bus_send ?f w))"
    using w assms tool_ready_node [OF w(1)]
    by (simp add: exec_step_def nmt_step_def new_step_def nmt_send_def)
  then have "carries [nmt_step EnterPreOperational node] w (bus_poll 20 (bus_send ?f w))"
    using tool_poll [OF s(1), of 20] by (intro carries_step) (simp_all add: nmt_step_def)
  with tool_poll [OF s(1), of 20] s(2) show "\<exists>w'. carries [nmt_step EnterPreOperational node] w w' \<and>
      tool_ready k w' \<and> bus_device w' = d\<lparr>nmtState := NmtPreOperational\<rparr>" by auto
qed

definition reset_step :: "byte \<Rightarrow> plan_step" where
  "reset_step node = (new_step KNmtResetAndWait)\<lparr>st_command := ResetNode, st_nodeId := node,
     st_frames := [make_nmt_frame ResetNode node]\<rparr>"

lemma wait_until_sent: "bw_sent (snd (wait_until timeout p w)) = bw_sent w"
  using wait_until_client [of w timeout p] by (simp add: keeps_client_def)

lemma boots_below:
  assumes "\<forall>n. unat (nm_bootCounts m n) \<le> k" "Suc k < 2 ^ 32"
  shows "nm_bootCounts m n \<noteq> - 1" "\<forall>n. unat (nm_bootCounts (nmt_hear_heartbeat i 0 m) n) \<le> Suc k"
proof -
  have le: "unat (nm_bootCounts m n) \<le> k" for n using assms(1) by blast
  show "nm_bootCounts m n \<noteq> - 1"
    using le [of n] assms(2) by (auto simp: unsigned_minus_1_eq_mask mask_eq_exp_minus_1)
  have "unat (nm_bootCounts m i + 1) \<le> Suc k"
    using le [of i] assms(2) by (simp add: unat_word_ariths)
  then show "\<forall>n. unat (nm_bootCounts (nmt_hear_heartbeat i 0 m) n) \<le> Suc k"
    using le by (simp add: heartbeat_count le_SucI)
qed

lemma goes_reset:
  assumes "nodeId d = node" "1 \<le> node" "node \<le> 127" "nodeId (reset_device d) = node"
    "dev_bitrate (reset_device d) = dev_bitrate d" "Suc k < 2 ^ 32"
  shows "goes k d [reset_step node] (Suc k) (reset_device d)"
  unfolding goes_def
proof (intro allI impI, elim conjE)
  fix w assume w: "tool_ready k w" "bus_device w = d"
  have l: "lss_ready w" and c: "\<forall>n. unat (nm_bootCounts (bw_nmt w) n) \<le> k"
    using w(1) by (simp_all add: tool_ready_def)
  have "\<exists>w'. reset_and_wait node 5000 w = (True, w') \<and> bus_device w' = reset_device (bus_device w) \<and>
    bw_nmt w' = nmt_hear_heartbeat node 0 (bw_nmt w) \<and> lss_ready w' \<and> bw_sdo w' = bw_sdo w \<and>
    bw_lss w' = bw_lss w"
    by (rule reset_and_wait_result) (use l w(2) assms boots_below(1) [OF c assms(6)] in simp_all)
  then obtain w' where w': "reset_and_wait node 5000 w = (True, w')" "bus_device w' = reset_device d"
    "bw_nmt w' = nmt_hear_heartbeat node 0 (bw_nmt w)" "lss_ready w'" "bw_sdo w' = bw_sdo w"
    "bw_lss w' = bw_lss w"
    using w(2) by auto
  have "tool_ready (Suc k) w'"
    using w(1) w' boots_below(2) [OF c assms(6)] assms(1,4) w(2)
    by (simp add: tool_ready_def bus_ready_def lss_ready_def reset_device_fields)
  moreover have "exec_step (reset_step node) w = (None, w')"
    using w'(1) tool_ready_node [OF w(1)] w(2) assms(1) by (simp add: exec_step_def reset_step_def new_step_def)
  moreover have "bw_sent w' = bw_sent w @ st_frames (reset_step node)"
    using wait_until_sent [of 5000 "\<lambda>v. nm_bootCounts (bw_nmt w) node < nm_bootCounts (bw_nmt v) node"
        "nmt_send ResetNode node w"] w'(1)
    by (simp add: reset_and_wait_def nmt_send_def reset_step_def)
  ultimately show "\<exists>w'. carries [reset_step node] w w' \<and> tool_ready (Suc k) w' \<and> bus_device w' = reset_device d"
    using w'(2) carries_step by blast
qed

lemma lss_confirmed_sent:
  "bw_sent (snd (lss_send_confirmed cs a b w)) = bw_sent w @ [make_lss_frame cs a b]"
proof -
  obtain r w2 where w2: "wait_until (lm_timeout (bw_lss w)) (\<lambda>w. lm_pending (bw_lss w) \<noteq> None)
      (bus_send (make_lss_frame cs a b) (w\<lparr>bw_lss := (bw_lss w)\<lparr>lm_pending := None\<rparr>\<rparr>)) = (r, w2)"
    by fastforce
  then show ?thesis
    using wait_until_sent [of "lm_timeout (bw_lss w)" "\<lambda>w. lm_pending (bw_lss w) \<noteq> None"
        "bus_send (make_lss_frame cs a b) (w\<lparr>bw_lss := (bw_lss w)\<lparr>lm_pending := None\<rparr>\<rparr>)"]
    by (simp add: lss_send_confirmed_def Let_def)
qed

text \<open>The five steps of the LSS part; those that are confirmed come down to one fact.\<close>

definition lss_enter_step :: plan_step where
  "lss_enter_step = (new_step KLssEnter)\<lparr>st_frames := [make_lss_frame kSwitchStateGlobal kModeConfiguration 0]\<rparr>"

definition lss_exit_step :: plan_step where
  "lss_exit_step = (new_step KLssExit)\<lparr>st_frames := [make_lss_frame kSwitchStateGlobal kModeWaiting 0]\<rparr>"

definition lss_node_step :: "byte \<Rightarrow> plan_step" where
  "lss_node_step n = (new_step KLssNodeId)\<lparr>st_nodeId := n, st_frames := [make_lss_frame kConfigureNodeId n 0]\<rparr>"

definition lss_rate_step :: "lss_bitrate \<Rightarrow> plan_step" where
  "lss_rate_step r = (new_step KLssBitrate)\<lparr>st_bitrate := r, st_bitrateKbps := lss_bitrate_to_kbps r,
     st_frames := [make_lss_frame kConfigureBitTiming kStandardBitTimingTable (lss_code r)]\<rparr>"

definition lss_store_step :: plan_step where
  "lss_store_step = (new_step KLssStore)\<lparr>st_frames := [make_lss_frame kStoreConfiguration 0 0]\<rparr>"

lemma goes_lss_switch:
  assumes "st = lss_enter_step \<and> m = kModeConfiguration \<or> st = lss_exit_step \<and> m = kModeWaiting"
  shows "goes k d [st] k (d\<lparr>lssConfiguration := (m = kModeConfiguration)\<rparr>)"
  unfolding goes_def
proof (intro allI impI, elim conjE)
  fix w assume w: "tool_ready k w" "bus_device w = d"
  let ?f = "make_lss_frame kSwitchStateGlobal m 0" and ?d = "d\<lparr>lssConfiguration := (m = kModeConfiguration)\<rparr>"
  have "dev_handle (bw_kbps w) ?f (bus_device w) = ([], ?d)"
    using w by (simp add: tool_ready_def lss_ready_def dev_handle_lss handle_lss_switch)
  from tool_send [OF w(1) this] w(2) have s: "tool_ready k (bus_send ?f w)" "bus_device (bus_send ?f w) = ?d"
    by (simp_all add: same_address_def)
  have "exec_step st w = (None, bus_send ?f w)"
    using w(1) assms
    by (auto simp: exec_step_def lss_enter_step_def lss_exit_step_def new_step_def or_exit_def
        enter_configuration_def exit_configuration_def lss_send_unconfirmed_def tool_ready_def)
  then have "carries [st] w (bus_send ?f w)"
    using assms by (intro carries_step) (auto simp: lss_enter_step_def lss_exit_step_def)
  with s show "\<exists>w'. carries [st] w w' \<and> tool_ready k w' \<and> bus_device w' = ?d" by blast
qed

lemma goes_lss_confirmed:
  assumes h: "handle_lss (make_lss_frame cs a b) d = ([lss_confirm cs 0 0 d], d')"
    and same: "same_address d d'"
    and exec: "\<And>w. exec_step st w = or_exit kDeviceRefused (lss_confirmed_unit (lss_send_confirmed cs a b w))"
    and frames: "st_frames st = [make_lss_frame cs a b]"
  shows "goes k d [st] k d'"
  unfolding goes_def
proof (intro allI impI, elim conjE)
  fix w assume w: "tool_ready k w" "bus_device w = d"
  have l: "lss_ready w" using w(1) by (simp add: tool_ready_def)
  have "\<exists>w'. lss_send_confirmed cs a b w = (lss_check cs (Some (inj_frame (lss_confirm cs 0 0 d))), w') \<and>
      bus_device w' = d' \<and> lss_ready w' \<and> keeps_masters w w'"
    by (rule lss_confirmed_result) (use l w(2) h same in \<open>simp_all add: same_address_def\<close>)
  then obtain w' where w': "lss_send_confirmed cs a b w = (Inr (inj_frame (lss_confirm cs 0 0 d)), w')"
    "bus_device w' = d'" "lss_ready w'" "keeps_masters w w'"
    by (auto simp: lss_check_confirm)
  have "tool_ready k w'"
    by (rule tool_ready_keep [OF w(1) w'(3,4)]) (simp add: w(2) w'(2) same)
  moreover have "exec_step st w = (None, w')"
    by (simp add: exec w'(1) lss_confirmed_unit_def or_exit_def)
  moreover have "bw_sent w' = bw_sent w @ st_frames st"
    using lss_confirmed_sent [of cs a b w] w'(1) frames by simp
  ultimately show "\<exists>w'. carries [st] w w' \<and> tool_ready k w' \<and> bus_device w' = d'"
    using w'(2) carries_step by blast
qed

lemma goes_lss_node:
  assumes "lssConfiguration d" "1 \<le> n" "n \<le> 127"
  shows "goes k d [lss_node_step n] k (d\<lparr>pendingNodeId := Some n\<rparr>)"
proof (rule goes_lss_confirmed [OF handle_lss_node [OF assms]])
  show "exec_step (lss_node_step n) w = or_exit kDeviceRefused
      (lss_confirmed_unit (lss_send_confirmed kConfigureNodeId n 0 w))" for w
    using node_ok_alt [of n] assms(2,3)
    by (simp add: exec_step_def lss_node_step_def new_step_def configure_node_id_def node_ok_def
        leD [OF assms(3)])
qed (simp_all add: same_address_def lss_node_step_def)

lemma goes_lss_rate:
  assumes "lssConfiguration d" "\<not> lss_rate_refused d r"
  shows "goes k d [lss_rate_step r] k (d\<lparr>pendingBitrate := Some r\<rparr>)"
  by (rule goes_lss_confirmed [OF handle_lss_rate [OF assms]])
     (simp_all add: same_address_def lss_rate_step_def exec_step_def new_step_def configure_bitrate_def)

definition lss_stored :: "stub_device \<Rightarrow> stub_device" where
  "lss_stored d = d\<lparr>storedNodeId := (case pendingNodeId d of Some n \<Rightarrow> Some n | None \<Rightarrow> storedNodeId d),
     storedBitrate := (case pendingBitrate d of Some r \<Rightarrow> Some r | None \<Rightarrow> storedBitrate d)\<rparr>"

lemma goes_lss_store:
  assumes "lssConfiguration d"
  shows "goes k d [lss_store_step] k (lss_stored d)"
proof (rule goes_lss_confirmed)
  show "handle_lss (make_lss_frame kStoreConfiguration 0 0) d = ([lss_confirm kStoreConfiguration 0 0 d], lss_stored d)"
    using assms by (simp add: handle_lss_def frame_simps Let_def lss_stored_def)
qed (simp_all add: same_address_def lss_stored_def lss_store_step_def exec_step_def new_step_def
    store_configuration_def)

text \<open>The reset that adopts the LSS configuration: between the reset and the boot-up the tool moves
  to the new address and rate.  The boot-up comes 50 ms after the reset, so the 20 ms the tool
  gives an NMT command do not lose it.\<close>

definition readdress_step :: "byte \<Rightarrow> u32 \<Rightarrow> plan_step" where
  "readdress_step n kbps = (new_step KReaddress)\<lparr>st_nodeId := n, st_bitrateKbps := kbps\<rparr>"

definition bootup_step :: "byte \<Rightarrow> plan_step" where
  "bootup_step n = (new_step KNmtWaitBootup)\<lparr>st_nodeId := n\<rparr>"

lemma poll_later: "bw_queue w = [s] \<Longrightarrow> bw_now w + b < sch_at s \<Longrightarrow> bus_poll b w = w\<lparr>bw_now := bw_now w + b\<rparr>"
  by (simp add: bus_poll_def Let_def)

lemma goes_move:
  assumes node: "nodeId d = node"
    and n: "nodeId (reset_device d) = n" "1 \<le> n" "n \<le> 127"
    and kbps: "lss_bitrate_to_kbps (dev_bitrate (reset_device d)) = kbps"
    and k: "Suc k < 2 ^ 32"
  shows "goes k d [nmt_step ResetNode node, readdress_step n kbps, bootup_step n] (Suc k) (reset_device d)"
  unfolding goes_def
proof (intro allI impI, elim conjE)
  fix w assume w: "tool_ready k w" "bus_device w = d"
  have l: "lss_ready w" and c: "\<forall>n. unat (nm_bootCounts (bw_nmt w) n) \<le> k"
    using w(1) by (simp_all add: tool_ready_def)
  define f where "f = put_byte 0 0 (empty_frame\<lparr>frame_id := kHeartbeatCobIdBase + ucast n, frame_len := 1\<rparr>)"
  define s where "s = \<lparr>sch_at = bw_now w + 50, sch_frame = f, sch_kbps = kbps\<rparr>"
  define w1 where "w1 = nmt_send ResetNode node w"
  have w1: "bus_device w1 = reset_device d" "bw_queue w1 = [s]" "length (bw_devices w1) = 1"
    "keeps_masters w w1"
    using nmt_reset_result [OF l] w(2) node n(1) kbps by (simp_all add: w1_def s_def f_def)
  have w1': "bw_now w1 = bw_now w" "bw_sent w1 = bw_sent w @ [make_nmt_frame ResetNode node]"
    by (simp_all add: w1_def nmt_send_def)
  define w2 where "w2 = w1\<lparr>bw_now := bw_now w + 20\<rparr>"
  define w3 where "w3 = set_bitrate_kbps kbps (w2\<lparr>bw_sdo := (bw_sdo w2)\<lparr>sc_nodeId := n\<rparr>\<rparr>)"
  have sdo: "sc_nodeId (bw_sdo w) = node" using tool_ready_node [OF w(1)] w(2) node by simp
  have e1: "exec_step (nmt_step ResetNode node) w = (None, w2)"
    using poll_later [OF w1(2), of 20] w1'(1) sdo
    by (simp add: exec_step_def nmt_step_def new_step_def w1_def [symmetric] w2_def s_def)
  have e2: "exec_step (readdress_step n kbps) w2 = (None, w3)"
    by (simp add: exec_step_def readdress_step_def new_step_def w3_def)
  have w3: "bw_queue w3 = [s]" "bw_kbps w3 = kbps" "bw_now w3 = bw_now w + 20" "bw_nmt w3 = bw_nmt w"
    "bus_device w3 = reset_device d" "length (bw_devices w3) = 1" "sc_nodeId (bw_sdo w3) = n"
    "sc_timeout (bw_sdo w3) = sc_timeout (bw_sdo w)" "lm_timeout (bw_lss w3) = lm_timeout (bw_lss w)"
    "singleNodeBus (bw_lss w3) = singleNodeBus (bw_lss w)" "bw_sent w3 = bw_sent w1"
    using w1 by (simp_all add: w3_def w2_def set_bitrate_kbps_def keeps_masters_def bus_device_def)
  let ?before = "nm_bootCounts (bw_nmt w) n"
  let ?p = "\<lambda>v. ?before < nm_bootCounts (bw_nmt v) n"
  have hear: "nmt_hear f (bw_nmt w) = nmt_hear_heartbeat n 0 (bw_nmt w)"
    using nmt_hear_bootup [OF n(2,3) f_def, of "bw_nmt w"] by blast
  have lt: "?before < ?before + 1"
    using boots_below(1) [OF c k, of n] unatSuc [of ?before]
    by (simp add: word_less_nat_alt add_eq_0_iff add.commute)
  have "\<exists>t. bw_now w3 \<le> t \<and> t \<le> bw_now w3 + 5000 \<and>
    wait_loop ?p (bw_now w3 + 5000) w3 = (True, bus_deliver (sch_frame s) (w3\<lparr>bw_now := t, bw_queue := []\<rparr>))"
    by (rule wait_loop_single) (use w3 hear lt in \<open>simp_all add: s_def bus_deliver_def heartbeat_count\<close>)
  then obtain t where t: "wait_loop ?p (bw_now w3 + 5000) w3 = (True, bus_deliver f (w3\<lparr>bw_now := t, bw_queue := []\<rparr>))"
    by (auto simp: s_def)
  define w4 where "w4 = bus_deliver f (w3\<lparr>bw_now := t, bw_queue := []\<rparr>)"
  have e3: "exec_step (bootup_step n) w3 = (None, w4)"
    using t w3(4,7) by (simp add: exec_step_def bootup_step_def new_step_def wait_for_bootup_def
        wait_until_def w4_def)
  have f: "sdo_hear f cl = cl" "lss_hear f m = m" for cl m
    using bootup_not_answer [OF n(2,3), of f] by (simp_all add: f_def frame_simps)
  have w4: "bus_device w4 = reset_device d" "tool_ready (Suc k) w4" "bw_sent w4 = bw_sent w1"
    using w3 hear f boots_below(2) [OF c k, of n] w(1,2) n(1) kbps
    by (simp_all add: w4_def bus_deliver_def bus_device_def tool_ready_def bus_ready_def lss_ready_def
        reset_device_fields)
  have "carries ([nmt_step ResetNode node] @ [readdress_step n kbps] @ [bootup_step n]) w w4"
    by (intro carries_append [of _ w w2] carries_append [of _ w2 w3] carries_step e1 e2 e3)
       (use w4(3) w3(11) w1'(2) in \<open>simp_all add: nmt_step_def readdress_step_def bootup_step_def
          new_step_def w2_def\<close>)
  with w4 show "\<exists>w'. carries [nmt_step ResetNode node, readdress_step n kbps, bootup_step n] w w' \<and>
      tool_ready (Suc k) w' \<and> bus_device w' = reset_device d"
    by auto
qed

section \<open>A device made of the file\<close>

definition eds_device :: "object_dictionary \<Rightarrow> byte \<Rightarrow> stub_device \<Rightarrow> bool" where
  "eds_device od node d \<longleftrightarrow> dev_od d = od \<and> nodeId d = node \<and>
     values_ok od (dev_values d) (nonVolatile d) \<and>
     (\<forall>key e. dev_values d key = Some e \<longrightarrow> \<not> forcedReadOnly e)"

definition same_setup :: "stub_device \<Rightarrow> stub_device \<Rightarrow> bool" where
  "same_setup d d' \<longleftrightarrow> nonVolatile d' = nonVolatile d \<and> dev_bitrate d' = dev_bitrate d \<and>
     storedNodeId d' = storedNodeId d \<and> storedBitrate d' = storedBitrate d \<and>
     pendingNodeId d' = pendingNodeId d \<and> pendingBitrate d' = pendingBitrate d"

lemma eds_entry:
  assumes "eds_device od node d" "od_get_sub od i s = Some sub"
  shows "\<exists>e. dev_values d (i, s) = Some e \<and> entry_matches sub e \<and> \<not> forcedReadOnly e"
proof -
  have "slot_ok (od_get_sub od i s) (dev_values d (i, s)) (nonVolatile d (i, s))"
    using assms(1) by (simp add: eds_device_def values_ok_def)
  with assms show ?thesis by (auto simp: eds_device_def)
qed

lemma od_get_of_sub: "od_get_sub od i s = Some sub \<Longrightarrow> od_get od i \<noteq> None"
  by (auto simp: od_get_sub_def split: option.splits)

lemma width_of_sub:
  assumes "width_of od i s = Inr n"
  obtains sub bits where "od_get_sub od i s = Some sub" "data_type_bits (dataType sub) = Some bits"
    "n = (bits + 7) div 8" "1 \<le> n" "n \<le> 4"
proof -
  from assms obtain sub bits where *: "od_get_sub od i s = Some sub" "data_type_bits (dataType sub) = Some bits"
    "bits \<le> 32" "n = (bits + 7) div 8"
    by (auto simp: width_of_def split: option.splits if_splits)
  moreover have "1 \<le> bits" using *(2) by (cases "dataType sub") auto
  ultimately show thesis by (intro that [of sub bits]) auto
qed

text \<open>The value fits the width: nothing is lost when it is written.\<close>

definition fits :: "nat \<Rightarrow> u64 \<Rightarrow> bool" where
  "fits n v \<longleftrightarrow> take_bit (8 * n) v = v"

lemma eds_write_accepted:
  assumes "eds_device od node d" "width_of od i s = Inr n" "check_limits od i s v = None" "fits n v"
  shows "\<exists>e. dev_values d (i, s) = Some e \<and> write_refusal e (to_bytes v n) = None"
proof -
  from width_of_sub [OF assms(2)] obtain sub bits where
    sub: "od_get_sub od i s = Some sub" "data_type_bits (dataType sub) = Some bits" "n = (bits + 7) div 8" "n \<le> 4"
    by metis
  from eds_entry [OF assms(1) sub(1)] obtain e where e: "dev_values d (i, s) = Some e" "entry_matches sub e"
    "\<not> forcedReadOnly e" by blast
  have v: "to_uint (to_bytes v n) = v"
    using assms(4) sub(4) by (simp add: to_uint_to_bytes fits_def)
  have "write_refusal e (to_bytes v n) = None"
    using assms(3) sub e
    by (auto simp: object_refusal_def check_limits_def Let_def v v [unfolded sub(3)] entry_matches_def
        width_for_def split: option.splits if_splits)
  with e(1) show ?thesis by blast
qed

definition written :: "stub_device \<Rightarrow> od_key \<Rightarrow> byte list \<Rightarrow> stub_device" where
  "written d key bs = (case dev_values d key of
     Some e \<Rightarrow> d\<lparr>dev_values := (dev_values d)(key \<mapsto> e\<lparr>entry_bytes := bs\<rparr>)\<rparr> | None \<Rightarrow> d)"

lemma eds_write:
  assumes "eds_device od node d" "width_of od i s = Inr n" "check_limits od i s v = None" "fits n v"
    "i \<notin> {0x1010, 0x1011}"
  shows "dict_write d i s (to_bytes v n) = Inr (written d (i, s) (to_bytes v n))"
proof -
  from eds_write_accepted [OF assms(1-4)] obtain e where
    e: "dev_values d (i, s) = Some e" "write_refusal e (to_bytes v n) = None" by blast
  from width_of_sub [OF assms(2)] obtain sub where "od_get_sub od i s = Some sub" by metis
  then have "od_get (dev_od d) i \<noteq> None" using od_get_of_sub assms(1) by (auto simp: eds_device_def)
  with e assms(5) show ?thesis by (simp add: object_write_def written_def)
qed

lemma written_device:
  assumes "eds_device od node d" "width_of od i s = Inr n" "length bs = n"
  shows "eds_device od node (written d (i, s) bs)" "same_setup d (written d (i, s) bs)"
    "dev_value (written d (i, s) bs) = (dev_value d)((i, s) \<mapsto> to_uint bs)"
proof -
  from width_of_sub [OF assms(2)] obtain sub bits where
    sub: "od_get_sub od i s = Some sub" "data_type_bits (dataType sub) = Some bits" "n = (bits + 7) div 8" by metis
  from eds_entry [OF assms(1) sub(1)] obtain e where e: "dev_values d (i, s) = Some e" "entry_matches sub e"
    "\<not> forcedReadOnly e" by blast
  have w: "written d (i, s) bs = d\<lparr>dev_values := (dev_values d)((i, s) \<mapsto> e\<lparr>entry_bytes := bs\<rparr>)\<rparr>"
    using e(1) by (simp add: written_def)
  have ok: "values_ok od (dev_values d) (nonVolatile d)" using assms(1) by (simp add: eds_device_def)
  have "values_ok od ((dev_values d)((i, s) \<mapsto> e\<lparr>entry_bytes := bs\<rparr>)) (nonVolatile d)"
  proof (rule values_okI)
    fix i' s'
    have "slot_ok (od_get_sub od i' s') (dev_values d (i', s')) (nonVolatile d (i', s'))"
      using ok by (simp add: values_ok_def)
    then show "slot_ok (od_get_sub od i' s')
        (((dev_values d)((i, s) \<mapsto> e\<lparr>entry_bytes := bs\<rparr>)) (i', s')) (nonVolatile d (i', s'))"
      using sub e assms(3) by (cases "(i', s') = (i, s)") (auto simp: entry_matches_def width_ok_def)
  qed
  with assms(1) e(3) w show "eds_device od node (written d (i, s) bs)"
    by (auto simp: eds_device_def)
  show "same_setup d (written d (i, s) bs)" by (simp add: w same_setup_def)
  show "dev_value (written d (i, s) bs) = (dev_value d)((i, s) \<mapsto> to_uint bs)"
    by (rule ext) (simp add: w dev_value_def)
qed

section \<open>Groups of steps\<close>

definition upds :: "(od_key \<Rightarrow> u64 option) \<Rightarrow> (od_key \<times> u64) list \<Rightarrow> od_key \<Rightarrow> u64 option" where
  "upds m kvs = foldl (\<lambda>m kv. m(fst kv \<mapsto> snd kv)) m kvs"

lemma upds_simps [simp]: "upds m [] = m" "upds m (kv # kvs) = upds (m(fst kv \<mapsto> snd kv)) kvs"
  "upds m (xs @ ys) = upds (upds m xs) ys"
  by (simp_all add: upds_def)

lemma upds_other: "key \<notin> fst ` set kvs \<Longrightarrow> upds m kvs key = m key"
  by (induction kvs arbitrary: m) simp_all

text \<open>Steps that write the given values, whatever the device held, and steps that find them.\<close>

definition writes :: "object_dictionary \<Rightarrow> byte \<Rightarrow> plan_step list \<Rightarrow> (od_key \<times> u64) list \<Rightarrow> bool" where
  "writes od node ss kvs \<longleftrightarrow> (\<forall>k d. eds_device od node d \<longrightarrow>
     (\<exists>d'. goes k d ss k d' \<and> eds_device od node d' \<and> same_setup d d' \<and>
        dev_value d' = upds (dev_value d) kvs))"

definition readable :: "object_dictionary \<Rightarrow> od_key \<Rightarrow> bool" where
  "readable od key \<longleftrightarrow> (\<forall>sub. od_get_sub od (fst key) (snd key) = Some sub \<longrightarrow> is_readable (access sub))"

text \<open>Steps that end the run with an exit code and leave the device alone.\<close>

definition stops :: "nat \<Rightarrow> stub_device \<Rightarrow> plan_step list \<Rightarrow> nat \<Rightarrow> bool" where
  "stops k d ss code \<longleftrightarrow> (\<forall>w rest. tool_ready k w \<and> bus_device w = d \<longrightarrow>
     (\<exists>w'. exec_steps (ss @ rest) w = (code, w') \<and> bus_device w' = d))"

definition holds :: "stub_device \<Rightarrow> (od_key \<times> u64) list \<Rightarrow> bool" where
  "holds d kvs \<longleftrightarrow> (\<forall>(key, v)\<in>set kvs. dev_value d key = Some v)"

definition verifies :: "object_dictionary \<Rightarrow> byte \<Rightarrow> plan_step list \<Rightarrow> (od_key \<times> u64) list \<Rightarrow> bool" where
  "verifies od node ss kvs \<longleftrightarrow> (\<forall>k d. eds_device od node d \<and> (\<forall>(key, v)\<in>set kvs. readable od key) \<longrightarrow>
     (if holds d kvs then goes k d ss k d else stops k d ss kVerificationMismatch))"

lemma stops_append: "stops k d xs code \<Longrightarrow> stops k d (xs @ ys) code"
  by (simp add: stops_def)

lemma goes_stops:
  assumes "goes k d xs k d" "stops k d ys code"
  shows "stops k d (xs @ ys) code"
  unfolding stops_def
proof (intro allI impI)
  fix w rest assume "tool_ready k w \<and> bus_device w = d"
  with assms(1) obtain w1 where "carries xs w w1" "tool_ready k w1 \<and> bus_device w1 = d"
    unfolding goes_def by blast
  with assms(2) show "\<exists>w'. exec_steps ((xs @ ys) @ rest) w = (code, w') \<and> bus_device w' = d"
    unfolding stops_def by (simp add: carries_def)
qed

lemma same_setup_trans: "same_setup a b \<Longrightarrow> same_setup b c \<Longrightarrow> same_setup a c"
  by (simp add: same_setup_def)

lemma writes_Nil: "writes od node [] []"
  using goes_Nil by (auto simp: writes_def same_setup_def)

lemma writes_append:
  assumes "writes od node xs kvs" "writes od node ys kvs'"
  shows "writes od node (xs @ ys) (kvs @ kvs')"
  unfolding writes_def
proof (intro allI impI)
  fix k d assume "eds_device od node d"
  with assms(1) obtain d1 where d1: "goes k d xs k d1" "eds_device od node d1" "same_setup d d1"
    "dev_value d1 = upds (dev_value d) kvs" unfolding writes_def by blast
  from assms(2) d1(2) obtain d2 where d2: "goes k d1 ys k d2" "eds_device od node d2" "same_setup d1 d2"
    "dev_value d2 = upds (dev_value d1) kvs'" unfolding writes_def by blast
  show "\<exists>d'. goes k d (xs @ ys) k d' \<and> eds_device od node d' \<and> same_setup d d' \<and>
      dev_value d' = upds (dev_value d) (kvs @ kvs')"
    using goes_append [OF d1(1) d2(1)] d2(2) same_setup_trans [OF d1(3) d2(3)] d1(4) d2(4) by auto
qed

lemma verifies_Nil: "verifies od node [] []"
  by (simp add: verifies_def goes_Nil holds_def)

lemma verifies_append:
  assumes "verifies od node xs kvs" "verifies od node ys kvs'"
  shows "verifies od node (xs @ ys) (kvs @ kvs')"
  unfolding verifies_def
proof (intro allI impI)
  fix k d
  assume d: "eds_device od node d \<and> (\<forall>(key, v)\<in>set (kvs @ kvs'). readable od key)"
  have xs: "if holds d kvs then goes k d xs k d else stops k d xs kVerificationMismatch"
    using assms(1) d unfolding verifies_def by (simp add: ball_Un)
  have ys: "if holds d kvs' then goes k d ys k d else stops k d ys kVerificationMismatch"
    using assms(2) d unfolding verifies_def by (simp add: ball_Un)
  have "holds d (kvs @ kvs') \<longleftrightarrow> holds d kvs \<and> holds d kvs'" by (simp add: holds_def ball_Un)
  with xs ys show "if holds d (kvs @ kvs') then goes k d (xs @ ys) k d else stops k d (xs @ ys) kVerificationMismatch"
    using goes_append goes_stops stops_append by (auto split: if_splits)
qed

lemma writes_one:
  assumes "width_of od i s = Inr n" "check_limits od i s v = None" "fits n v" "i \<notin> {0x1010, 0x1011}"
  shows "writes od node [sdo_write_step node i s v n] [((i, s), v)]"
  unfolding writes_def
proof (intro allI impI)
  fix k d assume d: "eds_device od node d"
  from width_of_sub [OF assms(1)] have n: "1 \<le> n" "n \<le> 4" by metis+
  let ?d = "written d (i, s) (to_bytes v n)"
  have "goes k d [sdo_write_step node i s v n] k ?d"
    by (rule goes_write [OF n eds_write [OF d assms]]) (use d in \<open>simp add: eds_device_def\<close>)
  moreover have "to_uint (to_bytes v n) = v"
    using assms(3) n(2) by (simp add: to_uint_to_bytes fits_def)
  ultimately show "\<exists>d'. goes k d [sdo_write_step node i s v n] k d' \<and> eds_device od node d' \<and>
      same_setup d d' \<and> dev_value d' = upds (dev_value d) [((i, s), v)]"
    using written_device [OF d assms(1), of "to_bytes v n"] by (intro exI [of _ ?d]) simp
qed

lemma eds_read:
  assumes "eds_device od node d" "width_of od i s = Inr n" "readable od (i, s)"
  shows "\<exists>bs. dict_read d i s = Inr bs \<and> dev_value d (i, s) = Some (to_uint bs) \<and> length bs = n"
proof -
  from width_of_sub [OF assms(2)] obtain sub bits where
    sub: "od_get_sub od i s = Some sub" "data_type_bits (dataType sub) = Some bits" "n = (bits + 7) div 8" by metis
  from eds_entry [OF assms(1) sub(1)] obtain e where e: "dev_values d (i, s) = Some e" "entry_matches sub e"
    by blast
  show ?thesis
    using e sub assms(1,3) od_get_of_sub [OF sub(1)]
    by (auto simp: dict_read_def eds_device_def entry_matches_def readable_def dev_value_def width_ok_def)
qed

lemma verifies_one:
  assumes "width_of od i s = Inr n"
  shows "verifies od node [verify_step node i s v n] [((i, s), v)]"
  unfolding verifies_def
proof (intro allI impI)
  fix k d assume d: "eds_device od node d \<and> (\<forall>(key, x)\<in>set [((i, s), v)]. readable od key)"
  from width_of_sub [OF assms] have n: "1 \<le> n" "n \<le> 4" by metis+
  from d obtain bs where bs: "dict_read d i s = Inr bs" "dev_value d (i, s) = Some (to_uint bs)" "length bs = n"
    using eds_read [OF _ assms, of node d] by auto
  have node: "nodeId d = node" using d by (simp add: eds_device_def)
  show "if holds d [((i, s), v)] then goes k d [verify_step node i s v n] k d
      else stops k d [verify_step node i s v n] kVerificationMismatch"
    using goes_verify [OF bs(1) _ bs(3) n node] stops_verify [OF bs(1) _ bs(3) n node] bs(2)
    by (auto simp: holds_def stops_def simp del: exec_steps.simps)
qed

section \<open>What the builder adds\<close>

definition grows :: "(plan_step list \<Rightarrow> bool) \<Rightarrow> plan_builder \<Rightarrow> plan_builder \<Rightarrow> bool" where
  "grows P b b' \<longleftrightarrow> pb_od b' = pb_od b \<and> pb_nodeId b' = pb_nodeId b \<and>
     (\<exists>ss e. pb_plan b' = (pb_plan b)\<lparr>pl_steps := pl_steps (pb_plan b) @ ss\<rparr> \<and>
        pb_errors b' = pb_errors b @ e \<and> (e = [] \<longrightarrow> P ss))"

lemma grows_trans:
  assumes "grows P b b1" "grows Q b1 b2" "\<And>xs ys. P xs \<Longrightarrow> Q ys \<Longrightarrow> R (xs @ ys)"
  shows "grows R b b2"
proof -
  from assms(1) obtain xs e where 1: "pb_plan b1 = (pb_plan b)\<lparr>pl_steps := pl_steps (pb_plan b) @ xs\<rparr>"
    "pb_errors b1 = pb_errors b @ e" "e = [] \<longrightarrow> P xs" by (auto simp: grows_def)
  from assms(2) obtain ys e' where 2: "pb_plan b2 = (pb_plan b1)\<lparr>pl_steps := pl_steps (pb_plan b1) @ ys\<rparr>"
    "pb_errors b2 = pb_errors b1 @ e'" "e' = [] \<longrightarrow> Q ys" by (auto simp: grows_def)
  show ?thesis
    unfolding grows_def
    by (intro conjI exI [of _ "xs @ ys"] exI [of _ "e @ e'"])
       (use assms 1 2 in \<open>auto simp: grows_def\<close>)
qed

lemma grows_refl: "P [] \<Longrightarrow> grows P b b"
  unfolding grows_def by (intro conjI exI [of _ "[]"]) simp_all

lemma grows_push: "P [st] \<Longrightarrow> grows P b (pb_push st b)"
  unfolding grows_def pb_push_def by (intro conjI exI [of _ "[st]"] exI [of _ "[]"]) simp_all

lemma grows_error: "grows P b (pb_error e b)"
  unfolding grows_def pb_error_def by (intro conjI exI [of _ "[]"] exI [of _ "[e]"]) simp_all

definition opt_item :: "od_key \<Rightarrow> ('a \<Rightarrow> u64) \<Rightarrow> 'a option \<Rightarrow> (od_key \<times> u64) list" where
  "opt_item key g v = (case v of None \<Rightarrow> [] | Some x \<Rightarrow> [(key, g x)])"

definition cobid_word :: "u32 \<Rightarrow> u64" where
  "cobid_word c = ucast (kCobIdRtrDisabled OR c)"

definition cob_item :: "u16 \<Rightarrow> u32 option \<Rightarrow> (od_key \<times> u64) list" where
  "cob_item i v = (case v of None \<Rightarrow> []
     | Some c \<Rightarrow> [((i, 1), ucast kCobIdInvalid), ((i, 1), cobid_word c)])"

text \<open>What the file must declare for a value to be accepted: room for it; for a COB-ID, whose
  limits the plan does not check, also that it is writable and within its limits.\<close>

definition asked_fits :: "object_dictionary \<Rightarrow> u16 \<Rightarrow> byte \<Rightarrow> ('a \<Rightarrow> u64) \<Rightarrow> 'a option \<Rightarrow> bool" where
  "asked_fits od i s g v \<longleftrightarrow> (case v of None \<Rightarrow> True
     | Some x \<Rightarrow> (case width_of od i s of Inl _ \<Rightarrow> True | Inr n \<Rightarrow> fits n (g x)))"

definition cobid_accepted :: "object_dictionary \<Rightarrow> u16 \<Rightarrow> u32 option \<Rightarrow> bool" where
  "cobid_accepted od i v \<longleftrightarrow> (case v of None \<Rightarrow> True
     | Some c \<Rightarrow> check_limits od i 1 (ucast kCobIdInvalid) = None \<and> check_limits od i 1 (cobid_word c) = None)"

lemma fits_4: "fits 4 (ucast (x :: u32))"
  unfolding fits_def by (rule bit_word_eqI) (auto simp: bit_simps dest: bit_imp_le_length)

lemma grows_write:
  assumes "asked_fits (pb_od b) i s g v" "i \<notin> {0x1010, 0x1011}"
  shows "grows (\<lambda>ss. writes (pb_od b) (pb_nodeId b) ss (opt_item (i, s) g v)) b
    (if_asked v (\<lambda>x. pb_write i s (g x)) b)"
proof (cases v)
  case None
  then show ?thesis by (simp add: if_asked_def opt_item_def writes_Nil grows_refl)
next
  case (Some x)
  show ?thesis
  proof (cases "width_of (pb_od b) i s")
    case (Inl e)
    with Some show ?thesis by (simp add: if_asked_def pb_write_def grows_error)
  next
    case (Inr n)
    with Some assms writes_one [of "pb_od b" i s n "g x" "pb_nodeId b"] show ?thesis
      by (cases "check_limits (pb_od b) i s (g x)")
         (simp_all add: if_asked_def pb_write_def grows_error grows_push opt_item_def asked_fits_def)
  qed
qed

lemma grows_cobid:
  assumes "cobid_accepted (pb_od b) i v" "i \<notin> {0x1010, 0x1011}"
  shows "grows (\<lambda>ss. writes (pb_od b) (pb_nodeId b) ss (cob_item i v)) b (if_asked v (pb_write_cobid i) b)"
proof (cases v)
  case None
  then show ?thesis by (simp add: if_asked_def cob_item_def writes_Nil grows_refl)
next
  case (Some c)
  show ?thesis
  proof (cases "width_of (pb_od b) i 1")
    case (Inl e)
    with Some show ?thesis by (simp add: if_asked_def pb_write_cobid_def grows_error)
  next
    case (Inr n)
    show ?thesis
    proof (cases "n = 4")
      case False
      with Some Inr show ?thesis by (simp add: if_asked_def pb_write_cobid_def grows_error)
    next
      case True
      let ?s = "\<lambda>v. sdo_write_step (pb_nodeId b) i 1 v 4"
      have lim: "check_limits (pb_od b) i 1 (ucast kCobIdInvalid) = None"
        "check_limits (pb_od b) i 1 (cobid_word c) = None"
        using assms(1) Some by (simp_all add: cobid_accepted_def)
      have "writes (pb_od b) (pb_nodeId b) [?s (ucast kCobIdInvalid)] [((i, 1), ucast kCobIdInvalid)]"
        "writes (pb_od b) (pb_nodeId b) [?s (cobid_word c)] [((i, 1), cobid_word c)]"
        using Inr True lim assms(2) by (auto intro!: writes_one simp: fits_4 cobid_word_def)
      from grows_trans [OF grows_push [where P = "\<lambda>ss. writes (pb_od b) (pb_nodeId b) ss [((i, 1), ucast kCobIdInvalid)]", OF this(1)]
          grows_push [where P = "\<lambda>ss. writes (pb_od b) (pb_nodeId b) ss [((i, 1), cobid_word c)]", OF this(2)], of
          "\<lambda>ss. writes (pb_od b) (pb_nodeId b) ss (cob_item i v)" b]
      show ?thesis
        using Some Inr True writes_append
        by (fastforce simp: if_asked_def pb_write_cobid_def cob_item_def cobid_word_def)
    qed
  qed
qed

lemma grows_verify:
  "grows (\<lambda>ss. verifies (pb_od b) (pb_nodeId b) ss (opt_item (i, s) g v)) b
    (if_asked v (\<lambda>x. pb_verify i s (g x)) b)"
proof (cases v)
  case None
  then show ?thesis by (simp add: if_asked_def opt_item_def verifies_Nil grows_refl)
next
  case (Some x)
  show ?thesis
  proof (cases "width_of (pb_od b) i s")
    case (Inl e)
    with Some show ?thesis by (simp add: if_asked_def pb_verify_def grows_error)
  next
    case (Inr n)
    from verifies_one [OF Inr, of "pb_nodeId b" "g x"]
    have "verifies (pb_od b) (pb_nodeId b) [(new_step KVerify)\<lparr>st_index := i, st_sub := s, st_value := g x,
          st_width := n, st_frames := [make_sdo_upload_frame (pb_nodeId b) i s]\<rparr>] [((i, s), g x)]"
      by (simp add: verify_step_def)
    with Some Inr show ?thesis
      by (simp add: if_asked_def pb_verify_def opt_item_def grows_push)
  qed
qed

section \<open>The SDO part of a plan\<close>

definition target_writes :: "target_state \<Rightarrow> (od_key \<times> u64) list" where
  "target_writes t =
     cob_item 0x1800 (cob_buttons (tg_cobIds t)) @ cob_item 0x1400 (cob_indicators (tg_cobIds t)) @
     cob_item 0x1401 (cob_brightness (tg_cobIds t)) @
     opt_item (0x1017, 0) ucast (tg_heartbeatMs t) @ opt_item (0x1800, 2) ucast (tg_transmissionType t) @
     opt_item (0x1800, 3) ucast (tg_inhibitTimeUs t) @ opt_item (0x1800, 5) ucast (tg_eventTimerMs t) @
     opt_item (0x2010, 1) ucast (tg_indicatorScalar t) @ opt_item (0x2010, 2) ucast (tg_backlightScalar t)"

text \<open>What the config asks of the dictionary, in the order it is read back.\<close>

definition target_values :: "target_state \<Rightarrow> (od_key \<times> u64) list" where
  "target_values t =
     opt_item (0x1800, 2) ucast (tg_transmissionType t) @ opt_item (0x2010, 2) ucast (tg_backlightScalar t) @
     opt_item (0x2010, 1) ucast (tg_indicatorScalar t) @ opt_item (0x1017, 0) ucast (tg_heartbeatMs t) @
     opt_item (0x1800, 5) ucast (tg_eventTimerMs t) @ opt_item (0x1800, 3) ucast (tg_inhibitTimeUs t) @
     opt_item (0x1800, 1) cobid_word (cob_buttons (tg_cobIds t)) @
     opt_item (0x1400, 1) cobid_word (cob_indicators (tg_cobIds t)) @
     opt_item (0x1401, 1) cobid_word (cob_brightness (tg_cobIds t))"

lemma opt_item_keys: "fst ` set (opt_item key g v) \<subseteq> {key}" "fst ` set (cob_item i c) \<subseteq> {(i, 1)}"
  by (auto simp: opt_item_def cob_item_def split: option.splits)

lemma upds_item:
  "upds m (opt_item key g (Some x)) key = Some (g x)"
  "upds m (cob_item i (Some c)) (i, 1) = Some (cobid_word c)"
  "k \<noteq> key \<Longrightarrow> upds m (opt_item key g v) k = m k"
  "k \<noteq> (i, 1) \<Longrightarrow> upds m (cob_item i w) k = m k"
  by (auto simp: opt_item_def cob_item_def split: option.splits)

lemma upds_written:
  "v = Some x \<Longrightarrow> upds m (opt_item key g v) key = Some (g x)"
  "w = Some c \<Longrightarrow> upds m (cob_item i w) (i, 1) = Some (cobid_word c)"
  by (simp_all add: upds_item)

lemma list_all_opt: "list_all P (opt_item key g v) \<longleftrightarrow> (\<forall>x. v = Some x \<longrightarrow> P (key, g x))"
  by (simp add: opt_item_def split: option.split)

lemma target_values_written: "list_all (\<lambda>(key, v). upds m (target_writes t) key = Some v) (target_values t)"
  unfolding target_values_def list_all_append list_all_opt prod.case
  by (intro conjI allI impI; simp add: target_writes_def upds_item)

lemma target_writes_keys: "fst ` set (target_writes t) \<subseteq>
    {(0x1800, 1), (0x1400, 1), (0x1401, 1), (0x1017, 0), (0x1800, 2), (0x1800, 3), (0x1800, 5), (0x2010, 1), (0x2010, 2)}"
  unfolding target_writes_def set_append image_Un
  by (intro Un_least order_trans [OF opt_item_keys(1)] order_trans [OF opt_item_keys(2)]) simp_all

definition eds_accepts :: "object_dictionary \<Rightarrow> target_state \<Rightarrow> bool" where
  "eds_accepts od t \<longleftrightarrow>
     cobid_accepted od 0x1800 (cob_buttons (tg_cobIds t)) \<and>
     cobid_accepted od 0x1400 (cob_indicators (tg_cobIds t)) \<and>
     cobid_accepted od 0x1401 (cob_brightness (tg_cobIds t)) \<and>
     asked_fits od 0x1017 0 ucast (tg_heartbeatMs t) \<and> asked_fits od 0x1800 2 ucast (tg_transmissionType t) \<and>
     asked_fits od 0x1800 3 ucast (tg_inhibitTimeUs t) \<and> asked_fits od 0x1800 5 ucast (tg_eventTimerMs t) \<and>
     asked_fits od 0x2010 1 ucast (tg_indicatorScalar t) \<and> asked_fits od 0x2010 2 ucast (tg_backlightScalar t) \<and>
     list_all (\<lambda>(key, v). readable od key) (target_values t)"

text \<open>A part of the builder that appends steps for which \<open>P\<close> holds; parts compose as functions.\<close>

definition adds :: "object_dictionary \<Rightarrow> byte \<Rightarrow> (plan_step list \<Rightarrow> bool) \<Rightarrow>
    (plan_builder \<Rightarrow> plan_builder) \<Rightarrow> bool" where
  "adds od node P f \<longleftrightarrow> (\<forall>b. pb_od b = od \<and> pb_nodeId b = node \<longrightarrow> grows P b (f b))"

lemma adds_comp:
  assumes "adds od node P f" "adds od node Q g" "\<And>xs ys. P xs \<Longrightarrow> Q ys \<Longrightarrow> R (xs @ ys)"
  shows "adds od node R (g \<circ> f)"
  unfolding adds_def
proof (intro allI impI)
  fix b :: plan_builder assume b: "pb_od b = od \<and> pb_nodeId b = node"
  with assms(1) have f: "grows P b (f b)" by (simp add: adds_def)
  with b have "pb_od (f b) = od \<and> pb_nodeId (f b) = node" by (simp add: grows_def)
  with assms(2) have g: "grows Q (f b) (g (f b))" by (simp add: adds_def)
  show "grows R b ((g \<circ> f) b)"
    unfolding comp_def by (rule grows_trans [where P = P and Q = Q, OF f g]) (rule assms(3))
qed

lemma adds_writes:
  "adds od node (\<lambda>ss. writes od node ss xs) f \<Longrightarrow> adds od node (\<lambda>ss. writes od node ss ys) g \<Longrightarrow>
   adds od node (\<lambda>ss. writes od node ss (xs @ ys)) (g \<circ> f)"
  by (erule (1) adds_comp) (rule writes_append)

lemma adds_verifies:
  "adds od node (\<lambda>ss. verifies od node ss xs) f \<Longrightarrow> adds od node (\<lambda>ss. verifies od node ss ys) g \<Longrightarrow>
   adds od node (\<lambda>ss. verifies od node ss (xs @ ys)) (g \<circ> f)"
  by (erule (1) adds_comp) (rule verifies_append)

lemma adds_write:
  "asked_fits od i s g v \<Longrightarrow> i \<notin> {0x1010, 0x1011} \<Longrightarrow>
   adds od node (\<lambda>ss. writes od node ss (opt_item (i, s) g v)) (if_asked v (\<lambda>x. pb_write i s (g x)))"
  unfolding adds_def using grows_write [of _ i s g v] by blast

lemma adds_cobid:
  "cobid_accepted od i v \<Longrightarrow> i \<notin> {0x1010, 0x1011} \<Longrightarrow>
   adds od node (\<lambda>ss. writes od node ss (cob_item i v)) (if_asked v (pb_write_cobid i))"
  unfolding adds_def using grows_cobid [of _ i v] by blast

lemma adds_verify:
  "adds od node (\<lambda>ss. verifies od node ss (opt_item (i, s) g v)) (if_asked v (\<lambda>x. pb_verify i s (g x)))"
  unfolding adds_def using grows_verify by blast

lemma writes_preoperational: "writes od node [nmt_step EnterPreOperational node] []"
  unfolding writes_def
proof (intro allI impI)
  fix k d assume d: "eds_device od node d"
  then have "goes k d [nmt_step EnterPreOperational node] k (d\<lparr>nmtState := NmtPreOperational\<rparr>)"
    by (intro goes_preoperational) (simp add: eds_device_def)
  with d show "\<exists>d'. goes k d [nmt_step EnterPreOperational node] k d' \<and> eds_device od node d' \<and>
      same_setup d d' \<and> dev_value d' = upds (dev_value d) []"
    by (intro exI [of _ "d\<lparr>nmtState := NmtPreOperational\<rparr>"] conjI)
       (auto simp: eds_device_def same_setup_def dev_value_def fun_eq_iff)
qed

lemma adds_preoperational:
  "adds od node (\<lambda>ss. writes od node ss []) (\<lambda>b. if c then pb_nmt EnterPreOperational b else b)"
  using writes_preoperational [of od node]
  by (auto simp: adds_def pb_nmt_def nmt_step_def writes_Nil intro!: grows_refl grows_push)

lemma plan_writes_parts:
  "plan_writes cfg =
     (let t = rc_target cfg in
      if_asked (tg_backlightScalar t) (\<lambda>v. pb_write 0x2010 2 (ucast v)) \<circ>
      (if_asked (tg_indicatorScalar t) (\<lambda>v. pb_write 0x2010 1 (ucast v)) \<circ>
      (if_asked (tg_eventTimerMs t) (\<lambda>v. pb_write 0x1800 5 (ucast v)) \<circ>
      (if_asked (tg_inhibitTimeUs t) (\<lambda>v. pb_write 0x1800 3 (ucast v)) \<circ>
      (if_asked (tg_transmissionType t) (\<lambda>v. pb_write 0x1800 2 (ucast v)) \<circ>
      (if_asked (tg_heartbeatMs t) (\<lambda>v. pb_write 0x1017 0 (ucast v)) \<circ>
      (if_asked (cob_brightness (tg_cobIds t)) (pb_write_cobid 0x1401) \<circ>
      (if_asked (cob_indicators (tg_cobIds t)) (pb_write_cobid 0x1400) \<circ>
      (if_asked (cob_buttons (tg_cobIds t)) (pb_write_cobid 0x1800) \<circ>
      (\<lambda>b. if plan_any_write cfg then pb_nmt EnterPreOperational b else b))))))))))"
  by (rule ext) (simp add: plan_writes_def Let_def)

lemma plan_writes_adds:
  assumes "eds_accepts od (rc_target cfg)"
  shows "adds od node (\<lambda>ss. writes od node ss (target_writes (rc_target cfg))) (plan_writes cfg)"
proof -
  let ?t = "rc_target cfg"
  have "adds od node (\<lambda>ss. writes od node ss
      ((((((((([] @ cob_item 0x1800 (cob_buttons (tg_cobIds ?t))) @ cob_item 0x1400 (cob_indicators (tg_cobIds ?t))) @
      cob_item 0x1401 (cob_brightness (tg_cobIds ?t))) @ opt_item (0x1017, 0) ucast (tg_heartbeatMs ?t)) @
      opt_item (0x1800, 2) ucast (tg_transmissionType ?t)) @ opt_item (0x1800, 3) ucast (tg_inhibitTimeUs ?t)) @
      opt_item (0x1800, 5) ucast (tg_eventTimerMs ?t)) @ opt_item (0x2010, 1) ucast (tg_indicatorScalar ?t)) @
      opt_item (0x2010, 2) ucast (tg_backlightScalar ?t))) (plan_writes cfg)"
    unfolding plan_writes_parts Let_def
    by (intro adds_writes adds_preoperational adds_write adds_cobid)
       (use assms in \<open>simp_all add: eds_accepts_def\<close>)
  then show ?thesis by (simp add: target_writes_def)
qed

lemma plan_verifies_parts:
  "plan_verifies cfg =
     (let t = rc_target cfg in
      if_asked (cob_brightness (tg_cobIds t)) (\<lambda>c. pb_verify 0x1401 1 (cobid_word c)) \<circ>
      (if_asked (cob_indicators (tg_cobIds t)) (\<lambda>c. pb_verify 0x1400 1 (cobid_word c)) \<circ>
      (if_asked (cob_buttons (tg_cobIds t)) (\<lambda>c. pb_verify 0x1800 1 (cobid_word c)) \<circ>
      (if_asked (tg_inhibitTimeUs t) (\<lambda>v. pb_verify 0x1800 3 (ucast v)) \<circ>
      (if_asked (tg_eventTimerMs t) (\<lambda>v. pb_verify 0x1800 5 (ucast v)) \<circ>
      (if_asked (tg_heartbeatMs t) (\<lambda>v. pb_verify 0x1017 0 (ucast v)) \<circ>
      (if_asked (tg_indicatorScalar t) (\<lambda>v. pb_verify 0x2010 1 (ucast v)) \<circ>
      (if_asked (tg_backlightScalar t) (\<lambda>v. pb_verify 0x2010 2 (ucast v)) \<circ>
      if_asked (tg_transmissionType t) (\<lambda>v. pb_verify 0x1800 2 (ucast v))))))))))"
  by (rule ext) (simp add: plan_verifies_def Let_def cobid_word_def)

lemma plan_verifies_adds:
  "adds od node (\<lambda>ss. verifies od node ss (target_values (rc_target cfg))) (plan_verifies cfg)"
proof -
  let ?t = "rc_target cfg"
  have "adds od node (\<lambda>ss. verifies od node ss
      ((((((((opt_item (0x1800, 2) ucast (tg_transmissionType ?t) @ opt_item (0x2010, 2) ucast (tg_backlightScalar ?t)) @
      opt_item (0x2010, 1) ucast (tg_indicatorScalar ?t)) @ opt_item (0x1017, 0) ucast (tg_heartbeatMs ?t)) @
      opt_item (0x1800, 5) ucast (tg_eventTimerMs ?t)) @ opt_item (0x1800, 3) ucast (tg_inhibitTimeUs ?t)) @
      opt_item (0x1800, 1) cobid_word (cob_buttons (tg_cobIds ?t))) @
      opt_item (0x1400, 1) cobid_word (cob_indicators (tg_cobIds ?t))) @
      opt_item (0x1401, 1) cobid_word (cob_brightness (tg_cobIds ?t)))) (plan_verifies cfg)"
    unfolding plan_verifies_parts Let_def
    by (intro adds_verifies adds_verify)
  then show ?thesis by (simp add: target_values_def)
qed

end
