(* ===== verification/KeypadTool.thy ===== *)
theory KeypadTool
  imports KeypadApply
begin

text \<open>
  The reconfiguration tool as a whole: storing, resetting and readdressing the simulated keypad,
  and the theorems that connect the plan built from a configuration with what its execution does
  to the device.
\<close>

section \<open>Storing and resetting\<close>

definition store_step :: "byte \<Rightarrow> plan_step" where
  "store_step node = (new_step KSdoStore)\<lparr>st_index := 0x1010, st_sub := 1, st_width := 4,
     st_frames := [make_sdo_download_frame node 0x1010 1 (text_bytes ''save'')]\<rparr>"

text \<open>The file lets the tool store: the signature object is a writable 32 bit number whose limits
  admit the signature.\<close>

definition store_accepted :: "object_dictionary \<Rightarrow> bool" where
  "store_accepted od \<longleftrightarrow> width_of od 0x1010 1 = Inr 4 \<and> check_limits od 0x1010 1 0x65766173 = None"

definition saved_device :: "stub_device \<Rightarrow> stub_device" where
  "saved_device d = store_parameters_all (written d (0x1010, 1) (text_bytes ''save''))"

lemma save_bytes: "to_bytes 0x65766173 4 = text_bytes ''save''"
proof -
  have "length (text_bytes ''save'') = 4" by (simp add: text_bytes_def)
  with to_bytes_to_uint [of "text_bytes ''save''"] signature_values(1) show ?thesis by simp
qed

lemma save_write:
  assumes "eds_device od node d" "store_accepted od"
  shows "dict_write d 0x1010 1 (text_bytes ''save'') = Inr (saved_device d)"
proof -
  have w: "width_of od 0x1010 1 = Inr 4" "check_limits od 0x1010 1 0x65766173 = None"
    using assms(2) by (simp_all add: store_accepted_def)
  have "fits 4 0x65766173" by (simp add: fits_def)
  from eds_write_accepted [OF assms(1) w this] obtain e where
    e: "dev_values d (0x1010, 1) = Some e" "write_refusal e (text_bytes ''save'') = None"
    by (auto simp: save_bytes)
  from width_of_sub [OF w(1)] obtain sub where "od_get_sub od 0x1010 1 = Some sub" by metis
  then have "od_get (dev_od d) 0x1010 \<noteq> None" using od_get_of_sub assms(1) by (auto simp: eds_device_def)
  with e show ?thesis by (simp add: object_write_def saved_device_def written_def)
qed

lemma stored_values_ok:
  assumes "values_ok od vs nv"
  shows "values_ok od vs (\<lambda>key. case vs key of Some e \<Rightarrow> Some (entry_bytes e) | None \<Rightarrow> nv key)"
proof (rule values_okI)
  fix i s
  from assms have "slot_ok (od_get_sub od i s) (vs (i, s)) (nv (i, s))" by (simp add: values_ok_def)
  then show "slot_ok (od_get_sub od i s) (vs (i, s))
      (case vs (i, s) of Some e \<Rightarrow> Some (entry_bytes e) | None \<Rightarrow> nv (i, s))"
    using slot_ok_stored by (cases "vs (i, s)") auto
qed

definition same_lss :: "stub_device \<Rightarrow> stub_device \<Rightarrow> bool" where
  "same_lss d d' \<longleftrightarrow> dev_bitrate d' = dev_bitrate d \<and> storedNodeId d' = storedNodeId d \<and>
     storedBitrate d' = storedBitrate d \<and> pendingNodeId d' = pendingNodeId d \<and>
     pendingBitrate d' = pendingBitrate d"

lemma saved_device_facts:
  assumes "eds_device od node d" "store_accepted od"
  shows "eds_device od node (saved_device d)" "same_lss d (saved_device d)"
    "dev_value (saved_device d) = (dev_value d)((0x1010, 1) \<mapsto> 0x65766173)"
    "dev_value (saved_device d) key = Some v \<Longrightarrow> stored_value (saved_device d) key = Some v"
proof -
  let ?d = "written d (0x1010, 1) (text_bytes ''save'')"
  have w: "width_of od 0x1010 1 = Inr 4" using assms(2) by (simp add: store_accepted_def)
  have len: "length (text_bytes ''save'') = 4" by (simp add: text_bytes_def)
  note wd = written_device [OF assms(1) w len]
  have ok: "values_ok od (dev_values ?d) (nonVolatile ?d)" using wd(1) by (simp add: eds_device_def)
  show "eds_device od node (saved_device d)"
    using wd(1) stored_values_ok [OF ok] by (simp add: eds_device_def saved_device_def store_parameters_all_def)
  show "same_lss d (saved_device d)"
    using wd(2) by (simp add: same_setup_def same_lss_def saved_device_def store_parameters_all_def)
  have v: "dev_value (saved_device d) = dev_value ?d"
    by (rule ext) (simp add: dev_value_def saved_device_def store_parameters_all_def)
  then show "dev_value (saved_device d) = (dev_value d)((0x1010, 1) \<mapsto> 0x65766173)"
    using wd(3) by (simp add: signature_values)
  show "dev_value (saved_device d) key = Some v \<Longrightarrow> stored_value (saved_device d) key = Some v"
    by (auto simp: dev_value_def stored_value_def saved_device_def store_parameters_all_def)
qed

lemma goes_store:
  assumes "eds_device od node d" "store_accepted od"
  shows "goes k d [store_step node] k (saved_device d)"
  by (rule goes_download [where i = "0x1010" and s = 1 and bs = "text_bytes ''save''"])
     (use save_write [OF assms] assms(1) in \<open>simp_all add: store_step_def new_step_def text_bytes_def eds_device_def\<close>)

text \<open>The device identifies itself: the file declares the vendor the tool reads back.\<close>

definition vendor_known :: "object_dictionary \<Rightarrow> bool" where
  "vendor_known od \<longleftrightarrow> width_of od 0x1018 1 = Inr 4 \<and> readable od (0x1018, 1) \<and>
     (\<forall>node. od_defaultValue od 0x1018 1 node = Some 0x307)"

definition identified :: "stub_device \<Rightarrow> bool" where
  "identified d \<longleftrightarrow> dev_value d (0x1018, 1) = Some 0x307 \<and>
     (\<forall>bs. nonVolatile d (0x1018, 1) = Some bs \<longrightarrow> to_uint bs = 0x307)"

definition configured :: "(od_key \<times> u64) list \<Rightarrow> stub_device \<Rightarrow> bool" where
  "configured kvs d \<longleftrightarrow> list_all (\<lambda>(key, v). dev_value d key = Some v \<and> stored_value d key = Some v) kvs"

lemma seed_value:
  assumes "od_get_sub od i s = Some sub"
  shows "seed_from_eds od nv node (i, s) = Some \<lparr>entry_bytes = seed_bytes od nv node (i, s) sub,
    entry_dataType = dataType sub, entry_access = access sub, entry_lowLimit = lowLimit sub,
    entry_highLimit = highLimit sub, forcedReadOnly = False\<rparr>"
  using assms by (auto simp: od_get_sub_def od_get_def seed_from_eds_def split: option.splits)

lemma seed_identity:
  assumes "vendor_known od" "\<forall>bs. nv (0x1018, 1) = Some bs \<longrightarrow> to_uint bs = 0x307"
  shows "map_option (\<lambda>e. to_uint (entry_bytes e)) (seed_from_eds od nv node (0x1018, 1)) = Some 0x307"
proof -
  have w: "width_of od 0x1018 1 = Inr 4" and dv: "od_defaultValue od 0x1018 1 node = Some 0x307"
    using assms(1) by (simp_all add: vendor_known_def)
  from width_of_sub [OF w] obtain sub bits where
    sub: "od_get_sub od 0x1018 1 = Some sub" "data_type_bits (dataType sub) = Some bits" "4 = (bits + 7) div 8" by metis
  have nt: "dataType sub \<notin> {VisibleString, OctetString, UnicodeString}" using sub(2) by auto
  have "to_uint (seed_bytes od nv node (0x1018, 1) sub) = 0x307"
    using assms(2) nt dv sub
    by (cases "nv (0x1018, 1)") (auto simp: seed_bytes_def width_for_def to_uint_to_bytes simp flip: sub(3))
  with seed_value [OF sub(1), of nv node] show ?thesis by simp
qed

lemma reset_device_values: "dev_values (reset_device d) = seed_from_eds (dev_od d) (nonVolatile d)
    (case storedNodeId d of Some n \<Rightarrow> n | None \<Rightarrow> nodeId d)"
  by (simp add: reset_device_def dev_reset_def Let_def)

lemma reset_eds_device:
  assumes "eds_device od node d"
  shows "eds_device od (nodeId (reset_device d)) (reset_device d)"
  using assms seed_values_ok
  by (auto simp: eds_device_def reset_device_fields reset_device_values seed_from_eds_def split: option.splits)

lemma reset_identified:
  assumes "eds_device od node d" "vendor_known od" "identified d"
  shows "identified (reset_device d)"
  using seed_identity [OF assms(2), of "nonVolatile d"] assms(1,3)
  by (simp add: identified_def reset_device_fields dev_value_def reset_device_values eds_device_def)

lemma reset_configured:
  assumes "eds_device od node d" "configured kvs d"
  shows "configured kvs (reset_device d)"
proof -
  have "dev_value (reset_device d) (i, s) = Some v \<and> stored_value (reset_device d) (i, s) = Some v"
    if h: "dev_value d (i, s) = Some v" "stored_value d (i, s) = Some v" for i s v
  proof -
    from h obtain e bs where e: "dev_values d (i, s) = Some e" and bs: "nonVolatile d (i, s) = Some bs" "to_uint bs = v"
      by (auto simp: dev_value_def stored_value_def)
    from e assms(1) obtain sub where sub: "od_get_sub od i s = Some sub"
      using values_okD [of od "dev_values d" "nonVolatile d" i s e] by (auto simp: eds_device_def)
    have "dev_od d = od" using assms(1) by (simp add: eds_device_def)
    then have "dev_value (reset_device d) (i, s) = Some v"
      using bs seed_value [OF sub] by (simp add: dev_value_def reset_device_values seed_bytes_def)
    then show ?thesis using h(2) by (simp add: stored_value_def reset_device_fields)
  qed
  with assms(2) show ?thesis by (auto simp: configured_def list_all_iff)
qed


section \<open>The two halves of a plan\<close>

text \<open>A device as the tool may find it: made of the file, identified, nothing pending in LSS.\<close>

definition settled :: "object_dictionary \<Rightarrow> byte \<Rightarrow> stub_device \<Rightarrow> bool" where
  "settled od node d \<longleftrightarrow> eds_device od node d \<and> identified d \<and> storedNodeId d = None \<and>
     storedBitrate d = None \<and> pendingNodeId d = None \<and> pendingBitrate d = None"

lemma new_device_settled:
  assumes "vendor_known od"
  shows "settled od node (new_stub_device od node r)"
  using seed_identity [OF assms, of "\<lambda>_. None" node] seed_initial_ok [of od node]
  by (auto simp: settled_def eds_device_def identified_def new_stub_device_def dev_value_def
      seed_from_eds_def split: option.splits)

definition applies :: "object_dictionary \<Rightarrow> byte \<Rightarrow> (od_key \<times> u64) list \<Rightarrow> plan_step list \<Rightarrow> bool" where
  "applies od node kvs ss \<longleftrightarrow> (\<forall>d. settled od node d \<longrightarrow> (\<exists>d' k'. k' \<le> 1 \<and> goes 0 d ss k' d' \<and>
     settled od node d' \<and> dev_bitrate d' = dev_bitrate d \<and> configured kvs d'))"

lemma reset_unmoved:
  assumes "settled od node d"
  shows "nodeId (reset_device d) = node" "dev_bitrate (reset_device d) = dev_bitrate d"
    "storedNodeId (reset_device d) = None" "storedBitrate (reset_device d) = None"
    "pendingNodeId (reset_device d) = None" "pendingBitrate (reset_device d) = None"
  using assms by (simp_all add: settled_def eds_device_def reset_device_def dev_reset_def Let_def)

lemma sdo_part_applies:
  assumes w: "writes od node ws kvs" and v: "verifies od node vs vals"
    and vals: "\<And>m. list_all (\<lambda>(key, v). upds m kvs key = Some v) vals"
    and keys: "list_all (\<lambda>(key, v). readable od key \<and> key \<noteq> (0x1010, 1)) vals" "(0x1018, 1) \<notin> fst ` set kvs"
    and od: "store_accepted od" "vendor_known od" and node: "1 \<le> node" "node \<le> 127"
  shows "applies od node vals (ws @ [store_step node] @ [reset_step node] @ vs)"
  unfolding applies_def
proof (intro allI impI)
  fix d assume d: "settled od node d"
  then have "eds_device od node d" by (simp add: settled_def)
  with w obtain d1 where d1: "goes 0 d ws 0 d1" "eds_device od node d1" "same_setup d d1"
    "dev_value d1 = upds (dev_value d) kvs" unfolding writes_def by blast
  define d2 where "d2 = saved_device d1"
  note d2 = saved_device_facts [OF d1(2) od(1), folded d2_def]
  have id2: "dev_value d2 (0x1018, 1) = Some 0x307"
    using d1(4) d2(3) upds_other [OF keys(2)] d by (simp add: settled_def identified_def)
  have "identified d2" using id2 d2(4) [OF id2] by (auto simp: identified_def stored_value_def)
  then have s2: "settled od node d2"
    using d d1(3) d2(1,2) by (simp add: settled_def same_setup_def same_lss_def)
  have c2: "configured vals d2"
  proof -
    have "dev_value d2 key = Some v" if "(key, v) \<in> set vals" for key v
      using that vals [of "dev_value d"] keys(1) unfolding d2(3) d1(4) list_all_iff
      by (metis (mono_tags, lifting) case_prodD fun_upd_apply)
    then show ?thesis using d2(4) by (auto simp: configured_def list_all_iff)
  qed
  define d3 where "d3 = reset_device d2"
  note r = reset_unmoved [OF s2, folded d3_def]
  have s3: "settled od node d3"
    using reset_eds_device [OF d2(1)] reset_identified [OF d2(1) od(2) \<open>identified d2\<close>] r
    by (simp add: settled_def d3_def)
  have c3: "configured vals d3" using reset_configured [OF d2(1) c2] by (simp add: d3_def)
  have "goes 0 d2 [reset_step node] (Suc 0) d3"
    unfolding d3_def by (rule goes_reset) (use r s2 node in \<open>simp_all add: d3_def settled_def eds_device_def\<close>)
  moreover have "goes (Suc 0) d3 vs (Suc 0) d3"
  proof -
    have "holds d3 vals" "\<forall>(key, x)\<in>set vals. readable od key"
      using c3 keys(1) by (fastforce simp: holds_def configured_def list_all_iff)+
    with v s3 show ?thesis unfolding verifies_def by (simp add: settled_def)
  qed
  ultimately have "goes 0 d (ws @ [store_step node] @ [reset_step node] @ vs) (Suc 0) d3"
    using d1(1) goes_store [OF d1(2) od(1), of 0, folded d2_def] by (intro goes_append)
  then show "\<exists>d' k'. k' \<le> 1 \<and> goes 0 d (ws @ [store_step node] @ [reset_step node] @ vs) k' d' \<and>
      settled od node d' \<and> dev_bitrate d' = dev_bitrate d \<and> configured vals d'"
    using s3 c3 r(2) d1(3) d2(2) by (intro exI [of _ d3] exI [of _ "Suc 0"]) (simp add: same_setup_def same_lss_def)
qed

text \<open>The LSS part as the plan has it; \<open>node\<close> is the address it starts at.\<close>

definition lss_steps :: "byte \<Rightarrow> byte option \<Rightarrow> lss_bitrate option \<Rightarrow> byte \<Rightarrow> u32 \<Rightarrow> nat \<Rightarrow> plan_step list" where
  "lss_steps node newNode newRate n kbps width =
     [lss_enter_step] @ (case newNode of Some x \<Rightarrow> [lss_node_step x] | None \<Rightarrow> []) @
     (case newRate of Some r \<Rightarrow> [lss_rate_step r] | None \<Rightarrow> []) @ [lss_store_step] @ [lss_exit_step] @
     [nmt_step ResetNode node, readdress_step n kbps, bootup_step n] @ [verify_step n 0x1018 1 0x307 width]"

definition in_lss :: "stub_device \<Rightarrow> byte option \<Rightarrow> lss_bitrate option \<Rightarrow> stub_device" where
  "in_lss d newNode newRate = d\<lparr>lssConfiguration := True, pendingNodeId := newNode, pendingBitrate := newRate\<rparr>"

definition moved_device :: "stub_device \<Rightarrow> byte option \<Rightarrow> lss_bitrate option \<Rightarrow> stub_device" where
  "moved_device d newNode newRate =
     reset_device (d\<lparr>lssConfiguration := False, pendingNodeId := newNode, pendingBitrate := newRate,
       storedNodeId := newNode, storedBitrate := newRate\<rparr>)"

lemma lss_part_goes:
  assumes d: "settled od node d" and v: "vendor_known od"
    and n: "\<And>x. newNode = Some x \<Longrightarrow> 1 \<le> x \<and> x \<le> 127" "1 \<le> node" "node \<le> 127"
      "n = (case newNode of Some x \<Rightarrow> x | None \<Rightarrow> node)"
    and r: "\<And>r. newRate = Some r \<Longrightarrow> supportedBitrates od (lss_bitrate_to_kbps r) \<noteq> Some False"
      "kbps = lss_bitrate_to_kbps (case newRate of Some r \<Rightarrow> r | None \<Rightarrow> dev_bitrate d)"
    and k: "k \<le> 1"
  shows "goes k d (lss_steps node newNode newRate n kbps 4) (Suc k) (moved_device d newNode newRate)"
proof -
  have eds: "eds_device od node d" and id: "identified d" and none: "storedNodeId d = None" "storedBitrate d = None"
    "pendingNodeId d = None" "pendingBitrate d = None" using d by (simp_all add: settled_def)
  let ?d1 = "d\<lparr>lssConfiguration := True\<rparr>" and ?d2 = "in_lss d newNode None" and ?d3 = "in_lss d newNode newRate"
  let ?d5 = "d\<lparr>lssConfiguration := False, pendingNodeId := newNode, pendingBitrate := newRate,
       storedNodeId := newNode, storedBitrate := newRate\<rparr>"
  have s1: "goes k d [lss_enter_step] k ?d1"
    using goes_lss_switch [of lss_enter_step kModeConfiguration k d] by simp
  have s2: "goes k ?d1 (case newNode of Some x \<Rightarrow> [lss_node_step x] | None \<Rightarrow> []) k ?d2"
  proof (cases newNode)
    case None
    then have "?d2 = ?d1" using none by (cases d) (simp add: in_lss_def)
    with None goes_Nil show ?thesis by simp
  next
    case (Some x)
    have "?d2 = ?d1\<lparr>pendingNodeId := Some x\<rparr>" using none Some by (cases d) (simp add: in_lss_def)
    with Some goes_lss_node [of ?d1 x k] n(1) show ?thesis by simp
  qed
  have s3: "goes k ?d2 (case newRate of Some r \<Rightarrow> [lss_rate_step r] | None \<Rightarrow> []) k ?d3"
  proof (cases newRate)
    case None
    with goes_Nil show ?thesis by simp
  next
    case (Some r)
    have "\<not> lss_rate_refused ?d2 r" using assms(7) [OF Some] eds
      by (simp add: lss_rate_refused_def in_lss_def eds_device_def)
    from goes_lss_rate [OF _ this, of k] Some show ?thesis by (simp add: in_lss_def)
  qed
  have s4: "goes k ?d3 [lss_store_step] k (lss_stored ?d3)"
    by (rule goes_lss_store) (simp add: in_lss_def)
  have "(lss_stored ?d3)\<lparr>lssConfiguration := False\<rparr> = ?d5"
    using none by (cases d) (auto simp: lss_stored_def in_lss_def split: option.split)
  then have s5: "goes k (lss_stored ?d3) [lss_exit_step] k ?d5"
    using goes_lss_switch [of lss_exit_step kModeWaiting k "lss_stored ?d3"]
    by simp
  let ?d6 = "moved_device d newNode newRate"
  have eds5: "eds_device od node ?d5" and id5: "identified ?d5"
    using eds id by (simp_all add: eds_device_def identified_def dev_value_def)
  have node6: "nodeId ?d6 = n" "dev_bitrate ?d6 = (case newRate of Some r \<Rightarrow> r | None \<Rightarrow> dev_bitrate d)"
    using eds n(4) by (simp_all add: moved_device_def reset_device_def dev_reset_def Let_def eds_device_def
        split: option.split)
  have "1 \<le> n" "n \<le> 127" using n by (auto split: option.splits)
  then have s6: "goes k ?d5 [nmt_step ResetNode node, readdress_step n kbps, bootup_step n] (Suc k) ?d6"
    unfolding moved_device_def
    by (intro goes_move) (use eds node6 r(2) k in \<open>simp_all add: eds_device_def moved_device_def\<close>)
  have eds6: "eds_device od n ?d6" using reset_eds_device [OF eds5] node6(1) by (simp add: moved_device_def)
  have id6: "identified ?d6" using reset_identified [OF eds5 v id5] by (simp add: moved_device_def)
  have s7: "goes (Suc k) ?d6 [verify_step n 0x1018 1 0x307 4] (Suc k) ?d6"
    using verifies_one [of od "0x1018" 1 4 n "0x307"] eds6 id6 v
    by (simp add: verifies_def vendor_known_def identified_def holds_def)
  show ?thesis unfolding lss_steps_def by (intro goes_append) (rule s1 s2 s3 s4 s5 s6 s7)+
qed

lemma moved_configured:
  assumes "settled od node d" "configured kvs d"
  shows "configured kvs (moved_device d newNode newRate)"
  unfolding moved_device_def
  by (rule reset_configured [of od node]) (use assms in \<open>simp_all add: settled_def eds_device_def configured_def dev_value_def
      stored_value_def\<close>)


section \<open>The plan as steps\<close>

definition sdo_part :: "reconfig_config \<Rightarrow> plan_builder \<Rightarrow> plan_builder" where
  "sdo_part cfg = plan_verifies cfg \<circ> (pb_reset_and_wait \<circ> (pb_store \<circ> plan_writes cfg))"

lemma adds_one: "(\<And>b. pb_od b = od \<Longrightarrow> pb_nodeId b = node \<Longrightarrow> f b = pb_push st b) \<Longrightarrow>
    adds od node (\<lambda>ss. ss = [st]) f"
  using grows_push [where P = "\<lambda>ss. ss = [st]"] by (auto simp: adds_def)

text \<open>What the file must let the tool do, for the desired state.\<close>

definition eds_suits :: "object_dictionary \<Rightarrow> target_state \<Rightarrow> bool" where
  "eds_suits od t \<longleftrightarrow> eds_accepts od t \<and> store_accepted od \<and> vendor_known od"

lemma target_values_keys: "list_all (\<lambda>(key, v). key \<noteq> (0x1010, 1)) (target_values t)"
  unfolding target_values_def list_all_append list_all_opt by simp

lemma sdo_part_adds:
  assumes "eds_suits od (rc_target cfg)" "1 \<le> node" "node \<le> 127"
  shows "adds od node (applies od node (target_values (rc_target cfg))) (sdo_part cfg)"
proof -
  let ?t = "rc_target cfg"
  have acc: "eds_accepts od ?t" "store_accepted od" "vendor_known od"
    using assms(1) by (simp_all add: eds_suits_def)
  have read: "list_all (\<lambda>(key, v). readable od key \<and> key \<noteq> (0x1010, 1)) (target_values ?t)"
    using acc(1) target_values_keys [of ?t] by (fastforce simp: eds_accepts_def list_all_iff)
  have key: "(0x1018, 1) \<notin> fst ` set (target_writes ?t)" using target_writes_keys [of ?t] by auto
  have w: "adds od node (\<lambda>ss. writes od node ss (target_writes ?t)) (plan_writes cfg)"
    by (rule plan_writes_adds [OF acc(1)])
  have s: "adds od node (\<lambda>ss. ss = [store_step node]) pb_store"
    by (rule adds_one) (simp add: pb_store_def store_step_def)
  have r: "adds od node (\<lambda>ss. ss = [reset_step node]) pb_reset_and_wait"
    by (rule adds_one) (simp add: pb_reset_and_wait_def reset_step_def)
  have ws: "adds od node (\<lambda>ss. \<exists>ws. writes od node ws (target_writes ?t) \<and> ss = ws @ [store_step node])
      (pb_store \<circ> plan_writes cfg)"
    by (rule adds_comp [OF w s]) blast
  have wsr: "adds od node (\<lambda>ss. \<exists>ws. writes od node ws (target_writes ?t) \<and>
      ss = ws @ [store_step node] @ [reset_step node]) (pb_reset_and_wait \<circ> (pb_store \<circ> plan_writes cfg))"
    by (rule adds_comp [OF ws r]) auto
  show ?thesis
    unfolding sdo_part_def
  proof (rule adds_comp [OF wsr plan_verifies_adds])
    fix xs ys assume "\<exists>ws. writes od node ws (target_writes ?t) \<and> xs = ws @ [store_step node] @ [reset_step node]"
      and v: "verifies od node ys (target_values ?t)"
    then obtain ws where ws: "writes od node ws (target_writes ?t)" "xs = ws @ [store_step node] @ [reset_step node]"
      by blast
    from sdo_part_applies [OF ws(1) v target_values_written read key acc(2,3) assms(2,3)] ws(2)
    show "applies od node (target_values ?t) (xs @ ys)" by simp
  qed
qed

lemma nothing_written:
  assumes "\<not> plan_any_write cfg"
  shows "plan_writes cfg b = b" "target_values (rc_target cfg) = []"
  using assms by (simp_all add: plan_any_write_def Let_def cobids_any_def plan_writes_def if_asked_def
      target_values_def opt_item_def)

definition new_node :: "reconfig_config \<Rightarrow> byte option" where
  "new_node cfg = (if changing_node cfg then tg_nodeId (rc_target cfg) else None)"

definition new_rate :: "reconfig_config \<Rightarrow> lss_bitrate option" where
  "new_rate cfg = (if changing_bitrate cfg
     then lss_bitrate_from_kbps (the (tg_bitrateKbps (rc_target cfg))) else None)"

lemma pb_push_fields [simp]:
  "pb_errors (pb_push st b) = pb_errors b" "pb_od (pb_push st b) = pb_od b" "pb_nodeId (pb_push st b) = pb_nodeId b"
  "pb_plan (pb_push st b) = (pb_plan b)\<lparr>pl_steps := pl_steps (pb_plan b) @ [st]\<rparr>"
  by (simp_all add: pb_push_def)

lemma pb_lss_steps:
  "pb_lss_enter b = pb_push lss_enter_step b" "pb_lss_node_id x b = pb_push (lss_node_step x) b"
  "pb_lss_bitrate r b = pb_push (lss_rate_step r) b" "pb_lss_store b = pb_push lss_store_step b"
  "pb_lss_exit b = pb_push lss_exit_step b" "pb_nmt c b = pb_push (nmt_step c (pb_nodeId b)) b"
  "pb_readdress n kbps b = (pb_push (readdress_step n kbps) b)\<lparr>pb_nodeId := n\<rparr>"
  "pb_wait_for_bootup b = pb_push (bootup_step (pb_nodeId b)) b"
  "width_of (pb_od b) i s = Inr w \<Longrightarrow> pb_verify i s v b = pb_push (verify_step (pb_nodeId b) i s v w) b"
  by (simp_all add: pb_lss_enter_def lss_enter_step_def pb_lss_node_id_def lss_node_step_def
      pb_lss_bitrate_def lss_rate_step_def pb_lss_store_def lss_store_step_def pb_lss_exit_def lss_exit_step_def
      pb_nmt_def nmt_step_def pb_readdress_def readdress_step_def pb_wait_for_bootup_def bootup_step_def
      pb_verify_def verify_step_def)

text \<open>The checks of the LSS part, which add problems only, and the steps after them.\<close>

definition lss_checks :: "reconfig_config \<Rightarrow> plan_builder \<Rightarrow> lss_bitrate option \<times> plan_builder" where
  "lss_checks cfg b =
     (let (rate, b) = (if changing_bitrate cfg then check_rate (the (tg_bitrateKbps (rc_target cfg)))
            (b\<lparr>pb_plan := (pb_plan b)\<lparr>touchesLss := True\<rparr>\<rparr>)
          else (None, b\<lparr>pb_plan := (pb_plan b)\<lparr>touchesLss := True\<rparr>\<rparr>))
      in (rate, if \<not> lssSupported (pb_od b) then pb_error LssUnsupported b else b))"

definition lss_pushes :: "reconfig_config \<Rightarrow> lss_bitrate option \<Rightarrow> plan_builder \<Rightarrow> plan_builder" where
  "lss_pushes cfg rate b =
     (let b = pb_lss_enter b;
          b = (if changing_node cfg then pb_lss_node_id (the (tg_nodeId (rc_target cfg))) b else b);
          b = (case rate of Some r \<Rightarrow> pb_lss_bitrate r b | None \<Rightarrow> b);
          b = pb_nmt ResetNode (pb_lss_exit (pb_lss_store b));
          b = pb_wait_for_bootup (pb_readdress (endNodeId (pb_plan b)) (endBitrateKbps (pb_plan b)) b)
      in pb_verify 0x1018 1 0x0307 b)"

lemma plan_lss_split: "plan_lss cfg b = (case lss_checks cfg b of (rate, b) \<Rightarrow> lss_pushes cfg rate b)"
  by (simp add: plan_lss_def lss_checks_def lss_pushes_def Let_def split: prod.split)

lemma lss_checks_result:
  assumes "lss_checks cfg b = (rate, b')"
  shows "pb_od b' = pb_od b \<and> pb_nodeId b' = pb_nodeId b \<and> pb_plan b' = (pb_plan b)\<lparr>touchesLss := True\<rparr> \<and>
    rate = new_rate cfg \<and> (pb_errors b' = [] \<longrightarrow> pb_errors b = [] \<and> (changing_bitrate cfg \<longrightarrow> rate \<noteq> None) \<and>
      (\<forall>r. rate = Some r \<longrightarrow> supportedBitrates (pb_od b) (lss_bitrate_to_kbps r) \<noteq> Some False))"
proof (cases "changing_bitrate cfg")
  case False
  with assms show ?thesis by (auto simp: lss_checks_def new_rate_def pb_error_def split: if_splits)
next
  case True
  then obtain kbps where kbps: "tg_bitrateKbps (rc_target cfg) = Some kbps" by (auto simp: changing_bitrate_def)
  show ?thesis
  proof (cases "lss_bitrate_from_kbps kbps")
    case None
    with assms True kbps show ?thesis
      by (auto simp: lss_checks_def check_rate_def new_rate_def pb_error_def split: if_splits)
  next
    case (Some r)
    then have r: "kbps = lss_bitrate_to_kbps r" "lss_bitrate_from_kbps (lss_bitrate_to_kbps r) = Some r"
      using lss_bitrate_roundtrip by simp_all
    with assms True kbps show ?thesis
      by (auto simp: r(2) lss_checks_def check_rate_def new_rate_def pb_error_def split: if_splits)
  qed
qed

lemma lss_pushes_result:
  assumes "pb_nodeId b = node" "width_of (pb_od b) 0x1018 1 = Inr 4"
  shows "pb_errors (lss_pushes cfg rate b) = pb_errors b"
    "pb_plan (lss_pushes cfg rate b) = (pb_plan b)\<lparr>pl_steps := pl_steps (pb_plan b) @
      lss_steps node (new_node cfg) rate (endNodeId (pb_plan b)) (endBitrateKbps (pb_plan b)) 4\<rparr>"
proof -
  have "tg_nodeId (rc_target cfg) \<noteq> None" if "changing_node cfg" using that by (simp add: changing_node_def)
  then show "pb_errors (lss_pushes cfg rate b) = pb_errors b"
    "pb_plan (lss_pushes cfg rate b) = (pb_plan b)\<lparr>pl_steps := pl_steps (pb_plan b) @
      lss_steps node (new_node cfg) rate (endNodeId (pb_plan b)) (endBitrateKbps (pb_plan b)) 4\<rparr>"
    using assms by (cases "changing_node cfg"; cases rate;
      auto simp: lss_pushes_def Let_def pb_lss_steps lss_steps_def new_node_def)+
qed

lemma plan_lss_steps:
  assumes "pb_errors (plan_lss cfg b) = []" "width_of (pb_od b) 0x1018 1 = Inr 4"
  shows "pb_errors b = [] \<and> (changing_bitrate cfg \<longrightarrow> new_rate cfg \<noteq> None) \<and>
    (\<forall>r. new_rate cfg = Some r \<longrightarrow> supportedBitrates (pb_od b) (lss_bitrate_to_kbps r) \<noteq> Some False) \<and>
    pb_plan (plan_lss cfg b) = (pb_plan b)\<lparr>pl_steps := pl_steps (pb_plan b) @
      lss_steps (pb_nodeId b) (new_node cfg) (new_rate cfg) (endNodeId (pb_plan b)) (endBitrateKbps (pb_plan b)) 4,
      touchesLss := True\<rparr>"
proof -
  obtain rate b' where c: "lss_checks cfg b = (rate, b')" by fastforce
  note r = lss_checks_result [OF c]
  have w: "width_of (pb_od b') 0x1018 1 = Inr 4" using r assms(2) by simp
  note p = lss_pushes_result [OF refl w, of cfg rate]
  show ?thesis using assms(1) r p c by (auto simp: plan_lss_split)
qed


section \<open>The whole run\<close>

definition address_changes :: "reconfig_config \<Rightarrow> bool" where
  "address_changes cfg \<longleftrightarrow> changing_node cfg \<or> changing_bitrate cfg"

lemma grows_result: "grows P b b' \<Longrightarrow> pb_errors b' = [] \<Longrightarrow> \<exists>ss. P ss \<and> pb_errors b = [] \<and>
    pb_plan b' = (pb_plan b)\<lparr>pl_steps := pl_steps (pb_plan b) @ ss\<rparr> \<and> pb_od b' = pb_od b \<and> pb_nodeId b' = pb_nodeId b"
  by (auto simp: grows_def)

lemma build_plan_first:
  assumes suits: "eds_suits od (rc_target cfg)" and node: "1 \<le> ca_nodeId (rc_current cfg)" "ca_nodeId (rc_current cfg) \<le> 127"
    and ok: "pb_errors b1 = []" "b1 = (if plan_any_write cfg then sdo_part cfg (start_plan cfg od []) else start_plan cfg od [])"
  shows "\<exists>ss. applies od (ca_nodeId (rc_current cfg)) (target_values (rc_target cfg)) ss \<and>
    pb_plan b1 = (pb_plan (start_plan cfg od []))\<lparr>pl_steps := ss\<rparr> \<and> pb_od b1 = od \<and>
    pb_nodeId b1 = ca_nodeId (rc_current cfg)"
proof (cases "plan_any_write cfg")
  case True
  let ?node = "ca_nodeId (rc_current cfg)" and ?b = "start_plan cfg od []"
  have b: "pb_od ?b = od" "pb_nodeId ?b = ?node" "pl_steps (pb_plan ?b) = []"
    by (simp_all add: start_plan_def empty_plan_def)
  have "grows (applies od ?node (target_values (rc_target cfg))) ?b (sdo_part cfg ?b)"
    using sdo_part_adds [OF suits node] b by (simp add: adds_def)
  from grows_result [OF this] ok True b show ?thesis by auto
next
  case False
  then show ?thesis
    using ok(2) nothing_written(2) [OF False] goes_Nil
    by (intro exI [of _ "[]"]) (auto simp: applies_def configured_def start_plan_def empty_plan_def)
qed

lemma build_plan_parts:
  assumes p: "build_plan cfg od [] = Inr p" and save: "rc_store cfg" "rc_resetAfter cfg"
    and suits: "eds_suits od (rc_target cfg)" and node: "1 \<le> ca_nodeId (rc_current cfg)" "ca_nodeId (rc_current cfg) \<le> 127"
  shows "\<exists>ss. applies od (ca_nodeId (rc_current cfg)) (target_values (rc_target cfg)) ss \<and>
    pl_steps p = ss @ (if address_changes cfg then lss_steps (ca_nodeId (rc_current cfg)) (new_node cfg)
      (new_rate cfg) (endNodeId p) (endBitrateKbps p) 4 else []) \<and>
    startNodeId p = ca_nodeId (rc_current cfg) \<and>
    endNodeId p = (case tg_nodeId (rc_target cfg) of Some n \<Rightarrow> n | None \<Rightarrow> ca_nodeId (rc_current cfg)) \<and>
    endBitrateKbps p = (case tg_bitrateKbps (rc_target cfg) of Some k \<Rightarrow> k | None \<Rightarrow> ca_bitrateKbps (rc_current cfg)) \<and>
    (changing_bitrate cfg \<longrightarrow> new_rate cfg \<noteq> None) \<and>
    (\<forall>r. new_rate cfg = Some r \<longrightarrow> supportedBitrates od (lss_bitrate_to_kbps r) \<noteq> Some False)"
proof -
  define b1 where "b1 = (if plan_any_write cfg then sdo_part cfg (start_plan cfg od []) else start_plan cfg od [])"
  define b2 where "b2 = (if address_changes cfg then plan_lss cfg b1 else b1)"
  have "build_plan cfg od [] = (let b = (if pl_steps (pb_plan b2) = [] then pb_error NothingAsked b2 else b2)
      in if pb_errors b \<noteq> [] then Inl (pb_errors b) else Inr (pb_plan b))"
    using save by (simp add: build_plan_def b2_def b1_def sdo_part_def address_changes_def nothing_written)
  with p have b2: "pb_errors b2 = []" "p = pb_plan b2"
    by (auto simp: Let_def pb_error_def split: if_splits)
  have w: "width_of od 0x1018 1 = Inr 4" using suits by (simp add: eds_suits_def vendor_known_def)
  have "pb_od b1 = od"
    using sdo_part_adds [OF suits node]
    by (auto simp: b1_def adds_def grows_def start_plan_def)
  with w have lss: "address_changes cfg \<Longrightarrow> pb_errors b1 = [] \<and> (changing_bitrate cfg \<longrightarrow> new_rate cfg \<noteq> None) \<and>
    (\<forall>r. new_rate cfg = Some r \<longrightarrow> supportedBitrates od (lss_bitrate_to_kbps r) \<noteq> Some False) \<and>
    pb_plan b2 = (pb_plan b1)\<lparr>pl_steps := pl_steps (pb_plan b1) @
      lss_steps (pb_nodeId b1) (new_node cfg) (new_rate cfg) (endNodeId (pb_plan b1)) (endBitrateKbps (pb_plan b1)) 4,
      touchesLss := True\<rparr>"
    using plan_lss_steps [of cfg b1] b2(1) by (simp add: b2_def)
  have "pb_errors b1 = []" using lss b2(1) by (cases "address_changes cfg") (auto simp: b2_def)
  from build_plan_first [OF suits node this b1_def] obtain ss where
    ss: "applies od (ca_nodeId (rc_current cfg)) (target_values (rc_target cfg)) ss"
      "pb_plan b1 = (pb_plan (start_plan cfg od []))\<lparr>pl_steps := ss\<rparr>" "pb_nodeId b1 = ca_nodeId (rc_current cfg)"
    by blast
  show ?thesis
  proof (cases "address_changes cfg")
    case True
    with lss ss b2(2) show ?thesis by (intro exI [of _ ss]) (simp add: start_plan_def)
  next
    case False
    with ss b2(2) show ?thesis
      by (intro exI [of _ ss]) (auto simp: b2_def start_plan_def address_changes_def new_rate_def)
  qed
qed


lemma lss_rate_back: "lss_bitrate_from_kbps (lss_bitrate_to_kbps r) = Some r"
  by (simp add: lss_bitrate_roundtrip)

lemma byte_positive: "1 \<le> (n :: byte) \<longleftrightarrow> n \<noteq> 0"
  by (simp add: word_le_nat_alt Suc_le_eq unat_gt_0)

lemma stub_ready:
  assumes "lss_bitrate_from_kbps (ca_bitrateKbps (rc_current cfg)) = Some r"
  shows "tool_ready 0 (start_services node True (make_stub_transport od cfg node (ca_bitrateKbps (rc_current cfg)) w))"
    "bus_device (start_services node True (make_stub_transport od cfg node (ca_bitrateKbps (rc_current cfg)) w)) =
      new_stub_device od node r"
  using assms [unfolded lss_bitrate_roundtrip]
  by (simp_all add: lss_rate_back tool_ready_def bus_ready_def lss_ready_def start_services_def make_stub_transport_def
      bus_device_def new_stub_device_def)

lemma identity_read:
  assumes "tool_ready k w" "settled od node (bus_device w)" "vendor_known od"
  shows "\<exists>w'. upload_uint sdo_transfer node 0x1018 1 w = (Inr (0x307 :: 32 word), w') \<and> tool_ready k w' \<and>
    bus_device w' = bus_device w \<and> bw_sent w' = bw_sent w @ [make_sdo_upload_frame node 0x1018 1]"
proof -
  have d: "eds_device od node (bus_device w)" "dev_value (bus_device w) (0x1018, 1) = Some 0x307"
    using assms(2) by (simp_all add: settled_def identified_def)
  have v: "width_of od 0x1018 1 = Inr 4" "readable od (0x1018, 1)" using assms(3) by (simp_all add: vendor_known_def)
  from eds_read [OF d(1) v(1) v(2)] d(2) obtain bs where
    bs: "dict_read (bus_device w) 0x1018 1 = Inr bs" "to_uint bs = 0x307" "length bs = 4" by auto
  then have "bs \<noteq> []" "length bs \<le> 4" by auto
  from tool_link.upload_expedited [OF assms(1) bs(1) this] obtain w' where w':
    "sdo_upload sdo_transfer node 0x1018 1 w = (Inr \<lparr>sdo_bytes = bs, sdo_expedited = True\<rparr>, w')"
    "bus_device w' = bus_device w" "tool_ready k w'" using d(1) by (auto simp: eds_device_def)
  with upload_sent [OF w'(1)] bs(2) show ?thesis
    by (intro exI [of _ w']) (simp add: upload_uint_def as_uint_def)
qed

text \<open>After the identity check the run is the plan's steps on a ready bus.\<close>

lemma run_starts:
  assumes "lss_bitrate_from_kbps (ca_bitrateKbps (rc_current cfg)) = Some r" "eds_suits od t"
  shows "\<exists>w1. tool_ready 0 w1 \<and> bus_device w1 = new_stub_device od (ca_nodeId (rc_current cfg)) r \<and>
    bw_sent w1 = [make_sdo_upload_frame (ca_nodeId (rc_current cfg)) 0x1018 1] \<and>
    (\<forall>p. startNodeId p = ca_nodeId (rc_current cfg) \<longrightarrow>
       exec_plan p True (make_stub_transport od cfg (ca_nodeId (rc_current cfg)) (ca_bitrateKbps (rc_current cfg)) w) =
       exec_steps (pl_steps p) w1)"
proof -
  let ?node = "ca_nodeId (rc_current cfg)"
  let ?w = "start_services ?node True (make_stub_transport od cfg ?node (ca_bitrateKbps (rc_current cfg)) w)"
  have v: "vendor_known od" using assms(2) by (simp add: eds_suits_def)
  note ready = stub_ready [OF assms(1), of ?node od w]
  have d: "settled od ?node (bus_device ?w)" unfolding ready(2) by (rule new_device_settled [OF v])
  from identity_read [OF ready(1) d v] obtain w1 where w1:
    "upload_uint sdo_transfer ?node 0x1018 1 ?w = (Inr (0x307 :: 32 word), w1)" "tool_ready 0 w1"
    "bus_device w1 = bus_device ?w" "bw_sent w1 = [make_sdo_upload_frame ?node 0x1018 1]"
    by (auto simp: start_services_def make_stub_transport_def)
  with ready(2) show ?thesis by (intro exI [of _ w1]) (simp add: exec_plan_def)
qed

lemma carries_run: "carries ss w w' \<Longrightarrow> exec_steps ss w = (kOk, w')"
  unfolding carries_def by (elim conjE allE [of _ "[]"]) simp

lemma lss_rates:
  assumes "lss_bitrate_from_kbps (ca_bitrateKbps (rc_current cfg)) = Some r" "changing_bitrate cfg \<longrightarrow> new_rate cfg \<noteq> None"
  shows "(case tg_bitrateKbps (rc_target cfg) of Some k \<Rightarrow> k | None \<Rightarrow> ca_bitrateKbps (rc_current cfg)) =
    lss_bitrate_to_kbps (case new_rate cfg of Some x \<Rightarrow> x | None \<Rightarrow> r)"
proof (cases "changing_bitrate cfg")
  case True
  then obtain kbps where kbps: "tg_bitrateKbps (rc_target cfg) = Some kbps" by (auto simp: changing_bitrate_def)
  with assms(2) True obtain x where "lss_bitrate_from_kbps kbps = Some x" by (auto simp: new_rate_def)
  then have "kbps = lss_bitrate_to_kbps x" by (simp add: lss_bitrate_roundtrip)
  with True kbps show ?thesis by (simp add: new_rate_def lss_rate_back)
next
  case False
  have "ca_bitrateKbps (rc_current cfg) = lss_bitrate_to_kbps r" using assms(1) by (simp add: lss_bitrate_roundtrip)
  with False show ?thesis by (auto simp: new_rate_def changing_bitrate_def split: option.split)
qed

text \<open>The plan, applied to a settled device on a ready bus.\<close>

lemma plan_goes:
  assumes p: "build_plan cfg od [] = Inr p" and save: "rc_store cfg" "rc_resetAfter cfg"
    and suits: "eds_suits od (rc_target cfg)" and node: "1 \<le> ca_nodeId (rc_current cfg)" "ca_nodeId (rc_current cfg) \<le> 127"
    and target: "\<forall>n. tg_nodeId (rc_target cfg) = Some n \<longrightarrow> 1 \<le> n \<and> n \<le> 127"
    and r: "lss_bitrate_from_kbps (ca_bitrateKbps (rc_current cfg)) = Some r"
    and d: "settled od (ca_nodeId (rc_current cfg)) d" "dev_bitrate d = r"
  shows "\<exists>d' k'. goes 0 d (pl_steps p) k' d' \<and> nodeId d' = endNodeId p \<and>
    lss_bitrate_to_kbps (dev_bitrate d') = endBitrateKbps p \<and> configured (target_values (rc_target cfg)) d'"
proof -
  let ?node = "ca_nodeId (rc_current cfg)"
  have v: "vendor_known od" using suits by (simp add: eds_suits_def)
  from build_plan_parts [OF p save suits node] obtain ss where
    ss: "applies od ?node (target_values (rc_target cfg)) ss"
    and steps: "pl_steps p = ss @ (if address_changes cfg then lss_steps ?node (new_node cfg)
      (new_rate cfg) (endNodeId p) (endBitrateKbps p) 4 else [])"
    and ends: "endNodeId p = (case tg_nodeId (rc_target cfg) of Some n \<Rightarrow> n | None \<Rightarrow> ?node)"
      "endBitrateKbps p = (case tg_bitrateKbps (rc_target cfg) of Some k \<Rightarrow> k | None \<Rightarrow> ca_bitrateKbps (rc_current cfg))"
    and rate: "changing_bitrate cfg \<longrightarrow> new_rate cfg \<noteq> None"
      "\<forall>r. new_rate cfg = Some r \<longrightarrow> supportedBitrates od (lss_bitrate_to_kbps r) \<noteq> Some False"
    by blast
  from ss d obtain d1 k1 where d1: "k1 \<le> 1" "goes 0 d ss k1 d1" "settled od ?node d1" "dev_bitrate d1 = r"
    "configured (target_values (rc_target cfg)) d1" unfolding applies_def by blast
  have kbps: "endBitrateKbps p = lss_bitrate_to_kbps (case new_rate cfg of Some x \<Rightarrow> x | None \<Rightarrow> dev_bitrate d1)"
    unfolding ends(2) d1(4) by (rule lss_rates [OF r rate(1)])
  have n: "endNodeId p = (case new_node cfg of Some x \<Rightarrow> x | None \<Rightarrow> ?node)"
    using ends(1) by (auto simp: new_node_def changing_node_def split: option.split)
  show ?thesis
  proof (cases "address_changes cfg")
    case True
    let ?d = "moved_device d1 (new_node cfg) (new_rate cfg)"
    have "goes k1 d1 (lss_steps ?node (new_node cfg) (new_rate cfg) (endNodeId p) (endBitrateKbps p) 4) (Suc k1) ?d"
      by (rule lss_part_goes [OF d1(3) v _ node n _ kbps d1(1)])
         (use target rate(2) in \<open>auto simp: new_node_def split: if_splits\<close>)
    from goes_append [OF d1(2) this] steps True have "goes 0 d (pl_steps p) (Suc k1) ?d" by simp
    moreover have "nodeId ?d = endNodeId p" "lss_bitrate_to_kbps (dev_bitrate ?d) = endBitrateKbps p"
      using n kbps d1(3) by (simp_all add: moved_device_def reset_device_def dev_reset_def Let_def settled_def
          eds_device_def split: option.split)
    ultimately show ?thesis using moved_configured [OF d1(3,5)] by blast
  next
    case False
    with steps d1 n kbps show ?thesis
      by (intro exI [of _ d1] exI [of _ k1])
         (auto simp: address_changes_def new_node_def new_rate_def settled_def eds_device_def)
  qed
qed

lemma finish_config_checks:
  assumes "finish_config raw problems = Inr cfg"
  shows "rc_current cfg = rc_current raw" "rc_store cfg = rc_store raw" "rc_resetAfter cfg = rc_resetAfter raw"
    "tg_nodeId (rc_target cfg) = tg_nodeId (rc_target raw)"
    "\<forall>n. tg_nodeId (rc_target cfg) = Some n \<longrightarrow> 1 \<le> n \<and> n \<le> 127"
  using assms by (auto simp: finish_config_def Let_def not_less byte_positive split: if_splits option.splits prod.splits)


text \<open>
  C5.  The reconfiguration tool does what it was asked.  Take a configuration that the checks
  accept, that stores and resets, for a keypad that is where the configuration says it is and
  whose EDS suits the request.  If a plan can be built, its execution succeeds; the keypad is then at
  the node ID and bit rate the plan announces, every value asked for is live in its dictionary
  and in its non-volatile memory, and the frames sent are the identity check followed by exactly
  the frames the dry run shows, in their order.
\<close>

theorem keypad_reconfigured:
  assumes "finish_config raw [] = Inr cfg" "build_plan cfg od [] = Inr p"
    and "rc_store cfg" "rc_resetAfter cfg" "eds_suits od (rc_target cfg)"
    and "1 \<le> ca_nodeId (rc_current cfg)" "ca_nodeId (rc_current cfg) \<le> 127"
    and "lss_bitrate_from_kbps (ca_bitrateKbps (rc_current cfg)) = Some r"
  shows "\<exists>w'. exec_plan p True (make_stub_transport od cfg (ca_nodeId (rc_current cfg))
        (ca_bitrateKbps (rc_current cfg)) w) = (kOk, w') \<and>
    nodeId (bus_device w') = endNodeId p \<and> lss_bitrate_to_kbps (dev_bitrate (bus_device w')) = endBitrateKbps p \<and>
    (\<forall>(key, v)\<in>set (target_values (rc_target cfg)).
       dev_value (bus_device w') key = Some v \<and> stored_value (bus_device w') key = Some v) \<and>
    bw_sent w' = make_sdo_upload_frame (startNodeId p) 0x1018 1 # concat (map st_frames (pl_steps p))"
proof -
  let ?node = "ca_nodeId (rc_current cfg)"
  from run_starts [OF assms(8,5), of w] obtain w1 where w1: "tool_ready 0 w1" "bus_device w1 = new_stub_device od ?node r"
    "bw_sent w1 = [make_sdo_upload_frame ?node 0x1018 1]"
    "\<forall>p. startNodeId p = ?node \<longrightarrow> exec_plan p True (make_stub_transport od cfg ?node
       (ca_bitrateKbps (rc_current cfg)) w) = exec_steps (pl_steps p) w1" by blast
  have d: "settled od ?node (bus_device w1)" "dev_bitrate (bus_device w1) = r"
    unfolding w1(2) using new_device_settled assms(5) by (simp_all add: eds_suits_def new_stub_device_def)
  from plan_goes [OF assms(2-7) finish_config_checks(5) [OF assms(1)] assms(8) d] obtain d' k' where
    d': "goes 0 (bus_device w1) (pl_steps p) k' d'" "nodeId d' = endNodeId p"
      "lss_bitrate_to_kbps (dev_bitrate d') = endBitrateKbps p" "configured (target_values (rc_target cfg)) d'" by blast
  from d'(1) w1(1) obtain w2 where w2: "carries (pl_steps p) w1 w2" "bus_device w2 = d'"
    unfolding goes_def by blast
  have start: "startNodeId p = ?node" using build_plan_parts [OF assms(2-7)] by blast
  then have "exec_plan p True (make_stub_transport od cfg ?node (ca_bitrateKbps (rc_current cfg)) w) = (kOk, w2)"
    using w1(4) carries_run [OF w2(1)] by simp
  then show ?thesis
    using w2 d'(2-4) w1(3) start by (auto simp: carries_def configured_def list_all_iff)
qed

text \<open>A file with the two MoTeC objects, and the request to make the keypad compatible, move it to
  node 11 and to 500 kbit/s.\<close>

definition keypad_sub :: "data_type \<Rightarrow> access_type \<Rightarrow> u64 \<Rightarrow> sub_object" where
  "keypad_sub t a v = \<lparr>subIndex = 0, parameterName = '''', sub_objectCode = OC_Var, dataType = t,
     lowLimit = None, highLimit = None, access = a, defaultValue = Some (VUnsigned v),
     pdoMappable = False, sub_objFlags = 0\<rparr>"

definition keypad_object :: "u16 \<Rightarrow> (byte \<Rightarrow> sub_object option) \<Rightarrow> eds_object" where
  "keypad_object i ss = \<lparr>obj_index = i, obj_parameterName = '''', obj_objectCode = OC_Record,
     declaredSubNumber = None, obj_objFlags = 0, subs = ss\<rparr>"

definition keypad_od :: object_dictionary where
  "keypad_od = \<lparr>lssSupported = True, supportedBitrates = (\<lambda>_. None),
     objects = [0x1010 \<mapsto> keypad_object 0x1010 [1 \<mapsto> keypad_sub Unsigned32 RW 1],
                0x1018 \<mapsto> keypad_object 0x1018 [1 \<mapsto> keypad_sub Unsigned32 RO 0x307],
                0x1800 \<mapsto> keypad_object 0x1800 [2 \<mapsto> keypad_sub Unsigned8 RW 255],
                0x2010 \<mapsto> keypad_object 0x2010 [2 \<mapsto> keypad_sub Unsigned8 RW 63]]\<rparr>"

definition keypad_request :: reconfig_config where
  "keypad_request = \<lparr>rc_current = \<lparr>ca_nodeId = 10, ca_bitrateKbps = 250\<rparr>,
     rc_target = \<lparr>tg_nodeId = Some 11, tg_bitrateKbps = Some 500,
       tg_cobIds = \<lparr>cob_buttons = None, cob_indicators = None, cob_brightness = None\<rparr>,
       tg_heartbeatMs = None, tg_eventTimerMs = None, tg_inhibitTimeUs = None, tg_transmissionType = None,
       tg_indicatorScalar = None, tg_backlightScalar = None, tg_motecCompatible = True\<rparr>,
     rc_store = True, rc_resetAfter = True\<rparr>"

definition keypad_config :: reconfig_config where
  "keypad_config = keypad_request\<lparr>rc_target := (rc_target keypad_request)\<lparr>tg_transmissionType := Some 0xFE,
     tg_backlightScalar := Some 0xFE\<rparr>\<rparr>"

lemma keypad_request_config: "finish_config keypad_request [] = Inr keypad_config"
  by (simp add: finish_config_def keypad_request_def keypad_config_def check_cobid_def kMarker_def)

lemmas keypad_od_defs = keypad_od_def od_get_sub_def od_get_def keypad_object_def keypad_sub_def

lemma keypad_suits: "eds_suits keypad_od (rc_target keypad_config)"
  by (simp add: eds_suits_def eds_accepts_def keypad_config_def keypad_request_def cobid_accepted_def
      asked_fits_def fits_def width_of_def check_limits_def store_accepted_def vendor_known_def readable_def
      target_values_def opt_item_def od_defaultValue_def keypad_od_defs)

lemma pb_write_push: "width_of (pb_od b) i s = Inr w \<Longrightarrow> check_limits (pb_od b) i s v = None \<Longrightarrow>
    pb_write i s v b = pb_push (sdo_write_step (pb_nodeId b) i s v w) b"
  by (simp add: pb_write_def)

lemma pb_store_push: "pb_store b = pb_push (store_step (pb_nodeId b)) b"
  by (simp add: pb_store_def store_step_def)

lemma pb_reset_push: "pb_reset_and_wait b = pb_push (reset_step (pb_nodeId b)) b"
  by (simp add: pb_reset_and_wait_def reset_step_def)

lemma keypad_lss_fine:
  assumes "pb_errors b = []" "pb_od b = keypad_od" "changing_bitrate cfg" "tg_bitrateKbps (rc_target cfg) = Some 500"
  shows "pb_errors (plan_lss cfg b) = []" "pl_steps (pb_plan (plan_lss cfg b)) \<noteq> []"
proof -
  have od: "width_of keypad_od 0x1018 1 = Inr 4" "supportedBitrates keypad_od 500 = None" "lssSupported keypad_od"
    by (simp_all add: width_of_def keypad_od_defs)
  have "lss_bitrate_from_kbps 500 = Some Rate500k" by (simp add: lss_bitrate_from_kbps_def)
  then have "snd (lss_checks cfg b) = b\<lparr>pb_plan := (pb_plan b)\<lparr>touchesLss := True\<rparr>\<rparr>"
    using assms od by (simp add: lss_checks_def check_rate_def)
  then show "pb_errors (plan_lss cfg b) = []" "pl_steps (pb_plan (plan_lss cfg b)) \<noteq> []"
    using lss_pushes_result [OF refl, of "snd (lss_checks cfg b)" cfg "fst (lss_checks cfg b)"] assms(1,2) od
    by (simp_all add: plan_lss_split case_prod_unfold lss_steps_def)
qed

lemma keypad_plan: "\<exists>p. build_plan keypad_config keypad_od [] = Inr p"
proof -
  let ?b = "start_plan keypad_config keypad_od []"
  note config = keypad_config_def keypad_request_def
  have od: "width_of keypad_od 0x1800 2 = Inr 1" "width_of keypad_od 0x2010 2 = Inr 1"
    "check_limits keypad_od 0x1800 2 0xFE = None" "check_limits keypad_od 0x2010 2 0xFE = None"
    by (simp_all add: width_of_def check_limits_def keypad_od_defs)
  have b: "pb_od ?b = keypad_od" "pb_errors ?b = []" by (simp_all add: start_plan_def)
  have any: "plan_any_write keypad_config" "changing_node keypad_config" "changing_bitrate keypad_config"
    by (simp_all add: plan_any_write_def changing_node_def changing_bitrate_def config)
  have asked: "tg_transmissionType (rc_target keypad_config) = Some 0xFE"
    "tg_backlightScalar (rc_target keypad_config) = Some 0xFE" "tg_heartbeatMs (rc_target keypad_config) = None"
    "tg_eventTimerMs (rc_target keypad_config) = None" "tg_inhibitTimeUs (rc_target keypad_config) = None"
    "tg_indicatorScalar (rc_target keypad_config) = None" "cob_buttons (tg_cobIds (rc_target keypad_config)) = None"
    "cob_indicators (tg_cobIds (rc_target keypad_config)) = None"
    "cob_brightness (tg_cobIds (rc_target keypad_config)) = None"
    "tg_bitrateKbps (rc_target keypad_config) = Some 500" by (simp_all add: config)
  define b1 where "b1 = sdo_part keypad_config ?b"
  have b1: "pb_errors b1 = []" "pb_od b1 = keypad_od"
    by (simp_all add: b1_def sdo_part_def plan_writes_def plan_verifies_def any if_asked_def asked pb_lss_steps
        pb_write_push pb_store_push pb_reset_push od b Let_def)
  note b2 = keypad_lss_fine [OF b1 any(3) asked(10)]
  have "rc_store keypad_config" "rc_resetAfter keypad_config" by (simp_all add: config)
  with any b2 show ?thesis by (simp add: build_plan_def b1_def sdo_part_def)
qed

theorem keypad_reconfigured_witness:
  "\<exists>p w'. build_plan keypad_config keypad_od [] = Inr p \<and>
    exec_plan p True (make_stub_transport keypad_od keypad_config 10 250 example_bus) = (kOk, w') \<and>
    nodeId (bus_device w') = endNodeId p \<and> lss_bitrate_to_kbps (dev_bitrate (bus_device w')) = endBitrateKbps p \<and>
    dev_value (bus_device w') (0x2010, 2) = Some 0xFE"
proof -
  obtain p where p: "build_plan keypad_config keypad_od [] = Inr p" using keypad_plan by blast
  have c: "rc_store keypad_config" "rc_resetAfter keypad_config" "ca_nodeId (rc_current keypad_config) = 10"
    "ca_bitrateKbps (rc_current keypad_config) = 250"
    "((0x2010, 2), 0xFE) \<in> set (target_values (rc_target keypad_config))"
    by (simp_all add: keypad_config_def keypad_request_def target_values_def opt_item_def)
  have r: "lss_bitrate_from_kbps (ca_bitrateKbps (rc_current keypad_config)) = Some Rate250k"
    by (simp add: c lss_bitrate_from_kbps_def)
  from keypad_reconfigured [OF keypad_request_config p c(1,2) keypad_suits _ _ r, of example_bus] c(3-5) p
  show ?thesis by fastforce
qed


section \<open>When it cannot succeed\<close>

lemma deaf_elsewhere:
  assumes "nodeId d \<noteq> node \<or> lss_bitrate_to_kbps (dev_bitrate d) \<noteq> kbps"
  shows "dev_handle kbps (make_sdo_upload_frame node i s) d = ([], d)"
proof (cases "nodeId d = node")
  case True
  with assms show ?thesis by (simp add: dev_handle_def)
next
  case False
  have id: "frame_id (make_sdo_upload_frame node i s) = 0x600 + ucast node"
    by (simp add: make_sdo_upload_frame_def frame_simps)
  have "(0x600 + ucast node :: u32) \<noteq> 0x600 + ucast (nodeId d)"
  proof
    assume "(0x600 + ucast node :: u32) = 0x600 + ucast (nodeId d)"
    then have "uint (0x600 + ucast node :: u32) = uint (0x600 + ucast (nodeId d) :: u32)" by simp
    with False show False using cobid_uint [of "0x600" node] cobid_uint [of "0x600" "nodeId d"]
      by (simp add: word_uint_eq_iff)
  qed
  then show ?thesis
    using cobid_mask [of "0x600" node] sdo_cobid_distinct [of node] id
    by (simp add: dev_handle_def Let_def)
qed

text \<open>
  A keypad that is not where the configuration says it is, at another node ID or another bit
  rate, is reported as not found, whatever the plan: nothing but the identity check is sent and
  the keypad is untouched.
\<close>

theorem keypad_not_found:
  assumes "stubNode \<noteq> startNodeId p \<or>
    lss_bitrate_to_kbps (case lss_bitrate_from_kbps stubKbps of Some r \<Rightarrow> r | None \<Rightarrow> Rate250k) \<noteq>
      ca_bitrateKbps (rc_current cfg)"
  shows "\<exists>w'. exec_plan p single (make_stub_transport od cfg stubNode stubKbps w) = (kKeypadNotFound, w') \<and>
    bw_devices w' = bw_devices (make_stub_transport od cfg stubNode stubKbps w) \<and>
    bw_sent w' = [make_sdo_upload_frame (startNodeId p) 0x1018 1]"
proof -
  let ?w = "start_services (startNodeId p) single (make_stub_transport od cfg stubNode stubKbps w)"
  have "bw_queue ?w = []" "\<forall>d\<in>set (bw_devices ?w). dev_handle (bw_kbps ?w) (make_sdo_upload_frame (startNodeId p) 0x1018 1) d = ([], d)"
    using assms deaf_elsewhere by (auto simp: start_services_def make_stub_transport_def new_stub_device_def)
  from unheard_times_out [OF this] show ?thesis
    by (auto simp: exec_plan_def upload_uint_def) (auto simp: start_services_def make_stub_transport_def)
qed

theorem keypad_not_found_witness:
  "\<exists>w'. exec_plan (empty_plan\<lparr>startNodeId := 10\<rparr>) True (make_stub_transport keypad_od keypad_config 10 500 example_bus) =
      (kKeypadNotFound, w') \<and>
    bw_devices w' = bw_devices (make_stub_transport keypad_od keypad_config 10 500 example_bus) \<and>
    bw_sent w' = [make_sdo_upload_frame 10 0x1018 1]"
  using keypad_not_found [of 10 "empty_plan\<lparr>startNodeId := 10\<rparr>" 500 keypad_config True keypad_od example_bus]
  by (simp add: keypad_config_def keypad_request_def lss_bitrate_from_kbps_def)

text \<open>Without the store, the reset takes every value back to the file's default.\<close>

lemma unsaved_part_stops:
  assumes w: "writes od node ws kvs" and v: "verifies od node vs vals"
    and vals: "list_all (\<lambda>(key, v). readable od key) vals"
    and d: "settled od node d" "dev_values d = seed_from_eds od (nonVolatile d) node" "\<not> holds d vals"
    and node: "1 \<le> node" "node \<le> 127" and ready: "tool_ready 0 w0" "bus_device w0 = d"
  shows "\<exists>w'. exec_steps ((ws @ [reset_step node] @ vs) @ rest) w0 = (kVerificationMismatch, w') \<and>
    dev_value (bus_device w') = dev_value d \<and> nonVolatile (bus_device w') = nonVolatile d"
proof -
  have eds: "eds_device od node d" using d(1) by (simp add: settled_def)
  with w obtain d1 where d1: "goes 0 d ws 0 d1" "eds_device od node d1" "same_setup d d1"
    unfolding writes_def by blast
  define d2 where "d2 = reset_device d1"
  have lss: "storedNodeId d1 = None" "storedBitrate d1 = None" "nodeId d1 = node" "dev_od d1 = od" "nonVolatile d1 = nonVolatile d"
    using d(1) d1(2,3) by (simp_all add: settled_def same_setup_def eds_device_def)
  have d2: "nodeId d2 = node" "dev_bitrate d2 = dev_bitrate d1" "dev_values d2 = dev_values d" "nonVolatile d2 = nonVolatile d"
    using lss d(2) by (simp_all add: d2_def reset_device_def dev_reset_def Let_def)
  have "goes 0 d1 [reset_step node] (Suc 0) d2"
    unfolding d2_def by (rule goes_reset) (use d2 lss node in \<open>simp_all add: d2_def\<close>)
  from goes_append [OF d1(1) this] ready obtain w1 where
    w1: "carries (ws @ [reset_step node]) w0 w1" "tool_ready (Suc 0) w1" "bus_device w1 = d2"
    unfolding goes_def by blast
  have "eds_device od node d2" using reset_eds_device [OF d1(2)] d2(1) by (simp add: d2_def)
  moreover have "\<not> holds d2 vals" using d(3) d2(3) by (simp add: holds_def dev_value_def)
  moreover have "\<forall>(key, x)\<in>set vals. readable od key" using vals by (simp add: list_all_iff)
  ultimately have "stops (Suc 0) d2 vs kVerificationMismatch"
    using v unfolding verifies_def by presburger
  with w1 obtain w2 where "exec_steps (vs @ rest) w1 = (kVerificationMismatch, w2)" "bus_device w2 = d2"
    unfolding stops_def by blast
  moreover have "exec_steps ((ws @ [reset_step node] @ vs) @ rest) w0 = exec_steps (vs @ rest) w1"
    using w1(1) by (simp add: carries_def)
  ultimately show ?thesis using d2(3,4) by (auto simp: dev_value_def)
qed


lemma unsaved_plan_steps:
  assumes p: "build_plan cfg od [] = Inr p" and save: "\<not> rc_store cfg" "rc_resetAfter cfg" "plan_any_write cfg"
    and suits: "eds_suits od (rc_target cfg)"
  shows "\<exists>ws vs rest. pl_steps p = (ws @ [reset_step (ca_nodeId (rc_current cfg))] @ vs) @ rest \<and>
    writes od (ca_nodeId (rc_current cfg)) ws (target_writes (rc_target cfg)) \<and>
    verifies od (ca_nodeId (rc_current cfg)) vs (target_values (rc_target cfg)) \<and>
    startNodeId p = ca_nodeId (rc_current cfg)"
proof -
  let ?node = "ca_nodeId (rc_current cfg)" and ?t = "rc_target cfg" and ?b = "start_plan cfg od []"
  define b1 where "b1 = (plan_verifies cfg \<circ> (pb_reset_and_wait \<circ> plan_writes cfg)) ?b"
  define b2 where "b2 = (if address_changes cfg then plan_lss cfg b1 else b1)"
  have "build_plan cfg od [] = (let b = (if pl_steps (pb_plan b2) = [] then pb_error NothingAsked b2 else b2)
      in if pb_errors b \<noteq> [] then Inl (pb_errors b) else Inr (pb_plan b))"
    using save by (simp add: build_plan_def b2_def b1_def address_changes_def)
  with p have b2: "pb_errors b2 = []" "p = pb_plan b2"
    by (auto simp: Let_def pb_error_def split: if_splits)
  have acc: "eds_accepts od ?t" and w4: "width_of od 0x1018 1 = Inr 4"
    using suits by (simp_all add: eds_suits_def vendor_known_def)
  have r: "adds od ?node (\<lambda>ss. ss = [reset_step ?node]) pb_reset_and_wait"
    by (rule adds_one) (simp add: pb_reset_push)
  have wr: "adds od ?node (\<lambda>ss. \<exists>ws. writes od ?node ws (target_writes ?t) \<and> ss = ws @ [reset_step ?node])
      (pb_reset_and_wait \<circ> plan_writes cfg)"
    by (rule adds_comp [OF plan_writes_adds [OF acc] r]) blast
  have "adds od ?node (\<lambda>ss. \<exists>ws vs. ss = ws @ [reset_step ?node] @ vs \<and> writes od ?node ws (target_writes ?t) \<and>
      verifies od ?node vs (target_values ?t)) (plan_verifies cfg \<circ> (pb_reset_and_wait \<circ> plan_writes cfg))"
    by (rule adds_comp [OF wr plan_verifies_adds], elim exE conjE, intro exI conjI) (simp | assumption)+
  then have g: "grows (\<lambda>ss. \<exists>ws vs. ss = ws @ [reset_step ?node] @ vs \<and> writes od ?node ws (target_writes ?t) \<and>
      verifies od ?node vs (target_values ?t)) ?b b1"
    by (simp add: adds_def b1_def start_plan_def)
  have od: "pb_od b1 = od" using g by (simp add: grows_def start_plan_def)
  have "pb_errors b1 = [] \<and> (\<exists>rest. pl_steps p = pl_steps (pb_plan b1) @ rest \<and> startNodeId p = startNodeId (pb_plan b1))"
  proof (cases "address_changes cfg")
    case True
    with plan_lss_steps [of cfg b1] b2 w4 od show ?thesis by (simp add: b2_def)
  qed (use b2 in \<open>simp add: b2_def\<close>)
  then obtain rest where rest: "pb_errors b1 = []" "pl_steps p = pl_steps (pb_plan b1) @ rest"
    "startNodeId p = startNodeId (pb_plan b1)" by blast
  from grows_result [OF g rest(1)] obtain ss ws vs where
    ss: "pb_plan b1 = (pb_plan ?b)\<lparr>pl_steps := pl_steps (pb_plan ?b) @ ss\<rparr>" "ss = ws @ [reset_step ?node] @ vs"
    "writes od ?node ws (target_writes ?t)" "verifies od ?node vs (target_values ?t)" by blast
  have "pl_steps p = (ws @ [reset_step ?node] @ vs) @ rest" "startNodeId p = ?node"
    using rest(2,3) ss(1,2) by (simp_all add: start_plan_def empty_plan_def)
  with ss(3,4) show ?thesis by blast
qed

text \<open>
  A configuration that turns the store off but leaves the reset on cannot succeed when it
  asks for anything the keypad does not have already: the reset undoes the writes before they are
  read back, the tool reports a verification mismatch, and the keypad's values are what they were.
\<close>

theorem unsaved_plan_fails:
  assumes "build_plan cfg od [] = Inr p" "\<not> rc_store cfg" "rc_resetAfter cfg" "eds_suits od (rc_target cfg)"
    and "1 \<le> ca_nodeId (rc_current cfg)" "ca_nodeId (rc_current cfg) \<le> 127"
    and "lss_bitrate_from_kbps (ca_bitrateKbps (rc_current cfg)) = Some r"
    and "(key, v) \<in> set (target_values (rc_target cfg))"
      "dev_value (new_stub_device od (ca_nodeId (rc_current cfg)) r) key \<noteq> Some v"
  shows "\<exists>w'. exec_plan p True (make_stub_transport od cfg (ca_nodeId (rc_current cfg))
        (ca_bitrateKbps (rc_current cfg)) w) = (kVerificationMismatch, w') \<and>
    dev_value (bus_device w') = dev_value (new_stub_device od (ca_nodeId (rc_current cfg)) r) \<and>
    nonVolatile (bus_device w') = (\<lambda>_. None)"
proof -
  let ?node = "ca_nodeId (rc_current cfg)" and ?d = "new_stub_device od (ca_nodeId (rc_current cfg)) r"
  have v: "vendor_known od" using assms(4) by (simp add: eds_suits_def)
  from run_starts [OF assms(7,4), of w] obtain w1 where w1: "tool_ready 0 w1" "bus_device w1 = ?d"
    "\<forall>p. startNodeId p = ?node \<longrightarrow> exec_plan p True (make_stub_transport od cfg ?node
       (ca_bitrateKbps (rc_current cfg)) w) = exec_steps (pl_steps p) w1" by blast
  have any: "plan_any_write cfg" using nothing_written(2) [of cfg] assms(8) by (cases "plan_any_write cfg") auto
  from unsaved_plan_steps [OF assms(1-3) any assms(4)] obtain ws vs rest where
    steps: "pl_steps p = (ws @ [reset_step ?node] @ vs) @ rest" "startNodeId p = ?node"
    and w: "writes od ?node ws (target_writes (rc_target cfg))"
    and vf: "verifies od ?node vs (target_values (rc_target cfg))" by blast
  have nh: "\<not> holds ?d (target_values (rc_target cfg))" using assms(8,9) by (auto simp: holds_def)
  have rd: "list_all (\<lambda>(key, v). readable od key) (target_values (rc_target cfg))"
    using assms(4) by (simp add: eds_suits_def eds_accepts_def)
  have dv: "dev_values ?d = seed_from_eds od (nonVolatile ?d) ?node" by (simp add: new_stub_device_def)
  from unsaved_part_stops [OF w vf rd new_device_settled [OF v] dv nh assms(5,6) w1(1,2), of rest] obtain w2 where
    w2: "exec_steps (pl_steps p) w1 = (kVerificationMismatch, w2)" "dev_value (bus_device w2) = dev_value ?d"
      "nonVolatile (bus_device w2) = nonVolatile ?d"
    unfolding steps(1) by blast
  have "exec_plan p True (make_stub_transport od cfg ?node (ca_bitrateKbps (rc_current cfg)) w) = (kVerificationMismatch, w2)"
    using w1(3) w2(1) steps(2) by simp
  then show ?thesis using w2(2,3) by (simp add: new_stub_device_def)
qed


definition trial_config :: reconfig_config where
  "trial_config = keypad_config\<lparr>rc_store := False,
     rc_target := (rc_target keypad_config)\<lparr>tg_nodeId := None, tg_bitrateKbps := None\<rparr>\<rparr>"

lemma trial_plan: "\<exists>p. build_plan trial_config keypad_od [] = Inr p"
proof -
  let ?b = "start_plan trial_config keypad_od []"
  note config = trial_config_def keypad_config_def keypad_request_def
  have od: "width_of keypad_od 0x1800 2 = Inr 1" "width_of keypad_od 0x2010 2 = Inr 1"
    "check_limits keypad_od 0x1800 2 0xFE = None" "check_limits keypad_od 0x2010 2 0xFE = None"
    by (simp_all add: width_of_def check_limits_def keypad_od_defs)
  have b: "pb_od ?b = keypad_od" "pb_errors ?b = []" by (simp_all add: start_plan_def)
  have asked: "\<not> rc_store trial_config" "rc_resetAfter trial_config" "\<not> changing_node trial_config"
    "\<not> changing_bitrate trial_config" "plan_any_write trial_config"
    "tg_transmissionType (rc_target trial_config) = Some 0xFE"
    "tg_backlightScalar (rc_target trial_config) = Some 0xFE" "tg_heartbeatMs (rc_target trial_config) = None"
    "tg_eventTimerMs (rc_target trial_config) = None" "tg_inhibitTimeUs (rc_target trial_config) = None"
    "tg_indicatorScalar (rc_target trial_config) = None" "cob_buttons (tg_cobIds (rc_target trial_config)) = None"
    "cob_indicators (tg_cobIds (rc_target trial_config)) = None"
    "cob_brightness (tg_cobIds (rc_target trial_config)) = None"
    by (simp_all add: config plan_any_write_def changing_node_def changing_bitrate_def)
  show ?thesis
    by (simp add: build_plan_def plan_writes_def plan_verifies_def asked if_asked_def pb_lss_steps
        pb_write_push pb_reset_push od b Let_def)
qed

theorem unsaved_plan_fails_witness:
  "\<exists>p w'. build_plan trial_config keypad_od [] = Inr p \<and>
    exec_plan p True (make_stub_transport keypad_od trial_config 10 250 example_bus) = (kVerificationMismatch, w') \<and>
    nonVolatile (bus_device w') = (\<lambda>_. None)"
proof -
  obtain p where p: "build_plan trial_config keypad_od [] = Inr p" using trial_plan by blast
  note config = trial_config_def keypad_config_def keypad_request_def
  have c: "\<not> rc_store trial_config" "rc_resetAfter trial_config" "ca_nodeId (rc_current trial_config) = 10"
    "ca_bitrateKbps (rc_current trial_config) = 250"
    "((0x2010, 2), 0xFE) \<in> set (target_values (rc_target trial_config))"
    by (simp_all add: config target_values_def opt_item_def)
  have r: "lss_bitrate_from_kbps (ca_bitrateKbps (rc_current trial_config)) = Some Rate250k"
    by (simp add: c lss_bitrate_from_kbps_def)
  have suits: "eds_suits keypad_od (rc_target trial_config)"
    using keypad_suits by (simp add: eds_suits_def eds_accepts_def target_values_def trial_config_def)
  have "seed_from_eds keypad_od (\<lambda>_. None) 10 (0x2010, 2) \<noteq> None"
    "dev_value (new_stub_device keypad_od 10 Rate250k) (0x2010, 2) = Some 63"
    by (simp_all add: dev_value_def new_stub_device_def seed_from_eds_def seed_bytes_def od_defaultValue_def
        keypad_od_defs width_for_def to_uint_to_bytes)
  then have "dev_value (new_stub_device keypad_od (ca_nodeId (rc_current trial_config)) Rate250k) (0x2010, 2) \<noteq> Some 0xFE"
    by (simp add: c)
  from unsaved_plan_fails [OF p c(1,2) suits _ _ r c(5) this, of example_bus] c(3,4) p show ?thesis by auto
qed


lemma unsaved_move_steps:
  assumes p: "build_plan cfg od [] = Inr p" and save: "\<not> rc_store cfg" "\<not> rc_resetAfter cfg" "address_changes cfg"
    and suits: "eds_suits od (rc_target cfg)"
  shows "\<exists>ws. writes od (ca_nodeId (rc_current cfg)) ws (target_writes (rc_target cfg)) \<and>
    pl_steps p = ws @ lss_steps (ca_nodeId (rc_current cfg)) (new_node cfg) (new_rate cfg) (endNodeId p) (endBitrateKbps p) 4 \<and>
    startNodeId p = ca_nodeId (rc_current cfg) \<and>
    endNodeId p = (case tg_nodeId (rc_target cfg) of Some n \<Rightarrow> n | None \<Rightarrow> ca_nodeId (rc_current cfg)) \<and>
    endBitrateKbps p = (case tg_bitrateKbps (rc_target cfg) of Some k \<Rightarrow> k | None \<Rightarrow> ca_bitrateKbps (rc_current cfg)) \<and>
    (changing_bitrate cfg \<longrightarrow> new_rate cfg \<noteq> None) \<and>
    (\<forall>r. new_rate cfg = Some r \<longrightarrow> supportedBitrates od (lss_bitrate_to_kbps r) \<noteq> Some False)"
proof -
  let ?node = "ca_nodeId (rc_current cfg)" and ?t = "rc_target cfg" and ?b = "start_plan cfg od []"
  define b1 where "b1 = plan_writes cfg ?b"
  have "build_plan cfg od [] = (let b2 = plan_lss cfg b1;
        b = (if pl_steps (pb_plan b2) = [] then pb_error NothingAsked b2 else b2)
      in if pb_errors b \<noteq> [] then Inl (pb_errors b) else Inr (pb_plan b))"
    using save by (simp add: build_plan_def b1_def address_changes_def)
  with p have b2: "pb_errors (plan_lss cfg b1) = []" "p = pb_plan (plan_lss cfg b1)"
    by (auto simp: Let_def pb_error_def split: if_splits)
  have acc: "eds_accepts od ?t" and w4: "width_of od 0x1018 1 = Inr 4"
    using suits by (simp_all add: eds_suits_def vendor_known_def)
  have g: "grows (\<lambda>ss. writes od ?node ss (target_writes ?t)) ?b b1"
    using plan_writes_adds [OF acc] by (simp add: adds_def b1_def start_plan_def)
  have od: "pb_od b1 = od" using g by (simp add: grows_def start_plan_def)
  from plan_lss_steps [OF b2(1)] od w4 have lss: "pb_errors b1 = []" "changing_bitrate cfg \<longrightarrow> new_rate cfg \<noteq> None"
    "\<forall>r. new_rate cfg = Some r \<longrightarrow> supportedBitrates od (lss_bitrate_to_kbps r) \<noteq> Some False"
    "p = (pb_plan b1)\<lparr>pl_steps := pl_steps (pb_plan b1) @ lss_steps (pb_nodeId b1) (new_node cfg) (new_rate cfg)
       (endNodeId (pb_plan b1)) (endBitrateKbps (pb_plan b1)) 4, touchesLss := True\<rparr>"
    by (simp_all add: b2(2))
  from grows_result [OF g lss(1)] obtain ws where
    ws: "writes od ?node ws (target_writes ?t)" "pb_plan b1 = (pb_plan ?b)\<lparr>pl_steps := pl_steps (pb_plan ?b) @ ws\<rparr>"
      "pb_nodeId b1 = pb_nodeId ?b" by blast
  show ?thesis
    using ws lss(2-4) by (intro exI [of _ ws]) (simp add: start_plan_def empty_plan_def)
qed

text \<open>
  C27.  With neither store nor reset, but a new node ID or bit rate, the tool reports success although
  no value it wrote is there any more: the reset that adopts the new address restores the
  defaults, and only the vendor ID is read back after it.
\<close>

theorem unsaved_move_loses_writes:
  assumes "finish_config raw [] = Inr cfg" "build_plan cfg od [] = Inr p"
    and "\<not> rc_store cfg" "\<not> rc_resetAfter cfg" "address_changes cfg" "eds_suits od (rc_target cfg)"
    and "1 \<le> ca_nodeId (rc_current cfg)" "ca_nodeId (rc_current cfg) \<le> 127"
    and "lss_bitrate_from_kbps (ca_bitrateKbps (rc_current cfg)) = Some r"
  shows "\<exists>w'. exec_plan p True (make_stub_transport od cfg (ca_nodeId (rc_current cfg))
        (ca_bitrateKbps (rc_current cfg)) w) = (kOk, w') \<and> nodeId (bus_device w') = endNodeId p \<and>
    dev_values (bus_device w') = seed_from_eds od (\<lambda>_. None) (endNodeId p)"
proof -
  let ?node = "ca_nodeId (rc_current cfg)" and ?d = "new_stub_device od (ca_nodeId (rc_current cfg)) r"
  have v: "vendor_known od" using assms(6) by (simp add: eds_suits_def)
  have d: "settled od ?node ?d" by (rule new_device_settled [OF v])
  from run_starts [OF assms(9,6), of w] obtain w1 where w1: "tool_ready 0 w1" "bus_device w1 = ?d"
    "\<forall>p. startNodeId p = ?node \<longrightarrow> exec_plan p True (make_stub_transport od cfg ?node
       (ca_bitrateKbps (rc_current cfg)) w) = exec_steps (pl_steps p) w1" by blast
  from unsaved_move_steps [OF assms(2-6)] obtain ws where
    ws: "writes od ?node ws (target_writes (rc_target cfg))"
    and steps: "pl_steps p = ws @ lss_steps ?node (new_node cfg) (new_rate cfg) (endNodeId p) (endBitrateKbps p) 4"
    and ends: "startNodeId p = ?node" "endNodeId p = (case tg_nodeId (rc_target cfg) of Some n \<Rightarrow> n | None \<Rightarrow> ?node)"
      "endBitrateKbps p = (case tg_bitrateKbps (rc_target cfg) of Some k \<Rightarrow> k | None \<Rightarrow> ca_bitrateKbps (rc_current cfg))"
    and rate: "changing_bitrate cfg \<longrightarrow> new_rate cfg \<noteq> None"
      "\<forall>r. new_rate cfg = Some r \<longrightarrow> supportedBitrates od (lss_bitrate_to_kbps r) \<noteq> Some False" by blast
  have eds: "eds_device od ?node ?d" using d by (simp add: settled_def)
  with ws obtain d1 where d1: "goes 0 ?d ws 0 d1" "eds_device od ?node d1" "same_setup ?d d1"
    "dev_value d1 = upds (dev_value ?d) (target_writes (rc_target cfg))" unfolding writes_def by blast
  have key: "(0x1018, 1) \<notin> fst ` set (target_writes (rc_target cfg))" using target_writes_keys [of "rc_target cfg"] by auto
  have s1: "settled od ?node d1"
    using d d1(2-4) upds_other [OF key] by (simp add: settled_def same_setup_def identified_def)
  have r1: "dev_bitrate d1 = r" using d1(3) by (simp add: same_setup_def new_stub_device_def)
  let ?m = "moved_device d1 (new_node cfg) (new_rate cfg)"
  have kbps: "endBitrateKbps p = lss_bitrate_to_kbps (case new_rate cfg of Some x \<Rightarrow> x | None \<Rightarrow> dev_bitrate d1)"
    unfolding ends(3) r1 by (rule lss_rates [OF assms(9) rate(1)])
  have n: "endNodeId p = (case new_node cfg of Some x \<Rightarrow> x | None \<Rightarrow> ?node)"
    using ends(2) by (auto simp: new_node_def changing_node_def split: option.split)
  have "goes 0 d1 (lss_steps ?node (new_node cfg) (new_rate cfg) (endNodeId p) (endBitrateKbps p) 4) (Suc 0) ?m"
    by (rule lss_part_goes [OF s1 v _ assms(7,8) n _ kbps])
       (use finish_config_checks(5) [OF assms(1)] rate(2) in \<open>auto simp: new_node_def split: if_splits\<close>)
  from goes_append [OF d1(1) this] steps have "goes 0 ?d (pl_steps p) (Suc 0) ?m" by simp
  with w1(1,2) obtain w2 where w2: "carries (pl_steps p) w1 w2" "bus_device w2 = ?m" unfolding goes_def by blast
  have "exec_plan p True (make_stub_transport od cfg ?node (ca_bitrateKbps (rc_current cfg)) w) = (kOk, w2)"
    using w1(3) ends(1) carries_run [OF w2(1)] by simp
  moreover have "nodeId ?m = endNodeId p" "dev_values ?m = seed_from_eds od (\<lambda>_. None) (endNodeId p)"
    using n d1(2,3) by (simp_all add: moved_device_def reset_device_def dev_reset_def Let_def eds_device_def
        same_setup_def new_stub_device_def split: option.split)
  ultimately show ?thesis using w2(2) by simp
qed

definition move_request :: reconfig_config where
  "move_request = keypad_request\<lparr>rc_store := False, rc_resetAfter := False\<rparr>"

definition move_config :: reconfig_config where
  "move_config = keypad_config\<lparr>rc_store := False, rc_resetAfter := False\<rparr>"

lemma move_plan: "\<exists>p. build_plan move_config keypad_od [] = Inr p"
proof -
  let ?b = "start_plan move_config keypad_od []"
  note config = move_config_def keypad_config_def keypad_request_def
  have od: "width_of keypad_od 0x1800 2 = Inr 1" "width_of keypad_od 0x2010 2 = Inr 1"
    "check_limits keypad_od 0x1800 2 0xFE = None" "check_limits keypad_od 0x2010 2 0xFE = None"
    by (simp_all add: width_of_def check_limits_def keypad_od_defs)
  have b: "pb_od ?b = keypad_od" "pb_errors ?b = []" by (simp_all add: start_plan_def)
  have asked: "\<not> rc_store move_config" "\<not> rc_resetAfter move_config" "changing_node move_config"
    "changing_bitrate move_config" "plan_any_write move_config" "tg_bitrateKbps (rc_target move_config) = Some 500"
    "tg_transmissionType (rc_target move_config) = Some 0xFE"
    "tg_backlightScalar (rc_target move_config) = Some 0xFE" "tg_heartbeatMs (rc_target move_config) = None"
    "tg_eventTimerMs (rc_target move_config) = None" "tg_inhibitTimeUs (rc_target move_config) = None"
    "tg_indicatorScalar (rc_target move_config) = None" "cob_buttons (tg_cobIds (rc_target move_config)) = None"
    "cob_indicators (tg_cobIds (rc_target move_config)) = None"
    "cob_brightness (tg_cobIds (rc_target move_config)) = None"
    by (simp_all add: config plan_any_write_def changing_node_def changing_bitrate_def)
  define b1 where "b1 = plan_writes move_config ?b"
  have b1: "pb_errors b1 = []" "pb_od b1 = keypad_od"
    by (simp_all add: b1_def plan_writes_def asked if_asked_def pb_lss_steps pb_write_push od b Let_def)
  from keypad_lss_fine [OF b1 asked(4,6)] show ?thesis by (simp add: build_plan_def asked(1-4) b1_def)
qed

theorem unsaved_move_loses_writes_witness:
  "\<exists>p w'. build_plan move_config keypad_od [] = Inr p \<and>
    exec_plan p True (make_stub_transport keypad_od move_config 10 250 example_bus) = (kOk, w') \<and>
    dev_values (bus_device w') = seed_from_eds keypad_od (\<lambda>_. None) (endNodeId p)"
proof -
  obtain p where p: "build_plan move_config keypad_od [] = Inr p" using move_plan by blast
  note config = move_config_def move_request_def keypad_config_def keypad_request_def
  have c: "\<not> rc_store move_config" "\<not> rc_resetAfter move_config" "address_changes move_config"
    "ca_nodeId (rc_current move_config) = 10" "ca_bitrateKbps (rc_current move_config) = 250"
    "rc_target move_config = rc_target keypad_config"
    by (simp_all add: config address_changes_def changing_node_def)
  have f: "finish_config move_request [] = Inr move_config"
    by (simp add: finish_config_def config check_cobid_def kMarker_def)
  have r: "lss_bitrate_from_kbps (ca_bitrateKbps (rc_current move_config)) = Some Rate250k"
    by (simp add: c lss_bitrate_from_kbps_def)
  have suits: "eds_suits keypad_od (rc_target move_config)" using keypad_suits by (simp add: c(6))
  from unsaved_move_loses_writes [OF f p c(1-3) suits _ _ r, of example_bus] c(4,5) p show ?thesis by auto
qed

end
