(* ===== verification/RoadGraph.thy ===== *)
theory RoadGraph
  imports Prelude
begin

text \<open>
  libs/road_graph: the graph as the router reads it (format.h, graph.h, graph.cpp): the identity of a
  segment, the records, and the lookups: the edges of a node, a segment by its stable id, the
  segments of a way, a string of the blob and whether a turn is allowed.

  Indices, costs and lengths are natural numbers, coordinates integers; each is far from the end of
  its 32 bits except where a wrap-around is written out.  An element of an array is read with \<open>!\<close>,
  as the code reads it without a check; \<open>graph_wf\<close> says which graphs keep every such read in range,
  and nothing is claimed of any other graph.
\<close>

section \<open>Identity\<close>

definition kSegmentOrdinalBits :: nat where
  "kSegmentOrdinalBits = 20"

definition kSegmentOrdinalMask :: u64 where
  "kSegmentOrdinalMask = push_bit kSegmentOrdinalBits 1 - 1"

definition makeSegmentId :: "64 word \<Rightarrow> u32 \<Rightarrow> u64" where
  "makeSegmentId wayId ordinal = push_bit kSegmentOrdinalBits wayId OR (ucast ordinal AND kSegmentOrdinalMask)"

definition wayOf :: "u64 \<Rightarrow> u64" where
  "wayOf i = drop_bit kSegmentOrdinalBits i"

definition ordinalOf :: "u64 \<Rightarrow> u32" where
  "ordinalOf i = ucast (i AND kSegmentOrdinalMask)"

lemma ordinal_mask: "kSegmentOrdinalMask = mask 20"
  by (simp add: kSegmentOrdinalMask_def kSegmentOrdinalBits_def mask_eq_exp_minus_1)

lemma segment_identity:
  assumes "unat wayId < 2 ^ 44" "unat ordinal < 2 ^ 20"
  shows "wayOf (makeSegmentId wayId ordinal) = wayId" "ordinalOf (makeSegmentId wayId ordinal) = ordinal"
proof -
  have w: "bit wayId k \<Longrightarrow> k < 44" for k
  proof -
    have "take_bit 44 (unat wayId) = unat wayId" using assms(1) by (simp add: take_bit_nat_eq_self)
    then have "bit (unat wayId) k \<Longrightarrow> k < 44" by (metis bit_take_bit_iff)
    then show "bit wayId k \<Longrightarrow> k < 44" by (simp add: bit_unsigned_iff)
  qed
  have d: "bit ordinal k \<Longrightarrow> k < 20" for k
  proof -
    have "take_bit 20 (unat ordinal) = unat ordinal" using assms(2) by (simp add: take_bit_nat_eq_self)
    then have "bit (unat ordinal) k \<Longrightarrow> k < 20" by (metis bit_take_bit_iff)
    then show "bit ordinal k \<Longrightarrow> k < 20" by (simp add: bit_unsigned_iff)
  qed
  show "wayOf (makeSegmentId wayId ordinal) = wayId"
  proof (rule bit_word_eqI)
    fix k assume "k < LENGTH(64)"
    then show "bit (wayOf (makeSegmentId wayId ordinal)) k = bit wayId k"
      using w [of k] by (auto simp: wayOf_def makeSegmentId_def kSegmentOrdinalBits_def ordinal_mask bit_simps)
  qed
  show "ordinalOf (makeSegmentId wayId ordinal) = ordinal"
  proof (rule bit_word_eqI)
    fix k assume "k < LENGTH(32)"
    then show "bit (ordinalOf (makeSegmentId wayId ordinal)) k = bit ordinal k"
      using d [of k] by (auto simp: ordinalOf_def makeSegmentId_def kSegmentOrdinalBits_def ordinal_mask bit_simps)
  qed
qed

section \<open>Records\<close>

definition kNoSegment :: nat where
  "kNoSegment = 0xFFFFFFFF"

definition kNoNode :: nat where
  "kNoNode = 0xFFFFFFFF"

definition kNoString :: nat where
  "kNoString = 0"

definition kRestrictionProhibited :: nat where
  "kRestrictionProhibited = 0"

definition kRestrictionOnly :: nat where
  "kRestrictionOnly = 1"

definition kFlagOnewayForward :: u16 where
  "kFlagOnewayForward = push_bit 0 1"

definition kFlagOnewayBackward :: u16 where
  "kFlagOnewayBackward = push_bit 1 1"

record node_record =
  nd_lat :: int
  nd_lon :: int

record segment_record =
  sg_id :: u64
  osmWayId :: int
  geometryOffset :: nat
  geometryCount :: nat
  fromNode :: nat
  toNode :: nat
  nameOffset :: nat
  refOffset :: nat
  lengthCm :: nat
  postedSpeedKph :: nat
  freeFlowSpeedKph :: nat
  accessMask :: nat
  sg_flags :: u16
  renderClass :: nat
  routeClass :: nat
  postedSource :: nat
  laneCount :: nat
  sg_layer :: int

record edge_record =
  ed_segment :: nat
  ed_target :: nat
  costDs :: nat
  ed_forward :: nat

record way_index_entry =
  wi_wayId :: int
  firstSegment :: nat
  wi_segmentCount :: nat

record segment_id_index_entry =
  ix_id :: u64
  ix_index :: nat

record turn_restriction =
  fromSegment :: nat
  viaNode :: nat
  toSegment :: nat
  tr_kind :: nat

record rtree_node =
  rt_west :: int
  rt_south :: int
  rt_east :: int
  rt_north :: int
  rt_payload :: nat

record graph =
  g_nodes :: "node_record list"
  g_segments :: "segment_record list"
  g_edges :: "edge_record list"
  g_geometry :: "int list"
  g_strings :: string
  g_csrOffsets :: "nat list"
  g_wayIndex :: "way_index_entry list"
  g_idIndex :: "segment_id_index_entry list"
  g_rtree :: "rtree_node list"
  g_restrictions :: "turn_restriction list"
  g_rtreeLevels :: "nat list"
  g_maxFreeFlowSpeedKph :: nat

text \<open>The kinds of error.h.\<close>

datatype road_error =
  GraphNotFound | GraphNotReadable | NotAGraph | GraphVersionMismatch | GraphMalformed | InvalidGraphArgument

section \<open>Binary search\<close>

text \<open>\<open>std::lower_bound\<close>: halving, and the position it finds in a partitioned range.\<close>

function lb_loop :: "('a \<Rightarrow> bool) \<Rightarrow> 'a list \<Rightarrow> nat \<Rightarrow> nat \<Rightarrow> nat" where
  "lb_loop lt xs first len =
     (if len = 0 then first
      else let half = len div 2; middle = first + half in
        if lt (xs ! middle) then lb_loop lt xs (middle + 1) (len - half - 1)
        else lb_loop lt xs first half)"
  by auto
termination by (relation "measure (\<lambda>(lt, xs, first, len). len)") auto

declare lb_loop.simps [simp del]

definition lower_bound :: "('a \<Rightarrow> bool) \<Rightarrow> 'a list \<Rightarrow> nat" where
  "lower_bound lt xs = lb_loop lt xs 0 (length xs)"

text \<open>The elements less than the key come before the others.\<close>

definition partitioned :: "('a \<Rightarrow> bool) \<Rightarrow> 'a list \<Rightarrow> bool" where
  "partitioned lt xs \<longleftrightarrow> (\<forall>x\<in>set (dropWhile lt xs). \<not> lt x)"

lemma partitioned_nth:
  assumes "partitioned lt xs" "i < length xs"
  shows "lt (xs ! i) \<longleftrightarrow> i < length (takeWhile lt xs)"
proof (cases "i < length (takeWhile lt xs)")
  case True
  then show ?thesis using nth_mem [OF True] set_takeWhileD by (fastforce simp: takeWhile_nth)
next
  case False
  then have "xs ! i = dropWhile lt xs ! (i - length (takeWhile lt xs))"
    by (metis le_add_diff_inverse linorder_not_less nth_append_length_plus takeWhile_dropWhile_id)
  moreover have "i - length (takeWhile lt xs) < length (dropWhile lt xs)"
    using False assms(2) by (metis add_diff_inverse_nat length_append nat_add_left_cancel_less takeWhile_dropWhile_id)
  ultimately show ?thesis using assms(1) False nth_mem unfolding partitioned_def by metis
qed

lemma lb_loop_partitioned:
  assumes "partitioned lt xs" "first \<le> length (takeWhile lt xs)"
    "length (takeWhile lt xs) \<le> first + len" "first + len \<le> length xs"
  shows "lb_loop lt xs first len = length (takeWhile lt xs)"
  using assms
proof (induction lt xs first len rule: lb_loop.induct)
  case (1 lt xs first len)
  show ?case
  proof (cases "len = 0")
    case True
    with 1 show ?thesis by (simp add: lb_loop.simps)
  next
    case False
    then have "first + len div 2 < length xs" using 1 by (simp add: less_le_trans)
    note nth = partitioned_nth [OF "1.prems"(1) this]
    show ?thesis
    proof (cases "lt (xs ! (first + len div 2))")
      case True
      then have eq: "lb_loop lt xs first len = lb_loop lt xs (first + len div 2 + 1) (len - len div 2 - 1)"
        using False by (subst lb_loop.simps) (simp add: Let_def)
      show ?thesis unfolding eq using False True nth 1 by (intro 1(1)) auto
    next
      case lt: False
      then have eq: "lb_loop lt xs first len = lb_loop lt xs first (len div 2)"
        using False by (subst lb_loop.simps) (simp add: Let_def)
      show ?thesis unfolding eq using False lt nth 1 by (intro 1(2)) auto
    qed
  qed
qed

lemma lower_bound_partitioned: "partitioned lt xs \<Longrightarrow> lower_bound lt xs = length (takeWhile lt xs)"
  unfolding lower_bound_def by (rule lb_loop_partitioned) (simp_all add: length_takeWhile_le)

lemma drop_lower_bound: "partitioned lt xs \<Longrightarrow> drop (lower_bound lt xs) xs = dropWhile lt xs"
  by (simp add: lower_bound_partitioned dropWhile_eq_drop)

lemma partitioned_sorted:
  assumes "sorted_wrt R xs" "\<And>x y. R x y \<Longrightarrow> lt y \<Longrightarrow> lt x"
  shows "partitioned lt xs"
  using assms(1)
proof (induction xs)
  case (Cons x xs)
  show ?case
  proof (cases "lt x")
    case True
    with Cons show ?thesis by (simp add: partitioned_def)
  next
    case False
    with Cons.prems assms(2) show ?thesis by (auto simp: partitioned_def)
  qed
qed (simp add: partitioned_def)


section \<open>Lookups\<close>

text \<open>
  The directed edges leaving a node, as the positions of the edges in the array: the code hands out
  a span of the array and the router recovers the position from the address.  The sum \<open>node + 1\<close> is
  of 32 bits and wraps at the reserved index.
\<close>

definition edgesFrom :: "graph \<Rightarrow> nat \<Rightarrow> nat list" where
  "edgesFrom g node =
     (if (node + 1) mod 2 ^ 32 \<ge> length (g_csrOffsets g) then []
      else [g_csrOffsets g ! node ..< g_csrOffsets g ! ((node + 1) mod 2 ^ 32)])"

definition geometryOf :: "graph \<Rightarrow> segment_record \<Rightarrow> int list" where
  "geometryOf g s = take (geometryCount s * 2) (drop (geometryOffset s * 2) (g_geometry g))"

definition graph_string :: "graph \<Rightarrow> nat \<Rightarrow> string" where
  "graph_string g offset =
     (if offset = kNoString \<or> offset \<ge> length (g_strings g) then []
      else takeWhile (\<lambda>c. c \<noteq> CHR 0x00) (drop offset (g_strings g)))"

definition nameOf :: "graph \<Rightarrow> segment_record \<Rightarrow> string" where
  "nameOf g s = graph_string g (nameOffset s)"

definition refOf :: "graph \<Rightarrow> segment_record \<Rightarrow> string" where
  "refOf g s = graph_string g (refOffset s)"

definition indexOf :: "graph \<Rightarrow> u64 \<Rightarrow> nat option" where
  "indexOf g i =
     (let it = lower_bound (\<lambda>e. ix_id e < i) (g_idIndex g) in
      if it = length (g_idIndex g) \<or> ix_id (g_idIndex g ! it) \<noteq> i then None
      else Some (ix_index (g_idIndex g ! it)))"

definition segmentsOfWay :: "graph \<Rightarrow> int \<Rightarrow> nat list" where
  "segmentsOfWay g wayId =
     (let it = lower_bound (\<lambda>e. wi_wayId e < wayId) (g_wayIndex g) in
      if it = length (g_wayIndex g) \<or> wi_wayId (g_wayIndex g ! it) \<noteq> wayId then []
      else [firstSegment (g_wayIndex g ! it) ..<
            firstSegment (g_wayIndex g ! it) + wi_segmentCount (g_wayIndex g ! it)])"

definition tr_less :: "nat \<Rightarrow> nat \<Rightarrow> turn_restriction \<Rightarrow> bool" where
  "tr_less f v r = (if fromSegment r \<noteq> f then fromSegment r < f else viaNode r < v)"

fun scan_restrictions :: "turn_restriction list \<Rightarrow> nat \<Rightarrow> nat \<Rightarrow> nat \<Rightarrow> bool \<Rightarrow> bool" where
  "scan_restrictions [] f v t sawOnly = (\<not> sawOnly)"
| "scan_restrictions (r # rs) f v t sawOnly =
     (if fromSegment r \<noteq> f \<or> viaNode r \<noteq> v then \<not> sawOnly
      else if tr_kind r = kRestrictionProhibited
        then (if toSegment r = t then False else scan_restrictions rs f v t sawOnly)
      else if toSegment r = t then True else scan_restrictions rs f v t True)"

definition turnAllowed :: "graph \<Rightarrow> nat \<Rightarrow> nat \<Rightarrow> nat \<Rightarrow> bool" where
  "turnAllowed g f v t =
     (if g_restrictions g = [] then True
      else scan_restrictions (drop (lower_bound (tr_less f v) (g_restrictions g)) (g_restrictions g)) f v t False)"

section \<open>What the lookups find\<close>

lemma lower_bound_find:
  fixes key :: "'a \<Rightarrow> 'k::linorder"
  assumes "sorted (map key xs)"
  shows "lower_bound (\<lambda>e. key e < k) xs < length xs \<and> key (xs ! lower_bound (\<lambda>e. key e < k) xs) = k
           \<longleftrightarrow> k \<in> set (map key xs)"
proof -
  let ?lt = "\<lambda>e. key e < k" and ?n = "length (takeWhile (\<lambda>e. key e < k) xs)"
  have part: "partitioned ?lt xs"
    using assms by (intro partitioned_sorted [of "\<lambda>x y. key x \<le> key y"]) (auto simp: sorted_map)
  have eq: "lower_bound ?lt xs = ?n" by (rule lower_bound_partitioned [OF part])
  show ?thesis
  proof
    assume "k \<in> set (map key xs)"
    then obtain i where i: "i < length xs" "key (xs ! i) = k" by (auto simp: in_set_conv_nth)
    then have "?n \<le> i" using partitioned_nth [OF part i(1)] by simp
    with i have n: "?n < length xs" by simp
    then have "k \<le> key (xs ! ?n)" using partitioned_nth [OF part n] by simp
    moreover have "key (xs ! ?n) \<le> k"
      using sorted_nth_mono [OF assms \<open>?n \<le> i\<close>] i n by simp
    ultimately show "lower_bound ?lt xs < length xs \<and> key (xs ! lower_bound ?lt xs) = k"
      using n eq by simp
  qed (metis imageI list.set_map nth_mem)
qed

lemma indexOf_lookup:
  assumes "sorted (map ix_id (g_idIndex g))" "distinct (map ix_id (g_idIndex g))"
  shows "indexOf g i = map_of (map (\<lambda>e. (ix_id e, ix_index e)) (g_idIndex g)) i"
proof -
  let ?xs = "g_idIndex g" and ?n = "lower_bound (\<lambda>e. ix_id e < i) (g_idIndex g)"
  have keys: "map fst (map (\<lambda>e. (ix_id e, ix_index e)) ?xs) = map ix_id ?xs" by (simp add: comp_def)
  note find = lower_bound_find [OF assms(1), of i]
  show ?thesis
  proof (cases "i \<in> set (map ix_id ?xs)")
    case True
    with find have n: "?n < length ?xs" "ix_id (?xs ! ?n) = i" by blast+
    then have "map_of (map (\<lambda>e. (ix_id e, ix_index e)) ?xs) i = Some (ix_index (?xs ! ?n))"
      using assms(2) by (intro map_of_is_SomeI) (auto simp: comp_def intro!: image_eqI [of _ _ "?xs ! ?n"])
    with n show ?thesis by (simp add: indexOf_def Let_def)
  next
    case False
    then have "map_of (map (\<lambda>e. (ix_id e, ix_index e)) ?xs) i = None" by (auto simp: map_of_eq_None_iff)
    moreover have "?n \<le> length ?xs"
      using assms(1) by (subst lower_bound_partitioned, intro partitioned_sorted [of "\<lambda>x y. ix_id x \<le> ix_id y"])
        (auto simp: sorted_map length_takeWhile_le)
    ultimately show ?thesis using False find by (auto simp: indexOf_def Let_def)
  qed
qed

text \<open>The order of the restrictions in a file, and what they mean for a turn.\<close>

definition tr_before :: "turn_restriction \<Rightarrow> turn_restriction \<Rightarrow> bool" where
  "tr_before a b \<longleftrightarrow> fromSegment a < fromSegment b \<or> fromSegment a = fromSegment b \<and>
     (viaNode a < viaNode b \<or> viaNode a = viaNode b \<and> toSegment a \<le> toSegment b)"

definition restrictions_at :: "graph \<Rightarrow> nat \<Rightarrow> nat \<Rightarrow> turn_restriction list" where
  "restrictions_at g f v = filter (\<lambda>r. fromSegment r = f \<and> viaNode r = v) (g_restrictions g)"

lemma scan_restrictions_filter:
  assumes "sorted_wrt tr_before rs" "\<forall>r\<in>set rs. \<not> tr_less f v r"
  shows "scan_restrictions rs f v t b =
    scan_restrictions (filter (\<lambda>r. fromSegment r = f \<and> viaNode r = v) rs) f v t b"
  using assms
proof (induction rs arbitrary: b)
  case (Cons r rs)
  show ?case
  proof (cases "fromSegment r = f \<and> viaNode r = v")
    case False
    then have "filter (\<lambda>r. fromSegment r = f \<and> viaNode r = v) rs = []"
      using Cons.prems by (auto simp: filter_empty_conv tr_before_def tr_less_def split: if_splits)
    with False show ?thesis by auto
  qed (use Cons in auto)
qed simp

lemma scan_restrictions_at:
  assumes "\<forall>r\<in>set rs. fromSegment r = f \<and> viaNode r = v"
  shows "scan_restrictions rs f v t b =
    (case find (\<lambda>r. toSegment r = t) rs of Some r \<Rightarrow> tr_kind r \<noteq> kRestrictionProhibited
     | None \<Rightarrow> \<not> b \<and> (\<forall>r\<in>set rs. tr_kind r = kRestrictionProhibited))"
  using assms
proof (induction rs arbitrary: b)
  case (Cons r rs)
  have r: "fromSegment r = f" "viaNode r = v" and rs: "\<forall>r\<in>set rs. fromSegment r = f \<and> viaNode r = v"
    using Cons.prems by auto
  note IH = Cons.IH [OF rs]
  show ?case by (simp add: r IH split: option.split)
qed simp

lemma turnAllowed_scan:
  assumes "sorted_wrt tr_before (g_restrictions g)"
  shows "turnAllowed g f v t = scan_restrictions (restrictions_at g f v) f v t False"
proof -
  have part: "partitioned (tr_less f v) (g_restrictions g)"
    using assms by (rule partitioned_sorted) (auto simp: tr_before_def tr_less_def split: if_splits)
  let ?at = "\<lambda>r. fromSegment r = f \<and> viaNode r = v"
  have no: "\<not> ?at r" if "tr_less f v r" for r
    using that by (auto simp: tr_less_def split: if_splits)
  have "filter ?at (g_restrictions g) = filter ?at (dropWhile (tr_less f v) (g_restrictions g))"
  proof -
    have "filter ?at (takeWhile (tr_less f v) (g_restrictions g)) = []"
      unfolding filter_empty_conv using no by (blast dest: set_takeWhileD)
    then have "filter ?at (takeWhile (tr_less f v) (g_restrictions g) @ dropWhile (tr_less f v) (g_restrictions g))
        = filter ?at (dropWhile (tr_less f v) (g_restrictions g))"
      by (simp only: filter_append append_Nil)
    then show ?thesis by (simp only: takeWhile_dropWhile_id)
  qed
  moreover have "sorted_wrt tr_before (dropWhile (tr_less f v) (g_restrictions g))"
    using assms by (metis sorted_wrt_append takeWhile_dropWhile_id)
  ultimately show ?thesis
    using part scan_restrictions_filter [of "dropWhile (tr_less f v) (g_restrictions g)" f v t False]
    by (cases "g_restrictions g = []")
      (simp_all add: turnAllowed_def restrictions_at_def drop_lower_bound partitioned_def)
qed

lemma turnAllowed_meaning:
  assumes "sorted_wrt tr_before (g_restrictions g)"
    "\<forall>r\<in>set (restrictions_at g f v). \<forall>r'\<in>set (restrictions_at g f v). toSegment r = toSegment r' \<longrightarrow>
       tr_kind r = tr_kind r'"
  shows "turnAllowed g f v t \<longleftrightarrow>
    (\<forall>r\<in>set (restrictions_at g f v). tr_kind r = kRestrictionProhibited \<longrightarrow> toSegment r \<noteq> t) \<and>
    ((\<exists>r\<in>set (restrictions_at g f v). tr_kind r \<noteq> kRestrictionProhibited) \<longrightarrow>
     (\<exists>r\<in>set (restrictions_at g f v). tr_kind r \<noteq> kRestrictionProhibited \<and> toSegment r = t))"
proof -
  let ?rs = "restrictions_at g f v"
  have eq: "turnAllowed g f v t =
    (case find (\<lambda>r. toSegment r = t) ?rs of Some r \<Rightarrow> tr_kind r \<noteq> kRestrictionProhibited
     | None \<Rightarrow> \<forall>r\<in>set ?rs. tr_kind r = kRestrictionProhibited)"
    using turnAllowed_scan [OF assms(1), of f v t] scan_restrictions_at [of ?rs f v t False]
    by (simp add: restrictions_at_def split: option.splits)
  show ?thesis
  proof (cases "find (\<lambda>r. toSegment r = t) ?rs")
    case None
    then have "\<forall>r\<in>set ?rs. toSegment r \<noteq> t" by (simp add: find_None_iff)
    with None eq show ?thesis by auto
  next
    case (Some r)
    then have "r \<in> set ?rs" "toSegment r = t" by (auto simp: find_Some_iff)
    with assms(2) have same: "\<forall>x\<in>set ?rs. toSegment x = t \<longrightarrow> tr_kind x = tr_kind r" by metis
    have "turnAllowed g f v t \<longleftrightarrow> tr_kind r \<noteq> kRestrictionProhibited" using eq Some by simp
    with same \<open>r \<in> set ?rs\<close> \<open>toSegment r = t\<close> show ?thesis by metis
  qed
qed


section \<open>Well-formed graphs\<close>

text \<open>Every position a record names is a position of the array it points into.\<close>

definition segment_wf :: "graph \<Rightarrow> segment_record \<Rightarrow> bool" where
  "segment_wf g s \<longleftrightarrow> (geometryOffset s + geometryCount s) * 2 \<le> length (g_geometry g) \<and>
     fromNode s < length (g_nodes g) \<and> toNode s < length (g_nodes g)"

definition edge_wf :: "graph \<Rightarrow> edge_record \<Rightarrow> bool" where
  "edge_wf g e \<longleftrightarrow> ed_segment e < length (g_segments g) \<and> ed_target e < length (g_nodes g)"

definition graph_wf :: "graph \<Rightarrow> bool" where
  "graph_wf g \<longleftrightarrow> length (g_csrOffsets g) = length (g_nodes g) + 1 \<and> length (g_nodes g) < 2 ^ 32 - 1 \<and>
     list_all (\<lambda>k. k \<le> length (g_edges g)) (g_csrOffsets g) \<and>
     list_all (edge_wf g) (g_edges g) \<and> list_all (segment_wf g) (g_segments g)"

lemma edgesFrom_in_range:
  assumes "graph_wf g" "i \<in> set (edgesFrom g n)"
  shows "i < length (g_edges g)"
proof -
  let ?m = "(n + 1) mod 2 ^ 32"
  have m: "?m < length (g_csrOffsets g)" "i < g_csrOffsets g ! ?m"
    using assms(2) by (auto simp: edgesFrom_def simp del: One_nat_def split: if_splits)
  then have "g_csrOffsets g ! ?m \<le> length (g_edges g)"
    using assms(1) by (simp add: graph_wf_def list_all_length)
  with m(2) show ?thesis by simp
qed

lemma edge_in_range:
  assumes "graph_wf g" "i < length (g_edges g)"
  shows "ed_segment (g_edges g ! i) < length (g_segments g)" "ed_target (g_edges g ! i) < length (g_nodes g)"
  using assms by (simp_all add: graph_wf_def edge_wf_def list_all_length)


text \<open>
  A small network for the witnesses: a triangle of two-way streets, 100 m, 200 m and 500 m, where the turn
  from the first street into the second is prohibited.
\<close>

definition triangle_segment :: "nat \<Rightarrow> nat \<Rightarrow> nat \<Rightarrow> nat \<Rightarrow> segment_record" where
  "triangle_segment i a b cm = \<lparr>sg_id = makeSegmentId (of_nat i) 0, osmWayId = int i, geometryOffset = 2 * i,
     geometryCount = 2, fromNode = a, toNode = b, nameOffset = 0, refOffset = 0, lengthCm = cm,
     postedSpeedKph = 50, freeFlowSpeedKph = 50, accessMask = 1, sg_flags = 0, renderClass = 1, routeClass = 6,
     postedSource = 0, laneCount = 1, sg_layer = 0\<rparr>"

definition triangle_edge :: "nat \<Rightarrow> nat \<Rightarrow> nat \<Rightarrow> nat \<Rightarrow> edge_record" where
  "triangle_edge s t cost fwd = \<lparr>ed_segment = s, ed_target = t, costDs = cost, ed_forward = fwd\<rparr>"

definition triangle :: graph where
  "triangle = \<lparr>g_nodes = [\<lparr>nd_lat = 0, nd_lon = 0\<rparr>, \<lparr>nd_lat = 0, nd_lon = 9000\<rparr>, \<lparr>nd_lat = 9000, nd_lon = 0\<rparr>],
     g_segments = [triangle_segment 0 0 1 10000, triangle_segment 1 1 2 20000, triangle_segment 2 0 2 50000],
     g_edges = [triangle_edge 0 1 75 1, triangle_edge 2 2 360 1, triangle_edge 0 0 75 0, triangle_edge 1 2 145 1,
                triangle_edge 1 1 145 0, triangle_edge 2 0 360 0],
     g_geometry = [0, 0, 0, 9000, 0, 9000, 9000, 0, 0, 0, 9000, 0], g_strings = [CHR 0x00],
     g_csrOffsets = [0, 2, 4, 6],
     g_wayIndex = [\<lparr>wi_wayId = 0, firstSegment = 0, wi_segmentCount = 1\<rparr>,
                   \<lparr>wi_wayId = 1, firstSegment = 1, wi_segmentCount = 1\<rparr>,
                   \<lparr>wi_wayId = 2, firstSegment = 2, wi_segmentCount = 1\<rparr>],
     g_idIndex = [\<lparr>ix_id = makeSegmentId 0 0, ix_index = 0\<rparr>, \<lparr>ix_id = makeSegmentId 1 0, ix_index = 1\<rparr>,
                  \<lparr>ix_id = makeSegmentId 2 0, ix_index = 2\<rparr>],
     g_rtree = [], g_restrictions = [\<lparr>fromSegment = 0, viaNode = 1, toSegment = 1, tr_kind = 0\<rparr>],
     g_rtreeLevels = [0], g_maxFreeFlowSpeedKph = 50\<rparr>"

lemma triangle_wf: "graph_wf triangle"
  by (simp add: graph_wf_def triangle_def edge_wf_def segment_wf_def triangle_edge_def triangle_segment_def)

end
