(* ===== verification/HeapQueue.thy ===== *)
theory HeapQueue
  imports Prelude
begin

text \<open>The priority queues of the road graph's searches.\<close>

section \<open>The heap\<close>

text \<open>
  \<open>std::push_heap\<close>, \<open>std::pop_heap\<close> and \<open>std::priority_queue\<close> keep the entries in an order the code
  does not see: it takes one with the least key, and which of several the library decides.  The
  queue is the list of entries and \<open>pick\<close> the position the library takes.
\<close>

definition heap_pick :: "(('k::linorder \<times> 's) list \<Rightarrow> nat) \<Rightarrow> bool" where
  "heap_pick pick \<longleftrightarrow> (\<forall>q. q \<noteq> [] \<longrightarrow> pick q < length q \<and> (\<forall>x\<in>set q. fst (q ! pick q) \<le> fst x))"

definition remove_at :: "nat \<Rightarrow> 'a list \<Rightarrow> 'a list" where
  "remove_at i xs = take i xs @ drop (Suc i) xs"

text \<open>The first entry with the least key.\<close>

fun first_min :: "('k::linorder \<times> 's) list \<Rightarrow> nat" where
  "first_min [] = 0"
| "first_min [x] = 0"
| "first_min (x # y # xs) =
     (let i = first_min (y # xs) in if fst x \<le> fst ((y # xs) ! i) then 0 else Suc i)"

lemma heap_pick_first_min: "heap_pick (first_min :: ('k::linorder \<times> 's) list \<Rightarrow> nat)"
proof -
  have "q \<noteq> [] \<longrightarrow> first_min q < length q \<and> (\<forall>x\<in>set q. fst (q ! first_min q) \<le> fst x)" for q :: "('k::linorder \<times> 's) list"
    by (induction q rule: first_min.induct) (auto simp: Let_def)
  then show ?thesis by (simp add: heap_pick_def)
qed

lemma heap_pickD:
  assumes "heap_pick pick" "q \<noteq> []" "q ! pick q = (k, s)" "rest = remove_at (pick q) q"
  shows "length rest < length q" "set q = insert (k, s) (set rest)" "distinct q \<Longrightarrow> distinct rest \<and> (k, s) \<notin> set rest"
    "\<And>k' s'. (k', s') \<in> set q \<Longrightarrow> k \<le> k'"
proof -
  have i: "pick q < length q" using assms(1,2) by (simp add: heap_pick_def)
  obtain a b where q: "q = a @ (k, s) # b" and rest: "rest = a @ b"
    using id_take_nth_drop [OF i] assms(3,4) by (metis remove_at_def)
  show "length rest < length q" "set q = insert (k, s) (set rest)"
    "distinct q \<Longrightarrow> distinct rest \<and> (k, s) \<notin> set rest"
    unfolding q rest by auto
  show "\<And>k' s'. (k', s') \<in> set q \<Longrightarrow> k \<le> k'"
    using assms(1-3) unfolding heap_pick_def by (metis fst_conv)
qed


text \<open>Taking an entry out, for a loop whose definition must not depend on what is known of \<open>pick\<close>.\<close>

definition heap_pop :: "(('k \<times> 's) list \<Rightarrow> nat) \<Rightarrow> ('k \<times> 's) list \<Rightarrow> ('k \<times> 's) \<times> ('k \<times> 's) list" where
  "heap_pop pick q = (q ! (pick q mod length q), remove_at (pick q mod length q) q)"

lemma heap_pop_parts:
  assumes "q \<noteq> []"
  shows "\<exists>a b. q = a @ fst (heap_pop pick q) # b \<and> snd (heap_pop pick q) = a @ b"
proof -
  have "pick q mod length q < length q" using assms by simp
  from id_take_nth_drop [OF this] show ?thesis unfolding heap_pop_def remove_at_def by auto
qed

lemma heap_pop_length: "q \<noteq> [] \<Longrightarrow> heap_pop pick q = (x, rest) \<Longrightarrow> length rest < length q"
  using heap_pop_parts [of q pick] by auto

lemma heap_pop_set: "q \<noteq> [] \<Longrightarrow> heap_pop pick q = (x, rest) \<Longrightarrow> set q = insert x (set rest)"
  using heap_pop_parts [of q pick] by auto

lemma heap_pop_least: "heap_pick pick \<Longrightarrow> q \<noteq> [] \<Longrightarrow> heap_pop pick q = (x, rest) \<Longrightarrow> y \<in> set q \<Longrightarrow> fst x \<le> fst y"
  unfolding heap_pick_def heap_pop_def by auto


lemma heap_pop_shorter: "q \<noteq> [] \<Longrightarrow> length (snd (heap_pop pick q)) < length q"
  by (rule heap_pop_length [OF _ prod.collapse [symmetric]])

end
