(* ===== verification/BestFirst.thy ===== *)
theory BestFirst
  imports Doubles HeapQueue
begin

text \<open>
  What the two searches of the road graph share: costs of walks as the code adds them up, the labels
  and the queue of a best-first search, and why nothing is missed: of every walk some vertex is
  still waiting in the queue with a cost no greater than the walk's.
\<close>

section \<open>Costs of walks\<close>

text \<open>The costs a vertex can be reached at: the rounded sums along the walks that end there.\<close>

inductive costs :: "('s \<Rightarrow> rat \<Rightarrow> bool) \<Rightarrow> ('s \<Rightarrow> 's \<Rightarrow> rat \<Rightarrow> bool) \<Rightarrow> 's \<Rightarrow> rat \<Rightarrow> bool"
  for start edge where
  costs_start: "start s c \<Longrightarrow> costs start edge s c"
| costs_step: "costs start edge u c \<Longrightarrow> edge u v w \<Longrightarrow> costs start edge v (dadd c w)"

section \<open>Labels and queue\<close>

text \<open>A vertex is open while an entry with its present label waits in the queue.\<close>

definition open_in :: "('s \<Rightarrow> rat option) \<Rightarrow> (rat \<times> 's) list \<Rightarrow> (rat \<Rightarrow> 's \<Rightarrow> rat) \<Rightarrow> 's \<Rightarrow> bool" where
  "open_in best queue key s \<longleftrightarrow> (\<exists>d. best s = Some d \<and> (key d s, s) \<in> set queue)"

definition covered :: "('s \<Rightarrow> rat option) \<Rightarrow> (rat \<Rightarrow> bool) \<Rightarrow> 's \<Rightarrow> rat \<Rightarrow> bool" where
  "covered best keep s c \<longleftrightarrow> (keep c \<longrightarrow> (\<exists>d. best s = Some d \<and> d \<le> c))"

locale best_first =
  fixes start :: "'s \<Rightarrow> rat \<Rightarrow> bool"
    and edge :: "'s \<Rightarrow> 's \<Rightarrow> rat \<Rightarrow> bool"
    and key :: "rat \<Rightarrow> 's \<Rightarrow> rat"
    and keep :: "rat \<Rightarrow> bool"
  assumes start_double: "start s c \<Longrightarrow> 0 \<le> c \<and> is_double c"
    and edge_nonneg: "edge u v w \<Longrightarrow> 0 \<le> w"
    and keep_down: "keep c \<Longrightarrow> d \<le> c \<Longrightarrow> keep d"
begin

definition labels_ok :: "('s \<Rightarrow> rat option) \<Rightarrow> bool" where
  "labels_ok best \<longleftrightarrow> (\<forall>s d. best s = Some d \<longrightarrow> costs start edge s d)"

definition relaxed :: "('s \<Rightarrow> rat option) \<Rightarrow> 's \<Rightarrow> bool" where
  "relaxed best s \<longleftrightarrow> (\<forall>d v w. best s = Some d \<longrightarrow> edge s v w \<longrightarrow> covered best keep v (dadd d w))"

definition frontier_ok :: "('s \<Rightarrow> rat option) \<Rightarrow> (rat \<times> 's) list \<Rightarrow> bool" where
  "frontier_ok best queue \<longleftrightarrow> (\<forall>s. open_in best queue key s \<or> relaxed best s)"

lemma costs_double: "costs start edge s c \<Longrightarrow> 0 \<le> c \<and> is_double c"
  by (induction rule: costs.induct) (auto dest: start_double edge_nonneg intro: dadd_nonneg is_double_dadd)

lemma label_double: "labels_ok best \<Longrightarrow> best s = Some d \<Longrightarrow> 0 \<le> d \<and> is_double d"
  by (auto simp: labels_ok_def dest: costs_double)

lemma costs_increase: "costs start edge u c \<Longrightarrow> edge u v w \<Longrightarrow> c \<le> dadd c w"
  by (auto dest: costs_double edge_nonneg intro: dadd_increases)

text \<open>Lowering one label.\<close>

lemma covered_improve:
  assumes "covered best keep s c" "\<And>d'. best t = Some d' \<Longrightarrow> d \<le> d'"
  shows "covered (best(t \<mapsto> d)) keep s c"
  using assms unfolding covered_def by (auto intro: order_trans)

lemma relaxed_improve:
  assumes "relaxed best s" "s \<noteq> t" "\<And>d'. best t = Some d' \<Longrightarrow> d \<le> d'"
  shows "relaxed (best(t \<mapsto> d)) s"
  unfolding relaxed_def
proof (intro allI impI)
  fix e v w
  assume "(best(t \<mapsto> d)) s = Some e" "edge s v w"
  with assms(1,2) have "covered best keep v (dadd e w)" by (simp add: relaxed_def)
  then show "covered (best(t \<mapsto> d)) keep v (dadd e w)" by (rule covered_improve) (rule assms(3))
qed

lemma labels_improve: "labels_ok best \<Longrightarrow> costs start edge t d \<Longrightarrow> labels_ok (best(t \<mapsto> d))"
  by (auto simp: labels_ok_def)

text \<open>The walk argument.\<close>

theorem frontier:
  assumes "frontier_ok best queue" "\<And>s c. start s c \<Longrightarrow> covered best keep s c" "labels_ok best"
    and "costs start edge x c" "keep c"
  shows "(\<exists>u d c1. best u = Some d \<and> d \<le> c1 \<and> (key d u, u) \<in> set queue \<and> costs start edge u c1 \<and>
            costs (\<lambda>s k. s = u \<and> k = c1) edge x c)
       \<or> (\<exists>d. best x = Some d \<and> d \<le> c \<and> \<not> open_in best queue key x)"
  using assms(4,5)
proof (induction rule: costs.induct)
  case (costs_start s c)
  then obtain d where d: "best s = Some d" "d \<le> c" using assms(2) by (auto simp: covered_def)
  show ?case
  proof (cases "open_in best queue key s")
    case True
    with d have "(key d s, s) \<in> set queue" by (simp add: open_in_def)
    with d costs_start show ?thesis by (metis (mono_tags, lifting) costs.costs_start)
  qed (use d in blast)
next
  case (costs_step u c v w)
  have le: "c \<le> dadd c w" using costs_increase costs_step.hyps by blast
  from costs_step.IH [OF keep_down [OF costs_step.prems le]] show ?case
  proof
    assume "\<exists>ua d c1. best ua = Some d \<and> d \<le> c1 \<and> (key d ua, ua) \<in> set queue \<and> costs start edge ua c1 \<and>
            costs (\<lambda>s k. s = ua \<and> k = c1) edge u c"
    then show ?thesis using costs_step.hyps(2) costs.costs_step by metis
  next
    assume "\<exists>d. best u = Some d \<and> d \<le> c \<and> \<not> open_in best queue key u"
    then obtain d where d: "best u = Some d" "d \<le> c" "\<not> open_in best queue key u" by blast
    with assms(1) have "relaxed best u" by (auto simp: frontier_ok_def)
    with d(1) costs_step.hyps(2) have cov: "covered best keep v (dadd d w)" by (simp add: relaxed_def)
    have mono: "dadd d w \<le> dadd c w"
      using label_double [OF assms(3) d(1)] edge_nonneg [OF costs_step.hyps(2)] d(2) by (intro dadd_mono) auto
    with cov keep_down [OF costs_step.prems mono] obtain e where e: "best v = Some e" "e \<le> dadd c w"
      unfolding covered_def by (meson order_trans)
    have reach: "costs start edge v (dadd c w)" using costs_step.hyps by (rule costs.costs_step)
    show ?thesis
    proof (cases "open_in best queue key v")
      case True
      with e have "(key e v, v) \<in> set queue" by (simp add: open_in_def)
      with e reach show ?thesis by (metis (mono_tags, lifting) costs.costs_start)
    qed (use e in blast)
  qed
qed

end

end
