(* ===== verification/RoadSearch.thy ===== *)
theory RoadSearch
  imports RoadGraph BestFirst "HOL-Library.While_Combinator"
begin

text \<open>
  libs/road_graph/src/search.cpp, \<open>BoundedSearch::distance\<close>: the shortest driving distance between two
  junctions up to a limit, Dijkstra's algorithm with a hash map of labels and a heap whose stale
  entries are skipped.  The distance as the crow flies is computed with the cosine and square root of the
  machine's mathematics library and is the parameter \<open>crow\<close>.
\<close>

section \<open>The search\<close>

definition lengthM :: "graph \<Rightarrow> edge_record \<Rightarrow> rat" where
  "lengthM g e = to_double (of_nat (lengthCm (g_segments g ! ed_segment e)) / 100)"

record bounded_search =
  mBest :: "nat \<Rightarrow> rat option"
  mQueue :: "(rat \<times> nat) list"
  answer :: "rat option option"

definition bs_edge :: "graph \<Rightarrow> rat \<Rightarrow> rat \<Rightarrow> nat \<Rightarrow> bounded_search \<Rightarrow> bounded_search" where
  "bs_edge g limit d i st =
     (let e = g_edges g ! i; nxt = dadd d (lengthM g e) in
      if nxt > limit then st
      else if (case mBest st (ed_target e) of None \<Rightarrow> True | Some old \<Rightarrow> nxt < old)
        then st\<lparr>mBest := (mBest st)(ed_target e \<mapsto> nxt), mQueue := mQueue st @ [(nxt, ed_target e)]\<rparr>
      else st)"

definition bs_step :: "graph \<Rightarrow> ((rat \<times> nat) list \<Rightarrow> nat) \<Rightarrow> nat \<Rightarrow> rat \<Rightarrow> bounded_search \<Rightarrow> bounded_search" where
  "bs_step g pick to limit st =
     (let (d, v) = mQueue st ! pick (mQueue st); st = st\<lparr>mQueue := remove_at (pick (mQueue st)) (mQueue st)\<rparr> in
      if v = to then st\<lparr>answer := Some (Some d)\<rparr>
      else if d > limit then st\<lparr>answer := Some None\<rparr>
      else if (case mBest st v of None \<Rightarrow> False | Some found \<Rightarrow> d > found) then st
      else fold (bs_edge g limit d) (edgesFrom g v) st)"

definition bs_running :: "bounded_search \<Rightarrow> bool" where
  "bs_running st \<longleftrightarrow> answer st = None \<and> mQueue st \<noteq> []"

definition bs_start :: "nat \<Rightarrow> bounded_search" where
  "bs_start from = \<lparr>mBest = [from \<mapsto> 0], mQueue = [(0, from)], answer = None\<rparr>"

text \<open>\<open>None\<close> is a search that does not return; the answer of a search that empties its queue is \<open>nullopt\<close>.\<close>

definition boundedDistance ::
  "graph \<Rightarrow> (node_record \<Rightarrow> node_record \<Rightarrow> rat) \<Rightarrow> ((rat \<times> nat) list \<Rightarrow> nat) \<Rightarrow> nat \<Rightarrow> nat \<Rightarrow> rat \<Rightarrow>
   rat option option" where
  "boundedDistance g crow pick from to limit =
     (if from = to then Some (Some 0)
      else if from \<ge> length (g_nodes g) \<or> to \<ge> length (g_nodes g) then Some None
      else if crow (g_nodes g ! from) (g_nodes g ! to) > limit then Some None
      else map_option (\<lambda>st. case answer st of None \<Rightarrow> None | Some r \<Rightarrow> r)
             (while_option bs_running (bs_step g pick to limit) (bs_start from)))"

section \<open>Driving distances\<close>

text \<open>The edges of a drive, and its length as the code adds it up.\<close>

fun drive :: "graph \<Rightarrow> nat \<Rightarrow> nat list \<Rightarrow> nat \<Rightarrow> bool" where
  "drive g u [] v \<longleftrightarrow> u = v"
| "drive g u (i # es) v \<longleftrightarrow> i \<in> set (edgesFrom g u) \<and> drive g (ed_target (g_edges g ! i)) es v"

definition drive_length :: "graph \<Rightarrow> nat list \<Rightarrow> rat" where
  "drive_length g es = foldl (\<lambda>d i. dadd d (lengthM g (g_edges g ! i))) 0 es"

lemma drive_append: "drive g u (es @ fs) v \<longleftrightarrow> (\<exists>w. drive g u es w \<and> drive g w fs v)"
  by (induction es arbitrary: u) auto

definition road_edge :: "graph \<Rightarrow> nat \<Rightarrow> nat \<Rightarrow> rat \<Rightarrow> bool" where
  "road_edge g u v w \<longleftrightarrow> (\<exists>i\<in>set (edgesFrom g u). v = ed_target (g_edges g ! i) \<and> w = lengthM g (g_edges g ! i))"

definition road_start :: "nat \<Rightarrow> nat \<Rightarrow> rat \<Rightarrow> bool" where
  "road_start from u c \<longleftrightarrow> u = from \<and> c = 0"

lemma lengthM_nonneg [simp]: "0 \<le> lengthM g e"
  by (simp add: lengthM_def)

lemma drive_costs:
  "(\<exists>es. drive g from es v \<and> drive_length g es = c) \<longleftrightarrow> costs (road_start from) (road_edge g) v c"
proof
  show "\<exists>es. drive g from es v \<and> drive_length g es = c \<Longrightarrow> costs (road_start from) (road_edge g) v c"
  proof (elim exE conjE)
    fix es
    assume "drive g from es v" "drive_length g es = c"
    then show ?thesis
    proof (induction es arbitrary: v c rule: rev_induct)
      case Nil
      then show ?case by (intro costs_start) (simp add: road_start_def drive_length_def)
    next
      case (snoc i es)
      then obtain u where u: "drive g from es u" "i \<in> set (edgesFrom g u)" "v = ed_target (g_edges g ! i)"
        by (auto simp: drive_append)
      have "costs (road_start from) (road_edge g) u (drive_length g es)" using u(1) by (rule snoc.IH) simp
      moreover have "road_edge g u v (lengthM g (g_edges g ! i))" using u(2,3) by (auto simp: road_edge_def)
      ultimately have "costs (road_start from) (road_edge g) v (dadd (drive_length g es) (lengthM g (g_edges g ! i)))"
        by (rule costs_step)
      then show ?case using snoc.prems(2) by (simp add: drive_length_def)
    qed
  qed
  show "costs (road_start from) (road_edge g) v c \<Longrightarrow> \<exists>es. drive g from es v \<and> drive_length g es = c"
  proof (induction rule: costs.induct)
    case (costs_start s c)
    then show ?case by (intro exI [of _ "[]"]) (simp add: road_start_def drive_length_def)
  next
    case (costs_step u c v w)
    then obtain es i where "drive g from es u" "drive_length g es = c" "i \<in> set (edgesFrom g u)"
      "v = ed_target (g_edges g ! i)" "w = lengthM g (g_edges g ! i)" by (auto simp: road_edge_def)
    then show ?case by (intro exI [of _ "es @ [i]"]) (auto simp: drive_append drive_length_def)
  qed
qed

interpretation road: best_first "road_start from" "road_edge g" "\<lambda>d v. d" "\<lambda>c. c \<le> limit"
  by unfold_locales (auto simp: road_start_def road_edge_def)


section \<open>The invariant of the search\<close>

text \<open>A vertex is closed once no entry with its label waits; its label is then final.\<close>

definition closed_in :: "bounded_search \<Rightarrow> nat \<Rightarrow> bool" where
  "closed_in st u \<longleftrightarrow> (\<exists>b. mBest st u = Some b \<and> (b, u) \<notin> set (mQueue st))"

definition bs_sound :: "graph \<Rightarrow> nat \<Rightarrow> nat \<Rightarrow> rat \<Rightarrow> bounded_search \<Rightarrow> bool" where
  "bs_sound g from to limit st \<longleftrightarrow>
     road.labels_ok from g (mBest st) \<and>
     (\<forall>(k, u)\<in>set (mQueue st). costs (road_start from) (road_edge g) u k \<and> (u = from \<or> k \<le> limit) \<and>
        (\<exists>b. mBest st u = Some b \<and> b \<le> k)) \<and>
     from \<noteq> to \<and> distinct (mQueue st) \<and> \<not> closed_in st to \<and> covered (mBest st) (\<lambda>c. True) from 0 \<and>
     dom (mBest st) \<subseteq> {..<length (g_nodes g)} \<and> answer st = None"

definition bs_inv :: "graph \<Rightarrow> nat \<Rightarrow> nat \<Rightarrow> rat \<Rightarrow> bounded_search \<Rightarrow> bool" where
  "bs_inv g from to limit st \<longleftrightarrow> bs_sound g from to limit st \<and>
     road.frontier_ok g limit (mBest st) (mQueue st) \<and>
     (\<forall>u b k s. mBest st u = Some b \<longrightarrow> (b, u) \<notin> set (mQueue st) \<longrightarrow> (k, s) \<in> set (mQueue st) \<longrightarrow> b \<le> k)"

lemma bs_sound_entry:
  assumes "bs_sound g from to limit st" "(k, u) \<in> set (mQueue st)"
  shows "costs (road_start from) (road_edge g) u k" "u = from \<or> k \<le> limit" "\<exists>b. mBest st u = Some b \<and> b \<le> k"
  using assms unfolding bs_sound_def by auto

text \<open>While the edges of \<open>v\<close>, reached at \<open>d\<close>, are gone through: those in \<open>J\<close> have been.\<close>

definition bs_expanding ::
  "graph \<Rightarrow> nat \<Rightarrow> nat \<Rightarrow> rat \<Rightarrow> rat \<Rightarrow> nat \<Rightarrow> nat set \<Rightarrow> nat set \<Rightarrow> bounded_search \<Rightarrow> bool" where
  "bs_expanding g from to limit d v C J st \<longleftrightarrow> bs_sound g from to limit st \<and>
     mBest st v = Some d \<and> (\<forall>k s. (k, s) \<in> set (mQueue st) \<longrightarrow> d \<le> k) \<and>
     (\<forall>u b. mBest st u = Some b \<longrightarrow> (b, u) \<notin> set (mQueue st) \<longrightarrow> b \<le> d) \<and>
     (\<forall>s. s \<noteq> v \<longrightarrow> open_in (mBest st) (mQueue st) (\<lambda>d v. d) s \<or> road.relaxed g limit (mBest st) s) \<and>
     (\<forall>i\<in>J. covered (mBest st) (\<lambda>c. c \<le> limit) (ed_target (g_edges g ! i)) (dadd d (lengthM g (g_edges g ! i)))) \<and>
     C \<subseteq> Collect (closed_in st) \<and> v \<in> C"

lemma bs_edge_expanding:
  assumes inv: "bs_expanding g from to limit d v C J st" and i: "i \<in> set (edgesFrom g v)" and wf: "graph_wf g"
  shows "bs_expanding g from to limit d v C (insert i J) (bs_edge g limit d i st)"
proof -
  let ?e = "g_edges g ! i"
  let ?t = "ed_target ?e" and ?n = "dadd d (lengthM g ?e)"
  let ?keep = "\<lambda>c. c \<le> limit"
  note inv' = inv [unfolded bs_expanding_def bs_sound_def]
  have lab: "mBest st v = Some d" and ok: "road.labels_ok from g (mBest st)" using inv' by blast+
  have edge: "road_edge g v ?t (lengthM g ?e)" using i by (auto simp: road_edge_def)
  have cv: "costs (road_start from) (road_edge g) v d" using ok lab by (simp add: road.labels_ok_def)
  have ct: "costs (road_start from) (road_edge g) ?t ?n" using cv edge by (rule costs_step)
  have dn: "d \<le> ?n" using road.costs_increase [OF cv edge] .
  show ?thesis
  proof (cases "?n > limit \<or> \<not> (case mBest st ?t of None \<Rightarrow> True | Some old \<Rightarrow> ?n < old)")
    case True
    then have same: "bs_edge g limit d i st = st" by (auto simp: bs_edge_def Let_def)
    have "covered (mBest st) ?keep ?t ?n" using True by (auto simp: covered_def split: option.splits)
    with inv same show ?thesis by (simp add: bs_expanding_def)
  next
    case False
    define b' q' where "b' = (mBest st)(?t \<mapsto> ?n)" and "q' = mQueue st @ [(?n, ?t)]"
    have new: "bs_edge g limit d i st = st\<lparr>mBest := b', mQueue := q'\<rparr>"
      using False by (simp add: bs_edge_def Let_def b'_def q'_def)
    have less: "?n < old" if "mBest st ?t = Some old" for old using False that by simp
    have tv: "?t \<noteq> v" using less lab dn by auto
    have fresh: "(?n, ?t) \<notin> set (mQueue st)"
      using inv' less by fastforce
    have le: "\<And>old. mBest st ?t = Some old \<Longrightarrow> ?n \<le> old" using less by fastforce
    have keepC: "u \<noteq> ?t" if "closed_in st u" for u
    proof
      assume "u = ?t"
      with that obtain b where b: "mBest st ?t = Some b" "(b, ?t) \<notin> set (mQueue st)" by (auto simp: closed_in_def)
      then have "b \<le> d" using inv' by blast
      with less [OF b(1)] dn show False by simp
    qed
    have closed: "closed_in (st\<lparr>mBest := b', mQueue := q'\<rparr>) u \<longleftrightarrow> closed_in st u" for u
      using keepC [of u] by (auto simp: closed_in_def b'_def q'_def)
    have sound: "bs_sound g from to limit (st\<lparr>mBest := b', mQueue := q'\<rparr>)"
      unfolding bs_sound_def
    proof (intro conjI)
      show "road.labels_ok from g (mBest (st\<lparr>mBest := b', mQueue := q'\<rparr>))"
        using road.labels_improve [OF ok ct] by (simp add: b'_def)
      show "from \<noteq> to" using inv' by blast
      show "\<forall>(k, u)\<in>set (mQueue (st\<lparr>mBest := b', mQueue := q'\<rparr>)).
          costs (road_start from) (road_edge g) u k \<and> (u = from \<or> k \<le> limit) \<and> (\<exists>b. mBest (st\<lparr>mBest := b', mQueue := q'\<rparr>) u = Some b \<and> b \<le> k)"
      proof (intro ballI, clarify)
        fix k u assume "(k, u) \<in> set (mQueue (st\<lparr>mBest := b', mQueue := q'\<rparr>))"
        then consider "k = ?n" "u = ?t" | "(k, u) \<in> set (mQueue st)" by (auto simp: q'_def)
        then show "costs (road_start from) (road_edge g) u k \<and> (u = from \<or> k \<le> limit) \<and> (\<exists>b. mBest (st\<lparr>mBest := b', mQueue := q'\<rparr>) u = Some b \<and> b \<le> k)"
        proof cases
          case 1
          with ct False show ?thesis by (simp add: b'_def)
        next
          case 2
          from inv have "bs_sound g from to limit st" by (simp add: bs_expanding_def)
          from bs_sound_entry [OF this 2] obtain b where "costs (road_start from) (road_edge g) u k"
            "u = from \<or> k \<le> limit" "mBest st u = Some b" "b \<le> k" by blast
          with le show ?thesis by (cases "u = ?t") (auto simp: b'_def intro: order_trans)
        qed
      qed
      show "distinct (mQueue (st\<lparr>mBest := b', mQueue := q'\<rparr>))" using inv' fresh by (simp add: q'_def)
      show "\<not> closed_in (st\<lparr>mBest := b', mQueue := q'\<rparr>) to" using inv' closed by blast
      show "covered (mBest (st\<lparr>mBest := b', mQueue := q'\<rparr>)) (\<lambda>c. True) from 0"
        using inv' le by (auto simp: covered_def b'_def intro: order_trans)
      have "?t < length (g_nodes g)" using edge_in_range(2) [OF wf edgesFrom_in_range [OF wf i]] .
      then show "dom (mBest (st\<lparr>mBest := b', mQueue := q'\<rparr>)) \<subseteq> {..<length (g_nodes g)}"
        using inv' by (simp add: b'_def)
      show "answer (st\<lparr>mBest := b', mQueue := q'\<rparr>) = None" using inv' by simp
    qed
    show ?thesis
      unfolding new bs_expanding_def
    proof (intro conjI)
      show "mBest (st\<lparr>mBest := b', mQueue := q'\<rparr>) v = Some d" using lab tv by (simp add: b'_def)
      show "\<forall>k s. (k, s) \<in> set (mQueue (st\<lparr>mBest := b', mQueue := q'\<rparr>)) \<longrightarrow> d \<le> k"
        using inv' dn by (auto simp: q'_def)
      show "\<forall>u b. mBest (st\<lparr>mBest := b', mQueue := q'\<rparr>) u = Some b \<longrightarrow>
          (b, u) \<notin> set (mQueue (st\<lparr>mBest := b', mQueue := q'\<rparr>)) \<longrightarrow> b \<le> d"
        using inv' by (auto simp: b'_def q'_def)
      show "\<forall>s. s \<noteq> v \<longrightarrow> open_in (mBest (st\<lparr>mBest := b', mQueue := q'\<rparr>)) (mQueue (st\<lparr>mBest := b', mQueue := q'\<rparr>)) (\<lambda>d v. d) s \<or>
          road.relaxed g limit (mBest (st\<lparr>mBest := b', mQueue := q'\<rparr>)) s"
      proof (intro allI impI)
        fix s assume "s \<noteq> v"
        show "open_in (mBest (st\<lparr>mBest := b', mQueue := q'\<rparr>)) (mQueue (st\<lparr>mBest := b', mQueue := q'\<rparr>)) (\<lambda>d v. d) s \<or>
          road.relaxed g limit (mBest (st\<lparr>mBest := b', mQueue := q'\<rparr>)) s"
        proof (cases "s = ?t")
          case True
          then show ?thesis by (simp add: open_in_def b'_def q'_def)
        next
          case False
          from \<open>s \<noteq> v\<close> inv' consider "open_in (mBest st) (mQueue st) (\<lambda>d v. d) s" | "road.relaxed g limit (mBest st) s" by blast
          then show ?thesis
          proof cases
            case 1
            with False show ?thesis by (simp add: open_in_def b'_def q'_def)
          next
            case 2
            from road.relaxed_improve [OF this False le] show ?thesis by (simp add: b'_def)
          qed
        qed
      qed
      show "\<forall>j\<in>insert i J. covered (mBest (st\<lparr>mBest := b', mQueue := q'\<rparr>)) ?keep (ed_target (g_edges g ! j))
          (dadd d (lengthM g (g_edges g ! j)))"
      proof
        fix j assume "j \<in> insert i J"
        then consider "j = i" | "covered (mBest st) ?keep (ed_target (g_edges g ! j)) (dadd d (lengthM g (g_edges g ! j)))"
          using inv' by blast
        then show "covered (mBest (st\<lparr>mBest := b', mQueue := q'\<rparr>)) ?keep (ed_target (g_edges g ! j)) (dadd d (lengthM g (g_edges g ! j)))"
        proof cases
          case 1
          then show ?thesis by (simp add: covered_def b'_def)
        next
          case 2
          from road.covered_improve [OF this le] show ?thesis by (simp add: b'_def)
        qed
      qed
      show "C \<subseteq> Collect (closed_in (st\<lparr>mBest := b', mQueue := q'\<rparr>))" using inv' by (auto simp: closed)
      show "v \<in> C" using inv' by blast
    qed (rule sound)
  qed
qed


lemma fold_bs_edge_expanding:
  assumes "bs_expanding g from to limit d v C J st" "set es \<subseteq> set (edgesFrom g v)" "graph_wf g"
  shows "bs_expanding g from to limit d v C (set es \<union> J) (fold (bs_edge g limit d) es st)"
  using assms
proof (induction es arbitrary: J st)
  case (Cons i es)
  from Cons.prems have "bs_expanding g from to limit d v C (insert i J) (bs_edge g limit d i st)"
    by (intro bs_edge_expanding) simp_all
  from Cons.IH [OF this] Cons.prems show ?case by simp
qed simp

text \<open>One turn of the loop: it answers, or keeps the invariant with one entry less or one vertex more closed.\<close>

definition bs_measure :: "graph \<Rightarrow> bounded_search \<Rightarrow> nat \<times> nat" where
  "bs_measure g st = (card ({..<length (g_nodes g)} - Collect (closed_in st)), length (mQueue st))"

definition bs_answers :: "graph \<Rightarrow> nat \<Rightarrow> nat \<Rightarrow> rat \<Rightarrow> rat option \<Rightarrow> bool" where
  "bs_answers g from to limit r \<longleftrightarrow>
     (case r of None \<Rightarrow> \<forall>es. drive g from es to \<longrightarrow> limit < drive_length g es
      | Some d \<Rightarrow> d \<le> limit \<and> (\<exists>es. drive g from es to \<and> drive_length g es = d) \<and>
                  (\<forall>es. drive g from es to \<longrightarrow> d \<le> drive_length g es))"

lemma bs_answers_costs:
  "bs_answers g from to limit r \<longleftrightarrow>
     (case r of None \<Rightarrow> \<forall>c. costs (road_start from) (road_edge g) to c \<longrightarrow> limit < c
      | Some d \<Rightarrow> d \<le> limit \<and> costs (road_start from) (road_edge g) to d \<and>
                  (\<forall>c. costs (road_start from) (road_edge g) to c \<longrightarrow> d \<le> c))"
  unfolding bs_answers_def drive_costs [symmetric] by (auto split: option.split)

lemma bs_inv_frontier:
  assumes "bs_inv g from to limit st" "costs (road_start from) (road_edge g) to c" "c \<le> limit"
  shows "\<exists>(k, u)\<in>set (mQueue st). k \<le> c"
proof -
  let ?edge = "road_edge g"
  have ok: "road.labels_ok from g (mBest st)" and fr: "road.frontier_ok g limit (mBest st) (mQueue st)"
    and cl: "\<not> closed_in st to" and st: "covered (mBest st) (\<lambda>c. True) from 0"
    using assms(1) by (simp_all add: bs_inv_def bs_sound_def)
  have "covered (mBest st) (\<lambda>c. c \<le> limit) s c" if "road_start from s c" for s c
    using that st by (auto simp: road_start_def covered_def)
  from road.frontier [OF fr this ok assms(2,3)] show ?thesis
  proof
    assume "\<exists>u d c1. mBest st u = Some d \<and> d \<le> c1 \<and> (d, u) \<in> set (mQueue st) \<and>
       costs (road_start from) ?edge u c1 \<and> costs (\<lambda>s k. s = u \<and> k = c1) ?edge to c"
    then obtain u d c1 where q: "(d, u) \<in> set (mQueue st)" "d \<le> c1" "costs (road_start from) ?edge u c1"
      and rest: "costs (\<lambda>s k. s = u \<and> k = c1) ?edge to c" by blast
    from q(3) have c1: "0 \<le> c1" "is_double c1" using road.costs_double by blast+
    from rest have "c1 \<le> c \<and> 0 \<le> c \<and> is_double c"
    proof (induction rule: costs.induct)
      case (costs_start s k)
      with c1 show ?case by simp
    next
      case (costs_step x k y w)
      then have w: "0 \<le> w" by (auto simp: road_edge_def)
      with costs_step.IH have "k \<le> dadd k w" by (intro dadd_increases) simp_all
      with costs_step.IH w show ?case by (auto intro: dadd_nonneg is_double_dadd)
    qed
    with q(1,2) show ?thesis by (intro bexI [of _ "(d, u)"]) auto
  next
    assume "\<exists>d. mBest st to = Some d \<and> d \<le> c \<and> \<not> open_in (mBest st) (mQueue st) (\<lambda>d v. d) to"
    with cl have False by (auto simp: closed_in_def open_in_def)
    then show ?thesis ..
  qed
qed

lemma bs_step_inv:
  assumes inv: "bs_inv g from to limit st" and run: "bs_running st" and pick: "heap_pick pick" and wf: "graph_wf g"
  shows "(\<exists>r. answer (bs_step g pick to limit st) = Some r \<and> bs_answers g from to limit r) \<or>
    bs_inv g from to limit (bs_step g pick to limit st) \<and>
    (bs_measure g (bs_step g pick to limit st), bs_measure g st) \<in> less_than <*lex*> less_than"
proof -
  obtain d v where dv: "mQueue st ! pick (mQueue st) = (d, v)" by fastforce
  define q where "q = remove_at (pick (mQueue st)) (mQueue st)"
  have ne: "mQueue st \<noteq> []" using run by (simp add: bs_running_def)
  note pop = heap_pickD [OF pick ne dv q_def]
  note inv' = inv [unfolded bs_inv_def bs_sound_def]
  have front: "d \<le> c" if "costs (road_start from) (road_edge g) to c" "c \<le> limit" for c
    using bs_inv_frontier [OF inv that] pop(4) by fastforce
  have entry: "(d, v) \<in> set (mQueue st)" using pop(2) by simp
  have "bs_sound g from to limit st" using inv by (simp add: bs_inv_def)
  from bs_sound_entry [OF this entry] obtain b where sound: "costs (road_start from) (road_edge g) v d"
    and within: "v = from \<or> d \<le> limit" and b: "mBest st v = Some b" "b \<le> d" by blast
  have step: "bs_step g pick to limit st =
     (if v = to then st\<lparr>mQueue := q, answer := Some (Some d)\<rparr>
      else if d > limit then st\<lparr>mQueue := q, answer := Some None\<rparr>
      else if d > b then st\<lparr>mQueue := q\<rparr> else fold (bs_edge g limit d) (edgesFrom g v) (st\<lparr>mQueue := q\<rparr>))"
    using dv b by (simp add: bs_step_def q_def Let_def)
  consider "v = to" | "v \<noteq> to" "d > limit" | "v \<noteq> to" "d \<le> limit" "d > b" | "v \<noteq> to" "d \<le> limit" "b = d"
    using b(2) by (cases "v = to"; cases "d \<le> limit"; cases "b = d") auto
  then show ?thesis
  proof cases
    case 1
    with within inv' have lim: "d \<le> limit" by blast
    have "d \<le> c" if "costs (road_start from) (road_edge g) to c" for c
      using front [OF that] lim by (cases "c \<le> limit") auto
    with 1 lim show ?thesis using sound by (auto simp: step bs_answers_costs)
  next
    case 2
    have "bs_answers g from to limit None" using front 2(2) by (fastforce simp: bs_answers_costs)
    with 2 show ?thesis by (simp add: step)
  next
    case 3
    have st': "bs_step g pick to limit st = st\<lparr>mQueue := q\<rparr>" using 3 by (simp add: step)

    have keys: "(k, u) \<in> set q" if "mBest st u = Some k" "(k, u) \<in> set (mQueue st)" for u k
      using that pop(2) b(1) 3(3) by auto
    have cl: "closed_in (st\<lparr>mQueue := q\<rparr>) = closed_in st"
      by (rule ext) (use keys pop(2) in \<open>auto simp: closed_in_def\<close>)
    have "bs_sound g from to limit (st\<lparr>mQueue := q\<rparr>)"
      using inv' pop(2,3) unfolding bs_sound_def by (simp add: cl)
    moreover have "road.frontier_ok g limit (mBest st) q"
      using inv' keys unfolding road.frontier_ok_def open_in_def by blast
    moreover have "b' \<le> k" if "mBest st u = Some b'" "(b', u) \<notin> set q" "(k, s) \<in> set q" for u b' k s
      using inv' keys that pop(2) by blast
    ultimately have "bs_inv g from to limit (st\<lparr>mQueue := q\<rparr>)" by (simp add: bs_inv_def)
    moreover have "(bs_measure g (st\<lparr>mQueue := q\<rparr>), bs_measure g st) \<in> less_than <*lex*> less_than"
      using pop(1) by (simp add: bs_measure_def cl)
    ultimately show ?thesis unfolding st' by blast
  next
    case 4
    let ?C = "insert v (Collect (closed_in st))"
    let ?st = "st\<lparr>mQueue := q\<rparr>"
    let ?fin = "fold (bs_edge g limit d) (edgesFrom g v) ?st"
    have st': "bs_step g pick to limit st = ?fin" using 4 by (simp add: step)
    have out: "(d, v) \<notin> set q" using pop(3) inv' by blast
    have cl: "closed_in ?st u \<longleftrightarrow> u = v \<or> closed_in st u" for u
      using out pop(2) b(1) 4(3) by (auto simp: closed_in_def)
    have open_v: "\<not> closed_in st v" using entry b(1) 4(3) by (simp add: closed_in_def)
    have "bs_sound g from to limit ?st"
      using inv' pop(2,3) 4(1) unfolding bs_sound_def by (simp add: cl)
    moreover have "\<forall>s. s \<noteq> v \<longrightarrow> open_in (mBest ?st) (mQueue ?st) (\<lambda>d v. d) s \<or> road.relaxed g limit (mBest ?st) s"
    proof (intro allI impI)
      fix s assume "s \<noteq> v"
      from inv' have "open_in (mBest st) (mQueue st) (\<lambda>d v. d) s \<or> road.relaxed g limit (mBest st) s"
        unfolding road.frontier_ok_def by blast
      with \<open>s \<noteq> v\<close> pop(2) show "open_in (mBest ?st) (mQueue ?st) (\<lambda>d v. d) s \<or> road.relaxed g limit (mBest ?st) s"
        by (auto simp: open_in_def)
    qed
    moreover have "b' \<le> d" if "mBest ?st u = Some b'" "(b', u) \<notin> set (mQueue ?st)" for u b'
    proof (cases "u = v")
      case True
      with that b(1) 4(3) show ?thesis by simp
    next
      case False
      with that pop(2) have "(b', u) \<notin> set (mQueue st)" by auto
      with that(1) inv' entry show ?thesis by fastforce
    qed
    moreover have "d \<le> k" if "(k, s) \<in> set (mQueue ?st)" for k s
      using that pop(2,4) by auto
    ultimately have "bs_expanding g from to limit d v ?C {} ?st"
      using b(1) 4(3) cl by (auto simp: bs_expanding_def)
    from fold_bs_edge_expanding [OF this order_refl wf]
    have e: "bs_expanding g from to limit d v ?C (set (edgesFrom g v)) ?fin" by simp
    note e' = e [unfolded bs_expanding_def]
    have "road.relaxed g limit (mBest ?fin) v"
      using e' by (auto simp: road.relaxed_def road_edge_def)
    then have "road.frontier_ok g limit (mBest ?fin) (mQueue ?fin)"
      using e' unfolding road.frontier_ok_def by metis
    moreover have "b' \<le> k" if "mBest ?fin u = Some b'" "(b', u) \<notin> set (mQueue ?fin)" "(k, s) \<in> set (mQueue ?fin)" for u b' k s
      using e' that by (meson order_trans)
    ultimately have "bs_inv g from to limit ?fin" using e' by (simp add: bs_inv_def)
    moreover have "card ({..<length (g_nodes g)} - Collect (closed_in ?fin)) <
        card ({..<length (g_nodes g)} - Collect (closed_in st))"
    proof (rule psubset_card_mono)
      have "v < length (g_nodes g)" using b(1) inv' by auto
      moreover have "?C \<subseteq> Collect (closed_in ?fin)" using e' by blast
      ultimately show "{..<length (g_nodes g)} - Collect (closed_in ?fin) \<subset> {..<length (g_nodes g)} - Collect (closed_in st)"
        using open_v by auto
    qed simp
    ultimately show ?thesis unfolding st' by (simp add: bs_measure_def)
  qed
qed


lemma bs_start_inv: "from < length (g_nodes g) \<Longrightarrow> from \<noteq> to \<Longrightarrow> bs_inv g from to limit (bs_start from)"
  unfolding bs_inv_def bs_sound_def road.labels_ok_def road.frontier_ok_def
  by (auto simp: bs_start_def closed_in_def covered_def open_in_def road.relaxed_def road_start_def intro: costs_start)

lemma bs_loop:
  assumes inv: "bs_inv g from to limit st" and pick: "heap_pick pick" and wf: "graph_wf g"
  shows "\<exists>st'. while_option bs_running (bs_step g pick to limit) st = Some st' \<and>
    bs_answers g from to limit (case answer st' of None \<Rightarrow> None | Some r \<Rightarrow> r)"
proof -
  let ?P = "\<lambda>st. bs_inv g from to limit st \<or> (\<exists>r. answer st = Some r \<and> bs_answers g from to limit r)"
  let ?m = "\<lambda>st. ((if answer st = None then Suc 0 else 0), bs_measure g st)"
  have turn: "?P (bs_step g pick to limit s) \<and>
      (?m (bs_step g pick to limit s), ?m s) \<in> less_than <*lex*> (less_than <*lex*> less_than)"
    if "?P s" "bs_running s" for s
  proof -
    from that have s: "bs_inv g from to limit s" "answer s = None" by (auto simp: bs_running_def)
    from bs_step_inv [OF s(1) that(2) pick wf] show ?thesis
    proof
      assume "\<exists>r. answer (bs_step g pick to limit s) = Some r \<and> bs_answers g from to limit r"
      with s(2) show ?thesis by auto
    next
      assume a: "bs_inv g from to limit (bs_step g pick to limit s) \<and>
        (bs_measure g (bs_step g pick to limit s), bs_measure g s) \<in> less_than <*lex*> less_than"
      then have "answer (bs_step g pick to limit s) = None" by (simp add: bs_inv_def bs_sound_def)
      with a s(2) show ?thesis by auto
    qed
  qed
  have "\<exists>st'. while_option bs_running (bs_step g pick to limit) st = Some st'"
  proof (rule wf_rel_while_option_Some [where P = ?P])
    show "wf (inv_image (less_than <*lex*> (less_than <*lex*> less_than)) ?m)" by auto
  qed (use turn inv in auto)
  then obtain st' where st': "while_option bs_running (bs_step g pick to limit) st = Some st'" by blast
  have "?P st'" using while_option_rule [of ?P, OF _ st'] turn inv by blast
  then show ?thesis
  proof
    assume i: "bs_inv g from to limit st'"
    then have "answer st' = None" by (simp add: bs_inv_def bs_sound_def)
    moreover have "\<not> bs_running st'" using while_option_stop [OF st'] .
    ultimately have "mQueue st' = []" by (simp add: bs_running_def)
    with bs_inv_frontier [OF i] have "bs_answers g from to limit None"
      by (fastforce simp: bs_answers_costs)
    with st' \<open>answer st' = None\<close> show ?thesis by simp
  qed (use st' in auto)
qed

text \<open>
  C30.  The bounded search always returns.  A junction is at distance nothing from itself; an unknown junction is at no distance.  Of two
  different junctions it finds none when they are further apart than the limit as the crow flies; otherwise it returns the
  length of the shortest drive when that is within the limit, and nothing when no drive is.  A drive's length is the sum the code
  forms, edge by edge in double arithmetic.  This holds however the heap breaks ties.  The check as the crow flies is not implied by
  the lengths: those are cut off to whole centimetres, and a drive within the limit can be refused (\<open>bounded_distance_misses\<close>).
\<close>

theorem bounded_distance_shortest:
  assumes "graph_wf g" "heap_pick pick"
  shows "if from = to then boundedDistance g crow pick from to limit = Some (Some 0)
    else if length (g_nodes g) \<le> from \<or> length (g_nodes g) \<le> to \<or> limit < crow (g_nodes g ! from) (g_nodes g ! to)
    then boundedDistance g crow pick from to limit = Some None
    else \<exists>r. boundedDistance g crow pick from to limit = Some r \<and>
      (case r of None \<Rightarrow> \<forall>es. drive g from es to \<longrightarrow> limit < drive_length g es
       | Some d \<Rightarrow> d \<le> limit \<and> (\<exists>es. drive g from es to \<and> drive_length g es = d) \<and>
                   (\<forall>es. drive g from es to \<longrightarrow> d \<le> drive_length g es))"
proof (cases "from = to \<or> length (g_nodes g) \<le> from \<or> length (g_nodes g) \<le> to \<or> limit < crow (g_nodes g ! from) (g_nodes g ! to)")
  case True
  then show ?thesis by (auto simp: boundedDistance_def)
next
  case False
  then have "from < length (g_nodes g)" "from \<noteq> to" by simp_all
  from bs_loop [OF bs_start_inv [OF this] assms(2,1)] obtain st' where
    st': "while_option bs_running (bs_step g pick to limit) (bs_start from) = Some st'"
    "bs_answers g from to limit (case answer st' of None \<Rightarrow> None | Some r \<Rightarrow> r)" by blast
  then have "\<exists>r. boundedDistance g crow pick from to limit = Some r \<and> bs_answers g from to limit r"
    using False by (simp add: boundedDistance_def)
  with False show ?thesis by (simp add: bs_answers_def)
qed

theorem bounded_distance_shortest_witness:
  "\<exists>r. boundedDistance triangle (\<lambda>a b. 150) first_min 0 2 1000 = Some r \<and>
    (case r of None \<Rightarrow> \<forall>es. drive triangle 0 es 2 \<longrightarrow> 1000 < drive_length triangle es
     | Some d \<Rightarrow> d \<le> 1000 \<and> (\<exists>es. drive triangle 0 es 2 \<and> drive_length triangle es = d) \<and>
                 (\<forall>es. drive triangle 0 es 2 \<longrightarrow> d \<le> drive_length triangle es))"
  using bounded_distance_shortest [OF triangle_wf heap_pick_first_min, of 0 2 "\<lambda>a b. 150" 1000]
  by (simp add: triangle_def)

text \<open>
  A straight street of 100.009 m, stored as 10000 cm: within a limit of 100.005 m there is a drive, of 100 m, and the search
  says there is none.
\<close>

theorem bounded_distance_misses:
  "boundedDistance triangle (\<lambda>a b. 100009 / 1000) pick 0 1 (100005 / 1000) = Some None \<and>
   int (lengthCm (g_segments triangle ! 0)) = \<lfloor>100 * (100009 / 1000 :: rat)\<rfloor> \<and>
   drive triangle 0 [0] 1 \<and> drive_length triangle [0] = 100"
  by (simp add: boundedDistance_def drive_length_def lengthM_def dadd_def edgesFrom_def triangle_def triangle_edge_def
    triangle_segment_def to_double_numeral floor_eq_iff upt_rec)

end
