(* ===== verification/RoadRoute.thy ===== *)
theory RoadRoute
  imports RoadSearch
begin

text \<open>
  libs/road_graph/src/search.cpp, \<open>findRoute\<close>: A* over directed edges, so that turn restrictions and the
  ban on turning round can be told from how a junction was reached.  The model keeps the code's
  hash maps, its heap with stale entries and its tolerance of a microsecond, and the bound on the settled
  edges.
\<close>

section \<open>Costs and the heuristic\<close>

definition edge_cost :: "graph \<Rightarrow> nat \<Rightarrow> rat" where
  "edge_cost g i = to_double (of_nat (costDs (g_edges g ! i)) / 10)"

definition fastestMps :: "graph \<Rightarrow> rat" where
  "fastestMps g = max 1 (to_double (of_nat (g_maxFreeFlowSpeedKph g) / to_double (36 / 10)))"

definition heuristic :: "graph \<Rightarrow> (node_record \<Rightarrow> node_record \<Rightarrow> rat) \<Rightarrow> nat \<Rightarrow> nat \<Rightarrow> rat" where
  "heuristic g crow to node = to_double (crow (g_nodes g ! node) (g_nodes g ! to) / fastestMps g)"

definition route_tolerance :: rat where
  "route_tolerance = to_double (1 / 1000000)"

section \<open>The search\<close>

datatype route_end = Arrived nat | GaveUp

record route_state =
  rs_best :: "nat \<Rightarrow> rat option"
  rs_cameFrom :: "nat \<Rightarrow> nat option"
  rs_queue :: "(rat \<times> nat) list"
  rs_settled :: nat
  rs_end :: "route_end option"

definition turn_ok :: "graph \<Rightarrow> nat \<Rightarrow> nat \<Rightarrow> bool" where
  "turn_ok g i j =
     (let edge = g_edges g ! i; nxt = g_edges g ! j in
      if ed_segment nxt = ed_segment edge \<and> length (edgesFrom g (ed_target edge)) > 1 then False
      else turnAllowed g (ed_segment edge) (ed_target edge) (ed_segment nxt))"

definition rs_next :: "graph \<Rightarrow> (nat \<Rightarrow> rat) \<Rightarrow> nat \<Rightarrow> rat \<Rightarrow> nat \<Rightarrow> route_state \<Rightarrow> route_state" where
  "rs_next g h i cost j st =
     (if \<not> turn_ok g i j then st
      else let candidate = dadd cost (edge_cost g j) in
        if (case rs_best st j of None \<Rightarrow> False | Some old \<Rightarrow> candidate \<ge> old) then st
        else st\<lparr>rs_best := (rs_best st)(j \<mapsto> candidate), rs_cameFrom := (rs_cameFrom st)(j \<mapsto> i),
                rs_queue := rs_queue st @ [(dadd candidate (h (ed_target (g_edges g ! j))), j)]\<rparr>)"

definition rs_step ::
  "graph \<Rightarrow> (nat \<Rightarrow> rat) \<Rightarrow> ((rat \<times> nat) list \<Rightarrow> nat) \<Rightarrow> nat \<Rightarrow> nat \<Rightarrow> route_state \<Rightarrow> route_state" where
  "rs_step g h pick to maxSettled st =
     (let (priority, i) = rs_queue st ! pick (rs_queue st);
          st = st\<lparr>rs_queue := remove_at (pick (rs_queue st)) (rs_queue st)\<rparr>;
          target = ed_target (g_edges g ! i);
          cost = (case rs_best st i of None \<Rightarrow> 0 | Some c \<Rightarrow> c);
          st = st\<lparr>rs_best := (rs_best st)(i \<mapsto> cost)\<rparr> in
      if priority > dadd (dadd cost (h target)) route_tolerance then st
      else if target = to then st\<lparr>rs_end := Some (Arrived i)\<rparr>
      else let st = st\<lparr>rs_settled := rs_settled st + 1\<rparr> in
        if rs_settled st > maxSettled then st\<lparr>rs_end := Some GaveUp\<rparr>
        else fold (rs_next g h i cost) (edgesFrom g target) st)"

definition rs_running :: "route_state \<Rightarrow> bool" where
  "rs_running st \<longleftrightarrow> rs_end st = None \<and> rs_queue st \<noteq> []"

definition rs_start :: "graph \<Rightarrow> (nat \<Rightarrow> rat) \<Rightarrow> nat \<Rightarrow> route_state" where
  "rs_start g h from = fold (\<lambda>i st. st\<lparr>
       rs_best := (case rs_best st i of None \<Rightarrow> (rs_best st)(i \<mapsto> edge_cost g i) | Some c \<Rightarrow> rs_best st),
       rs_queue := rs_queue st @ [(dadd (edge_cost g i) (h (ed_target (g_edges g ! i))), i)]\<rparr>)
     (edgesFrom g from)
     \<lparr>rs_best = (\<lambda>i. None), rs_cameFrom = (\<lambda>i. None), rs_queue = [], rs_settled = 0, rs_end = None\<rparr>"

definition route_search ::
  "graph \<Rightarrow> (node_record \<Rightarrow> node_record \<Rightarrow> rat) \<Rightarrow> ((rat \<times> nat) list \<Rightarrow> nat) \<Rightarrow> nat \<Rightarrow> nat \<Rightarrow> nat \<Rightarrow>
   route_state option" where
  "route_search g crow pick from to maxSettled =
     while_option rs_running (rs_step g (heuristic g crow to) pick to maxSettled) (rs_start g (heuristic g crow to) from)"

section \<open>The route\<close>

text \<open>From the arrival back along \<open>cameFrom\<close>; \<open>None\<close> would be a chain without an end.\<close>

partial_function (option) trace_back :: "(nat \<Rightarrow> nat option) \<Rightarrow> nat \<Rightarrow> nat list \<Rightarrow> nat list option" where
  "trace_back cameFrom i path =
     (case cameFrom i of None \<Rightarrow> Some (rev (path @ [i])) | Some found \<Rightarrow> trace_back cameFrom found (path @ [i]))"

record route =
  ro_segments :: "nat list"
  ro_geometry :: "int list"
  ro_segmentStarts :: "nat list"
  ro_distanceM :: rat
  ro_durationS :: rat

text \<open>The pairs of a list read from its end.\<close>

fun pairs_back :: "int list \<Rightarrow> int list" where
  "pairs_back (lon # lat # xs) = lat # lon # pairs_back xs"
| "pairs_back xs = []"

definition edge_geometry :: "graph \<Rightarrow> nat \<Rightarrow> int list" where
  "edge_geometry g i =
     (let geometry = geometryOf g (g_segments g ! ed_segment (g_edges g ! i)) in
      if ed_forward (g_edges g ! i) \<noteq> 0 then take (2 * (length geometry div 2)) geometry
      else pairs_back (rev geometry))"

definition add_edge :: "graph \<Rightarrow> nat \<Rightarrow> route \<Rightarrow> route" where
  "add_edge g i r =
     (let edge = g_edges g ! i; segment = g_segments g ! ed_segment edge in
      r\<lparr>ro_segments := ro_segments r @ [ed_segment edge],
        ro_distanceM := dadd (ro_distanceM r) (to_double (of_nat (lengthCm segment) / 100)),
        ro_segmentStarts := ro_segmentStarts r @ [length (ro_geometry r) div 2],
        ro_geometry := ro_geometry r @ edge_geometry g i\<rparr>)"

definition empty_route :: route where
  "empty_route = \<lparr>ro_segments = [], ro_geometry = [], ro_segmentStarts = [], ro_distanceM = 0, ro_durationS = 0\<rparr>"

definition route_along :: "graph \<Rightarrow> rat \<Rightarrow> nat list \<Rightarrow> route" where
  "route_along g duration path =
     (let r = fold (add_edge g) path (empty_route\<lparr>ro_durationS := duration\<rparr>) in
      r\<lparr>ro_segmentStarts := ro_segmentStarts r @ [length (ro_geometry r) div 2]\<rparr>)"

text \<open>The outer \<open>None\<close> is a search that does not return; the inner one is \<open>nullopt\<close>.\<close>

definition findRoute ::
  "graph \<Rightarrow> (node_record \<Rightarrow> node_record \<Rightarrow> rat) \<Rightarrow> ((rat \<times> nat) list \<Rightarrow> nat) \<Rightarrow> nat \<Rightarrow> nat \<Rightarrow> nat \<Rightarrow>
   route option option" where
  "findRoute g crow pick from to maxSettled =
     (if from \<ge> length (g_nodes g) \<or> to \<ge> length (g_nodes g) then Some None
      else if from = to then Some (Some empty_route)
      else case route_search g crow pick from to maxSettled of None \<Rightarrow> None
        | Some st \<Rightarrow>
          (case rs_end st of Some (Arrived arrival) \<Rightarrow>
             (case trace_back (rs_cameFrom st) arrival [] of None \<Rightarrow> None
              | Some path \<Rightarrow> Some (Some (route_along g (case rs_best st arrival of None \<Rightarrow> 0 | Some c \<Rightarrow> c) path)))
           | _ \<Rightarrow> Some None))"

declare trace_back.simps [code]

section \<open>Legal drives\<close>

text \<open>A drive the router may answer with: contiguous edges, every turn allowed; its cost as the code adds it up.\<close>

fun legal_turns :: "graph \<Rightarrow> nat list \<Rightarrow> bool" where
  "legal_turns g (i # j # es) \<longleftrightarrow> turn_ok g i j \<and> legal_turns g (j # es)"
| "legal_turns g es \<longleftrightarrow> True"

definition legal_drive :: "graph \<Rightarrow> nat \<Rightarrow> nat list \<Rightarrow> nat \<Rightarrow> bool" where
  "legal_drive g from es to \<longleftrightarrow> es \<noteq> [] \<and> drive g from es to \<and> legal_turns g es"

definition drive_cost :: "graph \<Rightarrow> rat \<Rightarrow> nat list \<Rightarrow> rat" where
  "drive_cost g c es = foldl (\<lambda>d i. dadd d (edge_cost g i)) c es"

definition turn_edge :: "graph \<Rightarrow> nat \<Rightarrow> nat \<Rightarrow> rat \<Rightarrow> bool" where
  "turn_edge g i j w \<longleftrightarrow> j \<in> set (edgesFrom g (ed_target (g_edges g ! i))) \<and> turn_ok g i j \<and> w = edge_cost g j"

definition first_edge :: "graph \<Rightarrow> nat \<Rightarrow> nat \<Rightarrow> rat \<Rightarrow> bool" where
  "first_edge g from i c \<longleftrightarrow> i \<in> set (edgesFrom g from) \<and> c = edge_cost g i"

lemma edge_cost_nonneg [simp]: "0 \<le> edge_cost g i"
  by (simp add: edge_cost_def)

lemma edge_cost_double [simp]: "is_double (edge_cost g i)"
  by (simp add: edge_cost_def is_double_to_double)

lemma dadd_0_left [simp]: "is_double x \<Longrightarrow> dadd 0 x = x"
  by (simp add: dadd_def is_double_def)

lemma dadd_0_right [simp]: "is_double x \<Longrightarrow> dadd x 0 = x"
  by (simp add: dadd_def is_double_def)

lemma heuristic_nonneg: "(\<And>a b. 0 \<le> crow a b) \<Longrightarrow> 0 \<le> heuristic g crow to n"
  by (simp add: heuristic_def fastestMps_def)

lemma legal_turns_snoc: "legal_turns g (es @ [i, j]) \<longleftrightarrow> legal_turns g (es @ [i]) \<and> turn_ok g i j"
  by (induction g es rule: legal_turns.induct) auto

lemma drive_snoc: "drive g u (es @ [i]) v \<longleftrightarrow>
    (\<exists>w. drive g u es w \<and> i \<in> set (edgesFrom g w) \<and> v = ed_target (g_edges g ! i))"
  by (auto simp: drive_append)

text \<open>Legal drives up to an edge are the walks of the search.\<close>

lemma legal_drive_costs:
  "(\<exists>es. legal_drive g from (es @ [i]) (ed_target (g_edges g ! i)) \<and> drive_cost g 0 (es @ [i]) = c)
   \<longleftrightarrow> costs (first_edge g from) (turn_edge g) i c"
proof
  show "\<exists>es. legal_drive g from (es @ [i]) (ed_target (g_edges g ! i)) \<and> drive_cost g 0 (es @ [i]) = c
    \<Longrightarrow> costs (first_edge g from) (turn_edge g) i c"
  proof (elim exE conjE)
    fix es
    assume "legal_drive g from (es @ [i]) (ed_target (g_edges g ! i))" "drive_cost g 0 (es @ [i]) = c"
    then show ?thesis
    proof (induction es arbitrary: i c rule: rev_induct)
      case Nil
      then show ?case by (intro costs_start) (simp add: first_edge_def legal_drive_def drive_cost_def)
    next
      case (snoc j es)
      have l: "legal_drive g from (es @ [j]) (ed_target (g_edges g ! j))"
        and t: "turn_edge g j i (edge_cost g i)"
        using snoc.prems(1) by (auto simp: legal_drive_def drive_append legal_turns_snoc turn_edge_def)
      from costs_step [OF snoc.IH [OF l refl] t] show ?case
        using snoc.prems(2) by (simp add: drive_cost_def)
    qed
  qed
  show "costs (first_edge g from) (turn_edge g) i c \<Longrightarrow>
    \<exists>es. legal_drive g from (es @ [i]) (ed_target (g_edges g ! i)) \<and> drive_cost g 0 (es @ [i]) = c"
  proof (induction rule: costs.induct)
    case (costs_start s c)
    then show ?case by (intro exI [of _ "[]"]) (simp add: first_edge_def legal_drive_def drive_cost_def)
  next
    case (costs_step u c v w)
    then obtain es where "legal_drive g from (es @ [u]) (ed_target (g_edges g ! u))" "drive_cost g 0 (es @ [u]) = c"
      by blast
    with costs_step.hyps(2) show ?case
      by (intro exI [of _ "es @ [u]"])
        (auto simp: legal_drive_def drive_append legal_turns_snoc turn_edge_def drive_cost_def)
  qed
qed

definition route_key :: "graph \<Rightarrow> (nat \<Rightarrow> rat) \<Rightarrow> rat \<Rightarrow> nat \<Rightarrow> rat" where
  "route_key g h d i = dadd d (h (ed_target (g_edges g ! i)))"

interpretation route: best_first "first_edge g src" "turn_edge g" "route_key g h" "\<lambda>c. True"
  for g :: graph and src :: nat and h :: "nat \<Rightarrow> rat"
  by unfold_locales (auto simp: first_edge_def turn_edge_def)


section \<open>The tree of predecessors\<close>

definition came_rel :: "(nat \<Rightarrow> nat option) \<Rightarrow> (nat \<times> nat) set" where
  "came_rel cf = {(p, i). cf i = Some p}"

definition tree_ok :: "graph \<Rightarrow> nat \<Rightarrow> (nat \<Rightarrow> rat option) \<Rightarrow> (nat \<Rightarrow> nat option) \<Rightarrow> bool" where
  "tree_ok g src best cf \<longleftrightarrow> acyclic (came_rel cf) \<and>
     (\<forall>i p. cf i = Some p \<longrightarrow> (\<exists>c d. best p = Some c \<and> best i = Some d \<and> turn_edge g p i (edge_cost g i) \<and>
        dadd c (edge_cost g i) \<le> d)) \<and>
     (\<forall>i d. best i = Some d \<longrightarrow> cf i = None \<longrightarrow> first_edge g src i d) \<and>
     dom best \<subseteq> {..<length (g_edges g)}"

lemma tree_ancestor:
  assumes "tree_ok g src best cf" "route.labels_ok g src best" "(a, b) \<in> (came_rel cf)\<^sup>*" "best b = Some d"
  shows "\<exists>c. best a = Some c \<and> c \<le> d"
  using assms(3,4)
proof (induction arbitrary: d rule: rtrancl_induct)
  case (step y z)
  then have "cf z = Some y" by (simp add: came_rel_def)
  with assms(1) obtain c d' where c: "best y = Some c" "best z = Some d'" "dadd c (edge_cost g z) \<le> d'"
    unfolding tree_ok_def by blast
  have "c \<le> dadd c (edge_cost g z)" using route.label_double [OF assms(2) c(1)] by (simp add: dadd_increases)
  with c step.prems step.IH [OF c(1)] show ?case by (auto intro: order_trans)
qed simp

lemma tree_improve:
  assumes ok: "tree_ok g src best cf" "route.labels_ok g src best" and i: "best i = Some c"
    and edge: "turn_edge g i j (edge_cost g j)" and j: "j < length (g_edges g)"
    and less: "\<And>old. best j = Some old \<Longrightarrow> dadd c (edge_cost g j) < old"
  shows "tree_ok g src (best(j \<mapsto> dadd c (edge_cost g j))) (cf(j \<mapsto> i))"
proof -
  let ?n = "dadd c (edge_cost g j)"
  have cn: "c \<le> ?n" using route.label_double [OF ok(2) i] by (simp add: dadd_increases)
  have anc: "(j, i) \<notin> (came_rel cf)\<^sup>*"
  proof
    assume "(j, i) \<in> (came_rel cf)\<^sup>*"
    from tree_ancestor [OF ok this i] obtain b where "best j = Some b" "b \<le> c" by blast
    with less cn show False by fastforce
  qed
  have "acyclic (insert (i, j) (came_rel cf))" using ok(1) anc by (simp add: acyclic_insert tree_ok_def)
  moreover have "came_rel (cf(j \<mapsto> i)) \<subseteq> insert (i, j) (came_rel cf)" by (auto simp: came_rel_def split: if_splits)
  ultimately have acyc: "acyclic (came_rel (cf(j \<mapsto> i)))" by (rule acyclic_subset)
  have ij: "i \<noteq> j" using anc by blast
  have parent: "\<exists>c' d. (best(j \<mapsto> ?n)) p = Some c' \<and> (best(j \<mapsto> ?n)) k = Some d \<and> turn_edge g p k (edge_cost g k) \<and>
      dadd c' (edge_cost g k) \<le> d" if "(cf(j \<mapsto> i)) k = Some p" for k p
  proof (cases "k = j")
    case True
    with that i ij edge show ?thesis by auto
  next
    case False
    with that ok(1) obtain c' d where c': "best p = Some c'" "best k = Some d" "turn_edge g p k (edge_cost g k)"
      "dadd c' (edge_cost g k) \<le> d" unfolding tree_ok_def by (metis fun_upd_other)
    show ?thesis
    proof (cases "p = j")
      case True
      with c'(1) less have "?n \<le> c'" by fastforce
      moreover have "0 \<le> ?n" using route.label_double [OF ok(2) i] by (simp add: dadd_nonneg)
      ultimately have "dadd ?n (edge_cost g k) \<le> dadd c' (edge_cost g k)" by (intro dadd_mono) simp_all
      with c' True False show ?thesis by auto
    qed (use c' False in auto)
  qed
  show ?thesis
    unfolding tree_ok_def using acyc parent ok(1) j
    by (auto simp: tree_ok_def split: if_splits)
qed

lemma tree_path:
  assumes ok: "tree_ok g src best cf" "route.labels_ok g src best" and i: "best i = Some d"
  shows "\<exists>es. trace_back cf i path = Some (es @ i # rev path) \<and>
    legal_drive g src (es @ [i]) (ed_target (g_edges g ! i)) \<and> drive_cost g 0 (es @ [i]) \<le> d"
proof -
  have "came_rel cf \<subseteq> {..<length (g_edges g)} \<times> {..<length (g_edges g)}"
    using ok(1) unfolding tree_ok_def came_rel_def by blast
  then have "finite (came_rel cf)" by (rule finite_subset) simp
  then have "wf (came_rel cf)" using ok(1) by (simp add: tree_ok_def finite_acyclic_wf)
  then show ?thesis using i
  proof (induction i arbitrary: d path rule: wf_induct_rule)
    case (less i)
    show ?case
    proof (cases "cf i")
      case None
      with ok(1) less.prems have f: "first_edge g src i d" by (auto simp: tree_ok_def)
      then have "legal_drive g src ([] @ [i]) (ed_target (g_edges g ! i))" "drive_cost g 0 ([] @ [i]) \<le> d"
        by (simp_all add: first_edge_def legal_drive_def drive_cost_def)
      moreover have "trace_back cf i path = Some ([] @ i # rev path)"
        using None by (subst trace_back.simps) simp
      ultimately show ?thesis by blast
    next
      case (Some p)
      then obtain c d' where c: "best p = Some c" "best i = Some d'" "turn_edge g p i (edge_cost g i)"
        "dadd c (edge_cost g i) \<le> d'" using ok(1) unfolding tree_ok_def by blast
      have "(p, i) \<in> came_rel cf" using Some by (simp add: came_rel_def)
      from less.IH [OF this c(1), of "path @ [i]"] obtain es where es:
        "trace_back cf p (path @ [i]) = Some (es @ p # i # rev path)"
        "legal_drive g src (es @ [p]) (ed_target (g_edges g ! p))" "drive_cost g 0 (es @ [p]) \<le> c" by auto
      have "trace_back cf i path = Some ((es @ [p]) @ i # rev path)"
        using Some es(1) by (subst trace_back.simps) simp
      moreover have "legal_drive g src ((es @ [p]) @ [i]) (ed_target (g_edges g ! i))"
        using es(2) c(3) by (auto simp: legal_drive_def drive_append legal_turns_snoc turn_edge_def)
      moreover have "drive_cost g 0 ((es @ [p]) @ [i]) \<le> d"
      proof -
        have "costs (first_edge g src) (turn_edge g) p (drive_cost g 0 (es @ [p]))"
          using es(2) legal_drive_costs [of g src p "drive_cost g 0 (es @ [p])"] by blast
        then have "0 \<le> drive_cost g 0 (es @ [p])" using route.costs_double by blast
        then have "dadd (drive_cost g 0 (es @ [p])) (edge_cost g i) \<le> dadd c (edge_cost g i)"
          using es(3) by (intro dadd_mono) simp_all
        with c less.prems show ?thesis by (simp add: drive_cost_def)
      qed
      ultimately show ?thesis by blast
    qed
  qed
qed


section \<open>The invariant of the search\<close>

definition rs_sound :: "graph \<Rightarrow> (nat \<Rightarrow> rat) \<Rightarrow> nat \<Rightarrow> nat \<Rightarrow> route_state \<Rightarrow> bool" where
  "rs_sound g h src to st \<longleftrightarrow>
     route.labels_ok g src (rs_best st) \<and> tree_ok g src (rs_best st) (rs_cameFrom st) \<and>
     (\<forall>p i. (p, i) \<in> set (rs_queue st) \<longrightarrow> (\<exists>c. rs_best st i = Some c \<and> route_key g h c i \<le> p)) \<and>
     (\<forall>i. rs_best st i \<noteq> None \<longrightarrow> ed_target (g_edges g ! i) = to \<longrightarrow> open_in (rs_best st) (rs_queue st) (route_key g h) i) \<and>
     (\<forall>i c. first_edge g src i c \<longrightarrow> covered (rs_best st) (\<lambda>c. True) i c) \<and> rs_end st = None"

definition rs_inv :: "graph \<Rightarrow> (nat \<Rightarrow> rat) \<Rightarrow> nat \<Rightarrow> nat \<Rightarrow> route_state \<Rightarrow> bool" where
  "rs_inv g h src to st \<longleftrightarrow> rs_sound g h src to st \<and> route.frontier_ok g h (rs_best st) (rs_queue st)"

text \<open>While the turns out of edge \<open>i\<close>, reached at \<open>c\<close>, are gone through: those in \<open>J\<close> have been.\<close>

definition rs_expanding ::
  "graph \<Rightarrow> (nat \<Rightarrow> rat) \<Rightarrow> nat \<Rightarrow> nat \<Rightarrow> nat \<Rightarrow> rat \<Rightarrow> nat set \<Rightarrow> route_state \<Rightarrow> bool" where
  "rs_expanding g h src to i c J st \<longleftrightarrow> rs_sound g h src to st \<and> rs_best st i = Some c \<and>
     (\<forall>s. s \<noteq> i \<longrightarrow> open_in (rs_best st) (rs_queue st) (route_key g h) s \<or> route.relaxed g (rs_best st) s) \<and>
     (\<forall>j\<in>J. turn_ok g i j \<longrightarrow> covered (rs_best st) (\<lambda>c. True) j (dadd c (edge_cost g j)))"

lemma open_in_improve:
  assumes "open_in best q key s" "s \<noteq> t"
  shows "open_in (best(t \<mapsto> d)) (q @ [x]) key s"
  using assms by (auto simp: open_in_def)

lemma rs_next_expanding:
  assumes inv: "rs_expanding g h src to i c J st" and j: "j \<in> set (edgesFrom g (ed_target (g_edges g ! i)))"
    and wf: "graph_wf g" and h: "\<And>n. 0 \<le> h n"
  shows "rs_expanding g h src to i c (insert j J) (rs_next g h i c j st)"
proof (cases "turn_ok g i j")
  case False
  with inv show ?thesis by (simp add: rs_next_def rs_expanding_def)
next
  case ok: True
  let ?n = "dadd c (edge_cost g j)"
  note inv' = inv [unfolded rs_expanding_def rs_sound_def]
  have lab: "route.labels_ok g src (rs_best st)" and tree: "tree_ok g src (rs_best st) (rs_cameFrom st)"
    and bi: "rs_best st i = Some c" using inv' by blast+
  have edge: "turn_edge g i j (edge_cost g j)" using j ok by (simp add: turn_edge_def)
  have ci: "costs (first_edge g src) (turn_edge g) i c" using lab bi by (simp add: route.labels_ok_def)
  have cj: "costs (first_edge g src) (turn_edge g) j ?n" using ci edge by (rule costs_step)
  have n: "0 \<le> ?n" "c \<le> ?n" using route.costs_double [OF cj] route.costs_increase [OF ci edge] by simp_all
  show ?thesis
  proof (cases "\<exists>old. rs_best st j = Some old \<and> old \<le> ?n")
    case True
    then have "rs_next g h i c j st = st" using ok by (auto simp: rs_next_def Let_def)
    moreover have "covered (rs_best st) (\<lambda>c. True) j ?n" using True by (auto simp: covered_def)
    ultimately show ?thesis using inv by (simp add: rs_expanding_def)
  next
    case False
    define b' f' q' where "b' = (rs_best st)(j \<mapsto> ?n)" and "f' = (rs_cameFrom st)(j \<mapsto> i)"
      and "q' = rs_queue st @ [(route_key g h ?n j, j)]"
    have new: "rs_next g h i c j st = st\<lparr>rs_best := b', rs_cameFrom := f', rs_queue := q'\<rparr>"
      using False ok
      by (cases "rs_best st j") (auto simp: rs_next_def Let_def b'_def f'_def q'_def route_key_def not_le)
    have less: "?n < old" if "rs_best st j = Some old" for old using False that by auto
    then have le: "\<And>old. rs_best st j = Some old \<Longrightarrow> ?n \<le> old" by fastforce
    have ij: "j \<noteq> i" using less bi n by fastforce
    have jr: "j < length (g_edges g)" using edgesFrom_in_range [OF wf j] .
    have "route.labels_ok g src b'" unfolding b'_def using route.labels_improve [OF lab cj] .
    moreover have "tree_ok g src b' f'" unfolding b'_def f'_def
      using tree_improve [OF tree lab bi edge jr less] .
    moreover have "\<exists>e. b' k = Some e \<and> route_key g h e k \<le> p" if pk: "(p, k) \<in> set q'" for p k
    proof (cases "(p, k) \<in> set (rs_queue st)")
      case True
      with inv' obtain e where e: "rs_best st k = Some e" "route_key g h e k \<le> p" by blast
      show ?thesis
      proof (cases "k = j")
        case True
        with e(1) le have "route_key g h ?n k \<le> route_key g h e k"
          using n h unfolding route_key_def by (intro dadd_mono) auto
        with e(2) True show ?thesis by (auto simp: b'_def)
      qed (use e in \<open>auto simp: b'_def\<close>)
    next
      case False
      with pk show ?thesis by (auto simp: q'_def b'_def)
    qed
    moreover have "open_in b' q' (route_key g h) k" if "b' k \<noteq> None" "ed_target (g_edges g ! k) = to" for k
    proof (cases "k = j")
      case True
      then show ?thesis by (simp add: open_in_def b'_def q'_def)
    next
      case False
      with that have "rs_best st k \<noteq> None" by (simp add: b'_def)
      with that inv' have "open_in (rs_best st) (rs_queue st) (route_key g h) k" by blast
      with False show ?thesis unfolding b'_def q'_def by (intro open_in_improve)
    qed
    moreover have "covered b' (\<lambda>c. True) k e" if "first_edge g src k e" for k e
      unfolding b'_def using inv' that le by (intro route.covered_improve) blast+
    ultimately have sound: "rs_sound g h src to (st\<lparr>rs_best := b', rs_cameFrom := f', rs_queue := q'\<rparr>)"
      using inv' by (simp add: rs_sound_def)
    have "open_in b' q' (route_key g h) s \<or> route.relaxed g b' s" if "s \<noteq> i" for s
    proof (cases "s = j")
      case True
      then show ?thesis by (simp add: open_in_def b'_def q'_def)
    next
      case False
      from that inv' consider "open_in (rs_best st) (rs_queue st) (route_key g h) s" | "route.relaxed g (rs_best st) s" by blast
      then show ?thesis
      proof cases
        case 1
        with False show ?thesis unfolding b'_def q'_def by (intro disjI1 open_in_improve)
      next
        case 2
        with False le show ?thesis unfolding b'_def by (intro disjI2 route.relaxed_improve) auto
      qed
    qed
    moreover have "covered b' (\<lambda>c. True) k (dadd c (edge_cost g k))" if "k \<in> insert j J" "turn_ok g i k" for k
    proof (cases "k = j")
      case True
      then show ?thesis by (simp add: covered_def b'_def)
    next
      case False
      with that inv' have "covered (rs_best st) (\<lambda>c. True) k (dadd c (edge_cost g k))" by blast
      then show ?thesis unfolding b'_def by (rule route.covered_improve) (rule le)
    qed
    ultimately show ?thesis using sound bi ij unfolding new by (simp add: rs_expanding_def b'_def)
  qed
qed

lemma fold_rs_next_expanding:
  assumes "rs_expanding g h src to i c J st" "set es \<subseteq> set (edgesFrom g (ed_target (g_edges g ! i)))"
    "graph_wf g" "\<And>n. 0 \<le> h n"
  shows "rs_expanding g h src to i c (set es \<union> J) (fold (rs_next g h i c) es st)"
  using assms(1,2)
proof (induction es arbitrary: J st)
  case (Cons j es)
  from Cons.prems have "rs_expanding g h src to i c (insert j J) (rs_next g h i c j st)"
    by (intro rs_next_expanding assms(3,4)) simp_all
  from Cons.IH [OF this] Cons.prems show ?case by simp
qed simp

lemma rs_settled_fold: "rs_settled (fold (rs_next g h i c) es st) = rs_settled st"
  by (induction es arbitrary: st) (simp_all add: rs_next_def Let_def split: option.split)


section \<open>The loop\<close>

lemma route_key_double: "0 \<le> c \<Longrightarrow> 0 \<le> h (ed_target (g_edges g ! i)) \<Longrightarrow> 0 \<le> route_key g h c i \<and> is_double (route_key g h c i)"
  by (simp add: route_key_def dadd_nonneg is_double_dadd)

lemma rs_start_fields:
  "rs_best (rs_start g h src) = (\<lambda>i. if i \<in> set (edgesFrom g src) then Some (edge_cost g i) else None)"
  "rs_queue (rs_start g h src) = map (\<lambda>i. (route_key g h (edge_cost g i) i, i)) (edgesFrom g src)"
  "rs_cameFrom (rs_start g h src) = (\<lambda>i. None)" "rs_settled (rs_start g h src) = 0" "rs_end (rs_start g h src) = None"
proof -
  let ?f = "\<lambda>i st. st\<lparr>
       rs_best := (case rs_best st i of None \<Rightarrow> (rs_best st)(i \<mapsto> edge_cost g i) | Some c \<Rightarrow> rs_best st),
       rs_queue := rs_queue st @ [(dadd (edge_cost g i) (h (ed_target (g_edges g ! i))), i)]\<rparr>"
  let ?s = "\<lparr>rs_best = (\<lambda>i. None), rs_cameFrom = (\<lambda>i. None), rs_queue = [], rs_settled = 0, rs_end = None\<rparr>"
  have "fold ?f es ?s = \<lparr>rs_best = (\<lambda>i. if i \<in> set es then Some (edge_cost g i) else None), rs_cameFrom = (\<lambda>i. None),
      rs_queue = map (\<lambda>i. (route_key g h (edge_cost g i) i, i)) es, rs_settled = 0, rs_end = None\<rparr>" for es
    by (induction es rule: rev_induct) (auto simp: route_key_def fun_eq_iff)
  note eq = this [of "edgesFrom g src"]
  show "rs_best (rs_start g h src) = (\<lambda>i. if i \<in> set (edgesFrom g src) then Some (edge_cost g i) else None)"
    "rs_queue (rs_start g h src) = map (\<lambda>i. (route_key g h (edge_cost g i) i, i)) (edgesFrom g src)"
    "rs_cameFrom (rs_start g h src) = (\<lambda>i. None)" "rs_settled (rs_start g h src) = 0" "rs_end (rs_start g h src) = None"
    unfolding rs_start_def eq by simp_all
qed

lemma rs_start_inv:
  assumes "graph_wf g" "\<And>n. 0 \<le> h n"
  shows "rs_inv g h src to (rs_start g h src)"
proof -
  have "tree_ok g src (rs_best (rs_start g h src)) (rs_cameFrom (rs_start g h src))"
    using edgesFrom_in_range [OF assms(1)]
    by (auto simp: tree_ok_def rs_start_fields came_rel_def first_edge_def acyclic_def split: if_splits)
  then show ?thesis
    by (auto simp: rs_inv_def rs_sound_def rs_start_fields route.labels_ok_def route.frontier_ok_def open_in_def
        first_edge_def covered_def route.relaxed_def image_iff intro: costs_start split: if_splits)
qed

definition rs_measure :: "nat \<Rightarrow> route_state \<Rightarrow> nat \<times> nat" where
  "rs_measure maxSettled st = (maxSettled - rs_settled st, length (rs_queue st))"

text \<open>What holds when the search has ended.\<close>

definition rs_done :: "graph \<Rightarrow> (nat \<Rightarrow> rat) \<Rightarrow> nat \<Rightarrow> nat \<Rightarrow> route_state \<Rightarrow> bool" where
  "rs_done g h src to st \<longleftrightarrow>
     (case rs_end st of None \<Rightarrow> False | Some GaveUp \<Rightarrow> True
      | Some (Arrived i) \<Rightarrow> ed_target (g_edges g ! i) = to \<and>
          (\<exists>p c before. rs_best st i = Some c \<and> route_key g h c i \<le> p \<and> rs_inv g h src to before \<and>
             rs_best before = rs_best st \<and> rs_cameFrom before = rs_cameFrom st \<and>
             (\<forall>(k, j)\<in>set (rs_queue before). p \<le> k)))"

lemma rs_step_inv:
  fixes maxSettled :: nat
  assumes inv: "rs_inv g h src to st" and run: "rs_running st" and pick: "heap_pick pick" and wf: "graph_wf g"
    and h: "\<And>n. 0 \<le> h n"
  defines "st' \<equiv> rs_step g h pick to maxSettled st"
  shows "(rs_end st' \<noteq> None \<and> rs_done g h src to st') \<or>
    rs_inv g h src to st' \<and> (rs_measure maxSettled st', rs_measure maxSettled st) \<in> less_than <*lex*> less_than"
proof -
  obtain p i where pi: "rs_queue st ! pick (rs_queue st) = (p, i)" by fastforce
  define q where "q = remove_at (pick (rs_queue st)) (rs_queue st)"
  have ne: "rs_queue st \<noteq> []" using run by (simp add: rs_running_def)
  note pop = heap_pickD [OF pick ne pi q_def]
  note inv' = inv [unfolded rs_inv_def rs_sound_def]
  have entry: "(p, i) \<in> set (rs_queue st)" using pop(2) by simp
  then obtain c where c: "rs_best st i = Some c" "route_key g h c i \<le> p" using inv' by blast
  have lab: "route.labels_ok g src (rs_best st)" using inv' by blast
  have c0: "0 \<le> c" using route.label_double [OF lab c(1)] by simp
  let ?t = "ed_target (g_edges g ! i)" and ?q = "st\<lparr>rs_queue := q\<rparr>"
  have step: "st' = (if p > dadd (route_key g h c i) route_tolerance then ?q
      else if ?t = to then ?q\<lparr>rs_end := Some (Arrived i)\<rparr>
      else if rs_settled st + 1 > maxSettled then ?q\<lparr>rs_settled := rs_settled st + 1, rs_end := Some GaveUp\<rparr>
      else fold (rs_next g h i c) (edgesFrom g ?t) (?q\<lparr>rs_settled := rs_settled st + 1\<rparr>))"
    using pi c(1) by (simp add: st'_def rs_step_def q_def Let_def route_key_def fun_upd_idem)
  have opens: "open_in (rs_best st) q (route_key g h) s" if "open_in (rs_best st) (rs_queue st) (route_key g h) s"
    "s \<noteq> i" for s
    using that pop(2) by (auto simp: open_in_def)
  consider "p > dadd (route_key g h c i) route_tolerance"
    | "\<not> p > dadd (route_key g h c i) route_tolerance" "?t = to"
    | "\<not> p > dadd (route_key g h c i) route_tolerance" "?t \<noteq> to" "rs_settled st + 1 > maxSettled"
    | "\<not> p > dadd (route_key g h c i) route_tolerance" "?t \<noteq> to" "rs_settled st + 1 \<le> maxSettled"
    by linarith
  then show ?thesis
  proof cases
    case 1
    then have st: "st' = ?q" by (simp add: step)
    have "route_key g h c i < p"
      using 1 dadd_increases [of "route_key g h c i" route_tolerance] route_key_double [of c h g i] c0 h
      by (simp add: route_tolerance_def)
    then have opens': "open_in (rs_best st) q (route_key g h) s" if "open_in (rs_best st) (rs_queue st) (route_key g h) s" for s
      using that pop(2) c(1) by (auto simp: open_in_def)
    have "rs_sound g h src to ?q"
      using inv' pop(2) opens' unfolding rs_sound_def by simp
    moreover have "route.frontier_ok g h (rs_best st) q"
      using inv' opens' unfolding route.frontier_ok_def by blast
    ultimately show ?thesis using pop(1) unfolding st by (simp add: rs_inv_def rs_measure_def)
  next
    case 2
    then have st: "st' = ?q\<lparr>rs_end := Some (Arrived i)\<rparr>" by (simp add: step)
    have "rs_done g h src to st'"
      unfolding rs_done_def st using 2 c inv pop(4) by (auto intro!: exI [of _ p] exI [of _ st])
    then show ?thesis unfolding st by simp
  next
    case 3
    then show ?thesis by (simp add: step rs_done_def)
  next
    case 4
    let ?s = "?q\<lparr>rs_settled := rs_settled st + 1\<rparr>"
    let ?fin = "fold (rs_next g h i c) (edgesFrom g ?t) ?s"
    have st: "st' = ?fin" using 4 by (simp add: step)
    have "rs_sound g h src to ?s"
      unfolding rs_sound_def
    proof (intro conjI allI impI)
      fix k assume "rs_best ?s k \<noteq> None" "ed_target (g_edges g ! k) = to"
      moreover from this 4 have "k \<noteq> i" by blast
      ultimately show "open_in (rs_best ?s) (rs_queue ?s) (route_key g h) k" using inv' opens by simp
    qed (use inv' pop(2) in simp_all)
    moreover have "open_in (rs_best ?s) (rs_queue ?s) (route_key g h) s \<or> route.relaxed g (rs_best ?s) s" if "s \<noteq> i" for s
      using that inv' opens unfolding route.frontier_ok_def by simp blast
    ultimately have "rs_expanding g h src to i c {} ?s" using c(1) by (simp add: rs_expanding_def)
    from fold_rs_next_expanding [OF this order_refl wf h]
    have e: "rs_expanding g h src to i c (set (edgesFrom g ?t)) ?fin" by simp
    have "route.relaxed g (rs_best ?fin) i"
      using e by (auto simp: rs_expanding_def route.relaxed_def turn_edge_def)
    then have "rs_inv g h src to ?fin"
      using e unfolding rs_expanding_def rs_inv_def route.frontier_ok_def by metis
    moreover have "maxSettled - rs_settled ?fin < maxSettled - rs_settled st"
      using 4 by (simp add: rs_settled_fold)
    ultimately show ?thesis unfolding st by (simp add: rs_measure_def)
  qed
qed

lemma route_search_ends:
  assumes "heap_pick pick" "graph_wf g" "\<forall>a b. 0 \<le> crow a b"
  shows "\<exists>st. route_search g crow pick src to maxSettled = Some st \<and>
    (rs_end st = None \<and> rs_queue st = [] \<and> rs_inv g (heuristic g crow to) src to st
     \<or> rs_done g (heuristic g crow to) src to st)"
proof -
  let ?h = "heuristic g crow to"
  have h: "\<And>n. 0 \<le> ?h n" using assms(3) by (simp add: heuristic_nonneg)
  let ?P = "\<lambda>st. rs_inv g ?h src to st \<or> rs_end st \<noteq> None \<and> rs_done g ?h src to st"
  let ?m = "\<lambda>st. ((if rs_end st = None then Suc 0 else 0), rs_measure maxSettled st)"
  let ?step = "rs_step g ?h pick to maxSettled"
  have turn: "?P (?step s) \<and> (?m (?step s), ?m s) \<in> less_than <*lex*> (less_than <*lex*> less_than)"
    if "?P s" "rs_running s" for s
  proof -
    from that have s: "rs_inv g ?h src to s" "rs_end s = None" by (auto simp: rs_running_def)
    from rs_step_inv [OF s(1) that(2) assms(1,2) h, where maxSettled = maxSettled] show ?thesis
    proof
      assume "rs_end (?step s) \<noteq> None \<and> rs_done g ?h src to (?step s)"
      with s(2) show ?thesis by auto
    next
      assume a: "rs_inv g ?h src to (?step s) \<and> (rs_measure maxSettled (?step s), rs_measure maxSettled s) \<in> less_than <*lex*> less_than"
      then have "rs_end (?step s) = None" by (simp add: rs_inv_def rs_sound_def)
      with a s(2) show ?thesis by auto
    qed
  qed
  have start: "?P (rs_start g ?h src)" using rs_start_inv [OF assms(2), of ?h src to] h by blast
  have "\<exists>st. while_option rs_running ?step (rs_start g ?h src) = Some st"
  proof (rule wf_rel_while_option_Some [where P = ?P])
    show "wf (inv_image (less_than <*lex*> (less_than <*lex*> less_than)) ?m)" by auto
  qed (use turn start in auto)
  then obtain st where st: "while_option rs_running ?step (rs_start g ?h src) = Some st" by blast
  have "?P st" using while_option_rule [of ?P, OF _ st] turn start by blast
  moreover have "\<not> rs_running st" using while_option_stop [OF st] .
  ultimately show ?thesis using st unfolding route_search_def
    by (auto simp: rs_running_def rs_inv_def rs_sound_def)
qed


section \<open>Routes\<close>

text \<open>What a route record says: the segments, the points of segment \<open>k\<close> between its starts, and the length.\<close>

lemma add_edges_fields:
  "ro_segments (fold (add_edge g) es r) = ro_segments r @ map (\<lambda>i. ed_segment (g_edges g ! i)) es"
  "ro_geometry (fold (add_edge g) es r) = ro_geometry r @ concat (map (edge_geometry g) es)"
  "ro_durationS (fold (add_edge g) es r) = ro_durationS r"
  "ro_distanceM (fold (add_edge g) es r) = foldl (\<lambda>d i. dadd d (lengthM g (g_edges g ! i))) (ro_distanceM r) es"
  "ro_segmentStarts (fold (add_edge g) es r) = ro_segmentStarts r @
     map (\<lambda>k. (length (ro_geometry r) + length (concat (map (edge_geometry g) (take k es)))) div 2) [0..<length es]"
proof -
  show "ro_segments (fold (add_edge g) es r) = ro_segments r @ map (\<lambda>i. ed_segment (g_edges g ! i)) es"
    by (induction es arbitrary: r) (simp_all add: add_edge_def Let_def)
  show "ro_geometry (fold (add_edge g) es r) = ro_geometry r @ concat (map (edge_geometry g) es)"
    by (induction es arbitrary: r) (simp_all add: add_edge_def Let_def)
  show "ro_durationS (fold (add_edge g) es r) = ro_durationS r"
    by (induction es arbitrary: r) (simp_all add: add_edge_def Let_def)
  show "ro_distanceM (fold (add_edge g) es r) = foldl (\<lambda>d i. dadd d (lengthM g (g_edges g ! i))) (ro_distanceM r) es"
    by (induction es arbitrary: r) (simp_all add: add_edge_def Let_def lengthM_def)
  show "ro_segmentStarts (fold (add_edge g) es r) = ro_segmentStarts r @
     map (\<lambda>k. (length (ro_geometry r) + length (concat (map (edge_geometry g) (take k es)))) div 2) [0..<length es]"
  proof (induction es arbitrary: r)
    case (Cons i es)
    have "map (\<lambda>k. (length (ro_geometry r) + length (concat (map (edge_geometry g) (take k (i # es))))) div 2) [0..<length (i # es)]
      = length (ro_geometry r) div 2 # map (\<lambda>k. (length (ro_geometry (add_edge g i r)) + length (concat (map (edge_geometry g) (take k es)))) div 2) [0..<length es]"
      by (simp add: upt_conv_Cons map_Suc_upt [symmetric] add_edge_def Let_def comp_def add.assoc del: upt_Suc)
    with Cons.IH [of "add_edge g i r"] show ?case by (simp add: add_edge_def Let_def)
  qed simp
qed

definition route_describes :: "graph \<Rightarrow> nat list \<Rightarrow> route \<Rightarrow> bool" where
  "route_describes g es r \<longleftrightarrow>
     ro_segments r = map (\<lambda>i. ed_segment (g_edges g ! i)) es \<and>
     ro_distanceM r = drive_length g es \<and>
     length (ro_segmentStarts r) = length es + 1 \<and> ro_segmentStarts r ! length es = length (ro_geometry r) div 2 \<and>
     (\<forall>k<length es. take (2 * (ro_segmentStarts r ! Suc k) - 2 * (ro_segmentStarts r ! k))
        (drop (2 * (ro_segmentStarts r ! k)) (ro_geometry r)) = edge_geometry g (es ! k))"

lemma length_pairs_back: "length (pairs_back xs) = 2 * (length xs div 2)"
  by (induction xs rule: pairs_back.induct) auto

lemma even_edge_geometry: "even (length (edge_geometry g i))"
  by (simp add: edge_geometry_def Let_def length_pairs_back min_absorb2)

lemma even_edges_geometry: "even (length (concat (map (edge_geometry g) es)))"
  by (induction es) (simp_all add: even_edge_geometry)

lemma route_along_describes: "route_describes g es (route_along g d es)"
proof -
  let ?r = "route_along g d es" and ?geo = "\<lambda>es. concat (map (edge_geometry g) es)"
  have geo: "ro_geometry ?r = ?geo es"
    by (simp add: route_along_def Let_def add_edges_fields empty_route_def)
  have starts: "ro_segmentStarts ?r = map (\<lambda>k. length (?geo (take k es)) div 2) [0..<length es] @ [length (?geo es) div 2]"
    by (simp add: route_along_def Let_def add_edges_fields empty_route_def)
  have at: "2 * (ro_segmentStarts ?r ! k) = length (?geo (take k es))" if "k \<le> length es" for k
    using that even_edges_geometry [of g "take k es"]
    by (cases "k = length es") (simp_all add: starts nth_append del: length_concat)
  have "take (2 * (ro_segmentStarts ?r ! Suc k) - 2 * (ro_segmentStarts ?r ! k)) (drop (2 * (ro_segmentStarts ?r ! k)) (ro_geometry ?r))
      = edge_geometry g (es ! k)" if k: "k < length es" for k
  proof -
    have split: "?geo es = ?geo (take k es) @ edge_geometry g (es ! k) @ ?geo (drop (Suc k) es)"
      using arg_cong [OF id_take_nth_drop [OF k], of ?geo] by simp
    have "?geo (take (Suc k) es) = ?geo (take k es) @ edge_geometry g (es ! k)"
      using k by (simp add: take_Suc_conv_app_nth)
    then have len: "2 * (ro_segmentStarts ?r ! Suc k) - 2 * (ro_segmentStarts ?r ! k) = length (edge_geometry g (es ! k))"
      using at [of k] at [of "Suc k"] k by (simp del: length_concat)
    show ?thesis unfolding len unfolding at [OF less_imp_le [OF k]] geo split by simp
  qed
  moreover have "ro_segments ?r = map (\<lambda>i. ed_segment (g_edges g ! i)) es" "ro_distanceM ?r = drive_length g es"
    by (simp_all add: route_along_def Let_def add_edges_fields empty_route_def drive_length_def)
  moreover have "length (ro_segmentStarts ?r) = length es + 1" by (simp add: starts)
  moreover have "ro_segmentStarts ?r ! length es = length (ro_geometry ?r) div 2"
    using at [of "length es"] by (simp add: geo)
  ultimately show ?thesis unfolding route_describes_def by blast
qed


lemma route_along_duration: "ro_durationS (route_along g d es) = d"
  by (simp add: route_along_def Let_def add_edges_fields empty_route_def)

section \<open>What the router promises\<close>

text \<open>
  The heuristic is admissible in the arithmetic of the code: what it adds to a cost is never more
  than what the rest of a legal drive to the destination adds.
\<close>

definition admissible :: "graph \<Rightarrow> (nat \<Rightarrow> rat) \<Rightarrow> nat \<Rightarrow> bool" where
  "admissible g h to \<longleftrightarrow> (\<forall>i c es. 0 \<le> c \<longrightarrow> is_double c \<longrightarrow> drive g (ed_target (g_edges g ! i)) es to \<longrightarrow>
     legal_turns g (i # es) \<longrightarrow> dadd c (h (ed_target (g_edges g ! i))) \<le> drive_cost g c es)"

lemma legal_drive_last:
  assumes "legal_drive g src es to"
  obtains fs i where "es = fs @ [i]" "ed_target (g_edges g ! i) = to" "legal_drive g src (fs @ [i]) (ed_target (g_edges g ! i))"
proof -
  from assms have "es \<noteq> []" by (simp add: legal_drive_def)
  then obtain fs i where es: "es = fs @ [i]" by (meson rev_exhaust)
  with assms have "ed_target (g_edges g ! i) = to" by (auto simp: legal_drive_def drive_append)
  with assms es have "legal_drive g src (fs @ [i]) (ed_target (g_edges g ! i))" by metis
  with es \<open>ed_target (g_edges g ! i) = to\<close> show thesis by (rule that)
qed

lemma rest_drive:
  assumes "costs (\<lambda>s k. s = i \<and> k = c1) (turn_edge g) x c"
  shows "\<exists>es. drive g (ed_target (g_edges g ! i)) es (ed_target (g_edges g ! x)) \<and> drive_cost g c1 es = c \<and>
    last (i # es) = x \<and> legal_turns g (i # es)"
  using assms
proof (induction rule: costs.induct)
  case (costs_start s c)
  then show ?case by (intro exI [of _ "[]"]) (simp add: drive_cost_def)
next
  case (costs_step u c v w)
  then obtain es where es: "drive g (ed_target (g_edges g ! i)) es (ed_target (g_edges g ! u))" "drive_cost g c1 es = c"
    "last (i # es) = u" "legal_turns g (i # es)" by blast
  have "legal_turns g (i # es @ [v])"
  proof -
    obtain fs where fs: "i # es = fs @ [u]" using es(3) by (metis append_butlast_last_id list.discI)
    then have "i # es @ [v] = fs @ [u, v]" by (metis append_Cons append_assoc append_Nil)
    moreover have "legal_turns g (fs @ [u, v])"
      using es(4) costs_step.hyps(2) unfolding fs by (simp add: legal_turns_snoc turn_edge_def)
    ultimately show ?thesis by metis
  qed
  with es costs_step.hyps(2) show ?case
    by (intro exI [of _ "es @ [v]"]) (auto simp: drive_append turn_edge_def drive_cost_def)
qed

lemma inv_frontier:
  assumes inv: "rs_inv g h src to st" and "legal_drive g src es to" and adm: "admissible g h to" and h: "\<And>n. 0 \<le> h n"
  shows "\<exists>(k, u)\<in>set (rs_queue st). k \<le> drive_cost g 0 es"
proof -
  from assms(2) obtain fs x where es: "es = fs @ [x]" "ed_target (g_edges g ! x) = to"
    "legal_drive g src (fs @ [x]) (ed_target (g_edges g ! x))" by (rule legal_drive_last)
  let ?c = "drive_cost g 0 es"
  have reach: "costs (first_edge g src) (turn_edge g) x ?c"
    using es by (auto simp: legal_drive_costs [symmetric])
  note inv' = inv [unfolded rs_inv_def rs_sound_def]
  have lab: "route.labels_ok g src (rs_best st)" and fr: "route.frontier_ok g h (rs_best st) (rs_queue st)"
    and cov: "\<And>s c. first_edge g src s c \<Longrightarrow> covered (rs_best st) (\<lambda>c. True) s c" using inv' by blast+
  from route.frontier [OF fr cov lab reach TrueI] show ?thesis
  proof
    assume "\<exists>u d c1. rs_best st u = Some d \<and> d \<le> c1 \<and> (route_key g h d u, u) \<in> set (rs_queue st) \<and>
      costs (first_edge g src) (turn_edge g) u c1 \<and> costs (\<lambda>s k. s = u \<and> k = c1) (turn_edge g) x ?c"
    then obtain u d c1 where u: "rs_best st u = Some d" "d \<le> c1" "(route_key g h d u, u) \<in> set (rs_queue st)"
      "costs (first_edge g src) (turn_edge g) u c1" "costs (\<lambda>s k. s = u \<and> k = c1) (turn_edge g) x ?c" by blast
    from u(4) have c1: "0 \<le> c1" "is_double c1" using route.costs_double by blast+
    from rest_drive [OF u(5)] obtain gs where gs: "drive g (ed_target (g_edges g ! u)) gs to" "drive_cost g c1 gs = ?c"
      "legal_turns g (u # gs)" using es(2) by auto
    have "route_key g h d u \<le> dadd c1 (h (ed_target (g_edges g ! u)))"
      unfolding route_key_def using route.label_double [OF lab u(1)] u(2) h by (intro dadd_mono) simp_all
    also have "\<dots> \<le> ?c" using adm c1 gs unfolding admissible_def by metis
    finally show ?thesis using u(3) by (intro bexI [of _ "(route_key g h d u, u)"]) auto
  next
    assume "\<exists>d. rs_best st x = Some d \<and> d \<le> ?c \<and> \<not> open_in (rs_best st) (rs_queue st) (route_key g h) x"
    with inv' es(2) have False by blast
    then show ?thesis ..
  qed
qed

lemma inv_exhausted:
  assumes inv: "rs_inv g h src to st" and "rs_queue st = []"
  shows "\<not> legal_drive g src es to"
proof
  assume "legal_drive g src es to"
  then obtain fs x where es: "es = fs @ [x]" "ed_target (g_edges g ! x) = to"
    "legal_drive g src (fs @ [x]) (ed_target (g_edges g ! x))" by (rule legal_drive_last)
  note inv' = inv [unfolded rs_inv_def rs_sound_def]
  have reach: "costs (first_edge g src) (turn_edge g) x (drive_cost g 0 es)"
    using es by (auto simp: legal_drive_costs [symmetric])
  have lab: "route.labels_ok g src (rs_best st)" and fr: "route.frontier_ok g h (rs_best st) (rs_queue st)"
    and cov: "\<And>s c. first_edge g src s c \<Longrightarrow> covered (rs_best st) (\<lambda>c. True) s c" using inv' by blast+
  from route.frontier [OF fr cov lab reach TrueI] have "\<exists>d. rs_best st x = Some d" using assms(2) by auto
  then have "open_in (rs_best st) (rs_queue st) (route_key g h) x" using inv' es(2) by blast
  with assms(2) show False by (simp add: open_in_def)
qed

lemma done_arrived:
  assumes "rs_done g h src to st" "rs_end st = Some (Arrived i)"
  obtains es c where "trace_back (rs_cameFrom st) i [] = Some (es @ [i])" "rs_best st i = Some c"
    "legal_drive g src (es @ [i]) to" "drive_cost g 0 (es @ [i]) \<le> c"
    "admissible g h to \<longrightarrow> h to = 0 \<longrightarrow> (\<forall>n. 0 \<le> h n) \<longrightarrow> (\<forall>fs. legal_drive g src fs to \<longrightarrow> c \<le> drive_cost g 0 fs)"
proof -
  from assms obtain p c before where d: "ed_target (g_edges g ! i) = to" "rs_best st i = Some c"
    "route_key g h c i \<le> p" "rs_inv g h src to before" "rs_best before = rs_best st"
    "rs_cameFrom before = rs_cameFrom st" "\<forall>(k, j)\<in>set (rs_queue before). p \<le> k"
    by (auto simp: rs_done_def)
  have lab: "route.labels_ok g src (rs_best st)" and tree: "tree_ok g src (rs_best st) (rs_cameFrom st)"
    using d(4-6) by (auto simp: rs_inv_def rs_sound_def)
  from tree_path [OF tree lab d(2), of "[]"] obtain es where es: "trace_back (rs_cameFrom st) i [] = Some (es @ [i])"
    "legal_drive g src (es @ [i]) to" "drive_cost g 0 (es @ [i]) \<le> c" using d(1) by auto
  have "c \<le> drive_cost g 0 fs" if "admissible g h to" "h to = 0" "\<forall>n. 0 \<le> h n" "legal_drive g src fs to" for fs
  proof -
    from that(3) have "\<And>n. 0 \<le> h n" by blast
    from inv_frontier [OF d(4) that(4,1) this] d(7) have "p \<le> drive_cost g 0 fs" by fastforce
    moreover have "route_key g h c i = c" using that(2) d(1) route.label_double [OF lab d(2)] by (simp add: route_key_def)
    ultimately show ?thesis using d(3) by simp
  qed
  then have "admissible g h to \<longrightarrow> h to = 0 \<longrightarrow> (\<forall>n. 0 \<le> h n) \<longrightarrow>
      (\<forall>fs. legal_drive g src fs to \<longrightarrow> c \<le> drive_cost g 0 fs)" by blast
  with es d(2) show thesis by (intro that)
qed

lemma findRoute_ends:
  assumes "graph_wf g" "heap_pick pick" "\<forall>a b. 0 \<le> crow a b"
    and "src < length (g_nodes g)" "to < length (g_nodes g)" "src \<noteq> to"
  obtains
    (arrived) st i es c where "route_search g crow pick src to maxSettled = Some st" "rs_end st = Some (Arrived i)"
      "findRoute g crow pick src to maxSettled = Some (Some (route_along g c (es @ [i])))"
      "legal_drive g src (es @ [i]) to" "drive_cost g 0 (es @ [i]) \<le> c"
      "admissible g (heuristic g crow to) to \<longrightarrow> heuristic g crow to to = 0 \<longrightarrow>
         (\<forall>fs. legal_drive g src fs to \<longrightarrow> c \<le> drive_cost g 0 fs)"
  | (gave_up) st where "route_search g crow pick src to maxSettled = Some st" "rs_end st = Some GaveUp"
      "findRoute g crow pick src to maxSettled = Some None"
  | (exhausted) st where "route_search g crow pick src to maxSettled = Some st" "rs_end st = None"
      "findRoute g crow pick src to maxSettled = Some None" "\<And>es. \<not> legal_drive g src es to"
proof -
  from route_search_ends [OF assms(2,1,3), where src = src and to = to and maxSettled = maxSettled] obtain st where
    st: "route_search g crow pick src to maxSettled = Some st" and
    st': "rs_end st = None \<and> rs_queue st = [] \<and> rs_inv g (heuristic g crow to) src to st
      \<or> rs_done g (heuristic g crow to) src to st" by blast
  have h: "\<And>n. 0 \<le> heuristic g crow to n" using assms(3) by (simp add: heuristic_nonneg)
  from assms(4-6) have find: "findRoute g crow pick src to maxSettled =
    (case rs_end st of Some (Arrived arrival) \<Rightarrow>
             (case trace_back (rs_cameFrom st) arrival [] of None \<Rightarrow> None
              | Some path \<Rightarrow> Some (Some (route_along g (case rs_best st arrival of None \<Rightarrow> 0 | Some c \<Rightarrow> c) path)))
           | _ \<Rightarrow> Some None)" by (simp add: findRoute_def st)
  show thesis
  proof (cases "rs_end st")
    case None
    with st' have "rs_queue st = []" "rs_inv g (heuristic g crow to) src to st" by (simp_all add: rs_done_def)
    with inv_exhausted have "\<And>es. \<not> legal_drive g src es to" by blast
    with None st find show thesis by (intro exhausted) simp_all
  next
    case (Some e)
    with st' have fin: "rs_done g (heuristic g crow to) src to st" by simp
    show thesis
    proof (cases e)
      case GaveUp
      with Some st find show thesis by (intro gave_up) simp_all
    next
      case (Arrived i)
      with Some have en: "rs_end st = Some (Arrived i)" by simp
      from fin en obtain es c where es: "trace_back (rs_cameFrom st) i [] = Some (es @ [i])" "rs_best st i = Some c"
        "legal_drive g src (es @ [i]) to" "drive_cost g 0 (es @ [i]) \<le> c"
        and opt: "admissible g (heuristic g crow to) to \<longrightarrow> heuristic g crow to to = 0 \<longrightarrow>
          (\<forall>n. 0 \<le> heuristic g crow to n) \<longrightarrow> (\<forall>fs. legal_drive g src fs to \<longrightarrow> c \<le> drive_cost g 0 fs)"
        by (rule done_arrived)
      have "findRoute g crow pick src to maxSettled = Some (Some (route_along g c (es @ [i])))"
        by (simp add: find en es)
      with st en es opt h show thesis by (intro arrived) auto
    qed
  qed
qed


text \<open>
  C28.  The router always returns, whatever the heuristic, the tie breaking of the heap and the bound: with a
  drive between the two junctions in which every turn is allowed, described segment by segment with its
  points in travel order and its length, and lasting no longer than the route says; or with nothing, and then
  there is no legal drive unless it gave up at its bound.
\<close>

theorem find_route_legal:
  assumes "graph_wf g" "heap_pick pick" "\<forall>a b. 0 \<le> crow a b"
    and "src < length (g_nodes g)" "to < length (g_nodes g)" "src \<noteq> to"
  shows "\<exists>r st. findRoute g crow pick src to maxSettled = Some r \<and> route_search g crow pick src to maxSettled = Some st \<and>
    (case r of
       Some route \<Rightarrow> (\<exists>es. legal_drive g src es to \<and> route_describes g es route \<and> drive_cost g 0 es \<le> ro_durationS route)
     | None \<Rightarrow> rs_end st = Some GaveUp \<or> (\<forall>es. \<not> legal_drive g src es to))"
  using assms
proof (cases rule: findRoute_ends [where maxSettled = maxSettled])
  case (arrived st i es c)
  then show ?thesis
    by (intro exI [of _ "Some (route_along g c (es @ [i]))"] exI [of _ st])
      (auto simp: route_along_describes route_along_duration intro!: exI [of _ "es @ [i]"])
qed auto

text \<open>
  C29.  With an admissible heuristic that is zero at the destination, a route the router answers with is a
  quickest legal drive, and its duration is that drive's cost to the last bit.
\<close>

theorem find_route_optimal:
  assumes "graph_wf g" "heap_pick pick" "\<forall>a b. 0 \<le> crow a b"
    and "src < length (g_nodes g)" "to < length (g_nodes g)" "src \<noteq> to"
    and "admissible g (heuristic g crow to) to" "\<forall>a. crow a a = 0"
    and "findRoute g crow pick src to maxSettled = Some (Some route)"
  shows "\<exists>es. legal_drive g src es to \<and> route_describes g es route \<and> ro_durationS route = drive_cost g 0 es \<and>
    (\<forall>fs. legal_drive g src fs to \<longrightarrow> drive_cost g 0 es \<le> drive_cost g 0 fs)"
  using assms(1-6)
proof (cases rule: findRoute_ends [where maxSettled = maxSettled])
  case (arrived st i es c)
  have z: "heuristic g crow to to = 0" using assms(8) by (simp add: heuristic_def)
  with arrived(6) assms(7) have opt: "\<forall>fs. legal_drive g src fs to \<longrightarrow> c \<le> drive_cost g 0 fs" by blast
  with arrived(4,5) have c: "drive_cost g 0 (es @ [i]) = c" by fastforce
  have r: "route = route_along g c (es @ [i])" using arrived(3) assms(9) by simp
  have "ro_durationS route = c" by (simp only: r route_along_duration)
  with c opt arrived(4) show ?thesis
    by (intro exI [of _ "es @ [i]"]) (simp add: r route_along_describes)
qed (use assms(9) in auto)

section \<open>Two small searches\<close>

lemma admissible_zero:
  assumes "\<And>n. h n = 0"
  shows "admissible g h to"
proof -
  have "0 \<le> c \<Longrightarrow> is_double c \<Longrightarrow> c \<le> drive_cost g c es" for c es
  proof (induction es arbitrary: c)
    case (Cons i es)
    have "c \<le> dadd c (edge_cost g i)" using Cons.prems by (intro dadd_increases) simp_all
    also have "\<dots> \<le> drive_cost g (dadd c (edge_cost g i)) es"
      using Cons.prems by (intro Cons.IH) (simp_all add: dadd_nonneg is_double_dadd)
    finally show ?case by (simp add: drive_cost_def)
  qed (simp add: drive_cost_def)
  then show ?thesis using assms by (simp add: admissible_def)
qed

lemma within_tolerance: "is_double a \<Longrightarrow> 0 \<le> a \<Longrightarrow> \<not> dadd a route_tolerance < a"
  using dadd_increases [of a route_tolerance] by (simp add: route_tolerance_def not_less)

lemma dyadic_values:
  "to_double (3 / 2) = 3 / 2" "to_double (15 / 2) = 15 / 2" "to_double (21 / 2) = 21 / 2"
  "to_double (153 / 16) = 153 / 16" "to_double (169 / 16) = 169 / 16" "to_double (5 / 2) = 5 / 2"
  "to_double (11 / 2) = 11 / 2" "to_double (17 / 2) = 17 / 2"
  using to_double_dyadic [of 3 1] to_double_dyadic [of 15 1] to_double_dyadic [of 21 1] to_double_dyadic [of 153 4]
    to_double_dyadic [of 169 4] to_double_dyadic [of 5 1] to_double_dyadic [of 11 1] to_double_dyadic [of 17 1]
  by simp_all

lemma triangle_edges: "edgesFrom triangle 0 = [0, 1]" "edgesFrom triangle (Suc 0) = [2, 3]" "edgesFrom triangle 2 = [4, 5]"
  by (simp_all add: edgesFrom_def triangle_def upt_rec)

lemma triangle_turns: "\<not> turn_ok triangle 0 2" "\<not> turn_ok triangle 0 3"
  by (simp_all add: turn_ok_def triangle_def triangle_edge_def edgesFrom_def turnAllowed_def lower_bound_def
      lb_loop.simps tr_less_def kRestrictionProhibited_def)

lemma triangle_values:
  "ed_target (g_edges triangle ! 0) = 1" "ed_target (g_edges triangle ! Suc 0) = 2"
  "edge_cost triangle 0 = 15 / 2" "edge_cost triangle (Suc 0) = 36" "heuristic triangle (\<lambda>a b. 0) 2 n = 0"
  by (simp_all add: triangle_def triangle_edge_def edge_cost_def dyadic_values to_double_numeral heuristic_def)

lemma while_more: "b s \<Longrightarrow> while_option b c s = while_option b c (c s)"
  by (subst while_option_unfold) simp

lemma while_end: "\<not> b s \<Longrightarrow> while_option b c s = Some s"
  by (subst while_option_unfold) simp

text \<open>A step that takes an entry whose key is still exact.\<close>

lemma rs_step_exact:
  assumes "rs_queue st ! pick (rs_queue st) = (p, i)" "rs_best st i = Some c"
    "p = dadd c (h (ed_target (g_edges g ! i)))" "is_double p" "0 \<le> p"
  shows "ed_target (g_edges g ! i) = to \<Longrightarrow> rs_step g h pick to m st =
      st\<lparr>rs_queue := remove_at (pick (rs_queue st)) (rs_queue st), rs_end := Some (Arrived i)\<rparr>"
    and "ed_target (g_edges g ! i) \<noteq> to \<Longrightarrow> rs_settled st + 1 \<le> m \<Longrightarrow> rs_step g h pick to m st =
      fold (rs_next g h i c) (edgesFrom g (ed_target (g_edges g ! i)))
        (st\<lparr>rs_queue := remove_at (pick (rs_queue st)) (rs_queue st), rs_settled := rs_settled st + 1\<rparr>)"
  using assms(1,2) within_tolerance [OF assms(4,5)] unfolding assms(3)
  by (simp_all add: rs_step_def Let_def fun_upd_idem)

lemma triangle_search:
  "route_search triangle (\<lambda>a b. 0) first_min 0 2 10 = Some
     \<lparr>rs_best = [0 \<mapsto> 15 / 2, 1 \<mapsto> 36], rs_cameFrom = (\<lambda>i. None), rs_queue = [], rs_settled = 1,
      rs_end = Some (Arrived 1)\<rparr>" (is "_ = Some ?s2")
proof -
  let ?step = "rs_step triangle (heuristic triangle (\<lambda>a b. 0) 2) first_min 2 10"
  let ?s0 = "\<lparr>rs_best = [0 \<mapsto> 15 / 2, 1 \<mapsto> 36], rs_cameFrom = (\<lambda>i. None), rs_queue = [(15 / 2, 0), (36, 1)], rs_settled = 0, rs_end = None\<rparr>"
  let ?s1 = "\<lparr>rs_best = [0 \<mapsto> 15 / 2, 1 \<mapsto> 36], rs_cameFrom = (\<lambda>i. None), rs_queue = [(36, 1)], rs_settled = 1, rs_end = None\<rparr>"
  have d: "is_double (15 / 2)" "is_double 36" by (simp_all add: is_double_def dyadic_values to_double_numeral)
  have start: "rs_start triangle (heuristic triangle (\<lambda>a b. 0) 2) 0 = ?s0"
    by (simp add: rs_start_def triangle_edges triangle_values dadd_def dyadic_values to_double_numeral)
  have 1: "?step ?s0 = ?s1"
    by (subst rs_step_exact(2) [of _ _ "15 / 2" 0 "15 / 2"])
      (simp_all add: rs_next_def triangle_edges triangle_turns triangle_values remove_at_def d)
  have 2: "?step ?s1 = ?s2"
    by (subst rs_step_exact(1) [of _ _ 36 1 36]) (simp_all add: triangle_values remove_at_def d)
  have "while_option rs_running ?step ?s0 = while_option rs_running ?step ?s1"
    by (subst while_more) (simp_all only: 1, simp add: rs_running_def)
  also have "\<dots> = while_option rs_running ?step ?s2"
    by (subst while_more) (simp_all only: 2, simp add: rs_running_def)
  also have "\<dots> = Some ?s2" by (rule while_end) (simp add: rs_running_def)
  finally show ?thesis unfolding route_search_def start .
qed

lemma triangle_route:
  "findRoute triangle (\<lambda>a b. 0) first_min 0 2 10 = Some (Some (route_along triangle 36 [1]))"
  unfolding findRoute_def triangle_search by (simp add: trace_back.simps) (simp add: triangle_def)

theorem find_route_legal_witness:
  "\<exists>r st. findRoute triangle (\<lambda>a b. 0) first_min 0 2 10 = Some r \<and> route_search triangle (\<lambda>a b. 0) first_min 0 2 10 = Some st \<and>
    (case r of
       Some route \<Rightarrow> (\<exists>es. legal_drive triangle 0 es 2 \<and> route_describes triangle es route \<and>
         drive_cost triangle 0 es \<le> ro_durationS route)
     | None \<Rightarrow> rs_end st = Some GaveUp \<or> (\<forall>es. \<not> legal_drive triangle 0 es 2))"
  by (rule find_route_legal [OF triangle_wf heap_pick_first_min]) (simp_all add: triangle_def)

theorem find_route_optimal_witness:
  "\<exists>es. legal_drive triangle 0 es 2 \<and> route_describes triangle es (route_along triangle 36 [1]) \<and>
    ro_durationS (route_along triangle 36 [1]) = drive_cost triangle 0 es \<and>
    (\<forall>fs. legal_drive triangle 0 fs 2 \<longrightarrow> drive_cost triangle 0 es \<le> drive_cost triangle 0 fs)"
proof (rule find_route_optimal [OF triangle_wf heap_pick_first_min, where crow = "\<lambda>a b. 0" and maxSettled = 10])
  show "admissible triangle (heuristic triangle (\<lambda>a b. 0) 2) 2" by (rule admissible_zero) (rule triangle_values(5))
qed (simp_all add: triangle_route, simp_all add: triangle_def)

text \<open>
  Between points of equal longitude \<open>distanceM\<close> is \<open>sqrt (d * d)\<close> times the radius of the earth, 6371008.8 m, where \<open>d\<close> is
  the difference of the latitudes in radians, whatever the cosine is; a unit of latitude, \<open>1e-7\<close> degrees, is
  0.0111195080 m.  A distance function follows the meridian when it gives the arc to a micrometre over ten thousand units, which
  leaves room for every rounding of the code, and nothing between a point and itself.
\<close>

definition follows_meridian :: "(node_record \<Rightarrow> node_record \<Rightarrow> rat) \<Rightarrow> bool" where
  "follows_meridian crow \<longleftrightarrow> (\<forall>a. crow a a = 0) \<and>
     (\<forall>a b. nd_lon a = nd_lon b \<and> \<bar>nd_lat a - nd_lat b\<bar> \<le> 10000 \<longrightarrow>
        \<bar>crow a b - of_int \<bar>nd_lat a - nd_lat b\<bar> * 11119508 / 1000000000\<bar> \<le> 1 / 1000000)"

lemma follows_meridianD:
  assumes "follows_meridian crow"
  shows "crow a a = 0"
    and "0 \<le> y2 - y1 \<Longrightarrow> y2 - y1 \<le> 10000 \<Longrightarrow> m = of_int (y2 - y1) * 11119508 / 1000000000 \<Longrightarrow>
      m - 1 / 1000000 \<le> crow \<lparr>nd_lat = y1, nd_lon = x\<rparr> \<lparr>nd_lat = y2, nd_lon = x\<rparr> \<and>
      crow \<lparr>nd_lat = y1, nd_lon = x\<rparr> \<lparr>nd_lat = y2, nd_lon = x\<rparr> \<le> m + 1 / 1000000"
proof -
  let ?a = "\<lparr>nd_lat = y1, nd_lon = x\<rparr>" and ?b = "\<lparr>nd_lat = y2, nd_lon = x\<rparr>"
  show "crow a a = 0" using assms by (simp add: follows_meridian_def)
  assume d: "0 \<le> y2 - y1" "y2 - y1 \<le> 10000" and m: "m = of_int (y2 - y1) * 11119508 / 1000000000"
  then have abs: "\<bar>nd_lat ?a - nd_lat ?b\<bar> = y2 - y1" by simp
  with d have "nd_lon ?a = nd_lon ?b \<and> \<bar>nd_lat ?a - nd_lat ?b\<bar> \<le> 10000" by simp
  with assms have "\<bar>crow ?a ?b - of_int \<bar>nd_lat ?a - nd_lat ?b\<bar> * 11119508 / 1000000000\<bar> \<le> 1 / 1000000"
    unfolding follows_meridian_def by blast
  then have "\<bar>crow ?a ?b - m\<bar> \<le> 1 / 1000000" unfolding abs m .
  then show "m - 1 / 1000000 \<le> crow ?a ?b \<and> crow ?a ?b \<le> m + 1 / 1000000" unfolding abs_le_iff by linarith
qed

text \<open>
  A straight one-way street along a meridian, a hundred metres long: one segment of its own for the whole way, and beside it
  seven short ones.
\<close>

definition street_segment :: "nat \<Rightarrow> nat \<Rightarrow> nat \<Rightarrow> nat \<Rightarrow> segment_record" where
  "street_segment i a b cm = (triangle_segment i a b cm)\<lparr>freeFlowSpeedKph := 36, sg_flags := 1\<rparr>"

definition street :: graph where
  "street = triangle\<lparr>
     g_nodes := map (\<lambda>y. \<lparr>nd_lat = 330000000 + y, nd_lon = - 1170000000\<rparr>) [0, 900, 2333, 3766, 5199, 6632, 8065, 9498],
     g_segments := [street_segment 0 0 1 1000, street_segment 1 1 2 1593, street_segment 2 2 3 1593, street_segment 3 3 4 1593,
       street_segment 4 4 5 1593, street_segment 5 5 6 1593, street_segment 6 6 7 1593, street_segment 7 0 7 10561],
     g_edges := [triangle_edge 0 1 10 1, triangle_edge 7 7 105 1, triangle_edge 1 2 15 1, triangle_edge 2 3 15 1,
       triangle_edge 3 4 15 1, triangle_edge 4 5 15 1, triangle_edge 5 6 15 1, triangle_edge 6 7 15 1],
     g_geometry := replicate 32 0, g_csrOffsets := [0, 2, 3, 4, 5, 6, 7, 8, 8], g_restrictions := [],
     g_maxFreeFlowSpeedKph := 36\<rparr>"

lemma street_fields:
  "g_nodes street = map (\<lambda>y. \<lparr>nd_lat = 330000000 + y, nd_lon = - 1170000000\<rparr>) [0, 900, 2333, 3766, 5199, 6632, 8065, 9498]"
  "g_segments street = [street_segment 0 0 1 1000, street_segment 1 1 2 1593, street_segment 2 2 3 1593, street_segment 3 3 4 1593,
       street_segment 4 4 5 1593, street_segment 5 5 6 1593, street_segment 6 6 7 1593, street_segment 7 0 7 10561]"
  "g_edges street = [triangle_edge 0 1 10 1, triangle_edge 7 7 105 1, triangle_edge 1 2 15 1, triangle_edge 2 3 15 1,
       triangle_edge 3 4 15 1, triangle_edge 4 5 15 1, triangle_edge 5 6 15 1, triangle_edge 6 7 15 1]"
  "length (g_geometry street) = 32" "g_csrOffsets street = [0, 2, 3, 4, 5, 6, 7, 8, 8]" "g_restrictions street = []"
  "g_maxFreeFlowSpeedKph street = 36"
  by (simp_all add: street_def)

lemma street_wf: "graph_wf street"
  by (simp add: graph_wf_def street_fields edge_wf_def segment_wf_def triangle_edge_def street_segment_def triangle_segment_def)

lemma kph36: "to_double (36 / to_double (18 / 5)) = 10"
proof -
  have "round_half_even (18 / 5 * 2 ^ 51) = 8106479329266893" by (rule round_half_even_near) simp
  then have t: "to_double (18 / 5) = 8106479329266893 / 2 ^ 51"
    by (subst to_double_at [of _ "- 51"]) (simp_all add: scaled_def rat_pow2_def)
  have "round_half_even (36 / (8106479329266893 / 2 ^ 51) * 2 ^ 49) = 5629499534213120"
    by (rule round_half_even_near) simp
  then have "to_double (36 / (8106479329266893 / 2 ^ 51)) = 10"
    by (subst to_double_at [of _ "- 49"]) (simp_all add: scaled_def rat_pow2_def)
  then show ?thesis by (simp only: t)
qed

lemma street_fastest: "fastestMps street = 10"
  by (simp add: fastestMps_def street_fields kph36)

lemma street_edges: "edgesFrom street 0 = [0, 1]" "edgesFrom street (Suc 0) = [2]" "edgesFrom street 2 = [3]"
  "edgesFrom street 3 = [4]" "edgesFrom street 4 = [5]" "edgesFrom street 5 = [6]" "edgesFrom street 6 = [7]"
  by (simp_all add: edgesFrom_def street_fields upt_rec)

lemma street_values:
  "ed_target (g_edges street ! 0) = 1" "ed_target (g_edges street ! Suc 0) = 7"
  "edge_cost street 0 = 1" "edge_cost street (Suc 0) = 21 / 2"
  by (simp_all add: street_fields triangle_edge_def edge_cost_def dyadic_values)

lemma street_heuristic:
  assumes "follows_meridian crow"
  shows "heuristic street crow 7 7 = 0" "21 / 2 < dadd 1 (heuristic street crow 7 (Suc 0))"
proof -
  show "heuristic street crow 7 7 = 0" by (simp add: heuristic_def follows_meridianD(1) [OF assms])
  have d: "is_double (2447 / 256)" "is_double (39 / 4)" "is_double (2703 / 256)" "is_double 16"
    using to_double_dyadic [of 2447 8] to_double_dyadic [of 39 2] to_double_dyadic [of 2703 8]
    by (simp_all add: is_double_def to_double_numeral)
  have "95605529784 / 1000000000 - 1 / 1000000 \<le> crow (g_nodes street ! Suc 0) (g_nodes street ! 7) \<and>
      crow (g_nodes street ! Suc 0) (g_nodes street ! 7) \<le> 95605529784 / 1000000000 + 1 / 1000000"
    using follows_meridianD(2) [OF assms, of 330009498 330000900 _ "- 1170000000", OF _ _ refl] by (simp add: street_fields(1))
  then have "2447 / 256 \<le> crow (g_nodes street ! Suc 0) (g_nodes street ! 7) / 10"
    "crow (g_nodes street ! Suc 0) (g_nodes street ! 7) / 10 \<le> 39 / 4" by simp_all
  from to_double_between [OF d(1,2) _ this] have h: "2447 / 256 \<le> heuristic street crow 7 (Suc 0)"
    "heuristic street crow 7 (Suc 0) \<le> 39 / 4" by (simp_all add: heuristic_def street_fastest)
  have "2703 / 256 \<le> 1 + heuristic street crow 7 (Suc 0)" "1 + heuristic street crow 7 (Suc 0) \<le> 16" using h by simp_all
  from to_double_between [OF d(3,4) _ this] have "2703 / 256 \<le> dadd 1 (heuristic street crow 7 (Suc 0))"
    by (simp add: dadd_def)
  then show "21 / 2 < dadd 1 (heuristic street crow 7 (Suc 0))" by simp
qed

lemma street_search:
  assumes "follows_meridian crow"
  shows "\<exists>st. route_search street crow first_min 0 7 2000000 = Some st \<and> rs_end st = Some (Arrived 1) \<and>
     rs_cameFrom st = (\<lambda>i. None) \<and> rs_best st 1 = Some (21 / 2)"
proof -
  let ?q = "dadd 1 (heuristic street crow 7 (Suc 0))"
  let ?step = "rs_step street (heuristic street crow 7) first_min 7 2000000"
  let ?s0 = "\<lparr>rs_best = [0 \<mapsto> 1, 1 \<mapsto> 21 / 2], rs_cameFrom = (\<lambda>i. None), rs_queue = [(?q, 0), (21 / 2, 1)], rs_settled = 0, rs_end = None\<rparr>"
  let ?s1 = "\<lparr>rs_best = [0 \<mapsto> 1, 1 \<mapsto> 21 / 2], rs_cameFrom = (\<lambda>i. None), rs_queue = [(?q, 0)], rs_settled = 0, rs_end = Some (Arrived 1)\<rparr>"
  have d: "is_double (21 / 2)" by (simp add: is_double_def dyadic_values)
  note h = street_heuristic [OF assms]
  have start: "rs_start street (heuristic street crow 7) 0 = ?s0"
    using h(1) by (simp add: rs_start_def street_edges street_values) (simp add: dadd_def dyadic_values)
  have 1: "?step ?s0 = ?s1"
    using h by (subst rs_step_exact(1) [of _ _ "21 / 2" 1 "21 / 2"]) (simp_all add: street_values remove_at_def d)
  have "while_option rs_running ?step ?s0 = while_option rs_running ?step ?s1"
    by (subst while_more) (simp_all only: 1, simp add: rs_running_def)
  also have "\<dots> = Some ?s1" by (rule while_end) (simp add: rs_running_def)
  finally show ?thesis unfolding route_search_def start by simp
qed

text \<open>The cost the builder gives an edge (builder.cpp): the free-flow time in tenths of a second, cut off.\<close>

definition free_flow_costDs :: "segment_record \<Rightarrow> nat" where
  "free_flow_costDs s =
     (let speedKph = (if freeFlowSpeedKph s > 0 then of_nat (freeFlowSpeedKph s) else 5);
          seconds = to_double (to_double (of_nat (lengthCm s) / 100) / to_double (speedKph / to_double (36 / 10))) in
      nat \<lfloor>max 1 (to_double (seconds * 10))\<rfloor>)"

lemma free_flow_street:
  assumes "is_double a" "is_double b" "0 \<le> a" "a \<le> of_nat cm / 100" "of_nat cm / 100 \<le> b"
    and "is_double a'" "is_double b'" "0 \<le> a'" "a' \<le> a / 10" "b / 10 \<le> b'"
    and "is_double (a' * 10)" "is_double (b' * 10)" "of_nat k \<le> a' * 10" "b' * 10 < of_nat k + 1" "1 \<le> k"
  shows "free_flow_costDs (street_segment i x y cm) = k"
proof -
  let ?m = "to_double (of_nat cm / 100)" and ?s = "to_double (to_double (of_nat cm / 100) / 10)"
  have m: "a \<le> ?m" "?m \<le> b" using to_double_between [OF assms(1,2,3,4,5)] by simp_all
  have "a' \<le> ?m / 10" "?m / 10 \<le> b'" using m assms(9,10) by linarith+
  then have s: "a' \<le> ?s" "?s \<le> b'" using to_double_between [OF assms(6,7,8)] by simp_all
  have "a' * 10 \<le> to_double (?s * 10) \<and> to_double (?s * 10) \<le> b' * 10"
    using s assms(8) by (intro to_double_between [OF assms(11,12)]) simp_all
  with assms(13-15) have "of_nat k \<le> to_double (?s * 10)" "to_double (?s * 10) < of_nat k + 1" by linarith+
  then have "\<lfloor>to_double (?s * 10)\<rfloor> = int k" "1 \<le> to_double (?s * 10)"
    using assms(15) by (simp add: floor_eq_iff, simp)
  then show ?thesis by (simp add: free_flow_costDs_def street_segment_def triangle_segment_def kph36)
qed

lemma street_costs:
  "\<forall>e\<in>set (g_edges street). costDs e = free_flow_costDs (g_segments street ! ed_segment e)"
proof -
  have dy: "is_double (of_nat n / 2 ^ k)" if "n < 2 ^ 53" for n k
    using to_double_dyadic [OF that] by (simp add: is_double_def)
  have d: "is_double 10" "is_double 1" "is_double (31 / 2)" "is_double (51 / 32)" "is_double (255 / 16)" "is_double (3 / 2)"
    "is_double 15" "is_double (211 / 2)" "is_double (423 / 4)" "is_double (21 / 2)" "is_double (339 / 32)" "is_double 105"
    "is_double (1695 / 16)" "is_double (5 * (51 / 16))"
    using dy [of 10 0] dy [of 1 0] dy [of 31 1] dy [of 51 5] dy [of 255 4] dy [of 3 1] dy [of 15 0] dy [of 211 1] dy [of 423 2]
      dy [of 21 1] dy [of 339 5] dy [of 105 0] dy [of 1695 4] by simp_all
  have "free_flow_costDs (street_segment i x y 1000) = 10" for i x y
    by (rule free_flow_street [of 10 10 _ 1 1]) (simp_all add: d)
  moreover have "free_flow_costDs (street_segment i x y 1593) = 15" for i x y
    by (rule free_flow_street [of "31 / 2" "255 / 16" _ "3 / 2" "51 / 32"]) (simp_all add: d)
  moreover have "free_flow_costDs (street_segment i x y 10561) = 105" for i x y
    by (rule free_flow_street [of "211 / 2" "423 / 4" _ "21 / 2" "339 / 32"]) (simp_all add: d)
  ultimately show ?thesis by (simp add: street_fields triangle_edge_def)
qed

lemma street_route:
  assumes "follows_meridian crow"
  shows "findRoute street crow first_min 0 7 2000000 = Some (Some (route_along street (21 / 2) [1]))"
proof -
  from street_search [OF assms] obtain st where st: "route_search street crow first_min 0 7 2000000 = Some st"
    "rs_end st = Some (Arrived 1)" "rs_cameFrom st = (\<lambda>i. None)" "rs_best st 1 = Some (21 / 2)" by blast
  then show ?thesis
    by (simp add: findRoute_def st(1) trace_back.simps del: One_nat_def) (simp add: street_fields)
qed

lemma street_lengths:
  assumes "follows_meridian crow"
  shows "list_all (\<lambda>s. int (lengthCm s) = \<lfloor>100 * crow (g_nodes street ! fromNode s) (g_nodes street ! toNode s)\<rfloor>)
    (g_segments street)"
proof -
  have aux: "K \<le> 100 * X \<and> 100 * X < K + 1"
    if "m - e \<le> X" "X \<le> m + e" "K \<le> 100 * (m - e)" "100 * (m + e) < K + 1" for m e X K :: rat
  proof -
    have "100 * (m - e) \<le> 100 * X" "100 * X \<le> 100 * (m + e)" using that(1,2) by (simp_all add: mult_left_mono)
    with that(3,4) show ?thesis by (blast intro: order_trans le_less_trans)
  qed
  have *: "\<lfloor>100 * crow \<lparr>nd_lat = y1, nd_lon = - 1170000000\<rparr> \<lparr>nd_lat = y2, nd_lon = - 1170000000\<rparr>\<rfloor> = k"
    if "0 \<le> y2 - y1" "y2 - y1 \<le> 10000"
      "of_int k \<le> 100 * (of_int (y2 - y1) * 11119508 / 1000000000 - 1 / 1000000 :: rat)"
      "100 * (of_int (y2 - y1) * 11119508 / 1000000000 + 1 / 1000000 :: rat) < of_int k + 1" for y1 y2 k
    using follows_meridianD(2) [OF assms that(1,2) refl, of "- 1170000000"] aux [OF _ _ that(3,4)]
    unfolding floor_eq_iff by blast
  show ?thesis
    by (simp add: street_fields(1,2) street_segment_def triangle_segment_def *)
qed

lemma street_drive:
  "legal_drive street 0 [0, 2, 3, 4, 5, 6, 7] 7" "drive_cost street 0 [0, 2, 3, 4, 5, 6, 7] = 10"
proof -
  show "legal_drive street 0 [0, 2, 3, 4, 5, 6, 7] 7"
    by (simp add: legal_drive_def street_edges street_fields triangle_edge_def)
      (simp add: turn_ok_def turnAllowed_def street_fields triangle_edge_def Let_def street_segment_def triangle_segment_def edgesFrom_def)
  show "drive_cost street 0 [0, 2, 3, 4, 5, 6, 7] = 10"
    by (simp add: drive_cost_def edge_cost_def street_fields triangle_edge_def dadd_def dyadic_values to_double_numeral)
qed

lemma street_not_admissible:
  assumes "follows_meridian crow"
  shows "\<not> admissible street (heuristic street crow 7) 7"
proof
  assume a: "admissible street (heuristic street crow 7) 7"
  from street_drive(1) have t: "legal_turns street [0, 2, 3, 4, 5, 6, 7]"
    "drive street (ed_target (g_edges street ! 0)) [2, 3, 4, 5, 6, 7] 7" by (simp_all add: legal_drive_def)
  have "is_double 1" by (simp add: is_double_def)
  with a t have "dadd 1 (heuristic street crow 7 (ed_target (g_edges street ! 0))) \<le> drive_cost street 1 [2, 3, 4, 5, 6, 7]"
    unfolding admissible_def by (metis zero_le_one)
  moreover have "drive_cost street 1 [2, 3, 4, 5, 6, 7] = 10"
    using street_drive(2) by (simp add: drive_cost_def street_values dadd_def)
  ultimately show False using street_heuristic(2) [OF assms] by (simp add: street_values)
qed

text \<open>
  C32.  The router does not always find a quickest drive, and its heuristic is not admissible.  On this street every cost is the one
  the builder computes and every length the distance between the ends in whole centimetres, for any distance function that
  follows the meridian, as \<open>distanceM\<close> does; yet the router answers with a drive of 10.5 s where one of 10 s exists.
  The builder cuts the times off to tenths of a second, so the straight line at the fastest speed is no lower bound.
\<close>

theorem find_route_overestimates:
  assumes "follows_meridian crow"
  shows "graph_wf street \<and>
   list_all (\<lambda>e. costDs e = free_flow_costDs (g_segments street ! ed_segment e)) (g_edges street) \<and>
   list_all (\<lambda>s. int (lengthCm s) = \<lfloor>100 * crow (g_nodes street ! fromNode s) (g_nodes street ! toNode s)\<rfloor>)
     (g_segments street) \<and>
   \<not> admissible street (heuristic street crow 7) 7 \<and>
   (\<exists>route. findRoute street crow first_min 0 7 2000000 = Some (Some route) \<and> ro_durationS route = 21 / 2) \<and>
   legal_drive street 0 [0, 2, 3, 4, 5, 6, 7] 7 \<and> drive_cost street 0 [0, 2, 3, 4, 5, 6, 7] = 10"
  using street_wf street_costs street_lengths [OF assms] street_not_admissible [OF assms] street_route [OF assms] street_drive
  unfolding list_all_iff by (simp add: route_along_duration)

theorem find_route_overestimates_witness:
  "\<exists>route. findRoute street (\<lambda>a b. of_int \<bar>nd_lat a - nd_lat b\<bar> * 11119508 / 1000000000) first_min 0 7 2000000 = Some (Some route) \<and>
     ro_durationS route = 21 / 2"
  using find_route_overestimates [of "\<lambda>a b. of_int \<bar>nd_lat a - nd_lat b\<bar> * 11119508 / 1000000000"]
  by (simp add: follows_meridian_def)

end
