(* ===== verification/RoadTree.thy ===== *)
theory RoadTree
  imports RoadGraph
begin

text \<open>
  libs/road_graph: the packed tree over the bounding boxes of the segments.  How the builder grows it level
  by level (builder.cpp), how \<open>bind\<close> recomputes where the levels start (graph.cpp), and the query with
  its explicit stack (\<open>queryBox\<close> of graph.h).  Number of segments: below 2^31, so that no sum of
  32 bits wraps.
\<close>

definition kRTreeFanout :: nat where
  "kRTreeFanout = 16"

section \<open>The builder\<close>

definition coord_max :: int where
  "coord_max = 2147483647"

definition coord_min :: int where
  "coord_min = - 2147483648"

definition empty_box :: "nat \<Rightarrow> rtree_node" where
  "empty_box p = \<lparr>rt_west = coord_max, rt_south = coord_max, rt_east = coord_min, rt_north = coord_min, rt_payload = p\<rparr>"

definition box_point :: "int list \<Rightarrow> nat \<Rightarrow> rtree_node \<Rightarrow> rtree_node" where
  "box_point geometry g b =
     (let lat = geometry ! (g * 2); lon = geometry ! (g * 2 + 1) in
      b\<lparr>rt_west := min (rt_west b) lon, rt_east := max (rt_east b) lon,
        rt_south := min (rt_south b) lat, rt_north := max (rt_north b) lat\<rparr>)"

definition leaf_box :: "int list \<Rightarrow> segment_record \<Rightarrow> nat \<Rightarrow> rtree_node" where
  "leaf_box geometry s i = fold (box_point geometry) [geometryOffset s ..< geometryOffset s + geometryCount s] (empty_box i)"

definition box_join :: "rtree_node \<Rightarrow> rtree_node \<Rightarrow> rtree_node" where
  "box_join node parent = parent\<lparr>rt_west := min (rt_west parent) (rt_west node), rt_east := max (rt_east parent) (rt_east node),
     rt_south := min (rt_south parent) (rt_south node), rt_north := max (rt_north parent) (rt_north node)\<rparr>"

definition parent_box :: "rtree_node list \<Rightarrow> nat \<Rightarrow> nat \<Rightarrow> nat \<Rightarrow> rtree_node" where
  "parent_box tree levelStart levelCount i =
     fold (\<lambda>c parent. let child = i * kRTreeFanout + c in
             if child \<ge> levelCount then parent else box_join (tree ! (levelStart + child)) parent)
       [0..<kRTreeFanout] (empty_box (i * kRTreeFanout))"

definition next_count :: "nat \<Rightarrow> nat" where
  "next_count levelCount = (levelCount + kRTreeFanout - 1) div kRTreeFanout"

lemma next_count_less: "1 < n \<Longrightarrow> next_count n < n"
  by (simp add: next_count_def kRTreeFanout_def)

function rtree_levels :: "rtree_node list \<Rightarrow> nat \<Rightarrow> nat \<Rightarrow> rtree_node list" where
  "rtree_levels tree levelStart levelCount =
     (if levelCount > 1
      then rtree_levels (tree @ map (parent_box tree levelStart levelCount) [0..<next_count levelCount])
             (levelStart + levelCount) (next_count levelCount)
      else tree)"
  by auto
termination by (relation "measure (\<lambda>(tree, s, c). c)") (auto simp: next_count_less)

declare rtree_levels.simps [simp del]

definition build_rtree :: "int list \<Rightarrow> segment_record list \<Rightarrow> rtree_node list" where
  "build_rtree geometry segments =
     rtree_levels (map (\<lambda>i. leaf_box geometry (segments ! i) i) [0..<length segments]) 0 (length segments)"

section \<open>The reader\<close>

function level_starts :: "nat \<Rightarrow> nat \<Rightarrow> nat list" where
  "level_starts levelStart levelCount =
     levelStart # (if levelCount \<le> 1 then [] else level_starts (levelStart + levelCount) (next_count levelCount))"
  by auto
termination by (relation "measure (\<lambda>(s, c). c)") (auto simp: next_count_less)

declare level_starts.simps [simp del]

definition kStackFrames :: nat where
  "kStackFrames = 256"

text \<open>Pushing the children of a node: until they, or the stack, run out.  The stack's top is the head of the list.\<close>

fun push_children :: "nat \<Rightarrow> nat \<Rightarrow> nat \<Rightarrow> nat list \<Rightarrow> (nat \<times> nat) list \<Rightarrow> (nat \<times> nat) list" where
  "push_children childLevel childCount payload [] stack = stack"
| "push_children childLevel childCount payload (i # is) stack =
     (if payload + i \<ge> childCount \<or> length stack \<ge> kStackFrames then stack
      else push_children childLevel childCount payload is ((childLevel, payload + i) # stack))"

definition child_count :: "nat list \<Rightarrow> nat \<Rightarrow> nat \<Rightarrow> nat" where
  "child_count levels len childLevel =
     (if childLevel + 1 < length levels then levels ! (childLevel + 1) - levels ! childLevel else len - levels ! childLevel)"

definition box_misses :: "rtree_node \<Rightarrow> int \<Rightarrow> int \<Rightarrow> int \<Rightarrow> int \<Rightarrow> bool" where
  "box_misses node west south east north \<longleftrightarrow>
     rt_east node < west \<or> rt_west node > east \<or> rt_north node < south \<or> rt_south node > north"

text \<open>The payloads of the leaves visited, in the order of the visits.\<close>

lemma push_children_measure:
  "sum_list (map (\<lambda>(l, i). 17 ^ l) (push_children childLevel n p is stack)) \<le>
   length is * 17 ^ childLevel + sum_list (map (\<lambda>(l, i). 17 ^ l :: nat) stack)"
  by (induction childLevel n p "is" stack rule: push_children.induct) auto

function query_loop ::
  "rtree_node list \<Rightarrow> nat list \<Rightarrow> int \<Rightarrow> int \<Rightarrow> int \<Rightarrow> int \<Rightarrow> (nat \<times> nat) list \<Rightarrow> nat list \<Rightarrow> nat list" where
  "query_loop tree levels west south east north [] visited = visited"
| "query_loop tree levels west south east north ((level, index) # stack) visited =
     (let pos = levels ! level + index; node = tree ! pos in
      if pos \<ge> length tree \<or> box_misses node west south east north
        then query_loop tree levels west south east north stack visited
      else if level = 0 then query_loop tree levels west south east north stack (visited @ [rt_payload node])
      else query_loop tree levels west south east north
             (push_children (level - 1) (child_count levels (length tree) (level - 1)) (rt_payload node)
                [0..<kRTreeFanout] stack) visited)"
  by pat_completeness auto
termination
proof (relation "measure (\<lambda>(t, l, w, s, e, n, stack, v). sum_list (map (\<lambda>(l, i). 17 ^ l) stack))", goal_cases)
  case (4 tree levels west south east north level index stack visited)
  note le = push_children_measure [of "level - 1" "child_count levels (length tree) (level - 1)" "rt_payload nd"
      "[0..<kRTreeFanout]" stack for nd]
  have "16 * 17 ^ (level - 1) < (17 :: nat) ^ level" using 4(4) by (cases level) simp_all
  moreover have "length [0..<kRTreeFanout] = 16" by (simp add: kRTreeFanout_def)
  ultimately have "sum_list (map (\<lambda>(l, i). 17 ^ l) (push_children (level - 1)
      (child_count levels (length tree) (level - 1)) (rt_payload nd) [0..<kRTreeFanout] stack)) <
      17 ^ level + sum_list (map (\<lambda>(l, i). 17 ^ l :: nat) stack)" for nd
    using le [of nd] by (simp only:)
  then show ?case by simp
qed auto

declare query_loop.simps(2) [simp del]

definition queryBox :: "rtree_node list \<Rightarrow> nat list \<Rightarrow> int \<Rightarrow> int \<Rightarrow> int \<Rightarrow> int \<Rightarrow> nat list" where
  "queryBox tree levels west south east north =
     (if tree = [] \<or> levels = [] then []
      else query_loop tree levels west south east north [(length levels - 1, 0)] [])"


section \<open>Levels\<close>

fun count_at :: "nat \<Rightarrow> nat \<Rightarrow> nat" where
  "count_at c 0 = c"
| "count_at c (Suc l) = next_count (count_at c l)"

fun start_at :: "nat \<Rightarrow> nat \<Rightarrow> nat \<Rightarrow> nat" where
  "start_at s c 0 = s"
| "start_at s c (Suc l) = start_at s c l + count_at c l"

function depth :: "nat \<Rightarrow> nat" where
  "depth c = (if c \<le> 1 then 0 else Suc (depth (next_count c)))"
  by auto
termination by (relation "measure id") (auto simp: next_count_less)

declare depth.simps [simp del]

lemma count_at_next: "count_at (next_count c) l = count_at c (Suc l)"
  by (induction l) simp_all

lemma start_at_next: "start_at (s + c) (next_count c) l = start_at s c (Suc l)"
  by (induction l) (simp_all add: count_at_next)

lemma level_starts_eq: "level_starts s c = map (start_at s c) [0..<Suc (depth c)]"
proof (induction s c rule: level_starts.induct)
  case (1 s c)
  show ?case
  proof (cases "c \<le> 1")
    case True
    then show ?thesis by (simp add: level_starts.simps [of s] depth.simps [of c])
  next
    case False
    with 1 have "level_starts s c = s # map (start_at (s + c) (next_count c)) [0..<Suc (depth (next_count c))]"
      by (simp add: level_starts.simps [of s])
    also have "\<dots> = map (start_at s c) [0..<Suc (Suc (depth (next_count c)))]"
      by (subst (2) upt_conv_Cons) (simp_all add: start_at_next map_Suc_upt [symmetric] comp_def del: upt_Suc)
    finally show ?thesis using False by (simp add: depth.simps [of c])
  qed
qed

lemma count_at_pos: "0 < c \<Longrightarrow> 0 < count_at c l"
  by (induction l) (simp_all add: next_count_def kRTreeFanout_def)

lemma count_at_depth: "0 < c \<Longrightarrow> count_at c (depth c) = 1"
proof (induction c rule: depth.induct)
  case (1 c)
  show ?case
  proof (cases "c \<le> 1")
    case True
    with 1 show ?thesis by (simp add: depth.simps)
  next
    case False
    then have "0 < next_count c" by (simp add: next_count_def kRTreeFanout_def)
    with 1 False show ?thesis by (simp add: depth.simps [of c] count_at_next del: count_at.simps)
  qed
qed

lemma count_at_covers: "n \<le> count_at n l * 16 ^ l"
proof (induction l)
  case (Suc l)
  have "count_at n l \<le> next_count (count_at n l) * 16" by (simp add: next_count_def kRTreeFanout_def)
  then have "count_at n l * 16 ^ l \<le> next_count (count_at n l) * 16 * 16 ^ l" by (rule mult_right_mono) simp
  with Suc have "n \<le> next_count (count_at n l) * 16 * 16 ^ l" by linarith
  then show ?case by (simp add: mult.assoc)
qed simp

lemma count_at_tight: "i < count_at n l \<Longrightarrow> i * 16 ^ l < n"
proof (induction l arbitrary: i)
  case (Suc l)
  then have "i * 16 < count_at n l" by (simp add: next_count_def kRTreeFanout_def)
  from Suc.IH [OF this] show ?case by (simp add: mult.assoc)
qed simp

lemma depth_bound: "n < 2 ^ 32 \<Longrightarrow> depth n \<le> 8"
proof -
  have "depth n \<le> k" if "n \<le> 16 ^ k" for k
    using that
  proof (induction k arbitrary: n)
    case 0
    then show ?case by (simp add: depth.simps)
  next
    case (Suc k)
    then have "next_count n \<le> 16 ^ k" by (simp add: next_count_def kRTreeFanout_def)
    from Suc.IH [OF this] show ?case by (simp add: depth.simps [of n])
  qed
  from this [of 8] show "n < 2 ^ 32 \<Longrightarrow> depth n \<le> 8" by simp
qed

section \<open>What the builder builds\<close>

definition box_within :: "rtree_node \<Rightarrow> rtree_node \<Rightarrow> bool" where
  "box_within a b \<longleftrightarrow> rt_west b \<le> rt_west a \<and> rt_east a \<le> rt_east b \<and> rt_south b \<le> rt_south a \<and> rt_north a \<le> rt_north b"

lemma box_misses_within: "box_within a b \<Longrightarrow> box_misses b w s e n \<Longrightarrow> box_misses a w s e n"
  by (auto simp: box_within_def box_misses_def)

lemma box_within_trans: "box_within a b \<Longrightarrow> box_within b c \<Longrightarrow> box_within a c"
  by (auto simp: box_within_def)

lemma parent_box_payload: "rt_payload (parent_box tree s c i) = i * 16"
proof -
  have "rt_payload (fold (\<lambda>k parent. let child = i * kRTreeFanout + k in
             if child \<ge> c then parent else box_join (tree ! (s + child)) parent) ks b) = rt_payload b" for ks b
    by (induction ks arbitrary: b) (auto simp: Let_def box_join_def)
  then show ?thesis by (simp add: parent_box_def empty_box_def kRTreeFanout_def)
qed

lemma parent_box_contains:
  assumes "k < 16" "i * 16 + k < c"
  shows "box_within (tree ! (s + (i * 16 + k))) (parent_box tree s c i)"
proof -
  let ?f = "\<lambda>k parent. let child = i * kRTreeFanout + k in
             if child \<ge> c then parent else box_join (tree ! (s + child)) parent"
  have grow1: "box_within a b \<Longrightarrow> box_within a (?f k b)" for a b k
    by (simp add: Let_def box_join_def box_within_def min_def max_def)
  have grow: "box_within a b \<Longrightarrow> box_within a (fold ?f ks b)" for a b ks
  proof (induction ks arbitrary: b)
    case (Cons k ks)
    from Cons.IH [OF grow1 [OF Cons.prems]] show ?case by simp
  qed simp
  have "box_within (tree ! (s + (i * 16 + k))) (fold ?f ks b)" if "k \<in> set ks" for ks b
    using that
  proof (induction ks arbitrary: b)
    case (Cons j ks)
    show ?case
    proof (cases "j = k")
      case True
      have "box_within (tree ! (s + (i * 16 + k))) (?f j b)"
        using assms True by (simp add: Let_def kRTreeFanout_def box_join_def box_within_def)
      from grow [OF this] show ?thesis by simp
    next
      case False
      with Cons.prems have "k \<in> set ks" by simp
      from Cons.IH [OF this] show ?thesis by simp
    qed
  qed simp
  then show ?thesis using assms(1) by (simp add: parent_box_def kRTreeFanout_def)
qed

lemma parent_box_cong:
  assumes "\<And>k. k < s + c \<Longrightarrow> tree ! k = tree' ! k"
  shows "parent_box tree s c i = parent_box tree' s c i"
  unfolding parent_box_def by (rule fold_cong) (auto simp: Let_def assms)

lemma rtree_levels_prefix: "k < length tree \<Longrightarrow> rtree_levels tree s c ! k = tree ! k"
proof (induction tree s c rule: rtree_levels.induct)
  case (1 tree s c)
  then show ?case by (subst rtree_levels.simps) (auto simp: nth_append)
qed

lemma rtree_levels_built:
  assumes "length tree = s + c" "0 < c"
  shows "(\<forall>l<depth c. \<forall>i<count_at c (Suc l). rtree_levels tree s c ! (start_at s c (Suc l) + i) =
            parent_box (rtree_levels tree s c) (start_at s c l) (count_at c l) i) \<and>
         length (rtree_levels tree s c) = start_at s c (depth c) + 1"
  using assms
proof (induction tree s c rule: rtree_levels.induct)
  case (1 tree s c)
  show ?case
  proof (cases "1 < c")
    case False
    then have "depth c = 0" "rtree_levels tree s c = tree" by (simp_all add: rtree_levels.simps [of tree] depth.simps [of c])
    with False 1(2,3) show ?thesis by simp
  next
    case True
    let ?up = "map (parent_box tree s c) [0..<next_count c]"
    let ?T = "rtree_levels (tree @ ?up) (s + c) (next_count c)"
    have T: "rtree_levels tree s c = ?T" using True by (subst rtree_levels.simps) simp
    have d: "depth c = Suc (depth (next_count c))" using True by (simp add: depth.simps)
    have pos: "0 < next_count c" using True by (simp add: next_count_def kRTreeFanout_def)
    from 1(1) [OF True] 1(2) pos have IH:
      "\<forall>l<depth (next_count c). \<forall>i<count_at (next_count c) (Suc l). ?T ! (start_at (s + c) (next_count c) (Suc l) + i) =
          parent_box ?T (start_at (s + c) (next_count c) l) (count_at (next_count c) l) i"
      "length ?T = start_at (s + c) (next_count c) (depth (next_count c)) + 1" by simp_all
    have "?T ! (start_at s c (Suc l) + i) = parent_box ?T (start_at s c l) (count_at c l) i"
      if "l < depth c" "i < count_at c (Suc l)" for l i
    proof (cases l)
      case 0
      with that have i: "i < next_count c" by simp
      have "?T ! (s + c + i) = (tree @ ?up) ! (s + c + i)" by (rule rtree_levels_prefix) (use 1 i in simp)
      also have "\<dots> = parent_box tree s c i" using 1 i by (simp add: nth_append)
      also have "\<dots> = parent_box ?T s c i"
        by (rule parent_box_cong) (use 1 in \<open>simp add: rtree_levels_prefix nth_append\<close>)
      finally show ?thesis using 0 by simp
    next
      case (Suc m)
      with that IH(1) d show ?thesis by (simp add: start_at_next count_at_next del: start_at.simps count_at.simps)
    qed
    with IH(2) show ?thesis unfolding T by (simp add: d start_at_next del: start_at.simps count_at.simps)
  qed
qed


section \<open>What the query visits\<close>

text \<open>A packed tree over \<open>n\<close> leaves: each inner node contains the boxes of its children.\<close>

definition packed_tree :: "rtree_node list \<Rightarrow> nat \<Rightarrow> bool" where
  "packed_tree T n \<longleftrightarrow> 0 < n \<and> length T = start_at 0 n (depth n) + 1 \<and>
     (\<forall>i<n. rt_payload (T ! i) = i) \<and>
     (\<forall>l<depth n. \<forall>i<count_at n (Suc l). rt_payload (T ! (start_at 0 n (Suc l) + i)) = i * 16 \<and>
        (\<forall>k<16. i * 16 + k < count_at n l \<longrightarrow>
           box_within (T ! (start_at 0 n l + (i * 16 + k))) (T ! (start_at 0 n (Suc l) + i))))"

lemma leaf_box_payload [simp]: "rt_payload (leaf_box geometry s i) = i"
proof -
  have "rt_payload (fold (box_point geometry) gs b) = rt_payload b" for gs b
    by (induction gs arbitrary: b) (simp_all add: box_point_def Let_def)
  then show ?thesis by (simp add: leaf_box_def empty_box_def)
qed

lemma build_rtree_leaf:
  "i < length segments \<Longrightarrow> build_rtree geometry segments ! i = leaf_box geometry (segments ! i) i"
  by (simp add: build_rtree_def rtree_levels_prefix)

lemma build_rtree_packed:
  assumes "segments \<noteq> []"
  shows "packed_tree (build_rtree geometry segments) (length segments)"
proof -
  let ?leaves = "map (\<lambda>i. leaf_box geometry (segments ! i) i) [0..<length segments]"
  have T: "build_rtree geometry segments = rtree_levels ?leaves 0 (length segments)"
    by (simp add: build_rtree_def)
  have "length ?leaves = 0 + length segments" "0 < length segments" using assms by simp_all
  note built = rtree_levels_built [OF this, folded T]
  show ?thesis
    unfolding packed_tree_def
    using assms built by (auto simp: build_rtree_leaf parent_box_payload parent_box_contains)
qed

lemma start_at_mono: "l \<le> m \<Longrightarrow> start_at s c l \<le> start_at s c m"
  by (rule lift_Suc_mono_le) simp_all

lemma node_in_tree:
  assumes "packed_tree T n" "l \<le> depth n" "i < count_at n l"
  shows "start_at 0 n l + i < length T"
proof (cases "l = depth n")
  case True
  with assms show ?thesis by (simp add: packed_tree_def count_at_depth)
next
  case False
  then have "start_at 0 n (Suc l) \<le> start_at 0 n (depth n)" using assms(2) by (intro start_at_mono) simp
  with assms show ?thesis by (simp add: packed_tree_def)
qed

lemma packed_child:
  assumes "packed_tree T n" "l < depth n" "q div 16 < count_at n (Suc l)" "q < count_at n l"
  shows "box_within (T ! (start_at 0 n l + q)) (T ! (start_at 0 n (Suc l) + q div 16))"
proof -
  have "\<forall>k<16. q div 16 * 16 + k < count_at n l \<longrightarrow>
      box_within (T ! (start_at 0 n l + (q div 16 * 16 + k))) (T ! (start_at 0 n (Suc l) + q div 16))"
    using assms(1-3) unfolding packed_tree_def by blast
  from spec [OF this, of "q mod 16"] assms(4) show ?thesis by simp
qed

lemma leaf_within:
  assumes "packed_tree T n" "l \<le> depth n" "j < n"
  shows "j div 16 ^ l < count_at n l \<and> box_within (T ! j) (T ! (start_at 0 n l + j div 16 ^ l))"
  using assms(2)
proof (induction l)
  case 0
  with assms show ?case by (simp add: box_within_def)
next
  case (Suc l)
  then have IH: "j div 16 ^ l < count_at n l" "box_within (T ! j) (T ! (start_at 0 n l + j div 16 ^ l))" by simp_all
  have div: "j div 16 ^ Suc l = j div 16 ^ l div 16" by (simp only: power_Suc2 div_mult2_eq)
  have up: "j div 16 ^ l div 16 < count_at n (Suc l)"
    using IH(1) by (simp add: next_count_def kRTreeFanout_def)
  have "box_within (T ! (start_at 0 n l + j div 16 ^ l)) (T ! (start_at 0 n (Suc l) + j div 16 ^ l div 16))"
    using assms(1) Suc.prems up IH(1) by (intro packed_child) simp_all
  then show ?case using IH(2) up unfolding div by (auto intro: box_within_trans)
qed

definition leaves_under :: "nat \<Rightarrow> nat \<times> nat \<Rightarrow> nat list" where
  "leaves_under n f = [snd f * 16 ^ fst f ..< min n ((snd f + 1) * 16 ^ fst f)]"

lemma leaves_of_children:
  assumes "a \<le> b" "a * w \<le> n"
  shows "concat (map (\<lambda>c. [c * w ..< min n ((c + 1) * w)]) [a..<b]) = [a * w ..< min n (b * w)]"
  using assms(1)
proof (induction b)
  case (Suc b)
  show ?case
  proof (cases "a \<le> b")
    case True
    have "[a * w ..< min n (b * w)] @ [b * w ..< min n ((b + 1) * w)] = [a * w ..< min n ((b + 1) * w)]"
    proof (cases "b * w \<le> n")
      case le: True
      then have "a * w \<le> b * w" "b * w \<le> min n ((b + 1) * w)" "min n (b * w) = b * w" using True by simp_all
      then show ?thesis using upt_add_eq_append [of "a * w" "b * w" "min n ((b + 1) * w) - b * w"] by simp
    next
      case False
      then show ?thesis by simp
    qed
    with Suc True show ?thesis by simp
  next
    case False
    with Suc.prems have "a = Suc b" by simp
    with assms(2) show ?thesis by simp
  qed
qed (use assms(2) in simp)

lemma push_children_all:
  assumes "length stack + length is \<le> kStackFrames"
  shows "push_children l n p is stack = rev (map (\<lambda>i. (l, p + i)) (takeWhile (\<lambda>i. p + i < n) is)) @ stack"
  using assms by (induction "is" arbitrary: stack) (auto simp: not_less)

lemma takeWhile_upt: "takeWhile (\<lambda>i. p + i < n) [0..<m] = [0..<min m (n - p)]"
proof (induction m)
  case (Suc m)
  show ?case
  proof (cases "m < n - p")
    case True
    with Suc have "takeWhile (\<lambda>i. p + i < n) [0..<m] = [0..<m]" by simp
    then have "\<forall>i\<in>set [0..<m]. p + i < n" by (metis set_takeWhileD)
    with True show ?thesis by (simp add: takeWhile_append2)
  next
    case False
    with Suc have eq: "takeWhile (\<lambda>i. p + i < n) [0..<m] = [0..<n - p]" by simp
    show ?thesis
    proof (cases "m = n - p")
      case True
      with False eq show ?thesis by (simp add: takeWhile_append)
    next
      case more: False
      with False have "n - p < m" by simp
      then have "\<not> (\<forall>i\<in>set [0..<m]. p + i < n)" by (auto intro!: bexI [of _ "n - p"])
      with eq False show ?thesis by (auto simp: takeWhile_append)
    qed
  qed
qed simp


text \<open>How high the stack stands when a frame of a level is on it; the 256 frames are never used up.\<close>

fun frames_fit :: "nat \<Rightarrow> (nat \<times> nat) list \<Rightarrow> bool" where
  "frames_fit d [] \<longleftrightarrow> True"
| "frames_fit d ((l, i) # stack) \<longleftrightarrow> length stack \<le> 15 * (d - l) \<and> frames_fit d stack"

lemma frames_fit_push:
  assumes "frames_fit d stack" "length stack \<le> 15 * (d - l)" "0 < l" "l \<le> d" "k \<le> 16"
  shows "frames_fit d (rev (map (\<lambda>i. (l - 1, p + i)) [0..<k]) @ stack)"
  using assms(5)
proof (induction k)
  case (Suc k)
  have "k + length stack \<le> 15 * (d - (l - 1))" using Suc.prems assms(2-4) by (simp add: diff_mult_distrib2)
  with Suc show ?case by simp
qed (use assms(1) in simp)

definition frame_hits :: "rtree_node list \<Rightarrow> nat \<Rightarrow> int \<Rightarrow> int \<Rightarrow> int \<Rightarrow> int \<Rightarrow> nat \<times> nat \<Rightarrow> nat list" where
  "frame_hits T n west south east north f =
     filter (\<lambda>j. \<not> box_misses (T ! j) west south east north) (rev (leaves_under n f))"

lemma frame_hits_missed:
  assumes "packed_tree T n" "l \<le> depth n" "box_misses (T ! (start_at 0 n l + i)) west south east north"
  shows "frame_hits T n west south east north (l, i) = []"
proof -
  have "box_misses (T ! j) west south east north" if "j \<in> set (leaves_under n (l, i))" for j
  proof -
    from that have j: "i * 16 ^ l \<le> j" "j < (i + 1) * 16 ^ l" "j < n" by (simp_all add: leaves_under_def)
    then have "j div 16 ^ l = i" by (intro div_nat_eqI) (simp_all add: mult.commute)
    with leaf_within [OF assms(1,2) j(3)] assms(3) show ?thesis by (auto intro: box_misses_within)
  qed
  then show ?thesis by (simp add: frame_hits_def filter_empty_conv)
qed

lemma frame_hits_children:
  assumes "0 < l" "i < count_at n l" "k = min 16 (count_at n (l - 1) - i * 16)"
  shows "concat (map (frame_hits T n west south east north) (rev (map (\<lambda>c. (l - 1, i * 16 + c)) [0..<k]))) =
    frame_hits T n west south east north (l, i)"
proof -
  obtain m where l: "l = Suc m" using assms(1) by (cases l) auto
  let ?w = "16 ^ m :: nat"
  have i: "i * 16 < count_at n m" using assms(2) unfolding l by (simp add: next_count_def kRTreeFanout_def)
  have low: "i * 16 * ?w \<le> n" using count_at_tight [OF i] by simp
  have "concat (map (leaves_under n) (map (\<lambda>c. (m, i * 16 + c)) [0..<k])) =
      concat (map (\<lambda>c. [c * ?w ..< min n ((c + 1) * ?w)]) [i * 16 ..< i * 16 + k])"
    by (simp add: leaves_under_def comp_def map_add_upt [symmetric] add.commute)
  also have "\<dots> = [i * 16 * ?w ..< min n ((i * 16 + k) * ?w)]" by (rule leaves_of_children) (use low in simp_all)
  also have "min n ((i * 16 + k) * ?w) = min n ((i + 1) * 16 ^ l)"
  proof (cases "k = 16")
    case True
    then show ?thesis by (simp add: l algebra_simps)
  next
    case False
    with assms(3) i have k: "i * 16 + k = count_at n m" and less: "i * 16 + k \<le> (i + 1) * 16" by (simp_all add: l)
    have "n \<le> (i * 16 + k) * ?w" unfolding k by (rule count_at_covers)
    moreover have "(i * 16 + k) * ?w \<le> (i + 1) * 16 * ?w" using less by (rule mult_right_mono) simp
    ultimately have "n \<le> (i * 16 + k) * ?w" "n \<le> (i + 1) * 16 ^ l" by (simp_all only: l power_Suc mult.assoc order_trans)
    then show ?thesis by (simp only: min_absorb1)
  qed
  finally have all: "concat (map (leaves_under n) (map (\<lambda>c. (m, i * 16 + c)) [0..<k])) =
      [i * 16 * ?w ..< min n ((i + 1) * 16 ^ l)]" .
  have "i * 16 * ?w = i * 16 ^ l" by (simp add: l)
  with all have "concat (map (leaves_under n) (map (\<lambda>c. (m, i * 16 + c)) [0..<k])) = leaves_under n (l, i)"
    by (simp only: leaves_under_def fst_conv snd_conv)
  then have "rev (leaves_under n (l, i)) = concat (map (\<lambda>f. rev (leaves_under n f)) (rev (map (\<lambda>c. (m, i * 16 + c)) [0..<k])))"
    by (simp only: rev_concat rev_map map_map comp_def flip: \<open>concat _ = leaves_under n (l, i)\<close>)
  then show ?thesis by (simp add: l frame_hits_def [abs_def] filter_concat comp_def)
qed


lemma child_count_level:
  assumes "packed_tree T n" "levels = map (start_at 0 n) [0..<Suc (depth n)]" "l < depth n"
  shows "child_count levels (length T) l = count_at n l"
  using assms by (simp add: child_count_def del: upt_Suc)

lemma query_loop_visits:
  assumes "packed_tree T n" "depth n \<le> 16" "levels = map (start_at 0 n) [0..<Suc (depth n)]"
    and "\<forall>f\<in>set stack. fst f \<le> depth n \<and> snd f < count_at n (fst f)" "frames_fit (depth n) stack"
  shows "query_loop T levels west south east north stack visited =
    visited @ concat (map (frame_hits T n west south east north) stack)"
  using assms
proof (induction T levels west south east north stack visited rule: query_loop.induct)
  case (1 T levels west south east north visited)
  then show ?case by simp
next
  case (2 T levels west south east north l i stack visited)
  note tree = "2.prems"(1)
  from "2.prems"(4,5) have li: "l \<le> depth n" "i < count_at n l" and rest: "\<forall>f\<in>set stack. fst f \<le> depth n \<and> snd f < count_at n (fst f)"
    and fit: "length stack \<le> 15 * (depth n - l)" "frames_fit (depth n) stack" by simp_all
  have pos: "levels ! l + i = start_at 0 n l + i" using "2.prems"(3) li(1) by (simp del: upt_Suc)
  have inside: "start_at 0 n l + i < length T" by (rule node_in_tree [OF tree li])
  then have out: "\<not> length T \<le> start_at 0 n l + i" by simp
  let ?node = "T ! (start_at 0 n l + i)"
  show ?case
  proof (cases "box_misses ?node west south east north")
    case True
    have "query_loop T levels west south east north ((l, i) # stack) visited = query_loop T levels west south east north stack visited"
      using True by (subst query_loop.simps(2)) (simp add: pos Let_def)
    also have "\<dots> = visited @ concat (map (frame_hits T n west south east north) stack)"
      by (rule "2.IH"(1) [OF refl refl]) (use True "2.prems" rest fit pos in simp_all)
    finally show ?thesis using frame_hits_missed [OF tree li(1) True] by simp
  next
    case hit: False
    show ?thesis
    proof (cases "l = 0")
      case True
      have "rt_payload ?node = i" using tree li True by (simp add: packed_tree_def)
      then have "query_loop T levels west south east north ((l, i) # stack) visited = query_loop T levels west south east north stack (visited @ [i])"
        using hit True inside pos by (subst query_loop.simps(2)) (simp add: Let_def)
      also have "\<dots> = (visited @ [i]) @ concat (map (frame_hits T n west south east north) stack)"
        using "2.IH"(2) [OF refl refl] hit True inside pos "2.prems" rest fit \<open>rt_payload ?node = i\<close> by simp
      finally have "query_loop T levels west south east north ((l, i) # stack) visited =
        (visited @ [i]) @ concat (map (frame_hits T n west south east north) stack)" .
      moreover have "frame_hits T n west south east north (l, i) = [i]"
        using hit True li by (simp add: frame_hits_def leaves_under_def)
      ultimately show ?thesis by (simp only: list.map concat.simps append_assoc)
    next
      case False
      let ?k = "min 16 (count_at n (l - 1) - i * 16)"
      let ?children = "rev (map (\<lambda>c. (l - 1, i * 16 + c)) [0..<?k])"
      have payload: "rt_payload ?node = i * 16"
        using tree li False unfolding packed_tree_def by (cases l) auto
      have room: "length stack + length [0..<kRTreeFanout] \<le> kStackFrames"
        using fit(1) "2.prems"(2) by (simp add: kRTreeFanout_def kStackFrames_def)
      have push: "push_children (l - 1) (child_count levels (length T) (l - 1)) (rt_payload ?node) [0..<kRTreeFanout] stack = ?children @ stack"
        using child_count_level [OF tree "2.prems"(3), of "l - 1"] li(1) False push_children_all [OF room]
        by (simp add: takeWhile_upt kRTreeFanout_def payload)
      have "query_loop T levels west south east north ((l, i) # stack) visited = query_loop T levels west south east north (?children @ stack) visited"
        using hit False out by (subst query_loop.simps(2)) (simp only: pos Let_def push if_False simp_thms)
      also have "\<dots> = visited @ concat (map (frame_hits T n west south east north) (?children @ stack))"
      proof -
        have "\<forall>f\<in>set (?children @ stack). fst f \<le> depth n \<and> snd f < count_at n (fst f)" using rest li(1) False by auto
        have "frames_fit (depth n) (?children @ stack)"
          using frames_fit_push [OF fit(2,1)] False li(1) by simp
        then show ?thesis
          by (intro "2.IH"(3) [OF refl refl, unfolded pos push] "2.prems"(1-3))
            (use hit False out \<open>\<forall>f\<in>set (?children @ stack). fst f \<le> depth n \<and> snd f < count_at n (fst f)\<close> in simp_all)
      qed
      also have "concat (map (frame_hits T n west south east north) (?children @ stack)) =
          frame_hits T n west south east north (l, i) @ concat (map (frame_hits T n west south east north) stack)"
        using frame_hits_children [OF _ li(2) refl, of T west south east north] False by simp
      finally show ?thesis by simp
    qed
  qed
qed


lemma queryBox_packed:
  assumes "packed_tree T n" "n < 2 ^ 32"
  shows "queryBox T (level_starts 0 n) west south east north =
    filter (\<lambda>j. \<not> box_misses (T ! j) west south east north) (rev [0..<n])"
proof -
  have d: "depth n \<le> 16" using depth_bound [OF assms(2)] by simp
  have n: "0 < n" "T \<noteq> []" using assms(1) by (auto simp: packed_tree_def)
  have ne: "level_starts 0 n \<noteq> []" and len: "length (level_starts 0 n) - 1 = depth n" by (simp_all add: level_starts_eq)
  have "queryBox T (level_starts 0 n) west south east north =
      query_loop T (level_starts 0 n) west south east north [(depth n, 0)] []"
    using n(2) ne len by (simp add: queryBox_def)
  also have "\<dots> = frame_hits T n west south east north (depth n, 0)"
    by (subst query_loop_visits [OF assms(1) d level_starts_eq]) (use count_at_depth [OF n(1)] in simp_all)
  also have "\<dots> = filter (\<lambda>j. \<not> box_misses (T ! j) west south east north) (rev [0..<n])"
  proof -
    have "n \<le> 16 ^ depth n" using count_at_covers [of n "depth n"] count_at_depth [OF n(1)] by simp
    then show ?thesis by (simp add: frame_hits_def leaves_under_def)
  qed
  finally show ?thesis .
qed

text \<open>
  C31.  A box query over the tree the builder grows visits exactly the segments whose bounding box meets the
  query box, each once and the last one first, whatever the geometry: no subtree is cut off wrongly, and the stack of
  256 frames is never too small for a graph of fewer than 2^31 segments.
\<close>

theorem query_visits_intersecting:
  assumes "segments \<noteq> []" "length segments < 2 ^ 31"
  shows "queryBox (build_rtree geometry segments) (level_starts 0 (length segments)) west south east north =
    filter (\<lambda>i. \<not> box_misses (leaf_box geometry (segments ! i) i) west south east north) (rev [0..<length segments])"
proof -
  have "length segments < 2 ^ 32" using assms(2) by simp
  show ?thesis
    unfolding queryBox_packed [OF build_rtree_packed [OF assms(1)] \<open>length segments < 2 ^ 32\<close>]
    by (rule filter_cong) (simp_all add: build_rtree_leaf)
qed

theorem query_visits_intersecting_witness:
  "queryBox (build_rtree (g_geometry triangle) (g_segments triangle)) (level_starts 0 (length (g_segments triangle)))
     100 100 200 200 = [1]"
proof -
  have "queryBox (build_rtree (g_geometry triangle) (g_segments triangle)) (level_starts 0 (length (g_segments triangle)))
      100 100 200 200 =
      filter (\<lambda>i. \<not> box_misses (leaf_box (g_geometry triangle) (g_segments triangle ! i) i) 100 100 200 200)
        (rev [0..<length (g_segments triangle)])"
    by (rule query_visits_intersecting) (simp_all add: triangle_def)
  also have "\<dots> = [1]"
    by (simp add: triangle_def triangle_segment_def leaf_box_def box_point_def empty_box_def box_misses_def
        coord_max_def coord_min_def Let_def upt_rec numeral_3_eq_3)
  finally show ?thesis .
qed

end
