(* ===== verification/Csr.thy ===== *)
theory Csr
  imports Prelude
begin

text \<open>
  Compressed rows, as the road graph builds them in several places: count the items of each row, sum
  the counts to offsets, then place every item at its row's cursor.  A row then holds exactly its
  items, in the order they were given.
\<close>

section \<open>The three passes\<close>

definition csr_count :: "nat \<Rightarrow> nat list \<Rightarrow> nat list" where
  "csr_count n keys = fold (\<lambda>k off. off[k + 1 := off ! (k + 1) + 1]) keys (replicate (n + 1) 0)"

text \<open>Each entry from the second on is increased by the one before it.\<close>

definition csr_sums :: "nat list \<Rightarrow> nat list" where
  "csr_sums off = fold (\<lambda>i off. off[i := off ! i + off ! (i - 1)]) [1..<length off] off"

definition csr_offsets :: "nat \<Rightarrow> nat list \<Rightarrow> nat list" where
  "csr_offsets n keys = csr_sums (csr_count n keys)"

definition csr_place :: "nat \<times> 'a \<Rightarrow> 'a list \<times> nat list \<Rightarrow> 'a list \<times> nat list" where
  "csr_place item st = (let (k, v) = item; (arr, cursor) = st in (arr[cursor ! k := v], cursor[k := cursor ! k + 1]))"

definition csr_fill :: "'a \<Rightarrow> nat \<Rightarrow> (nat \<times> 'a) list \<Rightarrow> 'a list" where
  "csr_fill blank n items =
     (let off = csr_offsets n (map fst items) in
      fst (fold csr_place items (replicate (off ! n) blank, butlast off)))"

definition csr_row :: "nat list \<Rightarrow> 'a list \<Rightarrow> nat \<Rightarrow> 'a list" where
  "csr_row off arr k = take (off ! (k + 1) - off ! k) (drop (off ! k) arr)"

section \<open>Offsets\<close>

definition row_items :: "nat \<Rightarrow> (nat \<times> 'a) list \<Rightarrow> 'a list" where
  "row_items k items = map snd (filter (\<lambda>x. fst x = k) items)"

lemma row_items_append [simp]: "row_items k (xs @ ys) = row_items k xs @ row_items k ys"
  by (simp add: row_items_def)

lemma length_csr_count [simp]: "length (csr_count n keys) = n + 1"
proof -
  have "length (fold (\<lambda>k off. off[k + 1 := off ! (k + 1) + 1]) keys off) = length off" for off :: "nat list"
    by (induction keys arbitrary: off) simp_all
  then show ?thesis by (simp add: csr_count_def)
qed

lemma csr_count_nth:
  assumes "\<forall>k\<in>set keys. k < n"
  shows "csr_count n keys ! 0 = 0" "i < n \<Longrightarrow> csr_count n keys ! (i + 1) = count_list keys i"
proof -
  let ?f = "\<lambda>k off. off[k + 1 := off ! (k + 1) + 1]"
  have "fold ?f keys off ! 0 = off ! 0 \<and> (\<forall>i<n. fold ?f keys off ! (i + 1) = off ! (i + 1) + count_list keys i)"
    if "length off = n + 1" for off :: "nat list"
    using assms that
  proof (induction keys arbitrary: off)
    case (Cons k keys)
    then have "length (?f k off) = n + 1" by simp
    note IH = Cons.IH [OF _ this]
    show ?case
    proof (intro conjI allI impI)
      show "fold ?f (k # keys) off ! 0 = off ! 0" using IH Cons.prems by simp
      fix i assume "i < n"
      with IH Cons.prems have "fold ?f (k # keys) off ! (i + 1) = off[k + 1 := off ! (k + 1) + 1] ! (i + 1) + count_list keys i"
        by simp
      also have "\<dots> = off ! (i + 1) + count_list (k # keys) i"
        using \<open>i < n\<close> Cons.prems by (cases "i = k") simp_all
      finally show "fold ?f (k # keys) off ! (i + 1) = off ! (i + 1) + count_list (k # keys) i" .
    qed
  qed simp
  from this [of "replicate (n + 1) 0"]
  show "csr_count n keys ! 0 = 0" "i < n \<Longrightarrow> csr_count n keys ! (i + 1) = count_list keys i"
    unfolding csr_count_def by (simp_all add: nth_Cons')
qed

lemma csr_sums_nth:
  shows "length (csr_sums off) = length off" "i < length off \<Longrightarrow> csr_sums off ! i = sum_list (take (i + 1) off)"
proof -
  let ?f = "\<lambda>i off. off[i := off ! i + off ! (i - 1)]"
  have "length (fold ?f [1..<m] off) = length off \<and>
      (\<forall>i<length off. fold ?f [1..<m] off ! i = (if i < m then sum_list (take (i + 1) off) else off ! i))"
    if "m \<le> length off" for m
    using that
  proof (induction m)
    case 0
    then show ?case by simp
  next
    case (Suc m)
    show ?case
    proof (cases "m = 0")
      case True
      with Suc show ?thesis by (auto simp: take_Suc_conv_app_nth)
    next
      case False
      then have split: "[1..<Suc m] = [1..<m] @ [m]" by simp
      from Suc have IH: "length (fold ?f [1..<m] off) = length off"
        "\<And>i. i < length off \<Longrightarrow> fold ?f [1..<m] off ! i = (if i < m then sum_list (take (i + 1) off) else off ! i)" by simp_all
      have "fold ?f [1..<Suc m] off ! i = (if i < Suc m then sum_list (take (i + 1) off) else off ! i)" if "i < length off" for i
      proof (cases "i = m")
        case True
        let ?g = "fold ?f [1..<m] off"
        have "fold ?f [1..<Suc m] off ! i = ?g ! m + ?g ! (m - 1)"
          using True that IH(1) unfolding split by simp
        also have "\<dots> = off ! m + sum_list (take m off)"
          using IH(2) [of m] IH(2) [of "m - 1"] Suc.prems False by simp
        also have "\<dots> = sum_list (take (Suc m) off)" using Suc.prems by (simp add: take_Suc_conv_app_nth)
        finally show ?thesis using True by simp
      next
        case neq: False
        have "fold ?f [1..<Suc m] off ! i = fold ?f [1..<m] off ! i" using neq unfolding split by simp
        with IH(2) [OF that] neq show ?thesis by (simp only: less_Suc_eq simp_thms)
      qed
      moreover have "length (fold ?f [1..<Suc m] off) = length off" using IH(1) unfolding split by simp
      ultimately show ?thesis by blast
    qed
  qed
  from this [OF order_refl] show "length (csr_sums off) = length off"
    "i < length off \<Longrightarrow> csr_sums off ! i = sum_list (take (i + 1) off)" by (auto simp: csr_sums_def)
qed

lemma length_csr_offsets [simp]: "length (csr_offsets n keys) = n + 1"
  by (simp add: csr_offsets_def csr_sums_nth)

lemma csr_offsets_nth:
  assumes "\<forall>k\<in>set keys. k < n"
  shows "csr_offsets n keys ! 0 = 0"
    and "i < n \<Longrightarrow> csr_offsets n keys ! (i + 1) = csr_offsets n keys ! i + count_list keys i"
proof -
  have nth: "csr_offsets n keys ! i = sum_list (take (i + 1) (csr_count n keys))" if "i \<le> n" for i
    using that by (simp add: csr_offsets_def csr_sums_nth)
  show "csr_offsets n keys ! 0 = 0"
    using csr_count_nth(1) [OF assms] by (simp add: nth [of 0] take_Suc_conv_app_nth)
  assume i: "i < n"
  then show "csr_offsets n keys ! (i + 1) = csr_offsets n keys ! i + count_list keys i"
    using csr_count_nth(2) [OF assms i] nth [of i] nth [of "i + 1"] by (simp add: take_Suc_conv_app_nth)
qed

lemma csr_offsets_mono:
  assumes "\<forall>k\<in>set keys. k < n" "i \<le> j" "j \<le> n"
  shows "csr_offsets n keys ! i \<le> csr_offsets n keys ! j"
  using assms(2,3)
proof (induction j rule: dec_induct)
  case (step j)
  with csr_offsets_nth(2) [OF assms(1), of j] show ?case by simp
qed simp

lemma csr_offsets_total: "\<forall>k\<in>set keys. k < n \<Longrightarrow> csr_offsets n keys ! n = length keys"
proof -
  assume k: "\<forall>k\<in>set keys. k < n"
  have "csr_offsets n keys ! i = length (filter (\<lambda>k. k < i) keys)" if "i \<le> n" for i
    using that
  proof (induction i)
    case 0
    then show ?case using csr_offsets_nth(1) [OF k] by simp
  next
    case (Suc i)
    have "length (filter (\<lambda>k. k < Suc i) keys) = length (filter (\<lambda>k. k < i) keys) + count_list keys i"
      by (induction keys) auto
    with Suc csr_offsets_nth(2) [OF k, of i] show ?case by simp
  qed
  from this [of n] k show ?thesis by simp
qed

section \<open>Rows\<close>

lemma csr_fill_invariant:
  fixes items :: "(nat \<times> 'a) list"
  assumes keys: "\<forall>k\<in>set (map fst items). k < n" and split: "items = past @ future"
  defines "off \<equiv> csr_offsets n (map fst items)"
  shows "let (arr, cursor) = fold csr_place past (replicate (off ! n) blank, butlast off) in
    length arr = off ! n \<and> length cursor = n \<and>
    (\<forall>k<n. cursor ! k = off ! k + length (row_items k past) \<and>
       (\<forall>j<length (row_items k past). arr ! (off ! k + j) = row_items k past ! j))"
  using split
proof (induction past arbitrary: future rule: rev_induct)
  case Nil
  then show ?case by (simp add: off_def row_items_def nth_butlast)
next
  case (snoc item past)
  obtain k v where item: "item = (k, v)" by fastforce
  obtain arr cursor where st: "fold csr_place past (replicate (off ! n) blank, butlast off) = (arr, cursor)" by fastforce
  from snoc.prems have "items = past @ (item # future)" by simp
  from snoc.IH [OF this] st have IH: "length arr = off ! n" "length cursor = n"
    "\<And>k. k < n \<Longrightarrow> cursor ! k = off ! k + length (row_items k past)"
    "\<And>k j. k < n \<Longrightarrow> j < length (row_items k past) \<Longrightarrow> arr ! (off ! k + j) = row_items k past ! j" by simp_all
  have k: "k < n" using keys snoc.prems item by auto
  have count: "count_list (map fst items) m = length (row_items m items)" for m
    by (induction items) (simp_all add: row_items_def)
  have next_off: "off ! (m + 1) = off ! m + length (row_items m items)" if "m < n" for m
    using csr_offsets_nth(2) [OF keys that] by (simp add: off_def count)
  have room: "length (row_items m past) + (if m = k then 1 else 0) \<le> length (row_items m items)" for m
    using snoc.prems by (simp add: item row_items_def)
  have free: "off ! k + length (row_items k past) < off ! n"
  proof -
    have "off ! k + length (row_items k past) < off ! (k + 1)" using next_off [OF k] room [of k] by simp
    also have "\<dots> \<le> off ! n" unfolding off_def by (rule csr_offsets_mono [OF keys]) (use k in simp_all)
    finally show ?thesis .
  qed
  have other: "off ! m + j \<noteq> off ! k + length (row_items k past)" if "m < n" "j < length (row_items m past)" for m j
  proof
    assume eq: "off ! m + j = off ! k + length (row_items k past)"
    consider "m = k" | "m < k" | "k < m" by linarith
    then show False
    proof cases
      case 1
      with eq that show False by simp
    next
      case 2
      then have "off ! (m + 1) \<le> off ! k" unfolding off_def by (intro csr_offsets_mono [OF keys]) (use k in simp_all)
      with next_off [OF that(1)] room [of m] that(2) eq show False by simp
    next
      case 3
      then have "off ! (k + 1) \<le> off ! m" unfolding off_def by (intro csr_offsets_mono [OF keys]) (use that in simp_all)
      with next_off [OF k] room [of k] eq show False by simp
    qed
  qed
  have row: "row_items m (past @ [item]) = row_items m past @ (if m = k then [v] else [])" for m
    by (simp add: item row_items_def)
  have "arr[cursor ! k := v] ! (off ! m + j) = (row_items m past @ (if m = k then [v] else [])) ! j"
    if m: "m < n" and j: "j < length (row_items m past @ (if m = k then [v] else []))" for m j
  proof (cases "j < length (row_items m past)")
    case True
    have "off ! k + length (row_items k past) \<noteq> off ! m + j" using other [OF m True] by simp
    with True IH m k show ?thesis by (simp add: nth_append)
  next
    case False
    with j have "m = k" "j = length (row_items k past)" by (auto split: if_splits)
    with IH k free show ?thesis by (simp add: nth_append)
  qed
  moreover have "fold csr_place (past @ [item]) (replicate (off ! n) blank, butlast off) =
      (arr[cursor ! k := v], cursor[k := cursor ! k + 1])"
    by (simp add: st) (simp add: csr_place_def item)
  moreover have "cursor[k := cursor ! k + 1] ! m = off ! m + length (row_items m past @ (if m = k then [v] else []))" if "m < n" for m
    using IH(2,3) k that by (cases "m = k") simp_all
  ultimately show ?case
    unfolding row using IH(1,2)
    by (simp only: Let_def prod.case length_list_update simp_thms) blast
qed

theorem csr_fill_row:
  assumes "\<forall>k\<in>set (map fst items). k < n" "k < n"
  shows "csr_row (csr_offsets n (map fst items)) (csr_fill blank n items) k = row_items k items"
    and "length (csr_fill blank n items) = length items"
proof -
  let ?off = "csr_offsets n (map fst items)"
  obtain arr cursor where st: "fold csr_place items (replicate (?off ! n) blank, butlast ?off) = (arr, cursor)" by fastforce
  then have arr: "csr_fill blank n items = arr" by (simp add: csr_fill_def Let_def)
  from csr_fill_invariant [OF assms(1), of items "[]" blank] st
  have fill: "length arr = ?off ! n" "\<And>k j. k < n \<Longrightarrow> j < length (row_items k items) \<Longrightarrow> arr ! (?off ! k + j) = row_items k items ! j"
    by simp_all
  have count: "count_list (map fst items) k = length (row_items k items)"
    by (induction items) (simp_all add: row_items_def)
  have width: "?off ! (k + 1) - ?off ! k = length (row_items k items)"
    using csr_offsets_nth(2) [OF assms] by (simp add: count)
  have "?off ! (k + 1) \<le> ?off ! n" by (rule csr_offsets_mono [OF assms(1)]) (use assms(2) in simp_all)
  then have "?off ! k + length (row_items k items) \<le> length arr" using csr_offsets_nth(2) [OF assms] fill(1) by (simp add: count)
  then show "csr_row ?off (csr_fill blank n items) k = row_items k items"
    unfolding csr_row_def arr width by (intro nth_equalityI) (simp_all add: fill(2) assms(2))
  show "length (csr_fill blank n items) = length items"
    using fill(1) csr_offsets_total [OF assms(1)] by (simp add: arr)
qed

end
