(* ===== verification/Hierarchy.thy ===== *)
theory Hierarchy
  imports Prelude
begin

text \<open>
  Why a contraction hierarchy keeps shortest distances.  Nodes are taken out of a weighted graph one by
  one; for each pair of neighbours of the node taken out there is afterwards a way around it that is no
  longer.  Then every walk of the original graph has, at every stage, a counterpart no longer than it that first climbs to
  later and later nodes, then stays among the nodes not yet taken out, and then descends.
\<close>

section \<open>Walks\<close>

text \<open>\<open>A u v c\<close>: there is an arc from \<open>u\<close> to \<open>v\<close> of cost \<open>c\<close>.  A walk stays within the set \<open>S\<close>.\<close>

inductive walk_in :: "(nat \<Rightarrow> nat \<Rightarrow> nat \<Rightarrow> bool) \<Rightarrow> nat set \<Rightarrow> nat \<Rightarrow> nat \<Rightarrow> nat \<Rightarrow> bool"
  for A S where
  walk_refl: "u \<in> S \<Longrightarrow> walk_in A S u u 0"
| walk_step: "u \<in> S \<Longrightarrow> A u v c \<Longrightarrow> walk_in A S v w d \<Longrightarrow> walk_in A S u w (c + d)"

lemma walk_start: "walk_in A S u v c \<Longrightarrow> u \<in> S"
  by (auto elim: walk_in.cases)

lemma walk_end: "walk_in A S u v c \<Longrightarrow> v \<in> S"
  by (induction rule: walk_in.induct) auto

lemma walk_append: "walk_in A S u v c \<Longrightarrow> walk_in A S v w d \<Longrightarrow> walk_in A S u w (c + d)"
  by (induction rule: walk_in.induct) (auto simp: add.assoc intro: walk_step)

lemma walk_snoc: "walk_in A S u v c \<Longrightarrow> A v w d \<Longrightarrow> w \<in> S \<Longrightarrow> walk_in A S u w (c + d)"
  using walk_append [of A S u v c w d] walk_step [of v S A w d w 0] walk_refl [of w S A] walk_end [of A S u v c] by simp

text \<open>A graph with at least the arcs of another, none of them dearer.\<close>

definition dominates :: "(nat \<Rightarrow> nat \<Rightarrow> nat \<Rightarrow> bool) \<Rightarrow> (nat \<Rightarrow> nat \<Rightarrow> nat \<Rightarrow> bool) \<Rightarrow> bool" where
  "dominates B A \<longleftrightarrow> (\<forall>u v c. A u v c \<longrightarrow> (\<exists>c'\<le>c. B u v c'))"

lemma dominates_refl [simp]: "dominates A A"
  by (auto simp: dominates_def)

lemma dominates_trans: "dominates C B \<Longrightarrow> dominates B A \<Longrightarrow> dominates C A"
  unfolding dominates_def by (meson order_trans)

lemma walk_dominates:
  assumes "walk_in A S u v c" "dominates B A"
  shows "\<exists>c'\<le>c. walk_in B S u v c'"
  using assms(1)
proof (induction rule: walk_in.induct)
  case (walk_step u v c w d)
  then obtain d' c' where "d' \<le> d" "walk_in B S v w d'" "c' \<le> c" "B u v c'"
    using assms(2) unfolding dominates_def by meson
  with walk_step.hyps(1) show ?case by (intro exI [of _ "c' + d'"]) (auto intro: walk_in.walk_step)
qed (auto intro: walk_refl)

section \<open>Taking out one node\<close>

text \<open>What taking out \<open>n\<close> has to leave behind: for any two of its remaining neighbours a way around it.\<close>

definition bypassed :: "(nat \<Rightarrow> nat \<Rightarrow> nat \<Rightarrow> bool) \<Rightarrow> (nat \<Rightarrow> nat \<Rightarrow> nat \<Rightarrow> bool) \<Rightarrow> nat set \<Rightarrow> nat \<Rightarrow> bool" where
  "bypassed A B S n \<longleftrightarrow> (\<forall>u v c d. u \<in> S - {n} \<longrightarrow> v \<in> S - {n} \<longrightarrow> u \<noteq> v \<longrightarrow> A u n c \<longrightarrow> A n v d \<longrightarrow>
     (\<exists>e\<le>c + d. walk_in B (S - {n}) u v e))"

lemma walk_bypasses:
  assumes "walk_in A S x y c" "dominates B A" "bypassed A B S n" "x \<in> S - {n}" "y \<noteq> n"
  shows "\<exists>c'\<le>c. walk_in B (S - {n}) x y c'"
proof -
  have "y \<noteq> n \<Longrightarrow> (x \<noteq> n \<longrightarrow> (\<exists>c'\<le>c. walk_in B (S - {n}) x y c')) \<and>
      (x = n \<longrightarrow> (\<forall>u\<in>S - {n}. \<forall>c0. A u n c0 \<longrightarrow> (\<exists>c'\<le>c0 + c. walk_in B (S - {n}) u y c')))"
    using assms(1)
  proof (induction rule: walk_in.induct [consumes 1, case_names refl step])
    case (refl u)
    then show ?case by (auto intro: walk_refl)
  next
    case (step u v c w d)
    note IH = step.IH [OF step.prems]
    have vS: "v \<in> S" using step.hyps(3) by (rule walk_start)
    show ?case
    proof (intro conjI impI ballI allI)
      assume u: "u \<noteq> n"
      show "\<exists>c'\<le>c + d. walk_in B (S - {n}) u w c'"
      proof (cases "v = n")
        case True
        with IH u step.hyps show ?thesis by auto
      next
        case False
        with IH obtain d' where d: "d' \<le> d" "walk_in B (S - {n}) v w d'" by blast
        obtain c' where c: "c' \<le> c" "B u v c'" using assms(2) step.hyps(2) unfolding dominates_def by blast
        with d u step.hyps(1) show ?thesis
          by (intro exI [of _ "c' + d'"]) (auto intro: walk_step)
      qed
    next
      fix p c0 assume u: "u = n" and p: "p \<in> S - {n}" "A p n c0"
      show "\<exists>c'\<le>c0 + (c + d). walk_in B (S - {n}) p w c'"
      proof (cases "v = n")
        case True
        with IH p obtain e where "e \<le> c0 + d" "walk_in B (S - {n}) p w e" by blast
        then show ?thesis by (intro exI [of _ e]) auto
      next
        case False
        with IH obtain d' where d: "d' \<le> d" "walk_in B (S - {n}) v w d'" by blast
        show ?thesis
        proof (cases "p = v")
          case True
          with d show ?thesis by (intro exI [of _ d']) auto
        next
          case neq: False
          have "A n v c" using step.hyps(2) u by simp
          with assms(3) p vS False neq obtain e where e: "e \<le> c0 + c" "walk_in B (S - {n}) p v e"
            unfolding bypassed_def by blast
          from walk_append [OF e(2) d(2)] e(1) d(1) show ?thesis by (intro exI [of _ "e + d'"]) auto
        qed
      qed
    qed
  qed
  with assms(4,5) show ?thesis by blast
qed

text \<open>A walk out of, or into, the node taken out has its last, or first, arc at a node that remains.\<close>

lemma walk_leaves:
  assumes "walk_in A S n y c" "y \<noteq> n"
  shows "\<exists>v a d. A n v a \<and> v \<in> S - {n} \<and> walk_in A S v y d \<and> a + d \<le> c"
  using assms
proof (induction "n" y c rule: walk_in.induct)
  case (walk_step u v c w d)
  show ?case
  proof (cases "v = u")
    case True
    with walk_step.IH walk_step.prems obtain x a e where "A u x a" "x \<in> S - {u}" "walk_in A S x w e" "a + e \<le> d" by blast
    then show ?thesis by (intro exI [of _ x] exI [of _ a] exI [of _ e]) auto
  next
    case False
    with walk_step.hyps walk_start [OF walk_step.hyps(3)] show ?thesis by blast
  qed
qed simp

lemma walk_enters:
  assumes "walk_in A S x n c" "x \<noteq> n"
  shows "\<exists>u a d. A u n a \<and> u \<in> S - {n} \<and> walk_in A S x u d \<and> d + a \<le> c"
  using assms
proof (induction x "n" c rule: walk_in.induct)
  case (walk_step u v c w d)
  show ?case
  proof (cases "v = w")
    case True
    with walk_step show ?thesis by (intro exI [of _ u] exI [of _ c] exI [of _ 0]) (auto intro: walk_refl)
  next
    case False
    with walk_step.IH obtain p a e where p: "A p w a" "p \<in> S - {w}" "walk_in A S v p e" "e + a \<le> d" by blast
    have "walk_in A S u p (c + e)" using walk_step.hyps(1,2) p(3) by (rule walk_in.walk_step)
    with p show ?thesis by (intro exI [of _ p] exI [of _ a] exI [of _ "c + e"]) auto
  qed
qed simp

section \<open>Climbing and descending\<close>

text \<open>\<open>S\<close> are the nodes not yet taken out; the others have the ranks in which they were.\<close>

inductive climb :: "(nat \<Rightarrow> nat \<Rightarrow> nat \<Rightarrow> bool) \<Rightarrow> nat set \<Rightarrow> (nat \<Rightarrow> nat) \<Rightarrow> nat \<Rightarrow> nat \<Rightarrow> nat \<Rightarrow> bool"
  for A S rank where
  climb_refl: "climb A S rank u u 0"
| climb_step: "climb A S rank u v c \<Longrightarrow> v \<notin> S \<Longrightarrow> A v w d \<Longrightarrow> w \<in> S \<or> rank v < rank w \<Longrightarrow> climb A S rank u w (c + d)"

inductive descend :: "(nat \<Rightarrow> nat \<Rightarrow> nat \<Rightarrow> bool) \<Rightarrow> nat set \<Rightarrow> (nat \<Rightarrow> nat) \<Rightarrow> nat \<Rightarrow> nat \<Rightarrow> nat \<Rightarrow> bool"
  for A S rank where
  descend_refl: "descend A S rank u u 0"
| descend_step: "descend A S rank v w d \<Longrightarrow> v \<notin> S \<Longrightarrow> A u v c \<Longrightarrow> u \<in> S \<or> rank v < rank u \<Longrightarrow> descend A S rank u w (c + d)"


lemma climb_next:
  assumes "climb A S rank u v c" "dominates B A" "n \<in> S" "\<forall>v. v \<notin> S \<longrightarrow> rank v < k"
  shows "\<exists>c'\<le>c. climb B (S - {n}) (rank(n := k)) u v c'"
  using assms(1)
proof (induction rule: climb.induct)
  case (climb_step u v c w d)
  then obtain c' d' where "c' \<le> c" "climb B (S - {n}) (rank(n := k)) u v c'" "d' \<le> d" "B v w d'"
    using assms(2) unfolding dominates_def by meson
  moreover have "climb B (S - {n}) (rank(n := k)) u w (c' + d')"
  proof (rule climb.climb_step)
    show "climb B (S - {n}) (rank(n := k)) u v c'" "B v w d'" by fact+
    show "v \<notin> S - {n}" using climb_step.hyps(2) by simp
    show "w \<in> S - {n} \<or> (rank(n := k)) v < (rank(n := k)) w"
      using climb_step.hyps(2,4) assms(3,4) by auto
  qed
  ultimately show ?case by (intro exI [of _ "c' + d'"]) (simp del: fun_upd_apply)
qed (auto intro: climb_refl)

lemma descend_next:
  assumes "descend A S rank u v c" "dominates B A" "n \<in> S" "\<forall>v. v \<notin> S \<longrightarrow> rank v < k"
  shows "\<exists>c'\<le>c. descend B (S - {n}) (rank(n := k)) u v c'"
  using assms(1)
proof (induction rule: descend.induct)
  case (descend_step v w d u c)
  then obtain c' d' where "d' \<le> d" "descend B (S - {n}) (rank(n := k)) v w d'" "c' \<le> c" "B u v c'"
    using assms(2) unfolding dominates_def by meson
  moreover have "descend B (S - {n}) (rank(n := k)) u w (c' + d')"
  proof (rule descend.descend_step)
    show "descend B (S - {n}) (rank(n := k)) v w d'" "B u v c'" by fact+
    show "v \<notin> S - {n}" using descend_step.hyps(2) by simp
    show "u \<in> S - {n} \<or> (rank(n := k)) v < (rank(n := k)) u"
      using descend_step.hyps(2,4) assms(3,4) by auto
  qed
  ultimately show ?case by (intro exI [of _ "c' + d'"]) (simp del: fun_upd_apply)
qed (auto intro: descend_refl)

text \<open>The counterpart of a walk: climb, cross what is left, descend.\<close>

definition arched :: "(nat \<Rightarrow> nat \<Rightarrow> nat \<Rightarrow> bool) \<Rightarrow> nat set \<Rightarrow> (nat \<Rightarrow> nat) \<Rightarrow> nat \<Rightarrow> nat \<Rightarrow> nat \<Rightarrow> bool" where
  "arched A S rank s t c \<longleftrightarrow> (\<exists>x y a b d. climb A S rank s x a \<and> (walk_in A S x y b \<or> x = y \<and> b = 0) \<and>
     descend A S rank y t d \<and> a + b + d \<le> c)"

theorem arched_next:
  assumes "arched A S rank s t c" "dominates B A" "bypassed A B S n" "n \<in> S" "\<forall>v. v \<notin> S \<longrightarrow> rank v < k"
  shows "arched B (S - {n}) (rank(n := k)) s t c"
proof -
  from assms(1) obtain x y a b d where up: "climb A S rank s x a" and mid: "walk_in A S x y b \<or> x = y \<and> b = 0"
    and down: "descend A S rank y t d" and le: "a + b + d \<le> c" unfolding arched_def by blast
  obtain a' where a: "a' \<le> a" "climb B (S - {n}) (rank(n := k)) s x a'" using climb_next [OF up assms(2,4,5)] by blast
  obtain d' where d: "d' \<le> d" "descend B (S - {n}) (rank(n := k)) y t d'" using descend_next [OF down assms(2,4,5)] by blast
  have arc: "A u v e \<Longrightarrow> \<exists>e'\<le>e. B u v e'" for u v e using assms(2) by (auto simp: dominates_def)
  have climb_out: "\<exists>z a2 e. z \<in> S - {n} \<and> climb B (S - {n}) (rank(n := k)) s z a2 \<and> walk_in A S z y e \<and> a2 + e \<le> a + b"
    if w: "walk_in A S x y b" and "x = n" "y \<noteq> n"
  proof -
    from walk_leaves w that obtain v f e where v: "A n v f" "v \<in> S - {n}" "walk_in A S v y e" "f + e \<le> b" by blast
    from arc [OF v(1)] obtain f' where f: "f' \<le> f" "B n v f'" by blast
    have "climb B (S - {n}) (rank(n := k)) s v (a' + f')"
      using a(2) f(2) v(2) \<open>x = n\<close> by (auto intro: climb_step)
    with v a(1) f(1) show ?thesis by (intro exI [of _ v] exI [of _ "a' + f'"] exI [of _ e]) auto
  qed
  have descend_in: "\<exists>z d2 e. z \<in> S - {n} \<and> descend B (S - {n}) (rank(n := k)) z t d2 \<and> walk_in A S x z e \<and> e + d2 \<le> b + d"
    if w: "walk_in A S x y b" and "y = n" "x \<noteq> n"
  proof -
    from walk_enters w that obtain v f e where v: "A v n f" "v \<in> S - {n}" "walk_in A S x v e" "e + f \<le> b" by blast
    from arc [OF v(1)] obtain f' where f: "f' \<le> f" "B v n f'" by blast
    have "descend B (S - {n}) (rank(n := k)) v t (f' + d')"
      using d(2) f(2) v(2) \<open>y = n\<close> by (auto intro: descend_step)
    with v d(1) f(1) show ?thesis by (intro exI [of _ v] exI [of _ "f' + d'"] exI [of _ e]) auto
  qed
  consider "x = y" | "walk_in A S x y b" "x = n" "y \<noteq> n" | "walk_in A S x y b" "y = n" "x \<noteq> n"
    | "walk_in A S x y b" "x \<noteq> n" "y \<noteq> n" using mid by blast
  then show ?thesis
  proof cases
    case 1
    with a d le show ?thesis unfolding arched_def
      by (intro exI [of _ x] exI [of _ x] exI [of _ a'] exI [of _ 0] exI [of _ d']) auto
  next
    case 2
    from climb_out [OF this] obtain z a2 e where z: "z \<in> S - {n}" "climb B (S - {n}) (rank(n := k)) s z a2"
      "walk_in A S z y e" "a2 + e \<le> a + b" by blast
    from walk_bypasses [OF z(3) assms(2,3) z(1) 2(3)] obtain e' where "e' \<le> e" "walk_in B (S - {n}) z y e'" by blast
    with z d le show ?thesis unfolding arched_def
      by (intro exI [of _ z] exI [of _ y] exI [of _ a2] exI [of _ e'] exI [of _ d']) auto
  next
    case 3
    from descend_in [OF this] obtain z d2 e where z: "z \<in> S - {n}" "descend B (S - {n}) (rank(n := k)) z t d2"
      "walk_in A S x z e" "e + d2 \<le> b + d" by blast
    have "x \<in> S - {n}" using walk_start [OF z(3)] 3(3) by simp
    from walk_bypasses [OF z(3) assms(2,3) this] z(1) obtain e' where "e' \<le> e" "walk_in B (S - {n}) x z e'" by blast
    with z a le show ?thesis unfolding arched_def
      by (intro exI [of _ x] exI [of _ z] exI [of _ a'] exI [of _ e'] exI [of _ d2]) auto
  next
    case 4
    have "x \<in> S - {n}" using walk_start [OF 4(1)] 4(2) by simp
    from walk_bypasses [OF 4(1) assms(2,3) this 4(3)] obtain e' where "e' \<le> b" "walk_in B (S - {n}) x y e'" by blast
    with a d le show ?thesis unfolding arched_def
      by (intro exI [of _ x] exI [of _ y] exI [of _ a'] exI [of _ e'] exI [of _ d']) auto
  qed
qed

lemma arched_start: "walk_in A S s t c \<Longrightarrow> arched A S rank s t c"
  unfolding arched_def
  by (intro exI [of _ s] exI [of _ t] exI [of _ 0] exI [of _ c] exI [of _ 0]) (auto intro: climb_refl descend_refl)

end
