(* ===== verification/Contraction.thy ===== *)
theory Contraction
  imports RoadRoute Csr Hierarchy
begin

text \<open>
  libs/road_graph/src/contraction.cpp: the contraction hierarchy over the directed edges of a road graph.
  The expanded graph (one node per directed edge, one arc per legal turn), the bounded search for a
  witness, the simulation of one contraction, the loop with its lazily updated priorities, and the
  two search graphs written to the overlay.

  The array-linked lists of the shortcuts at a node are lists, their heads first.  Costs are natural
  numbers: sums of the code are of 32 bits and wrap only past thirteen years of driving.  The
  arrays indexed by node are functions.  What the heap does with equal entries is left to the
  parameters.
\<close>

section \<open>The working graph\<close>

definition kNoMiddle :: nat where
  "kNoMiddle = 0xFFFFFFFF"

record arc =
  ar_target :: nat
  ar_cost :: nat
  ar_middle :: nat

record working =
  outOffsets :: "nat list"
  outArcs :: "arc list"
  inOffsets :: "nat list"
  inArcs :: "arc list"
  extraOut :: "nat \<Rightarrow> arc list"
  extraIn :: "nat \<Rightarrow> arc list"
  contracted :: "nat \<Rightarrow> bool"
  rank :: "nat \<Rightarrow> nat"

definition forEachOut :: "working \<Rightarrow> nat \<Rightarrow> arc list" where
  "forEachOut w node = csr_row (outOffsets w) (outArcs w) node @ extraOut w node"

definition forEachIn :: "working \<Rightarrow> nat \<Rightarrow> arc list" where
  "forEachIn w node = csr_row (inOffsets w) (inArcs w) node @ extraIn w node"

text \<open>The first shortcut to the same target gives way to a cheaper one; else the new one goes in front.\<close>

fun lower_arc :: "arc \<Rightarrow> arc list \<Rightarrow> arc list option" where
  "lower_arc a [] = None"
| "lower_arc a (b # bs) =
     (if ar_target b = ar_target a then Some ((if ar_cost a < ar_cost b then a else b) # bs)
      else map_option ((#) b) (lower_arc a bs))"

definition add_arc :: "arc \<Rightarrow> arc list \<Rightarrow> arc list" where
  "add_arc a bs = (case lower_arc a bs of None \<Rightarrow> a # bs | Some bs' \<Rightarrow> bs')"

definition addOut :: "nat \<Rightarrow> arc \<Rightarrow> working \<Rightarrow> working" where
  "addOut node a w = w\<lparr>extraOut := (extraOut w)(node := add_arc a (extraOut w node))\<rparr>"

definition addIn :: "nat \<Rightarrow> arc \<Rightarrow> working \<Rightarrow> working" where
  "addIn node a w = w\<lparr>extraIn := (extraIn w)(node := add_arc a (extraIn w node))\<rparr>"

definition transitionAllowed :: "graph \<Rightarrow> edge_record \<Rightarrow> edge_record \<Rightarrow> nat \<Rightarrow> bool" where
  "transitionAllowed g from nxt outDegree =
     (if ed_segment nxt = ed_segment from \<and> outDegree > 1 then False
      else turnAllowed g (ed_segment from) (ed_target from) (ed_segment nxt))"

definition transitions :: "graph \<Rightarrow> (nat \<times> nat) list" where
  "transitions g = concat (map (\<lambda>i. let outgoing = edgesFrom g (ed_target (g_edges g ! i)) in
       map (\<lambda>j. (i, j)) (filter (\<lambda>j. transitionAllowed g (g_edges g ! i) (g_edges g ! j) (length outgoing)) outgoing))
     [0..<length (g_edges g)])"

definition expanded :: "graph \<Rightarrow> working" where
  "expanded g =
     (let n = length (g_edges g); ts = transitions g; cost = (\<lambda>j. costDs (g_edges g ! j));
          blank = \<lparr>ar_target = 0, ar_cost = 0, ar_middle = 0\<rparr> in
      \<lparr>outOffsets = csr_offsets n (map fst ts),
       outArcs = csr_fill blank n (map (\<lambda>(i, j). (i, \<lparr>ar_target = j, ar_cost = cost j, ar_middle = kNoMiddle\<rparr>)) ts),
       inOffsets = csr_offsets n (map snd ts),
       inArcs = csr_fill blank n (map (\<lambda>(i, j). (j, \<lparr>ar_target = i, ar_cost = cost j, ar_middle = kNoMiddle\<rparr>)) ts),
       extraOut = (\<lambda>i. []), extraIn = (\<lambda>i. []), contracted = (\<lambda>i. False), rank = (\<lambda>i. 0)\<rparr>)"

section \<open>Witness searches\<close>

record contraction_options =
  witnessSettleLimit :: nat
  witnessHopLimit :: nat
  stopAtFraction :: rat

type_synonym witness_queue = "(nat \<times> nat \<times> nat) list"

text \<open>\<open>distance\<close> is \<open>None\<close> where the array holds infinity; an entry is cost, hops and node.\<close>

definition witness_arc ::
  "working \<Rightarrow> nat \<Rightarrow> nat \<Rightarrow> nat \<Rightarrow> nat \<Rightarrow> arc \<Rightarrow> witness_queue \<times> (nat \<Rightarrow> nat option) \<Rightarrow> witness_queue \<times> (nat \<Rightarrow> nat option)" where
  "witness_arc w via limit cost hops a st =
     (let (queue, distance) = st in
      if contracted w (ar_target a) \<or> ar_target a = via then st
      else let candidate = cost + ar_cost a in
        if candidate > limit \<or> (case distance (ar_target a) of None \<Rightarrow> False | Some d \<Rightarrow> candidate \<ge> d) then st
        else (queue @ [(candidate, hops + 1, ar_target a)], distance(ar_target a \<mapsto> candidate)))"

function witness_loop ::
  "working \<Rightarrow> (witness_queue \<Rightarrow> nat) \<Rightarrow> contraction_options \<Rightarrow> nat \<Rightarrow> nat \<Rightarrow> nat \<Rightarrow> witness_queue \<Rightarrow>
   (nat \<Rightarrow> nat option) \<Rightarrow> nat \<Rightarrow> bool" where
  "witness_loop w pick options via target limit queue distance settled =
     (if queue = [] then False
      else let entry = fst (heap_pop pick queue); rest = snd (heap_pop pick queue);
               cost = fst entry; hops = fst (snd entry); node = snd (snd entry) in
        if (case distance node of None \<Rightarrow> False | Some d \<Rightarrow> cost > d)
          then witness_loop w pick options via target limit rest distance settled
        else if node = target then cost \<le> limit
        else if cost > limit then witness_loop w pick options via target limit rest distance settled
        else if settled + 1 > witnessSettleLimit options \<or> hops \<ge> witnessHopLimit options
          then witness_loop w pick options via target limit rest distance (settled + 1)
        else let st = fold (witness_arc w via limit cost hops) (forEachOut w node) (rest, distance) in
          witness_loop w pick options via target limit (fst st) (snd st) (settled + 1))"
  by auto
termination
  by (relation "inv_image (less_than <*lex*> less_than)
      (\<lambda>(w, pick, options, via, target, limit, queue, distance, settled). (witnessSettleLimit options - settled, length queue))")
    (auto simp: heap_pop_shorter diff_less_mono2)

declare witness_loop.simps [simp del]

definition hasWitness ::
  "working \<Rightarrow> (witness_queue \<Rightarrow> nat) \<Rightarrow> contraction_options \<Rightarrow> nat \<Rightarrow> nat \<Rightarrow> nat \<Rightarrow> nat \<Rightarrow> bool" where
  "hasWitness w pick options source via target limit =
     witness_loop w pick options via target limit [(0, 0, source)] [source \<mapsto> 0] 0"

section \<open>Contracting\<close>

definition sim_shortcuts :: "working \<Rightarrow> (witness_queue \<Rightarrow> nat) \<Rightarrow> contraction_options \<Rightarrow> nat \<Rightarrow> (nat \<times> arc) list" where
  "sim_shortcuts w pick options node =
     (let ins = filter (\<lambda>a. \<not> contracted w (ar_target a)) (forEachIn w node);
          outs = filter (\<lambda>a. \<not> contracted w (ar_target a)) (forEachOut w node) in
      concat (map (\<lambda>i. concat (map (\<lambda>out.
        if ar_target i = ar_target out then []
        else let limit = ar_cost i + ar_cost out in
          if hasWitness w pick options (ar_target i) node (ar_target out) limit then []
          else [(ar_target i, \<lparr>ar_target = ar_target out, ar_cost = limit, ar_middle = node\<rparr>)]) outs)) ins))"

definition sim_priority ::
  "working \<Rightarrow> (witness_queue \<Rightarrow> nat) \<Rightarrow> contraction_options \<Rightarrow> (nat \<Rightarrow> nat) \<Rightarrow> nat \<Rightarrow> int" where
  "sim_priority w pick options contractedNeighbours node =
     int (length (sim_shortcuts w pick options node)) -
     int (length (filter (\<lambda>a. \<not> contracted w (ar_target a)) (forEachIn w node)) +
          length (filter (\<lambda>a. \<not> contracted w (ar_target a)) (forEachOut w node))) +
     2 * int (contractedNeighbours node)"

definition add_shortcut :: "nat \<times> arc \<Rightarrow> working \<Rightarrow> working" where
  "add_shortcut s w = (let (source, a) = s in
     addIn (ar_target a) \<lparr>ar_target = source, ar_cost = ar_cost a, ar_middle = ar_middle a\<rparr> (addOut source a w))"

definition count_neighbours :: "arc list \<Rightarrow> (nat \<Rightarrow> nat) \<Rightarrow> (nat \<Rightarrow> nat)" where
  "count_neighbours arcs cn = fold (\<lambda>a cn. cn(ar_target a := cn (ar_target a) + 1)) arcs cn"

record contraction =
  cn_working :: working
  cn_queue :: "(int \<times> nat) list"
  cn_neighbours :: "nat \<Rightarrow> nat"
  cn_rank :: nat

definition contract_node ::
  "(witness_queue \<Rightarrow> nat) \<Rightarrow> contraction_options \<Rightarrow> nat \<Rightarrow> contraction \<Rightarrow> contraction" where
  "contract_node pick options node st =
     (let w = cn_working st; shortcuts = sim_shortcuts w pick options node;
          w = w\<lparr>contracted := (contracted w)(node := True), rank := (rank w)(node := cn_rank st)\<rparr>;
          w = fold add_shortcut shortcuts w in
      st\<lparr>cn_working := w, cn_rank := cn_rank st + 1,
         cn_neighbours := count_neighbours (forEachIn w node) (count_neighbours (forEachOut w node) (cn_neighbours st))\<rparr>)"

text \<open>The queue breaks ties by index, so its order is total; the position of its top.\<close>

definition queued_before :: "int \<times> nat \<Rightarrow> int \<times> nat \<Rightarrow> bool" where
  "queued_before a b \<longleftrightarrow> fst a < fst b \<or> fst a = fst b \<and> snd a \<le> snd b"

fun queue_top :: "(int \<times> nat) list \<Rightarrow> nat" where
  "queue_top [] = 0"
| "queue_top [x] = 0"
| "queue_top (x # y # xs) = (let i = queue_top (y # xs) in if queued_before x ((y # xs) ! i) then 0 else Suc i)"

definition contract_step :: "(witness_queue \<Rightarrow> nat) \<Rightarrow> contraction_options \<Rightarrow> contraction \<Rightarrow> contraction" where
  "contract_step pick options st =
     (let (priority, node) = cn_queue st ! queue_top (cn_queue st);
          rest = remove_at (queue_top (cn_queue st)) (cn_queue st) in
      if contracted (cn_working st) node then st\<lparr>cn_queue := rest\<rparr>
      else let now = sim_priority (cn_working st) pick options (cn_neighbours st) node in
        if rest \<noteq> [] \<and> now > fst (rest ! queue_top rest) then st\<lparr>cn_queue := rest @ [(now, node)]\<rparr>
        else contract_node pick options node (st\<lparr>cn_queue := rest\<rparr>))"

definition contract_limit :: "contraction_options \<Rightarrow> nat \<Rightarrow> nat" where
  "contract_limit options nodeCount =
     nat \<lfloor>to_double (of_nat nodeCount * max 0 (min 1 (stopAtFraction options)))\<rfloor>"

definition contract_running :: "nat \<Rightarrow> contraction \<Rightarrow> bool" where
  "contract_running contractLimit st \<longleftrightarrow> cn_queue st \<noteq> [] \<and> cn_rank st < contractLimit"

definition contract_start :: "graph \<Rightarrow> contraction" where
  "contract_start g =
     (let w = expanded g;
          initial = (\<lambda>node. let inDegree = int (inOffsets w ! (node + 1) - inOffsets w ! node);
                               outDegree = int (outOffsets w ! (node + 1) - outOffsets w ! node) in
                     (inDegree * outDegree - inDegree - outDegree, node)) in
      \<lparr>cn_working = w, cn_queue = map initial [0..<length (g_edges g)], cn_neighbours = (\<lambda>i. 0), cn_rank = 0\<rparr>)"

section \<open>The overlay\<close>

record overlay =
  ov_ranks :: "nat list"
  ov_upOffsets :: "nat list"
  ov_upArcs :: "arc list"
  ov_downOffsets :: "nat list"
  ov_downArcs :: "arc list"
  ov_incomingOffsets :: "nat list"
  ov_incomingEdges :: "nat list"

definition rank_core :: "nat \<Rightarrow> working \<Rightarrow> working" where
  "rank_core n w = w\<lparr>rank := (\<lambda>i. if contracted w i then rank w i else n)\<rparr>"

definition upward :: "working \<Rightarrow> nat \<Rightarrow> arc list" where
  "upward w node = filter (\<lambda>a. rank w (ar_target a) \<ge> rank w node) (forEachOut w node)"

definition downward :: "working \<Rightarrow> nat \<Rightarrow> arc list" where
  "downward w node = filter (\<lambda>a. rank w (ar_target a) \<ge> rank w node) (forEachIn w node)"

definition rows :: "nat \<Rightarrow> (nat \<Rightarrow> 'a list) \<Rightarrow> (nat \<times> 'a) list" where
  "rows n f = concat (map (\<lambda>k. map (\<lambda>x. (k, x)) (f k)) [0..<n])"

definition overlay_of :: "graph \<Rightarrow> working \<Rightarrow> overlay" where
  "overlay_of g w =
     (let n = length (g_edges g); blank = \<lparr>ar_target = 0, ar_cost = 0, ar_middle = 0\<rparr>;
          targets = map (\<lambda>i. (ed_target (g_edges g ! i), i)) [0..<n] in
      \<lparr>ov_ranks = map (rank w) [0..<n],
       ov_upOffsets = csr_offsets n (map fst (rows n (upward w))), ov_upArcs = csr_fill blank n (rows n (upward w)),
       ov_downOffsets = csr_offsets n (map fst (rows n (downward w))), ov_downArcs = csr_fill blank n (rows n (downward w)),
       ov_incomingOffsets = csr_offsets (length (g_nodes g)) (map fst targets),
       ov_incomingEdges = csr_fill 0 (length (g_nodes g)) targets\<rparr>)"

text \<open>What \<open>buildOverlay\<close> writes; the outer \<open>None\<close> would be a contraction that does not end.\<close>

definition buildOverlay ::
  "graph \<Rightarrow> (witness_queue \<Rightarrow> nat) \<Rightarrow> contraction_options \<Rightarrow> (road_error + overlay) option" where
  "buildOverlay g pick options =
     (if g_edges g = [] then Some (Inl InvalidGraphArgument)
      else map_option (\<lambda>st. Inr (overlay_of g (rank_core (length (g_edges g)) (cn_working st))))
        (while_option (contract_running (contract_limit options (length (g_edges g))))
          (contract_step pick options) (contract_start g)))"


section \<open>Adding an arc\<close>

definition arc_of :: "nat \<Rightarrow> nat \<Rightarrow> nat \<Rightarrow> arc" where
  "arc_of v c m = \<lparr>ar_target = v, ar_cost = c, ar_middle = m\<rparr>"

lemma arc_of_fields [simp]: "ar_target (arc_of v c m) = v" "ar_cost (arc_of v c m) = c" "ar_middle (arc_of v c m) = m"
  by (simp_all add: arc_of_def)

lemma arc_of_eq: "a = arc_of (ar_target a) (ar_cost a) (ar_middle a)"
  by (simp add: arc_of_def)

lemma arc_of_self [simp]: "arc_of (ar_target a) (ar_cost a) (ar_middle a) = a"
  by (simp add: arc_of_def)

definition find_arc :: "nat \<Rightarrow> arc list \<Rightarrow> arc option" where
  "find_arc t bs = find (\<lambda>b. ar_target b = t) bs"

lemma lower_arc_None: "lower_arc a bs = None \<longleftrightarrow> (\<forall>b\<in>set bs. ar_target b \<noteq> ar_target a)"
  by (induction bs) auto

lemma lower_arc_targets: "lower_arc a bs = Some bs' \<Longrightarrow> map ar_target bs' = map ar_target bs"
  by (induction bs arbitrary: bs') (auto split: if_splits)

lemma lower_arc_find: "lower_arc a bs = Some bs' \<Longrightarrow> find_arc t bs' =
    (if t = ar_target a then map_option (\<lambda>b. if ar_cost a < ar_cost b then a else b) (find_arc t bs) else find_arc t bs)"
proof (induction bs arbitrary: bs')
  case (Cons b bs)
  show ?case
  proof (cases "ar_target b = ar_target a")
    case True
    with Cons.prems show ?thesis by (auto simp: find_arc_def)
  next
    case False
    with Cons.prems obtain cs where "lower_arc a bs = Some cs" "bs' = b # cs" by auto
    with Cons.IH False show ?thesis by (auto simp: find_arc_def)
  qed
qed simp

lemma find_arc_None: "find_arc t bs = None \<longleftrightarrow> (\<forall>b\<in>set bs. ar_target b \<noteq> t)"
  by (auto simp: find_arc_def find_None_iff)

lemma add_arc_find: "find_arc t (add_arc a bs) = (if t = ar_target a
    then Some (case find_arc t bs of None \<Rightarrow> a | Some b \<Rightarrow> if ar_cost a < ar_cost b then a else b) else find_arc t bs)"
proof (cases "lower_arc a bs")
  case None
  then have "find_arc (ar_target a) bs = None" by (simp add: find_arc_None lower_arc_None)
  with None show ?thesis by (auto simp: add_arc_def find_arc_def)
next
  case (Some bs')
  then have "lower_arc a bs \<noteq> None" by simp
  then obtain b where "find_arc (ar_target a) bs = Some b"
    using find_arc_None [of "ar_target a" bs] by (auto simp: lower_arc_None)
  with Some lower_arc_find [OF Some] show ?thesis by (auto simp: add_arc_def)
qed

lemma add_arc_distinct: "distinct (map ar_target bs) \<Longrightarrow> distinct (map ar_target (add_arc a bs))"
proof (cases "lower_arc a bs")
  case None
  moreover from None have "ar_target a \<notin> ar_target ` set bs" by (auto simp: lower_arc_None)
  moreover assume "distinct (map ar_target bs)"
  ultimately show ?thesis by (simp add: add_arc_def)
next
  case (Some bs')
  moreover assume "distinct (map ar_target bs)"
  ultimately show ?thesis by (simp add: add_arc_def lower_arc_targets)
qed

lemma find_arc_Some: "find_arc t bs = Some b \<Longrightarrow> b \<in> set bs \<and> ar_target b = t"
  by (induction bs) (auto simp: find_arc_def split: if_splits)

lemma find_arc_set: "distinct (map ar_target bs) \<Longrightarrow> a \<in> set bs \<longleftrightarrow> find_arc (ar_target a) bs = Some a"
proof (induction bs)
  case (Cons b bs)
  then have IH: "a \<in> set bs \<longleftrightarrow> find_arc (ar_target a) bs = Some a"
    and out: "ar_target b \<notin> ar_target ` set bs" by simp_all
  show ?case
  proof (cases "ar_target a = ar_target b")
    case True
    with out have "a \<notin> set bs" by (metis image_eqI)
    with True show ?thesis by (auto simp: find_arc_def)
  next
    case False
    with IH show ?thesis by (auto simp: find_arc_def)
  qed
qed (simp add: find_arc_def)

lemma find_arc_entry: "find_arc v bs = Some (arc_of v c m) \<longleftrightarrow>
    map_option (\<lambda>a. (ar_cost a, ar_middle a)) (find_arc v bs) = Some (c, m)"
proof (cases "find_arc v bs")
  case (Some a)
  from find_arc_Some [OF this] have "ar_target a = v" by simp
  then have "a = arc_of v c m \<longleftrightarrow> ar_cost a = c \<and> ar_middle a = m" by (cases a) (auto simp: arc_of_def)
  with Some show ?thesis by simp
qed simp

section \<open>The working graph as arcs\<close>

definition working_ok :: "nat \<Rightarrow> working \<Rightarrow> bool" where
  "working_ok n w \<longleftrightarrow>
     (\<forall>u<n. (\<forall>a\<in>set (forEachOut w u). ar_target a < n) \<and> (\<forall>a\<in>set (forEachIn w u). ar_target a < n)) \<and>
     (\<forall>u<n. \<forall>v<n. \<forall>c m. arc_of v c m \<in> set (csr_row (outOffsets w) (outArcs w) u) \<longleftrightarrow>
        arc_of u c m \<in> set (csr_row (inOffsets w) (inArcs w) v)) \<and>
     (\<forall>u v. map_option (\<lambda>a. (ar_cost a, ar_middle a)) (find_arc v (extraOut w u)) =
        map_option (\<lambda>a. (ar_cost a, ar_middle a)) (find_arc u (extraIn w v))) \<and>
     (\<forall>u. distinct (map ar_target (extraOut w u)) \<and> distinct (map ar_target (extraIn w u)))"

lemma working_sym:
  assumes "working_ok n w" "u < n" "v < n"
  shows "arc_of v c m \<in> set (forEachOut w u) \<longleftrightarrow> arc_of u c m \<in> set (forEachIn w v)"
proof -
  have "arc_of v c m \<in> set (extraOut w u) \<longleftrightarrow> find_arc v (extraOut w u) = Some (arc_of v c m)"
    using assms(1) by (subst find_arc_set) (simp_all add: working_ok_def)
  moreover have "arc_of u c m \<in> set (extraIn w v) \<longleftrightarrow> find_arc u (extraIn w v) = Some (arc_of u c m)"
    using assms(1) by (subst find_arc_set) (simp_all add: working_ok_def)
  moreover have "find_arc v (extraOut w u) = Some (arc_of v c m) \<longleftrightarrow>
      map_option (\<lambda>a. (ar_cost a, ar_middle a)) (find_arc v (extraOut w u)) = Some (c, m)"
    by (rule find_arc_entry)
  moreover have "find_arc u (extraIn w v) = Some (arc_of u c m) \<longleftrightarrow>
      map_option (\<lambda>a. (ar_cost a, ar_middle a)) (find_arc u (extraIn w v)) = Some (c, m)"
    by (rule find_arc_entry)
  ultimately show ?thesis
    using assms unfolding working_ok_def forEachOut_def forEachIn_def by simp
qed

definition arcs :: "nat \<Rightarrow> working \<Rightarrow> nat \<Rightarrow> nat \<Rightarrow> nat \<Rightarrow> nat \<Rightarrow> bool" where
  "arcs n w u v c m \<longleftrightarrow> u < n \<and> v < n \<and> arc_of v c m \<in> set (forEachOut w u)"

definition costs_of :: "nat \<Rightarrow> working \<Rightarrow> nat \<Rightarrow> nat \<Rightarrow> nat \<Rightarrow> bool" where
  "costs_of n w u v c \<longleftrightarrow> (\<exists>m. arcs n w u v c m)"

lemma add_shortcut_fields [simp]:
  "contracted (add_shortcut s w) = contracted w" "rank (add_shortcut s w) = rank w"
  "outOffsets (add_shortcut s w) = outOffsets w" "outArcs (add_shortcut s w) = outArcs w"
  "inOffsets (add_shortcut s w) = inOffsets w" "inArcs (add_shortcut s w) = inArcs w"
  "extraOut (add_shortcut s w) = (extraOut w)(fst s := add_arc (snd s) (extraOut w (fst s)))"
  "extraIn (add_shortcut s w) = (extraIn w)(ar_target (snd s) :=
     add_arc \<lparr>ar_target = fst s, ar_cost = ar_cost (snd s), ar_middle = ar_middle (snd s)\<rparr> (extraIn w (ar_target (snd s))))"
  by (simp_all add: add_shortcut_def addIn_def addOut_def split: prod.split)

lemma add_arc_members: "set (add_arc a bs) \<subseteq> insert a (set bs)"
proof -
  have "lower_arc a bs = Some bs' \<Longrightarrow> set bs' \<subseteq> insert a (set bs)" for bs'
  proof (induction bs arbitrary: bs')
    case (Cons b bs)
    then show ?case by (auto split: if_splits)
  qed simp
  then show ?thesis by (auto simp: add_arc_def split: option.split)
qed

lemma add_arc_keeps:
  assumes "b \<in> set bs"
  shows "\<exists>b'\<in>set (add_arc a bs). ar_target b' = ar_target b \<and> ar_cost b' \<le> ar_cost b"
proof -
  have "lower_arc a bs = Some bs' \<Longrightarrow> \<exists>b'\<in>set bs'. ar_target b' = ar_target b \<and> ar_cost b' \<le> ar_cost b" for bs'
    using assms
  proof (induction bs arbitrary: bs')
    case (Cons c bs)
    show ?case
    proof (cases "ar_target c = ar_target a")
      case True
      with Cons.prems show ?thesis by auto
    next
      case False
      with Cons.prems(1) obtain cs where cs: "lower_arc a bs = Some cs" "bs' = c # cs" by auto
      show ?thesis
      proof (cases "b = c")
        case True
        with cs show ?thesis by auto
      next
        case neq: False
        with Cons.prems(2) have "b \<in> set bs" by simp
        from Cons.IH [OF cs(1) this] cs(2) show ?thesis by auto
      qed
    qed
  qed simp
  with assms show ?thesis by (auto simp: add_arc_def split: option.split)
qed

lemma add_arc_has: "\<exists>b\<in>set (add_arc a bs). ar_target b = ar_target a \<and> ar_cost b \<le> ar_cost a"
proof -
  let ?b = "case find_arc (ar_target a) bs of None \<Rightarrow> a | Some b \<Rightarrow> if ar_cost a < ar_cost b then a else b"
  have "find_arc (ar_target a) (add_arc a bs) = Some ?b" by (simp add: add_arc_find)
  then have "?b \<in> set (add_arc a bs) \<and> ar_target ?b = ar_target a" by (rule find_arc_Some)
  moreover have "ar_cost ?b \<le> ar_cost a" by (auto split: option.split)
  ultimately show ?thesis by blast
qed


section \<open>Witnesses\<close>

definition remaining :: "working \<Rightarrow> nat set" where
  "remaining w = {v. \<not> contracted w v}"

definition reached_from :: "nat \<Rightarrow> working \<Rightarrow> nat \<Rightarrow> nat \<Rightarrow> witness_queue \<Rightarrow> bool" where
  "reached_from n w via source q \<longleftrightarrow>
     (\<forall>(c, h, v)\<in>set q. v < n \<and> walk_in (costs_of n w) (remaining w - {via}) source v c)"

lemma witness_arcs_reached:
  assumes "working_ok n w" "node < n" "walk_in (costs_of n w) (remaining w - {via}) source node cost"
    and "reached_from n w via source (fst st)" "set as \<subseteq> set (forEachOut w node)"
  shows "reached_from n w via source (fst (fold (witness_arc w via limit cost hops) as st))"
  using assms(4,5)
proof (induction as arbitrary: st)
  case (Cons a as)
  obtain q d where st: "st = (q, d)" by fastforce
  have t: "ar_target a < n" using assms(1,2) Cons.prems(2) by (auto simp: working_ok_def)
  have "arc_of (ar_target a) (ar_cost a) (ar_middle a) \<in> set (forEachOut w node)"
    using Cons.prems(2) by simp
  then have arc: "costs_of n w node (ar_target a) (ar_cost a)"
    using assms(2) t unfolding costs_of_def arcs_def by blast
  have "reached_from n w via source (fst (witness_arc w via limit cost hops a st))"
  proof (cases "contracted w (ar_target a) \<or> ar_target a = via")
    case False
    then have "ar_target a \<in> remaining w - {via}" by (simp add: remaining_def)
    from walk_snoc [OF assms(3) arc this] Cons.prems(1) t show ?thesis
      by (auto simp: witness_arc_def st reached_from_def Let_def)
  qed (use Cons.prems st in \<open>simp add: witness_arc_def\<close>)
  with Cons show ?case by simp
qed simp

lemma witness_loop_sound:
  assumes "witness_loop w pick options via target limit queue distance settled"
    and "working_ok n w" "reached_from n w via source queue"
  shows "\<exists>c\<le>limit. walk_in (costs_of n w) (remaining w - {via}) source target c"
  using assms
proof (induction w pick options via target limit queue distance settled rule: witness_loop.induct)
  case (1 w pick options via target limit queue distance settled)
  from "1.prems"(1) have ne: "queue \<noteq> []" by (subst (asm) witness_loop.simps) auto
  obtain cost hops node rest where pop: "heap_pop pick queue = ((cost, hops, node), rest)" by (metis prod.exhaust)
  from heap_pop_set [OF ne pop] "1.prems"(3) have here: "node < n" "walk_in (costs_of n w) (remaining w - {via}) source node cost"
    and rest: "reached_from n w via source rest" by (auto simp: reached_from_def)
  note IH = "1.IH" [OF ne refl refl refl refl refl, unfolded pop fst_conv snd_conv]
  note turn = "1.prems"(1) [unfolded witness_loop.simps [of w pick options via target limit queue], unfolded pop Let_def fst_conv snd_conv]
  show ?case
  proof (cases "case distance node of None \<Rightarrow> False | Some d \<Rightarrow> cost > d")
    case True
    with turn ne have "witness_loop w pick options via target limit rest distance settled" by simp
    from IH(1) [OF True this "1.prems"(2) rest] show ?thesis .
  next
    case fresh: False
    show ?thesis
    proof (cases "node = target")
      case True
      with turn ne fresh have "cost \<le> limit" by simp
      with here True show ?thesis by blast
    next
      case nt: False
      show ?thesis
      proof (cases "cost > limit")
        case True
        with turn ne fresh nt have "witness_loop w pick options via target limit rest distance settled" by simp
        from IH(2) [OF fresh nt True this "1.prems"(2) rest] show ?thesis .
      next
        case low: False
        show ?thesis
        proof (cases "settled + 1 > witnessSettleLimit options \<or> hops \<ge> witnessHopLimit options")
          case True
          with turn ne fresh nt low have "witness_loop w pick options via target limit rest distance (settled + 1)" by simp
          from IH(3) [OF fresh nt low True this "1.prems"(2) rest] show ?thesis .
        next
          case False
          let ?st = "fold (witness_arc w via limit cost hops) (forEachOut w node) (rest, distance)"
          from turn ne fresh nt low False have "witness_loop w pick options via target limit (fst ?st) (snd ?st) (settled + 1)"
            by simp
          moreover have "reached_from n w via source (fst ?st)"
            using witness_arcs_reached [OF "1.prems"(2) here, of "(rest, distance)"] rest by simp
          ultimately show ?thesis using IH(4) [OF fresh nt low False refl] "1.prems"(2) by blast
        qed
      qed
    qed
  qed
qed

lemma hasWitness_sound:
  assumes "hasWitness w pick options source via target limit" "working_ok n w"
    and "source < n" "source \<in> remaining w - {via}"
  shows "\<exists>c\<le>limit. walk_in (costs_of n w) (remaining w - {via}) source target c"
  using witness_loop_sound [OF assms(1) [unfolded hasWitness_def] assms(2), of source] assms(3,4)
  by (simp add: reached_from_def walk_refl)


section \<open>One contraction\<close>

lemma forEach_cong [simp]:
  "forEachOut (w\<lparr>contracted := k, rank := r\<rparr>) = forEachOut w" "forEachIn (w\<lparr>contracted := k, rank := r\<rparr>) = forEachIn w"
  by (simp_all add: forEachOut_def forEachIn_def fun_eq_iff)

lemma working_ok_cong [simp]: "working_ok n (w\<lparr>contracted := k, rank := r\<rparr>) = working_ok n w"
  by (simp add: working_ok_def)

lemma costs_of_cong [simp]: "costs_of n (w\<lparr>contracted := k, rank := r\<rparr>) = costs_of n w"
  "arcs n (w\<lparr>contracted := k, rank := r\<rparr>) = arcs n w"
  by (simp_all add: costs_of_def arcs_def fun_eq_iff)

definition short_ok :: "nat \<Rightarrow> nat \<times> arc \<Rightarrow> bool" where
  "short_ok n s \<longleftrightarrow> fst s < n \<and> ar_target (snd s) < n"

lemma add_shortcut_out: "forEachOut (add_shortcut s w) u =
    (if u = fst s then csr_row (outOffsets w) (outArcs w) u @ add_arc (snd s) (extraOut w u) else forEachOut w u)"
  by (simp add: forEachOut_def)

lemma add_shortcut_arcs: "arcs n (add_shortcut s w) u v c m \<Longrightarrow> arcs n w u v c m \<or>
    u = fst s \<and> v = ar_target (snd s) \<and> c = ar_cost (snd s) \<and> m = ar_middle (snd s)"
proof -
  assume a: "arcs n (add_shortcut s w) u v c m"
  show ?thesis
  proof (cases "arc_of v c m = snd s \<and> u = fst s")
    case True
    then show ?thesis by (metis arc_of_fields)
  next
    case False
    with a add_arc_members [of "snd s" "extraOut w u"] show ?thesis
      by (auto simp: arcs_def add_shortcut_out forEachOut_def split: if_splits)
  qed
qed

lemma add_shortcut_dominates: "dominates (costs_of n (add_shortcut s w)) (costs_of n w)"
  unfolding dominates_def
proof (intro allI impI)
  fix u v c assume "costs_of n w u v c"
  then obtain m where m: "u < n" "v < n" "arc_of v c m \<in> set (forEachOut w u)" by (auto simp: costs_of_def arcs_def)
  have "\<exists>b\<in>set (forEachOut (add_shortcut s w) u). ar_target b = v \<and> ar_cost b \<le> c"
  proof (cases "arc_of v c m \<in> set (extraOut w u)")
    case True
    show ?thesis
    proof (cases "u = fst s")
      case True
      from add_arc_keeps [OF \<open>arc_of v c m \<in> set (extraOut w u)\<close>, of "snd s"] True show ?thesis
        by (auto simp: add_shortcut_out)
    next
      case False
      with m(3) show ?thesis by (intro bexI [of _ "arc_of v c m"]) (simp_all add: add_shortcut_out)
    qed
  next
    case False
    with m(3) show ?thesis by (intro bexI [of _ "arc_of v c m"]) (auto simp: add_shortcut_out forEachOut_def)
  qed
  then obtain b where "b \<in> set (forEachOut (add_shortcut s w) u)" "ar_target b = v" "ar_cost b \<le> c" by blast
  with m(1,2) show "\<exists>c'\<le>c. costs_of n (add_shortcut s w) u v c'"
    unfolding costs_of_def arcs_def by (metis arc_of_eq)
qed

lemma add_shortcut_has: "short_ok n s \<Longrightarrow> \<exists>c\<le>ar_cost (snd s). costs_of n (add_shortcut s w) (fst s) (ar_target (snd s)) c"
proof -
  assume ok: "short_ok n s"
  obtain b where "b \<in> set (add_arc (snd s) (extraOut w (fst s)))" "ar_target b = ar_target (snd s)" "ar_cost b \<le> ar_cost (snd s)"
    using add_arc_has by blast
  then have "b \<in> set (forEachOut (add_shortcut s w) (fst s))" by (simp add: add_shortcut_out)
  with ok \<open>ar_target b = _\<close> \<open>ar_cost b \<le> _\<close> show ?thesis
    unfolding costs_of_def arcs_def short_ok_def by (metis arc_of_eq)
qed

lemma add_shortcut_ok:
  assumes "working_ok n w" "short_ok n s"
  shows "working_ok n (add_shortcut s w)"
proof -
  note w = assms(1) [unfolded working_ok_def]
  let ?w = "add_shortcut s w" and ?t = "ar_target (snd s)"
  have "ar_target a < n" if "u < n" "a \<in> set (forEachOut ?w u)" for u a
    using that w assms(2) add_arc_members [of "snd s" "extraOut w u"]
    by (auto simp: add_shortcut_out forEachOut_def short_ok_def split: if_splits)
  moreover have "ar_target a < n" if "u < n" "a \<in> set (forEachIn ?w u)" for u a
  proof (cases "u = ?t")
    case False
    then have "forEachIn ?w u = forEachIn w u" by (simp add: forEachIn_def)
    with that w show ?thesis by auto
  next
    case True
    let ?b = "\<lparr>ar_target = fst s, ar_cost = ar_cost (snd s), ar_middle = ar_middle (snd s)\<rparr>"
    have "forEachIn ?w u = csr_row (inOffsets w) (inArcs w) u @ add_arc ?b (extraIn w u)"
      using True by (simp add: forEachIn_def)
    with that(2) add_arc_members [of ?b "extraIn w u"] have "a \<in> set (forEachIn w u) \<or> a = ?b"
      by (auto simp: forEachIn_def)
    with that(1) w assms(2) show ?thesis by (auto simp: short_ok_def)
  qed
  moreover have "map_option (\<lambda>a. (ar_cost a, ar_middle a)) (find_arc v (extraOut ?w u)) =
      map_option (\<lambda>a. (ar_cost a, ar_middle a)) (find_arc u (extraIn ?w v))" for u v
  proof -
    from w have sym: "map_option (\<lambda>a. (ar_cost a, ar_middle a)) (find_arc v (extraOut w u)) =
        map_option (\<lambda>a. (ar_cost a, ar_middle a)) (find_arc u (extraIn w v))" by blast
    show ?thesis
      using sym by (cases "find_arc v (extraOut w u)"; cases "find_arc u (extraIn w v)") (auto simp: add_arc_find)
  qed
  moreover have "distinct (map ar_target (extraOut ?w u)) \<and> distinct (map ar_target (extraIn ?w u))" for u
    using w add_arc_distinct by (simp del: distinct_map)
  ultimately show ?thesis using w unfolding working_ok_def by simp
qed

lemma add_shortcuts:
  assumes "working_ok n w" "\<forall>s\<in>set ss. short_ok n s"
  shows "working_ok n (fold add_shortcut ss w) \<and> dominates (costs_of n (fold add_shortcut ss w)) (costs_of n w) \<and>
    (\<forall>s\<in>set ss. \<exists>c\<le>ar_cost (snd s). costs_of n (fold add_shortcut ss w) (fst s) (ar_target (snd s)) c) \<and>
    (\<forall>u v c m. arcs n (fold add_shortcut ss w) u v c m \<longrightarrow> arcs n w u v c m \<or>
       (\<exists>s\<in>set ss. u = fst s \<and> v = ar_target (snd s) \<and> c = ar_cost (snd s) \<and> m = ar_middle (snd s))) \<and>
    contracted (fold add_shortcut ss w) = contracted w \<and> rank (fold add_shortcut ss w) = rank w"
  using assms
proof (induction ss arbitrary: w)
  case (Cons s ss)
  let ?w = "add_shortcut s w" and ?fin = "fold add_shortcut ss (add_shortcut s w)"
  have s: "short_ok n s" using Cons.prems by simp
  from add_shortcut_ok [OF Cons.prems(1) s] Cons.prems(2)
  have IH: "working_ok n ?fin" "dominates (costs_of n ?fin) (costs_of n ?w)"
    "\<forall>s\<in>set ss. \<exists>c\<le>ar_cost (snd s). costs_of n ?fin (fst s) (ar_target (snd s)) c"
    "\<And>u v c m. arcs n ?fin u v c m \<Longrightarrow> arcs n ?w u v c m \<or>
       (\<exists>s\<in>set ss. u = fst s \<and> v = ar_target (snd s) \<and> c = ar_cost (snd s) \<and> m = ar_middle (snd s))"
    "contracted ?fin = contracted ?w" "rank ?fin = rank ?w"
    using Cons.IH [of ?w] by auto
  have dom: "dominates (costs_of n ?fin) (costs_of n w)"
    using dominates_trans [OF IH(2) add_shortcut_dominates] .
  have "\<exists>c\<le>ar_cost (snd s). costs_of n ?fin (fst s) (ar_target (snd s)) c"
    using add_shortcut_has [OF s, of w] IH(2) unfolding dominates_def by (meson order_trans)
  with IH(3) have has: "\<forall>s\<in>set (s # ss). \<exists>c\<le>ar_cost (snd s). costs_of n ?fin (fst s) (ar_target (snd s)) c" by simp
  have "arcs n w u v c m \<or> (\<exists>s\<in>set (s # ss). u = fst s \<and> v = ar_target (snd s) \<and> c = ar_cost (snd s) \<and> m = ar_middle (snd s))"
    if "arcs n ?fin u v c m" for u v c m
    using IH(4) [OF that] add_shortcut_arcs [of n s w u v c m] by (metis list.set_intros)
  with IH(1,5,6) dom has show ?case by simp
qed simp


lemma sim_shortcutsE:
  assumes "s \<in> set (sim_shortcuts w pick options node)"
  obtains i out where "i \<in> set (forEachIn w node)" "out \<in> set (forEachOut w node)" "\<not> contracted w (ar_target i)"
    "\<not> contracted w (ar_target out)" "ar_target i \<noteq> ar_target out"
    "s = (ar_target i, arc_of (ar_target out) (ar_cost i + ar_cost out) node)"
  using assms unfolding sim_shortcuts_def Let_def by (auto simp: arc_of_def split: if_splits)

lemma sim_shortcuts_complete:
  assumes "i \<in> set (forEachIn w node)" "out \<in> set (forEachOut w node)" "\<not> contracted w (ar_target i)"
    "\<not> contracted w (ar_target out)" "ar_target i \<noteq> ar_target out"
    "\<not> hasWitness w pick options (ar_target i) node (ar_target out) (ar_cost i + ar_cost out)"
  shows "(ar_target i, arc_of (ar_target out) (ar_cost i + ar_cost out) node) \<in> set (sim_shortcuts w pick options node)"
proof -
  let ?one = "\<lambda>i out. if ar_target i = ar_target out then []
      else if hasWitness w pick options (ar_target i) node (ar_target out) (ar_cost i + ar_cost out) then []
      else [(ar_target i, \<lparr>ar_target = ar_target out, ar_cost = ar_cost i + ar_cost out, ar_middle = node\<rparr>)]"
  have "(ar_target i, arc_of (ar_target out) (ar_cost i + ar_cost out) node) \<in> set (?one i out)"
    using assms(5,6) by (simp add: arc_of_def)
  moreover have "i \<in> set (filter (\<lambda>a. \<not> contracted w (ar_target a)) (forEachIn w node))"
    "out \<in> set (filter (\<lambda>a. \<not> contracted w (ar_target a)) (forEachOut w node))" using assms(1-4) by simp_all
  ultimately show ?thesis unfolding sim_shortcuts_def Let_def set_concat set_map
    by (fastforce simp only: set_concat set_map)
qed

lemma in_arc: "working_ok n w \<Longrightarrow> node < n \<Longrightarrow> i \<in> set (forEachIn w node) \<Longrightarrow>
    arcs n w (ar_target i) node (ar_cost i) (ar_middle i)"
proof -
  assume a: "working_ok n w" "node < n" "i \<in> set (forEachIn w node)"
  then have t: "ar_target i < n" by (auto simp: working_ok_def)
  from a(3) have "arc_of (ar_target i) (ar_cost i) (ar_middle i) \<in> set (forEachIn w node)" by simp
  then have "arc_of node (ar_cost i) (ar_middle i) \<in> set (forEachOut w (ar_target i))"
    using working_sym [OF a(1) t a(2)] by blast
  with a t show ?thesis by (simp add: arcs_def)
qed

lemma out_arc: "working_ok n w \<Longrightarrow> node < n \<Longrightarrow> out \<in> set (forEachOut w node) \<Longrightarrow>
    arcs n w node (ar_target out) (ar_cost out) (ar_middle out)"
  by (auto simp: working_ok_def arcs_def)

lemma sim_shortcuts_ok:
  assumes "working_ok n w" "node < n"
  shows "\<forall>s\<in>set (sim_shortcuts w pick options node). short_ok n s"
proof
  fix s assume "s \<in> set (sim_shortcuts w pick options node)"
  then obtain i out where "i \<in> set (forEachIn w node)" "out \<in> set (forEachOut w node)"
    "s = (ar_target i, arc_of (ar_target out) (ar_cost i + ar_cost out) node)" by (rule sim_shortcutsE)
  with in_arc [OF assms] out_arc [OF assms] show "short_ok n s" by (auto simp: short_ok_def arcs_def)
qed

definition contracted_working :: "(witness_queue \<Rightarrow> nat) \<Rightarrow> contraction_options \<Rightarrow> nat \<Rightarrow> nat \<Rightarrow> working \<Rightarrow> working" where
  "contracted_working pick options node k w = fold add_shortcut (sim_shortcuts w pick options node)
     (w\<lparr>contracted := (contracted w)(node := True), rank := (rank w)(node := k)\<rparr>)"

lemma contracted_working_facts:
  fixes w :: working and n node k :: nat and pick :: "witness_queue \<Rightarrow> nat" and options :: contraction_options
  assumes "working_ok n w" "node < n"
  defines "w' \<equiv> contracted_working pick options node k w"
  shows "working_ok n w'" "dominates (costs_of n w') (costs_of n w)"
    "remaining w' = remaining w - {node}" "rank w' = (rank w)(node := k)"
    "contracted w' = (contracted w)(node := True)"
    "\<And>u v c m. arcs n w' u v c m \<Longrightarrow> arcs n w u v c m \<or>
       m = node \<and> (\<exists>c1 c2. costs_of n w u node c1 \<and> costs_of n w node v c2 \<and> c = c1 + c2)"
    "bypassed (costs_of n w) (costs_of n w') (remaining w) node"
proof -
  let ?w = "w\<lparr>contracted := (contracted w)(node := True), rank := (rank w)(node := k)\<rparr>"
  let ?ss = "sim_shortcuts w pick options node"
  have "working_ok n ?w" using assms(1) by simp
  note facts = add_shortcuts [OF this sim_shortcuts_ok [OF assms(1,2), of pick options]]
  then show "working_ok n w'" "dominates (costs_of n w') (costs_of n w)" "remaining w' = remaining w - {node}"
    "rank w' = (rank w)(node := k)" "contracted w' = (contracted w)(node := True)"
    by (auto simp: w'_def contracted_working_def remaining_def)
  note dom = \<open>dominates (costs_of n w') (costs_of n w)\<close>
  fix u v c m assume "arcs n w' u v c m"
  then consider "arcs n w u v c m"
    | s where "s \<in> set ?ss" "u = fst s" "v = ar_target (snd s)" "c = ar_cost (snd s)" "m = ar_middle (snd s)"
    using facts unfolding w'_def contracted_working_def costs_of_cong by metis
  then show "arcs n w u v c m \<or>
       m = node \<and> (\<exists>c1 c2. costs_of n w u node c1 \<and> costs_of n w node v c2 \<and> c = c1 + c2)"
  proof cases
    case 2
    from 2(1) obtain i out where io: "i \<in> set (forEachIn w node)" "out \<in> set (forEachOut w node)"
      "s = (ar_target i, arc_of (ar_target out) (ar_cost i + ar_cost out) node)" by (rule sim_shortcutsE)
    with in_arc [OF assms(1,2) io(1)] out_arc [OF assms(1,2) io(2)] 2 show ?thesis
      by (auto simp: costs_of_def)
  qed simp
next
  let ?w = "w\<lparr>contracted := (contracted w)(node := True), rank := (rank w)(node := k)\<rparr>"
  let ?ss = "sim_shortcuts w pick options node"
  have "working_ok n ?w" using assms(1) by simp
  note facts = add_shortcuts [OF this sim_shortcuts_ok [OF assms(1,2), of pick options]]
  have dom: "dominates (costs_of n w') (costs_of n w)"
    and has: "\<And>s. s \<in> set ?ss \<Longrightarrow> \<exists>c\<le>ar_cost (snd s). costs_of n w' (fst s) (ar_target (snd s)) c"
    using facts by (auto simp: w'_def contracted_working_def)
  show "bypassed (costs_of n w) (costs_of n w') (remaining w) node"
    unfolding bypassed_def
  proof (intro allI impI)
    fix u v c d
    assume u: "u \<in> remaining w - {node}" and v: "v \<in> remaining w - {node}" and uv: "u \<noteq> v"
      and "costs_of n w u node c" "costs_of n w node v d"
    then obtain m1 m2 where a: "u < n" "arc_of node c m1 \<in> set (forEachOut w u)" "v < n" "arc_of v d m2 \<in> set (forEachOut w node)"
      by (auto simp: costs_of_def arcs_def)
    then have i: "arc_of u c m1 \<in> set (forEachIn w node)" using working_sym [OF assms(1) _ assms(2)] by blast
    show "\<exists>e\<le>c + d. walk_in (costs_of n w') (remaining w - {node}) u v e"
    proof (cases "hasWitness w pick options u node v (c + d)")
      case True
      from hasWitness_sound [OF this assms(1) a(1) u] obtain e where "e \<le> c + d" "walk_in (costs_of n w) (remaining w - {node}) u v e"
        by blast
      with walk_dominates [OF _ dom] show ?thesis by (meson order_trans)
    next
      case False
      have "(ar_target (arc_of u c m1), arc_of (ar_target (arc_of v d m2)) (ar_cost (arc_of u c m1) + ar_cost (arc_of v d m2)) node) \<in> set ?ss"
        by (rule sim_shortcuts_complete [OF i a(4)]) (use u v uv False in \<open>simp_all add: remaining_def\<close>)
      from has [OF this] obtain e where "e \<le> c + d" "costs_of n w' u v e" by auto
      moreover from walk_step [of u "remaining w - {node}" "costs_of n w'" v e v 0] this(2) u v
      have "walk_in (costs_of n w') (remaining w - {node}) u v e" by (simp add: walk_refl)
      ultimately show ?thesis by auto
    qed
  qed
qed


section \<open>The expanded graph\<close>

lemma in_transitions: "(i, j) \<in> set (transitions g) \<longleftrightarrow>
    i < length (g_edges g) \<and> j \<in> set (edgesFrom g (ed_target (g_edges g ! i))) \<and> turn_ok g i j"
  by (auto simp: transitions_def transitionAllowed_def turn_ok_def Let_def)

lemma row_items_set: "x \<in> set (row_items k items) \<longleftrightarrow> (k, x) \<in> set items"
  by (force simp: row_items_def)

lemma csr_row_set:
  assumes "\<forall>k\<in>set (map fst items). k < n" "k < n"
  shows "x \<in> set (csr_row (csr_offsets n (map fst items)) (csr_fill blank n items) k) \<longleftrightarrow> (k, x) \<in> set items"
  by (simp add: csr_fill_row [OF assms] row_items_set)

lemma transitions_range: "graph_wf g \<Longrightarrow> (i, j) \<in> set (transitions g) \<Longrightarrow> i < length (g_edges g) \<and> j < length (g_edges g)"
  by (auto simp: in_transitions dest: edgesFrom_in_range)

lemma map_pairs: "(k, x) \<in> set (map (\<lambda>(i, j). (f i j, h i j)) ts) \<longleftrightarrow> (\<exists>i j. (i, j) \<in> set ts \<and> k = f i j \<and> x = h i j)"
  by (induction ts) auto

lemma expanded_rows:
  assumes "graph_wf g" "u < length (g_edges g)"
  shows "a \<in> set (csr_row (outOffsets (expanded g)) (outArcs (expanded g)) u) \<longleftrightarrow>
      (\<exists>v. (u, v) \<in> set (transitions g) \<and> a = arc_of v (costDs (g_edges g ! v)) kNoMiddle)"
    and "a \<in> set (csr_row (inOffsets (expanded g)) (inArcs (expanded g)) u) \<longleftrightarrow>
      (\<exists>v. (v, u) \<in> set (transitions g) \<and> a = arc_of v (costDs (g_edges g ! u)) kNoMiddle)"
proof -
  let ?out = "map (\<lambda>(i, j). (i, \<lparr>ar_target = j, ar_cost = costDs (g_edges g ! j), ar_middle = kNoMiddle\<rparr>)) (transitions g)"
  let ?in = "map (\<lambda>(i, j). (j, \<lparr>ar_target = i, ar_cost = costDs (g_edges g ! j), ar_middle = kNoMiddle\<rparr>)) (transitions g)"
  have keys: "map fst ?out = map fst (transitions g)" "map fst ?in = map snd (transitions g)" by auto
  have range: "\<forall>k\<in>set (map fst ?out). k < length (g_edges g)" "\<forall>k\<in>set (map fst ?in). k < length (g_edges g)"
    using transitions_range [OF assms(1)] by auto
  show "a \<in> set (csr_row (outOffsets (expanded g)) (outArcs (expanded g)) u) \<longleftrightarrow>
      (\<exists>v. (u, v) \<in> set (transitions g) \<and> a = arc_of v (costDs (g_edges g ! v)) kNoMiddle)"
    using csr_row_set [OF range(1) assms(2), of a "\<lparr>ar_target = 0, ar_cost = 0, ar_middle = 0\<rparr>"]
    unfolding keys expanded_def Let_def working.simps
    unfolding map_pairs arc_of_def by blast
  show "a \<in> set (csr_row (inOffsets (expanded g)) (inArcs (expanded g)) u) \<longleftrightarrow>
      (\<exists>v. (v, u) \<in> set (transitions g) \<and> a = arc_of v (costDs (g_edges g ! u)) kNoMiddle)"
    using csr_row_set [OF range(2) assms(2), of a "\<lparr>ar_target = 0, ar_cost = 0, ar_middle = 0\<rparr>"]
    unfolding keys expanded_def Let_def working.simps
    unfolding map_pairs arc_of_def by blast
qed

lemma expanded_fields: "extraOut (expanded g) u = []" "extraIn (expanded g) u = []" "contracted (expanded g) u = False"
  by (simp_all add: expanded_def Let_def)

lemma arc_of_inj [simp]: "arc_of v c m = arc_of v' c' m' \<longleftrightarrow> v = v' \<and> c = c' \<and> m = m'"
  by (auto simp: arc_of_def)

lemma expanded_arcs: "graph_wf g \<Longrightarrow> arcs (length (g_edges g)) (expanded g) u v c m \<longleftrightarrow>
    (u, v) \<in> set (transitions g) \<and> c = costDs (g_edges g ! v) \<and> m = kNoMiddle"
  unfolding arcs_def forEachOut_def
  using transitions_range [of g u v] by (auto simp: expanded_rows expanded_fields)

lemma expanded_ok: "graph_wf g \<Longrightarrow> working_ok (length (g_edges g)) (expanded g)"
  unfolding working_ok_def forEachOut_def forEachIn_def
  by (auto simp: expanded_rows expanded_fields find_arc_def) (blast dest: transitions_range)+

section \<open>What contracting keeps\<close>

text \<open>An arc is a legal turn, or stands for two arcs through its middle, together no dearer.\<close>

definition justified :: "graph \<Rightarrow> (nat \<Rightarrow> nat \<Rightarrow> nat \<Rightarrow> bool) \<Rightarrow> nat \<Rightarrow> nat \<Rightarrow> nat \<Rightarrow> nat \<Rightarrow> bool" where
  "justified g A u v c m \<longleftrightarrow>
     m = kNoMiddle \<and> (u, v) \<in> set (transitions g) \<and> c = costDs (g_edges g ! v) \<or>
     m < length (g_edges g) \<and> (\<exists>c1 c2. A u m c1 \<and> A m v c2 \<and> c1 + c2 \<le> c)"

lemma justified_dominates: "justified g A u v c m \<Longrightarrow> dominates B A \<Longrightarrow> justified g B u v c m"
  unfolding justified_def dominates_def by (meson add_mono order_trans)

definition turn_costs :: "graph \<Rightarrow> nat \<Rightarrow> nat \<Rightarrow> nat \<Rightarrow> bool" where
  "turn_costs g u v c \<longleftrightarrow> (u, v) \<in> set (transitions g) \<and> c = costDs (g_edges g ! v)"

text \<open>The builder gives every edge at least a tenth of a second.\<close>

definition positive_costs :: "graph \<Rightarrow> bool" where
  "positive_costs g \<longleftrightarrow> list_all (\<lambda>e. 0 < costDs e) (g_edges g)"

definition working_inv :: "graph \<Rightarrow> nat \<Rightarrow> working \<Rightarrow> bool" where
  "working_inv g k w \<longleftrightarrow> working_ok (length (g_edges g)) w \<and>
     (\<forall>v. contracted w v \<longrightarrow> v < length (g_edges g) \<and> rank w v < k) \<and>
     (\<forall>u v c m. arcs (length (g_edges g)) w u v c m \<longrightarrow> 0 < c \<and> justified g (costs_of (length (g_edges g)) w) u v c m) \<and>
     (\<forall>s t c. walk_in (turn_costs g) UNIV s t c \<longrightarrow>
        arched (costs_of (length (g_edges g)) w) (remaining w) (rank w) s t c)"

lemma expanded_inv: "graph_wf g \<Longrightarrow> positive_costs g \<Longrightarrow> working_inv g 0 (expanded g)"
proof -
  assume wf: "graph_wf g" and pos: "positive_costs g"
  have "costs_of (length (g_edges g)) (expanded g) = turn_costs g"
    by (simp add: fun_eq_iff costs_of_def turn_costs_def expanded_arcs [OF wf])
  moreover have "remaining (expanded g) = UNIV" by (simp add: remaining_def expanded_fields)
  moreover have "0 < costDs (g_edges g ! v)" if "(u, v) \<in> set (transitions g)" for u v
    using transitions_range [OF wf that] pos by (simp add: positive_costs_def list_all_length)
  ultimately show ?thesis
    using expanded_ok [OF wf] unfolding working_inv_def
    by (auto simp: expanded_fields expanded_arcs [OF wf] justified_def intro: arched_start)
qed

lemma contracted_working_inv:
  assumes "working_inv g k w" "node < length (g_edges g)" "\<not> contracted w node"
  shows "working_inv g (k + 1) (contracted_working pick options node k w)"
proof -
  let ?n = "length (g_edges g)" and ?w = "contracted_working pick options node k w"
  note inv = assms(1) [unfolded working_inv_def]
  from inv have ok: "working_ok ?n w" by blast
  note f = contracted_working_facts [OF ok assms(2), of pick options k]
  have "0 < c \<and> justified g (costs_of ?n ?w) u v c m" if "arcs ?n ?w u v c m" for u v c m
    using f(6) [OF that]
  proof (elim disjE)
    assume "arcs ?n w u v c m"
    with inv have "0 < c" "justified g (costs_of ?n w) u v c m" by blast+
    then show ?thesis using justified_dominates [OF _ f(2)] by blast
  next
    assume "m = node \<and> (\<exists>c1 c2. costs_of ?n w u node c1 \<and> costs_of ?n w node v c2 \<and> c = c1 + c2)"
    then obtain c1 c2 m1 m2 where "m = node" "arcs ?n w u node c1 m1" "arcs ?n w node v c2 m2" "c = c1 + c2"
      unfolding costs_of_def by blast
    moreover from this have "costs_of ?n w u node c1" "costs_of ?n w node v c2" by (auto simp: costs_of_def)
    ultimately have "justified g (costs_of ?n w) u v c m" using assms(2) unfolding justified_def by blast
    moreover have "0 < c1" using inv \<open>arcs ?n w u node c1 m1\<close> by blast
    ultimately show ?thesis using justified_dominates [OF _ f(2)] \<open>c = c1 + c2\<close> by simp
  qed
  moreover have "arched (costs_of ?n ?w) (remaining ?w) (rank ?w) s t c" if "walk_in (turn_costs g) UNIV s t c" for s t c
    unfolding f(3,4) by (rule arched_next [OF _ f(2) f(7)]) (use inv that assms(3) in \<open>auto simp: remaining_def\<close>)
  ultimately show ?thesis
    using inv f(1) assms(2) unfolding working_inv_def by (auto simp: f(4,5) less_SucI)
qed


section \<open>The loop\<close>

lemma queue_top: "q \<noteq> [] \<Longrightarrow> queue_top q < length q \<and> (\<forall>x\<in>set q. queued_before (q ! queue_top q) x)"
proof (induction q rule: queue_top.induct)
  case (3 x y xs)
  let ?i = "queue_top (y # xs)"
  from "3.IH" have i: "?i < length (y # xs)" and least: "\<forall>z\<in>set (y # xs). queued_before ((y # xs) ! ?i) z" by simp_all
  show ?case
  proof (cases "queued_before x ((y # xs) ! ?i)")
    case True
    with least have "\<forall>z\<in>set (y # xs). queued_before x z" unfolding queued_before_def by fastforce
    with True show ?thesis by (simp add: Let_def queued_before_def)
  next
    case False
    then have "queued_before ((y # xs) ! ?i) x" by (auto simp: queued_before_def)
    with False least i show ?thesis by (simp add: Let_def)
  qed
qed (auto simp: queued_before_def)

lemma queue_pop:
  assumes "q \<noteq> []" "q ! queue_top q = e" "rest = remove_at (queue_top q) q"
  shows "\<exists>a b. q = a @ e # b \<and> rest = a @ b" "\<forall>x\<in>set rest. queued_before e x"
proof -
  from queue_top [OF assms(1)] have i: "queue_top q < length q" by blast
  from id_take_nth_drop [OF i] show ab: "\<exists>a b. q = a @ e # b \<and> rest = a @ b"
    using assms(2,3) by (auto simp: remove_at_def)
  then have "set rest \<subseteq> set q" by auto
  then show "\<forall>x\<in>set rest. queued_before e x"
    using queue_top [OF assms(1)] assms(2) by blast
qed

definition uncontracted :: "graph \<Rightarrow> working \<Rightarrow> nat set" where
  "uncontracted g w = {v. v < length (g_edges g) \<and> \<not> contracted w v}"

definition contraction_inv :: "graph \<Rightarrow> contraction \<Rightarrow> bool" where
  "contraction_inv g st \<longleftrightarrow> working_inv g (cn_rank st) (cn_working st) \<and>
     cn_rank st + card (uncontracted g (cn_working st)) = length (g_edges g) \<and>
     (\<forall>e\<in>set (cn_queue st). snd e < length (g_edges g))"

text \<open>An entry of the queue is stale when its priority is not what a simulation would now say.\<close>

definition stale :: "(witness_queue \<Rightarrow> nat) \<Rightarrow> contraction_options \<Rightarrow> contraction \<Rightarrow> nat" where
  "stale pick options st =
     length (filter (\<lambda>e. fst e \<noteq> sim_priority (cn_working st) pick options (cn_neighbours st) (snd e)) (cn_queue st))"

definition contraction_measure ::
  "graph \<Rightarrow> (witness_queue \<Rightarrow> nat) \<Rightarrow> contraction_options \<Rightarrow> contraction \<Rightarrow> nat \<times> nat \<times> nat" where
  "contraction_measure g pick options st =
     (card (uncontracted g (cn_working st)), stale pick options st, length (cn_queue st))"

lemma contract_node_fields:
  "cn_working (contract_node pick options node st) = contracted_working pick options node (cn_rank st) (cn_working st)"
  "cn_rank (contract_node pick options node st) = cn_rank st + 1"
  "cn_queue (contract_node pick options node st) = cn_queue st"
  by (simp_all add: contract_node_def contracted_working_def Let_def)

lemma contract_node_inv:
  assumes "contraction_inv g st" "node < length (g_edges g)" "\<not> contracted (cn_working st) node"
  shows "contraction_inv g (contract_node pick options node st)"
    and "card (uncontracted g (cn_working (contract_node pick options node st))) < card (uncontracted g (cn_working st))"
proof -
  let ?w = "cn_working st" and ?st = "contract_node pick options node st"
  have inv: "working_inv g (cn_rank st) ?w" using assms(1) by (simp add: contraction_inv_def)
  then have ok: "working_ok (length (g_edges g)) ?w" by (simp add: working_inv_def)
  have mem: "node \<in> uncontracted g ?w" using assms(2,3) by (simp add: uncontracted_def)
  have "uncontracted g (cn_working ?st) = uncontracted g ?w - {node}"
    unfolding contract_node_fields uncontracted_def contracted_working_facts(5) [OF ok assms(2)] by auto
  moreover have "finite (uncontracted g ?w)" by (simp add: uncontracted_def)
  ultimately have card: "card (uncontracted g (cn_working ?st)) + 1 = card (uncontracted g ?w)"
    using card.remove [OF _ mem] by simp
  then show "card (uncontracted g (cn_working ?st)) < card (uncontracted g ?w)" by simp
  show "contraction_inv g ?st"
    using contracted_working_inv [OF inv assms(2,3)] assms(1) card
    unfolding contraction_inv_def contract_node_fields by auto
qed

lemma contract_step_inv:
  assumes "contraction_inv g st" "cn_queue st \<noteq> []"
  shows "contraction_inv g (contract_step pick options st) \<and>
    (contraction_measure g pick options (contract_step pick options st), contraction_measure g pick options st)
      \<in> less_than <*lex*> (less_than <*lex*> less_than)"
proof -
  obtain priority node where e: "cn_queue st ! queue_top (cn_queue st) = (priority, node)" by fastforce
  define rest where "rest = remove_at (queue_top (cn_queue st)) (cn_queue st)"
  from queue_pop [OF assms(2) e rest_def] obtain a b where q: "cn_queue st = a @ (priority, node) # b" and rest: "rest = a @ b"
    and least: "\<forall>x\<in>set rest. queued_before (priority, node) x" by blast
  have node: "node < length (g_edges g)" using assms(1) q by (auto simp: contraction_inv_def)
  have inv: "contraction_inv g (st\<lparr>cn_queue := rest\<rparr>)" using assms(1) q rest by (auto simp: contraction_inv_def)
  let ?now = "sim_priority (cn_working st) pick options (cn_neighbours st) node"
  note step = contract_step_def [of pick options st, unfolded e Let_def prod.case, folded rest_def]
  consider "contracted (cn_working st) node"
    | "\<not> contracted (cn_working st) node" "rest \<noteq> []" "?now > fst (rest ! queue_top rest)"
    | "\<not> contracted (cn_working st) node" "\<not> (rest \<noteq> [] \<and> ?now > fst (rest ! queue_top rest))" by blast
  then show ?thesis
  proof cases
    case 1
    then have s: "contract_step pick options st = st\<lparr>cn_queue := rest\<rparr>" by (simp add: step)
    from inv show ?thesis unfolding s contraction_measure_def stale_def by (simp add: q rest)
  next
    case 2
    then have s: "contract_step pick options st = st\<lparr>cn_queue := rest @ [(?now, node)]\<rparr>" by (simp add: step)
    have "rest ! queue_top rest \<in> set rest" using queue_top [OF 2(2)] by simp
    with least have "priority \<le> fst (rest ! queue_top rest)" by (auto simp: queued_before_def)
    with 2(3) have "priority \<noteq> ?now" by simp
    moreover have "contraction_inv g (st\<lparr>cn_queue := rest @ [(?now, node)]\<rparr>)"
      using inv node by (auto simp: contraction_inv_def)
    ultimately show ?thesis unfolding s contraction_measure_def stale_def by (simp add: q rest)
  next
    case 3
    then have s: "contract_step pick options st = contract_node pick options node (st\<lparr>cn_queue := rest\<rparr>)"
      by (auto simp add: step)
    from contract_node_inv [OF inv node, of pick options] 3(1) show ?thesis
      unfolding s contraction_measure_def by simp
  qed
qed

lemma contract_start_inv: "graph_wf g \<Longrightarrow> positive_costs g \<Longrightarrow> contraction_inv g (contract_start g)"
  using expanded_inv [of g]
  by (auto simp: contraction_inv_def contract_start_def Let_def uncontracted_def expanded_fields)

lemma contraction_ends:
  assumes "graph_wf g" "positive_costs g"
  shows "\<exists>st. while_option (contract_running limit) (contract_step pick options) (contract_start g) = Some st \<and> contraction_inv g st"
proof -
  have "\<exists>st. while_option (contract_running limit) (contract_step pick options) (contract_start g) = Some st"
  proof (rule wf_rel_while_option_Some [where P = "contraction_inv g"])
    show "wf (inv_image (less_than <*lex*> (less_than <*lex*> less_than)) (contraction_measure g pick options))" by auto
  qed (use contract_step_inv contract_start_inv [OF assms] in \<open>auto simp: contract_running_def\<close>)
  then obtain st where st: "while_option (contract_running limit) (contract_step pick options) (contract_start g) = Some st" by blast
  have "contraction_inv g st"
    by (rule while_option_rule [of "contraction_inv g", OF _ st])
      (use contract_step_inv contract_start_inv [OF assms] in \<open>auto simp: contract_running_def\<close>)
  with st show ?thesis by blast
qed


section \<open>The search graphs\<close>

definition ups :: "overlay \<Rightarrow> nat \<Rightarrow> arc list" where
  "ups ov u = csr_row (ov_upOffsets ov) (ov_upArcs ov) u"

definition downs :: "overlay \<Rightarrow> nat \<Rightarrow> arc list" where
  "downs ov v = csr_row (ov_downOffsets ov) (ov_downArcs ov) v"

text \<open>The arcs of the two graphs as arcs of the road: a downward arc is stored at its end.\<close>

definition up_arc :: "overlay \<Rightarrow> nat \<Rightarrow> nat \<Rightarrow> nat \<Rightarrow> nat \<Rightarrow> bool" where
  "up_arc ov u v c m \<longleftrightarrow> arc_of v c m \<in> set (ups ov u)"

definition down_arc :: "overlay \<Rightarrow> nat \<Rightarrow> nat \<Rightarrow> nat \<Rightarrow> nat \<Rightarrow> bool" where
  "down_arc ov u v c m \<longleftrightarrow> arc_of u c m \<in> set (downs ov v)"

definition up_cost :: "graph \<Rightarrow> overlay \<Rightarrow> nat \<Rightarrow> nat \<Rightarrow> nat \<Rightarrow> bool" where
  "up_cost g ov u v c \<longleftrightarrow> u < length (g_edges g) \<and> (\<exists>m. up_arc ov u v c m)"

definition down_cost :: "graph \<Rightarrow> overlay \<Rightarrow> nat \<Rightarrow> nat \<Rightarrow> nat \<Rightarrow> bool" where
  "down_cost g ov u v c \<longleftrightarrow> v < length (g_edges g) \<and> (\<exists>m. down_arc ov u v c m)"

definition any_cost :: "graph \<Rightarrow> overlay \<Rightarrow> nat \<Rightarrow> nat \<Rightarrow> nat \<Rightarrow> bool" where
  "any_cost g ov u v c \<longleftrightarrow> up_cost g ov u v c \<or> down_cost g ov u v c"

text \<open>
  What an overlay must give its reader: the arcs of both graphs stay in range and are legal turns or stand for two
  others; and every legal sequence of turns has a counterpart no dearer that goes up and then down.
\<close>

definition overlay_ok :: "graph \<Rightarrow> overlay \<Rightarrow> bool" where
  "overlay_ok g ov \<longleftrightarrow>
     (\<forall>u v c m. u < length (g_edges g) \<longrightarrow> up_arc ov u v c m \<longrightarrow>
        v < length (g_edges g) \<and> 0 < c \<and> justified g (any_cost g ov) u v c m) \<and>
     (\<forall>u v c m. v < length (g_edges g) \<longrightarrow> down_arc ov u v c m \<longrightarrow>
        u < length (g_edges g) \<and> 0 < c \<and> justified g (any_cost g ov) u v c m) \<and>
     (\<forall>s t c. walk_in (turn_costs g) UNIV s t c \<longrightarrow>
        (\<exists>x a b. walk_in (up_cost g ov) UNIV s x a \<and> walk_in (down_cost g ov) UNIV x t b \<and> a + b \<le> c)) \<and>
     (\<forall>v<length (g_nodes g). \<forall>i. i \<in> set (csr_row (ov_incomingOffsets ov) (ov_incomingEdges ov) v) \<longleftrightarrow>
        i < length (g_edges g) \<and> ed_target (g_edges g ! i) = v) \<and>
     length (ov_incomingOffsets ov) = length (g_nodes g) + 1"

lemma rows_set: "(k, x) \<in> set (rows n f) \<longleftrightarrow> k < n \<and> x \<in> set (f k)"
  by (auto simp: rows_def)

lemma overlay_rows:
  assumes "u < length (g_edges g)"
  shows "set (ups (overlay_of g w) u) = set (upward w u)" "set (downs (overlay_of g w) u) = set (downward w u)"
proof -
  have keys: "\<forall>k\<in>set (map fst (rows n f)). k < n" for n and f :: "nat \<Rightarrow> arc list" by (auto simp: rows_set)
  show "set (ups (overlay_of g w) u) = set (upward w u)" "set (downs (overlay_of g w) u) = set (downward w u)"
    unfolding ups_def downs_def overlay_of_def Let_def overlay.simps
    using csr_row_set [OF keys assms] by (auto simp: rows_set assms)
qed

lemma overlay_incoming:
  assumes "graph_wf g" "v < length (g_nodes g)"
  shows "i \<in> set (csr_row (ov_incomingOffsets (overlay_of g w)) (ov_incomingEdges (overlay_of g w)) v) \<longleftrightarrow>
    i < length (g_edges g) \<and> ed_target (g_edges g ! i) = v"
proof -
  let ?ts = "map (\<lambda>i. (ed_target (g_edges g ! i), i)) [0..<length (g_edges g)]"
  have "\<forall>k\<in>set (map fst ?ts). k < length (g_nodes g)" using edge_in_range [OF assms(1)] by auto
  from csr_row_set [OF this assms(2), of i 0] show ?thesis
    unfolding overlay_of_def Let_def overlay.simps by auto
qed

text \<open>Up and down arcs together are the arcs of the working graph: one end always has at least the other's rank.\<close>

lemma overlay_arcs:
  assumes "working_ok (length (g_edges g)) w" "u < length (g_edges g)" "v < length (g_edges g)"
  shows "up_arc (overlay_of g w) u v c m \<longleftrightarrow> arcs (length (g_edges g)) w u v c m \<and> rank w u \<le> rank w v"
    "down_arc (overlay_of g w) u v c m \<longleftrightarrow> arcs (length (g_edges g)) w u v c m \<and> rank w v \<le> rank w u"
  using assms working_sym [OF assms, of c m]
  by (auto simp: up_arc_def down_arc_def overlay_rows upward_def downward_def arcs_def)

lemma overlay_range:
  assumes "working_ok (length (g_edges g)) w"
  shows "u < length (g_edges g) \<Longrightarrow> up_arc (overlay_of g w) u v c m \<Longrightarrow> v < length (g_edges g)"
    "v < length (g_edges g) \<Longrightarrow> down_arc (overlay_of g w) u v c m \<Longrightarrow> u < length (g_edges g)"
proof -
  have t: "u < length (g_edges g) \<Longrightarrow> a \<in> set (forEachOut w u) \<Longrightarrow> ar_target a < length (g_edges g)"
    "u < length (g_edges g) \<Longrightarrow> a \<in> set (forEachIn w u) \<Longrightarrow> ar_target a < length (g_edges g)" for u a
    using assms by (simp_all add: working_ok_def)
  show "u < length (g_edges g) \<Longrightarrow> up_arc (overlay_of g w) u v c m \<Longrightarrow> v < length (g_edges g)"
    using t(1) [of u "arc_of v c m"] by (simp add: up_arc_def overlay_rows upward_def)
  show "v < length (g_edges g) \<Longrightarrow> down_arc (overlay_of g w) u v c m \<Longrightarrow> u < length (g_edges g)"
    using t(2) [of v "arc_of u c m"] by (simp add: down_arc_def overlay_rows downward_def)
qed

lemma overlay_any:
  assumes "working_ok (length (g_edges g)) w"
  shows "any_cost g (overlay_of g w) = costs_of (length (g_edges g)) w"
proof (intro ext)
  fix u v c
  have "any_cost g (overlay_of g w) u v c \<longleftrightarrow> u < length (g_edges g) \<and> v < length (g_edges g) \<and>
      (\<exists>m. up_arc (overlay_of g w) u v c m \<or> down_arc (overlay_of g w) u v c m)"
    unfolding any_cost_def up_cost_def down_cost_def using overlay_range [OF assms] by blast
  also have "\<dots> \<longleftrightarrow> costs_of (length (g_edges g)) w u v c"
    unfolding costs_of_def using overlay_arcs [OF assms] nat_le_linear [of "rank w u" "rank w v"] by (auto simp: arcs_def)
  finally show "any_cost g (overlay_of g w) u v c = costs_of (length (g_edges g)) w u v c" .
qed

lemma climb_up:
  assumes "climb (costs_of (length (g_edges g)) w) (remaining w') r s x a" "working_ok (length (g_edges g)) w"
    and "\<forall>u v. u \<notin> remaining w' \<longrightarrow> v \<in> remaining w' \<or> r u < r v \<longrightarrow> rank w u \<le> rank w v"
  shows "walk_in (up_cost g (overlay_of g w)) UNIV s x a"
  using assms(1)
proof (induction rule: climb.induct)
  case (climb_step u v c x d)
  then obtain m where m: "arcs (length (g_edges g)) w v x d m" by (auto simp: costs_of_def)
  moreover have "rank w v \<le> rank w x" using climb_step.hyps(2,4) assms(3) by blast
  ultimately have "up_cost g (overlay_of g w) v x d"
    using overlay_arcs(1) [OF assms(2)] unfolding up_cost_def arcs_def by blast
  from walk_snoc [OF climb_step.IH this] show ?case by simp
qed (auto intro: walk_refl)

lemma descend_down:
  assumes "descend (costs_of (length (g_edges g)) w) (remaining w') r y t b" "working_ok (length (g_edges g)) w"
    and "\<forall>u v. u \<notin> remaining w' \<longrightarrow> v \<in> remaining w' \<or> r u < r v \<longrightarrow> rank w u \<le> rank w v"
  shows "walk_in (down_cost g (overlay_of g w)) UNIV y t b"
  using assms(1)
proof (induction rule: descend.induct)
  case (descend_step v x d u c)
  then obtain m where m: "arcs (length (g_edges g)) w u v c m" by (auto simp: costs_of_def)
  moreover have "rank w v \<le> rank w u" using descend_step.hyps(2,4) assms(3) by blast
  ultimately have "down_cost g (overlay_of g w) u v c"
    using overlay_arcs(2) [OF assms(2)] unfolding down_cost_def arcs_def by blast
  from walk_step [OF UNIV_I this descend_step.IH] show ?case .
qed (auto intro: walk_refl)

lemma core_up:
  assumes "walk_in (costs_of (length (g_edges g)) w) S x y b" "working_ok (length (g_edges g)) w"
    and "\<forall>u\<in>S. \<forall>v\<in>S. rank w u \<le> rank w v"
  shows "walk_in (up_cost g (overlay_of g w)) UNIV x y b"
  using assms(1)
proof (induction rule: walk_in.induct)
  case (walk_step u v c x d)
  then obtain m where m: "arcs (length (g_edges g)) w u v c m" by (auto simp: costs_of_def)
  moreover have "rank w u \<le> rank w v" using walk_step.hyps(1) walk_start [OF walk_step.hyps(3)] assms(3) by blast
  ultimately have "up_cost g (overlay_of g w) u v c"
    using overlay_arcs(1) [OF assms(2)] unfolding up_cost_def arcs_def by blast
  from walk_in.walk_step [OF UNIV_I this walk_step.IH] show ?case .
qed (auto intro: walk_refl)

lemma rank_core_fields [simp]: "forEachOut (rank_core n w) = forEachOut w" "forEachIn (rank_core n w) = forEachIn w"
  "working_ok n' (rank_core n w) = working_ok n' w" "costs_of n' (rank_core n w) = costs_of n' w"
  "arcs n' (rank_core n w) = arcs n' w" "remaining (rank_core n w) = remaining w"
  by (simp_all add: rank_core_def forEachOut_def forEachIn_def working_ok_def costs_of_def arcs_def remaining_def fun_eq_iff)

lemma overlay_of_ok:
  assumes "contraction_inv g st" "graph_wf g"
  shows "overlay_ok g (overlay_of g (rank_core (length (g_edges g)) (cn_working st)))"
proof -
  let ?n = "length (g_edges g)" and ?w = "cn_working st" and ?r = "rank_core (length (g_edges g)) (cn_working st)"
  have inv: "working_inv g (cn_rank st) ?w" and k: "cn_rank st \<le> ?n" using assms(1) by (auto simp: contraction_inv_def)
  then have ok: "working_ok ?n ?r" by (simp add: working_inv_def)
  have just: "0 < c \<and> justified g (any_cost g (overlay_of g ?r)) u v c m" if "arcs ?n ?w u v c m" for u v c m
    using inv that unfolding overlay_any [OF ok] by (simp add: working_inv_def)
  have low: "rank ?w v < ?n" if "v \<notin> remaining ?w" for v
    using inv k that by (force simp: working_inv_def remaining_def)
  have r: "rank ?r v = (if v \<in> remaining ?w then ?n else rank ?w v)" for v by (simp add: rank_core_def remaining_def)
  have ranks: "\<forall>u v. u \<notin> remaining ?w \<longrightarrow> v \<in> remaining ?w \<or> rank ?w u < rank ?w v \<longrightarrow> rank ?r u \<le> rank ?r v"
    using low by (auto simp: r less_imp_le)
  have "\<exists>x a b. walk_in (up_cost g (overlay_of g ?r)) UNIV s x a \<and> walk_in (down_cost g (overlay_of g ?r)) UNIV x t b \<and> a + b \<le> c"
    if "walk_in (turn_costs g) UNIV s t c" for s t c
  proof -
    from inv that have "arched (costs_of ?n ?w) (remaining ?w) (rank ?w) s t c" by (simp add: working_inv_def)
    then obtain x y a b d where p: "climb (costs_of ?n ?r) (remaining ?w) (rank ?w) s x a"
      "walk_in (costs_of ?n ?r) (remaining ?w) x y b \<or> x = y \<and> b = 0"
      "descend (costs_of ?n ?r) (remaining ?w) (rank ?w) y t d" "a + b + d \<le> c" unfolding arched_def rank_core_fields by blast
    have "walk_in (up_cost g (overlay_of g ?r)) UNIV x y b"
      using p(2) core_up [OF _ ok, of "remaining ?w" x y b] by (auto simp: r intro: walk_refl)
    from walk_append [OF climb_up [OF p(1) ok ranks] this] descend_down [OF p(3) ok ranks] p(4)
    show ?thesis by blast
  qed
  moreover have "length (ov_incomingOffsets (overlay_of g ?r)) = length (g_nodes g) + 1"
    by (simp add: overlay_of_def Let_def)
  moreover have "v < ?n \<and> 0 < c \<and> justified g (any_cost g (overlay_of g ?r)) u v c m"
    if "u < ?n" "up_arc (overlay_of g ?r) u v c m" for u v c m
  proof -
    from overlay_range(1) [OF ok that] have v: "v < ?n" .
    with overlay_arcs(1) [OF ok that(1) v] that(2) just [of u v c m] show ?thesis by simp
  qed
  moreover have "u < ?n \<and> 0 < c \<and> justified g (any_cost g (overlay_of g ?r)) u v c m"
    if "v < ?n" "down_arc (overlay_of g ?r) u v c m" for u v c m
  proof -
    from overlay_range(2) [OF ok that] have u: "u < ?n" .
    with overlay_arcs(2) [OF ok u that(1)] that(2) just [of u v c m] show ?thesis by simp
  qed
  ultimately show ?thesis unfolding overlay_ok_def using overlay_incoming [OF assms(2)] by blast
qed

lemma build_overlay:
  assumes "graph_wf g" "positive_costs g" "g_edges g \<noteq> []"
  shows "\<exists>ov. buildOverlay g pick options = Some (Inr ov) \<and> overlay_ok g ov"
  using contraction_ends [OF assms(1,2)] overlay_of_ok [OF _ assms(1)] assms(3)
  unfolding buildOverlay_def by fastforce

text \<open>
  C7.  Building an overlay always ends, whatever the options, the limits of the witness searches and the heap's choices, and
  what it writes is sound and complete for the road: each arc is a legal turn at its own cost or stands for two
  arcs through its middle, and every legal sequence of turns has a counterpart, no dearer, that first goes up
  and then goes down.
\<close>

theorem build_overlay_ok:
  assumes "graph_wf g" "positive_costs g" "g_edges g \<noteq> []"
  shows "\<exists>ov. buildOverlay g pick options = Some (Inr ov) \<and> overlay_ok g ov"
  using build_overlay [OF assms] .

lemma triangle_positive: "positive_costs triangle"
  by (simp add: positive_costs_def triangle_def triangle_edge_def)

theorem build_overlay_ok_witness:
  "\<exists>ov. buildOverlay triangle first_min \<lparr>witnessSettleLimit = 200, witnessHopLimit = 5, stopAtFraction = 19 / 20\<rparr> =
     Some (Inr ov) \<and> overlay_ok triangle ov"
  by (rule build_overlay_ok [OF triangle_wf triangle_positive]) (simp add: triangle_def)

end
