(* ===== verification/Overlay.thy ===== *)
theory Overlay
  imports Contraction
begin

text \<open>
  libs/road_graph/src/overlay.cpp: the query over an overlay.  Two searches climb towards each other, a forward
  one over the upward arcs and a backward one over the downward arcs, until neither can beat the best
  meeting; then the shortcuts of the path are unpacked to edges.  Sums of costs are of 64 bits and
  too small to wrap; they are natural numbers, infinity is \<open>None\<close>.  Theorems: the query always returns, with
  a quickest legal drive or, when there is no legal drive, with nothing.
\<close>

section \<open>One direction\<close>

record direction =
  dr_cost :: "nat \<Rightarrow> nat option"
  dr_parent :: "nat \<Rightarrow> nat option"
  dr_queue :: "(nat \<times> nat) list"

definition empty_direction :: direction where
  "empty_direction = \<lparr>dr_cost = (\<lambda>v. None), dr_parent = (\<lambda>v. None), dr_queue = []\<rparr>"

definition relax :: "nat \<Rightarrow> nat \<Rightarrow> nat \<Rightarrow> direction \<Rightarrow> direction" where
  "relax node candidate source d =
     (if (case dr_cost d node of None \<Rightarrow> False | Some old \<Rightarrow> candidate \<ge> old) then d
      else d\<lparr>dr_cost := (dr_cost d)(node \<mapsto> candidate), dr_parent := (dr_parent d)(node \<mapsto> source),
             dr_queue := dr_queue d @ [(candidate, node)]\<rparr>)"

section \<open>The two searches\<close>

record via_query =
  q_forward :: direction
  q_backward :: direction
  q_best :: "nat option"
  q_meeting :: nat

fun at_least :: "nat option \<Rightarrow> nat option \<Rightarrow> bool" where
  "at_least a None \<longleftrightarrow> a = None"
| "at_least None (Some b) \<longleftrightarrow> True"
| "at_least (Some a) (Some b) \<longleftrightarrow> a \<ge> b"

definition queue_front :: "((nat \<times> nat) list \<Rightarrow> nat) \<Rightarrow> direction \<Rightarrow> nat option" where
  "queue_front pick d = (if dr_queue d = [] then None else Some (fst (fst (heap_pop pick (dr_queue d)))))"

text \<open>Taking the top of one direction's queue: check whether the searches meet, then relax its arcs.\<close>

definition expand ::
  "((nat \<times> nat) list \<Rightarrow> nat) \<Rightarrow> (nat \<Rightarrow> arc list) \<Rightarrow> direction \<Rightarrow> nat option \<Rightarrow> nat \<Rightarrow> direction \<Rightarrow>
   direction \<times> nat option \<times> nat" where
  "expand pick arcs_at other best meeting d =
     (let (current, rest) = heap_pop pick (dr_queue d); cost = fst current; node = snd current;
          d = d\<lparr>dr_queue := rest\<rparr> in
      if (case dr_cost d node of None \<Rightarrow> True | Some settled \<Rightarrow> cost > settled) then (d, best, meeting)
      else let met = (case dr_cost other node of None \<Rightarrow> (best, meeting)
                      | Some c \<Rightarrow> if at_least (Some (cost + c)) best then (best, meeting)
                                  else (Some (cost + c), node)) in
        (fold (\<lambda>a. relax (ar_target a) (cost + ar_cost a) node) (arcs_at node) d, fst met, snd met))"

definition via_step :: "overlay \<Rightarrow> ((nat \<times> nat) list \<Rightarrow> nat) \<Rightarrow> via_query \<Rightarrow> via_query" where
  "via_step ov pick st =
     (if at_least (queue_front pick (q_backward st)) (queue_front pick (q_forward st))
      then let (d, best, meeting) = expand pick (ups ov) (q_backward st) (q_best st) (q_meeting st) (q_forward st) in
        st\<lparr>q_forward := d, q_best := best, q_meeting := meeting\<rparr>
      else let (d, best, meeting) = expand pick (downs ov) (q_forward st) (q_best st) (q_meeting st) (q_backward st) in
        st\<lparr>q_backward := d, q_best := best, q_meeting := meeting\<rparr>)"

definition via_running :: "((nat \<times> nat) list \<Rightarrow> nat) \<Rightarrow> via_query \<Rightarrow> bool" where
  "via_running pick st \<longleftrightarrow> (dr_queue (q_forward st) \<noteq> [] \<or> dr_queue (q_backward st) \<noteq> []) \<and>
     \<not> (at_least (queue_front pick (q_forward st)) (q_best st) \<and> at_least (queue_front pick (q_backward st)) (q_best st))"

definition overlay_incomingEdges :: "overlay \<Rightarrow> nat \<Rightarrow> nat list" where
  "overlay_incomingEdges ov node =
     (if node + 1 \<ge> length (ov_incomingOffsets ov) then []
      else csr_row (ov_incomingOffsets ov) (ov_incomingEdges ov) node)"

definition via_forward :: "graph \<Rightarrow> nat \<Rightarrow> direction" where
  "via_forward g from = fold (\<lambda>i. relax i (costDs (g_edges g ! i)) i) (edgesFrom g from) empty_direction"

definition via_backward :: "overlay \<Rightarrow> nat \<Rightarrow> direction" where
  "via_backward ov to = fold (\<lambda>i. relax i 0 i) (overlay_incomingEdges ov to) empty_direction"

section \<open>Unpacking\<close>

text \<open>The cheapest arc between two nodes, the first of several; \<open>None\<close> of a recursion that does not end.\<close>

definition cheapest_to :: "nat \<Rightarrow> arc list \<Rightarrow> arc option \<Rightarrow> arc option" where
  "cheapest_to t as found = fold (\<lambda>a found.
     if ar_target a = t \<and> (case found of None \<Rightarrow> True | Some b \<Rightarrow> ar_cost a < ar_cost b) then Some a else found) as found"

partial_function (option) unpack :: "overlay \<Rightarrow> nat \<Rightarrow> nat \<Rightarrow> nat list \<Rightarrow> nat list option" where
  "unpack ov u v out =
     (case cheapest_to u (downs ov v) (cheapest_to v (ups ov u) None) of
        None \<Rightarrow> Some (out @ [v])
      | Some found \<Rightarrow>
          if ar_middle found = kNoMiddle then Some (out @ [v])
          else Option.bind (unpack ov u (ar_middle found) out) (unpack ov (ar_middle found) v))"

text \<open>The hops from the meeting back to a seed, the last hop of the drive first.\<close>

partial_function (option) back_hops ::
  "(nat \<Rightarrow> nat option) \<Rightarrow> nat \<Rightarrow> (nat \<times> nat) list \<Rightarrow> (nat \<times> (nat \<times> nat) list) option" where
  "back_hops parent node hops =
     (case parent node of None \<Rightarrow> Some (node, hops)
      | Some p \<Rightarrow> if p = node then Some (node, hops) else back_hops parent p (hops @ [(p, node)]))"

fun unpack_hops :: "overlay \<Rightarrow> (nat \<times> nat) list \<Rightarrow> nat list \<Rightarrow> nat list option" where
  "unpack_hops ov [] out = Some out"
| "unpack_hops ov ((u, v) # hops) out = Option.bind (unpack ov u v out) (unpack_hops ov hops)"

partial_function (option) follow_parents ::
  "overlay \<Rightarrow> (nat \<Rightarrow> nat option) \<Rightarrow> nat \<Rightarrow> nat list \<Rightarrow> nat list option" where
  "follow_parents ov parent node out =
     (case parent node of None \<Rightarrow> Some out
      | Some p \<Rightarrow> if p = node then Some out else Option.bind (unpack ov node p out) (follow_parents ov parent p))"

definition via_edges :: "overlay \<Rightarrow> via_query \<Rightarrow> nat list option" where
  "via_edges ov st =
     Option.bind (back_hops (dr_parent (q_forward st)) (q_meeting st) [])
       (\<lambda>(seed, hops). Option.bind (unpack_hops ov (rev hops) [seed])
         (follow_parents ov (dr_parent (q_backward st)) (q_meeting st)))"

section \<open>The query\<close>

definition add_via_edge :: "graph \<Rightarrow> nat \<Rightarrow> route \<Rightarrow> route" where
  "add_via_edge g i r = (add_edge g i r)\<lparr>ro_durationS := dadd (ro_durationS r) (edge_cost g i)\<rparr>"

definition via_route :: "graph \<Rightarrow> nat list \<Rightarrow> route" where
  "via_route g es =
     (let r = fold (add_via_edge g) es empty_route in
      r\<lparr>ro_segmentStarts := ro_segmentStarts r @ [length (ro_geometry r) div 2]\<rparr>)"

text \<open>
  A direction that labelled nothing has an empty queue, as nothing has been taken out yet.
  The outer \<open>None\<close> is a query that does not return; the inner one is \<open>nullopt\<close>.
\<close>

definition findRouteVia ::
  "graph \<Rightarrow> overlay \<Rightarrow> ((nat \<times> nat) list \<Rightarrow> nat) \<Rightarrow> nat \<Rightarrow> nat \<Rightarrow> route option option" where
  "findRouteVia g ov pick from to =
     (if from = to then Some (Some empty_route)
      else let forward = via_forward g from; backward = via_backward ov to in
        if dr_queue forward = [] \<or> dr_queue backward = [] then Some None
        else case while_option (via_running pick) (via_step ov pick)
               \<lparr>q_forward = forward, q_backward = backward, q_best = None, q_meeting = 0\<rparr> of
          None \<Rightarrow> None
        | Some st \<Rightarrow> if q_best st = None then Some None
                     else map_option (\<lambda>es. Some (via_route g es)) (via_edges ov st))"

declare unpack.simps [code] back_hops.simps [code] follow_parents.simps [code]


section \<open>Labels of one direction\<close>

definition labelled_open :: "direction \<Rightarrow> nat \<Rightarrow> bool" where
  "labelled_open d v \<longleftrightarrow> (\<exists>k. dr_cost d v = Some k \<and> (k, v) \<in> set (dr_queue d))"

text \<open>What relaxing does to the labels: they only go down, and one that does is open again.\<close>

definition refined :: "direction \<Rightarrow> direction \<Rightarrow> bool" where
  "refined d d' \<longleftrightarrow> (\<forall>v. dr_cost d' v = dr_cost d v \<or> labelled_open d' v) \<and>
     (\<forall>v. labelled_open d v \<longrightarrow> labelled_open d' v) \<and>
     (\<forall>v k. dr_cost d v = Some k \<longrightarrow> (\<exists>k'\<le>k. dr_cost d' v = Some k'))"

lemma refined_refl [simp]: "refined d d"
  by (simp add: refined_def)

lemma refined_trans: "refined a b \<Longrightarrow> refined b c \<Longrightarrow> refined a c"
  unfolding refined_def by (metis order_trans)

lemma relax_cases:
  obtains (keep) "relax node candidate source d = d" "\<exists>old\<le>candidate. dr_cost d node = Some old"
  | (lower) "relax node candidate source d = d\<lparr>dr_cost := (dr_cost d)(node \<mapsto> candidate),
        dr_parent := (dr_parent d)(node \<mapsto> source), dr_queue := dr_queue d @ [(candidate, node)]\<rparr>"
      "\<forall>old. dr_cost d node = Some old \<longrightarrow> candidate < old"
proof (cases "\<exists>old\<le>candidate. dr_cost d node = Some old")
  case True
  then show ?thesis by (intro keep) (auto simp: relax_def)
next
  case False
  then have less: "\<forall>old. dr_cost d node = Some old \<longrightarrow> candidate < old" by (meson not_le)
  moreover from less have "\<not> (case dr_cost d node of None \<Rightarrow> False | Some old \<Rightarrow> candidate \<ge> old)"
    by (simp add: not_le split: option.split)
  ultimately show ?thesis by (intro lower) (simp_all add: relax_def)
qed

lemma relax_refined: "refined d (relax node candidate source d)"
  by (cases rule: relax_cases [of node candidate source d]) (auto simp: refined_def labelled_open_def)

lemma relax_label: "\<exists>k\<le>candidate. dr_cost (relax node candidate source d) node = Some k"
  by (cases rule: relax_cases [of node candidate source d]) auto

text \<open>How far a direction still is from being done.\<close>

definition unlabelled :: "nat \<Rightarrow> direction \<Rightarrow> nat" where
  "unlabelled n d = card {v. v < n \<and> dr_cost d v = None}"

definition label_sum :: "nat \<Rightarrow> direction \<Rightarrow> nat" where
  "label_sum n d = (\<Sum>v<n. case dr_cost d v of None \<Rightarrow> 0 | Some k \<Rightarrow> k)"

definition progress :: "nat \<Rightarrow> direction \<Rightarrow> direction \<Rightarrow> bool" where
  "progress n d d' \<longleftrightarrow> d' = d \<or> unlabelled n d' < unlabelled n d \<or>
     unlabelled n d' = unlabelled n d \<and> label_sum n d' < label_sum n d"

lemma progress_trans: "progress n a b \<Longrightarrow> progress n b c \<Longrightarrow> progress n a c"
  by (auto simp: progress_def)

lemma relax_progress:
  assumes "node < n"
  shows "progress n d (relax node candidate source d)"
proof (cases rule: relax_cases [of node candidate source d])
  case lower
  let ?d = "relax node candidate source d"
  show ?thesis
  proof (cases "dr_cost d node")
    case None
    have "{v. v < n \<and> dr_cost ?d v = None} = {v. v < n \<and> dr_cost d v = None} - {node}"
      unfolding lower(1) by auto
    moreover have "node \<in> {v. v < n \<and> dr_cost d v = None}" using None assms by simp
    ultimately have "unlabelled n ?d < unlabelled n d"
      unfolding unlabelled_def using card_Diff1_less [of "{v. v < n \<and> dr_cost d v = None}" node] by simp
    then show ?thesis by (simp add: progress_def)
  next
    case (Some old)
    then have "{v. v < n \<and> dr_cost ?d v = None} = {v. v < n \<and> dr_cost d v = None}"
      unfolding lower(1) by auto
    moreover have "label_sum n ?d < label_sum n d"
      unfolding label_sum_def
    proof (rule sum_strict_mono_ex1)
      show "\<forall>v\<in>{..<n}. (case dr_cost ?d v of None \<Rightarrow> 0 | Some k \<Rightarrow> k) \<le> (case dr_cost d v of None \<Rightarrow> 0 | Some k \<Rightarrow> k)"
        using Some lower by simp
      show "\<exists>v\<in>{..<n}. (case dr_cost ?d v of None \<Rightarrow> 0 | Some k \<Rightarrow> k) < (case dr_cost d v of None \<Rightarrow> 0 | Some k \<Rightarrow> k)"
        using assms Some lower by (intro bexI [of _ node]) simp_all
    qed simp
    ultimately show ?thesis by (simp add: progress_def unlabelled_def)
  qed
qed (simp add: progress_def)

locale label_search =
  fixes n :: nat
    and seed :: "nat \<Rightarrow> nat \<Rightarrow> bool"
    and edge :: "nat \<Rightarrow> nat \<Rightarrow> nat \<Rightarrow> bool"
  assumes seed_range: "seed v c \<Longrightarrow> v < n"
    and edge_range: "edge u v c \<Longrightarrow> u < n \<Longrightarrow> v < n"
    and edge_positive: "edge u v c \<Longrightarrow> u < n \<Longrightarrow> 0 < c"
begin

definition parented :: "direction \<Rightarrow> nat \<Rightarrow> nat \<Rightarrow> bool" where
  "parented d v k \<longleftrightarrow> (\<exists>p. dr_parent d v = Some p \<and>
     (p = v \<and> seed v k \<or> p \<noteq> v \<and> (\<exists>kp c. dr_cost d p = Some kp \<and> edge p v c \<and> kp + c \<le> k)))"

definition labels :: "direction \<Rightarrow> bool" where
  "labels d \<longleftrightarrow> (\<forall>v k. dr_cost d v = Some k \<longrightarrow> v < n \<and> parented d v k) \<and>
     (\<forall>c v. (c, v) \<in> set (dr_queue d) \<longrightarrow> (\<exists>k\<le>c. dr_cost d v = Some k))"

definition expanded_at :: "direction \<Rightarrow> nat \<Rightarrow> bool" where
  "expanded_at d v \<longleftrightarrow> (\<forall>k w c. dr_cost d v = Some k \<longrightarrow> edge v w c \<longrightarrow> (\<exists>k'\<le>k + c. dr_cost d w = Some k'))"

definition seeded :: "direction \<Rightarrow> bool" where
  "seeded d \<longleftrightarrow> (\<forall>v c. seed v c \<longrightarrow> (\<exists>k\<le>c. dr_cost d v = Some k))"

definition dir_inv :: "direction \<Rightarrow> bool" where
  "dir_inv d \<longleftrightarrow> labels d \<and> seeded d \<and> (\<forall>v. labelled_open d v \<or> expanded_at d v)"

lemma refined_seeded: "refined d d' \<Longrightarrow> seeded d \<Longrightarrow> seeded d'"
  unfolding refined_def seeded_def by (meson order_trans)

lemma refined_expanded: "refined d d' \<Longrightarrow> labelled_open d v \<or> expanded_at d v \<Longrightarrow> labelled_open d' v \<or> expanded_at d' v"
proof (elim disjE)
  assume r: "refined d d'" and e: "expanded_at d v"
  show ?thesis
  proof (cases "labelled_open d' v")
    case False
    with r have same: "dr_cost d' v = dr_cost d v" by (auto simp: refined_def)
    show ?thesis
      using e r unfolding expanded_at_def same refined_def by (meson order_trans)
  qed simp
qed (auto simp: refined_def)

text \<open>One relaxation, of an edge from a labelled node or of a seed.\<close>

lemma relax_labels:
  assumes "labels d" "w < n"
    and "source = w \<and> seed w x \<or> source \<noteq> w \<and> (\<exists>kp c. dr_cost d source = Some kp \<and> edge source w c \<and> x = kp + c)"
  shows "labels (relax w x source d)"
proof (cases rule: relax_cases [of w x source d])
  case lower
  let ?d = "relax w x source d"
  have ref: "refined d ?d" by (rule relax_refined)
  have "v < n \<and> parented ?d v k" if v: "dr_cost ?d v = Some k" for v k
  proof (cases "v = w")
    case True
    with v lower(1) have "k = x" by simp
    with True assms lower(1) show ?thesis by (fastforce simp: parented_def)
  next
    case False
    with v lower(1) have old: "dr_cost d v = Some k" "dr_parent ?d v = dr_parent d v" by simp_all
    with assms(1) have "v < n" "parented d v k" by (auto simp: labels_def)
    moreover have "\<exists>kp' c. dr_cost ?d p = Some kp' \<and> edge p v c \<and> kp' + c \<le> k"
      if "dr_cost d p = Some kp" "edge p v c" "kp + c \<le> k" for p kp c
    proof -
      from ref that(1) obtain kp' where "kp' \<le> kp" "dr_cost ?d p = Some kp'" unfolding refined_def by blast
      with that(2,3) show ?thesis by (intro exI [of _ kp'] exI [of _ c]) simp
    qed
    ultimately have "parented ?d v k" unfolding parented_def old(2) by blast
    with \<open>v < n\<close> show ?thesis ..
  qed
  moreover have "\<exists>k\<le>c. dr_cost ?d v = Some k" if "(c, v) \<in> set (dr_queue ?d)" for c v
  proof (cases "(c, v) \<in> set (dr_queue d)")
    case True
    with assms(1) ref show ?thesis unfolding labels_def refined_def by (meson order_trans)
  next
    case False
    with that lower(1) show ?thesis by simp
  qed
  ultimately show ?thesis by (simp add: labels_def)
qed (use assms(1) in simp)

text \<open>Relaxing all arcs of a node with its label.\<close>

lemma relax_all:
  assumes "labels d" "dr_cost d v = Some k" "v < n" "\<forall>a\<in>set as. edge v (ar_target a) (ar_cost a)"
  defines "d' \<equiv> fold (\<lambda>a. relax (ar_target a) (k + ar_cost a) v) as d"
  shows "labels d' \<and> dr_cost d' v = Some k \<and> refined d d' \<and> progress n d d' \<and>
    (\<forall>a\<in>set as. \<exists>k'\<le>k + ar_cost a. dr_cost d' (ar_target a) = Some k')"
  using assms(1,2,4) unfolding d'_def
proof (induction as arbitrary: d)
  case (Cons a as)
  let ?d = "relax (ar_target a) (k + ar_cost a) v d"
  let ?e = "fold (\<lambda>a. relax (ar_target a) (k + ar_cost a) v) as ?d"
  from Cons.prems(3) have e: "edge v (ar_target a) (ar_cost a)" by simp
  have t: "ar_target a < n" "0 < ar_cost a" using edge_range [OF e assms(3)] edge_positive [OF e assms(3)] .
  have "labels ?d"
  proof (cases "ar_target a = v")
    case True
    then have "?d = d" using Cons.prems(2) by (simp add: relax_def)
    with Cons.prems(1) show ?thesis by simp
  next
    case False
    with Cons.prems(1,2) t(1) e show ?thesis by (intro relax_labels) auto
  qed
  moreover have "dr_cost ?d v = Some k"
    using Cons.prems(2) by (cases "ar_target a = v") (simp_all add: relax_def)
  ultimately have IH: "labels ?e" "dr_cost ?e v = Some k" "refined ?d ?e" "progress n ?d ?e"
    "\<forall>a\<in>set as. \<exists>k'\<le>k + ar_cost a. dr_cost ?e (ar_target a) = Some k'"
    using Cons.IH [of ?d] Cons.prems(3) by simp_all
  obtain k' where "k' \<le> k + ar_cost a" "dr_cost ?d (ar_target a) = Some k'" using relax_label by blast
  with IH(3) have "\<exists>k'\<le>k + ar_cost a. dr_cost ?e (ar_target a) = Some k'"
    unfolding refined_def by (meson order_trans)
  with IH refined_trans [OF relax_refined IH(3)] progress_trans [OF relax_progress [OF t(1)] IH(4)]
  show ?case by simp
qed (simp add: progress_def)

text \<open>The seeds.\<close>

lemma seed_all:
  assumes "labels d" "\<forall>i\<in>set is. seed i (c i)"
  shows "labels (fold (\<lambda>i. relax i (c i) i) is d) \<and> refined d (fold (\<lambda>i. relax i (c i) i) is d) \<and>
    (\<forall>i\<in>set is. \<exists>k\<le>c i. dr_cost (fold (\<lambda>i. relax i (c i) i) is d) i = Some k)"
  using assms
proof (induction "is" arbitrary: d)
  case (Cons i "is")
  let ?d = "relax i (c i) i d" and ?e = "fold (\<lambda>i. relax i (c i) i) is (relax i (c i) i d)"
  have "labels ?d" using Cons.prems seed_range by (intro relax_labels) auto
  with Cons.IH [of ?d] Cons.prems(2) have IH: "labels ?e" "refined ?d ?e" "\<forall>i\<in>set is. \<exists>k\<le>c i. dr_cost ?e i = Some k"
    by simp_all
  obtain k where "k \<le> c i" "dr_cost ?d i = Some k" using relax_label by blast
  with IH(2) have "\<exists>k\<le>c i. dr_cost ?e i = Some k" unfolding refined_def by (meson order_trans)
  with IH refined_trans [OF relax_refined IH(2)] show ?case by simp
qed simp

lemma labels_empty: "labels empty_direction"
  by (simp add: labels_def empty_direction_def)

lemma labelled_from_empty:
  assumes "refined empty_direction d"
  shows "dr_cost d v = None \<or> labelled_open d v"
  using assms by (auto simp: refined_def empty_direction_def)

lemma seeds_inv:
  assumes "\<forall>i k. seed i k \<longleftrightarrow> i \<in> set is \<and> k = c i"
  shows "dir_inv (fold (\<lambda>i. relax i (c i) i) is empty_direction)"
proof -
  note s = seed_all [OF labels_empty, of "is" c]
  let ?d = "fold (\<lambda>i. relax i (c i) i) is empty_direction"
  have "labelled_open ?d v \<or> expanded_at ?d v" for v
    using labelled_from_empty [of ?d v] s assms by (auto simp: expanded_at_def)
  with s assms show ?thesis by (auto simp: dir_inv_def seeded_def)
qed

text \<open>Of a walk from a seed either the end is labelled no dearer, or something open is.\<close>

lemma walk_labels:
  assumes "dir_inv d" "walk_in edge UNIV s x a" "seed s c0"
  shows "(\<exists>k\<le>c0 + a. dr_cost d x = Some k) \<or> (\<exists>v k. (k, v) \<in> set (dr_queue d) \<and> k \<le> c0 + a)"
proof -
  have "(\<exists>k\<le>c. dr_cost d s = Some k) \<Longrightarrow>
      (\<exists>k\<le>c + a. dr_cost d x = Some k) \<or> (\<exists>v k. (k, v) \<in> set (dr_queue d) \<and> k \<le> c + a)" for c
    using assms(2)
  proof (induction arbitrary: c rule: walk_in.induct)
    case (walk_step u v e w a)
    from walk_step.prems obtain k where k: "k \<le> c" "dr_cost d u = Some k" by blast
    show ?case
    proof (cases "labelled_open d u")
      case True
      with k show ?thesis unfolding labelled_open_def by (metis option.inject trans_le_add1)
    next
      case False
      with assms(1) have "expanded_at d u" by (auto simp: dir_inv_def)
      with k(2) walk_step.hyps(2) obtain k' where "k' \<le> k + e" "dr_cost d v = Some k'" unfolding expanded_at_def by blast
      with k(1) have "\<exists>k\<le>c + e. dr_cost d v = Some k" by (intro exI [of _ k']) simp
      from walk_step.IH [OF this] show ?thesis by (simp add: add.assoc)
    qed
  qed auto
  with assms(1,3) show ?thesis by (auto simp: dir_inv_def seeded_def)
qed

end


section \<open>Meetings\<close>

text \<open>A node labelled on both sides has been checked unless one of its labels is still open.\<close>

definition met_ok :: "direction \<Rightarrow> direction \<Rightarrow> nat option \<Rightarrow> nat \<Rightarrow> bool" where
  "met_ok d other best meeting \<longleftrightarrow>
     (\<forall>v k j. dr_cost d v = Some k \<longrightarrow> dr_cost other v = Some j \<longrightarrow>
        labelled_open d v \<or> labelled_open other v \<or> (\<exists>b\<le>k + j. best = Some b)) \<and>
     (\<forall>b. best = Some b \<longrightarrow> (\<exists>k j. dr_cost d meeting = Some k \<and> dr_cost other meeting = Some j \<and> k + j \<le> b))"

lemma met_ok_sym: "met_ok d other best meeting \<longleftrightarrow> met_ok other d best meeting"
proof -
  have "met_ok other d best meeting" if "met_ok d other best meeting" for d other
    unfolding met_ok_def
  proof (intro conjI allI impI)
    fix v k j assume "dr_cost other v = Some k" "dr_cost d v = Some j"
    with that have "labelled_open d v \<or> labelled_open other v \<or> (\<exists>b\<le>j + k. best = Some b)" unfolding met_ok_def by blast
    then show "labelled_open other v \<or> labelled_open d v \<or> (\<exists>b\<le>k + j. best = Some b)" by (auto simp: add.commute)
  next
    fix b assume "best = Some b"
    with that obtain k j where "dr_cost d meeting = Some k" "dr_cost other meeting = Some j" "k + j \<le> b"
      unfolding met_ok_def by blast
    then show "\<exists>k j. dr_cost other meeting = Some k \<and> dr_cost d meeting = Some j \<and> k + j \<le> b"
      by (intro exI [of _ j] exI [of _ k]) simp
  qed
  then show ?thesis by blast
qed

lemma met_ok_refined:
  assumes "met_ok d other best meeting" "refined d d'"
  shows "met_ok d' other best meeting"
  unfolding met_ok_def
proof (intro conjI allI impI)
  fix v k j assume kj: "dr_cost d' v = Some k" "dr_cost other v = Some j"
  show "labelled_open d' v \<or> labelled_open other v \<or> (\<exists>b\<le>k + j. best = Some b)"
  proof (cases "labelled_open d' v")
    case False
    with assms(2) have "dr_cost d' v = dr_cost d v" "\<not> labelled_open d v" by (auto simp: refined_def)
    with kj(1) have "dr_cost d v = Some k" "\<not> labelled_open d v" by simp_all
    with assms(1) kj(2) show ?thesis unfolding met_ok_def by blast
  qed simp
next
  fix b assume "best = Some b"
  with assms(1) obtain k j where kj: "dr_cost d meeting = Some k" "dr_cost other meeting = Some j" "k + j \<le> b"
    unfolding met_ok_def by blast
  with assms(2) obtain k' where "k' \<le> k" "dr_cost d' meeting = Some k'" unfolding refined_def by blast
  with kj show "\<exists>k j. dr_cost d' meeting = Some k \<and> dr_cost other meeting = Some j \<and> k + j \<le> b"
    by (intro exI [of _ k'] exI [of _ j]) simp
qed

definition direction_measure :: "nat \<Rightarrow> direction \<Rightarrow> nat \<times> nat \<times> nat" where
  "direction_measure n d = (unlabelled n d, label_sum n d, length (dr_queue d))"

text \<open>The check of one popped node against the other side.\<close>

definition meet :: "direction \<Rightarrow> nat \<Rightarrow> nat \<Rightarrow> nat option \<Rightarrow> nat \<Rightarrow> nat option \<times> nat" where
  "meet other node cost best meeting = (case dr_cost other node of None \<Rightarrow> (best, meeting)
     | Some c \<Rightarrow> if at_least (Some (cost + c)) best then (best, meeting) else (Some (cost + c), node))"

lemma at_least_Some: "at_least (Some a) best \<longleftrightarrow> (\<exists>b\<le>a. best = Some b)"
  by (cases best) auto

text \<open>Popping a node: its label is open only through other entries, so it has to be checked and expanded.\<close>

lemma popped_met:
  assumes "met_ok d other best meeting" "dr_queue d \<noteq> []" "heap_pop pick (dr_queue d) = ((k, v), rest)"
    and "dr_cost d v = Some k" "meet other v k best meeting = (best', meeting')"
  shows "met_ok (d\<lparr>dr_queue := rest\<rparr>) other best' meeting'"
proof -
  let ?d = "d\<lparr>dr_queue := rest\<rparr>"
  have q: "set (dr_queue d) = insert (k, v) (set rest)" using heap_pop_set [OF assms(2,3)] .
  have better: "\<exists>b'\<le>b. best' = Some b'" if "best = Some b" for b
    using assms(5) that by (auto simp: meet_def split: option.splits if_splits)
  have here: "\<exists>b\<le>k + j. best' = Some b" if "dr_cost other v = Some j" for j
    using assms(5) that by (auto simp: meet_def at_least_Some split: if_splits)
  show ?thesis
    unfolding met_ok_def
  proof (intro conjI allI impI)
    fix w k' j assume kj: "dr_cost ?d w = Some k'" "dr_cost other w = Some j"
    show "labelled_open ?d w \<or> labelled_open other w \<or> (\<exists>b\<le>k' + j. best' = Some b)"
    proof (cases "w = v")
      case True
      with kj assms(4) here show ?thesis by auto
    next
      case False
      with q have "labelled_open ?d w \<longleftrightarrow> labelled_open d w" by (auto simp: labelled_open_def)
      with assms(1) kj better show ?thesis unfolding met_ok_def by (auto dest: order_trans) (meson order_trans)
    qed
  next
    fix b assume b: "best' = Some b"
    show "\<exists>k j. dr_cost ?d meeting' = Some k \<and> dr_cost other meeting' = Some j \<and> k + j \<le> b"
    proof (cases "(best', meeting') = (best, meeting)")
      case True
      with b assms(1) show ?thesis by (simp add: met_ok_def)
    next
      case False
      with b assms(4,5) show ?thesis by (auto simp: meet_def split: option.splits if_splits)
    qed
  qed
qed

context label_search
begin

lemma expand_inv:
  assumes "dir_inv d" "dr_queue d \<noteq> []" "met_ok d other best meeting"
    and arcs: "\<forall>v<n. \<forall>a\<in>set (arcs_at v). edge v (ar_target a) (ar_cost a)"
    and all: "\<forall>v<n. \<forall>w c. edge v w c \<longrightarrow> (\<exists>a\<in>set (arcs_at v). ar_target a = w \<and> ar_cost a = c)"
    and turn: "expand pick arcs_at other best meeting d = (d', best', meeting')"
  shows "dir_inv d' \<and> met_ok d' other best' meeting' \<and>
    (direction_measure n d', direction_measure n d) \<in> less_than <*lex*> (less_than <*lex*> less_than)"
proof -
  obtain c v rest where pop: "heap_pop pick (dr_queue d) = ((c, v), rest)" by (metis prod.exhaust)
  let ?d = "d\<lparr>dr_queue := rest\<rparr>"
  have q: "set (dr_queue d) = insert (c, v) (set rest)" using heap_pop_set [OF assms(2) pop] .
  have len: "length rest < length (dr_queue d)" using heap_pop_length [OF assms(2) pop] .
  have lab: "labels d" and sd: "seeded d" using assms(1) by (simp_all add: dir_inv_def)
  have "(c, v) \<in> set (dr_queue d)" using q by simp
  with lab obtain k where k: "k \<le> c" "dr_cost d v = Some k" unfolding labels_def by blast
  with lab have vn: "v < n" by (auto simp: labels_def)
  have lab': "labels ?d" using lab q by (simp add: labels_def parented_def)
  have sd': "seeded ?d" using sd by (simp add: seeded_def)
  have same: "unlabelled n ?d = unlabelled n d" "label_sum n ?d = label_sum n d"
    by (simp_all add: unlabelled_def label_sum_def)
  have exp: "expanded_at ?d w \<longleftrightarrow> expanded_at d w" for w by (simp add: expanded_at_def)
  note step = turn [unfolded expand_def pop Let_def prod.case fst_conv snd_conv]
  show ?thesis
  proof (cases "c > k")
    case True
    then have d': "d' = ?d" "best' = best" "meeting' = meeting" using step k(2) by simp_all
    have opn: "labelled_open ?d w \<longleftrightarrow> labelled_open d w" for w
      using q k True by (auto simp: labelled_open_def)
    have "met_ok ?d other best meeting" using assms(3) by (simp add: met_ok_def opn)
    moreover have "dir_inv ?d" using lab' sd' assms(1) by (simp add: dir_inv_def opn exp)
    ultimately show ?thesis unfolding d' using len by (simp add: direction_measure_def same)
  next
    case False
    with k have c: "c = k" "dr_cost d v = Some c" by simp_all
    let ?e = "fold (\<lambda>a. relax (ar_target a) (c + ar_cost a) v) (arcs_at v) ?d"
    have d': "d' = ?e" and m: "meet other v c best meeting = (best', meeting')"
      using step c(2) by (simp_all add: meet_def split: option.splits)
    have "\<forall>a\<in>set (arcs_at v). edge v (ar_target a) (ar_cost a)" using arcs vn by blast
    from relax_all [OF lab' _ vn this, of c] c(2)
    have e: "labels ?e" "dr_cost ?e v = Some c" "refined ?d ?e" "progress n ?d ?e"
      and covers: "\<forall>a\<in>set (arcs_at v). \<exists>k'\<le>c + ar_cost a. dr_cost ?e (ar_target a) = Some k'" by simp_all
    have "labelled_open ?e w \<or> expanded_at ?e w" for w
    proof (cases "w = v")
      case True
      have "expanded_at ?e v"
        unfolding expanded_at_def
      proof (intro allI impI)
        fix k' w a assume "dr_cost ?e v = Some k'" "edge v w a"
        with e(2) all vn obtain b where "k' = c" "b \<in> set (arcs_at v)" "ar_target b = w" "ar_cost b = a" by fastforce
        with covers show "\<exists>k''\<le>k' + a. dr_cost ?e w = Some k''" by blast
      qed
      with True show ?thesis by simp
    next
      case False
      with q have "labelled_open ?d w \<longleftrightarrow> labelled_open d w" by (auto simp: labelled_open_def)
      with assms(1) have "labelled_open ?d w \<or> expanded_at ?d w" by (simp add: dir_inv_def exp)
      with e(3) show ?thesis by (rule refined_expanded)
    qed
    then have "dir_inv ?e" using e(1) refined_seeded [OF e(3) sd'] by (simp add: dir_inv_def)
    moreover have "met_ok ?e other best' meeting'"
      using popped_met [OF assms(3,2) pop [unfolded c(1)] k(2) m [unfolded c(1)]] e(3) c(1) by (simp add: met_ok_refined)
    moreover have "(direction_measure n ?e, direction_measure n d) \<in> less_than <*lex*> (less_than <*lex*> less_than)"
      using e(4) len unfolding progress_def same direction_measure_def by (auto simp: same)
    ultimately show ?thesis unfolding d' by simp
  qed
qed

text \<open>A label is the cost of a chain of parents from a seed.\<close>

lemma parent_step:
  assumes "dir_inv d" "dr_cost d v = Some k" "v < n"
  obtains (seeds) "dr_parent d v = Some v" "seed v k"
  | (hop) p kp c where "dr_parent d v = Some p" "p \<noteq> v" "dr_cost d p = Some kp" "p < n" "edge p v c" "kp + c \<le> k" "kp < k"
proof -
  from assms have "parented d v k" by (simp add: dir_inv_def labels_def)
  then consider "dr_parent d v = Some v" "seed v k"
    | p kp c where "dr_parent d v = Some p" "p \<noteq> v" "dr_cost d p = Some kp" "edge p v c" "kp + c \<le> k"
    unfolding parented_def by blast
  then show thesis
  proof cases
    case 2
    from assms(1) 2(3) have "p < n" by (simp add: dir_inv_def labels_def)
    with edge_positive [OF 2(4)] 2 show thesis by (intro hop) auto
  qed (rule seeds)
qed

end


section \<open>The searches of a query\<close>

definition fwd_seed :: "graph \<Rightarrow> nat \<Rightarrow> nat \<Rightarrow> nat \<Rightarrow> bool" where
  "fwd_seed g src i c \<longleftrightarrow> i < length (g_edges g) \<and> i \<in> set (edgesFrom g src) \<and> c = costDs (g_edges g ! i)"

definition bwd_seed :: "graph \<Rightarrow> overlay \<Rightarrow> nat \<Rightarrow> nat \<Rightarrow> nat \<Rightarrow> bool" where
  "bwd_seed g ov to i c \<longleftrightarrow> i < length (g_edges g) \<and> i \<in> set (overlay_incomingEdges ov to) \<and> c = 0"

definition fwd_edge :: "graph \<Rightarrow> overlay \<Rightarrow> nat \<Rightarrow> nat \<Rightarrow> nat \<Rightarrow> bool" where
  "fwd_edge g ov u v c \<longleftrightarrow> u < length (g_edges g) \<and> v < length (g_edges g) \<and> 0 < c \<and> (\<exists>m. up_arc ov u v c m)"

definition bwd_edge :: "graph \<Rightarrow> overlay \<Rightarrow> nat \<Rightarrow> nat \<Rightarrow> nat \<Rightarrow> bool" where
  "bwd_edge g ov u v c \<longleftrightarrow> u < length (g_edges g) \<and> v < length (g_edges g) \<and> 0 < c \<and> (\<exists>m. down_arc ov v u c m)"

interpretation forward: label_search "length (g_edges g)" "fwd_seed g src" "fwd_edge g ov" for g src ov
  by unfold_locales (auto simp: fwd_seed_def fwd_edge_def)

interpretation backward: label_search "length (g_edges g)" "bwd_seed g ov to" "bwd_edge g ov" for g ov to
  by unfold_locales (auto simp: bwd_seed_def bwd_edge_def)

definition via_inv :: "graph \<Rightarrow> overlay \<Rightarrow> nat \<Rightarrow> nat \<Rightarrow> via_query \<Rightarrow> bool" where
  "via_inv g ov src to st \<longleftrightarrow> forward.dir_inv g src ov (q_forward st) \<and> backward.dir_inv g ov to (q_backward st) \<and>
     met_ok (q_forward st) (q_backward st) (q_best st) (q_meeting st)"

definition via_measure :: "graph \<Rightarrow> via_query \<Rightarrow> nat \<times> nat \<times> nat" where
  "via_measure g st = (let n = length (g_edges g) in
     (unlabelled n (q_forward st) + unlabelled n (q_backward st), label_sum n (q_forward st) + label_sum n (q_backward st),
      length (dr_queue (q_forward st)) + length (dr_queue (q_backward st))))"

lemma fwd_arcs:
  assumes "overlay_ok g ov"
  shows "\<forall>v<length (g_edges g). \<forall>a\<in>set (ups ov v). fwd_edge g ov v (ar_target a) (ar_cost a)"
    "\<forall>v<length (g_edges g). \<forall>w c. fwd_edge g ov v w c \<longrightarrow> (\<exists>a\<in>set (ups ov v). ar_target a = w \<and> ar_cost a = c)"
proof -
  show "\<forall>v<length (g_edges g). \<forall>a\<in>set (ups ov v). fwd_edge g ov v (ar_target a) (ar_cost a)"
  proof (intro allI impI ballI)
    fix v a assume v: "v < length (g_edges g)" and "a \<in> set (ups ov v)"
    then have "up_arc ov v (ar_target a) (ar_cost a) (ar_middle a)" by (simp add: up_arc_def)
    with assms v show "fwd_edge g ov v (ar_target a) (ar_cost a)" unfolding overlay_ok_def fwd_edge_def by blast
  qed
  show "\<forall>v<length (g_edges g). \<forall>w c. fwd_edge g ov v w c \<longrightarrow> (\<exists>a\<in>set (ups ov v). ar_target a = w \<and> ar_cost a = c)"
    unfolding fwd_edge_def up_arc_def by (metis arc_of_fields(1,2))
qed

lemma bwd_arcs:
  assumes "overlay_ok g ov"
  shows "\<forall>v<length (g_edges g). \<forall>a\<in>set (downs ov v). bwd_edge g ov v (ar_target a) (ar_cost a)"
    "\<forall>v<length (g_edges g). \<forall>w c. bwd_edge g ov v w c \<longrightarrow> (\<exists>a\<in>set (downs ov v). ar_target a = w \<and> ar_cost a = c)"
proof -
  show "\<forall>v<length (g_edges g). \<forall>a\<in>set (downs ov v). bwd_edge g ov v (ar_target a) (ar_cost a)"
  proof (intro allI impI ballI)
    fix v a assume v: "v < length (g_edges g)" and "a \<in> set (downs ov v)"
    then have "down_arc ov (ar_target a) v (ar_cost a) (ar_middle a)" by (simp add: down_arc_def)
    with assms v show "bwd_edge g ov v (ar_target a) (ar_cost a)" unfolding overlay_ok_def bwd_edge_def by blast
  qed
  show "\<forall>v<length (g_edges g). \<forall>w c. bwd_edge g ov v w c \<longrightarrow> (\<exists>a\<in>set (downs ov v). ar_target a = w \<and> ar_cost a = c)"
    unfolding bwd_edge_def down_arc_def by (metis arc_of_fields(1,2))
qed

lemma at_least_None [simp]: "at_least None a"
  by (cases a) auto

lemma lex_add:
  assumes "((a, b, c), (a', b', c')) \<in> less_than <*lex*> (less_than <*lex*> less_than)"
  shows "((a + x, b + y, c + z), (a' + x, b' + y, c' + z :: nat)) \<in> less_than <*lex*> (less_than <*lex*> less_than)"
    "((x + a, y + b, z + c), (x + a', y + b', z + c' :: nat)) \<in> less_than <*lex*> (less_than <*lex*> less_than)"
  using assms by auto

lemma via_step_inv:
  assumes "via_inv g ov src to st" "overlay_ok g ov" "via_running pick st"
  shows "via_inv g ov src to (via_step ov pick st) \<and>
    (via_measure g (via_step ov pick st), via_measure g st) \<in> less_than <*lex*> (less_than <*lex*> less_than)"
proof -
  from assms(1) have inv: "forward.dir_inv g src ov (q_forward st)" "backward.dir_inv g ov to (q_backward st)"
    "met_ok (q_forward st) (q_backward st) (q_best st) (q_meeting st)" by (simp_all add: via_inv_def)
  show ?thesis
  proof (cases "at_least (queue_front pick (q_backward st)) (queue_front pick (q_forward st))")
    case True
    have ne: "dr_queue (q_forward st) \<noteq> []"
    proof
      assume e: "dr_queue (q_forward st) = []"
      with True have "dr_queue (q_backward st) = []" by (simp add: queue_front_def split: if_splits)
      with e assms(3) show False by (simp add: via_running_def)
    qed
    obtain d b m where e: "expand pick (ups ov) (q_backward st) (q_best st) (q_meeting st) (q_forward st) = (d, b, m)"
      by (metis prod.exhaust)
    from forward.expand_inv [OF inv(1) ne inv(3) fwd_arcs [OF assms(2)] e]
    show ?thesis
      using True inv(2) lex_add(1) by (simp add: via_step_def e via_inv_def via_measure_def Let_def direction_measure_def)
  next
    case False
    then have ne: "dr_queue (q_backward st) \<noteq> []" by (auto simp: queue_front_def)
    obtain d b m where e: "expand pick (downs ov) (q_forward st) (q_best st) (q_meeting st) (q_backward st) = (d, b, m)"
      by (metis prod.exhaust)
    from backward.expand_inv [OF inv(2) ne inv(3) [unfolded met_ok_sym [of "q_forward st"]] bwd_arcs [OF assms(2)] e]
    have "backward.dir_inv g ov to d" "met_ok (q_forward st) d b m"
      "(direction_measure (length (g_edges g)) d, direction_measure (length (g_edges g)) (q_backward st))
         \<in> less_than <*lex*> (less_than <*lex*> less_than)"
      by (simp_all add: met_ok_sym [of d])
    with False inv(1) lex_add(2) show ?thesis
      by (simp add: via_step_def e via_inv_def via_measure_def Let_def direction_measure_def)
  qed
qed

lemma via_loop:
  assumes "via_inv g ov src to st" "overlay_ok g ov"
  shows "\<exists>st'. while_option (via_running pick) (via_step ov pick) st = Some st' \<and> via_inv g ov src to st' \<and>
    \<not> via_running pick st'"
proof -
  have "\<exists>st'. while_option (via_running pick) (via_step ov pick) st = Some st'"
  proof (rule wf_rel_while_option_Some [where P = "via_inv g ov src to"])
    show "wf (inv_image (less_than <*lex*> (less_than <*lex*> less_than)) (via_measure g))" by auto
  qed (use via_step_inv [OF _ assms(2)] assms(1) in auto)
  then obtain st' where st': "while_option (via_running pick) (via_step ov pick) st = Some st'" by blast
  have "via_inv g ov src to st'"
    by (rule while_option_rule [of "via_inv g ov src to", OF _ st']) (use via_step_inv [OF _ assms(2)] assms(1) in auto)
  with st' while_option_stop [OF st'] show ?thesis by blast
qed

text \<open>When the loop stops no open label is below the best meeting.\<close>

lemma queue_front_least:
  assumes "heap_pick pick" "(k, v) \<in> set (dr_queue d)"
  shows "\<exists>m\<le>k. queue_front pick d = Some m"
proof -
  from assms(2) have ne: "dr_queue d \<noteq> []" by auto
  obtain x rest where pop: "heap_pop pick (dr_queue d) = (x, rest)" by fastforce
  from heap_pop_least [OF assms(1) ne pop assms(2)] ne pop show ?thesis by (auto simp: queue_front_def)
qed

lemma stopped:
  assumes "\<not> via_running pick st" "heap_pick pick"
    and "(k, v) \<in> set (dr_queue (q_forward st)) \<or> (k, v) \<in> set (dr_queue (q_backward st))"
  shows "\<exists>b\<le>k. q_best st = Some b"
proof -
  from assms(3) have "dr_queue (q_forward st) \<noteq> [] \<or> dr_queue (q_backward st) \<noteq> []" by auto
  with assms(1) have "at_least (queue_front pick (q_forward st)) (q_best st)"
    "at_least (queue_front pick (q_backward st)) (q_best st)" by (auto simp: via_running_def)
  moreover obtain m where "m \<le> k" "queue_front pick (q_forward st) = Some m \<or> queue_front pick (q_backward st) = Some m"
    using assms(3) queue_front_least [OF assms(2)] by blast
  ultimately show ?thesis by (auto simp: at_least_Some)
qed

lemma via_best_least:
  assumes "via_inv g ov src to st" "\<not> via_running pick st" "heap_pick pick"
    and "walk_in (fwd_edge g ov) UNIV s x a" "fwd_seed g src s c"
    and "walk_in (bwd_edge g ov) UNIV t x b" "bwd_seed g ov to t 0"
  shows "\<exists>k\<le>c + a + b. q_best st = Some k"
proof -
  from assms(1) have inv: "forward.dir_inv g src ov (q_forward st)" "backward.dir_inv g ov to (q_backward st)"
    "met_ok (q_forward st) (q_backward st) (q_best st) (q_meeting st)" by (simp_all add: via_inv_def)
  have opn: "\<exists>k\<le>c + a + b. q_best st = Some k" if "k \<le> c + a \<or> k \<le> b"
      "(k, v) \<in> set (dr_queue (q_forward st)) \<or> (k, v) \<in> set (dr_queue (q_backward st))" for k v
    using stopped [OF assms(2,3) that(2)] that(1) by fastforce
  show ?thesis
  proof (cases "\<exists>k v. (k \<le> c + a \<or> k \<le> b) \<and>
      ((k, v) \<in> set (dr_queue (q_forward st)) \<or> (k, v) \<in> set (dr_queue (q_backward st)))")
    case True
    with opn show ?thesis by blast
  next
    case False
    with forward.walk_labels [OF inv(1) assms(4,5)] obtain k where k: "k \<le> c + a" "dr_cost (q_forward st) x = Some k" by blast
    from False backward.walk_labels [OF inv(2) assms(6,7)] obtain j where j: "j \<le> b" "dr_cost (q_backward st) x = Some j" by auto
    from False k j have "\<not> labelled_open (q_forward st) x" "\<not> labelled_open (q_backward st) x"
      unfolding labelled_open_def by auto
    with inv(3) k(2) j(2) obtain e where "e \<le> k + j" "q_best st = Some e" unfolding met_ok_def by blast
    with k(1) j(1) show ?thesis by (intro exI [of _ e]) simp
  qed
qed


section \<open>Unpacked drives\<close>

fun turn_chain :: "graph \<Rightarrow> nat list \<Rightarrow> bool" where
  "turn_chain g (i # j # es) \<longleftrightarrow> (i, j) \<in> set (transitions g) \<and> turn_chain g (j # es)"
| "turn_chain g es \<longleftrightarrow> True"

text \<open>The cost of a drive in tenths of a second.\<close>

definition drive_costDs :: "graph \<Rightarrow> nat list \<Rightarrow> nat" where
  "drive_costDs g es = sum_list (map (\<lambda>i. costDs (g_edges g ! i)) es)"

lemma drive_costDs_append [simp]: "drive_costDs g (es @ fs) = drive_costDs g es + drive_costDs g fs"
  by (simp add: drive_costDs_def)

lemma turn_chain_append: "turn_chain g (es @ [u]) \<Longrightarrow> turn_chain g (u # p) \<Longrightarrow> turn_chain g (es @ u # p)"
  by (induction g es rule: turn_chain.induct) auto

lemma cheapest_to_Nil [simp]: "cheapest_to t [] f = f"
  by (simp add: cheapest_to_def)

lemma cheapest_to_Cons [simp]: "cheapest_to t (a # as) f = cheapest_to t as
    (if ar_target a = t \<and> (case f of None \<Rightarrow> True | Some b \<Rightarrow> ar_cost a < ar_cost b) then Some a else f)"
  by (simp add: cheapest_to_def)

lemma cheapest_to_None: "cheapest_to t as f = None \<longleftrightarrow> f = None \<and> (\<forall>a\<in>set as. ar_target a \<noteq> t)"
  by (induction as arbitrary: f) (auto split: option.splits)

lemma cheapest_to_from: "cheapest_to t as f = Some a \<Longrightarrow> f = Some a \<or> a \<in> set as \<and> ar_target a = t"
  by (induction as arbitrary: f) (fastforce split: if_splits)+

lemma cheapest_to_start: "cheapest_to t as (Some b) = Some a \<Longrightarrow> ar_cost a \<le> ar_cost b"
  by (induction as arbitrary: b) (fastforce split: if_splits)+

lemma cheapest_to_least: "cheapest_to t as f = Some a \<Longrightarrow> b \<in> set as \<Longrightarrow> ar_target b = t \<Longrightarrow> ar_cost a \<le> ar_cost b"
proof (induction as arbitrary: f)
  case (Cons x xs)
  show ?case
  proof (cases "b = x")
    case True
    let ?f = "if ar_target x = t \<and> (case f of None \<Rightarrow> True | Some b \<Rightarrow> ar_cost x < ar_cost b) then Some x else f"
    have "\<exists>y. ar_cost y \<le> ar_cost b \<and> ?f = Some y"
      using True Cons.prems(3) by (cases f; cases "ar_cost x < ar_cost (the f)") (auto simp: not_less)
    then obtain y where y: "ar_cost y \<le> ar_cost b" "?f = Some y" by blast
    with Cons.prems(1) have "ar_cost a \<le> ar_cost y" unfolding cheapest_to_Cons y(2) by (simp add: cheapest_to_start)
    with y(1) show ?thesis by simp
  next
    case False
    with Cons.prems Cons.IH show ?thesis by simp
  qed
qed simp

definition best_arc :: "overlay \<Rightarrow> nat \<Rightarrow> nat \<Rightarrow> arc option" where
  "best_arc ov u v = cheapest_to u (downs ov v) (cheapest_to v (ups ov u) None)"

lemma best_arc:
  assumes "overlay_ok g ov" "u < length (g_edges g)" "v < length (g_edges g)" "any_cost g ov u v c"
  obtains a where "best_arc ov u v = Some a" "ar_cost a \<le> c" "justified g (any_cost g ov) u v (ar_cost a) (ar_middle a)"
proof -
  from assms(4) obtain m where m: "arc_of v c m \<in> set (ups ov u) \<or> arc_of u c m \<in> set (downs ov v)"
    by (auto simp: any_cost_def up_cost_def down_cost_def up_arc_def down_arc_def)
  let ?x = "cheapest_to v (ups ov u) None"
  have "best_arc ov u v \<noteq> None"
    using m unfolding best_arc_def cheapest_to_None by (metis arc_of_fields(1))
  then obtain a where a: "best_arc ov u v = Some a" by blast
  then have from_: "a \<in> set (ups ov u) \<and> ar_target a = v \<or> a \<in> set (downs ov v) \<and> ar_target a = u"
    unfolding best_arc_def by (blast dest: cheapest_to_from)
  have "ar_cost a \<le> c"
  proof (cases "arc_of u c m \<in> set (downs ov v)")
    case True
    from cheapest_to_least [OF a [unfolded best_arc_def] this] show ?thesis by simp
  next
    case False
    with m have mu: "arc_of v c m \<in> set (ups ov u)" by simp
    have "?x \<noteq> None" using mu unfolding cheapest_to_None by (metis arc_of_fields(1))
    then obtain b where b: "?x = Some b" by blast
    from cheapest_to_least [OF b mu] have "ar_cost b \<le> c" by simp
    moreover have "ar_cost a \<le> ar_cost b" using a b by (simp add: best_arc_def cheapest_to_start)
    ultimately show ?thesis by simp
  qed
  moreover have "justified g (any_cost g ov) u v (ar_cost a) (ar_middle a)"
    using from_
  proof
    assume "a \<in> set (ups ov u) \<and> ar_target a = v"
    then have "up_arc ov u v (ar_cost a) (ar_middle a)" by (auto simp: up_arc_def)
    with assms(1,2) show ?thesis unfolding overlay_ok_def by blast
  next
    assume "a \<in> set (downs ov v) \<and> ar_target a = u"
    then have "down_arc ov u v (ar_cost a) (ar_middle a)" by (auto simp: down_arc_def)
    with assms(1,3) show ?thesis unfolding overlay_ok_def by blast
  qed
  ultimately show thesis using a that by blast
qed

lemma any_cost_range:
  assumes "overlay_ok g ov" "any_cost g ov u v c"
  shows "u < length (g_edges g)" "v < length (g_edges g)" "0 < c"
  using assms unfolding overlay_ok_def any_cost_def up_cost_def down_cost_def by blast+

text \<open>Unpacking an arc ends, with a legal drive that costs no more than the arc.\<close>

lemma unpack_ok:
  assumes "overlay_ok g ov" "length (g_edges g) < 2 ^ 32" "any_cost g ov u v c"
  shows "\<exists>p. unpack ov u v out = Some (out @ p) \<and> p \<noteq> [] \<and> last p = v \<and> turn_chain g (u # p) \<and> drive_costDs g p \<le> c"
  using assms(3)
proof (induction c arbitrary: u v out rule: less_induct)
  case (less c)
  note range = any_cost_range [OF assms(1) less.prems]
  from best_arc [OF assms(1) range(1,2) less.prems] obtain a where a: "best_arc ov u v = Some a" "ar_cost a \<le> c"
    "justified g (any_cost g ov) u v (ar_cost a) (ar_middle a)" .
  note step = unpack.simps [of ov u v out, folded best_arc_def, unfolded a(1)]
  show ?case
  proof (cases "ar_middle a = kNoMiddle")
    case True
    with assms(2) have "\<not> ar_middle a < length (g_edges g)" by (simp add: kNoMiddle_def)
    with a(3) have "(u, v) \<in> set (transitions g)" "ar_cost a = costDs (g_edges g ! v)" by (auto simp: justified_def)
    with True a(2) show ?thesis by (intro exI [of _ "[v]"]) (simp add: step drive_costDs_def)
  next
    case False
    with a(3) obtain c1 c2 where mid: "any_cost g ov u (ar_middle a) c1" "any_cost g ov (ar_middle a) v c2" "c1 + c2 \<le> ar_cost a"
      by (auto simp: justified_def)
    have pos: "0 < c1" "0 < c2" using any_cost_range(3) [OF assms(1)] mid by blast+
    have c12: "c1 < c" "c2 < c" using pos mid(3) a(2) by linarith+
    from less.IH [OF c12(1) mid(1), of out] obtain p where p: "unpack ov u (ar_middle a) out = Some (out @ p)" "p \<noteq> []"
      "last p = ar_middle a" "turn_chain g (u # p)" "drive_costDs g p \<le> c1" by blast
    from less.IH [OF c12(2) mid(2), of "out @ p"] obtain q where q: "unpack ov (ar_middle a) v (out @ p) = Some ((out @ p) @ q)"
      "q \<noteq> []" "last q = v" "turn_chain g (ar_middle a # q)" "drive_costDs g q \<le> c2" by blast
    have "unpack ov u v out = Some (out @ p @ q)" using False p(1) q(1) by (simp add: step)
    moreover have "turn_chain g (u # p @ q)"
      using turn_chain_append [of g "u # butlast p" "ar_middle a" q] p(2-4) q(4) append_butlast_last_id [OF p(2)]
      by (metis append.assoc append_Cons append_Nil)
    ultimately show ?thesis using p q mid(3) a(2) by (intro exI [of _ "p @ q"]) simp
  qed
qed

lemma unpack_hops_append: "unpack_hops ov (hs @ is) out = Option.bind (unpack_hops ov hs out) (unpack_hops ov is)"
proof (induction hs arbitrary: out)
  case (Cons h hs)
  then show ?case by (cases h; cases "unpack ov (fst h) (snd h) out") simp_all
qed simp

lemma fwd_edge_any: "fwd_edge g ov u v c \<Longrightarrow> any_cost g ov u v c"
  by (auto simp: fwd_edge_def any_cost_def up_cost_def)

lemma bwd_edge_any: "bwd_edge g ov u v c \<Longrightarrow> any_cost g ov v u c"
  by (auto simp: bwd_edge_def any_cost_def down_cost_def)

text \<open>From the meeting back to a seed of the forward search.\<close>

lemma forward_path:
  assumes "forward.dir_inv g src ov d" "overlay_ok g ov" "length (g_edges g) < 2 ^ 32" "dr_cost d x = Some k"
  shows "\<exists>s hs p. back_hops (dr_parent d) x hops = Some (s, hops @ hs) \<and> unpack_hops ov (rev hs) [s] = Some (s # p) \<and>
    s \<in> set (edgesFrom g src) \<and> last (s # p) = x \<and> turn_chain g (s # p) \<and> drive_costDs g (s # p) \<le> k"
  using assms(4)
proof (induction k arbitrary: x hops rule: less_induct)
  case (less k)
  from assms(1) less.prems have "x < length (g_edges g)" by (simp add: forward.dir_inv_def forward.labels_def)
  from assms(1) less.prems this show ?case
  proof (cases rule: forward.parent_step)
    case seeds
    then show ?thesis
      by (intro exI [of _ x] exI [of _ "[]"]) (simp add: back_hops.simps fwd_seed_def drive_costDs_def)
  next
    case (hop p kp c)
    from less.IH [OF hop(7,3), of "hops @ [(p, x)]"] obtain s hs q where
      q: "back_hops (dr_parent d) p (hops @ [(p, x)]) = Some (s, (hops @ [(p, x)]) @ hs)" "unpack_hops ov (rev hs) [s] = Some (s # q)"
      "s \<in> set (edgesFrom g src)" "last (s # q) = p" "turn_chain g (s # q)" "drive_costDs g (s # q) \<le> kp" by blast
    from unpack_ok [OF assms(2,3) fwd_edge_any [OF hop(5)], of "s # q"] obtain r where
      r: "unpack ov p x (s # q) = Some ((s # q) @ r)" "r \<noteq> []" "last r = x" "turn_chain g (p # r)" "drive_costDs g r \<le> c" by blast
    have "back_hops (dr_parent d) x hops = Some (s, hops @ (p, x) # hs)"
      using hop(1,2) q(1) by (subst back_hops.simps) simp
    moreover have "unpack_hops ov (rev ((p, x) # hs)) [s] = Some (s # q @ r)"
      using q(2) r(1) by (simp add: unpack_hops_append)
    moreover have "turn_chain g (s # q @ r)"
    proof -
      have "s # q = butlast (s # q) @ [p]" using q(4) by (metis append_butlast_last_id list.distinct(1))
      with turn_chain_append [of g "butlast (s # q)" p r] q(5) r(4) show ?thesis
        by (metis append.assoc append_Cons append_Nil)
    qed
    ultimately show ?thesis
      using q r hop(6) by (intro exI [of _ s] exI [of _ "(p, x) # hs"] exI [of _ "q @ r"])
        (simp add: drive_costDs_def)
  qed
qed

text \<open>From the meeting on to a seed of the backward search.\<close>

lemma backward_path:
  assumes "backward.dir_inv g ov to d" "overlay_ok g ov" "length (g_edges g) < 2 ^ 32" "dr_cost d x = Some k"
  shows "\<exists>p. follow_parents ov (dr_parent d) x out = Some (out @ p) \<and> turn_chain g (x # p) \<and>
    last (x # p) < length (g_edges g) \<and> last (x # p) \<in> set (overlay_incomingEdges ov to) \<and> drive_costDs g p \<le> k"
  using assms(4)
proof (induction k arbitrary: x out rule: less_induct)
  case (less k)
  from assms(1) less.prems have "x < length (g_edges g)" by (simp add: backward.dir_inv_def backward.labels_def)
  from assms(1) less.prems this show ?case
  proof (cases rule: backward.parent_step)
    case seeds
    then show ?thesis
      by (intro exI [of _ "[]"]) (simp add: follow_parents.simps bwd_seed_def drive_costDs_def)
  next
    case (hop p kp c)
    from unpack_ok [OF assms(2,3) bwd_edge_any [OF hop(5)], of out] obtain r where
      r: "unpack ov x p out = Some (out @ r)" "r \<noteq> []" "last r = p" "turn_chain g (x # r)" "drive_costDs g r \<le> c" by blast
    from less.IH [OF hop(7,3), of "out @ r"] obtain q where
      q: "follow_parents ov (dr_parent d) p (out @ r) = Some ((out @ r) @ q)" "turn_chain g (p # q)"
      "last (p # q) < length (g_edges g)" "last (p # q) \<in> set (overlay_incomingEdges ov to)" "drive_costDs g q \<le> kp" by blast
    have "follow_parents ov (dr_parent d) x out = Some (out @ r @ q)"
      using hop(1,2) r(1) q(1) by (subst follow_parents.simps) simp
    moreover have "turn_chain g (x # r @ q)"
      using turn_chain_append [of g "x # butlast r" p q] r(2-4) q(2) append_butlast_last_id [OF r(2)]
      by (metis append.assoc append_Cons append_Nil)
    moreover have "last (x # r @ q) = last (p # q)" using r(2,3) by (cases q) simp_all
    ultimately show ?thesis using q(3-5) r(5) hop(6) by (intro exI [of _ "r @ q"]) simp
  qed
qed


section \<open>Legal drives as walks\<close>

lemma drive_turns:
  assumes "graph_wf g"
  shows "drive g u (i # es) to \<and> legal_turns g (i # es) \<longleftrightarrow>
    i \<in> set (edgesFrom g u) \<and> turn_chain g (i # es) \<and> ed_target (g_edges g ! last (i # es)) = to"
proof (induction es arbitrary: u i)
  case (Cons j es)
  let ?t = "ed_target (g_edges g ! i)"
  have "drive g u (i # j # es) to \<and> legal_turns g (i # j # es) \<longleftrightarrow>
      i \<in> set (edgesFrom g u) \<and> turn_ok g i j \<and> drive g ?t (j # es) to \<and> legal_turns g (j # es)"
    by (simp only: drive.simps(2) [of g u i] legal_turns.simps(1)) blast
  also have "\<dots> \<longleftrightarrow> i \<in> set (edgesFrom g u) \<and> turn_ok g i j \<and> j \<in> set (edgesFrom g ?t) \<and> turn_chain g (j # es) \<and>
      ed_target (g_edges g ! last (j # es)) = to"
    unfolding Cons.IH ..
  also have "\<dots> \<longleftrightarrow> i \<in> set (edgesFrom g u) \<and> turn_chain g (i # j # es) \<and> ed_target (g_edges g ! last (i # j # es)) = to"
    using edgesFrom_in_range [OF assms, of i u] by (simp only: turn_chain.simps(1) in_transitions last.simps list.distinct simp_thms if_False) blast
  finally show ?case .
qed auto

lemma turn_chain_range:
  assumes "graph_wf g"
  shows "s < length (g_edges g) \<Longrightarrow> turn_chain g (s # p) \<Longrightarrow> last (s # p) < length (g_edges g)"
proof (induction p arbitrary: s)
  case (Cons j p)
  then have "j < length (g_edges g)" using transitions_range [OF assms, of s j] by simp
  with Cons show ?case by simp
qed simp

lemma legal_drive_chain:
  assumes "graph_wf g"
  shows "legal_drive g src es to \<longleftrightarrow> es \<noteq> [] \<and> hd es \<in> set (edgesFrom g src) \<and> turn_chain g es \<and>
    ed_target (g_edges g ! last es) = to"
  using drive_turns [OF assms] by (cases es) (auto simp: legal_drive_def)

lemma turn_chain_walk: "turn_chain g (s # p) \<Longrightarrow> walk_in (turn_costs g) UNIV s (last (s # p)) (drive_costDs g p)"
proof (induction p arbitrary: s)
  case (Cons j p)
  then have "turn_costs g s j (costDs (g_edges g ! j))" by (simp add: turn_costs_def)
  from walk_step [OF UNIV_I this Cons.IH] Cons.prems show ?case by (simp add: drive_costDs_def)
qed (simp add: drive_costDs_def walk_refl)

lemma walk_reverse: "walk_in A S u v c \<Longrightarrow> walk_in (\<lambda>u v c. A v u c) S v u c"
proof (induction rule: walk_in.induct)
  case (walk_step u v c w d)
  from walk_snoc [OF walk_step.IH walk_step.hyps(2,1)] show ?case by (simp add: add.commute)
qed (rule walk_refl)

lemma legal_drive_arch:
  assumes "overlay_ok g ov" "turn_chain g (s # p)"
  shows "\<exists>x a b. walk_in (fwd_edge g ov) UNIV s x a \<and> walk_in (bwd_edge g ov) UNIV (last (s # p)) x b \<and>
    a + b \<le> drive_costDs g p"
proof -
  from assms turn_chain_walk obtain x a b where w: "walk_in (up_cost g ov) UNIV s x a"
    "walk_in (down_cost g ov) UNIV x (last (s # p)) b" "a + b \<le> drive_costDs g p" unfolding overlay_ok_def by meson
  have up: "dominates (fwd_edge g ov) (up_cost g ov)" and down: "dominates (bwd_edge g ov) (\<lambda>u v c. down_cost g ov v u c)"
    using assms(1) unfolding overlay_ok_def dominates_def fwd_edge_def bwd_edge_def up_cost_def down_cost_def by blast+
  from walk_dominates [OF w(1) up] walk_dominates [OF walk_reverse [OF w(2)] down] w(3)
  show ?thesis by (meson add_mono order_trans)
qed

section \<open>The answer\<close>

lemma via_route_along: "via_route g es = route_along g (drive_cost g 0 es) es"
proof -
  have one: "add_edge g i (r\<lparr>ro_durationS := d\<rparr>) = (add_edge g i r)\<lparr>ro_durationS := d\<rparr>" for r d i
    by (cases r) (simp add: add_edge_def Let_def)
  have upd: "fold (add_edge g) es (r\<lparr>ro_durationS := d\<rparr>) = (fold (add_edge g) es r)\<lparr>ro_durationS := d\<rparr>" for r d es
    by (induction es arbitrary: r) (simp_all add: one)
  have "fold (add_via_edge g) es r = (fold (add_edge g) es r)\<lparr>ro_durationS := foldl (\<lambda>d i. dadd d (edge_cost g i)) (ro_durationS r) es\<rparr>" for r
  proof (induction es arbitrary: r)
    case (Cons i es)
    have "ro_durationS (add_edge g i r) = ro_durationS r" by (simp add: add_edge_def Let_def)
    then show ?case unfolding fold_simps(2) Cons.IH by (simp add: add_via_edge_def upd)
  qed simp
  then show ?thesis
    by (simp add: via_route_def route_along_def Let_def drive_cost_def upd) (simp add: empty_route_def)
qed

lemma incoming_target:
  assumes "overlay_ok g ov" "to < length (g_nodes g)"
  shows "i \<in> set (overlay_incomingEdges ov to) \<longleftrightarrow> i < length (g_edges g) \<and> ed_target (g_edges g ! i) = to"
proof -
  from assms(1) have "\<forall>v<length (g_nodes g). \<forall>i. i \<in> set (csr_row (ov_incomingOffsets ov) (ov_incomingEdges ov) v) \<longleftrightarrow>
      i < length (g_edges g) \<and> ed_target (g_edges g ! i) = v" "length (ov_incomingOffsets ov) = length (g_nodes g) + 1"
    unfolding overlay_ok_def by blast+
  with assms(2) show ?thesis by (simp add: overlay_incomingEdges_def)
qed

lemma relaxed_queue: "dr_queue (fold (\<lambda>i. relax i (c i) i) is empty_direction) = [] \<longleftrightarrow> is = []"
proof -
  have keep: "dr_queue d \<noteq> [] \<Longrightarrow> dr_queue (relax v x source d) \<noteq> []" for v x source d
    by (simp add: relax_def split: option.split)
  have all: "dr_queue d \<noteq> [] \<Longrightarrow> dr_queue (fold (\<lambda>i. relax i (c i) i) is d) \<noteq> []" for d "is"
    by (induction "is" arbitrary: d) (simp_all add: keep)
  have "dr_queue (relax v x source empty_direction) \<noteq> []" for v x source
    by (simp add: relax_def empty_direction_def)
  from all [OF this] show ?thesis by (cases "is") (simp_all add: empty_direction_def [THEN arg_cong, of dr_queue])
qed

lemma via_start_inv:
  assumes "graph_wf g" "overlay_ok g ov" "to < length (g_nodes g)"
  shows "via_inv g ov src to \<lparr>q_forward = via_forward g src, q_backward = via_backward ov to, q_best = None, q_meeting = 0\<rparr>"
proof -
  have f: "forward.dir_inv g src ov (via_forward g src)"
    unfolding via_forward_def using edgesFrom_in_range [OF assms(1)]
    by (intro forward.seeds_inv) (auto simp: fwd_seed_def)
  have b: "backward.dir_inv g ov to (via_backward ov to)"
    unfolding via_backward_def using incoming_target [OF assms(2,3)]
    by (intro backward.seeds_inv) (auto simp: bwd_seed_def)
  have "dr_cost (via_forward g src) v = None \<or> labelled_open (via_forward g src) v" for v
    unfolding via_forward_def by (rule forward.labelled_from_empty [of _ v])
      (use forward.seed_all [OF forward.labels_empty, of "edgesFrom g src" g src "\<lambda>i. costDs (g_edges g ! i)"]
        edgesFrom_in_range [OF assms(1)] in \<open>auto simp: fwd_seed_def\<close>)
  then have "met_ok (via_forward g src) (via_backward ov to) None 0"
    unfolding met_ok_def by (metis option.distinct(1))
  with f b show ?thesis by (simp add: via_inv_def)
qed

text \<open>The edges found, from the invariant at the end of the loop.\<close>

lemma via_edges_ok:
  assumes "via_inv g ov src to st" "overlay_ok g ov" "length (g_edges g) < 2 ^ 32" "graph_wf g"
    and "to < length (g_nodes g)" "q_best st = Some b"
  shows "\<exists>es. via_edges ov st = Some es \<and> legal_drive g src es to \<and> drive_costDs g es \<le> b"
proof -
  let ?x = "q_meeting st"
  from assms(1,6) obtain k j where kj: "dr_cost (q_forward st) ?x = Some k" "dr_cost (q_backward st) ?x = Some j" "k + j \<le> b"
    by (auto simp: via_inv_def met_ok_def)
  from assms(1) have f: "forward.dir_inv g src ov (q_forward st)" and bw: "backward.dir_inv g ov to (q_backward st)"
    by (simp_all add: via_inv_def)
  from forward_path [OF f assms(2,3) kj(1), of "[]"] obtain s hs p where
    p: "back_hops (dr_parent (q_forward st)) ?x [] = Some (s, hs)" "unpack_hops ov (rev hs) [s] = Some (s # p)"
      "s \<in> set (edgesFrom g src)" "last (s # p) = ?x" "turn_chain g (s # p)" "drive_costDs g (s # p) \<le> k" by auto
  from backward_path [OF bw assms(2,3) kj(2), of "s # p"] obtain q where
    q: "follow_parents ov (dr_parent (q_backward st)) ?x (s # p) = Some ((s # p) @ q)" "turn_chain g (?x # q)"
      "last (?x # q) \<in> set (overlay_incomingEdges ov to)" "drive_costDs g q \<le> j" by blast
  have "via_edges ov st = Some (s # p @ q)" using p(1,2) q(1) by (simp add: via_edges_def)
  moreover have "turn_chain g (s # p @ q)"
  proof -
    have "s # p = butlast (s # p) @ [?x]" using p(4) by (metis append_butlast_last_id list.distinct(1))
    with turn_chain_append [of g "butlast (s # p)" ?x q] p(5) q(2) show ?thesis
      by (metis append.assoc append_Cons append_Nil)
  qed
  moreover have "last (s # p @ q) = last (?x # q)" using p(4) by (cases q) auto
  ultimately show ?thesis
    using p(3,6) q(3,4) kj(3) incoming_target [OF assms(2,5)]
    by (intro exI [of _ "s # p @ q"]) (simp add: legal_drive_chain [OF assms(4)] drive_costDs_def)
qed

lemma via_quickest:
  assumes "graph_wf g" "length (g_edges g) < 2 ^ 32" "heap_pick pick" "overlay_ok g ov"
    and "to < length (g_nodes g)" "src \<noteq> to"
  shows "\<exists>r. findRouteVia g ov pick src to = Some r \<and>
    (case r of None \<Rightarrow> \<forall>es. \<not> legal_drive g src es to
     | Some route \<Rightarrow> \<exists>es. legal_drive g src es to \<and> route_describes g es route \<and> ro_durationS route = drive_cost g 0 es \<and>
         (\<forall>fs. legal_drive g src fs to \<longrightarrow> drive_costDs g es \<le> drive_costDs g fs))"
proof -
  let ?st = "\<lparr>q_forward = via_forward g src, q_backward = via_backward ov to, q_best = None, q_meeting = 0\<rparr>"
  from via_loop [OF via_start_inv [OF assms(1,4,5), of src] assms(4), of pick] obtain st where
    st: "while_option (via_running pick) (via_step ov pick) ?st = Some st" "via_inv g ov src to st" "\<not> via_running pick st" by blast
  have least: "\<exists>k\<le>drive_costDs g es. q_best st = Some k" if drive: "legal_drive g src es to" for es
  proof -
    from drive obtain s p where es: "es = s # p" "s \<in> set (edgesFrom g src)" "turn_chain g (s # p)"
      "ed_target (g_edges g ! last (s # p)) = to" unfolding legal_drive_chain [OF assms(1)] by (cases es) auto
    from legal_drive_arch [OF assms(4) es(3)] obtain x a b where
      w: "walk_in (fwd_edge g ov) UNIV s x a" "walk_in (bwd_edge g ov) UNIV (last (s # p)) x b" "a + b \<le> drive_costDs g p" by blast
    have s: "s < length (g_edges g)" using edgesFrom_in_range [OF assms(1) es(2)] .
    have "last (s # p) < length (g_edges g)" by (rule turn_chain_range [OF assms(1) s es(3)])
    then have "bwd_seed g ov to (last (s # p)) 0" using es(4) incoming_target [OF assms(4,5)] by (simp add: bwd_seed_def)
    moreover have "fwd_seed g src s (costDs (g_edges g ! s))" using s es(2) by (simp add: fwd_seed_def)
    ultimately obtain k where "k \<le> costDs (g_edges g ! s) + a + b" "q_best st = Some k"
      using via_best_least [OF st(2,3) assms(3) w(1) _ w(2)] by blast
    with w(3) show ?thesis by (intro exI [of _ k]) (simp add: es(1) drive_costDs_def)
  qed
  have none: "\<not> legal_drive g src es to" if "dr_queue (via_forward g src) = [] \<or> dr_queue (via_backward ov to) = []" for es
  proof
    assume drive: "legal_drive g src es to"
    then have d: "es \<noteq> []" "hd es \<in> set (edgesFrom g src)" "turn_chain g es" "ed_target (g_edges g ! last es) = to"
      unfolding legal_drive_chain [OF assms(1)] by blast+
    with turn_chain_range [OF assms(1), of "hd es" "tl es"] edgesFrom_in_range [OF assms(1) d(2)]
    have "last es < length (g_edges g)" by simp
    with d have "edgesFrom g src \<noteq> []" "overlay_incomingEdges ov to \<noteq> []"
      using incoming_target [OF assms(4,5), of "last es"] by auto
    with that show False unfolding via_forward_def via_backward_def relaxed_queue by blast
  qed
  show ?thesis
  proof (cases "dr_queue (via_forward g src) = [] \<or> dr_queue (via_backward ov to) = []")
    case True
    with none assms(6) show ?thesis by (simp add: findRouteVia_def Let_def)
  next
    case False
    then have find: "findRouteVia g ov pick src to =
        (if q_best st = None then Some None else map_option (\<lambda>es. Some (via_route g es)) (via_edges ov st))"
      unfolding findRouteVia_def Let_def st(1) using assms(6) by simp
    show ?thesis
    proof (cases "q_best st")
      case None
      then have "findRouteVia g ov pick src to = Some None" unfolding find by simp
      moreover from None least have "\<forall>es. \<not> legal_drive g src es to" by fastforce
      ultimately show ?thesis by (intro exI [of _ None]) (simp only: option.case simp_thms)
    next
      case (Some b)
      from via_edges_ok [OF st(2) assms(4,2,1,5) Some] obtain es where
        es: "via_edges ov st = Some es" "legal_drive g src es to" "drive_costDs g es \<le> b" by blast
      have "drive_costDs g es \<le> drive_costDs g fs" if "legal_drive g src fs to" for fs
        using least [OF that] Some es(3) by auto
      moreover have "findRouteVia g ov pick src to = Some (Some (via_route g es))" unfolding find using Some es(1) by simp
      ultimately show ?thesis
        using es(2) route_along_describes [of g es] route_along_duration [of g _ es] unfolding via_route_along
        by (intro exI [of _ "Some (route_along g (drive_cost g 0 es) es)"]) (simp only: option.case simp_thms, blast)
    qed
  qed
qed

text \<open>
  C6.  A query over an overlay that \<open>buildOverlay\<close> has built always returns: with a legal drive of the least cost there is,
  described segment by segment, or with nothing when no legal drive exists.  This holds for every choice of
  limits at build time and for every choice the heaps make, at build time and at query time.
\<close>

theorem find_route_via_quickest:
  assumes "graph_wf g" "positive_costs g" "length (g_edges g) < 2 ^ 32" "heap_pick pick"
    and "buildOverlay g wpick options = Some (Inr ov)" "to < length (g_nodes g)" "src \<noteq> to"
  shows "\<exists>r. findRouteVia g ov pick src to = Some r \<and>
    (case r of None \<Rightarrow> \<forall>es. \<not> legal_drive g src es to
     | Some route \<Rightarrow> \<exists>es. legal_drive g src es to \<and> route_describes g es route \<and> ro_durationS route = drive_cost g 0 es \<and>
         (\<forall>fs. legal_drive g src fs to \<longrightarrow> drive_costDs g es \<le> drive_costDs g fs))"
proof -
  have "g_edges g \<noteq> []" using assms(5) by (auto simp: buildOverlay_def)
  from build_overlay [OF assms(1,2) this, of wpick options] assms(5) have "overlay_ok g ov" by simp
  from via_quickest [OF assms(1,3,4) this assms(6,7)] show ?thesis .
qed

theorem find_route_via_quickest_witness:
  "\<exists>ov r. buildOverlay triangle first_min \<lparr>witnessSettleLimit = 200, witnessHopLimit = 5, stopAtFraction = 19 / 20\<rparr> = Some (Inr ov) \<and>
    findRouteVia triangle ov first_min 0 2 = Some r \<and>
    (case r of None \<Rightarrow> \<forall>es. \<not> legal_drive triangle 0 es 2
     | Some route \<Rightarrow> \<exists>es. legal_drive triangle 0 es 2 \<and> route_describes triangle es route \<and>
         ro_durationS route = drive_cost triangle 0 es \<and>
         (\<forall>fs. legal_drive triangle 0 fs 2 \<longrightarrow> drive_costDs triangle es \<le> drive_costDs triangle fs))"
proof -
  obtain ov where ov: "buildOverlay triangle first_min \<lparr>witnessSettleLimit = 200, witnessHopLimit = 5, stopAtFraction = 19 / 20\<rparr> =
      Some (Inr ov)" using build_overlay [OF triangle_wf triangle_positive] by (force simp: triangle_def)
  have "length (g_edges triangle) < 2 ^ 32" "2 < length (g_nodes triangle)" "(0 :: nat) \<noteq> 2" by (simp_all add: triangle_def)
  from find_route_via_quickest [OF triangle_wf triangle_positive this(1) heap_pick_first_min ov this(2,3)] ov
  show ?thesis by blast
qed

end
