(* ===== verification/MapRules.thy ===== *)
theory MapRules
  imports CanChannelId "HOL-Library.Sublist"
begin

text \<open>
  libs/map_rules/src/classification.cpp: what an OSM way or place is, from its tags: how it is drawn, and how it is
  routed, with access, direction and speed.  Tags are a list of pairs of texts, of which the first with a key counts;
  the texts of a class are kept as they are.
\<close>

section \<open>The vocabulary\<close>

datatype render_class =
  RenderNone | RenderMotorway | RenderTrunk | RenderPrimary | RenderSecondary | RenderTertiary | RenderMinor | RenderService
| RenderTrack | RenderPath | RenderPedestrian | RenderRail | RenderFerry | RenderWaterway | RenderWater | RenderBuilding
| RenderLanduse | RenderLandcover | RenderBoundary | RenderPlace

datatype place_kind =
  PlaceNone | PlaceCountry | PlaceState | PlaceCity | PlaceTown | PlaceVillage | PlaceSuburb | PlaceNeighbourhood | PlaceLocality

datatype route_class =
  RouteNone | RouteMotorway | RouteTrunk | RoutePrimary | RouteSecondary | RouteTertiary | RouteMinor | RouteService
| RouteTrack | RoutePath | RoutePedestrian | RouteFerry

datatype speed_source =
  SpeedUnknown | SpeedSign | SpeedImplicitUrban | SpeedImplicitRural | SpeedImplicitClass | SpeedConditionalIgnored

text \<open>The values of the enumerations.\<close>

primrec render_code :: "render_class \<Rightarrow> nat" where
  "render_code RenderNone = 0"
| "render_code RenderMotorway = 1"
| "render_code RenderTrunk = 2"
| "render_code RenderPrimary = 3"
| "render_code RenderSecondary = 4"
| "render_code RenderTertiary = 5"
| "render_code RenderMinor = 6"
| "render_code RenderService = 7"
| "render_code RenderTrack = 8"
| "render_code RenderPath = 9"
| "render_code RenderPedestrian = 10"
| "render_code RenderRail = 11"
| "render_code RenderFerry = 12"
| "render_code RenderWaterway = 13"
| "render_code RenderWater = 14"
| "render_code RenderBuilding = 15"
| "render_code RenderLanduse = 16"
| "render_code RenderLandcover = 17"
| "render_code RenderBoundary = 18"
| "render_code RenderPlace = 19"

primrec route_code :: "route_class \<Rightarrow> nat" where
  "route_code RouteNone = 0"
| "route_code RouteMotorway = 1"
| "route_code RouteTrunk = 2"
| "route_code RoutePrimary = 3"
| "route_code RouteSecondary = 4"
| "route_code RouteTertiary = 5"
| "route_code RouteMinor = 6"
| "route_code RouteService = 7"
| "route_code RouteTrack = 8"
| "route_code RoutePath = 9"
| "route_code RoutePedestrian = 10"
| "route_code RouteFerry = 11"

primrec source_code :: "speed_source \<Rightarrow> nat" where
  "source_code SpeedUnknown = 0"
| "source_code SpeedSign = 1"
| "source_code SpeedImplicitUrban = 2"
| "source_code SpeedImplicitRural = 3"
| "source_code SpeedImplicitClass = 4"
| "source_code SpeedConditionalIgnored = 5"

definition kAccessFoot :: u16 where
  "kAccessFoot = push_bit 0 1"

definition kAccessBicycle :: u16 where
  "kAccessBicycle = push_bit 1 1"

definition kAccessMotorcar :: u16 where
  "kAccessMotorcar = push_bit 2 1"

definition kAccessHgv :: u16 where
  "kAccessHgv = push_bit 3 1"

definition kAccessPsv :: u16 where
  "kAccessPsv = push_bit 4 1"

definition kAccessEmergency :: u16 where
  "kAccessEmergency = push_bit 5 1"

lemmas access_bits = kAccessFoot_def kAccessBicycle_def kAccessMotorcar_def kAccessHgv_def kAccessPsv_def kAccessEmergency_def

record road_classification =
  cl_renderClass :: render_class
  cl_minZoom :: nat
  cl_labelRank :: nat
  cl_routeClass :: route_class
  cl_access :: u16
  cl_onewayForward :: bool
  cl_onewayBackward :: bool
  cl_hasPosted :: bool
  cl_postedSpeedKph :: nat
  cl_postedSource :: speed_source
  cl_freeFlowSpeedKph :: nat
  cl_isArea :: bool
  cl_isBridge :: bool
  cl_isTunnel :: bool
  cl_layer :: int
  cl_laneCount :: nat
  cl_className :: string

definition no_classification :: road_classification where
  "no_classification = \<lparr>cl_renderClass = RenderNone, cl_minZoom = 255, cl_labelRank = 255, cl_routeClass = RouteNone,
     cl_access = 0, cl_onewayForward = False, cl_onewayBackward = False, cl_hasPosted = False, cl_postedSpeedKph = 0,
     cl_postedSource = SpeedUnknown, cl_freeFlowSpeedKph = 0, cl_isArea = False, cl_isBridge = False, cl_isTunnel = False,
     cl_layer = 0, cl_laneCount = 0, cl_className = []\<rparr>"

definition cl_routable :: "road_classification \<Rightarrow> bool" where
  "cl_routable c \<longleftrightarrow> cl_routeClass c \<noteq> RouteNone \<and> cl_access c \<noteq> 0"

definition cl_drawn :: "road_classification \<Rightarrow> bool" where
  "cl_drawn c \<longleftrightarrow> cl_renderClass c \<noteq> RenderNone"

type_synonym tags = "(string \<times> string) list"

definition tag_get :: "tags \<Rightarrow> string \<Rightarrow> string option" where
  "tag_get tags key = map_of tags key"

definition tag_has :: "tags \<Rightarrow> string \<Rightarrow> bool" where
  "tag_has tags key \<longleftrightarrow> tag_get tags key \<noteq> None"

definition tag_is :: "tags \<Rightarrow> string \<Rightarrow> string \<Rightarrow> bool" where
  "tag_is tags key value \<longleftrightarrow> tag_get tags key = Some value"

section \<open>Highways\<close>

record highway_rule =
  hr_tag :: string
  hr_render :: render_class
  hr_minZoom :: nat
  hr_labelRank :: nat
  hr_route :: route_class
  hr_access :: u16
  hr_freeFlowKph :: nat

definition kVehicle :: u16 where
  "kVehicle = kAccessMotorcar OR kAccessHgv OR kAccessPsv OR kAccessEmergency OR kAccessBicycle OR kAccessFoot"

definition kMotorOnly :: u16 where
  "kMotorOnly = kAccessMotorcar OR kAccessHgv OR kAccessPsv OR kAccessEmergency"

definition kFootOnly :: u16 where
  "kFootOnly = kAccessFoot"

definition kFootBike :: u16 where
  "kFootBike = kAccessFoot OR kAccessBicycle"

definition rule_row ::
  "string \<Rightarrow> render_class \<Rightarrow> nat \<Rightarrow> nat \<Rightarrow> route_class \<Rightarrow> u16 \<Rightarrow> nat \<Rightarrow> highway_rule" where
  "rule_row t render z rank route access kph = \<lparr>hr_tag = t, hr_render = render, hr_minZoom = z, hr_labelRank = rank,
     hr_route = route, hr_access = access, hr_freeFlowKph = kph\<rparr>"

definition kHighways :: "highway_rule list" where
  "kHighways =
    [rule_row ''motorway'' RenderMotorway 4 0 RouteMotorway kMotorOnly 105,
     rule_row ''motorway_link'' RenderMotorway 10 6 RouteMotorway kMotorOnly 64,
     rule_row ''trunk'' RenderTrunk 5 1 RouteTrunk kMotorOnly 89,
     rule_row ''trunk_link'' RenderTrunk 10 6 RouteTrunk kMotorOnly 56,
     rule_row ''primary'' RenderPrimary 7 2 RoutePrimary kVehicle 89,
     rule_row ''primary_link'' RenderPrimary 11 6 RoutePrimary kVehicle 48,
     rule_row ''secondary'' RenderSecondary 9 3 RouteSecondary kVehicle 72,
     rule_row ''secondary_link'' RenderSecondary 12 6 RouteSecondary kVehicle 40,
     rule_row ''tertiary'' RenderTertiary 10 4 RouteTertiary kVehicle 56,
     rule_row ''tertiary_link'' RenderTertiary 13 6 RouteTertiary kVehicle 40,
     rule_row ''residential'' RenderMinor 12 5 RouteMinor kVehicle 40,
     rule_row ''unclassified'' RenderMinor 12 5 RouteMinor kVehicle 40,
     rule_row ''living_street'' RenderMinor 13 5 RouteMinor kVehicle 20,
     rule_row ''road'' RenderMinor 13 6 RouteMinor kVehicle 40,
     rule_row ''service'' RenderService 14 8 RouteService kVehicle 16,
     rule_row ''track'' RenderTrack 14 9 RouteTrack kVehicle 16,
     rule_row ''pedestrian'' RenderPedestrian 13 7 RoutePedestrian kFootBike 5,
     rule_row ''footway'' RenderPath 14 10 RoutePath kFootOnly 5,
     rule_row ''path'' RenderPath 14 10 RoutePath kFootBike 5,
     rule_row ''cycleway'' RenderPath 13 10 RoutePath kFootBike 16,
     rule_row ''bridleway'' RenderPath 14 10 RoutePath kFootOnly 5,
     rule_row ''steps'' RenderPath 14 10 RoutePath kFootOnly 2,
     rule_row ''corridor'' RenderPath 14 255 RoutePath kFootOnly 5,
     rule_row ''busway'' RenderSecondary 12 6 RouteSecondary (kAccessPsv OR kAccessEmergency) 48]"

definition highwayRule :: "string \<Rightarrow> highway_rule option" where
  "highwayRule value = find (\<lambda>rule. hr_tag rule = value) kHighways"

definition isNo :: "string \<Rightarrow> bool" where
  "isNo value \<longleftrightarrow> value \<in> {''no'', ''private'', ''false''}"

definition isYes :: "string \<Rightarrow> bool" where
  "isYes value \<longleftrightarrow> value \<in> {''yes'', ''true'', ''1'', ''designated'', ''permissive'', ''destination''}"

definition apply_key :: "tags \<Rightarrow> string \<times> u16 \<Rightarrow> u16 \<Rightarrow> u16" where
  "apply_key tags kb m =
     (let (key, bits) = kb in
      case tag_get tags key of None \<Rightarrow> m
      | Some value \<Rightarrow> if isNo value then m AND NOT bits else if isYes value then m OR bits else m)"

definition applyAccess :: "tags \<Rightarrow> u16 \<Rightarrow> u16" where
  "applyAccess tags m =
     (let m = (case tag_get tags ''access'' of Some general \<Rightarrow> if isNo general then m AND kAccessEmergency else m
                  | None \<Rightarrow> m) in
      fold (apply_key tags)
        [(''motor_vehicle'', kAccessMotorcar OR kAccessHgv), (''motorcar'', kAccessMotorcar), (''hgv'', kAccessHgv),
         (''psv'', kAccessPsv), (''bus'', kAccessPsv), (''foot'', kAccessFoot), (''bicycle'', kAccessBicycle),
         (''emergency'', kAccessEmergency)] m)"

definition applyOneway :: "tags \<Rightarrow> road_classification \<Rightarrow> road_classification" where
  "applyOneway tags out =
     (case tag_get tags ''oneway'' of
        Some oneway \<Rightarrow>
          if oneway = ''yes'' \<or> oneway = ''1'' \<or> oneway = ''true'' then out\<lparr>cl_onewayForward := True\<rparr>
          else if oneway = ''-1'' \<or> oneway = ''reverse'' then out\<lparr>cl_onewayBackward := True\<rparr>
          else out
      | None \<Rightarrow>
          if tag_is tags ''junction'' ''roundabout'' \<or> tag_is tags ''junction'' ''circular''
            then out\<lparr>cl_onewayForward := True\<rparr>
          else if cl_routeClass out = RouteMotorway \<and> \<not> tag_is tags ''highway'' ''motorway_link''
            then out\<lparr>cl_onewayForward := True\<rparr>
          else out)"

section \<open>Numbers in tags\<close>

text \<open>\<open>std::from_chars\<close> on the start of a text: the longest number there, or an error when there is none or it does not fit.\<close>

definition from_chars_uint :: "string \<Rightarrow> nat option" where
  "from_chars_uint s = (let d = takeWhile is_digit s in if d = [] \<or> digits_value d \<ge> 2 ^ 32 then None else Some (digits_value d))"

definition from_chars_int :: "string \<Rightarrow> int option" where
  "from_chars_int s =
     (let negative = (s \<noteq> [] \<and> hd s = CHR ''-''); d = takeWhile is_digit (if negative then tl s else s);
          v = (if negative then - int (digits_value d) else int (digits_value d)) in
      if d = [] \<or> v < - (2 ^ 31) \<or> v \<ge> 2 ^ 31 then None else Some v)"

text \<open>A speed in km/h, if the text is one.  The product is of 32 bits and wraps.\<close>

definition parseMaxspeed :: "string \<Rightarrow> nat option" where
  "parseMaxspeed value =
     (let digits = length (takeWhile is_digit value) in
      if digits = 0 then None
      else case from_chars_uint (take digits value) of None \<Rightarrow> None
        | Some number \<Rightarrow>
            (let suffix = dropWhile (\<lambda>c. c = CHR 0x20) (drop digits value);
                 known = (if prefix ''mph'' suffix then Some ((number * 1609 + 500) mod 2 ^ 32 div 1000)
                   else if prefix ''knots'' suffix then Some ((number * 1852 + 500) mod 2 ^ 32 div 1000)
                   else if suffix \<noteq> [] \<and> \<not> prefix ''km/h'' suffix \<and> \<not> prefix ''kph'' suffix then None
                   else Some number) in
             case known of None \<Rightarrow> None | Some number \<Rightarrow> if number = 0 \<or> number > 400 then None else Some number))"

definition applySpeed :: "tags \<Rightarrow> road_classification \<Rightarrow> nat \<Rightarrow> road_classification" where
  "applySpeed tags out classDefault =
     (let out = out\<lparr>cl_freeFlowSpeedKph := classDefault\<rparr> in
      case tag_get tags ''maxspeed'' of
        None \<Rightarrow> out\<lparr>cl_postedSource := SpeedImplicitClass\<rparr>
      | Some maxspeed \<Rightarrow>
          (case parseMaxspeed maxspeed of
             Some kph \<Rightarrow> out\<lparr>cl_hasPosted := True, cl_postedSpeedKph := kph,
               cl_postedSource := (if tag_has tags ''maxspeed:conditional'' then SpeedConditionalIgnored else SpeedSign),
               cl_freeFlowSpeedKph := kph\<rparr>
           | None \<Rightarrow> (if maxspeed = ''walk'' then out\<lparr>cl_freeFlowSpeedKph := 7\<rparr> else out)\<lparr>cl_postedSource := SpeedImplicitClass\<rparr>))"

section \<open>Areas\<close>

definition landcoverClass :: "tags \<Rightarrow> string" where
  "landcoverClass tags =
     (let natural = (case tag_get tags ''natural'' of None \<Rightarrow> None
            | Some v \<Rightarrow>
                if v = ''wood'' then Some ''wood''
                else if v \<in> {''scrub'', ''heath'', ''grassland''} then Some ''grass''
                else if v \<in> {''sand'', ''beach'', ''dune''} then Some ''sand''
                else if v \<in> {''wetland'', ''marsh'', ''mud''} then Some ''wetland''
                else if v \<in> {''bare_rock'', ''scree'', ''shingle'', ''cliff''} then Some ''rock''
                else if v = ''glacier'' then Some ''ice'' else None);
          landuse = (case tag_get tags ''landuse'' of None \<Rightarrow> None
            | Some v \<Rightarrow>
                if v = ''forest'' then Some ''wood''
                else if v \<in> {''grass'', ''meadow'', ''village_green'', ''recreation_ground'', ''allotments''} then Some ''grass''
                else if v \<in> {''farmland'', ''farm'', ''orchard'', ''vineyard'', ''plant_nursery''} then Some ''farmland''
                else if v = ''salt_pond'' then Some ''wetland'' else None);
          leisure = (case tag_get tags ''leisure'' of None \<Rightarrow> None
            | Some v \<Rightarrow> if v \<in> {''park'', ''garden'', ''golf_course''} then Some ''grass'' else None) in
      case natural of Some c \<Rightarrow> c
      | None \<Rightarrow> (case landuse of Some c \<Rightarrow> c
        | None \<Rightarrow> (case leisure of Some c \<Rightarrow> c
          | None \<Rightarrow> if tag_is tags ''wetland'' ''yes'' \<or> tag_has tags ''wetland'' then ''wetland'' else [])))"

definition landuseClass :: "string \<Rightarrow> string" where
  "landuseClass v =
     (if v = ''residential'' then ''residential''
      else if v = ''commercial'' then ''commercial''
      else if v \<in> {''industrial'', ''port'', ''depot''} then ''industrial''
      else if v = ''retail'' then ''retail''
      else if v = ''railway'' then ''railway''
      else if v \<in> {''cemetery'', ''grave_yard''} then ''cemetery''
      else if v = ''military'' then ''military''
      else if v \<in> {''quarry'', ''landfill''} then ''quarry''
      else if v \<in> {''construction'', ''brownfield'', ''greenfield''} then ''construction''
      else if v \<in> {''school'', ''education''} then ''school''
      else ''other'')"

definition leisureClass :: "string \<Rightarrow> string" where
  "leisureClass v =
     (if v = ''nature_reserve'' then []
      else if v \<in> {''pitch'', ''sports_centre'', ''sports_hall''} then ''pitch''
      else if v = ''stadium'' then ''stadium''
      else if v \<in> {''track'', ''horse_riding''} then ''track''
      else if v = ''playground'' then ''playground''
      else if v = ''marina'' then ''marina''
      else ''other'')"

definition waterwayClass :: "string \<Rightarrow> string" where
  "waterwayClass v =
     (if v \<in> {''river'', ''riverbank''} then ''river''
      else if v = ''canal'' then ''canal''
      else if v = ''drain'' then ''drain''
      else if v = ''ditch'' then ''ditch''
      else if v = ''dock'' then ''dock''
      else ''stream'')"

record area_rule =
  ar_render :: render_class
  ar_minZoom :: nat
  ar_labelRank :: nat
  ar_className :: string

definition areaRule :: "tags \<Rightarrow> area_rule" where
  "areaRule tags =
     (let rule = (\<lambda>r z rank c. \<lparr>ar_render = r, ar_minZoom = z, ar_labelRank = rank, ar_className = c\<rparr>) in
      if tag_has tags ''building'' \<and> \<not> tag_is tags ''building'' ''no'' then rule RenderBuilding 13 255 ''building''
      else if tag_is tags ''natural'' ''water'' \<or> tag_is tags ''landuse'' ''reservoir'' \<or> tag_is tags ''landuse'' ''basin'' \<or>
        tag_is tags ''leisure'' ''swimming_pool''
        then rule RenderWater 6 11
          (case tag_get tags ''water'' of
             Some water \<Rightarrow> if water \<in> {''river'', ''canal'', ''stream'', ''ditch'', ''drain''} then ''river'' else ''lake''
           | None \<Rightarrow> ''lake'')
      else if (case tag_get tags ''waterway'' of
                 Some waterway \<Rightarrow> waterway \<in> {''riverbank'', ''dock'', ''river'', ''canal'', ''stream'', ''drain'', ''ditch''}
               | None \<Rightarrow> False)
        then rule RenderWater 6 11 ''river''
      else if tag_has tags ''water'' then rule RenderWater 6 11 ''lake''
      else if landcoverClass tags \<noteq> [] then rule RenderLandcover 8 255 (landcoverClass tags)
      else case tag_get tags ''landuse'' of
        Some landuse \<Rightarrow> rule RenderLanduse 8 255 (landuseClass landuse)
      | None \<Rightarrow>
          (case tag_get tags ''leisure'' of
             Some leisure \<Rightarrow> if leisureClass leisure \<noteq> [] then rule RenderLanduse 8 255 (leisureClass leisure)
               else rule RenderNone 255 255 []
           | None \<Rightarrow> rule RenderNone 255 255 []))"

section \<open>A way\<close>

definition classify_highway :: "tags \<Rightarrow> highway_rule \<Rightarrow> road_classification" where
  "classify_highway tags rule =
     (let out = no_classification\<lparr>cl_renderClass := hr_render rule, cl_minZoom := hr_minZoom rule, cl_labelRank := hr_labelRank rule,
            cl_routeClass := hr_route rule, cl_access := applyAccess tags (hr_access rule)\<rparr>;
          out = applySpeed tags (applyOneway tags out) (hr_freeFlowKph rule);
          out = out\<lparr>cl_isBridge := tag_has tags ''bridge'' \<and> \<not> tag_is tags ''bridge'' ''no'',
            cl_isTunnel := tag_has tags ''tunnel'' \<and> \<not> tag_is tags ''tunnel'' ''no''\<rparr>;
          out = (case tag_get tags ''layer'' of None \<Rightarrow> out
            | Some layer \<Rightarrow> (case from_chars_int layer of None \<Rightarrow> out
                | Some parsed \<Rightarrow> if parsed \<ge> -128 \<and> parsed \<le> 127 then out\<lparr>cl_layer := parsed\<rparr> else out)) in
      case tag_get tags ''lanes'' of None \<Rightarrow> out
      | Some lanes \<Rightarrow> (case from_chars_uint lanes of None \<Rightarrow> out
          | Some parsed \<Rightarrow> if parsed \<le> 32 then out\<lparr>cl_laneCount := parsed\<rparr> else out))"

definition classify :: "tags \<Rightarrow> bool \<Rightarrow> road_classification" where
  "classify tags closed =
     (case tag_get tags ''highway'' of
        Some highway \<Rightarrow>
          (case highwayRule highway of
             Some rule \<Rightarrow> classify_highway tags rule
           | None \<Rightarrow> no_classification\<lparr>cl_renderClass := RenderMinor, cl_minZoom := 14, cl_labelRank := 12\<rparr>)
      | None \<Rightarrow>
          if tag_is tags ''route'' ''ferry''
            then applySpeed tags (no_classification\<lparr>cl_renderClass := RenderFerry, cl_className := ''ferry'', cl_minZoom := 8,
              cl_labelRank := 7, cl_routeClass := RouteFerry, cl_access := applyAccess tags kVehicle\<rparr>) 25
          else if tag_has tags ''railway'' \<and> \<not> tag_is tags ''railway'' ''abandoned''
            then no_classification\<lparr>cl_renderClass := RenderRail, cl_minZoom := 10, cl_labelRank := 255,
              cl_className := (if the (tag_get tags ''railway'') \<in> {''subway'', ''light_rail'', ''tram'', ''monorail'', ''funicular''}
                then ''transit'' else ''rail'')\<rparr>
          else if tag_has tags ''waterway'' \<and> \<not> closed
            then no_classification\<lparr>cl_renderClass := RenderWaterway, cl_minZoom := 10, cl_labelRank := 11,
              cl_className := waterwayClass (the (tag_get tags ''waterway''))\<rparr>
          else if tag_is tags ''boundary'' ''administrative''
            then no_classification\<lparr>cl_renderClass := RenderBoundary, cl_minZoom := 4, cl_labelRank := 255,
              cl_className := ''administrative''\<rparr>
          else if closed \<and> ar_render (areaRule tags) \<noteq> RenderNone
            then no_classification\<lparr>cl_renderClass := ar_render (areaRule tags), cl_minZoom := ar_minZoom (areaRule tags),
              cl_labelRank := ar_labelRank (areaRule tags), cl_className := ar_className (areaRule tags), cl_isArea := True\<rparr>
          else no_classification)"

section \<open>A place\<close>

record place_classification =
  pc_kind :: place_kind
  pc_minZoom :: nat
  pc_labelRank :: nat
  pc_population :: nat

definition place_rules :: "(string \<times> place_kind \<times> nat \<times> nat) list" where
  "place_rules =
    [(''country'', PlaceCountry, 2, 0), (''state'', PlaceState, 4, 1), (''province'', PlaceState, 4, 1),
     (''city'', PlaceCity, 6, 2), (''town'', PlaceTown, 9, 3), (''village'', PlaceVillage, 11, 4),
     (''hamlet'', PlaceVillage, 13, 5), (''suburb'', PlaceSuburb, 11, 6), (''quarter'', PlaceSuburb, 12, 6),
     (''neighbourhood'', PlaceNeighbourhood, 13, 7), (''locality'', PlaceLocality, 14, 8)]"

text \<open>The number and whether it counts, after the characters.\<close>

fun population_scan :: "string \<Rightarrow> nat \<Rightarrow> bool \<Rightarrow> nat \<times> bool" where
  "population_scan [] parsed digits = (parsed, digits)"
| "population_scan (c # cs) parsed digits =
     (if c = CHR '','' \<or> c = CHR 0x20 \<or> c = CHR ''.'' then population_scan cs parsed digits
      else if \<not> is_digit c then (parsed, False)
      else let parsed = parsed * 10 + (of_char c - 48) in
        if parsed > 100000000 then (parsed, False) else population_scan cs parsed True)"

definition classifyPlace :: "tags \<Rightarrow> place_classification" where
  "classifyPlace tags =
     (let none = \<lparr>pc_kind = PlaceNone, pc_minZoom = 255, pc_labelRank = 255, pc_population = 0\<rparr> in
      case tag_get tags ''place'' of None \<Rightarrow> none
      | Some place \<Rightarrow>
          if \<not> tag_has tags ''name'' then none
          else (case map_of place_rules place of None \<Rightarrow> none
            | Some (kind, minZoom, rank) \<Rightarrow>
                (let out = none\<lparr>pc_kind := kind, pc_minZoom := minZoom, pc_labelRank := rank\<rparr> in
                 case tag_get tags ''population'' of None \<Rightarrow> out
                 | Some population \<Rightarrow>
                     (let (parsed, digits) = population_scan population 0 False in
                      if \<not> digits then out
                      else let out = out\<lparr>pc_population := parsed\<rparr> in
                        if parsed \<ge> 200000 \<and> pc_minZoom out > 6 then out\<lparr>pc_minZoom := 6\<rparr>
                        else if parsed \<ge> 50000 \<and> pc_minZoom out > 9 then out\<lparr>pc_minZoom := 9\<rparr>
                        else out))))"

definition isRoad :: "render_class \<Rightarrow> bool" where
  "isRoad c \<longleftrightarrow> c \<in> {RenderMotorway, RenderTrunk, RenderPrimary, RenderSecondary, RenderTertiary, RenderMinor, RenderService,
     RenderTrack, RenderPath, RenderPedestrian}"

section \<open>Access\<close>

text \<open>What a tag says of the vehicles it is about.\<close>

definition verdict :: "tags \<Rightarrow> string \<Rightarrow> bool option" where
  "verdict tags key = (case tag_get tags key of None \<Rightarrow> None
     | Some v \<Rightarrow> if isNo v then Some False else if isYes v then Some True else None)"

text \<open>The first of the verdicts given, or the default.\<close>

fun decide :: "bool option list \<Rightarrow> bool \<Rightarrow> bool" where
  "decide [] d = d"
| "decide (v # vs) d = (case v of Some b \<Rightarrow> b | None \<Rightarrow> decide vs d)"

lemma bit_apply_key:
  assumes "k < 16"
  shows "bit (apply_key tags (key, bits) m) k =
    (if bit bits k then decide [verdict tags key] (bit m k) else bit m k)"
  using assms by (simp add: apply_key_def verdict_def bit_simps split: option.split)

lemma bits_of_access:
  assumes "k < 6"
  shows "bit kAccessFoot k \<longleftrightarrow> k = 0" "bit kAccessBicycle k \<longleftrightarrow> k = 1" "bit kAccessMotorcar k \<longleftrightarrow> k = 2"
    "bit kAccessHgv k \<longleftrightarrow> k = 3" "bit kAccessPsv k \<longleftrightarrow> k = 4" "bit kAccessEmergency k \<longleftrightarrow> k = 5"
proof -
  have "k \<in> {0, 1, 2, 3, 4, 5}" using assms by auto
  then show "bit kAccessFoot k \<longleftrightarrow> k = 0" "bit kAccessBicycle k \<longleftrightarrow> k = 1" "bit kAccessMotorcar k \<longleftrightarrow> k = 2"
    "bit kAccessHgv k \<longleftrightarrow> k = 3" "bit kAccessPsv k \<longleftrightarrow> k = 4" "bit kAccessEmergency k \<longleftrightarrow> k = 5"
    unfolding access_bits bit_push_bit_iff bit_1_iff by auto
qed

text \<open>
  C15.  Who may use a way: the most specific tag about a vehicle that says yes or no decides (\<open>motorcar\<close> before \<open>motor_vehicle\<close>,
  \<open>bus\<close> before \<open>psv\<close>); otherwise a closed \<open>access\<close> leaves only the emergency services, and otherwise the road's class decides.
\<close>

theorem access_exact:
  "list_all (\<lambda>(k, keys). bit (applyAccess tags m) k \<longleftrightarrow>
      decide (map (verdict tags) keys) (bit m k \<and> (k = 5 \<or> verdict tags ''access'' \<noteq> Some False)))
    [(0, [''foot'']), (1, [''bicycle'']), (2, [''motorcar'', ''motor_vehicle'']), (3, [''hgv'', ''motor_vehicle'']),
     (4, [''bus'', ''psv'']), (5, [''emergency''])]"
proof -
  define start where "start = (case tag_get tags ''access'' of Some general \<Rightarrow> if isNo general then m AND kAccessEmergency else m
                  | None \<Rightarrow> m)"
  have start: "bit start k \<longleftrightarrow> bit m k \<and> (k = 5 \<or> verdict tags ''access'' \<noteq> Some False)" if "k < 6" for k
    using that by (auto simp: start_def verdict_def bit_simps bits_of_access split: option.split)
  have all: "applyAccess tags m = fold (apply_key tags)
      [(''motor_vehicle'', kAccessMotorcar OR kAccessHgv), (''motorcar'', kAccessMotorcar), (''hgv'', kAccessHgv),
       (''psv'', kAccessPsv), (''bus'', kAccessPsv), (''foot'', kAccessFoot), (''bicycle'', kAccessBicycle),
       (''emergency'', kAccessEmergency)] start"
    by (simp only: applyAccess_def start_def Let_def)
  show ?thesis
    unfolding all by (simp add: bit_apply_key bit_or_iff bits_of_access start split: option.split)
qed

theorem access_exact_witness:
  "bit (applyAccess [(''access'', ''private''), (''foot'', ''yes'')] kVehicle) 0 \<and>
   \<not> bit (applyAccess [(''access'', ''private''), (''foot'', ''yes'')] kVehicle) 2"
  using access_exact [of "[(''access'', ''private''), (''foot'', ''yes'')]" kVehicle]
  by (simp add: verdict_def tag_get_def isNo_def isYes_def)

section \<open>Classifications\<close>

lemma parseMaxspeed_range: "parseMaxspeed v = Some k \<Longrightarrow> 1 \<le> k \<and> k \<le> 400"
  by (auto simp: parseMaxspeed_def Let_def split: if_splits option.splits)

definition limit_of :: "tags \<Rightarrow> nat option" where
  "limit_of tags = (case tag_get tags ''maxspeed'' of None \<Rightarrow> None | Some m \<Rightarrow> parseMaxspeed m)"

definition posted_as :: "nat option \<Rightarrow> road_classification \<Rightarrow> bool" where
  "posted_as limit c \<longleftrightarrow> (case limit of
       Some k \<Rightarrow> cl_hasPosted c \<and> cl_postedSpeedKph c = k \<and> cl_freeFlowSpeedKph c = k \<and>
         cl_postedSource c \<in> {SpeedSign, SpeedConditionalIgnored}
     | None \<Rightarrow> \<not> cl_hasPosted c \<and> cl_postedSource c = SpeedImplicitClass)"

text \<open>What every classification promises its users.\<close>

definition class_sound :: "tags \<Rightarrow> road_classification \<Rightarrow> bool" where
  "class_sound tags c \<longleftrightarrow>
     \<not> (cl_onewayForward c \<and> cl_onewayBackward c) \<and>
     cl_laneCount c \<le> 32 \<and> -128 \<le> cl_layer c \<and> cl_layer c \<le> 127 \<and>
     (if cl_routeClass c = RouteNone then cl_access c = 0 \<and> \<not> cl_hasPosted c
      else cl_drawn c \<and> 1 \<le> cl_freeFlowSpeedKph c \<and> cl_freeFlowSpeedKph c \<le> 400 \<and>
        posted_as (limit_of tags) c)"

lemma applySpeed_speed:
  assumes "1 \<le> d" "d \<le> 400" "\<not> cl_hasPosted out"
  shows "1 \<le> cl_freeFlowSpeedKph (applySpeed tags out d) \<and> cl_freeFlowSpeedKph (applySpeed tags out d) \<le> 400 \<and>
    posted_as (limit_of tags) (applySpeed tags out d)"
  using assms parseMaxspeed_range by (auto simp: applySpeed_def posted_as_def limit_of_def Let_def split: option.split)

lemma applySpeed_others:
  "cl_onewayForward (applySpeed tags out d) = cl_onewayForward out" "cl_onewayBackward (applySpeed tags out d) = cl_onewayBackward out"
  "cl_laneCount (applySpeed tags out d) = cl_laneCount out" "cl_layer (applySpeed tags out d) = cl_layer out"
  "cl_routeClass (applySpeed tags out d) = cl_routeClass out" "cl_renderClass (applySpeed tags out d) = cl_renderClass out"
  "cl_access (applySpeed tags out d) = cl_access out"
  by (simp_all add: applySpeed_def Let_def split: option.split)

lemma applyOneway_others:
  "cl_laneCount (applyOneway tags out) = cl_laneCount out" "cl_layer (applyOneway tags out) = cl_layer out"
  "cl_routeClass (applyOneway tags out) = cl_routeClass out" "cl_renderClass (applyOneway tags out) = cl_renderClass out"
  "cl_access (applyOneway tags out) = cl_access out" "cl_hasPosted (applyOneway tags out) = cl_hasPosted out"
  by (simp_all add: applyOneway_def split: option.split)

lemma applyOneway_one:
  assumes "\<not> cl_onewayForward out" "\<not> cl_onewayBackward out"
  shows "\<not> (cl_onewayForward (applyOneway tags out) \<and> cl_onewayBackward (applyOneway tags out))"
  using assms by (simp add: applyOneway_def split: option.split)

lemma class_sound_bridge: "class_sound tags c \<Longrightarrow> class_sound tags (c\<lparr>cl_isBridge := b, cl_isTunnel := t\<rparr>)"
  by (cases "cl_routeClass c = RouteNone"; cases "limit_of tags") (simp_all add: class_sound_def cl_drawn_def posted_as_def)

lemma class_sound_layer: "class_sound tags c \<Longrightarrow> -128 \<le> l \<Longrightarrow> l \<le> 127 \<Longrightarrow> class_sound tags (c\<lparr>cl_layer := l\<rparr>)"
  by (cases "cl_routeClass c = RouteNone"; cases "limit_of tags") (simp_all add: class_sound_def cl_drawn_def posted_as_def)

lemma class_sound_lanes: "class_sound tags c \<Longrightarrow> n \<le> 32 \<Longrightarrow> class_sound tags (c\<lparr>cl_laneCount := n\<rparr>)"
  by (cases "cl_routeClass c = RouteNone"; cases "limit_of tags") (simp_all add: class_sound_def cl_drawn_def posted_as_def)

lemma class_sound_unrouted:
  "cl_routeClass c = RouteNone \<Longrightarrow> cl_access c = 0 \<Longrightarrow> \<not> cl_hasPosted c \<Longrightarrow> \<not> cl_onewayForward c \<Longrightarrow> cl_laneCount c = 0 \<Longrightarrow>
   cl_layer c = 0 \<Longrightarrow> class_sound tags c"
  by (simp add: class_sound_def)

lemma highwayRule_rows:
  assumes "highwayRule value = Some rule"
  shows "1 \<le> hr_freeFlowKph rule" "hr_freeFlowKph rule \<le> 400" "hr_route rule \<noteq> RouteNone" "hr_render rule \<noteq> RenderNone"
proof -
  have "rule \<in> set kHighways" using assms by (auto simp: highwayRule_def find_Some_iff)
  moreover have "list_all (\<lambda>r. 1 \<le> hr_freeFlowKph r \<and> hr_freeFlowKph r \<le> 400 \<and> hr_route r \<noteq> RouteNone \<and> hr_render r \<noteq> RenderNone) kHighways"
    by (simp add: kHighways_def rule_row_def)
  ultimately show "1 \<le> hr_freeFlowKph rule" "hr_freeFlowKph rule \<le> 400" "hr_route rule \<noteq> RouteNone" "hr_render rule \<noteq> RenderNone"
    by (auto simp: list_all_iff)
qed

text \<open>
  C14.  Every classification is one the map and the router can use: never one-way in both directions, lanes and layer within their
  range; and what is routed is also drawn and has a speed from 1 to 400 km/h, which is the posted one exactly when the
  tags have a speed limit that can be read, and then comes from the sign; what is not routed is open to nobody.
\<close>

theorem classify_sound: "class_sound tags (classify tags closed)"
proof (cases "tag_get tags ''highway''")
  case (Some highway)
  show ?thesis
  proof (cases "highwayRule highway")
    case None
    with Some show ?thesis by (simp add: classify_def class_sound_def no_classification_def)
  next
    case rule: (Some rule)
    define base where "base = no_classification\<lparr>cl_renderClass := hr_render rule, cl_minZoom := hr_minZoom rule,
      cl_labelRank := hr_labelRank rule, cl_routeClass := hr_route rule, cl_access := applyAccess tags (hr_access rule)\<rparr>"
    have base: "\<not> cl_onewayForward base" "\<not> cl_onewayBackward base" "\<not> cl_hasPosted base" "cl_laneCount base = 0" "cl_layer base = 0"
      "cl_routeClass base = hr_route rule" "cl_renderClass base = hr_render rule"
      by (simp_all add: base_def no_classification_def)
    define out where "out = applySpeed tags (applyOneway tags base) (hr_freeFlowKph rule)"
    note r = highwayRule_rows [OF rule]
    have sound: "class_sound tags out"
      using applySpeed_speed [OF r(1,2), of "applyOneway tags base" tags] applyOneway_one [OF base(1,2), of tags] base r
      by (simp add: class_sound_def cl_drawn_def out_def applySpeed_others applyOneway_others)
    have "classify tags closed = classify_highway tags rule" by (simp add: classify_def Some rule)
    with sound show ?thesis
      unfolding classify_highway_def base_def [symmetric] out_def [symmetric] Let_def
      by (auto intro!: class_sound_bridge class_sound_layer class_sound_lanes split: option.split)
  qed
next
  case None
  define base where "base = no_classification\<lparr>cl_renderClass := RenderFerry, cl_className := ''ferry'', cl_minZoom := 8,
      cl_labelRank := 7, cl_routeClass := RouteFerry, cl_access := applyAccess tags kVehicle\<rparr>"
  have "class_sound tags (applySpeed tags base 25)"
    using applySpeed_speed [of 25 base tags]
    by (simp add: class_sound_def cl_drawn_def applySpeed_others) (simp add: base_def no_classification_def)
  then show ?thesis
    unfolding classify_def None option.case base_def [symmetric] by (simp add: class_sound_unrouted no_classification_def)
qed

section \<open>Speed limits\<close>

lemma take_digits:
  assumes "s = [] \<or> \<not> is_digit (hd s)"
  shows "takeWhile is_digit (show_nat n @ s) = show_nat n" "length (takeWhile is_digit (show_nat n @ s)) = length (show_nat n)"
proof -
  have "takeWhile is_digit s = []" using assms by (cases s) auto
  moreover have "\<forall>c\<in>set (show_nat n). is_digit c" using show_nat_digits [of n] by (simp add: list_all_iff)
  ultimately show "takeWhile is_digit (show_nat n @ s) = show_nat n" by (simp add: takeWhile_append2)
  then show "length (takeWhile is_digit (show_nat n @ s)) = length (show_nat n)" by simp
qed

lemma parse_shown:
  assumes "n < 2 ^ 32" "s = [] \<or> \<not> is_digit (hd s)"
  shows "parseMaxspeed (show_nat n @ s) =
    (let suffix = dropWhile (\<lambda>c. c = CHR 0x20) s;
         known = (if prefix ''mph'' suffix then Some ((n * 1609 + 500) mod 2 ^ 32 div 1000)
           else if prefix ''knots'' suffix then Some ((n * 1852 + 500) mod 2 ^ 32 div 1000)
           else if suffix \<noteq> [] \<and> \<not> prefix ''km/h'' suffix \<and> \<not> prefix ''kph'' suffix then None else Some n) in
     case known of None \<Rightarrow> None | Some number \<Rightarrow> if number = 0 \<or> number > 400 then None else Some number)"
proof -
  note t = take_digits [OF assms(2), of n]
  have "takeWhile is_digit (show_nat n) = show_nat n" using take_digits(1) [of "[]" n] by simp
  then have "from_chars_uint (show_nat n) = (if show_nat n = [] \<or> n \<ge> 2 ^ 32 then None else Some n)"
    by (simp only: from_chars_uint_def digits_value_show Let_def)
  then have "from_chars_uint (show_nat n) = Some n" using assms(1) by (simp add: show_nat_nonempty)
  then show ?thesis unfolding parseMaxspeed_def t by (simp add: show_nat_nonempty)
qed

text \<open>The units the reader knows, after any blanks, and the way back to mph on the display (\<open>toMph\<close>).\<close>

definition known_unit :: "string \<Rightarrow> bool" where
  "known_unit u \<longleftrightarrow> dropWhile (\<lambda>c. c = CHR 0x20) u = [] \<or>
     list_ex (\<lambda>k. prefix k (dropWhile (\<lambda>c. c = CHR 0x20) u)) [''mph'', ''knots'', ''km/h'', ''kph'']"

definition toMph :: "nat \<Rightarrow> nat" where
  "toMph kph = (kph * 1000 + 804) div 1609"

lemma thousands: "1000 * (m div 1000) \<le> m" "m < 1000 * (m div 1000) + 1000" for m :: nat
  using dividend_less_times_div [of 1000 m] by simp_all

lemma round_mph:
  fixes n :: nat
  defines "k \<equiv> (n * 1609 + 500) div 1000"
  shows "k = 0 \<longleftrightarrow> n = 0" "400 < k \<longleftrightarrow> 248 < n" "toMph k = n"
    "n \<le> 248 \<Longrightarrow> \<bar>1000000 * int k - 1609344 * int n\<bar> < 586000"
proof -
  note k = thousands [of "n * 1609 + 500", folded k_def]
  show "k = 0 \<longleftrightarrow> n = 0" "400 < k \<longleftrightarrow> 248 < n" using k by linarith+
  have "1609 * n \<le> k * 1000 + 804" "k * 1000 + 804 < 1609 * Suc n" using k by simp_all
  then have "(k * 1000 + 804) div 1609 = n" by (intro div_nat_eqI) simp_all
  then show "toMph k = n" by (simp only: toMph_def)
  show "n \<le> 248 \<Longrightarrow> \<bar>1000000 * int k - 1609344 * int n\<bar> < 586000" using k by linarith
qed

lemma round_knots:
  fixes n :: nat
  defines "k \<equiv> (n * 1852 + 500) div 1000"
  shows "k = 0 \<longleftrightarrow> n = 0" "400 < k \<longleftrightarrow> 216 < n" "\<bar>1000 * int k - 1852 * int n\<bar> \<le> 500"
proof -
  note k = thousands [of "n * 1852 + 500", folded k_def]
  then show "k = 0 \<longleftrightarrow> n = 0" "400 < k \<longleftrightarrow> 216 < n" "\<bar>1000 * int k - 1852 * int n\<bar> \<le> 500" by linarith+
qed

text \<open>
  C16.  What a limit written as a number is read as.  Alone or in km/h it is read exactly, from 1 to 400.  In knots it is read to
  the nearest km/h, from 1 to 216 knots.  In mph (1.609344 km/h) it is read from 1 to 248 mph, and less than 0.586 km/h off: the factor
  is 1609, so some are read one below the nearest km/h, 55 mph (88.51 km/h) as 88; shown in mph again each is the number on the
  sign.  Any other number, and any number in another unit, is refused.  This holds up to 2319097; above, the 32-bit product
  can wrap and a nonsensical tag be read as a limit: 2319098 knots as 2 km/h, 2669340 mph as 1.
\<close>

theorem maxspeed_exact:
  assumes "n \<le> 2319097"
  shows "(case parseMaxspeed (show_nat n @ '' mph'') of
      Some k \<Rightarrow> 1 \<le> n \<and> n \<le> 248 \<and> \<bar>1000000 * int k - 1609344 * int n\<bar> < 586000 \<and> toMph k = n
    | None \<Rightarrow> n = 0 \<or> 249 \<le> n) \<and>
    (case parseMaxspeed (show_nat n @ '' knots'') of
      Some k \<Rightarrow> 1 \<le> n \<and> n \<le> 216 \<and> \<bar>1000 * int k - 1852 * int n\<bar> \<le> 500
    | None \<Rightarrow> n = 0 \<or> 217 \<le> n) \<and>
    (\<forall>u\<in>{'''', '' km/h'', '' kph''}. parseMaxspeed (show_nat n @ u) = (if n = 0 \<or> n > 400 then None else Some n)) \<and>
    (known_unit u \<or> is_digit (hd u) \<or> parseMaxspeed (show_nat n @ u) = None) \<and>
    parseMaxspeed ''55 mph'' = Some 88 \<and> parseMaxspeed ''2319098 knots'' = Some 2 \<and> parseMaxspeed ''2669340 mph'' = Some 1"
proof (intro conjI)
  have n: "n < 2 ^ 32" "n * 1609 + 500 < 2 ^ 32" using assms by simp_all
  have not: "\<not> is_digit (CHR 0x20)" by (simp add: is_digit_def)
  have "parseMaxspeed (show_nat n @ '' mph'') = (let k = (n * 1609 + 500) div 1000 in if k = 0 \<or> 400 < k then None else Some k)"
    using parse_shown [OF n(1), of "'' mph''"] n(2) not by (simp add: Let_def)
  then show "case parseMaxspeed (show_nat n @ '' mph'') of
      Some k \<Rightarrow> 1 \<le> n \<and> n \<le> 248 \<and> \<bar>1000000 * int k - 1609344 * int n\<bar> < 586000 \<and> toMph k = n
    | None \<Rightarrow> n = 0 \<or> 249 \<le> n"
    unfolding Let_def round_mph(1,2) using round_mph(3,4) [of n] by (simp split: if_splits)
  have "parseMaxspeed (show_nat n @ '' knots'') = (let k = (n * 1852 + 500) div 1000 in if k = 0 \<or> 400 < k then None else Some k)"
  proof (cases "n = 2319097")
    case False
    then have "n * 1852 + 500 < 2 ^ 32" using assms by simp
    then show ?thesis using parse_shown [OF n(1), of "'' knots''"] not by (simp add: Let_def)
  qed (use parse_shown [OF n(1), of "'' knots''"] not in \<open>simp add: Let_def\<close>)
  then show "case parseMaxspeed (show_nat n @ '' knots'') of
      Some k \<Rightarrow> 1 \<le> n \<and> n \<le> 216 \<and> \<bar>1000 * int k - 1852 * int n\<bar> \<le> 500 | None \<Rightarrow> n = 0 \<or> 217 \<le> n"
    unfolding Let_def round_knots(1,2) using round_knots(3) [of n] by (simp split: if_splits)
  show "\<forall>u\<in>{'''', '' km/h'', '' kph''}. parseMaxspeed (show_nat n @ u) = (if n = 0 \<or> n > 400 then None else Some n)"
    using parse_shown [OF n(1), of "[]"] parse_shown [OF n(1), of "'' km/h''"] parse_shown [OF n(1), of "'' kph''"] not
    by (simp add: Let_def)
  show "known_unit u \<or> is_digit (hd u) \<or> parseMaxspeed (show_nat n @ u) = None"
  proof (cases "known_unit u \<or> is_digit (hd u)")
    case False
    then have "parseMaxspeed (show_nat n @ u) = None"
      using parse_shown [OF n(1), of u] by (simp add: known_unit_def Let_def del: dropWhile_eq_Nil_conv)
    then show ?thesis by blast
  qed blast
  show "parseMaxspeed ''55 mph'' = Some 88" "parseMaxspeed ''2319098 knots'' = Some 2" "parseMaxspeed ''2669340 mph'' = Some 1"
    by (simp_all add: parseMaxspeed_def from_chars_uint_def is_digit_def digits_value_def Let_def)
qed

theorem maxspeed_exact_witness:
  "parseMaxspeed (show_nat 65 @ '' km/h'') = Some 65 \<and> parseMaxspeed (show_nat 65 @ '' furlongs'') = None"
  using maxspeed_exact [of 65 "'' furlongs''"] by (simp add: known_unit_def is_digit_def)

lemma unread_oneway_open:
  assumes "tag_get tags ''oneway'' = Some v" "v \<notin> {''yes'', ''1'', ''true'', ''-1'', ''reverse''}"
  shows "applyOneway tags out = out"
  using assms by (simp add: applyOneway_def)

end
