(* ===== verification/MapLabels.thy ===== *)
theory MapLabels
  imports MapRules
begin

text \<open>
  libs/map_rules/src/labels.cpp: which label features an OSM entity carries, from its tags: points of interest, the ground of
  airports and their names, protected land and summits; and the gate that says whether any of them could.
\<close>

section \<open>Labels\<close>

record label_feature =
  lf_layer :: string
  lf_className :: string
  lf_subclass :: string
  lf_minZoom :: nat
  lf_rank :: nat

definition no_label :: label_feature where
  "no_label = \<lparr>lf_layer = [], lf_className = [], lf_subclass = [], lf_minZoom = 255, lf_rank = 255\<rparr>"

definition lf_drawn :: "label_feature \<Rightarrow> bool" where
  "lf_drawn f \<longleftrightarrow> lf_layer f \<noteq> []"

definition kPoiKeys :: "(string \<times> string \<times> nat \<times> nat) list" where
  "kPoiKeys =
    [(''aeroway'', ''aeroway'', 13, 10), (''railway'', ''railway'', 13, 12), (''shop'', ''shop'', 14, 30),
     (''tourism'', ''tourism'', 13, 20), (''historic'', ''historic'', 14, 25), (''office'', ''office'', 14, 35),
     (''leisure'', ''leisure'', 14, 28), (''amenity'', ''amenity'', 14, 22), (''landuse'', ''landuse'', 14, 40)]"

definition isBackground :: "string \<Rightarrow> string \<Rightarrow> bool" where
  "isBackground key v =
     (if key = ''leisure'' then v \<in> {''park'', ''garden'', ''pitch'', ''nature_reserve'', ''common'', ''swimming_pool''}
      else if key = ''landuse'' then v \<notin> {''cemetery'', ''quarry'', ''military''}
      else if key = ''amenity''
        then v \<in> {''parking_space'', ''bench'', ''waste_basket'', ''bicycle_parking'', ''grit_bin'', ''drinking_water''}
      else if key = ''railway'' then v \<notin> {''station'', ''halt'', ''tram_stop'', ''subway_entrance''}
      else if key = ''aeroway'' then v \<notin> {''terminal'', ''gate'', ''helipad''}
      else if key = ''tourism'' then v = ''yes''
      else False)"

definition kLabelKeys :: "string list" where
  "kLabelKeys = [''aeroway'', ''railway'', ''shop'', ''tourism'', ''historic'', ''office'',
     ''leisure'', ''amenity'', ''landuse'', ''natural'', ''boundary'', ''addr:housenumber'']"

definition hasLabelTags :: "tags \<Rightarrow> bool" where
  "hasLabelTags tags = list_ex (\<lambda>(key, value). list_ex (\<lambda>candidate. key = candidate) kLabelKeys) tags"

definition poi_value :: "tags \<Rightarrow> string \<Rightarrow> string option" where
  "poi_value tags key =
     (case tag_get tags key of None \<Rightarrow> None
      | Some v \<Rightarrow> if v = [] \<or> v = ''no'' then None else if isBackground key v then None else Some v)"

fun poi_loop :: "tags \<Rightarrow> (string \<times> string \<times> nat \<times> nat) list \<Rightarrow> label_feature" where
  "poi_loop tags [] = no_label"
| "poi_loop tags ((key, className, minZoom, rank) # entries) =
     (case poi_value tags key of None \<Rightarrow> poi_loop tags entries
      | Some v \<Rightarrow> \<lparr>lf_layer = ''poi'', lf_className = className, lf_subclass = v, lf_minZoom = minZoom, lf_rank = rank\<rparr>)"

definition classifyPoi :: "tags \<Rightarrow> label_feature" where
  "classifyPoi tags = poi_loop tags kPoiKeys"

definition classifyAeroway :: "tags \<Rightarrow> label_feature" where
  "classifyAeroway tags =
     (case tag_get tags ''aeroway'' of None \<Rightarrow> no_label
      | Some v \<Rightarrow>
          if v = [] \<or> v = ''terminal'' \<or> v = ''gate'' \<or> v = ''tower'' then no_label
          else let out = no_label\<lparr>lf_layer := ''aeroway'', lf_subclass := v\<rparr> in
            if v = ''runway'' then out\<lparr>lf_className := ''runway'', lf_minZoom := 10, lf_rank := 1\<rparr>
            else if v = ''aerodrome'' then out\<lparr>lf_className := ''aerodrome'', lf_minZoom := 11, lf_rank := 2\<rparr>
            else if v = ''taxiway'' then out\<lparr>lf_className := ''taxiway'', lf_minZoom := 13, lf_rank := 3\<rparr>
            else if v = ''apron'' then out\<lparr>lf_className := ''apron'', lf_minZoom := 13, lf_rank := 4\<rparr>
            else if v = ''helipad'' then out\<lparr>lf_className := ''helipad'', lf_minZoom := 14, lf_rank := 5\<rparr>
            else out\<lparr>lf_className := ''other'', lf_minZoom := 14, lf_rank := 6\<rparr>)"

definition classifyAerodrome :: "tags \<Rightarrow> label_feature" where
  "classifyAerodrome tags =
     (if \<not> tag_is tags ''aeroway'' ''aerodrome'' then no_label
      else let kind = (case tag_get tags ''aerodrome:type'' of Some k \<Rightarrow> k
                 | None \<Rightarrow> (case tag_get tags ''aerodrome'' of Some k \<Rightarrow> k | None \<Rightarrow> []));
               international = (kind = ''international'' \<or> tag_has tags ''iata'') in
        \<lparr>lf_layer = ''aerodrome_label'', lf_className = (if international then ''international'' else ''other''),
         lf_subclass = kind, lf_minZoom = (if international then 8 else 12), lf_rank = (if international then 1 else 5)\<rparr>)"

definition classifyPark :: "tags \<Rightarrow> label_feature" where
  "classifyPark tags =
     (if tag_is tags ''protection_title'' ''National Forest'' then no_label
      else if tag_is tags ''boundary'' ''national_park''
        then \<lparr>lf_layer = ''park'', lf_className = ''national_park'', lf_subclass = ''national_park'', lf_minZoom = 5, lf_rank = 1\<rparr>
      else if tag_is tags ''leisure'' ''nature_reserve''
        then \<lparr>lf_layer = ''park'', lf_className = ''nature_reserve'', lf_subclass = ''nature_reserve'', lf_minZoom = 8, lf_rank = 2\<rparr>
      else no_label)"

definition classifyMountainPeak :: "tags \<Rightarrow> label_feature" where
  "classifyMountainPeak tags =
     (case tag_get tags ''natural'' of None \<Rightarrow> no_label
      | Some natural \<Rightarrow>
          if natural \<noteq> ''peak'' \<and> natural \<noteq> ''volcano'' \<and> natural \<noteq> ''saddle'' \<and> natural \<noteq> ''ridge'' then no_label
          else \<lparr>lf_layer = ''mountain_peak'', lf_className = (if natural = ''volcano'' then ''volcano'' else ''peak''),
                lf_subclass = natural, lf_minZoom = 11, lf_rank = (if natural = ''volcano'' then 1 else 3)\<rparr>)"

section \<open>The gate\<close>

lemma hasLabelTags_get: "tag_has tags key \<Longrightarrow> key \<in> set kLabelKeys \<Longrightarrow> hasLabelTags tags"
  by (auto simp: hasLabelTags_def tag_has_def tag_get_def list_ex_iff dest: map_of_SomeD)

lemma poi_loop_drawn: "lf_drawn (poi_loop tags entries) \<Longrightarrow> \<exists>key\<in>set (map fst entries). tag_has tags key"
  by (induction tags entries rule: poi_loop.induct)
    (auto simp: lf_drawn_def no_label_def poi_value_def tag_has_def split: option.splits if_splits)

text \<open>
  C17.  The gate asked of every way before it is dropped misses nothing: if it says no, no label classifier says yes.
\<close>

theorem label_gate_complete:
  "hasLabelTags tags \<or> \<not> (lf_drawn (classifyPoi tags) \<or> lf_drawn (classifyAeroway tags) \<or> lf_drawn (classifyAerodrome tags) \<or>
     lf_drawn (classifyPark tags) \<or> lf_drawn (classifyMountainPeak tags))"
proof (rule disjCI, rule ccontr)
  assume "\<not> \<not> (lf_drawn (classifyPoi tags) \<or> lf_drawn (classifyAeroway tags) \<or> lf_drawn (classifyAerodrome tags) \<or>
     lf_drawn (classifyPark tags) \<or> lf_drawn (classifyMountainPeak tags))" and no: "\<not> hasLabelTags tags"
  then consider "lf_drawn (classifyPoi tags)" | "lf_drawn (classifyAeroway tags)" | "lf_drawn (classifyAerodrome tags)"
    | "lf_drawn (classifyPark tags)" | "lf_drawn (classifyMountainPeak tags)" by blast
  then have "\<exists>key\<in>set kLabelKeys. tag_has tags key"
  proof cases
    case 1
    from poi_loop_drawn [OF this [unfolded classifyPoi_def]] show ?thesis by (simp add: kPoiKeys_def kLabelKeys_def) blast
  qed (auto simp: kLabelKeys_def lf_drawn_def no_label_def tag_has_def tag_is_def classifyAeroway_def classifyAerodrome_def
        classifyPark_def classifyMountainPeak_def split: option.splits if_splits)
  with no hasLabelTags_get show False by blast
qed

theorem label_gate_complete_witness: "\<not> lf_drawn (classifyPoi [(''highway'', ''steps'')])"
proof -
  have "\<not> hasLabelTags [(''highway'', ''steps'')]" by (simp add: hasLabelTags_def kLabelKeys_def)
  with label_gate_complete [of "[(''highway'', ''steps'')]"] show ?thesis by blast
qed

end
