(* ===== verification/RoadBuild.thy ===== *)
theory RoadBuild
  imports Overlay RoadTree MapRules "HOL-Library.Multiset"
begin

text \<open>
  libs/road_graph/src/builder.cpp: the builder of a road graph, from pieces of ways to the arrays of the file, with the
  Hilbert curve of geometry.h that orders them, and the checks with which \<open>Graph::bind\<close> takes the arrays back.
  The bytes of the file and its section table are left out: a file is its header values and its arrays.

  \<open>std::sort\<close> does not say how it orders equal elements; it is the parameter \<open>srt\<close>, of which \<open>sorts\<close> states what the
  standard promises.  The distance as the crow flies is the parameter \<open>crow\<close>.  Sums of 32 bits do not wrap below
  2^32 items.
\<close>

section \<open>Inputs\<close>

definition kFlagHasPosted :: u16 where
  "kFlagHasPosted = push_bit 2 1"

definition kFlagBridge :: u16 where
  "kFlagBridge = push_bit 3 1"

definition kFlagTunnel :: u16 where
  "kFlagTunnel = push_bit 4 1"

record segment_input =
  si_id :: u64
  si_osmWayId :: int
  si_geometry :: "int list"
  si_fromNodeId :: int
  si_toNodeId :: int
  si_classification :: road_classification
  si_name :: string
  si_ref :: string

record restriction_input =
  ri_fromWayId :: int
  ri_viaNodeId :: int
  ri_toWayId :: int
  ri_only :: bool

record pending =
  pd_input :: segment_input
  pd_from :: nat
  pd_to :: nat
  pd_lengthCm :: nat

record builder =
  bd_segments :: "pending list"
  bd_nodeIds :: "int \<Rightarrow> nat option"
  bd_nodes :: "node_record list"
  bd_strings :: string
  bd_stringOffsets :: "string \<Rightarrow> nat option"
  bd_restrictions :: "restriction_input list"
  bd_offered :: nat
  bd_resolved :: nat
  bd_unresolved :: nat

definition new_builder :: builder where
  "new_builder = \<lparr>bd_segments = [], bd_nodeIds = (\<lambda>i. None), bd_nodes = [], bd_strings = [CHR 0x00],
     bd_stringOffsets = (\<lambda>s. None), bd_restrictions = [], bd_offered = 0, bd_resolved = 0, bd_unresolved = 0\<rparr>"

definition flagsOf :: "road_classification \<Rightarrow> u16" where
  "flagsOf c =
     (let flags = 0;
          flags = (if cl_onewayForward c then flags OR kFlagOnewayForward else flags);
          flags = (if cl_onewayBackward c then flags OR kFlagOnewayBackward else flags);
          flags = (if cl_hasPosted c then flags OR kFlagHasPosted else flags);
          flags = (if cl_isBridge c then flags OR kFlagBridge else flags);
          flags = (if cl_isTunnel c then flags OR kFlagTunnel else flags) in flags)"

fun leg_sum :: "(node_record \<Rightarrow> node_record \<Rightarrow> rat) \<Rightarrow> rat \<Rightarrow> int list \<Rightarrow> rat" where
  "leg_sum crow metres (a # b # c # d # rest) =
     leg_sum crow (dadd metres (crow \<lparr>nd_lat = a, nd_lon = b\<rparr> \<lparr>nd_lat = c, nd_lon = d\<rparr>)) (c # d # rest)"
| "leg_sum crow metres geometry = metres"

definition polylineLengthCm :: "(node_record \<Rightarrow> node_record \<Rightarrow> rat) \<Rightarrow> int list \<Rightarrow> nat" where
  "polylineLengthCm crow geometry =
     (let cm = to_double (leg_sum crow 0 geometry * 100) in if cm > 4000000000 then 4000000000 else nat \<lfloor>cm\<rfloor>)"

definition nodeFor :: "int \<Rightarrow> int \<Rightarrow> int \<Rightarrow> builder \<Rightarrow> nat \<times> builder" where
  "nodeFor osmNodeId lat lon b =
     (case bd_nodeIds b osmNodeId of Some found \<Rightarrow> (found, b)
      | None \<Rightarrow> (length (bd_nodes b),
          b\<lparr>bd_nodes := bd_nodes b @ [\<lparr>nd_lat = lat, nd_lon = lon\<rparr>],
            bd_nodeIds := (bd_nodeIds b)(osmNodeId \<mapsto> length (bd_nodes b))\<rparr>))"

definition internString :: "string \<Rightarrow> builder \<Rightarrow> nat \<times> builder" where
  "internString s b =
     (if s = [] then (kNoString, b)
      else case bd_stringOffsets b s of Some found \<Rightarrow> (found, b)
        | None \<Rightarrow> (length (bd_strings b),
            b\<lparr>bd_strings := bd_strings b @ s @ [CHR 0x00],
              bd_stringOffsets := (bd_stringOffsets b)(s \<mapsto> length (bd_strings b))\<rparr>))"

definition builder_add :: "(node_record \<Rightarrow> node_record \<Rightarrow> rat) \<Rightarrow> segment_input \<Rightarrow> builder \<Rightarrow> builder" where
  "builder_add crow segment b =
     (let geometry = si_geometry segment; n = length geometry in
      if n < 4 then b
      else let (src, b) = nodeFor (si_fromNodeId segment) (geometry ! 0) (geometry ! 1) b;
               (dst, b) = nodeFor (si_toNodeId segment) (geometry ! (n - 2)) (geometry ! (n - 1)) b in
        b\<lparr>bd_segments := bd_segments b @ [\<lparr>pd_input = segment, pd_from = src, pd_to = dst,
            pd_lengthCm = polylineLengthCm crow geometry\<rparr>]\<rparr>)"

definition addRestriction :: "restriction_input \<Rightarrow> builder \<Rightarrow> builder" where
  "addRestriction r b = b\<lparr>bd_restrictions := bd_restrictions b @ [r]\<rparr>"

section \<open>The Hilbert curve\<close>

text \<open>The loop over the bits from the highest down; the coordinates wrap in 32 bits, of which only the lower ones are read again.\<close>

fun hilbert_loop :: "nat \<Rightarrow> u32 \<Rightarrow> u32 \<Rightarrow> u64 \<Rightarrow> u64" where
  "hilbert_loop 0 x y index = index"
| "hilbert_loop (Suc k) x y index =
     (let s = push_bit k 1 :: u32;
          rx = (if x AND s > 0 then 1 else 0) :: u32; ry = (if y AND s > 0 then 1 else 0) :: u32;
          index = index + ucast s * ucast s * ucast ((3 * rx) XOR ry);
          (x, y) = (if ry = 0 then (let (x, y) = (if rx = 1 then (s - 1 - x, s - 1 - y) else (x, y)) in (y, x)) else (x, y)) in
      hilbert_loop k x y index)"

definition hilbertIndex :: "u32 \<Rightarrow> u32 \<Rightarrow> nat \<Rightarrow> u64" where
  "hilbertIndex x y order = hilbert_loop order x y 0"

definition kCoordScale :: rat where
  "kCoordScale = to_double (1 / 10000000)"

definition toDegrees :: "int \<Rightarrow> rat" where
  "toDegrees v = to_double (of_int v * kCoordScale)"

definition hilbertOf :: "int \<Rightarrow> int \<Rightarrow> u64" where
  "hilbertOf lat lon =
     (let x = to_double (dadd (toDegrees lon) 180 / 360); y = to_double (dadd (toDegrees lat) 90 / 180);
          gx = word_of_int \<lfloor>to_double (x * 65535)\<rfloor>; gy = word_of_int \<lfloor>to_double (y * 65535)\<rfloor> in
      hilbertIndex gx gy 16)"

section \<open>Sorting\<close>

definition weak_order :: "(nat \<Rightarrow> nat \<Rightarrow> bool) \<Rightarrow> bool" where
  "weak_order lt \<longleftrightarrow> (\<forall>a b. lt a b \<longrightarrow> \<not> lt b a) \<and> (\<forall>a b c. \<not> lt a b \<longrightarrow> \<not> lt b c \<longrightarrow> \<not> lt a c)"

definition sorts :: "((nat \<Rightarrow> nat \<Rightarrow> bool) \<Rightarrow> nat list \<Rightarrow> nat list) \<Rightarrow> bool" where
  "sorts srt \<longleftrightarrow> (\<forall>lt xs. weak_order lt \<longrightarrow> mset (srt lt xs) = mset xs \<and> sorted_wrt (\<lambda>a b. \<not> lt b a) (srt lt xs))"

definition sort_elements ::
  "((nat \<Rightarrow> nat \<Rightarrow> bool) \<Rightarrow> nat list \<Rightarrow> nat list) \<Rightarrow> ('a \<Rightarrow> 'a \<Rightarrow> bool) \<Rightarrow> 'a list \<Rightarrow> 'a list" where
  "sort_elements srt lt xs = map ((!) xs) (srt (\<lambda>i j. lt (xs ! i) (xs ! j)) [0..<length xs])"

text \<open>Where each old position went.\<close>

definition remap_of :: "nat list \<Rightarrow> nat list" where
  "remap_of order = fold (\<lambda>i r. r[order ! i := i]) [0..<length order] (replicate (length order) 0)"

section \<open>The arrays\<close>

definition make_segment ::
  "nat list \<Rightarrow> pending \<Rightarrow> segment_record list \<times> int list \<times> builder \<Rightarrow> segment_record list \<times> int list \<times> builder" where
  "make_segment nodeRemap p st =
     (let (segments, geometry, b) = st; input = pd_input p; c = si_classification input;
          (name, b) = internString (si_name input) b; (ref, b) = internString (si_ref input) b;
          record = \<lparr>sg_id = si_id input, osmWayId = si_osmWayId input, geometryOffset = length geometry div 2,
            geometryCount = length (si_geometry input) div 2, fromNode = nodeRemap ! pd_from p, toNode = nodeRemap ! pd_to p,
            nameOffset = name, refOffset = ref, lengthCm = pd_lengthCm p, postedSpeedKph = cl_postedSpeedKph c,
            freeFlowSpeedKph = cl_freeFlowSpeedKph c, accessMask = unat (cl_access c), sg_flags = flagsOf c,
            renderClass = render_code (cl_renderClass c), routeClass = route_code (cl_routeClass c), postedSource = source_code (cl_postedSource c),
            laneCount = cl_laneCount c, sg_layer = cl_layer c\<rparr> in
      (segments @ [record], geometry @ si_geometry input, b))"

definition forwardOpen :: "segment_record \<Rightarrow> bool" where
  "forwardOpen s \<longleftrightarrow> sg_flags s AND kFlagOnewayBackward = 0"

definition backwardOpen :: "segment_record \<Rightarrow> bool" where
  "backwardOpen s \<longleftrightarrow> sg_flags s AND kFlagOnewayForward = 0"

definition routed :: "segment_record \<Rightarrow> bool" where
  "routed s \<longleftrightarrow> \<not> (routeClass s = 0 \<or> accessMask s = 0)"

definition count_degrees :: "segment_record list \<Rightarrow> nat \<Rightarrow> nat list" where
  "count_degrees segments n = fold (\<lambda>s degree.
       if \<not> routed s then degree
       else let degree = (if forwardOpen s then degree[fromNode s := degree ! fromNode s + 1] else degree) in
         (if backwardOpen s then degree[toNode s := degree ! toNode s + 1] else degree))
     segments (replicate (n + 1) 0)"

definition running_offsets :: "nat list \<Rightarrow> nat \<Rightarrow> nat list" where
  "running_offsets degree n =
     (let (offsets, running) = fold (\<lambda>i (offsets, running). (offsets[i := running], running + degree ! i)) [0..<n]
            (replicate (n + 1) 0, 0) in offsets[n := running])"

definition place_edges :: "segment_record list \<Rightarrow> nat \<Rightarrow> edge_record list \<times> nat list \<Rightarrow> edge_record list \<times> nat list" where
  "place_edges segments index st =
     (let s = segments ! index in
      if \<not> routed s then st
      else let st = (if forwardOpen s then csr_place (fromNode s,
                \<lparr>ed_segment = index, ed_target = toNode s, costDs = free_flow_costDs s, ed_forward = 1\<rparr>) st else st) in
        (if backwardOpen s then csr_place (toNode s,
                \<lparr>ed_segment = index, ed_target = fromNode s, costDs = free_flow_costDs s, ed_forward = 0\<rparr>) st else st))"

definition build_edges :: "segment_record list \<Rightarrow> nat \<Rightarrow> edge_record list \<times> nat list" where
  "build_edges segments n =
     (let offsets = running_offsets (count_degrees segments n) n;
          blank = \<lparr>ed_segment = 0, ed_target = 0, costDs = 0, ed_forward = 0\<rparr> in
      (fst (fold (place_edges segments) [0..<length segments] (replicate (offsets ! n) blank, offsets)), offsets))"

definition way_before :: "segment_record \<Rightarrow> segment_record \<Rightarrow> bool" where
  "way_before a b =
     (if osmWayId a \<noteq> osmWayId b then osmWayId a < osmWayId b else ordinalOf (sg_id a) < ordinalOf (sg_id b))"

definition add_way :: "segment_record list \<Rightarrow> nat \<Rightarrow> way_index_entry list \<Rightarrow> way_index_entry list" where
  "add_way segments i wayIndex =
     (if wayIndex \<noteq> [] \<and> wi_wayId (last wayIndex) = osmWayId (segments ! i)
      then butlast wayIndex @ [(last wayIndex)\<lparr>wi_segmentCount := wi_segmentCount (last wayIndex) + 1\<rparr>]
      else wayIndex @ [\<lparr>wi_wayId = osmWayId (segments ! i), firstSegment = i, wi_segmentCount = 1\<rparr>])"

definition segments_of_way :: "way_index_entry list \<Rightarrow> int \<Rightarrow> nat \<times> nat" where
  "segments_of_way wayIndex wayId =
     (let i = lower_bound (\<lambda>e. wi_wayId e < wayId) wayIndex in
      if i = length wayIndex \<or> wi_wayId (wayIndex ! i) \<noteq> wayId then (0, 0)
      else (firstSegment (wayIndex ! i), wi_segmentCount (wayIndex ! i)))"

definition find_touching :: "segment_record list \<Rightarrow> way_index_entry list \<Rightarrow> nat \<Rightarrow> int \<Rightarrow> nat" where
  "find_touching segments wayIndex via wayId =
     (let (first, count) = segments_of_way wayIndex wayId in
      case find (\<lambda>i. fromNode (segments ! i) = via \<or> toNode (segments ! i) = via) [first..<first + count] of
        None \<Rightarrow> kNoSegment | Some i \<Rightarrow> i)"

text \<open>The counts are offered, resolved and unresolved.\<close>

definition resolve_restriction ::
  "segment_record list \<Rightarrow> way_index_entry list \<Rightarrow> nat list \<Rightarrow> restriction_input \<Rightarrow>
   turn_restriction list \<times> builder \<Rightarrow> turn_restriction list \<times> builder" where
  "resolve_restriction segments wayIndex nodeRemap input st =
     (let (restrictions, b) = st; b = b\<lparr>bd_offered := bd_offered b + 1\<rparr> in
      case bd_nodeIds b (ri_viaNodeId input) of None \<Rightarrow> (restrictions, b\<lparr>bd_unresolved := bd_unresolved b + 1\<rparr>)
      | Some v \<Rightarrow>
          (let via = nodeRemap ! v; src = find_touching segments wayIndex via (ri_fromWayId input);
               dst = find_touching segments wayIndex via (ri_toWayId input) in
           if src = kNoSegment \<or> dst = kNoSegment then (restrictions, b\<lparr>bd_unresolved := bd_unresolved b + 1\<rparr>)
           else (restrictions @ [\<lparr>fromSegment = src, viaNode = via, toSegment = dst,
                    tr_kind = (if ri_only input then kRestrictionOnly else kRestrictionProhibited)\<rparr>],
                 b\<lparr>bd_resolved := bd_resolved b + 1\<rparr>)))"

definition restriction_before :: "turn_restriction \<Rightarrow> turn_restriction \<Rightarrow> bool" where
  "restriction_before a b =
     (if fromSegment a \<noteq> fromSegment b then fromSegment a < fromSegment b
      else if viaNode a \<noteq> viaNode b then viaNode a < viaNode b else toSegment a < toSegment b)"

section \<open>The file\<close>

record graph_file =
  gf_nodes :: "node_record list"
  gf_segments :: "segment_record list"
  gf_geometry :: "int list"
  gf_strings :: string
  gf_csrOffsets :: "nat list"
  gf_edges :: "edge_record list"
  gf_wayIndex :: "way_index_entry list"
  gf_idIndex :: "segment_id_index_entry list"
  gf_rtree :: "rtree_node list"
  gf_restrictions :: "turn_restriction list"
  gf_maxFreeFlowSpeedKph :: nat
  gf_box :: "int \<times> int \<times> int \<times> int"
  gf_builtAtUnixS :: int

text \<open>West, south, east, north.\<close>

fun grow_box :: "int list \<Rightarrow> int \<times> int \<times> int \<times> int \<Rightarrow> int \<times> int \<times> int \<times> int" where
  "grow_box (lat # lon # rest) (w, s, e, n) = grow_box rest (min w lon, min s lat, max e lon, max n lat)"
| "grow_box geometry box = box"

definition builder_write ::
  "((nat \<Rightarrow> nat \<Rightarrow> bool) \<Rightarrow> nat list \<Rightarrow> nat list) \<Rightarrow> int \<Rightarrow> builder \<Rightarrow> road_error + graph_file \<times> builder" where
  "builder_write srt builtAt b =
     (if bd_segments b = [] then Inl InvalidGraphArgument
      else let nodes = bd_nodes b;
          nodeOrder = srt (\<lambda>i j. hilbertOf (nd_lat (nodes ! i)) (nd_lon (nodes ! i)) < hilbertOf (nd_lat (nodes ! j)) (nd_lon (nodes ! j)))
            [0..<length nodes];
          nodeRemap = remap_of nodeOrder;
          orderedNodes = map ((!) nodes) nodeOrder;
          first = (\<lambda>p. hilbertOf (si_geometry (pd_input p) ! 0) (si_geometry (pd_input p) ! 1));
          ordered = sort_elements srt (\<lambda>p q. first p < first q) (bd_segments b);
          (segments, geometry, b) = fold (make_segment nodeRemap) ordered ([], [], b);
          (edges, offsets) = build_edges segments (length orderedNodes);
          idIndex = sort_elements srt (\<lambda>x y. ix_id x < ix_id y)
            (map (\<lambda>i. \<lparr>ix_id = sg_id (segments ! i), ix_index = i\<rparr>) [0..<length segments]);
          byWay = srt (\<lambda>i j. way_before (segments ! i) (segments ! j)) [0..<length segments];
          segmentRemap = remap_of byWay;
          segments = map ((!) segments) byWay;
          edges = map (\<lambda>e. e\<lparr>ed_segment := segmentRemap ! ed_segment e\<rparr>) edges;
          idIndex = map (\<lambda>x. x\<lparr>ix_index := segmentRemap ! ix_index x\<rparr>) idIndex;
          wayIndex = fold (add_way segments) [0..<length segments] [];
          (restrictions, b) = fold (resolve_restriction segments wayIndex nodeRemap) (bd_restrictions b) ([], b);
          restrictions = sort_elements srt restriction_before restrictions in
        Inr (\<lparr>gf_nodes = orderedNodes, gf_segments = segments, gf_geometry = geometry, gf_strings = bd_strings b,
              gf_csrOffsets = offsets, gf_edges = edges, gf_wayIndex = wayIndex, gf_idIndex = idIndex,
              gf_rtree = build_rtree geometry segments, gf_restrictions = restrictions,
              gf_maxFreeFlowSpeedKph = fold (\<lambda>s m. max m (freeFlowSpeedKph s)) segments 0,
              gf_box = grow_box geometry (coord_max, coord_max, coord_min, coord_min), gf_builtAtUnixS = builtAt\<rparr>, b))"

text \<open>\<open>bind\<close>: every section but the strings and the restrictions has to hold something.\<close>

definition graph_bind :: "graph_file \<Rightarrow> road_error + graph" where
  "graph_bind f =
     (if gf_nodes f = [] \<or> gf_segments f = [] \<or> gf_edges f = [] \<or> gf_geometry f = [] \<or> gf_csrOffsets f = [] \<or>
         gf_wayIndex f = [] \<or> gf_idIndex f = [] \<or> gf_rtree f = [] then Inl GraphMalformed
      else if length (gf_csrOffsets f) \<noteq> length (gf_nodes f) + 1 then Inl GraphMalformed
      else let fastest = gf_maxFreeFlowSpeedKph f;
               fastest = (if fastest = 0 then fold (\<lambda>s m. max m (freeFlowSpeedKph s)) (gf_segments f) fastest else fastest) in
        Inr \<lparr>g_nodes = gf_nodes f, g_segments = gf_segments f, g_edges = gf_edges f, g_geometry = gf_geometry f,
             g_strings = gf_strings f, g_csrOffsets = gf_csrOffsets f, g_wayIndex = gf_wayIndex f, g_idIndex = gf_idIndex f,
             g_rtree = gf_rtree f, g_restrictions = gf_restrictions f,
             g_rtreeLevels = level_starts 0 (length (gf_segments f)), g_maxFreeFlowSpeedKph = max fastest 1\<rparr>)"

section \<open>Orders\<close>

lemma weak_order_key: "weak_order (\<lambda>i j. (f i :: 'k :: linorder) < f j)"
  by (auto simp: weak_order_def)

lemma weak_order_way: "weak_order (\<lambda>i j. way_before (f i) (f j))"
  unfolding weak_order_def way_before_def by (auto split: if_splits)

lemma weak_order_restriction: "weak_order (\<lambda>i j. restriction_before (f i) (f j))"
  unfolding weak_order_def restriction_before_def by (auto split: if_splits)

lemma srt_mset: "sorts srt \<Longrightarrow> weak_order lt \<Longrightarrow> mset (srt lt xs) = mset xs"
  and srt_sorted: "sorts srt \<Longrightarrow> weak_order lt \<Longrightarrow> sorted_wrt (\<lambda>a b. \<not> lt b a) (srt lt xs)"
  by (simp_all add: sorts_def)

text \<open>An order of all the positions below \<open>n\<close>.\<close>

definition order_of :: "nat \<Rightarrow> nat list \<Rightarrow> bool" where
  "order_of n xs \<longleftrightarrow> mset xs = mset [0..<n]"

lemma order_of_facts:
  assumes "order_of n xs"
  shows "length xs = n" "set xs = {..<n}" "distinct xs" "i < n \<Longrightarrow> xs ! i < n"
proof -
  have m: "mset xs = mset [0..<n]" using assms by (simp add: order_of_def)
  show l: "length xs = n" using mset_eq_length [OF m] by simp
  show s: "set xs = {..<n}" using mset_eq_setD [OF m] by (simp add: atLeast_upt)
  show "distinct xs" using mset_eq_imp_distinct_iff [OF m] by simp
  show "i < n \<Longrightarrow> xs ! i < n" using nth_mem [of i xs] by (simp add: l s)
qed

lemma order_of_srt: "sorts srt \<Longrightarrow> weak_order lt \<Longrightarrow> order_of n (srt lt [0..<n])"
  by (simp add: order_of_def srt_mset)

lemma remap_of_nth:
  assumes "order_of n order"
  shows "length (remap_of order) = n" "i < n \<Longrightarrow> remap_of order ! (order ! i) = i"
proof -
  note o = order_of_facts [OF assms]
  let ?r = "\<lambda>m. fold (\<lambda>i r. r[order ! i := i]) [0..<m] (replicate (length order) 0)"
  have "length (?r m) = n \<and> (\<forall>i<m. ?r m ! (order ! i) = i)" if "m \<le> n" for m
    using that
  proof (induction m)
    case (Suc m)
    then have IH: "length (?r m) = n" "\<And>i. i < m \<Longrightarrow> ?r m ! (order ! i) = i" by simp_all
    have "order ! m \<noteq> order ! i" if "i < m" for i using that Suc.prems o(1,3) by (simp add: nth_eq_iff_index_eq)
    moreover have "order ! m < n" using o(4) Suc.prems by simp
    ultimately show ?case using IH by (auto simp: less_Suc_eq)
  qed (simp add: o)
  from this [OF order_refl] show "length (remap_of order) = n" "i < n \<Longrightarrow> remap_of order ! (order ! i) = i"
    by (simp_all add: remap_of_def o)
qed

lemma remap_of_inverse:
  assumes "order_of n order" "j < n"
  shows "remap_of order ! j < n" "order ! (remap_of order ! j) = j"
proof -
  from order_of_facts [OF assms(1)] assms(2) obtain i where "i < n" "order ! i = j" by (metis in_set_conv_nth lessThan_iff)
  with remap_of_nth(2) [OF assms(1)] show "remap_of order ! j < n" "order ! (remap_of order ! j) = j" by auto
qed

lemma sort_elements_mset:
  assumes "sorts srt" "weak_order (\<lambda>i j. lt (xs ! i) (xs ! j))"
  shows "mset (sort_elements srt lt xs) = mset xs"
proof -
  have "mset (sort_elements srt lt xs) = image_mset ((!) xs) (mset [0..<length xs])"
    by (simp only: sort_elements_def mset_map srt_mset [OF assms])
  also have "\<dots> = mset xs" by (simp only: mset_map [symmetric] map_nth)
  finally show ?thesis .
qed

lemma sort_elements_sorted:
  assumes "sorts srt" "weak_order (\<lambda>i j. lt (xs ! i) (xs ! j))"
  shows "sorted_wrt (\<lambda>a b. \<not> lt b a) (sort_elements srt lt xs)"
  using srt_sorted [OF assms] by (simp add: sort_elements_def sorted_wrt_map)

section \<open>The edges\<close>

text \<open>The open directions of a segment, each under the node it leaves.\<close>

definition segment_edges :: "segment_record list \<Rightarrow> nat \<Rightarrow> (nat \<times> edge_record) list" where
  "segment_edges segments index =
     (let s = segments ! index in
      if \<not> routed s then []
      else (if forwardOpen s
            then [(fromNode s, \<lparr>ed_segment = index, ed_target = toNode s, costDs = free_flow_costDs s, ed_forward = 1\<rparr>)] else []) @
           (if backwardOpen s
            then [(toNode s, \<lparr>ed_segment = index, ed_target = fromNode s, costDs = free_flow_costDs s, ed_forward = 0\<rparr>)] else []))"

definition all_edges :: "segment_record list \<Rightarrow> (nat \<times> edge_record) list" where
  "all_edges segments = concat (map (segment_edges segments) [0..<length segments])"

lemma segment_edges_cases: "x \<in> set (segment_edges segments i) \<longleftrightarrow> routed (segments ! i) \<and>
    (forwardOpen (segments ! i) \<and> x = (fromNode (segments ! i), \<lparr>ed_segment = i, ed_target = toNode (segments ! i),
       costDs = free_flow_costDs (segments ! i), ed_forward = 1\<rparr>) \<or>
     backwardOpen (segments ! i) \<and> x = (toNode (segments ! i), \<lparr>ed_segment = i, ed_target = fromNode (segments ! i),
       costDs = free_flow_costDs (segments ! i), ed_forward = 0\<rparr>))"
  by (auto simp: segment_edges_def Let_def)

lemma all_edges_cases: "x \<in> set (all_edges segments) \<longleftrightarrow> (\<exists>i<length segments. x \<in> set (segment_edges segments i))"
  by (auto simp: all_edges_def)

lemma distinct_segment_edges: "distinct (segment_edges segments i)"
  by (simp add: segment_edges_def Let_def)

lemma distinct_all_edges: "distinct (all_edges segments)"
proof -
  have "distinct (concat (map (segment_edges segments) [0..<n]))" for n
  proof (induction n)
    case (Suc n)
    then show ?case by (auto simp: distinct_segment_edges segment_edges_cases)
  qed simp
  then show ?thesis by (simp add: all_edges_def)
qed

lemma fold_concat: "fold f (concat (map h xs)) st = fold (\<lambda>x. fold f (h x)) xs st"
  by (induction xs arbitrary: st) simp_all

lemma place_edges_fold: "fold (place_edges segments) [0..<length segments] st = fold csr_place (all_edges segments) st"
proof -
  have "place_edges segments = (\<lambda>i. fold csr_place (segment_edges segments i))"
    by (intro ext) (simp add: place_edges_def segment_edges_def Let_def)
  then show ?thesis by (simp add: all_edges_def fold_concat)
qed

text \<open>The cursors have one entry more than there are nodes, which nothing is placed at.\<close>

lemma place_butlast:
  "\<forall>x\<in>set items. fst x + 1 < length c \<Longrightarrow> fst (fold csr_place items (arr, butlast c)) = fst (fold csr_place items (arr, c))"
proof (induction items arbitrary: arr c)
  case (Cons x items)
  obtain k v where x: "x = (k, v)" by fastforce
  with Cons.prems have "(butlast c)[k := butlast c ! k + 1] = butlast (c[k := c ! k + 1])" "butlast c ! k = c ! k"
    by (auto simp: butlast_list_update nth_butlast)
  then show ?case using Cons.IH [of "c[k := c ! k + 1]" "arr[c ! k := v]"] Cons.prems by (simp add: x csr_place_def)
qed simp

lemma count_degrees_fold:
  "length (count_degrees segments n) = n + 1 \<and>
   (\<forall>i\<le>n. count_degrees segments n ! i = count_list (map fst (concat (map (\<lambda>s. segment_edges [s] 0) segments))) i)"
proof (induction segments rule: rev_induct)
  case (snoc s segments)
  then have IH: "length (count_degrees segments n) = n + 1"
    "\<And>i. i \<le> n \<Longrightarrow> count_degrees segments n ! i = count_list (map fst (concat (map (\<lambda>s. segment_edges [s] 0) segments))) i"
    by simp_all
  let ?d = "count_degrees segments n"
  have step: "count_degrees (segments @ [s]) n =
      (if \<not> routed s then ?d
       else let degree = (if forwardOpen s then ?d[fromNode s := ?d ! fromNode s + 1] else ?d) in
         (if backwardOpen s then degree[toNode s := degree ! toNode s + 1] else degree))"
    by (simp add: count_degrees_def)
  have "length (count_degrees (segments @ [s]) n) = n + 1" using IH(1) by (simp add: step Let_def)
  moreover have "count_degrees (segments @ [s]) n ! i = ?d ! i + count_list (map fst (segment_edges [s] 0)) i" if "i \<le> n" for i
    using IH(1) that by (auto simp: step Let_def segment_edges_def nth_list_update)
  ultimately show ?case using IH(2) by simp
qed (simp add: count_degrees_def le_imp_less_Suc del: replicate_Suc)

lemma count_degrees_nth:
  assumes "i \<le> n"
  shows "count_degrees segments n ! i = count_list (map fst (all_edges segments)) i"
proof -
  have one: "map fst (segment_edges segments i) = map fst (segment_edges [segments ! i] 0)" for i
    by (simp add: segment_edges_def Let_def)
  have "map fst (concat (map (\<lambda>s. segment_edges [s] 0) segments)) =
      concat (map (\<lambda>i. map fst (segment_edges [segments ! i] 0)) [0..<length segments])"
    by (subst map_nth [of segments, symmetric]) (simp only: map_map map_concat comp_def)
  also have "\<dots> = map fst (all_edges segments)" by (simp only: one [symmetric] all_edges_def map_concat map_map comp_def)
  finally show ?thesis using count_degrees_fold [of segments n] assms by simp
qed

lemma running_offsets_nth:
  "length (running_offsets degree n) = n + 1" "i \<le> n \<Longrightarrow> running_offsets degree n ! i = (\<Sum>k<i. degree ! k)"
proof -
  let ?f = "\<lambda>i (offsets, running). (offsets[i := running], running + degree ! i)"
  obtain offs run where f: "fold ?f [0..<n] (replicate (n + 1) 0, 0) = (offs, run)" by fastforce
  have "let (offs, run) = fold ?f [0..<m] (replicate (n + 1) 0, 0) in
      length offs = n + 1 \<and> run = (\<Sum>k<m. degree ! k) \<and> (\<forall>i<m. offs ! i = (\<Sum>k<i. degree ! k))" if "m \<le> n" for m
    using that
  proof (induction m)
    case (Suc m)
    then show ?case by (auto simp: less_Suc_eq split: prod.splits)
  qed simp
  from this [OF order_refl] f have inv: "length offs = n + 1" "run = (\<Sum>k<n. degree ! k)"
    "\<And>i. i < n \<Longrightarrow> offs ! i = (\<Sum>k<i. degree ! k)" by simp_all
  have eq: "running_offsets degree n = offs[n := run]" using f by (simp add: running_offsets_def)
  show "length (running_offsets degree n) = n + 1" by (simp add: eq inv)
  show "i \<le> n \<Longrightarrow> running_offsets degree n ! i = (\<Sum>k<i. degree ! k)"
    by (cases "i = n") (simp_all add: eq inv)
qed

text \<open>The offsets and the array are the compressed rows of the open directions.\<close>

lemma build_edges_rows:
  assumes "\<forall>s\<in>set segments. fromNode s < n \<and> toNode s < n"
  shows "build_edges segments n =
    (csr_fill \<lparr>ed_segment = 0, ed_target = 0, costDs = 0, ed_forward = 0\<rparr> n (all_edges segments),
     csr_offsets n (map fst (all_edges segments)))"
proof -
  let ?items = "all_edges segments" and ?off = "running_offsets (count_degrees segments n) n"
  have keys: "\<forall>k\<in>set (map fst ?items). k < n" using assms by (auto simp: all_edges_cases segment_edges_cases)
  have off: "?off = csr_offsets n (map fst ?items)"
  proof (rule nth_equalityI)
    fix i assume "i < length ?off"
    then have "i \<le> n" by (simp add: running_offsets_nth)
    then show "?off ! i = csr_offsets n (map fst ?items) ! i"
    proof (induction i)
      case (Suc i)
      then have "?off ! Suc i = ?off ! i + count_list (map fst ?items) i"
        by (simp add: running_offsets_nth(2) count_degrees_nth)
      with Suc csr_offsets_nth(2) [OF keys, of i] show ?case by simp
    qed (simp add: running_offsets_nth csr_offsets_nth(1) [OF keys])
  qed (simp add: running_offsets_nth)
  have "fst (fold csr_place ?items (arr, ?off)) = fst (fold csr_place ?items (arr, butlast ?off))" for arr
    using keys by (intro place_butlast [symmetric]) (auto simp: running_offsets_nth)
  then show ?thesis by (simp add: build_edges_def Let_def place_edges_fold csr_fill_def off)
qed

section \<open>The builder's state\<close>

datatype builder_op = AddSegment segment_input | AddRestriction restriction_input

fun builder_apply :: "(node_record \<Rightarrow> node_record \<Rightarrow> rat) \<Rightarrow> builder_op \<Rightarrow> builder \<Rightarrow> builder" where
  "builder_apply crow (AddSegment s) b = builder_add crow s b"
| "builder_apply crow (AddRestriction r) b = addRestriction r b"

definition build :: "(node_record \<Rightarrow> node_record \<Rightarrow> rat) \<Rightarrow> builder_op list \<Rightarrow> builder" where
  "build crow ops = fold (builder_apply crow) ops new_builder"

text \<open>What was offered: a piece of fewer than two points is dropped.\<close>

definition offered_pieces :: "builder_op list \<Rightarrow> segment_input list" where
  "offered_pieces ops = concat (map (\<lambda>op. case op of AddSegment s \<Rightarrow> if length (si_geometry s) < 4 then [] else [s]
     | AddRestriction r \<Rightarrow> []) ops)"

definition restrictions_of :: "builder_op list \<Rightarrow> restriction_input list" where
  "restrictions_of ops = concat (map (\<lambda>op. case op of AddSegment s \<Rightarrow> [] | AddRestriction r \<Rightarrow> [r]) ops)"

text \<open>A text of the blob: none, or the characters up to the zero that ends it.\<close>

definition text_at :: "string \<Rightarrow> nat \<Rightarrow> string \<Rightarrow> bool" where
  "text_at strings offset t \<longleftrightarrow>
     (if t = [] then offset = kNoString else kNoString < offset \<and> (\<exists>rest. drop offset strings = t @ CHR 0x00 # rest))"

definition strings_ok :: "builder \<Rightarrow> bool" where
  "strings_ok b \<longleftrightarrow> bd_strings b \<noteq> [] \<and> (\<forall>s k. bd_stringOffsets b s = Some k \<longrightarrow> s \<noteq> [] \<and> text_at (bd_strings b) k s)"

text \<open>Every piece has its two nodes, one for each OSM node, and its length.\<close>

definition pending_ok :: "(node_record \<Rightarrow> node_record \<Rightarrow> rat) \<Rightarrow> builder \<Rightarrow> pending \<Rightarrow> bool" where
  "pending_ok crow b p \<longleftrightarrow> 4 \<le> length (si_geometry (pd_input p)) \<and>
     bd_nodeIds b (si_fromNodeId (pd_input p)) = Some (pd_from p) \<and> bd_nodeIds b (si_toNodeId (pd_input p)) = Some (pd_to p) \<and>
     pd_lengthCm p = polylineLengthCm crow (si_geometry (pd_input p))"

definition builder_inv :: "(node_record \<Rightarrow> node_record \<Rightarrow> rat) \<Rightarrow> builder \<Rightarrow> bool" where
  "builder_inv crow b \<longleftrightarrow> (\<forall>p\<in>set (bd_segments b). pending_ok crow b p) \<and>
     (\<forall>i v. bd_nodeIds b i = Some v \<longrightarrow> v < length (bd_nodes b)) \<and> inj_on (bd_nodeIds b) (dom (bd_nodeIds b)) \<and> strings_ok b"

lemma text_at_append: "text_at strings k t \<Longrightarrow> text_at (strings @ extra) k t"
  by (auto simp: text_at_def split: if_splits)

lemma builder_inv_new: "builder_inv crow new_builder"
  by (simp add: builder_inv_def new_builder_def strings_ok_def)

lemma nodeFor_inv:
  assumes "builder_inv crow b" "nodeFor i lat lon b = (v, b')"
  shows "builder_inv crow b'" "bd_nodeIds b' i = Some v" "bd_segments b' = bd_segments b"
    "bd_nodeIds b j = Some u \<Longrightarrow> bd_nodeIds b' j = Some u"
proof -
  have inv: "bd_nodeIds b j = Some u \<Longrightarrow> u < length (bd_nodes b)" for j u using assms(1) by (auto simp: builder_inv_def)
  consider "bd_nodeIds b i = Some v" "b' = b" | "bd_nodeIds b i = None" "v = length (bd_nodes b)"
      "b' = b\<lparr>bd_nodes := bd_nodes b @ [\<lparr>nd_lat = lat, nd_lon = lon\<rparr>], bd_nodeIds := (bd_nodeIds b)(i \<mapsto> v)\<rparr>"
    using assms(2) by (auto simp: nodeFor_def split: option.splits)
  then have "builder_inv crow b' \<and> bd_nodeIds b' i = Some v \<and> bd_segments b' = bd_segments b \<and>
      (bd_nodeIds b j = Some u \<longrightarrow> bd_nodeIds b' j = Some u)"
  proof cases
    case 2
    have "inj_on ((bd_nodeIds b)(i \<mapsto> v)) (insert i (dom (bd_nodeIds b)))"
      using assms(1) inv 2 unfolding builder_inv_def inj_on_def by (auto dest: inv)
    moreover have "pending_ok crow b' p" if "pending_ok crow b p" for p
      using that 2 by (auto simp: pending_ok_def)
    moreover have "u < length (bd_nodes b')" if "bd_nodeIds b' j = Some u" for j u
      using that inv [of j u] 2 by (auto split: if_splits)
    ultimately show ?thesis using assms(1) 2 by (auto simp: builder_inv_def strings_ok_def)
  qed (use assms in simp)
  then show "builder_inv crow b'" "bd_nodeIds b' i = Some v" "bd_segments b' = bd_segments b"
    "bd_nodeIds b j = Some u \<Longrightarrow> bd_nodeIds b' j = Some u" by blast+
qed

lemma builder_add_inv:
  assumes "builder_inv crow b"
  shows "builder_inv crow (builder_add crow s b)"
    "map pd_input (bd_segments (builder_add crow s b)) = map pd_input (bd_segments b) @ (if length (si_geometry s) < 4 then [] else [s])"
    "bd_restrictions (builder_add crow s b) = bd_restrictions b"
proof -
  let ?g = "si_geometry s"
  obtain u b1 where 1: "nodeFor (si_fromNodeId s) (?g ! 0) (?g ! 1) b = (u, b1)" by fastforce
  obtain v b2 where 2: "nodeFor (si_toNodeId s) (?g ! (length ?g - 2)) (?g ! (length ?g - 1)) b1 = (v, b2)" by fastforce
  note n1 = nodeFor_inv [OF assms 1]
  note n2 = nodeFor_inv [OF n1(1) 2]
  let ?p = "\<lparr>pd_input = s, pd_from = u, pd_to = v, pd_lengthCm = polylineLengthCm crow ?g\<rparr>"
  let ?b = "b2\<lparr>bd_segments := bd_segments b2 @ [?p]\<rparr>"
  have add: "builder_add crow s b = (if length ?g < 4 then b else ?b)"
    using 1 2 by (simp add: builder_add_def Let_def)
  have same: "pending_ok crow ?b p = pending_ok crow b2 p" for p by (simp add: pending_ok_def)
  have "builder_inv crow ?b" if "\<not> length ?g < 4"
    using n2 that n2(4) [OF n1(2)] unfolding builder_inv_def same by (simp add: pending_ok_def strings_ok_def)
  with assms show "builder_inv crow (builder_add crow s b)" by (simp add: add)
  show "map pd_input (bd_segments (builder_add crow s b)) = map pd_input (bd_segments b) @ (if length ?g < 4 then [] else [s])"
    using n1 n2 by (simp add: add)
  have "bd_restrictions b1 = bd_restrictions b" "bd_restrictions b2 = bd_restrictions b1"
    using 1 2 by (auto simp: nodeFor_def split: option.splits)
  then show "bd_restrictions (builder_add crow s b) = bd_restrictions b" by (simp add: add)
qed

lemma build_inv:
  "builder_inv crow (build crow ops)" "map pd_input (bd_segments (build crow ops)) = offered_pieces ops"
  "bd_restrictions (build crow ops) = restrictions_of ops"
proof -
  have "builder_inv crow (build crow ops) \<and> map pd_input (bd_segments (build crow ops)) = offered_pieces ops \<and>
      bd_restrictions (build crow ops) = restrictions_of ops"
  proof (induction ops rule: rev_induct)
    case Nil
    then show ?case using builder_inv_new by (simp add: build_def offered_pieces_def restrictions_of_def new_builder_def)
  next
    case (snoc op ops)
    have step: "build crow (ops @ [op]) = builder_apply crow op (build crow ops)" by (simp add: build_def)
    show ?case
    proof (cases op)
      case (AddSegment s)
      with step snoc builder_add_inv [of crow "build crow ops" s] show ?thesis
        by (simp add: offered_pieces_def restrictions_of_def)
    next
      case (AddRestriction r)
      with step snoc show ?thesis
        by (simp add: offered_pieces_def restrictions_of_def addRestriction_def builder_inv_def pending_ok_def strings_ok_def)
    qed
  qed
  then show "builder_inv crow (build crow ops)" "map pd_input (bd_segments (build crow ops)) = offered_pieces ops"
    "bd_restrictions (build crow ops) = restrictions_of ops" by blast+
qed

section \<open>The records\<close>

definition made_from :: "nat list \<Rightarrow> string \<Rightarrow> int list \<Rightarrow> pending \<Rightarrow> segment_record \<Rightarrow> bool" where
  "made_from nodeRemap strings geometry p s \<longleftrightarrow>
     (let input = pd_input p; c = si_classification input in
      sg_id s = si_id input \<and> osmWayId s = si_osmWayId input \<and>
      fromNode s = nodeRemap ! pd_from p \<and> toNode s = nodeRemap ! pd_to p \<and>
      text_at strings (nameOffset s) (si_name input) \<and> text_at strings (refOffset s) (si_ref input) \<and>
      lengthCm s = pd_lengthCm p \<and> postedSpeedKph s = cl_postedSpeedKph c \<and> freeFlowSpeedKph s = cl_freeFlowSpeedKph c \<and>
      accessMask s = unat (cl_access c) \<and> sg_flags s = flagsOf c \<and> renderClass s = render_code (cl_renderClass c) \<and>
      routeClass s = route_code (cl_routeClass c) \<and> postedSource s = source_code (cl_postedSource c) \<and> laneCount s = cl_laneCount c \<and>
      sg_layer s = cl_layer c \<and> geometryCount s = length (si_geometry input) div 2 \<and>
      (geometryOffset s + geometryCount s) * 2 \<le> length geometry)"

lemma made_from_append: "made_from nr strings geometry p s \<Longrightarrow> made_from nr (strings @ t) (geometry @ g) p s"
  by (simp add: made_from_def Let_def text_at_append trans_le_add1)

text \<open>What writing changes of the builder: its strings and its counts.\<close>

definition same_pieces :: "builder \<Rightarrow> builder \<Rightarrow> bool" where
  "same_pieces b b' \<longleftrightarrow> bd_nodes b' = bd_nodes b \<and> bd_nodeIds b' = bd_nodeIds b \<and> bd_segments b' = bd_segments b \<and>
     bd_restrictions b' = bd_restrictions b"

lemma internString_ok:
  assumes "strings_ok b" "internString t b = (k, b')"
  shows "strings_ok b'" "text_at (bd_strings b') k t" "\<exists>x. bd_strings b' = bd_strings b @ x" "same_pieces b b'"
proof -
  have "strings_ok b' \<and> text_at (bd_strings b') k t \<and> (\<exists>x. bd_strings b' = bd_strings b @ x) \<and> same_pieces b b'"
  proof (cases "t \<noteq> [] \<and> bd_stringOffsets b t = None")
    case True
    then have 3: "k = length (bd_strings b)"
      "b' = b\<lparr>bd_strings := bd_strings b @ t @ [CHR 0x00], bd_stringOffsets := (bd_stringOffsets b)(t \<mapsto> k)\<rparr>" "t \<noteq> []"
      using assms(2) by (auto simp: internString_def)
    have "text_at (bd_strings b') k t" using 3 assms(1) by (simp add: text_at_def strings_ok_def kNoString_def)
    moreover have "strings_ok b'"
      using 3 assms(1) calculation by (auto simp: strings_ok_def intro: text_at_append)
    ultimately show ?thesis using 3 by (simp add: same_pieces_def)
  next
    case False
    then have "b' = b" "t = [] \<and> k = kNoString \<or> t \<noteq> [] \<and> bd_stringOffsets b t = Some k"
      using assms(2) by (cases "t = []"; auto simp: internString_def)+
    with assms(1) show ?thesis by (auto simp: strings_ok_def text_at_def same_pieces_def)
  qed
  then show "strings_ok b'" "text_at (bd_strings b') k t" "\<exists>x. bd_strings b' = bd_strings b @ x" "same_pieces b b'" by blast+
qed

lemma make_segment_ok:
  assumes "strings_ok b" "make_segment nr p (segs, geometry, b) = (segs', geometry', b')"
  shows "strings_ok b'" "same_pieces b b'" "\<exists>x. bd_strings b' = bd_strings b @ x"
    "geometry' = geometry @ si_geometry (pd_input p)"
    "\<exists>s. segs' = segs @ [s] \<and> made_from nr (bd_strings b') geometry' p s \<and> geometryOffset s = length geometry div 2"
proof -
  obtain k1 b1 where 1: "internString (si_name (pd_input p)) b = (k1, b1)" by fastforce
  obtain k2 b2 where 2: "internString (si_ref (pd_input p)) b1 = (k2, b2)" by fastforce
  note i1 = internString_ok [OF assms(1) 1]
  note i2 = internString_ok [OF i1(1) 2]
  obtain x1 x2 where x: "bd_strings b1 = bd_strings b @ x1" "bd_strings b2 = bd_strings b1 @ x2" using i1(3) i2(3) by blast
  have b': "b' = b2" "geometry' = geometry @ si_geometry (pd_input p)" using assms(2) 1 2 by (auto simp: make_segment_def Let_def)
  have name: "text_at (bd_strings b2) k1 (si_name (pd_input p))" using text_at_append [OF i1(2)] x(2) by simp
  show "strings_ok b'" "geometry' = geometry @ si_geometry (pd_input p)" using b' i2 by simp_all
  show "same_pieces b b'" using i1(4) i2(4) b' by (simp add: same_pieces_def)
  show "\<exists>x. bd_strings b' = bd_strings b @ x" using x b' by simp
  show "\<exists>s. segs' = segs @ [s] \<and> made_from nr (bd_strings b') geometry' p s \<and> geometryOffset s = length geometry div 2"
    using assms(2) 1 2 i2(2) name by (auto simp: make_segment_def Let_def made_from_def)
qed

lemma make_segments:
  assumes "strings_ok b"
  shows "\<exists>segs geometry b'. fold (make_segment nr) ps ([], [], b) = (segs, geometry, b') \<and> strings_ok b' \<and> same_pieces b b' \<and>
    geometry = concat (map (\<lambda>p. si_geometry (pd_input p)) ps) \<and> list_all2 (made_from nr (bd_strings b') geometry) ps segs \<and>
    map geometryOffset segs = map (\<lambda>i. length (concat (map (\<lambda>p. si_geometry (pd_input p)) (take i ps))) div 2) [0..<length ps]"
proof (induction ps rule: rev_induct)
  case (snoc p ps)
  then obtain segs geometry b' where IH: "fold (make_segment nr) ps ([], [], b) = (segs, geometry, b')" "strings_ok b'"
    "same_pieces b b'" "geometry = concat (map (\<lambda>p. si_geometry (pd_input p)) ps)"
    "list_all2 (made_from nr (bd_strings b') geometry) ps segs"
    "map geometryOffset segs = map (\<lambda>i. length (concat (map (\<lambda>p. si_geometry (pd_input p)) (take i ps))) div 2) [0..<length ps]"
    by blast
  obtain segs2 geometry2 b2 where s: "make_segment nr p (segs, geometry, b') = (segs2, geometry2, b2)" by (metis prod_cases3)
  note m = make_segment_ok [OF IH(2) s]
  obtain rec x where rec: "segs2 = segs @ [rec]" "made_from nr (bd_strings b2) geometry2 p rec"
    "geometryOffset rec = length geometry div 2" "bd_strings b2 = bd_strings b' @ x" using m(3,5) by blast
  have "made_from nr (bd_strings b2) geometry2 q t" if "made_from nr (bd_strings b') geometry q t" for q t
    unfolding rec(4) m(4) by (rule made_from_append [OF that])
  with IH(5) have "list_all2 (made_from nr (bd_strings b2) geometry2) ps segs" by (rule list_all2_mono)
  moreover have "same_pieces b b2" using IH(3) m(2) by (simp add: same_pieces_def)
  moreover have "length ps = length segs" using IH(5) by (rule list_all2_lengthD)
  ultimately show ?case using IH(1,4,6) s m(1) rec m(4)
    by (simp add: list_all2_appendI)
qed (simp add: assms same_pieces_def)

text \<open>With two coordinates for every point, a record's slice of the geometry is its piece's.\<close>

lemma geometry_slice:
  assumes "\<forall>p\<in>set ps. even (length (f p))" "i < length ps"
  shows "take (length (f (ps ! i)) div 2 * 2) (drop (length (concat (map f (take i ps))) div 2 * 2) (concat (map f ps))) = f (ps ! i)"
proof -
  have e: "even (length (concat (map f qs)))" if "\<forall>p\<in>set qs. even (length (f p))" for qs
    using that by (induction qs) auto
  have "concat (map f ps) = concat (map f (take i ps)) @ f (ps ! i) @ concat (map f (drop (Suc i) ps))"
    using id_take_nth_drop [OF assms(2)] by (metis concat.simps(2) concat_append list.simps(9) map_append)
  moreover have "even (length (concat (map f (take i ps))))" using assms(1) by (intro e) (blast dest: in_set_takeD)
  moreover have "even (length (f (ps ! i)))" using assms by simp
  ultimately show ?thesis by (simp del: length_concat)
qed

end
