(* ===== verification/RoadBuilt.thy ===== *)
theory RoadBuilt
  imports RoadBuild
begin

text \<open>
  What the road graph's builder writes (builder.cpp, modelled in RoadBuild) and what \<open>Graph::bind\<close> makes of it: the written
  arrays described in terms of the pieces offered, the indices, the edges of each node and the restrictions,
  and that every built graph is one on which the searches and the overlay are proved correct.
\<close>

section \<open>The parts of a written file\<close>

lemma resolve_restriction_same:
  "same_pieces b (snd (resolve_restriction segments wayIndex nr r (rs, b)))"
  "bd_strings (snd (resolve_restriction segments wayIndex nr r (rs, b))) = bd_strings b"
  by (simp_all add: resolve_restriction_def same_pieces_def Let_def split: option.split)

lemma resolve_restrictions_same:
  "same_pieces b (snd (fold (resolve_restriction segments wayIndex nr) inputs (rs, b))) \<and>
   bd_strings (snd (fold (resolve_restriction segments wayIndex nr) inputs (rs, b))) = bd_strings b"
proof (induction inputs arbitrary: rs b)
  case (Cons r inputs)
  obtain rs' b1 where st: "resolve_restriction segments wayIndex nr r (rs, b) = (rs', b1)" by fastforce
  with resolve_restriction_same [where b = b and segments = segments and wayIndex = wayIndex and nr = nr and r = r and rs = rs] Cons.IH [where rs = rs' and b = b1]
  show ?case by (simp add: same_pieces_def)
qed (simp add: same_pieces_def)

text \<open>
  What the sections have to do with the pieces: \<open>ps\<close> are the pieces in the order of the curve, \<open>segs\<close> their records,
  \<open>byWay\<close> the order in which the file has them, \<open>nr\<close> where each node went.
\<close>

definition file_parts :: "builder \<Rightarrow> graph_file \<Rightarrow> nat list \<Rightarrow> pending list \<Rightarrow> segment_record list \<Rightarrow> nat list \<Rightarrow> bool" where
  "file_parts b f nr ps segs byWay \<longleftrightarrow>
     (\<exists>nodeOrder. order_of (length (bd_nodes b)) nodeOrder \<and> nr = remap_of nodeOrder \<and> gf_nodes f = map ((!) (bd_nodes b)) nodeOrder) \<and>
     mset ps = mset (bd_segments b) \<and> bd_segments b \<noteq> [] \<and>
     gf_geometry f = concat (map (\<lambda>p. si_geometry (pd_input p)) ps) \<and>
     list_all2 (made_from nr (gf_strings f) (gf_geometry f)) ps segs \<and>
     map geometryOffset segs = map (\<lambda>i. length (concat (map (\<lambda>p. si_geometry (pd_input p)) (take i ps))) div 2) [0..<length ps] \<and>
     order_of (length segs) byWay \<and> sorted_wrt (\<lambda>i j. \<not> way_before (segs ! j) (segs ! i)) byWay \<and>
     gf_segments f = map ((!) segs) byWay \<and>
     gf_csrOffsets f = snd (build_edges segs (length (gf_nodes f))) \<and>
     gf_edges f = map (\<lambda>e. e\<lparr>ed_segment := remap_of byWay ! ed_segment e\<rparr>) (fst (build_edges segs (length (gf_nodes f)))) \<and>
     (\<exists>ix. mset ix = mset (map (\<lambda>i. \<lparr>ix_id = sg_id (segs ! i), ix_index = i\<rparr>) [0..<length segs]) \<and>
        sorted_wrt (\<lambda>x y. \<not> ix_id y < ix_id x) ix \<and>
        gf_idIndex f = map (\<lambda>x. x\<lparr>ix_index := remap_of byWay ! ix_index x\<rparr>) ix) \<and>
     gf_wayIndex f = fold (add_way (gf_segments f)) [0..<length (gf_segments f)] [] \<and>
     gf_rtree f = build_rtree (gf_geometry f) (gf_segments f)"

definition file_restrictions :: "builder \<Rightarrow> graph_file \<Rightarrow> nat list \<Rightarrow> builder \<Rightarrow> bool" where
  "file_restrictions b f nr b' \<longleftrightarrow> (\<exists>rs b1. same_pieces b b1 \<and> bd_offered b1 = bd_offered b \<and> bd_resolved b1 = bd_resolved b \<and>
     bd_unresolved b1 = bd_unresolved b \<and>
     fold (resolve_restriction (gf_segments f) (gf_wayIndex f) nr) (bd_restrictions b) ([], b1) = (rs, b') \<and>
     mset (gf_restrictions f) = mset rs \<and> sorted_wrt (\<lambda>x y. \<not> restriction_before y x) (gf_restrictions f))"

lemma make_segments_counts:
  "(\<lambda>b. (bd_offered b, bd_resolved b, bd_unresolved b)) (snd (snd (fold (make_segment nr) ps st))) =
   (\<lambda>b. (bd_offered b, bd_resolved b, bd_unresolved b)) (snd (snd st))"
proof (induction ps arbitrary: st)
  case (Cons p ps)
  have intern: "(\<lambda>b. (bd_offered b, bd_resolved b, bd_unresolved b)) (snd (internString t b)) =
      (\<lambda>b. (bd_offered b, bd_resolved b, bd_unresolved b)) b" for t b
    by (simp add: internString_def split: option.split)
  obtain segs geometry b where st: "st = (segs, geometry, b)" by (metis prod_cases3)
  obtain k1 b1 where 1: "internString (si_name (pd_input p)) b = (k1, b1)" by fastforce
  obtain k2 b2 where 2: "internString (si_ref (pd_input p)) b1 = (k2, b2)" by fastforce
  have "snd (snd (make_segment nr p st)) = b2" using 1 2 by (simp add: st make_segment_def Let_def)
  with Cons.IH [of "make_segment nr p st"] intern [of "si_name (pd_input p)" b] intern [of "si_ref (pd_input p)" b1] 1 2 show ?case
    by (simp add: st)
qed simp

lemma write_parts:
  assumes "sorts srt" "builder_inv crow b" "builder_write srt t b = Inr (f, b')"
  shows "\<exists>nr ps segs byWay. file_parts b f nr ps segs byWay \<and> file_restrictions b f nr b'" "same_pieces b b'"
proof -
  let ?nodes = "bd_nodes b"
  define key where "key i = hilbertOf (nd_lat (?nodes ! i)) (nd_lon (?nodes ! i))" for i
  define nodeOrder where "nodeOrder = srt (\<lambda>i j. key i < key j) [0..<length ?nodes]"
  define nr where "nr = remap_of nodeOrder"
  define first where "first (p :: pending) = hilbertOf (si_geometry (pd_input p) ! 0) (si_geometry (pd_input p) ! 1)" for p
  define ps where "ps = sort_elements srt (\<lambda>p q. first p < first q) (bd_segments b)"
  have "strings_ok b" using assms(2) by (simp add: builder_inv_def)
  from make_segments [OF this, of nr ps] obtain segs geometry b1 where m:
    "fold (make_segment nr) ps ([], [], b) = (segs, geometry, b1)" "same_pieces b b1"
    "geometry = concat (map (\<lambda>p. si_geometry (pd_input p)) ps)" "list_all2 (made_from nr (bd_strings b1) geometry) ps segs"
    "map geometryOffset segs = map (\<lambda>i. length (concat (map (\<lambda>p. si_geometry (pd_input p)) (take i ps))) div 2) [0..<length ps]"
    by blast
  define ix where "ix = sort_elements srt (\<lambda>x y. ix_id x < ix_id y) (map (\<lambda>i. \<lparr>ix_id = sg_id (segs ! i), ix_index = i\<rparr>) [0..<length segs])"
  define byWay where "byWay = srt (\<lambda>i j. way_before (segs ! i) (segs ! j)) [0..<length segs]"
  define final where "final = map ((!) segs) byWay"
  define ways where "ways = fold (add_way final) [0..<length final] []"
  obtain rs b2 where rs: "fold (resolve_restriction final ways nr) (bd_restrictions b1) ([], b1) = (rs, b2)" by fastforce
  have nodes: "order_of (length ?nodes) nodeOrder" unfolding nodeOrder_def by (intro order_of_srt assms(1) weak_order_key)
  have n: "length nodeOrder = length ?nodes" using order_of_facts(1) [OF nodes] .
  then have nn: "length (map ((!) ?nodes) nodeOrder) = length ?nodes" by simp
  have nonempty: "bd_segments b \<noteq> []" using assms(3) by (auto simp: builder_write_def)
  obtain E1 E2 where E: "build_edges segs (length ?nodes) = (E1, E2)" by fastforce
  have "builder_write srt t b = Inr (\<lparr>gf_nodes = map ((!) ?nodes) nodeOrder, gf_segments = final, gf_geometry = geometry,
      gf_strings = bd_strings b2, gf_csrOffsets = E2, gf_edges = map (\<lambda>e. e\<lparr>ed_segment := remap_of byWay ! ed_segment e\<rparr>) E1,
      gf_wayIndex = ways, gf_idIndex = map (\<lambda>x. x\<lparr>ix_index := remap_of byWay ! ix_index x\<rparr>) ix,
      gf_rtree = build_rtree geometry final, gf_restrictions = sort_elements srt restriction_before rs,
      gf_maxFreeFlowSpeedKph = fold (\<lambda>s m. max m (freeFlowSpeedKph s)) final 0,
      gf_box = grow_box geometry (coord_max, coord_max, coord_min, coord_min), gf_builtAtUnixS = t\<rparr>, b2)"
    unfolding builder_write_def
    by (simp only: nonempty if_False Let_def key_def [symmetric] first_def [symmetric] nodeOrder_def [symmetric] nr_def [symmetric]
        ps_def [symmetric] m(1) prod.case nn E byWay_def [symmetric] ix_def [symmetric] final_def [symmetric]
        ways_def [symmetric] rs)
  with assms(3) have res: "gf_nodes f = map ((!) ?nodes) nodeOrder" "gf_segments f = final" "gf_geometry f = geometry"
    "gf_strings f = bd_strings b2" "gf_csrOffsets f = E2" "gf_edges f = map (\<lambda>e. e\<lparr>ed_segment := remap_of byWay ! ed_segment e\<rparr>) E1"
    "gf_wayIndex f = ways" "gf_idIndex f = map (\<lambda>x. x\<lparr>ix_index := remap_of byWay ! ix_index x\<rparr>) ix"
    "gf_rtree f = build_rtree geometry final" "gf_restrictions f = sort_elements srt restriction_before rs" "b' = b2"
    by auto
  have strings: "bd_strings b2 = bd_strings b1" "same_pieces b1 b2"
    using resolve_restrictions_same [of b1 final ways nr "bd_restrictions b1" "[]"] rs by simp_all
  have "mset ps = mset (bd_segments b)"
    unfolding ps_def by (intro sort_elements_mset assms(1) weak_order_key)
  moreover have "order_of (length segs) byWay" unfolding byWay_def by (intro order_of_srt assms(1) weak_order_way)
  moreover have "sorted_wrt (\<lambda>i j. \<not> way_before (segs ! j) (segs ! i)) byWay"
    unfolding byWay_def by (intro srt_sorted assms(1) weak_order_way)
  moreover have "mset ix = mset (map (\<lambda>i. \<lparr>ix_id = sg_id (segs ! i), ix_index = i\<rparr>) [0..<length segs])"
    unfolding ix_def by (intro sort_elements_mset assms(1) weak_order_key)
  moreover have "sorted_wrt (\<lambda>x y. \<not> ix_id y < ix_id x) ix"
    unfolding ix_def by (intro sort_elements_sorted assms(1) weak_order_key)
  ultimately have parts: "file_parts b f nr ps segs byWay"
    unfolding file_parts_def using nodes nonempty m res strings n nr_def
    by (simp only: E fst_conv snd_conv final_def ways_def length_map) blast
  have counts: "bd_offered b1 = bd_offered b" "bd_resolved b1 = bd_resolved b" "bd_unresolved b1 = bd_unresolved b"
    using make_segments_counts [of nr ps "([], [], b)"] m(1) by simp_all
  have "bd_restrictions b1 = bd_restrictions b" using m(2) by (simp add: same_pieces_def)
  moreover have "mset (sort_elements srt restriction_before rs) = mset rs"
    by (intro sort_elements_mset assms(1) weak_order_restriction)
  moreover have "sorted_wrt (\<lambda>x y. \<not> restriction_before y x) (sort_elements srt restriction_before rs)"
    by (intro sort_elements_sorted assms(1) weak_order_restriction)
  ultimately have "file_restrictions b f nr b'"
    unfolding file_restrictions_def using m(2) counts rs res by (intro exI [of _ rs] exI [of _ b1]) simp
  with parts show "\<exists>nr ps segs byWay. file_parts b f nr ps segs byWay \<and> file_restrictions b f nr b'" by blast
  show "same_pieces b b'" using m(2) strings(2) res by (simp add: same_pieces_def)
qed

section \<open>Positions\<close>

lemma bind_fields:
  assumes "graph_bind f = Inr g"
  shows "g_nodes g = gf_nodes f" "g_segments g = gf_segments f" "g_edges g = gf_edges f" "g_geometry g = gf_geometry f"
    "g_strings g = gf_strings f" "g_csrOffsets g = gf_csrOffsets f" "g_wayIndex g = gf_wayIndex f" "g_idIndex g = gf_idIndex f"
    "g_rtree g = gf_rtree f" "g_restrictions g = gf_restrictions f" "g_rtreeLevels g = level_starts 0 (length (gf_segments f))"
    "gf_segments f \<noteq> []" "gf_edges f \<noteq> []"
  using assms by (auto simp: graph_bind_def Let_def split: if_splits)

lemma file_pieces:
  assumes "file_parts b f nr ps segs byWay"
  shows "mset (map ((!) ps) byWay) = mset (bd_segments b)"
    "list_all2 (made_from nr (gf_strings f) (gf_geometry f)) (map ((!) ps) byWay) (gf_segments f)"
    "length (gf_segments f) = length (bd_segments b)"
proof -
  have fs: "mset ps = mset (bd_segments b)" "list_all2 (made_from nr (gf_strings f) (gf_geometry f)) ps segs"
    "order_of (length segs) byWay" "gf_segments f = map ((!) segs) byWay" using assms unfolding file_parts_def by blast+
  have l: "length ps = length segs" using fs(2) by (rule list_all2_lengthD)
  note o = order_of_facts [OF fs(3)]
  have "mset (map ((!) ps) byWay) = image_mset ((!) ps) (mset [0..<length ps])"
    using fs(3) by (simp add: order_of_def l)
  also have "\<dots> = mset ps" by (simp only: mset_map [symmetric] map_nth)
  finally show "mset (map ((!) ps) byWay) = mset (bd_segments b)" using fs(1) by simp
  have "made_from nr (gf_strings f) (gf_geometry f) (ps ! i) (segs ! i)" if "i < length segs" for i
    using fs(2) that l by (simp add: list_all2_conv_all_nth)
  with o show "list_all2 (made_from nr (gf_strings f) (gf_geometry f)) (map ((!) ps) byWay) (gf_segments f)"
    by (simp add: fs(4) list_all2_conv_all_nth)
  show "length (gf_segments f) = length (bd_segments b)" using mset_eq_length [OF fs(1)] l o by (simp add: fs(4))
qed

lemma file_nodes:
  assumes "file_parts b f nr ps segs byWay"
  shows "length (gf_nodes f) = length (bd_nodes b)" "u < length (bd_nodes b) \<Longrightarrow> nr ! u < length (bd_nodes b)"
    "u < length (bd_nodes b) \<Longrightarrow> gf_nodes f ! (nr ! u) = bd_nodes b ! u"
    "u < length (bd_nodes b) \<Longrightarrow> v < length (bd_nodes b) \<Longrightarrow> nr ! u = nr ! v \<longleftrightarrow> u = v"
proof -
  obtain nodeOrder where o: "order_of (length (bd_nodes b)) nodeOrder" "nr = remap_of nodeOrder"
    "gf_nodes f = map ((!) (bd_nodes b)) nodeOrder" using assms unfolding file_parts_def by blast
  note r = remap_of_inverse [OF o(1)]
  show "length (gf_nodes f) = length (bd_nodes b)" using order_of_facts(1) [OF o(1)] by (simp add: o)
  show "u < length (bd_nodes b) \<Longrightarrow> nr ! u < length (bd_nodes b)" using r by (simp add: o)
  show "u < length (bd_nodes b) \<Longrightarrow> gf_nodes f ! (nr ! u) = bd_nodes b ! u"
    using r order_of_facts(1) [OF o(1)] by (simp add: o)
  show "u < length (bd_nodes b) \<Longrightarrow> v < length (bd_nodes b) \<Longrightarrow> nr ! u = nr ! v \<longleftrightarrow> u = v"
    using r(2) [of u] r(2) [of v] unfolding o(2) by metis
qed

lemma piece_nodes:
  assumes "builder_inv crow b" "p \<in> set (bd_segments b)"
  shows "pd_from p < length (bd_nodes b)" "pd_to p < length (bd_nodes b)"
  using assms unfolding builder_inv_def pending_ok_def by blast+

lemma file_segments_wf:
  assumes "file_parts b f nr ps segs byWay" "builder_inv crow b" "s \<in> set (gf_segments f) \<union> set segs"
  shows "fromNode s < length (gf_nodes f)" "toNode s < length (gf_nodes f)"
    "(geometryOffset s + geometryCount s) * 2 \<le> length (gf_geometry f)"
proof -
  have "set segs = set (gf_segments f)"
    using assms(1) order_of_facts [of "length segs" byWay] unfolding file_parts_def by (auto simp: in_set_conv_nth image_iff)
  with assms(3) have "s \<in> set (gf_segments f)" by simp
  then obtain i where i: "i < length (gf_segments f)" "s = gf_segments f ! i" by (auto simp: in_set_conv_nth)
  note fp = file_pieces [OF assms(1)]
  let ?p = "map ((!) ps) byWay ! i"
  have m: "made_from nr (gf_strings f) (gf_geometry f) ?p s" using fp(2) i by (metis list_all2_conv_all_nth)
  have "?p \<in> set (bd_segments b)"
    using mset_eq_setD [OF fp(1)] list_all2_lengthD [OF fp(2)] i nth_mem [of i "map ((!) ps) byWay"] by simp
  from piece_nodes [OF assms(2) this] m file_nodes [OF assms(1)] show "fromNode s < length (gf_nodes f)"
    "toNode s < length (gf_nodes f)" "(geometryOffset s + geometryCount s) * 2 \<le> length (gf_geometry f)"
    by (simp_all add: made_from_def Let_def)
qed

text \<open>Renaming the segments of the edges is building the edges of the renamed segments.\<close>

lemma segment_edges_renamed:
  assumes "order_of (length segs) byWay" "i < length segs"
  shows "segment_edges (map ((!) segs) byWay) (remap_of byWay ! i) =
    map (apsnd (\<lambda>e. e\<lparr>ed_segment := remap_of byWay ! ed_segment e\<rparr>)) (segment_edges segs i)"
  using remap_of_inverse [OF assms] order_of_facts(1) [OF assms(1)] by (simp add: segment_edges_def Let_def)

lemma all_edges_renamed:
  assumes "order_of (length segs) byWay"
  shows "set (all_edges (map ((!) segs) byWay)) =
    apsnd (\<lambda>e. e\<lparr>ed_segment := remap_of byWay ! ed_segment e\<rparr>) ` set (all_edges segs)"
proof -
  note o = order_of_facts [OF assms]
  have "x \<in> set (all_edges (map ((!) segs) byWay)) \<longleftrightarrow>
      (\<exists>i<length segs. x \<in> set (segment_edges (map ((!) segs) byWay) (remap_of byWay ! i)))" for x
    using remap_of_inverse [OF assms] remap_of_nth(2) [OF assms] o by (simp add: all_edges_cases) metis
  then have "set (all_edges (map ((!) segs) byWay)) =
      (\<Union>i\<in>{..<length segs}. set (segment_edges (map ((!) segs) byWay) (remap_of byWay ! i)))" by blast
  also have "\<dots> = (\<Union>i\<in>{..<length segs}. apsnd (\<lambda>e. e\<lparr>ed_segment := remap_of byWay ! ed_segment e\<rparr>) ` set (segment_edges segs i))"
    by (rule SUP_cong) (simp_all add: segment_edges_renamed [OF assms])
  also have "\<dots> = apsnd (\<lambda>e. e\<lparr>ed_segment := remap_of byWay ! ed_segment e\<rparr>) ` (\<Union>i\<in>{..<length segs}. set (segment_edges segs i))"
    by (rule image_UN [symmetric])
  also have "(\<Union>i\<in>{..<length segs}. set (segment_edges segs i)) = set (all_edges segs)"
    by (simp add: all_edges_def atLeast0LessThan)
  finally show ?thesis .
qed

lemma apsnd_image: "(v, e) \<in> apsnd h ` S \<longleftrightarrow> e \<in> h ` {e. (v, e) \<in> S}"
  by force

lemma file_edges:
  assumes "file_parts b f nr ps segs byWay" "builder_inv crow b" "v < length (gf_nodes f)"
  shows "distinct (csr_row (gf_csrOffsets f) (gf_edges f) v)"
    "set (csr_row (gf_csrOffsets f) (gf_edges f) v) = {e. (v, e) \<in> set (all_edges (gf_segments f))}"
proof -
  let ?n = "length (gf_nodes f)" and ?items = "all_edges segs"
  define h where "h (e :: edge_record) = e\<lparr>ed_segment := remap_of byWay ! ed_segment e\<rparr>" for e
  have fs: "order_of (length segs) byWay" "gf_segments f = map ((!) segs) byWay"
    "gf_csrOffsets f = snd (build_edges segs ?n)" "gf_edges f = map h (fst (build_edges segs ?n))"
    using assms(1) unfolding file_parts_def h_def by blast+
  have nodes: "\<forall>s\<in>set segs. fromNode s < ?n \<and> toNode s < ?n" using file_segments_wf [OF assms(1,2)] by blast
  then have keys: "\<forall>k\<in>set (map fst ?items). k < ?n" by (auto simp: all_edges_cases segment_edges_cases)
  have row: "csr_row (gf_csrOffsets f) (gf_edges f) v = map h (row_items v ?items)"
    using csr_fill_row(1) [OF keys assms(3)]
    by (simp add: fs(3,4) build_edges_rows [OF nodes] csr_row_def take_map drop_map)
  have seg: "ed_segment e < length segs" if "(v, e) \<in> set ?items" for e
    using that by (auto simp: all_edges_cases segment_edges_cases)
  have items: "set (row_items v ?items) = {e. (v, e) \<in> set ?items}" by (auto simp: row_items_def image_iff)
  have "distinct (row_items v ?items)"
    using distinct_all_edges [of segs] by (auto simp: row_items_def distinct_map inj_on_def)
  moreover have "inj_on h (set (row_items v ?items))"
  proof (rule inj_onI)
    fix x y assume xy: "x \<in> set (row_items v ?items)" "y \<in> set (row_items v ?items)" "h x = h y"
    have "remap_of byWay ! ed_segment x = remap_of byWay ! ed_segment y" using arg_cong [OF xy(3), of ed_segment] by (simp add: h_def)
    then have "ed_segment x = ed_segment y" using remap_of_inverse(2) [OF fs(1)] xy(1,2) seg unfolding items by (metis mem_Collect_eq)
    then show "x = y" using xy(3) by (cases x; cases y) (simp add: h_def)
  qed
  ultimately show "distinct (csr_row (gf_csrOffsets f) (gf_edges f) v)" by (simp add: row distinct_map)
  have "{e. (v, e) \<in> set (all_edges (gf_segments f))} = h ` {e. (v, e) \<in> set ?items}"
    unfolding fs(2) all_edges_renamed [OF fs(1)] h_def [symmetric] apsnd_image by blast
  then show "set (csr_row (gf_csrOffsets f) (gf_edges f) v) = {e. (v, e) \<in> set (all_edges (gf_segments f))}"
    by (simp add: row items)
qed

section \<open>Opening a written file\<close>

definition routable :: "segment_input \<Rightarrow> bool" where
  "routable s \<longleftrightarrow> (let c = si_classification s in
     cl_routable c \<and> \<not> (cl_onewayForward c \<and> cl_onewayBackward c))"

lemma flagsOf_oneway:
  "flagsOf c AND kFlagOnewayForward = 0 \<longleftrightarrow> \<not> cl_onewayForward c" "flagsOf c AND kFlagOnewayBackward = 0 \<longleftrightarrow> \<not> cl_onewayBackward c"
  by (cases "cl_onewayForward c"; cases "cl_onewayBackward c"; cases "cl_hasPosted c"; cases "cl_isBridge c"; cases "cl_isTunnel c";
      simp add: flagsOf_def kFlagOnewayForward_def kFlagOnewayBackward_def kFlagHasPosted_def kFlagBridge_def kFlagTunnel_def)+

lemma route_code_0: "route_code c = 0 \<longleftrightarrow> c = RouteNone"
  by (cases c) simp_all

lemma made_open:
  assumes "made_from nr strings geometry p s"
  shows "forwardOpen s \<longleftrightarrow> \<not> cl_onewayBackward (si_classification (pd_input p))"
    "backwardOpen s \<longleftrightarrow> \<not> cl_onewayForward (si_classification (pd_input p))"
    "routed s \<longleftrightarrow> cl_routable (si_classification (pd_input p))"
  using assms by (simp_all add: made_from_def Let_def forwardOpen_def backwardOpen_def routed_def flagsOf_oneway cl_routable_def
      route_code_0 unat_eq_0)

lemma segment_edges_none: "segment_edges segs i = [] \<longleftrightarrow> \<not> (routed (segs ! i) \<and> (forwardOpen (segs ! i) \<or> backwardOpen (segs ! i)))"
  by (simp add: segment_edges_def Let_def)

lemma length_build_edges:
  assumes "\<forall>s\<in>set segments. fromNode s < n \<and> toNode s < n" "0 < n"
  shows "length (fst (build_edges segments n)) = length (all_edges segments)"
proof -
  have "\<forall>k\<in>set (map fst (all_edges segments)). k < n" using assms(1) by (auto simp: all_edges_cases segment_edges_cases)
  from csr_fill_row(2) [OF this assms(2)] show ?thesis by (simp add: build_edges_rows [OF assms(1)])
qed

lemma builder_nonempty:
  assumes "file_parts b f nr ps segs byWay" "builder_inv crow b"
  shows "0 < length (gf_nodes f)" "gf_segments f \<noteq> []" "gf_geometry f \<noteq> []"
proof -
  have p: "bd_segments b \<noteq> []" "set ps = set (bd_segments b)"
    "gf_geometry f = concat (map (\<lambda>p. si_geometry (pd_input p)) ps)"
    using assms(1) mset_eq_setD [of ps "bd_segments b"] unfolding file_parts_def by blast+
  let ?q = "hd (bd_segments b)"
  have q: "?q \<in> set (bd_segments b)" using p(1) by simp
  from piece_nodes [OF assms(2) q] file_nodes(1) [OF assms(1)] show "0 < length (gf_nodes f)" by linarith
  show "gf_segments f \<noteq> []" using file_pieces(3) [OF assms(1)] p(1) by (metis length_0_conv)
  have "4 \<le> length (si_geometry (pd_input ?q))" using assms(2) q unfolding builder_inv_def pending_ok_def by blast
  then have "si_geometry (pd_input ?q) \<noteq> []" by auto
  with q p(2) show "gf_geometry f \<noteq> []" by (auto simp: p(3))
qed

lemma file_edges_empty:
  assumes "file_parts b f nr ps segs byWay" "builder_inv crow b"
  shows "gf_edges f = [] \<longleftrightarrow> (\<forall>p\<in>set (bd_segments b). \<not> routable (pd_input p))"
proof -
  let ?n = "length (gf_nodes f)"
  have fs: "list_all2 (made_from nr (gf_strings f) (gf_geometry f)) ps segs" "mset ps = mset (bd_segments b)"
    "length (gf_edges f) = length (fst (build_edges segs ?n))"
    using assms(1) unfolding file_parts_def by auto
  have nodes: "\<forall>s\<in>set segs. fromNode s < ?n \<and> toNode s < ?n" using file_segments_wf [OF assms] by blast
  have "gf_edges f = [] \<longleftrightarrow> all_edges segs = []"
    using length_build_edges [OF nodes builder_nonempty(1) [OF assms]] fs(3) by (metis length_0_conv)
  also have "\<dots> \<longleftrightarrow> (\<forall>i<length segs. segment_edges segs i = [])" by (auto simp: all_edges_def)
  also have "\<dots> \<longleftrightarrow> (\<forall>i<length ps. \<not> routable (pd_input (ps ! i)))"
  proof -
    have "segment_edges segs i = [] \<longleftrightarrow> \<not> routable (pd_input (ps ! i))" if "i < length ps" for i
    proof -
      have "made_from nr (gf_strings f) (gf_geometry f) (ps ! i) (segs ! i)" using fs(1) that by (simp add: list_all2_conv_all_nth)
      from made_open [OF this] show ?thesis by (auto simp: segment_edges_none routable_def Let_def)
    qed
    then show ?thesis using list_all2_lengthD [OF fs(1)] by auto
  qed
  also have "\<dots> \<longleftrightarrow> (\<forall>p\<in>set ps. \<not> routable (pd_input p))" by (simp add: all_set_conv_all_nth)
  finally show ?thesis using mset_eq_setD [OF fs(2)] by simp
qed

lemma add_way_nonempty: "add_way segs i w \<noteq> []"
  by (simp add: add_way_def)

lemma file_binds:
  assumes "file_parts b f nr ps segs byWay" "builder_inv crow b"
  shows "graph_bind f = Inl GraphMalformed \<longleftrightarrow> gf_edges f = []" "(\<exists>g. graph_bind f = Inr g) \<longleftrightarrow> gf_edges f \<noteq> []"
proof -
  note ne = builder_nonempty [OF assms]
  have fs: "gf_wayIndex f = fold (add_way (gf_segments f)) [0..<length (gf_segments f)] []"
    "gf_rtree f = build_rtree (gf_geometry f) (gf_segments f)"
    "gf_csrOffsets f = snd (build_edges segs (length (gf_nodes f)))" "length segs = length (gf_segments f)"
    using assms(1) order_of_facts(1) [of "length segs" byWay] unfolding file_parts_def by auto
  obtain ix where "mset ix = mset (map (\<lambda>i. \<lparr>ix_id = sg_id (segs ! i), ix_index = i\<rparr>) [0..<length segs])"
    "gf_idIndex f = map (\<lambda>x. x\<lparr>ix_index := remap_of byWay ! ix_index x\<rparr>) ix" using assms(1) unfolding file_parts_def by blast
  then have ids: "length (gf_idIndex f) = length segs" using mset_eq_length by fastforce
  have nodes: "\<forall>s\<in>set segs. fromNode s < length (gf_nodes f) \<and> toNode s < length (gf_nodes f)"
    using file_segments_wf [OF assms] by blast
  have "[0..<length (gf_segments f)] = [0..<length (gf_segments f) - 1] @ [length (gf_segments f) - 1]"
    using ne(2) by (metis One_nat_def Suc_pred length_greater_0_conv upt_Suc_append zero_le)
  then have "gf_wayIndex f \<noteq> []" unfolding fs(1) using add_way_nonempty by simp
  moreover have "gf_rtree f \<noteq> []"
    unfolding fs(2) using build_rtree_packed [OF ne(2), of "gf_geometry f"] by (auto simp: packed_tree_def)
  moreover have "gf_idIndex f \<noteq> []" using ids fs(4) ne(2) by (metis length_0_conv)
  moreover have "length (gf_csrOffsets f) = length (gf_nodes f) + 1" by (simp add: fs(3) build_edges_rows [OF nodes])
  moreover have "gf_nodes f \<noteq> []" "gf_csrOffsets f \<noteq> []" using ne(1) calculation(4) by auto
  ultimately show "graph_bind f = Inl GraphMalformed \<longleftrightarrow> gf_edges f = []" "(\<exists>g. graph_bind f = Inr g) \<longleftrightarrow> gf_edges f \<noteq> []"
    using ne(2,3) by (simp_all add: graph_bind_def Let_def)
qed

lemma free_flow_positive: "0 < free_flow_costDs s"
proof -
  have "0 < nat \<lfloor>max 1 x\<rfloor>" for x :: rat
  proof -
    have "1 \<le> \<lfloor>max 1 x\<rfloor>" by (simp add: le_floor_iff)
    then show ?thesis by linarith
  qed
  then show ?thesis unfolding free_flow_costDs_def Let_def .
qed

lemma file_graph_wf:
  assumes "file_parts b f nr ps segs byWay" "builder_inv crow b" "length (bd_nodes b) < 2 ^ 32 - 1" "graph_bind f = Inr g"
  shows "graph_wf g" "positive_costs g"
proof -
  let ?n = "length (gf_nodes f)"
  note bind = bind_fields [OF assms(4)] and ne = builder_nonempty [OF assms(1,2)]
  have fs: "gf_csrOffsets f = snd (build_edges segs ?n)" "order_of (length segs) byWay"
    "gf_edges f = map (\<lambda>e. e\<lparr>ed_segment := remap_of byWay ! ed_segment e\<rparr>) (fst (build_edges segs ?n))"
    "length segs = length (gf_segments f)"
    using assms(1) order_of_facts(1) [of "length segs" byWay] unfolding file_parts_def by auto
  have nodes: "\<forall>s\<in>set segs. fromNode s < ?n \<and> toNode s < ?n" using file_segments_wf [OF assms(1,2)] by blast
  then have keys: "\<forall>k\<in>set (map fst (all_edges segs)). k < ?n" by (auto simp: all_edges_cases segment_edges_cases)
  have len: "length (gf_edges f) = length (all_edges segs)" using length_build_edges [OF nodes ne(1)] by (simp add: fs(3))
  have offsets: "k \<le> length (gf_edges f)" if "k \<in> set (gf_csrOffsets f)" for k
    using that csr_offsets_mono [OF keys _ order_refl] csr_offsets_total [OF keys] len
    by (auto simp: fs(1) build_edges_rows [OF nodes] in_set_conv_nth)
  have edges: "\<exists>v<?n. e \<in> set (csr_row (gf_csrOffsets f) (gf_edges f) v)" if "e \<in> set (gf_edges f)" for e
  proof -
    from that obtain i where i: "i < length (gf_edges f)" "gf_edges f ! i = e" by (auto simp: in_set_conv_nth)
    let ?off = "csr_offsets ?n (map fst (all_edges segs))"
    have ends: "?off ! 0 \<le> i" "i < ?off ! ?n"
      using csr_offsets_nth(1) [OF keys] csr_offsets_total [OF keys] i(1) len by simp_all
    have "\<exists>v<?n. ?off ! v \<le> i \<and> i < ?off ! (v + 1)"
    proof -
      have "i < ?off ! m \<Longrightarrow> m \<le> ?n \<Longrightarrow> \<exists>v<m. ?off ! v \<le> i \<and> i < ?off ! (v + 1)" for m
      proof (induction m)
        case (Suc m)
        then show ?case by (cases "i < ?off ! m") (auto intro: less_SucI exI [of _ m])
      qed (use ends in simp)
      from this [OF ends(2) order_refl] show ?thesis .
    qed
    then obtain v where v: "v < ?n" "?off ! v \<le> i" "i < ?off ! (v + 1)" by blast
    have "csr_row (gf_csrOffsets f) (gf_edges f) v ! (i - ?off ! v) = e" "i - ?off ! v < length (csr_row (gf_csrOffsets f) (gf_edges f) v)"
      using v i by (auto simp: csr_row_def fs(1) build_edges_rows [OF nodes])
    then show ?thesis using v(1) nth_mem by metis
  qed
  have each: "edge_wf g e \<and> 0 < costDs e" if "e \<in> set (gf_edges f)" for e
  proof -
    from edges [OF that] obtain v where "v < ?n" "e \<in> set (csr_row (gf_csrOffsets f) (gf_edges f) v)" by blast
    then have e: "(v, e) \<in> set (all_edges (gf_segments f))" using file_edges(2) [OF assms(1,2)] by simp
    then obtain i where i: "i < length (gf_segments f)" "(v, e) \<in> set (segment_edges (gf_segments f) i)"
      by (auto simp: all_edges_cases)
    then have "gf_segments f ! i \<in> set (gf_segments f)" by simp
    with i file_segments_wf(1,2) [OF assms(1,2), of "gf_segments f ! i"] show ?thesis
      by (auto simp: segment_edges_cases edge_wf_def bind(1,2) free_flow_positive)
  qed
  show "positive_costs g" using each by (simp add: positive_costs_def list_all_iff bind(3))
  have "length (gf_csrOffsets f) = ?n + 1" by (simp add: fs(1) build_edges_rows [OF nodes])
  moreover have "?n < 2 ^ 32 - 1" using assms(3) file_nodes(1) [OF assms(1)] by simp
  moreover have "segment_wf g s" if "s \<in> set (gf_segments f)" for s
    using file_segments_wf [OF assms(1,2), of s] that by (simp add: segment_wf_def bind(1,4))
  ultimately show "graph_wf g"
    using offsets each unfolding graph_wf_def list_all_iff bind(1,2,3,6) by blast
qed

section \<open>The indices\<close>

lemma lower_bound_entry:
  fixes key :: "'a \<Rightarrow> 'k :: linorder" and k :: 'k
  assumes "sorted (map key xs)"
  defines "it \<equiv> lower_bound (\<lambda>e. key e < k) xs"
  shows "it = length xs \<or> key (xs ! it) \<noteq> k \<Longrightarrow> k \<notin> set (map key xs)"
    "\<not> (it = length xs \<or> key (xs ! it) \<noteq> k) \<Longrightarrow> xs ! it \<in> set xs \<and> key (xs ! it) = k"
proof -
  have "it \<le> length xs"
    unfolding it_def using assms(1) by (subst lower_bound_partitioned, intro partitioned_sorted [of "\<lambda>x y. key x \<le> key y"])
      (auto simp: sorted_map length_takeWhile_le)
  with lower_bound_find [OF assms(1), of k] show "it = length xs \<or> key (xs ! it) \<noteq> k \<Longrightarrow> k \<notin> set (map key xs)"
    "\<not> (it = length xs \<or> key (xs ! it) \<noteq> k) \<Longrightarrow> xs ! it \<in> set xs \<and> key (xs ! it) = k"
    unfolding it_def by auto
qed

lemma file_id_index:
  assumes "file_parts b f nr ps segs byWay"
  shows "sorted (map ix_id (gf_idIndex f))" "mset (map ix_id (gf_idIndex f)) = mset (map sg_id (gf_segments f))"
    "x \<in> set (gf_idIndex f) \<Longrightarrow> ix_index x < length (gf_segments f) \<and> sg_id (gf_segments f ! ix_index x) = ix_id x"
proof -
  obtain ix where ix: "mset ix = mset (map (\<lambda>i. \<lparr>ix_id = sg_id (segs ! i), ix_index = i\<rparr>) [0..<length segs])"
    "sorted_wrt (\<lambda>x y. \<not> ix_id y < ix_id x) ix"
    "gf_idIndex f = map (\<lambda>x. x\<lparr>ix_index := remap_of byWay ! ix_index x\<rparr>) ix" using assms unfolding file_parts_def by blast
  have fs: "order_of (length segs) byWay" "gf_segments f = map ((!) segs) byWay" using assms unfolding file_parts_def by blast+
  have ids: "map ix_id (gf_idIndex f) = map ix_id ix" by (simp add: ix(3) comp_def)
  show "sorted (map ix_id (gf_idIndex f))"
    unfolding ids using ix(2) by (simp add: sorted_wrt_map not_less)
  have "mset (map ix_id ix) = mset (map (\<lambda>i. sg_id (segs ! i)) [0..<length segs])"
    by (simp only: mset_map ix(1) multiset.map_comp comp_def segment_id_index_entry.simps)
  also have "\<dots> = image_mset (\<lambda>i. sg_id (segs ! i)) (mset byWay)" using fs(1) by (simp only: mset_map order_of_def)
  also have "\<dots> = mset (map sg_id (gf_segments f))" by (simp only: fs(2) map_map mset_map multiset.map_comp comp_def)
  finally show "mset (map ix_id (gf_idIndex f)) = mset (map sg_id (gf_segments f))" by (simp only: ids)
  assume "x \<in> set (gf_idIndex f)"
  then obtain i where "i < length segs" "x = \<lparr>ix_id = sg_id (segs ! i), ix_index = remap_of byWay ! i\<rparr>"
    using mset_eq_setD [OF ix(1)] by (auto simp: ix(3))
  then show "ix_index x < length (gf_segments f) \<and> sg_id (gf_segments f ! ix_index x) = ix_id x"
    using remap_of_inverse [OF fs(1)] order_of_facts(1) [OF fs(1)] by (simp add: fs(2))
qed

lemma file_indexOf:
  assumes "file_parts b f nr ps segs byWay" "g_idIndex g = gf_idIndex f" "distinct (map sg_id (gf_segments f))"
  shows "i < length (gf_segments f) \<Longrightarrow> indexOf g (sg_id (gf_segments f ! i)) = Some i"
    "k \<notin> set (map sg_id (gf_segments f)) \<Longrightarrow> indexOf g k = None"
proof -
  note ix = file_id_index [OF assms(1)]
  have d: "distinct (map ix_id (g_idIndex g))" using mset_eq_imp_distinct_iff [OF ix(2)] assms(2,3) by simp
  have look: "indexOf g k = map_of (map (\<lambda>e. (ix_id e, ix_index e)) (gf_idIndex f)) k" for k
    using indexOf_lookup [OF _ d] ix(1) assms(2) by simp
  have keys: "set (map ix_id (gf_idIndex f)) = set (map sg_id (gf_segments f))" using mset_eq_setD [OF ix(2)] .
  show "indexOf g k = None" if "k \<notin> set (map sg_id (gf_segments f))"
    using that keys by (auto simp: look map_of_eq_None_iff image_iff)
  assume i: "i < length (gf_segments f)"
  then have "sg_id (gf_segments f ! i) \<in> set (map ix_id (gf_idIndex f))" using keys by auto
  then obtain x where x: "x \<in> set (gf_idIndex f)" "ix_id x = sg_id (gf_segments f ! i)" by auto
  with ix(3) [OF x(1)] i assms(3) have "ix_index x = i" by (simp add: distinct_conv_nth) metis
  with x d assms(2) show "indexOf g (sg_id (gf_segments f ! i)) = Some i"
    by (auto simp: look comp_def intro!: map_of_is_SomeI image_eqI [of _ _ x])
qed

text \<open>The first \<open>m\<close> segments grouped by way.\<close>

definition ways_ok :: "segment_record list \<Rightarrow> nat \<Rightarrow> way_index_entry list \<Rightarrow> bool" where
  "ways_ok segments m W \<longleftrightarrow> sorted_wrt (<) (map wi_wayId W) \<and>
     set (map wi_wayId W) = (\<lambda>i. osmWayId (segments ! i)) ` {..<m} \<and>
     (\<forall>e\<in>set W. [firstSegment e ..< firstSegment e + wi_segmentCount e] = filter (\<lambda>i. osmWayId (segments ! i) = wi_wayId e) [0..<m]) \<and>
     (W \<noteq> [] \<longrightarrow> firstSegment (last W) + wi_segmentCount (last W) = m \<and> firstSegment (last W) \<le> m)"

lemma add_way_ok:
  assumes "sorted (map osmWayId segments)" "m < length segments" "ways_ok segments m W"
  shows "ways_ok segments (Suc m) (add_way segments m W)"
proof -
  let ?w = "osmWayId (segments ! m)"
  note ok = assms(3) [unfolded ways_ok_def]
  have le: "wi_wayId e \<le> ?w" if "e \<in> set W" for e
  proof -
    have "wi_wayId e \<in> (\<lambda>i. osmWayId (segments ! i)) ` {..<m}" using ok that by auto
    then obtain i where "i < m" "wi_wayId e = osmWayId (segments ! i)" by auto
    with assms(1,2) show ?thesis by (simp add: sorted_iff_nth_mono)
  qed
  have other: "[firstSegment e ..< firstSegment e + wi_segmentCount e] = filter (\<lambda>i. osmWayId (segments ! i) = wi_wayId e) [0..<Suc m]"
    if "e \<in> set W" "wi_wayId e \<noteq> ?w" for e
    using ok that by auto
  show ?thesis
  proof (cases "W \<noteq> [] \<and> wi_wayId (last W) = ?w")
    case True
    obtain V e where W: "W = V @ [e]" using True by (metis append_butlast_last_id)
    let ?e = "e\<lparr>wi_segmentCount := wi_segmentCount e + 1\<rparr>"
    have add: "add_way segments m W = V @ [?e]" using True by (simp add: add_way_def W)
    have "wi_wayId v \<noteq> ?w" if "v \<in> set V" for v using ok True that by (auto simp: W sorted_wrt_append)
    then have V: "[firstSegment v ..< firstSegment v + wi_segmentCount v] = filter (\<lambda>i. osmWayId (segments ! i) = wi_wayId v) [0..<Suc m]"
      if "v \<in> set V" for v using that other [of v] by (simp add: W)
    have "[firstSegment e ..< firstSegment e + wi_segmentCount e] = filter (\<lambda>i. osmWayId (segments ! i) = wi_wayId e) [0..<m]"
      "firstSegment e + wi_segmentCount e = m" "firstSegment e \<le> m" using ok unfolding W by auto
    then have "[firstSegment ?e ..< firstSegment ?e + wi_segmentCount ?e] = filter (\<lambda>i. osmWayId (segments ! i) = wi_wayId ?e) [0..<Suc m]"
      using True by (simp add: W)
    with V ok True show ?thesis unfolding add ways_ok_def by (auto simp: W lessThan_Suc)
  next
    case False
    let ?e = "\<lparr>wi_wayId = ?w, firstSegment = m, wi_segmentCount = 1\<rparr>"
    have add: "add_way segments m W = W @ [?e]" using False by (auto simp: add_way_def)
    have less: "wi_wayId e < ?w" if "e \<in> set W" for e
    proof -
      have ne: "W \<noteq> []" using that by auto
      have "wi_wayId e \<le> wi_wayId (last W)"
      proof -
        obtain V l where W: "W = V @ [l]" using ne by (metis append_butlast_last_id)
        show ?thesis using ok that by (auto simp: W sorted_wrt_append)
      qed
      also have "\<dots> < ?w" using False ne le [of "last W"] by simp
      finally show ?thesis .
    qed
    have "osmWayId (segments ! i) \<noteq> ?w" if "i < m" for i
    proof -
      have "osmWayId (segments ! i) \<in> set (map wi_wayId W)" using ok that by auto
      with less show ?thesis by fastforce
    qed
    then have "filter (\<lambda>i. osmWayId (segments ! i) = ?w) [0..<m] = []" by (simp add: filter_empty_conv)
    then have rows: "\<forall>e\<in>set (W @ [?e]).
        [firstSegment e ..< firstSegment e + wi_segmentCount e] = filter (\<lambda>i. osmWayId (segments ! i) = wi_wayId e) [0..<Suc m]"
      using other less by fastforce
    have s: "sorted_wrt (<) (map wi_wayId W)" and keys: "set (map wi_wayId W) = (\<lambda>i. osmWayId (segments ! i)) ` {..<m}"
      using ok by blast+
    have "sorted_wrt (<) (map wi_wayId (W @ [?e]))" using s less by (auto simp: sorted_wrt_append)
    moreover have "set (map wi_wayId (W @ [?e])) = (\<lambda>i. osmWayId (segments ! i)) ` {..<Suc m}" using keys by (simp add: lessThan_Suc)
    ultimately show ?thesis using rows unfolding add ways_ok_def by simp
  qed
qed

lemma file_ways:
  assumes "file_parts b f nr ps segs byWay"
  shows "sorted_wrt (\<lambda>x y. \<not> way_before y x) (gf_segments f)" "sorted (map osmWayId (gf_segments f))"
    "ways_ok (gf_segments f) (length (gf_segments f)) (gf_wayIndex f)"
proof -
  have fs: "sorted_wrt (\<lambda>i j. \<not> way_before (segs ! j) (segs ! i)) byWay" "gf_segments f = map ((!) segs) byWay"
    "gf_wayIndex f = fold (add_way (gf_segments f)) [0..<length (gf_segments f)] []" using assms unfolding file_parts_def by blast+
  show s: "sorted_wrt (\<lambda>x y. \<not> way_before y x) (gf_segments f)" using fs(1) by (simp add: fs(2) sorted_wrt_map)
  then have "sorted_wrt (\<lambda>x y. osmWayId x \<le> osmWayId y) (gf_segments f)"
    by (rule sorted_wrt_mono_rel [rotated]) (auto simp: way_before_def split: if_splits)
  then show m: "sorted (map osmWayId (gf_segments f))" by (simp add: sorted_wrt_map)
  have "ways_ok (gf_segments f) k (fold (add_way (gf_segments f)) [0..<k] [])" if "k \<le> length (gf_segments f)" for k
    using that by (induction k) (simp_all add: add_way_ok [OF m], simp add: ways_ok_def)
  then show "ways_ok (gf_segments f) (length (gf_segments f)) (gf_wayIndex f)" by (simp add: fs(3))
qed

lemma ways_lookup:
  assumes "ways_ok segments m W"
  shows "(let (first, count) = segments_of_way W w in [first..<first + count]) = filter (\<lambda>i. osmWayId (segments ! i) = w) [0..<m]"
proof -
  let ?it = "lower_bound (\<lambda>e. wi_wayId e < w) W"
  have ok: "set (map wi_wayId W) = (\<lambda>i. osmWayId (segments ! i)) ` {..<m}"
    "\<And>e. e \<in> set W \<Longrightarrow> [firstSegment e ..< firstSegment e + wi_segmentCount e] = filter (\<lambda>i. osmWayId (segments ! i) = wi_wayId e) [0..<m]"
    and s: "sorted (map wi_wayId W)"
    using assms by (simp_all add: ways_ok_def strict_sorted_iff)
  show ?thesis
  proof (cases "?it = length W \<or> wi_wayId (W ! ?it) \<noteq> w")
    case True
    with lower_bound_entry(1) [OF s] have "w \<notin> (\<lambda>i. osmWayId (segments ! i)) ` {..<m}" using ok(1) by blast
    then have "filter (\<lambda>i. osmWayId (segments ! i) = w) [0..<m] = []" by (auto simp: filter_empty_conv)
    with True show ?thesis by (simp add: segments_of_way_def)
  next
    case False
    from lower_bound_entry(2) [OF s False] ok(2) [of "W ! ?it"] False show ?thesis by (simp add: segments_of_way_def Let_def)
  qed
qed

lemma segmentsOfWay_ways:
  assumes "ways_ok segments m (g_wayIndex g)"
  shows "segmentsOfWay g w = filter (\<lambda>i. osmWayId (segments ! i) = w) [0..<m]"
  using ways_lookup [OF assms, of w] by (auto simp: segmentsOfWay_def segments_of_way_def Let_def split: if_splits)

section \<open>What comes back\<close>

lemma text_comes_back:
  assumes "text_at (g_strings g) k t" "CHR 0x00 \<notin> set t"
  shows "graph_string g k = t"
proof (cases "t = []")
  case False
  with assms(1) obtain rest where rest: "kNoString < k" "drop k (g_strings g) = t @ CHR 0x00 # rest" by (auto simp: text_at_def)
  then have "k < length (g_strings g)" by (metis drop_all list.distinct(1) append_is_Nil_conv not_le)
  moreover have "takeWhile (\<lambda>c. c \<noteq> CHR 0x00) (t @ CHR 0x00 # rest) = t" using assms(2) by (subst takeWhile_append2) auto
  ultimately show ?thesis using rest by (simp add: graph_string_def)
qed (use assms in \<open>simp add: text_at_def graph_string_def\<close>)

lemma file_geometry:
  assumes "file_parts b f nr ps segs byWay" "\<forall>p\<in>set (bd_segments b). even (length (si_geometry (pd_input p)))"
    "i < length (gf_segments f)"
  shows "take (geometryCount (gf_segments f ! i) * 2) (drop (geometryOffset (gf_segments f ! i) * 2) (gf_geometry f)) =
    si_geometry (pd_input (map ((!) ps) byWay ! i))"
proof -
  have fs: "mset ps = mset (bd_segments b)" "gf_geometry f = concat (map (\<lambda>p. si_geometry (pd_input p)) ps)"
    "list_all2 (made_from nr (gf_strings f) (gf_geometry f)) ps segs"
    "map geometryOffset segs = map (\<lambda>i. length (concat (map (\<lambda>p. si_geometry (pd_input p)) (take i ps))) div 2) [0..<length ps]"
    "order_of (length segs) byWay" "gf_segments f = map ((!) segs) byWay"
    using assms(1) unfolding file_parts_def by blast+
  note o = order_of_facts [OF fs(5)]
  let ?j = "byWay ! i"
  have l: "length ps = length segs" using fs(3) by (rule list_all2_lengthD)
  have i: "i < length segs" "?j < length segs" using assms(3) o by (simp_all add: fs(6))
  have s: "gf_segments f ! i = segs ! ?j" using i o by (simp add: fs(6))
  have "made_from nr (gf_strings f) (gf_geometry f) (ps ! ?j) (segs ! ?j)" using fs(3) i by (simp add: list_all2_conv_all_nth)
  then have count: "geometryCount (segs ! ?j) = length (si_geometry (pd_input (ps ! ?j))) div 2" by (simp add: made_from_def Let_def)
  have off: "geometryOffset (segs ! ?j) = length (concat (map (\<lambda>p. si_geometry (pd_input p)) (take ?j ps))) div 2"
    using arg_cong [OF fs(4), of "\<lambda>xs. xs ! ?j"] i l by (simp del: length_concat)
  have "\<forall>p\<in>set ps. even (length (si_geometry (pd_input p)))" using assms(2) mset_eq_setD [OF fs(1)] by simp
  from geometry_slice [OF this, of ?j] show ?thesis using i l o by (simp add: s count off fs(2) del: length_concat)
qed

text \<open>
  The piece \<open>input\<close> as the graph has it at position \<open>i\<close>: found by its identity, with its way, geometry, name and
  reference, and the classification the router needs.
\<close>

definition stored_as :: "graph \<Rightarrow> segment_input \<Rightarrow> nat \<Rightarrow> bool" where
  "stored_as g input i \<longleftrightarrow>
     (let s = g_segments g ! i; c = si_classification input in
      i < length (g_segments g) \<and> sg_id s = si_id input \<and> osmWayId s = si_osmWayId input \<and>
      geometryOf g s = si_geometry input \<and> nameOf g s = si_name input \<and> refOf g s = si_ref input \<and>
      postedSpeedKph s = cl_postedSpeedKph c \<and> freeFlowSpeedKph s = cl_freeFlowSpeedKph c \<and> accessMask s = unat (cl_access c) \<and>
      renderClass s = render_code (cl_renderClass c) \<and> routeClass s = route_code (cl_routeClass c) \<and> postedSource s = source_code (cl_postedSource c) \<and>
      laneCount s = cl_laneCount c \<and> sg_layer s = cl_layer c \<and>
      (sg_flags s AND kFlagOnewayForward \<noteq> 0 \<longleftrightarrow> cl_onewayForward c) \<and>
      (sg_flags s AND kFlagOnewayBackward \<noteq> 0 \<longleftrightarrow> cl_onewayBackward c))"

lemma file_stores:
  assumes "file_parts b f nr ps segs byWay" "graph_bind f = Inr g"
    "\<forall>p\<in>set (bd_segments b). even (length (si_geometry (pd_input p)))" "i < length (gf_segments f)"
    "input = pd_input (map ((!) ps) byWay ! i)" "CHR 0x00 \<notin> set (si_name input) \<union> set (si_ref input)"
  shows "stored_as g input i"
proof -
  note bind = bind_fields [OF assms(2)]
  let ?p = "map ((!) ps) byWay ! i" and ?s = "gf_segments f ! i"
  have m: "made_from nr (g_strings g) (gf_geometry f) ?p ?s"
    using file_pieces(2) [OF assms(1)] assms(4) unfolding bind by (metis list_all2_conv_all_nth)
  have "geometryOf g ?s = si_geometry input"
    using file_geometry [OF assms(1,3,4)] by (simp add: geometryOf_def bind assms(5))
  moreover have "nameOf g ?s = si_name input" "refOf g ?s = si_ref input"
    using m assms(6) text_comes_back [of g] unfolding assms(5) by (auto simp: made_from_def Let_def nameOf_def refOf_def)
  ultimately show ?thesis
    using m assms(4) unfolding stored_as_def bind(2) by (simp add: made_from_def Let_def assms(5) flagsOf_oneway)
qed

lemma file_position:
  assumes "file_parts b f nr ps segs byWay" "input \<in> set (map pd_input (bd_segments b))"
  shows "\<exists>i<length (gf_segments f). input = pd_input (map ((!) ps) byWay ! i)"
proof -
  note fp = file_pieces [OF assms(1)]
  have "set (map ((!) ps) byWay) = set (bd_segments b)" using mset_eq_setD [OF fp(1)] .
  with assms(2) have "input \<in> pd_input ` set (map ((!) ps) byWay)" by simp
  then show ?thesis using list_all2_lengthD [OF fp(2)] by (metis image_iff in_set_conv_nth)
qed

lemma file_ids:
  assumes "file_parts b f nr ps segs byWay"
  shows "mset (map sg_id (gf_segments f)) = mset (map si_id (map pd_input (bd_segments b)))"
proof -
  note fp = file_pieces [OF assms]
  have "map sg_id (gf_segments f) = map (\<lambda>p. si_id (pd_input p)) (map ((!) ps) byWay)"
    using fp(2) by (intro nth_equalityI) (auto simp: list_all2_conv_all_nth made_from_def Let_def)
  then have "mset (map sg_id (gf_segments f)) = mset (map (\<lambda>p. si_id (pd_input p)) (map ((!) ps) byWay))" by (simp only:)
  also have "\<dots> = image_mset (\<lambda>p. si_id (pd_input p)) (mset (map ((!) ps) byWay))" by (rule mset_map)
  also have "\<dots> = image_mset (\<lambda>p. si_id (pd_input p)) (mset (bd_segments b))" by (simp only: fp(1))
  also have "\<dots> = mset (map si_id (map pd_input (bd_segments b)))" by (simp only: mset_map multiset.map_comp comp_def)
  finally show ?thesis .
qed

lemma built_parts:
  assumes "sorts srt" "builder_write srt t (build crow ops) = Inr (f, b')"
  shows "\<exists>nr ps segs byWay. file_parts (build crow ops) f nr ps segs byWay \<and> file_restrictions (build crow ops) f nr b'"
  using write_parts(1) [OF assms(1) build_inv(1) assms(2)] .

text \<open>A sort for the witnesses.\<close>

fun insert_before :: "(nat \<Rightarrow> nat \<Rightarrow> bool) \<Rightarrow> nat \<Rightarrow> nat list \<Rightarrow> nat list" where
  "insert_before lt x [] = [x]"
| "insert_before lt x (y # ys) = (if lt y x then y # insert_before lt x ys else x # y # ys)"

definition insertion :: "(nat \<Rightarrow> nat \<Rightarrow> bool) \<Rightarrow> nat list \<Rightarrow> nat list" where
  "insertion lt xs = foldr (insert_before lt) xs []"

lemma insertion_sorts: "sorts insertion"
proof -
  have "mset (insert_before lt x ys) = add_mset x (mset ys)" for lt x ys
    by (induction lt x ys rule: insert_before.induct) simp_all
  note m = this
  have s: "sorted_wrt (\<lambda>a b. \<not> lt b a) (insert_before lt x ys)" if "weak_order lt" "sorted_wrt (\<lambda>a b. \<not> lt b a) ys" for lt x ys
    using that(2)
  proof (induction ys)
    case (Cons y ys)
    have set: "set (insert_before lt x ys) = insert x (set ys)" using arg_cong [OF m [of lt x ys], of set_mset] by simp
    show ?case
    proof (cases "lt y x")
      case True
      then have "\<not> lt x y" using that(1) unfolding weak_order_def by blast
      with True Cons show ?thesis by (simp add: set)
    next
      case False
      then have "\<not> lt z x" if "z \<in> set ys" for z
        using that Cons.prems \<open>weak_order lt\<close> unfolding weak_order_def by (metis sorted_wrt.simps(2))
      with False Cons.prems show ?thesis by simp
    qed
  qed simp
  have "mset (insertion lt xs) = mset xs \<and> (weak_order lt \<longrightarrow> sorted_wrt (\<lambda>a b. \<not> lt b a) (insertion lt xs))" for lt xs
    by (induction xs) (simp_all add: insertion_def m s)
  then show ?thesis unfolding sorts_def by blast
qed

section \<open>The network\<close>

lemma build_ends: "dom (bd_nodeIds (build crow ops)) = (\<Union>s\<in>set (offered_pieces ops). {si_fromNodeId s, si_toNodeId s})"
proof (induction ops rule: rev_induct)
  case (snoc op ops)
  have step: "build crow (ops @ [op]) = builder_apply crow op (build crow ops)" by (simp add: build_def)
  have node: "dom (bd_nodeIds (snd (nodeFor i lat lon b))) = insert i (dom (bd_nodeIds b))" for i lat lon b
    by (auto simp: nodeFor_def split: option.splits)
  show ?case
  proof (cases op)
    case (AddSegment s)
    let ?b = "build crow ops" and ?g = "si_geometry s"
    obtain u b1 where 1: "nodeFor (si_fromNodeId s) (?g ! 0) (?g ! 1) ?b = (u, b1)" by fastforce
    obtain v b2 where 2: "nodeFor (si_toNodeId s) (?g ! (length ?g - 2)) (?g ! (length ?g - 1)) b1 = (v, b2)" by fastforce
    have "dom (bd_nodeIds b2) = insert (si_toNodeId s) (insert (si_fromNodeId s) (dom (bd_nodeIds ?b)))"
      using node [of "si_fromNodeId s" "?g ! 0" "?g ! 1" ?b] node [of "si_toNodeId s" "?g ! (length ?g - 2)" "?g ! (length ?g - 1)" b1] 1 2
      by simp
    moreover have "bd_nodeIds (builder_add crow s ?b) = (if length ?g < 4 then bd_nodeIds ?b else bd_nodeIds b2)"
      using 1 2 by (simp add: builder_add_def Let_def)
    ultimately show ?thesis using step snoc AddSegment by (auto simp: offered_pieces_def)
  qed (use step snoc in \<open>simp add: addRestriction_def offered_pieces_def\<close>)
qed (simp add: build_def new_builder_def offered_pieces_def)

text \<open>Which inputs are promised to come back: pairs of coordinates, identities used once, and texts without a zero.\<close>

definition offer_ok :: "builder_op list \<Rightarrow> bool" where
  "offer_ok ops \<longleftrightarrow> distinct (map si_id (offered_pieces ops)) \<and>
     list_all (\<lambda>s. even (length (si_geometry s)) \<and> CHR 0x00 \<notin> set (si_name s) \<union> set (si_ref s)) (offered_pieces ops)"

text \<open>
  The graph \<open>g\<close> is the network that was offered: a node for each OSM node that ends a piece, no two of them the same, and each
  piece found by its identity, between its nodes.
\<close>

definition network_of :: "builder_op list \<Rightarrow> graph \<Rightarrow> (int \<Rightarrow> nat option) \<Rightarrow> bool" where
  "network_of ops g node \<longleftrightarrow>
     dom node = (\<Union>s\<in>set (offered_pieces ops). {si_fromNodeId s, si_toNodeId s}) \<and> inj_on node (dom node) \<and>
     (\<forall>i v. node i = Some v \<longrightarrow> v < length (g_nodes g)) \<and>
     (\<forall>s\<in>set (offered_pieces ops). \<exists>i. indexOf g (si_id s) = Some i \<and> stored_as g s i \<and>
        node (si_fromNodeId s) = Some (fromNode (g_segments g ! i)) \<and> node (si_toNodeId s) = Some (toNode (g_segments g ! i)))"

lemma network_piece:
  assumes "network_of ops g node" "s \<in> set (offered_pieces ops)"
  shows "\<exists>i. indexOf g (si_id s) = Some i \<and> stored_as g s i \<and>
    node (si_fromNodeId s) = Some (fromNode (g_segments g ! i)) \<and> node (si_toNodeId s) = Some (toNode (g_segments g ! i))"
  using assms unfolding network_of_def by blast

lemma network_range: "network_of ops g node \<Longrightarrow> node i = Some v \<Longrightarrow> v < length (g_nodes g)"
  unfolding network_of_def by blast

lemma file_network:
  assumes "file_parts (build crow ops) f nr ps segs byWay" "graph_bind f = Inr g" "offer_ok ops"
  shows "network_of ops g (map_option ((!) nr) \<circ> bd_nodeIds (build crow ops))"
    "k \<notin> set (map si_id (offered_pieces ops)) \<Longrightarrow> indexOf g k = None"
proof -
  let ?b = "build crow ops" and ?node = "map_option ((!) nr) \<circ> bd_nodeIds (build crow ops)"
  note bind = bind_fields [OF assms(2)] and fn = file_nodes [OF assms(1)] and fp = file_pieces [OF assms(1)]
  have inv: "builder_inv crow ?b" by (rule build_inv)
  have inputs: "map pd_input (bd_segments ?b) = offered_pieces ops" by (rule build_inv)
  have small: "v < length (bd_nodes ?b)" if "bd_nodeIds ?b i = Some v" for i v using inv that unfolding builder_inv_def by blast
  have ids: "mset (map sg_id (gf_segments f)) = mset (map si_id (offered_pieces ops))" using file_ids [OF assms(1)] inputs by simp
  then have d: "distinct (map sg_id (gf_segments f))"
    using mset_eq_imp_distinct_iff [OF ids] assms(3) by (simp add: offer_ok_def)
  note find = file_indexOf [OF assms(1) bind(8) d]
  show "indexOf g k = None" if "k \<notin> set (map si_id (offered_pieces ops))" using find(2) [of k] that mset_eq_setD [OF ids] by simp
  have dom: "dom ?node = dom (bd_nodeIds ?b)" by (auto simp: dom_def)
  have inj: "inj_on ?node (dom (bd_nodeIds ?b))"
  proof (rule inj_onI)
    fix i j assume ij: "i \<in> dom (bd_nodeIds ?b)" "j \<in> dom (bd_nodeIds ?b)" "?node i = ?node j"
    then obtain u v where uv: "bd_nodeIds ?b i = Some u" "bd_nodeIds ?b j = Some v" by blast
    with ij(3) fn(4) [OF small small] have "u = v" by auto
    with uv have "bd_nodeIds ?b i = bd_nodeIds ?b j" by simp
    moreover have "inj_on (bd_nodeIds ?b) (dom (bd_nodeIds ?b))" using inv unfolding builder_inv_def by blast
    ultimately show "i = j" using ij(1,2) by (simp add: inj_on_eq_iff)
  qed
  have pieces: "\<exists>i. indexOf g (si_id s) = Some i \<and> stored_as g s i \<and>
      ?node (si_fromNodeId s) = Some (fromNode (g_segments g ! i)) \<and> ?node (si_toNodeId s) = Some (toNode (g_segments g ! i))"
    if s: "s \<in> set (offered_pieces ops)" for s
  proof -
    obtain i where i: "i < length (gf_segments f)" "s = pd_input (map ((!) ps) byWay ! i)"
      using file_position [OF assms(1)] s inputs by metis
    have even: "\<forall>p\<in>set (bd_segments ?b). even (length (si_geometry (pd_input p)))" and zero: "CHR 0x00 \<notin> set (si_name s) \<union> set (si_ref s)"
      using assms(3) s by (auto simp: offer_ok_def list_all_iff inputs [symmetric])
    have st: "stored_as g s i" by (rule file_stores [OF assms(1,2) even i zero])
    let ?p = "map ((!) ps) byWay ! i"
    have m: "made_from nr (gf_strings f) (gf_geometry f) ?p (gf_segments f ! i)" using fp(2) i by (metis list_all2_conv_all_nth)
    have "?p \<in> set (bd_segments ?b)"
      using mset_eq_setD [OF fp(1)] list_all2_lengthD [OF fp(2)] i nth_mem [of i "map ((!) ps) byWay"] by simp
    then have "bd_nodeIds ?b (si_fromNodeId s) = Some (pd_from ?p)" "bd_nodeIds ?b (si_toNodeId s) = Some (pd_to ?p)"
      using inv unfolding builder_inv_def pending_ok_def i(2) by blast+
    with m find(1) [OF i(1)] st show ?thesis
      by (intro exI [of _ i]) (simp add: bind(2) stored_as_def made_from_def Let_def)
  qed
  have range: "v < length (g_nodes g)" if "?node i = Some v" for i v using that small fn(1,2) by (auto simp: bind(1))
  show "network_of ops g ?node"
    unfolding network_of_def
  proof (intro conjI allI impI ballI)
    show "dom ?node = (\<Union>s\<in>set (offered_pieces ops). {si_fromNodeId s, si_toNodeId s})" unfolding dom by (rule build_ends)
    show "inj_on ?node (dom ?node)" unfolding dom by (rule inj)
  qed (fact range, fact pieces)
qed

lemma same_order: "\<not> restriction_before y x \<longleftrightarrow> tr_before x y"
  by (auto simp: restriction_before_def tr_before_def)

text \<open>A restriction in terms of pieces: from the first piece of its way at the junction to the first of the other way.\<close>

definition piece_at :: "graph \<Rightarrow> int \<Rightarrow> nat \<Rightarrow> nat option" where
  "piece_at g w v = find (\<lambda>i. osmWayId (g_segments g ! i) = w \<and> (fromNode (g_segments g ! i) = v \<or> toNode (g_segments g ! i) = v))
     [0..<length (g_segments g)]"

definition restriction_on :: "graph \<Rightarrow> (int \<Rightarrow> nat option) \<Rightarrow> restriction_input \<Rightarrow> turn_restriction list" where
  "restriction_on g node r =
     (case node (ri_viaNodeId r) of None \<Rightarrow> []
      | Some v \<Rightarrow> (case (piece_at g (ri_fromWayId r) v, piece_at g (ri_toWayId r) v) of
            (Some i, Some j) \<Rightarrow> [\<lparr>fromSegment = i, viaNode = v, toSegment = j,
              tr_kind = (if ri_only r then kRestrictionOnly else kRestrictionProhibited)\<rparr>]
          | _ \<Rightarrow> []))"

lemma find_filter: "find P (filter Q xs) = find (\<lambda>x. Q x \<and> P x) xs"
  by (induction xs) auto

lemma find_touching_piece:
  assumes "ways_ok (g_segments g) (length (g_segments g)) W"
  shows "find_touching (g_segments g) W v w = (case piece_at g w v of None \<Rightarrow> kNoSegment | Some i \<Rightarrow> i)"
proof -
  obtain first count where fc: "segments_of_way W w = (first, count)" by fastforce
  with ways_lookup [OF assms, of w] show ?thesis by (simp add: find_touching_def piece_at_def find_filter)
qed

lemma piece_at_less: "piece_at g w v = Some i \<Longrightarrow> i < length (g_segments g)"
  by (auto simp: piece_at_def find_Some_iff)

lemma resolve_restrictions_meaning:
  assumes "ways_ok (g_segments g) (length (g_segments g)) W" "length (g_segments g) < 2 ^ 32"
  shows "\<exists>b'. fold (resolve_restriction (g_segments g) W nr) inputs (rs, b) =
      (rs @ concat (map (restriction_on g (map_option ((!) nr) \<circ> bd_nodeIds b)) inputs), b') \<and> bd_nodeIds b' = bd_nodeIds b \<and>
      bd_offered b' = bd_offered b + length inputs \<and>
      bd_resolved b' = bd_resolved b + length (concat (map (restriction_on g (map_option ((!) nr) \<circ> bd_nodeIds b)) inputs)) \<and>
      bd_unresolved b' + length (concat (map (restriction_on g (map_option ((!) nr) \<circ> bd_nodeIds b)) inputs)) =
        bd_unresolved b + length inputs"
proof (induction inputs arbitrary: rs b)
  case (Cons r inputs)
  let ?on = "restriction_on g (map_option ((!) nr) \<circ> bd_nodeIds b) r"
  have touch: "find_touching (g_segments g) W v w = kNoSegment \<longleftrightarrow> piece_at g w v = None" for v w
    using piece_at_less [of g w v] assms(2) by (auto simp: find_touching_piece [OF assms(1)] kNoSegment_def split: option.split)
  have "\<exists>b1. resolve_restriction (g_segments g) W nr r (rs, b) = (rs @ ?on, b1) \<and> bd_nodeIds b1 = bd_nodeIds b \<and>
      bd_offered b1 = bd_offered b + 1 \<and> bd_resolved b1 = bd_resolved b + length ?on \<and>
      bd_unresolved b1 + length ?on = bd_unresolved b + 1"
  proof (cases "bd_nodeIds b (ri_viaNodeId r)")
    case None
    then show ?thesis by (simp add: resolve_restriction_def Let_def restriction_on_def)
  next
    case (Some v)
    then show ?thesis
      by (cases "piece_at g (ri_fromWayId r) (nr ! v)"; cases "piece_at g (ri_toWayId r) (nr ! v)")
        (simp_all add: resolve_restriction_def Let_def restriction_on_def touch, simp add: find_touching_piece [OF assms(1)])
  qed
  then obtain b1 where 1: "resolve_restriction (g_segments g) W nr r (rs, b) = (rs @ ?on, b1)" "bd_nodeIds b1 = bd_nodeIds b"
    "bd_offered b1 = bd_offered b + 1" "bd_resolved b1 = bd_resolved b + length ?on"
    "bd_unresolved b1 + length ?on = bd_unresolved b + 1" by blast
  let ?all = "concat (map (restriction_on g (map_option ((!) nr) \<circ> bd_nodeIds b)) inputs)"
  from Cons.IH [of "rs @ ?on" b1] obtain b2 where 2:
    "fold (resolve_restriction (g_segments g) W nr) inputs (rs @ ?on, b1) = (rs @ ?on @ ?all, b2)" "bd_nodeIds b2 = bd_nodeIds b"
    "bd_offered b2 = bd_offered b1 + length inputs" "bd_resolved b2 = bd_resolved b1 + length ?all"
    "bd_unresolved b2 + length ?all = bd_unresolved b1 + length inputs"
    unfolding 1(2) append_assoc by blast
  show ?case by (rule exI [of _ b2]) (use 1 2 in \<open>simp add: comp_def\<close>)
qed simp

section \<open>What the builder builds\<close>

lemma offered_pieces_append:
  "offered_pieces (ops @ [AddSegment s]) = offered_pieces ops @ (if length (si_geometry s) < 4 then [] else [s])"
  "offered_pieces (ops @ [AddRestriction r]) = offered_pieces ops"
  by (simp_all add: offered_pieces_def)

lemma build_counts:
  "bd_offered (build crow ops) = 0" "bd_resolved (build crow ops) = 0" "bd_unresolved (build crow ops) = 0"
  "length (bd_nodes (build crow ops)) \<le> 2 * length (offered_pieces ops)"
proof -
  have "bd_offered (build crow ops) = 0 \<and> bd_resolved (build crow ops) = 0 \<and> bd_unresolved (build crow ops) = 0 \<and>
      length (bd_nodes (build crow ops)) \<le> 2 * length (offered_pieces ops)"
  proof (induction ops rule: rev_induct)
    case (snoc op ops)
    have step: "build crow (ops @ [op]) = builder_apply crow op (build crow ops)" by (simp add: build_def)
    have node: "bd_offered (snd (nodeFor i lat lon b)) = bd_offered b \<and> bd_resolved (snd (nodeFor i lat lon b)) = bd_resolved b \<and>
        bd_unresolved (snd (nodeFor i lat lon b)) = bd_unresolved b \<and>
        length (bd_nodes (snd (nodeFor i lat lon b))) \<le> length (bd_nodes b) + 1" for i lat lon b
      by (simp add: nodeFor_def split: option.split)
    show ?case
    proof (cases op)
      case (AddSegment s)
      let ?b = "build crow ops" and ?g = "si_geometry s"
      obtain u b1 where 1: "nodeFor (si_fromNodeId s) (?g ! 0) (?g ! 1) ?b = (u, b1)" by fastforce
      obtain v b2 where 2: "nodeFor (si_toNodeId s) (?g ! (length ?g - 2)) (?g ! (length ?g - 1)) b1 = (v, b2)" by fastforce
      have "bd_offered b2 = 0 \<and> bd_resolved b2 = 0 \<and> bd_unresolved b2 = 0 \<and> length (bd_nodes b2) \<le> 2 * length (offered_pieces ops) + 2"
        using node [of "si_fromNodeId s" "?g ! 0" "?g ! 1" ?b] node [of "si_toNodeId s" "?g ! (length ?g - 2)" "?g ! (length ?g - 1)" b1]
          1 2 snoc by simp
      moreover have "builder_add crow s ?b = (if length ?g < 4 then ?b else b2\<lparr>bd_segments := bd_segments b2 @
          [\<lparr>pd_input = s, pd_from = u, pd_to = v, pd_lengthCm = polylineLengthCm crow ?g\<rparr>]\<rparr>)"
        using 1 2 by (simp add: builder_add_def Let_def)
      ultimately show ?thesis using step snoc by (simp add: AddSegment offered_pieces_append)
    qed (use step snoc in \<open>simp add: addRestriction_def offered_pieces_append\<close>)
  qed (simp add: build_def new_builder_def)
  then show "bd_offered (build crow ops) = 0" "bd_resolved (build crow ops) = 0" "bd_unresolved (build crow ops) = 0"
    "length (bd_nodes (build crow ops)) \<le> 2 * length (offered_pieces ops)" by blast+
qed

lemma file_sizes:
  assumes "file_parts (build crow ops) f nr ps segs byWay"
  shows "length (gf_segments f) = length (offered_pieces ops)" "length (gf_edges f) \<le> 2 * length (offered_pieces ops)"
proof -
  let ?n = "length (gf_nodes f)"
  show l: "length (gf_segments f) = length (offered_pieces ops)"
    using file_pieces(3) [OF assms] build_inv(2) [of crow ops] by (metis length_map)
  have fs: "length (gf_edges f) = length (fst (build_edges segs ?n))" "length segs = length (gf_segments f)"
    using assms order_of_facts(1) [of "length segs" byWay] unfolding file_parts_def by auto
  have nodes: "\<forall>s\<in>set segs. fromNode s < ?n \<and> toNode s < ?n" using file_segments_wf [OF assms build_inv(1)] by blast
  have "length (segment_edges segs i) \<le> 2" for i by (simp add: segment_edges_def Let_def)
  then have "length (concat (map (segment_edges segs) [0..<m])) \<le> 2 * m" for m
  proof (induction m)
    case (Suc m)
    have "length (segment_edges segs m) \<le> 2" by (rule Suc.prems)
    with Suc.IH [OF Suc.prems] show ?case by simp
  qed simp
  then show "length (gf_edges f) \<le> 2 * length (offered_pieces ops)"
    using fs length_build_edges [OF nodes builder_nonempty(1) [OF assms build_inv(1)]] l by (metis all_edges_def)
qed

lemma built_opens:
  assumes "sorts srt"
  shows "case builder_write srt t (build crow ops) of Inl e \<Rightarrow> e = InvalidGraphArgument \<and> offered_pieces ops = []
    | Inr (f, b') \<Rightarrow> offered_pieces ops \<noteq> [] \<and>
        (if list_ex routable (offered_pieces ops) then (\<exists>g. graph_bind f = Inr g) else graph_bind f = Inl GraphMalformed)"
proof (cases "builder_write srt t (build crow ops)")
  case (Inl e)
  then have "bd_segments (build crow ops) = []" "e = InvalidGraphArgument"
    by (auto simp: builder_write_def Let_def split: if_splits prod.splits)
  with Inl build_inv(2) [of crow ops] show ?thesis by simp
next
  case (Inr w)
  obtain f b' where w: "w = (f, b')" by fastforce
  from Inr have "bd_segments (build crow ops) \<noteq> []" by (auto simp: builder_write_def)
  then have ne: "offered_pieces ops \<noteq> []" using build_inv(2) [of crow ops] by (metis map_is_Nil_conv)
  obtain nr ps segs byWay where parts: "file_parts (build crow ops) f nr ps segs byWay"
    using built_parts [OF assms Inr [unfolded w]] by blast
  note binds = file_binds [OF parts build_inv(1)] and empty = file_edges_empty [OF parts build_inv(1)]
  have "list_ex routable (offered_pieces ops) \<longleftrightarrow> (\<exists>p\<in>set (bd_segments (build crow ops)). routable (pd_input p))"
    using build_inv(2) [of crow ops] by (simp add: list_ex_iff flip: set_map) (metis image_iff list.set_map)
  then have "list_ex routable (offered_pieces ops) \<longleftrightarrow> gf_edges f \<noteq> []" using empty by blast
  with binds ne show ?thesis by (simp add: Inr w)
qed

lemma built_wf:
  assumes "sorts srt" "builder_write srt t (build crow ops) = Inr (f, b')" "graph_bind f = Inr g" "length (offered_pieces ops) < 2 ^ 31"
  shows "graph_wf g" "positive_costs g" "length (g_edges g) < 2 ^ 32" "g_edges g \<noteq> []" "length (g_segments g) < 2 ^ 31"
proof -
  obtain nr ps segs byWay where parts: "file_parts (build crow ops) f nr ps segs byWay" using built_parts [OF assms(1,2)] by blast
  note bind = bind_fields [OF assms(3)]
  have "length (bd_nodes (build crow ops)) < 2 ^ 32 - 1" using build_counts(4) [of crow ops] assms(4) by simp
  from file_graph_wf [OF parts build_inv(1) this assms(3)] show "graph_wf g" "positive_costs g" .
  show "length (g_edges g) < 2 ^ 32" "g_edges g \<noteq> []" "length (g_segments g) < 2 ^ 31"
    using file_sizes [OF parts] assms(4) bind by simp_all
qed

lemma edges_of_row:
  assumes "v + 1 < 2 ^ 32" "v + 1 < length (g_csrOffsets g)" "g_csrOffsets g ! (v + 1) \<le> length (g_edges g)"
  shows "map ((!) (g_edges g)) (edgesFrom g v) = csr_row (g_csrOffsets g) (g_edges g) v"
proof -
  have "edgesFrom g v = [g_csrOffsets g ! v ..< g_csrOffsets g ! (v + 1)]" using assms(1,2) by (simp add: edgesFrom_def)
  then show ?thesis unfolding csr_row_def using assms(3) by (intro nth_equalityI) (auto simp: min_def)
qed

lemma built_edges:
  assumes "sorts srt" "builder_write srt t (build crow ops) = Inr (f, b')" "graph_bind f = Inr g" "length (offered_pieces ops) < 2 ^ 31"
    and "v < length (g_nodes g)"
  shows "distinct (map ((!) (g_edges g)) (edgesFrom g v))"
    "set (map ((!) (g_edges g)) (edgesFrom g v)) = {e. (v, e) \<in> set (all_edges (g_segments g))}"
proof -
  obtain nr ps segs byWay where parts: "file_parts (build crow ops) f nr ps segs byWay" using built_parts [OF assms(1,2)] by blast
  note bind = bind_fields [OF assms(3)]
  have wf: "graph_wf g" using built_wf(1) [OF assms(1-4)] .
  have v: "v + 1 < length (g_csrOffsets g)" "v + 1 < 2 ^ 32" using wf assms(5) by (simp_all add: graph_wf_def)
  have "g_csrOffsets g ! (v + 1) \<le> length (g_edges g)" using wf v(1) by (simp add: graph_wf_def list_all_length)
  note row = edges_of_row [OF v(2,1) this]
  have "v < length (gf_nodes f)" using assms(5) bind by simp
  from file_edges [OF parts build_inv(1) this] show "distinct (map ((!) (g_edges g)) (edgesFrom g v))"
    "set (map ((!) (g_edges g)) (edgesFrom g v)) = {e. (v, e) \<in> set (all_edges (g_segments g))}"
    unfolding row by (simp_all add: bind)
qed

lemma all_edges_open:
  assumes "i < length segs" "routed (segs ! i)"
  shows "forwardOpen (segs ! i) \<Longrightarrow> (fromNode (segs ! i), \<lparr>ed_segment = i, ed_target = toNode (segs ! i),
      costDs = free_flow_costDs (segs ! i), ed_forward = 1\<rparr>) \<in> set (all_edges segs)"
    and "backwardOpen (segs ! i) \<Longrightarrow> (toNode (segs ! i), \<lparr>ed_segment = i, ed_target = fromNode (segs ! i),
      costDs = free_flow_costDs (segs ! i), ed_forward = 0\<rparr>) \<in> set (all_edges segs)"
  using assms by (auto simp: all_edges_cases segment_edges_cases)

section \<open>Properties\<close>

text \<open>A triangle of streets for the witnesses, one of them one-way, with a banned turn, and a footpath on its own.\<close>

definition demo_class :: "bool \<Rightarrow> route_class \<Rightarrow> road_classification" where
  "demo_class oneway class = no_classification\<lparr>cl_renderClass := RenderMinor, cl_routeClass := class, cl_access := kVehicle,
     cl_onewayForward := oneway, cl_freeFlowSpeedKph := 45\<rparr>"

lemma demo_access: "cl_routable (no_classification\<lparr>cl_renderClass := RenderMinor, cl_routeClass := class, cl_access := kVehicle,
     cl_onewayForward := oneway, cl_freeFlowSpeedKph := 45\<rparr>) \<longleftrightarrow> class \<noteq> RouteNone"
  by (simp add: cl_routable_def kVehicle_def access_bits)

definition demo_piece :: "nat \<Rightarrow> int \<Rightarrow> int \<Rightarrow> int list \<Rightarrow> bool \<Rightarrow> route_class \<Rightarrow> segment_input" where
  "demo_piece way src dst geometry oneway class = \<lparr>si_id = makeSegmentId (of_nat way) 0, si_osmWayId = int way,
     si_geometry = geometry, si_fromNodeId = src, si_toNodeId = dst, si_classification = demo_class oneway class,
     si_name = ''Elm'', si_ref = []\<rparr>"

definition demo_ops :: "builder_op list" where
  "demo_ops = [AddSegment (demo_piece 7 100 101 [0, 0, 0, 9000] False RouteMinor),
     AddSegment (demo_piece 8 101 102 [0, 9000, 9000, 0] True RouteMinor), AddSegment (demo_piece 9 100 102 [0, 0, 9000, 0] False RouteMinor),
     AddRestriction \<lparr>ri_fromWayId = 7, ri_viaNodeId = 101, ri_toWayId = 8, ri_only = False\<rparr>]"

definition demo_crow :: "node_record \<Rightarrow> node_record \<Rightarrow> rat" where
  "demo_crow a b = 100"

lemma demo_accepted: "offered_pieces demo_ops = [demo_piece 7 100 101 [0, 0, 0, 9000] False RouteMinor,
    demo_piece 8 101 102 [0, 9000, 9000, 0] True RouteMinor, demo_piece 9 100 102 [0, 0, 9000, 0] False RouteMinor]"
  by (simp add: offered_pieces_def demo_ops_def demo_piece_def)

lemma demo_offer: "offer_ok demo_ops"
  by (simp add: offer_ok_def demo_accepted demo_piece_def makeSegmentId_def kSegmentOrdinalBits_def kSegmentOrdinalMask_def)

lemma demo_nodes: "length (bd_nodes (build demo_crow demo_ops)) = 3"
  by (simp add: build_def demo_ops_def demo_piece_def builder_add_def nodeFor_def new_builder_def addRestriction_def Let_def)

lemma demo_written: "\<exists>f b' g. builder_write insertion 0 (build demo_crow demo_ops) = Inr (f, b') \<and> graph_bind f = Inr g"
proof -
  have "list_ex routable (offered_pieces demo_ops)" "offered_pieces demo_ops \<noteq> []"
    by (simp_all add: demo_accepted routable_def demo_piece_def demo_class_def demo_access)
  with built_opens [OF insertion_sorts, where t = 0 and crow = demo_crow and ops = demo_ops] show ?thesis
    by (cases "builder_write insertion 0 (build demo_crow demo_ops)") auto
qed

text \<open>
  C12.  Writing fails exactly when no piece was offered.  A written file opens exactly when some piece can be driven along in
  some direction; when none can, \<open>write\<close> reports success and the file it wrote is refused as malformed.
\<close>

theorem built_file_opens:
  assumes "sorts srt"
  shows "case builder_write srt t (build crow ops) of Inl e \<Rightarrow> e = InvalidGraphArgument \<and> offered_pieces ops = []
    | Inr (f, b') \<Rightarrow> offered_pieces ops \<noteq> [] \<and>
        (if list_ex routable (offered_pieces ops) then (\<exists>g. graph_bind f = Inr g) else graph_bind f = Inl GraphMalformed)"
  by (rule built_opens [OF assms])

theorem built_file_opens_witness:
  "\<exists>f b'. builder_write insertion 0 (build demo_crow [AddSegment (demo_piece 5 200 201 [0, 0, 0, 500] False RouteNone)]) = Inr (f, b') \<and>
     graph_bind f = Inl GraphMalformed"
proof -
  let ?ops = "[AddSegment (demo_piece 5 200 201 [0, 0, 0, 500] False RouteNone)]"
  have "offered_pieces ?ops \<noteq> []" "\<not> list_ex routable (offered_pieces ?ops)"
    by (simp_all add: offered_pieces_def demo_piece_def routable_def demo_class_def demo_access)
  with built_file_opens [OF insertion_sorts, where t = 0 and crow = demo_crow and ops = ?ops] show ?thesis
    by (cases "builder_write insertion 0 (build demo_crow ?ops)") auto
qed

text \<open>
  C9.  What was offered comes back.  In the opened graph each accepted piece is found by its identity, with its way, geometry, name,
  reference and classification, between the nodes of its ends; two ends are one node exactly when they are the same
  OSM node, and no other identity is found.  The segments of a way are exactly the pieces offered of it, in the
  order of their ordinals.  This holds for every sort that meets the standard's promise.
\<close>

theorem built_graph_roundtrip:
  assumes "sorts srt" "builder_write srt t (build crow ops) = Inr (f, b')" "graph_bind f = Inr g" "offer_ok ops"
  shows "(\<exists>node. network_of ops g node) \<and> (\<forall>k. k \<in> si_id ` set (offered_pieces ops) \<or> indexOf g k = None) \<and>
    (\<forall>w. segmentsOfWay g w = filter (\<lambda>i. osmWayId (g_segments g ! i) = w) [0..<length (offered_pieces ops)] \<and>
       sorted (map (\<lambda>i. ordinalOf (sg_id (g_segments g ! i))) (segmentsOfWay g w)))"
proof (intro conjI allI)
  obtain nr ps segs byWay where parts: "file_parts (build crow ops) f nr ps segs byWay" using built_parts [OF assms(1,2)] by blast
  note net = file_network [OF parts assms(3,4)] and bind = bind_fields [OF assms(3)] and ways = file_ways [OF parts]
  show "\<exists>node. network_of ops g node" using net(1) by blast
  show "k \<in> si_id ` set (offered_pieces ops) \<or> indexOf g k = None" for k using net(2) [of k] by (cases "k \<in> si_id ` set (offered_pieces ops)") simp_all
  have "ways_ok (g_segments g) (length (offered_pieces ops)) (g_wayIndex g)" using ways(3) file_sizes(1) [OF parts] bind by simp
  from segmentsOfWay_ways [OF this]
  show w: "segmentsOfWay g w = filter (\<lambda>i. osmWayId (g_segments g ! i) = w) [0..<length (offered_pieces ops)]" for w .
  have "ordinalOf (sg_id (g_segments g ! i)) \<le> ordinalOf (sg_id (g_segments g ! j))"
    if "i \<in> set (segmentsOfWay g w)" "j \<in> set (segmentsOfWay g w)" "i < j" for i j w
  proof -
    have "\<not> way_before (g_segments g ! j) (g_segments g ! i)"
      using ways(1) that file_sizes(1) [OF parts] unfolding w by (simp add: bind sorted_wrt_iff_nth_less)
    then show ?thesis using that unfolding w by (simp add: way_before_def)
  qed
  moreover have "sorted_wrt (<) (segmentsOfWay g w)" for w unfolding w by (rule sorted_wrt_filter) simp
  ultimately show "sorted (map (\<lambda>i. ordinalOf (sg_id (g_segments g ! i))) (segmentsOfWay g w))" for w
    unfolding sorted_wrt_map by (rule sorted_wrt_mono_rel)
qed

theorem built_graph_roundtrip_witness:
  "\<exists>f b' g. builder_write insertion 0 (build demo_crow demo_ops) = Inr (f, b') \<and> graph_bind f = Inr g \<and>
     (\<exists>node. network_of demo_ops g node) \<and> indexOf g 3 = None"
proof -
  obtain f b' g where w: "builder_write insertion 0 (build demo_crow demo_ops) = Inr (f, b')" "graph_bind f = Inr g"
    using demo_written by blast
  have "(3 :: u64) \<notin> si_id ` set (offered_pieces demo_ops)"
    by (simp add: demo_accepted demo_piece_def makeSegmentId_def kSegmentOrdinalBits_def kSegmentOrdinalMask_def)
  with built_graph_roundtrip [OF insertion_sorts w demo_offer] w show ?thesis by blast
qed

text \<open>
  C10.  The edges leaving a node of the opened graph are exactly the open directions of the segments there, each once: forwards
  from its start unless it is one-way against its geometry, backwards from its end unless it is one-way along it, and
  none for a segment that is not routed.  Each has its segment's free-flow time and leads to the other end.
\<close>

theorem built_edges_exact:
  assumes "sorts srt" "builder_write srt t (build crow ops) = Inr (f, b')" "graph_bind f = Inr g" "length (offered_pieces ops) < 2 ^ 31"
    and "v < length (g_nodes g)"
  shows "distinct (map ((!) (g_edges g)) (edgesFrom g v)) \<and>
    set (map ((!) (g_edges g)) (edgesFrom g v)) =
      {e. \<exists>i<length (g_segments g). let s = g_segments g ! i in routed s \<and>
         (forwardOpen s \<and> v = fromNode s \<and> e = \<lparr>ed_segment = i, ed_target = toNode s, costDs = free_flow_costDs s, ed_forward = 1\<rparr> \<or>
          backwardOpen s \<and> v = toNode s \<and> e = \<lparr>ed_segment = i, ed_target = fromNode s, costDs = free_flow_costDs s, ed_forward = 0\<rparr>)}"
  using built_edges [OF assms] by (auto simp: all_edges_cases segment_edges_cases Let_def)

theorem built_edges_exact_witness:
  "\<exists>f b' g. builder_write insertion 0 (build demo_crow demo_ops) = Inr (f, b') \<and> graph_bind f = Inr g \<and>
     distinct (map ((!) (g_edges g)) (edgesFrom g 2))"
proof -
  obtain f b' g where w: "builder_write insertion 0 (build demo_crow demo_ops) = Inr (f, b')" "graph_bind f = Inr g"
    using demo_written by blast
  obtain nr ps segs byWay where "file_parts (build demo_crow demo_ops) f nr ps segs byWay" using built_parts [OF insertion_sorts w(1)] by blast
  then have "2 < length (g_nodes g)" using file_nodes(1) demo_nodes bind_fields(1) [OF w(2)] by fastforce
  moreover have "length (offered_pieces demo_ops) < 2 ^ 31" by (simp add: demo_accepted)
  ultimately have "distinct (map ((!) (g_edges g)) (edgesFrom g 2))" using built_edges_exact [OF insertion_sorts w, of 2] by blast
  with w show ?thesis by blast
qed

text \<open>The restrictions from a piece at a junction; when they contradict each other; and whether they refuse to go on to a piece.\<close>

definition leaving :: "turn_restriction list \<Rightarrow> nat \<Rightarrow> nat \<Rightarrow> turn_restriction list" where
  "leaving rs i v = filter (\<lambda>r. fromSegment r = i \<and> viaNode r = v) rs"

definition contradict :: "turn_restriction list \<Rightarrow> bool" where
  "contradict rs \<longleftrightarrow> (\<exists>r\<in>set rs. \<exists>r'\<in>set rs. toSegment r = toSegment r' \<and> tr_kind r \<noteq> tr_kind r')"

definition refuse :: "turn_restriction list \<Rightarrow> nat \<Rightarrow> bool" where
  "refuse rs j \<longleftrightarrow> (\<exists>r\<in>set rs. tr_kind r = kRestrictionProhibited \<and> toSegment r = j) \<or>
     (\<exists>r\<in>set rs. tr_kind r \<noteq> kRestrictionProhibited) \<and> \<not> (\<exists>r\<in>set rs. tr_kind r \<noteq> kRestrictionProhibited \<and> toSegment r = j)"

lemma turnAllowed_refuse:
  assumes "sorted_wrt tr_before (g_restrictions g)" "set (g_restrictions g) = set rs"
  shows "contradict (leaving rs i v) \<or> (turnAllowed g i v j \<longleftrightarrow> \<not> refuse (leaving rs i v) j)"
proof -
  have same: "set (leaving rs i v) = set (restrictions_at g i v)" using assms(2) by (simp add: leaving_def restrictions_at_def)
  show ?thesis unfolding contradict_def refuse_def same using turnAllowed_meaning [OF assms(1), of i v j] by blast
qed

text \<open>
  C11.  A turn in the opened graph is allowed exactly as the offered restrictions say: each one stands for the turn, at its
  junction, from the first piece there of the one way to the first piece there of the other, or for nothing when the junction or a
  way is not in the graph, and the two counts say how many of them did.  A turn is refused when a prohibition
  stands for it, or when mandatory turns stand from the same piece at the same junction and none of them for it.
  Nothing is said of a piece and junction for which a turn is both prohibited and mandatory.
\<close>

theorem built_turns_exact:
  assumes "sorts srt" "builder_write srt t (build crow ops) = Inr (f, b')" "graph_bind f = Inr g" "offer_ok ops"
    and "length (offered_pieces ops) < 2 ^ 31"
  shows "\<exists>node. network_of ops g node \<and>
    (let on = concat (map (restriction_on g node) (restrictions_of ops)) in
      bd_offered b' = length (restrictions_of ops) \<and> bd_resolved b' = length on \<and>
      bd_unresolved b' = length (restrictions_of ops) - length on \<and>
      (\<forall>i v j. contradict (leaving on i v) \<or> (turnAllowed g i v j \<longleftrightarrow> \<not> refuse (leaving on i v) j)))"
proof -
  obtain nr ps segs byWay where parts: "file_parts (build crow ops) f nr ps segs byWay"
    and rest: "file_restrictions (build crow ops) f nr b'" using built_parts [OF assms(1,2)] by blast
  note bind = bind_fields [OF assms(3)]
  let ?node = "map_option ((!) nr) \<circ> bd_nodeIds (build crow ops)"
  let ?on = "concat (map (restriction_on g ?node) (restrictions_of ops))"
  have net: "network_of ops g ?node" by (rule file_network [OF parts assms(3,4)])
  have ways: "ways_ok (g_segments g) (length (g_segments g)) (gf_wayIndex f)" using file_ways(3) [OF parts] bind by simp
  have small: "length (g_segments g) < 2 ^ 32" using built_wf(5) [OF assms(1,2,3,5)] by simp
  obtain rs b1 where b1: "same_pieces (build crow ops) b1" "bd_offered b1 = 0" "bd_resolved b1 = 0" "bd_unresolved b1 = 0"
    "fold (resolve_restriction (gf_segments f) (gf_wayIndex f) nr) (restrictions_of ops) ([], b1) = (rs, b')"
    "mset (gf_restrictions f) = mset rs" "sorted_wrt (\<lambda>x y. \<not> restriction_before y x) (gf_restrictions f)"
    using rest build_counts [of crow ops] build_inv(3) [of crow ops] unfolding file_restrictions_def by auto
  have ids: "bd_nodeIds b1 = bd_nodeIds (build crow ops)" using b1(1) by (simp add: same_pieces_def)
  from resolve_restrictions_meaning [OF ways small, of nr "restrictions_of ops" "[]" b1] b1(5)
  have counts: "rs = ?on" "bd_offered b' = length (restrictions_of ops)" "bd_resolved b' = length ?on"
    "bd_unresolved b' + length ?on = length (restrictions_of ops)" unfolding ids b1(2-4) bind(2) by auto
  have "sorted_wrt tr_before (g_restrictions g)" using b1(7) by (simp add: bind same_order)
  note turns = turnAllowed_refuse [OF this]
  have "set (g_restrictions g) = set ?on" using mset_eq_setD [OF b1(6)] by (simp add: bind counts(1))
  note turns = turns [OF this]
  have "bd_unresolved b' = length (restrictions_of ops) - length ?on" using counts(4) by linarith
  then show ?thesis unfolding Let_def using counts(2,3) turns net by blast
qed

theorem built_turns_exact_witness:
  "\<exists>f b' g. builder_write insertion 0 (build demo_crow demo_ops) = Inr (f, b') \<and> graph_bind f = Inr g \<and> bd_offered b' = 1"
proof -
  obtain f b' g where w: "builder_write insertion 0 (build demo_crow demo_ops) = Inr (f, b')" "graph_bind f = Inr g"
    using demo_written by blast
  have "length (offered_pieces demo_ops) < 2 ^ 31" by (simp add: demo_accepted)
  moreover have "length (restrictions_of demo_ops) = 1" by (simp add: restrictions_of_def demo_ops_def)
  ultimately have "bd_offered b' = 1"
    using built_turns_exact [OF insertion_sorts w demo_offer] unfolding Let_def by metis
  with w show ?thesis by blast
qed

text \<open>
  C8.  From pieces to routes.  For every graph the builder wrote that opens, and every overlay \<open>buildOverlay\<close> makes of it, a query
  always returns: with a legal drive of the least cost there is, described segment by segment, or with nothing when no
  legal drive exists.  Nothing is assumed of the graph but its size: the builder's layout is proved to meet what the searches need.
\<close>

theorem built_graph_quickest:
  assumes "sorts srt" "builder_write srt t (build crow ops) = Inr (f, b')" "graph_bind f = Inr g" "length (offered_pieces ops) < 2 ^ 31"
    and "heap_pick pick" "buildOverlay g wpick options = Some (Inr ov)" "dst < length (g_nodes g)" "src \<noteq> dst"
  shows "\<exists>r. findRouteVia g ov pick src dst = Some r \<and>
    (case r of None \<Rightarrow> \<forall>es. \<not> legal_drive g src es dst
     | Some route \<Rightarrow> \<exists>es. legal_drive g src es dst \<and> route_describes g es route \<and> ro_durationS route = drive_cost g 0 es \<and>
         (\<forall>fs. legal_drive g src fs dst \<longrightarrow> drive_costDs g es \<le> drive_costDs g fs))"
proof -
  note built = built_wf [OF assms(1-4)]
  from build_overlay [OF built(1,2,4), of wpick options] assms(6) have "overlay_ok g ov" by simp
  from via_quickest [OF built(1,3) assms(5) this assms(7,8)] show ?thesis .
qed

theorem built_graph_quickest_witness:
  "\<exists>f b' g ov r. builder_write insertion 0 (build demo_crow demo_ops) = Inr (f, b') \<and> graph_bind f = Inr g \<and>
     buildOverlay g first_min \<lparr>witnessSettleLimit = 200, witnessHopLimit = 5, stopAtFraction = 19 / 20\<rparr> = Some (Inr ov) \<and>
     findRouteVia g ov first_min 0 2 = Some r"
proof -
  obtain f b' g where w: "builder_write insertion 0 (build demo_crow demo_ops) = Inr (f, b')" "graph_bind f = Inr g"
    using demo_written by blast
  obtain nr ps segs byWay where "file_parts (build demo_crow demo_ops) f nr ps segs byWay" using built_parts [OF insertion_sorts w(1)] by blast
  then have n: "2 < length (g_nodes g)" using file_nodes(1) demo_nodes bind_fields(1) [OF w(2)] by fastforce
  have len: "length (offered_pieces demo_ops) < 2 ^ 31" by (simp add: demo_accepted)
  note built = built_wf [OF insertion_sorts w len]
  obtain ov where ov: "buildOverlay g first_min \<lparr>witnessSettleLimit = 200, witnessHopLimit = 5, stopAtFraction = 19 / 20\<rparr> = Some (Inr ov)"
    using build_overlay [OF built(1,2,4)] by blast
  have "(0 :: nat) \<noteq> 2" by simp
  from built_graph_quickest [OF insertion_sorts w len heap_pick_first_min ov n this] w ov show ?thesis by blast
qed

text \<open>The drive of one edge along a piece: the edge is that of the segment the graph finds under the piece's identity.\<close>

definition driven_along :: "graph \<Rightarrow> segment_input \<Rightarrow> bool \<Rightarrow> nat \<Rightarrow> nat \<Rightarrow> bool" where
  "driven_along g s forward src dst \<longleftrightarrow>
     (\<exists>i. legal_drive g src [i] dst \<and> indexOf g (si_id s) = Some (ed_segment (g_edges g ! i)) \<and>
          (ed_forward (g_edges g ! i) \<noteq> 0 \<longleftrightarrow> forward))"

text \<open>
  C13.  Every piece that is open to anybody can be driven along: the searches find in the opened graph a legal drive of one edge, and
  the edge is the piece's own, forward from its start to its end unless the piece is one-way against its geometry, and backward from
  its end to its start unless it is one-way along it.  Other pieces between the same nodes and the kinds of traffic the piece is open
  to make no difference.
\<close>

theorem built_pieces_driven:
  assumes "sorts srt" "builder_write srt t (build crow ops) = Inr (f, b')" "graph_bind f = Inr g" "offer_ok ops"
    and "length (offered_pieces ops) < 2 ^ 31"
  shows "\<exists>node. network_of ops g node \<and> list_all (\<lambda>s. let c = si_classification s; src = the (node (si_fromNodeId s));
       dst = the (node (si_toNodeId s)) in
     (if cl_routable c \<and> \<not> cl_onewayBackward c then driven_along g s True src dst else True) \<and>
     (if cl_routable c \<and> \<not> cl_onewayForward c then driven_along g s False dst src else True)) (offered_pieces ops)"
proof -
  obtain nr ps segs byWay where parts: "file_parts (build crow ops) f nr ps segs byWay" using built_parts [OF assms(1,2)] by blast
  obtain node where net: "network_of ops g node" using file_network(1) [OF parts assms(3,4)] ..
  have step: "\<exists>i. legal_drive g v [i] (ed_target e) \<and> g_edges g ! i = e" if "(v, e) \<in> set (all_edges (g_segments g))" "v < length (g_nodes g)" for v e
  proof -
    have "e \<in> set (map ((!) (g_edges g)) (edgesFrom g v))" using built_edges(2) [OF assms(1-3,5) that(2)] that(1) by simp
    then obtain i where "i \<in> set (edgesFrom g v)" "g_edges g ! i = e" by auto
    then show ?thesis by (intro exI [of _ i]) (simp add: legal_drive_def)
  qed
  have "(if cl_routable c \<and> \<not> cl_onewayBackward c then driven_along g s True src dst else True) \<and>
      (if cl_routable c \<and> \<not> cl_onewayForward c then driven_along g s False dst src else True)"
    if "s \<in> set (offered_pieces ops)" and c: "c = si_classification s" "src = the (node (si_fromNodeId s))"
      "dst = the (node (si_toNodeId s))" for s c src dst
  proof -
    from network_piece [OF net that(1)] obtain i where i: "stored_as g s i" "indexOf g (si_id s) = Some i"
      "node (si_fromNodeId s) = Some (fromNode (g_segments g ! i))" "node (si_toNodeId s) = Some (toNode (g_segments g ! i))" by blast
    let ?s = "g_segments g ! i"
    have ends: "src = fromNode ?s" "dst = toNode ?s" using i(3,4) by (simp_all only: c option.sel)
    have range: "src < length (g_nodes g)" "dst < length (g_nodes g)" using network_range [OF net i(3)] network_range [OF net i(4)] ends by simp_all
    have len: "i < length (g_segments g)" and flags: "routed ?s \<longleftrightarrow> cl_routable c" "forwardOpen ?s \<longleftrightarrow> \<not> cl_onewayBackward c"
      "backwardOpen ?s \<longleftrightarrow> \<not> cl_onewayForward c"
      using i(1) by (auto simp: stored_as_def Let_def c routed_def cl_routable_def route_code_0 unat_eq_0 forwardOpen_def backwardOpen_def)
    have "driven_along g s True src dst" if "cl_routable c" "\<not> cl_onewayBackward c"
    proof -
      have "routed ?s" "forwardOpen ?s" using that flags by simp_all
      from step [OF all_edges_open(1) [OF len this], folded ends, OF range(1)] i(2) show ?thesis by (auto simp: ends driven_along_def)
    qed
    moreover have "driven_along g s False dst src" if "cl_routable c" "\<not> cl_onewayForward c"
    proof -
      have "routed ?s" "backwardOpen ?s" using that flags by simp_all
      from step [OF all_edges_open(2) [OF len this], folded ends, OF range(2)] i(2) show ?thesis by (auto simp: ends driven_along_def)
    qed
    ultimately show ?thesis by simp
  qed
  then show ?thesis using net unfolding list_all_iff Let_def by blast
qed

text \<open>Steps, which only pedestrians may use.\<close>

definition steps_ops :: "builder_op list" where
  "steps_ops = [AddSegment \<lparr>si_id = makeSegmentId 3 0, si_osmWayId = 3, si_geometry = [0, 0, 0, 500], si_fromNodeId = 300,
     si_toNodeId = 301, si_classification = classify [(''highway'', ''steps'')] False, si_name = [], si_ref = []\<rparr>]"

lemma steps_class:
  "classify [(''highway'', ''steps'')] False = no_classification\<lparr>cl_renderClass := RenderPath, cl_minZoom := 14, cl_labelRank := 10,
     cl_routeClass := RoutePath, cl_access := kAccessFoot, cl_postedSource := SpeedImplicitClass, cl_freeFlowSpeedKph := 2\<rparr>"
  by (simp add: classify_def tag_get_def tag_has_def tag_is_def highwayRule_def kHighways_def rule_row_def classify_highway_def
      applyAccess_def apply_key_def applyOneway_def applySpeed_def no_classification_def kFootOnly_def Let_def)

theorem built_pieces_driven_witness:
  "\<exists>f b' g node i. builder_write insertion 0 (build demo_crow steps_ops) = Inr (f, b') \<and> graph_bind f = Inr g \<and>
     cl_access (classify [(''highway'', ''steps'')] False) AND kAccessMotorcar = 0 \<and>
     network_of steps_ops g node \<and> legal_drive g (the (node 300)) [i] (the (node 301)) \<and>
     indexOf g (makeSegmentId 3 0) = Some (ed_segment (g_edges g ! i))"
proof -
  have way: "cl_routable (classify [(''highway'', ''steps'')] False)" and one: "\<not> cl_onewayBackward (classify [(''highway'', ''steps'')] False)"
    and "\<not> cl_onewayForward (classify [(''highway'', ''steps'')] False)"
    by (simp_all add: steps_class cl_routable_def no_classification_def kAccessFoot_def)
  then have "list_ex routable (offered_pieces steps_ops)" "offered_pieces steps_ops \<noteq> []"
    by (simp_all add: offered_pieces_def steps_ops_def routable_def)
  with built_opens [OF insertion_sorts, where t = 0 and crow = demo_crow and ops = steps_ops]
  obtain f b' g where w: "builder_write insertion 0 (build demo_crow steps_ops) = Inr (f, b')" "graph_bind f = Inr g"
    by (cases "builder_write insertion 0 (build demo_crow steps_ops)") auto
  have ops: "offer_ok steps_ops" "length (offered_pieces steps_ops) < 2 ^ 31"
    by (simp_all add: offer_ok_def offered_pieces_def steps_ops_def)
  have "cl_access (classify [(''highway'', ''steps'')] False) AND kAccessMotorcar = 0"
    by (simp add: steps_class access_bits)
  moreover obtain node where net: "network_of steps_ops g node" and drives: "list_all (\<lambda>s. let c = si_classification s;
       src = the (node (si_fromNodeId s)); dst = the (node (si_toNodeId s)) in
     (if cl_routable c \<and> \<not> cl_onewayBackward c then driven_along g s True src dst else True) \<and>
     (if cl_routable c \<and> \<not> cl_onewayForward c then driven_along g s False dst src else True)) (offered_pieces steps_ops)"
    using built_pieces_driven [OF insertion_sorts w ops] by blast
  moreover have "\<exists>i. legal_drive g (the (node 300)) [i] (the (node 301)) \<and>
      indexOf g (makeSegmentId 3 0) = Some (ed_segment (g_edges g ! i))"
    using drives way one by (auto simp: offered_pieces_def steps_ops_def Let_def driven_along_def)
  ultimately show ?thesis using w by blast
qed

end
