(* ===== verification/Spec2Isabelle.thy ===== *)
theory Spec2Isabelle
  imports Prelude CanFrame CanBitrate CanChannelId CanVirtual Eds CanOpenProtocol StubDevice
    CanOpenBus SdoClient SdoLink CanOpenMasters PdoMapping Csm LinkLayer LinkReceive LinkSend
    Gsof GsofTransport MselProtocol MselRelay MselNode
    Keypad KeypadApply KeypadTool Doubles RoadGraph BestFirst RoadSearch RoadRoute RoadTree
    Csr Hierarchy Contraction Overlay MapRules MapLabels RoadBuild RoadBuilt
begin

text \<open>
  A verification library of the digital dashboard's protocol libraries (C++, under src/libs and
  src/nodes).  The repository reads a vehicle's buses and devices and shows them: CAN adapters and
  logs, CANopen devices it can reconfigure, a GNSS receiver, a battery master relay, and an
  iPhone over the iAP2 protocol.  What all of these share is code that turns bytes from an
  unreliable peer into state, and state into bytes; that code is what is modelled here, each
  function from its source, and the theorems say what each component promises to its caller and
  what components promise together.

  \<^bold>\<open>Conventions.\<close>  A class or struct is a \<open>record\<close>, an enumeration a \<open>datatype\<close> with the source's
  enumerators, a fixed-width integer a word (arithmetic wraps) unless the section says why an
  \<open>int\<close> or \<open>nat\<close> is the same; a failed \<open>std::expected\<close> is \<open>Inl\<close>, an absent optional is \<open>None\<close>, and an
  operation of an object is a function from its state to its result and next state.  Message
  texts made for a person and log lines are left out.  An operation under a mutex is one step.
  Callbacks are modelled by the list of the calls they receive.  A clock read is an argument; one
  operation sees one time.  Code that is not in the repository (a transport, the decoders
  generated from a DBC file) is a parameter.

  \<^bold>\<open>Shared.\<close>  \<open>Doubles\<close>: IEEE doubles as rationals with their rounding.  \<open>Prelude\<close>: machine types, byte order, generic list facts, and the interfaces as
  locales: \<open>prefix_codec\<close> and \<open>prefix_stream\<close> (a codec that consumes exactly what was encoded;
  instances: control session parameters, DCOL packets), \<open>op_system\<close> (an invariant kept by every
  operation; instances: the stub device, the relay, the link's retransmission), \<open>op_simulation\<close> (a component against the specification of its operations;
  instance: the relay's settings), \<open>drop_oldest\<close> (a bounded queue; instance: the receive queue of
  a CAN channel), \<open>incremental\<close> (a consumer that does not see how its input is cut; instances:
  the link's receive buffer, the splitter of control messages).

  \<^bold>\<open>CAN\<close> (libs/can, libs/helpers).  \<open>CanFrame\<close>: the frame of can_frame.h and the length codes of
  dlc.cpp.  \<open>CanBitrate\<close>: the bit timing solver of bitrate.cpp, proved sound, optimal among all
  candidates, and exact about when it refuses, with the tolerance it really has; the loop's bounds come
  from the prescaler range.
  \<open>CanChannelId\<close>: channel names (channel_id.cpp) and the registry of drivers (backend.cpp).
  \<open>CanVirtual\<close>: virtual_backend.cpp, buses and channels as a store of channel objects in which a
  handle stands for a pointer; an operation on a dead handle or on the front of an empty queue is
  \<open>None\<close>.  \<open>vexec\<close> runs whole operations one after the other, \<open>conc_exec\<close> the steps of sends and
  deliveries under their own locks, interleaved in any way.  Its theorems: every step the callers'
  contract allows is defined and a close outside it is not harmless; a send that is not interleaved
  reaches exactly the other running channels.

  \<^bold>\<open>CANopen\<close> (libs/canopen).  \<open>Eds\<close>: the object dictionary (eds_ast.cpp).  \<open>CanOpenProtocol\<close>: the
  frames of SDO, LSS and NMT.  \<open>StubDevice\<close>: stub_device.cpp, the simulated device, one definition
  per service, with the invariant of its dictionary and node IDs.  \<open>CanOpenBus\<close>: the virtual bus
  with its clock (virtual_bus.cpp, bus.cpp) and the three clients that listen to it.  \<open>SdoClient\<close>
  and \<open>SdoLink\<close>: the SDO client (sdo.cpp) and, through the locale \<open>sdo_link\<close> of an exchange that
  brings the device's answer back, what an upload and a download mean in terms of the device's
  dictionary and of the declared types (\<open>object_write\<close>), with the two places where the device departs from them.  \<open>CanOpenMasters\<close>: the LSS and NMT masters (lss.cpp, nmt.cpp), the reconfiguration
  sequence, and bounds on any transfer whatever the devices do.  \<open>PdoMapping\<close>: bit fields and the
  layout of a PDO (pdo_bits.h, pdo_mapping.cpp).  Fuel: \<open>upload_segments\<close> runs the 1024 segments of
  kMaxSegments, the code's own bound; \<open>wait_loop\<close> recurses on the time that is left.

  \<^bold>\<open>iAP2\<close> (libs/iap2).  \<open>Csm\<close>: control session messages (csm.cpp), a round trip and its converse.
  \<open>LinkLayer\<close>: link_layer.cpp, every operation of the link: negotiation, the send window,
  acknowledgement, retransmission, resequencing, reassembly; the transport is \<open>ll_transport\<close>.
  \<open>LinkReceive\<close>: framing does not depend on how the stream is cut; packets in any order within the
  window are delivered once and in order.  \<open>LinkSend\<close>: a control message crosses the link whole, its packets
  reordered and repeated; the data packets on the wire are bounded by those handed over; the order in
  which a full window releases packets.

  \<^bold>\<open>GSOF\<close> (libs/gsof).  \<open>Gsof\<close>: DCOL packets (trimcomm.h) and the resynchronising framer
  (framer.cpp); \<open>framer_next\<close> recurses on the bytes that are left.  \<open>GsofTransport\<close>: the assembler of
  multi-page transmissions (transport.cpp) and the walk over records (tlv.h).

  \<^bold>\<open>MSEL relay\<close> (libs/msel, nodes/msel_master_relay).  \<open>MselProtocol\<close>: the wire protocol.
  \<open>MselRelay\<close>: the simulated relay, refined to a specification of its settings, and its invariant
  against arbitrary frames.  \<open>MselNode\<close>: the decoder, the hand-off of answers, and the node's move
  of the relay to another address.

  \<^bold>\<open>Keypad tool\<close> (nodes/grayhill_keypad).  \<open>Keypad\<close>: the desired state, the plan built from it and
  the device's EDS, and the execution of a plan over the bus.  \<open>KeypadApply\<close>: what each step of a
  plan does to the simulated keypad (\<open>goes\<close>: from any bus at rest around a given device, the steps
  are carried out, send the frames the plan shows, and leave a given device), and what each part
  of the builder adds to a plan.  \<open>KeypadTool\<close>: whole runs, from configuration to keypad.

  \<^bold>\<open>Road graph\<close> (libs/road_graph).  \<open>RoadGraph\<close>: the records of format.h, stable segment identities, and the
  lookups of an open graph (graph.h, graph.cpp) with the turn table; \<open>graph_wf\<close> says that every
  position a record names exists.  \<open>HeapQueue\<close> and \<open>BestFirst\<close>: the priority queues, whose choice among
  equal keys is the parameter \<open>pick\<close>, and the locale \<open>best_first\<close> of what both searches share.
  \<open>RoadSearch\<close>: the bounded search (BoundedSearch of search.cpp).  \<open>RoadRoute\<close>: the A* router
  (\<open>findRoute\<close>), legal and, with an admissible heuristic, optimal; and a street on which the heuristic is
  not admissible for any distance function that gives the arc of a meridian.  Both are \<open>while_option\<close> loops proved to end; sums are of doubles (\<open>Doubles\<close>),
  the distance as the crow flies is the parameter \<open>crow\<close>.  \<open>RoadTree\<close>: the packed tree as the builder
  grows it and the box query with its stack.  \<open>Csr\<close>: compressed rows.  \<open>Hierarchy\<close>: why taking nodes
  out of a graph keeps distances; \<open>Contraction\<close>: contraction.cpp, whose every contraction is such a step and
  whose loop ends because each turn takes out a node, refreshes a stale priority or shortens the queue.
  \<open>Overlay\<close>: the query of overlay.cpp with the locale \<open>label_search\<close> of one of its two directions; together with
  \<open>Contraction\<close> it answers with a quickest legal drive.  Costs there are natural numbers: the sums of
  32 bits wrap only past thirteen years of driving.  \<open>RoadBuild\<close>: the builder (builder.cpp), from pieces of ways and turn
  restrictions to the arrays of the file, ordered by the Hilbert curve of geometry.h with any sort that meets the promise
  of \<open>std::sort\<close>; \<open>RoadBuilt\<close>: what \<open>Graph::bind\<close> makes of them: every piece found again, the edges of each node, the
  turns the restrictions refuse, and that a built graph is one the searches and the overlay are right on.

  \<^bold>\<open>Map rules\<close> (libs/map_rules).  \<open>MapRules\<close>: what a way or a place is, from its OSM tags (classification.cpp), with access,
  direction and speed limits, and the way back to mph of the road sign display (dashboard/widgets/road_info); its
  classifications are what \<open>RoadBuild\<close> is given.  \<open>MapLabels\<close>: the label
  classifiers and the gate before them (labels.cpp).

  \<^bold>\<open>Not modelled.\<close>  Qt user interface and editor; sockets, USB and other operating system access
  (CAN adapters, the CarPlay pipeline, servers); Zenoh transports; third-party cryptography and
  media; the DBC and EDS text parsers, the bytes of the road graph's file and its nearest-road query (trigonometry),
  map building and rendering, and the record layouts of GSOF.
\<close>

end
